(* ===== verification/Prelude.thy ===== *)
theory Prelude imports Main "HOL-Library.Word" begin

text \<open>
  What every component shares: the machine integers of the C sources, the byte
  orders used on the air and in memory, the allocator's view of byte blocks, and
  small facts about lists.

  Integers keep their width: \<open>u8\<close>, \<open>u16\<close>, \<open>u32\<close> and \<open>u64\<close> are words and wrap as the C
  types do. A C pointer is a natural number with \<open>NULL = 0\<close>.
\<close>

unbundle bit_operations_syntax

type_synonym u8 = "8 word"
type_synonym u16 = "16 word"
type_synonym u32 = "32 word"
type_synonym u64 = "64 word"
type_synonym ptr = nat

text \<open>The clock of the native platform: \<open>unsigned long\<close> ticks of a millisecond.\<close>

type_synonym clock_time = "64 word"

abbreviation (input) NULL :: ptr where "NULL \<equiv> 0"

definition CLOCK_SECOND :: clock_time where
  "CLOCK_SECOND = 1000"

named_theorems byte_codec \<open>round trips of the fixed-width encoders\<close>
named_theorems mem_ops \<open>equations of the block store\<close>
named_theorems step_inv \<open>one fact per operation: it keeps its component's invariant\<close>

lemma unat_u8: "unat (v :: u8) < 256"
  using unsigned_less [of v] by simp

lemma unat_u8_le: "unat (v :: u8) \<le> 255"
  using unat_u8 [of v] by linarith

section \<open>Build options and random numbers\<close>

text \<open>
  The options of a build that the modelled code tests: \<open>IOTORII_NODE_TYPE\<close> (1 the root, 2 a
  common node), \<open>IOTORII_HLMAC_CAST\<close> (1 broadcast, 0 unicast), \<open>HLMAC_MAX_HLMAC\<close> and whether
  the target is the Cooja simulator.
\<close>

record build =
  node_type :: nat
  hlmac_cast :: nat
  hlmac_max :: int
  target_cooja :: bool

text \<open>
  \<open>random_rand\<close> truncates what the C library's \<open>rand\<close> returns to 16 bits; the sequence of its
  results is a parameter of a run.
\<close>

record rng =
  rand_src :: "nat \<Rightarrow> u16"
  rand_pos :: nat

definition random_rand :: "rng \<Rightarrow> u16 \<times> rng" where
  "random_rand r = (rand_src r (rand_pos r), r\<lparr>rand_pos := Suc (rand_pos r)\<rparr>)"

section \<open>Byte orders\<close>

text \<open>Little-endian order is what \<open>memcpy\<close> of an integer gives on the supported CPUs.\<close>

definition le16 :: "u16 \<Rightarrow> u8 list" where
  "le16 w = [ucast w, ucast (drop_bit 8 w)]"

definition le32 :: "u32 \<Rightarrow> u8 list" where
  "le32 w = [ucast w, ucast (drop_bit 8 w), ucast (drop_bit 16 w), ucast (drop_bit 24 w)]"

definition of_le16 :: "u8 list \<Rightarrow> u16" where
  "of_le16 bs = ucast (bs ! 0) OR push_bit 8 (ucast (bs ! 1))"

definition of_le32 :: "u8 list \<Rightarrow> u32" where
  "of_le32 bs = ucast (bs ! 0) OR push_bit 8 (ucast (bs ! 1))
     OR push_bit 16 (ucast (bs ! 2)) OR push_bit 24 (ucast (bs ! 3))"

lemma length_le16 [simp]: "length (le16 w) = 2"
  by (simp add: le16_def)

lemma length_le32 [simp]: "length (le32 w) = 4"
  by (simp add: le32_def)

lemma of_le16_le16 [simp, byte_codec]: "of_le16 (le16 w @ bs) = w"
  by (rule bit_word_eqI) (auto simp: of_le16_def le16_def bit_simps)

lemma of_le32_le32 [simp, byte_codec]: "of_le32 (le32 w @ bs) = w"
proof (rule bit_word_eqI)
  fix n assume "n < LENGTH(32)"
  then consider "n < 8" | "8 \<le> n \<and> n < 16" | "16 \<le> n \<and> n < 24" | "24 \<le> n \<and> n < 32"
    by force
  then show "bit (of_le32 (le32 w @ bs)) n = bit w n"
    by cases (auto simp: of_le32_def le32_def bit_simps)
qed

section \<open>Byte blocks\<close>

text \<open>
  \<open>sub xs off n\<close> is what \<open>memcpy (_, xs + off, n)\<close> reads; \<open>blit xs off ys\<close> is \<open>xs\<close> after
  \<open>memcpy (xs + off, ys, length ys)\<close>. Both are used within bounds.
\<close>

definition sub :: "'a list \<Rightarrow> nat \<Rightarrow> nat \<Rightarrow> 'a list" where
  "sub xs off n = take n (drop off xs)"

definition blit :: "'a list \<Rightarrow> nat \<Rightarrow> 'a list \<Rightarrow> 'a list" where
  "blit xs off ys = take off xs @ ys @ drop (off + length ys) xs"

lemma length_sub [simp]: "off + n \<le> length xs \<Longrightarrow> length (sub xs off n) = n"
  by (simp add: sub_def)

lemma length_blit [simp, mem_ops]: "off + length ys \<le> length xs \<Longrightarrow> length (blit xs off ys) = length xs"
  by (simp add: blit_def)

lemma sub_blit_same [simp, mem_ops]: "off \<le> length xs \<Longrightarrow> sub (blit xs off ys) off (length ys) = ys"
  by (simp add: sub_def blit_def)

lemma sub_0 [simp]: "sub xs 0 n = take n xs"
  by (simp add: sub_def)

lemma take_blit_0 [simp, mem_ops]: "take (length ys) (blit xs 0 ys) = ys"
  by (simp add: blit_def)

lemma sub_all [simp]: "sub xs 0 (length xs) = xs"
  by (simp add: sub_def)

lemma sub_blit_0_append [mem_ops]:
  "sub (blit xs 0 (ys @ zs)) (length ys) (length zs) = zs"
  by (simp add: sub_def blit_def)

lemma take_append_sub: "take a xs @ sub xs a b = take (a + b) xs"
  by (simp add: sub_def take_add)

lemma sub_blit_inside [mem_ops]:
  "off \<le> length xs \<Longrightarrow> h + l \<le> length ys \<Longrightarrow> sub (blit xs off ys) (off + h) l = sub ys h l"
  by (simp add: sub_def blit_def)

lemma sub_take [mem_ops]: "h + l \<le> t \<Longrightarrow> sub (take t xs) h l = sub xs h l"
  by (simp add: sub_def drop_take min_def)

lemma drop_sub: "drop k (sub xs off n) = sub xs (off + k) (n - k)"
  by (simp add: sub_def drop_take ac_simps)

end
