(* ===== verification/Contiki_List.thy ===== *)
theory Contiki_List imports Prelude begin

text \<open>
  The linked list library \<open>os/lib/list.c\<close>: a list variable is a head pointer, the items
  are linked through their first field. The state is the head and the map of \<open>next\<close>
  fields; the walks are partial functions, because they do not return on a cyclic list.

  \<open>lpath\<close> relates a pointer to the sequence of items it leads to. Every operation is
  proved to implement the corresponding function on sequences (\<open>alist_add\<close>,
  \<open>alist_push\<close>, \<open>alist_remove\<close>, \<open>alist_next\<close>), which the clients of the library use.
\<close>

record list_state =
  head :: ptr
  nxt :: "ptr \<Rightarrow> ptr"

section \<open>The operations\<close>

definition list_init :: "list_state \<Rightarrow> list_state" where
  "list_init s = s\<lparr>head := NULL\<rparr>"

definition list_head :: "list_state \<Rightarrow> ptr" where
  "list_head s = head s"

text \<open>\<open>list_copy\<close> copies the head only: both lists share their items.\<close>

definition list_copy :: "list_state \<Rightarrow> ptr \<Rightarrow> list_state" where
  "list_copy dest src = dest\<lparr>head := src\<rparr>"

partial_function (option) tail_walk :: "(ptr \<Rightarrow> ptr) \<Rightarrow> ptr \<Rightarrow> ptr option" where
  "tail_walk nx l = (if nx l \<noteq> NULL then tail_walk nx (nx l) else Some l)"

definition list_tail :: "list_state \<Rightarrow> ptr option" where
  "list_tail s = (if head s = NULL then Some NULL else tail_walk (nxt s) (head s))"

partial_function (option) remove_walk ::
  "ptr \<Rightarrow> ptr \<Rightarrow> ptr \<Rightarrow> list_state \<Rightarrow> list_state option" where
  "remove_walk item r l s =
     (if l = NULL then Some s
      else if l = item then
        (let s' = (if r = NULL then s\<lparr>head := nxt s l\<rparr>
                   else s\<lparr>nxt := (nxt s)(r := nxt s l)\<rparr>)
         in Some (s'\<lparr>nxt := (nxt s')(l := NULL)\<rparr>))
      else remove_walk item l (nxt s l) s)"

definition list_remove :: "ptr \<Rightarrow> list_state \<Rightarrow> list_state option" where
  "list_remove item s =
     (if head s = NULL then Some s else remove_walk item NULL (head s) s)"

definition list_add :: "ptr \<Rightarrow> list_state \<Rightarrow> list_state option" where
  "list_add item s =
     Option.bind (list_remove item s) (\<lambda>s1.
       let s2 = s1\<lparr>nxt := (nxt s1)(item := NULL)\<rparr> in
       Option.bind (list_tail s2) (\<lambda>l.
         Some (if l = NULL then s2\<lparr>head := item\<rparr>
               else s2\<lparr>nxt := (nxt s2)(l := item)\<rparr>)))"

definition list_push :: "ptr \<Rightarrow> list_state \<Rightarrow> list_state option" where
  "list_push item s =
     Option.bind (list_remove item s) (\<lambda>s1.
       Some (s1\<lparr>nxt := (nxt s1)(item := head s1), head := item\<rparr>))"

partial_function (option) chop_walk :: "ptr \<Rightarrow> list_state \<Rightarrow> (ptr \<times> list_state) option" where
  "chop_walk l s =
     (if nxt s (nxt s l) \<noteq> NULL then chop_walk (nxt s l) s
      else Some (nxt s l, s\<lparr>nxt := (nxt s)(l := NULL)\<rparr>))"

definition list_chop :: "list_state \<Rightarrow> (ptr \<times> list_state) option" where
  "list_chop s =
     (if head s = NULL then Some (NULL, s)
      else if nxt s (head s) = NULL then Some (head s, s\<lparr>head := NULL\<rparr>)
      else chop_walk (head s) s)"

definition list_pop :: "list_state \<Rightarrow> ptr \<times> list_state" where
  "list_pop s =
     (let l = head s
      in (l, if head s \<noteq> NULL then s\<lparr>head := nxt s (head s)\<rparr> else s))"

partial_function (option) length_walk :: "(ptr \<Rightarrow> ptr) \<Rightarrow> ptr \<Rightarrow> nat \<Rightarrow> nat option" where
  "length_walk nx l n = (if l \<noteq> NULL then length_walk nx (nx l) (Suc n) else Some n)"

definition list_length :: "list_state \<Rightarrow> nat option" where
  "list_length s = length_walk (nxt s) (head s) 0"

definition list_insert :: "ptr \<Rightarrow> ptr \<Rightarrow> list_state \<Rightarrow> list_state option" where
  "list_insert previtem newitem s =
     (if previtem = NULL then list_push newitem s
      else Option.bind (list_remove newitem s) (\<lambda>s1.
        let s2 = s1\<lparr>nxt := (nxt s1)(newitem := nxt s1 previtem)\<rparr>
        in Some (s2\<lparr>nxt := (nxt s2)(previtem := newitem)\<rparr>)))"

definition list_item_next :: "list_state \<Rightarrow> ptr \<Rightarrow> ptr" where
  "list_item_next s item = (if item = NULL then NULL else nxt s item)"

partial_function (option) contains_walk :: "(ptr \<Rightarrow> ptr) \<Rightarrow> ptr \<Rightarrow> ptr \<Rightarrow> bool option" where
  "contains_walk nx item l =
     (if l \<noteq> NULL then (if item = l then Some True else contains_walk nx item (nx l))
      else Some False)"

definition list_contains :: "list_state \<Rightarrow> ptr \<Rightarrow> bool option" where
  "list_contains s item = contains_walk (nxt s) item (head s)"

section \<open>Paths\<close>

fun lpath :: "(ptr \<Rightarrow> ptr) \<Rightarrow> ptr \<Rightarrow> ptr list \<Rightarrow> bool" where
  "lpath nx p [] \<longleftrightarrow> p = NULL"
| "lpath nx p (x # xs) \<longleftrightarrow> p = x \<and> x \<noteq> NULL \<and> lpath nx (nx x) xs"

text \<open>A segment: the items from \<open>p\<close> up to, not including, \<open>q\<close>.\<close>

fun lseg :: "(ptr \<Rightarrow> ptr) \<Rightarrow> ptr \<Rightarrow> ptr list \<Rightarrow> ptr \<Rightarrow> bool" where
  "lseg nx p [] q \<longleftrightarrow> p = q"
| "lseg nx p (x # xs) q \<longleftrightarrow> p = x \<and> x \<noteq> NULL \<and> lseg nx (nx x) xs q"

definition list_repr :: "list_state \<Rightarrow> ptr list \<Rightarrow> bool" where
  "list_repr s xs \<longleftrightarrow> lpath (nxt s) (head s) xs"

lemma lpath_NULL [simp]: "lpath nx NULL xs \<longleftrightarrow> xs = []"
  by (cases xs) auto

lemma lpath_nonempty: "p \<noteq> NULL \<Longrightarrow> lpath nx p xs \<longleftrightarrow> (\<exists>ys. xs = p # ys \<and> lpath nx (nx p) ys)"
  by (cases xs) auto

lemma lpath_append: "lpath nx p (xs @ ys) \<longleftrightarrow> (\<exists>q. lseg nx p xs q \<and> lpath nx q ys)"
  by (induction xs arbitrary: p) auto

lemma lpath_upd [simp]: "a \<notin> set xs \<Longrightarrow> lpath (nx(a := q)) p xs = lpath nx p xs"
  by (induction xs arbitrary: p) auto

lemma lseg_upd [simp]: "a \<notin> set xs \<Longrightarrow> lseg (nx(a := q)) p xs r = lseg nx p xs r"
  by (induction xs arbitrary: p) auto

lemma lpath_nonNULL: "lpath nx p xs \<Longrightarrow> NULL \<notin> set xs"
  by (induction xs arbitrary: p) auto

lemma lpath_unique: "lpath nx p xs \<Longrightarrow> lpath nx p ys \<Longrightarrow> xs = ys"
proof (induction xs arbitrary: p ys)
  case (Cons x xs)
  then show ?case by (cases ys) auto
qed auto

lemma lpath_hd_notin_tl: "lpath nx p (x # xs) \<Longrightarrow> x \<notin> set xs"
proof
  assume path: "lpath nx p (x # xs)" and "x \<in> set xs"
  then obtain us vs where "xs = us @ x # vs" by (auto simp: in_set_conv_decomp)
  with path have "lpath nx (nx x) vs" "lpath nx (nx x) (us @ x # vs)"
    by (auto simp: lpath_append)
  from lpath_unique [OF this] show False
    by (metis Suc_n_not_le_n add_leD1 add.commute le_add1 length_Cons length_append add_Suc_right)
qed

lemma lpath_distinct: "lpath nx p xs \<Longrightarrow> distinct xs"
proof (induction xs arbitrary: p)
  case (Cons x xs)
  then show ?case using lpath_hd_notin_tl [of nx p x xs] by auto
qed simp

lemma lseg_snoc: "lseg nx p (xs @ [a]) q \<longleftrightarrow> lseg nx p xs a \<and> a \<noteq> NULL \<and> nx a = q"
  by (induction xs arbitrary: p) auto

section \<open>The sequence operations\<close>

definition alist_remove :: "'a \<Rightarrow> 'a list \<Rightarrow> 'a list" where
  "alist_remove x xs = remove1 x xs"

definition alist_add :: "'a \<Rightarrow> 'a list \<Rightarrow> 'a list" where
  "alist_add x xs = alist_remove x xs @ [x]"

definition alist_push :: "'a \<Rightarrow> 'a list \<Rightarrow> 'a list" where
  "alist_push x xs = x # alist_remove x xs"

text \<open>The item after \<open>x\<close>; NULL for the last item, and for an item that is not linked.\<close>

fun alist_next :: "ptr list \<Rightarrow> ptr \<Rightarrow> ptr" where
  "alist_next (x # y # xs) p = (if p = x then y else alist_next (y # xs) p)"
| "alist_next _ p = NULL"

lemmas alist_defs = alist_remove_def alist_add_def alist_push_def

lemma set_alist_add: "set (alist_add x xs) = insert x (set xs)"
  by (auto simp: alist_defs set_remove1_subset dest: notin_set_remove1)
     (metis in_set_remove1)

lemma distinct_alist_add: "distinct xs \<Longrightarrow> distinct (alist_add x xs)"
  by (auto simp: alist_defs)

lemma distinct_alist_remove: "distinct xs \<Longrightarrow> distinct (alist_remove x xs)"
  by (simp add: alist_defs)

section \<open>Each operation implements its sequence operation\<close>

lemma tail_walk_last:
  "lpath nx p xs \<Longrightarrow> xs \<noteq> [] \<Longrightarrow> tail_walk nx p = Some (last xs)"
proof (induction xs arbitrary: p)
  case (Cons x xs)
  then show ?case
    by (subst tail_walk.simps) (cases xs; auto simp: lpath_nonempty)
qed simp

lemma list_tail_repr:
  "list_repr s xs \<Longrightarrow> list_tail s = Some (if xs = [] then NULL else last xs)"
  by (auto simp: list_repr_def list_tail_def intro!: tail_walk_last)

text \<open>
  The removal walk in the middle of the list: \<open>us\<close> is what it has passed, \<open>r\<close> its last
  item, \<open>xs\<close> what is left.
\<close>

lemma remove_walk_repr:
  assumes "lseg (nxt s) (head s) us l" "lpath (nxt s) l xs" "distinct (us @ xs)"
    and "r = (if us = [] then NULL else last us)" "item \<notin> set us"
  shows "\<exists>s'. remove_walk item r l s = Some s' \<and> list_repr s' (us @ remove1 item xs)
           \<and> (if item \<in> set xs then nxt s' item = NULL else s' = s)"
  using assms
proof (induction xs arbitrary: us r l)
  case Nil
  then show ?case
    using lpath_append [of "nxt s" "head s" us "[]"]
    by (subst remove_walk.simps) (auto simp: list_repr_def)
next
  case (Cons x xs)
  then have x: "l = x" "x \<noteq> NULL" "lpath (nxt s) (nxt s x) xs" by auto
  show ?case
  proof (cases "x = item")
    case False
    have "lseg (nxt s) (head s) (us @ [x]) (nxt s x)"
      using Cons.prems x by (simp add: lseg_snoc)
    with Cons.IH [of "us @ [x]" "nxt s x" x] Cons.prems x False show ?thesis
      by (subst remove_walk.simps) auto
  next
    case True
    show ?thesis
    proof (cases us rule: rev_cases)
      case Nil
      with Cons.prems x True show ?thesis
        by (subst remove_walk.simps) (auto simp: list_repr_def)
    next
      case (snoc vs v)
      with Cons.prems x True have
        "lseg (nxt s) (head s) vs v" "v \<noteq> NULL" "v \<noteq> item" "v \<notin> set vs" "v \<notin> set xs"
        "item \<notin> set vs" "item \<notin> set xs"
        by (auto simp: lseg_snoc)
      with Cons.prems x True snoc show ?thesis
        by (subst remove_walk.simps) (auto simp: list_repr_def lpath_append Let_def)
    qed
  qed
qed

lemma list_remove_repr:
  assumes "list_repr s xs"
  shows "\<exists>s'. list_remove item s = Some s' \<and> list_repr s' (alist_remove item xs)
           \<and> (if item \<in> set xs then nxt s' item = NULL else s' = s)"
  using remove_walk_repr [of s "[]" "head s" xs NULL item] assms
  by (auto simp: list_repr_def list_remove_def alist_defs dest: lpath_distinct)

lemma lpath_extend:
  assumes "lpath nx p xs" "xs \<noteq> []" "item \<notin> set xs" "item \<noteq> NULL" "nx item = NULL"
  shows "lpath (nx(last xs := item)) p (xs @ [item])"
proof -
  obtain ys y where xs: "xs = ys @ [y]" using assms(2) by (cases xs rule: rev_cases) auto
  with assms(1) have "y \<notin> set ys" using lpath_distinct by fastforce
  with assms xs show ?thesis by (auto simp: lpath_append)
qed

lemma list_add_repr:
  assumes "list_repr s xs" "item \<noteq> NULL"
  shows "\<exists>s'. list_add item s = Some s' \<and> list_repr s' (alist_add item xs)"
proof -
  let ?ys = "alist_remove item xs"
  obtain s1 where s1: "list_remove item s = Some s1" "list_repr s1 ?ys"
    using list_remove_repr [OF assms(1)] by blast
  have fresh: "item \<notin> set ?ys"
    using assms(1) lpath_distinct by (auto simp: list_repr_def alist_defs)
  let ?s2 = "s1\<lparr>nxt := (nxt s1)(item := NULL)\<rparr>"
  have repr2: "list_repr ?s2 ?ys" using s1(2) fresh by (simp add: list_repr_def)
  show ?thesis
  proof (cases "?ys = []")
    case True
    with s1 repr2 assms(2) list_tail_repr [OF repr2] show ?thesis
      by (auto simp: list_add_def list_repr_def alist_add_def)
  next
    case False
    have "NULL \<notin> set ?ys"
      using repr2 lpath_nonNULL unfolding list_repr_def by blast
    with False have "last ?ys \<noteq> NULL" by (metis last_in_set)
    with False s1 repr2 assms(2) fresh list_tail_repr [OF repr2] show ?thesis
      using lpath_extend [of "nxt ?s2" "head ?s2" ?ys item]
      by (auto simp: list_add_def list_repr_def alist_add_def)
  qed
qed

lemma list_push_repr:
  assumes "list_repr s xs" "item \<noteq> NULL"
  shows "\<exists>s'. list_push item s = Some s' \<and> list_repr s' (alist_push item xs)"
proof -
  obtain s1 where s1: "list_remove item s = Some s1" "list_repr s1 (alist_remove item xs)"
    using list_remove_repr [OF assms(1)] by blast
  have "item \<notin> set (alist_remove item xs)"
    using assms(1) lpath_distinct by (auto simp: list_repr_def alist_defs)
  with s1 assms(2) show ?thesis
    by (auto simp: list_push_def list_repr_def alist_push_def)
qed

lemma list_pop_repr:
  "list_repr s xs \<Longrightarrow> fst (list_pop s) = (if xs = [] then NULL else hd xs)
     \<and> list_repr (snd (list_pop s)) (tl xs)"
  by (cases xs) (auto simp: list_repr_def list_pop_def Let_def)

lemma chop_walk_repr:
  assumes "lseg (nxt s) (head s) us l" "lpath (nxt s) l xs" "distinct (us @ xs)"
    and "length xs \<ge> 2"
  shows "\<exists>s'. chop_walk l s = Some (last xs, s') \<and> list_repr s' (us @ butlast xs)"
  using assms
proof (induction xs arbitrary: us l)
  case (Cons x xs)
  then obtain y ys where xs: "xs = y # ys" by (cases xs) auto
  with Cons.prems have x: "l = x" "x \<noteq> NULL" "nxt s x = y" "y \<noteq> NULL" "lpath (nxt s) (nxt s y) ys"
    by auto
  show ?case
  proof (cases ys)
    case Nil
    with x xs Cons.prems show ?thesis
      by (subst chop_walk.simps) (auto simp: list_repr_def lpath_append)
  next
    case (Cons z zs)
    with x xs Cons.prems Cons.IH [of "us @ [x]" y] show ?thesis
      by (subst chop_walk.simps) (auto simp: lseg_snoc)
  qed
qed simp

lemma list_chop_repr:
  assumes "list_repr s xs"
  shows "\<exists>s'. list_chop s = Some (if xs = [] then NULL else last xs, s')
           \<and> list_repr s' (butlast xs)"
proof -
  consider "xs = []" | x where "xs = [x]" | x y ys where "xs = x # y # ys"
    by (cases xs rule: remdups_adj.cases) auto
  then show ?thesis
  proof cases
    case 3
    have "distinct xs" using assms lpath_distinct by (auto simp: list_repr_def)
    with 3 show ?thesis
      using assms chop_walk_repr [of s "[]" "head s" xs]
      by (auto simp: list_repr_def list_chop_def)
  qed (use assms in \<open>auto simp: list_repr_def list_chop_def\<close>)
qed

text \<open>\<open>list_insert\<close> after a linked item other than the new one.\<close>

lemma list_insert_repr:
  assumes "list_repr s (us @ prev # vs)" "new \<noteq> NULL" "new \<notin> set (us @ prev # vs)"
  shows "\<exists>s'. list_insert prev new s = Some s' \<and> list_repr s' (us @ prev # new # vs)"
proof -
  let ?xs = "us @ prev # vs"
  obtain s1 where s1: "list_remove new s = Some s1" "s1 = s"
    using list_remove_repr [OF assms(1), of new] assms(3) by auto
  have "distinct ?xs" "prev \<noteq> NULL"
    using assms(1) lpath_distinct lpath_nonNULL by (fastforce simp: list_repr_def)+
  with s1 assms show ?thesis
    by (auto simp: list_insert_def list_repr_def lpath_append Let_def)
qed

lemma length_walk_repr: "lpath nx p xs \<Longrightarrow> length_walk nx p n = Some (n + length xs)"
  by (induction xs arbitrary: p n; subst length_walk.simps) auto

lemma list_length_repr: "list_repr s xs \<Longrightarrow> list_length s = Some (length xs)"
  by (simp add: list_repr_def list_length_def length_walk_repr)

lemma contains_walk_repr: "lpath nx p xs \<Longrightarrow> contains_walk nx item p = Some (item \<in> set xs)"
  by (induction xs arbitrary: p; subst contains_walk.simps) auto

lemma list_contains_repr: "list_repr s xs \<Longrightarrow> list_contains s item = Some (item \<in> set xs)"
  by (simp add: list_repr_def list_contains_def contains_walk_repr)

lemma lpath_next: "lpath nx p xs \<Longrightarrow> x \<in> set xs \<Longrightarrow> nx x = alist_next xs x"
proof (induction xs arbitrary: p rule: induct_list012)
  case (3 x' y zs)
  then show ?case using lpath_hd_notin_tl [OF 3(3)] by (auto split: if_splits)
qed auto

lemma list_item_next_repr:
  "list_repr s xs \<Longrightarrow> x \<in> set xs \<Longrightarrow> list_item_next s x = alist_next xs x"
  using lpath_nonNULL by (auto simp: list_repr_def list_item_next_def lpath_next)

section \<open>The interface the clients rely on\<close>

text \<open>
  What the protocol code uses of the list library: the order in which items come back.
\<close>

locale linked_list =
  fixes repr :: "'s \<Rightarrow> ptr list \<Rightarrow> bool"
    and add :: "ptr \<Rightarrow> 's \<Rightarrow> 's option"
    and push :: "ptr \<Rightarrow> 's \<Rightarrow> 's option"
    and remove :: "ptr \<Rightarrow> 's \<Rightarrow> 's option"
    and pop :: "'s \<Rightarrow> ptr \<times> 's"
    and next_item :: "'s \<Rightarrow> ptr \<Rightarrow> ptr"
  assumes add: "repr s xs \<Longrightarrow> p \<noteq> NULL \<Longrightarrow> \<exists>s'. add p s = Some s' \<and> repr s' (alist_add p xs)"
    and push: "repr s xs \<Longrightarrow> p \<noteq> NULL \<Longrightarrow> \<exists>s'. push p s = Some s' \<and> repr s' (alist_push p xs)"
    and remove: "repr s xs \<Longrightarrow> \<exists>s'. remove p s = Some s' \<and> repr s' (alist_remove p xs)"
    and pop: "repr s xs \<Longrightarrow> fst (pop s) = (if xs = [] then NULL else hd xs) \<and> repr (snd (pop s)) (tl xs)"
    and next_item: "repr s xs \<Longrightarrow> p \<in> set xs \<Longrightarrow> next_item s p = alist_next xs p"
    and removed_next: "repr s xs \<Longrightarrow> p \<in> set xs \<Longrightarrow> remove p s = Some s' \<Longrightarrow> p \<noteq> NULL \<Longrightarrow> next_item s' p = NULL"
begin

lemma push_pop:
  assumes "repr s xs" "p \<noteq> NULL" "push p s = Some s'"
  shows "fst (pop s') = p \<and> repr (snd (pop s')) (alist_remove p xs)"
  using push [OF assms(1,2)] assms(3) pop [of s' "alist_push p xs"] by (auto simp: alist_push_def)

lemma adds_in_order:
  assumes "repr s xs" "distinct (xs @ ps)" "NULL \<notin> set ps"
  shows "\<exists>s'. foldl (\<lambda>so p. Option.bind so (add p)) (Some s) ps = Some s' \<and> repr s' (xs @ ps)"
  using assms
proof (induction ps arbitrary: s xs)
  case (Cons p ps)
  then obtain s1 where s1: "add p s = Some s1" "repr s1 (alist_add p xs)"
    using add [of s xs p] by auto
  with Cons.prems have "repr s1 (xs @ [p])" by (simp add: alist_defs remove1_idem)
  with Cons.IH [of s1 "xs @ [p]"] Cons.prems s1(1) show ?case by auto
qed simp

lemma re_add_moves_to_end:
  assumes "repr s xs" "p \<in> set xs" "p \<noteq> NULL" "add p s = Some s'"
  shows "repr s' (remove1 p xs @ [p])"
  using add [OF assms(1,3)] assms(4) by (simp add: alist_defs)

end

interpretation cl: linked_list list_repr list_add list_push list_remove list_pop list_item_next
proof
  show "list_item_next s' p = NULL"
    if "list_repr s xs" "p \<in> set xs" "list_remove p s = Some s'" "p \<noteq> NULL" for s xs p s'
    using list_remove_repr [OF that(1), of p] that by (simp add: list_item_next_def)
  show "\<exists>s'. list_remove p s = Some s' \<and> list_repr s' (alist_remove p xs)"
    if "list_repr s xs" for s xs p
    using list_remove_repr [OF that, of p] by blast
qed (fact list_add_repr list_push_repr list_pop_repr list_item_next_repr)+

end
