(* ===== verification/Contiki_Memb.thy ===== *)
theory Contiki_Memb imports Prelude begin

text \<open>
  The block allocator \<open>os/lib/memb.c\<close>: a pool of \<open>mnum\<close> blocks of \<open>msize\<close> bytes that
  starts at \<open>mbase\<close>, with one used flag per block. The index loops are recursive
  functions over the block index. The interface \<open>block_pool\<close> states what the MAC layer
  relies on: a returned block was free, and blocks are conserved.
\<close>

record memb =
  msize :: nat
  mnum :: nat
  mused :: "bool list"
  mbase :: ptr
  mmem :: "u8 list"

definition memb_init :: "memb \<Rightarrow> memb" where
  "memb_init m = m\<lparr>mused := replicate (mnum m) False, mmem := replicate (msize m * mnum m) 0\<rparr>"

function alloc_scan :: "memb \<Rightarrow> nat \<Rightarrow> ptr \<times> memb" where
  "alloc_scan m i =
     (if i < mnum m then
        if mused m ! i = False
        then (mbase m + i * msize m, m\<lparr>mused := (mused m)[i := True]\<rparr>)
        else alloc_scan m (Suc i)
      else (NULL, m))"
  by pat_completeness auto
termination
  by (relation "measure (\<lambda>(m, i). mnum m - i)") auto

definition memb_alloc :: "memb \<Rightarrow> ptr \<times> memb" where
  "memb_alloc m = alloc_scan m 0"

text \<open>\<open>ptr2\<close> is the moving pointer of the source's loop.\<close>

function free_scan :: "memb \<Rightarrow> ptr \<Rightarrow> nat \<Rightarrow> ptr \<Rightarrow> int \<times> memb" where
  "free_scan m p i ptr2 =
     (if i < mnum m then
        if ptr2 = p then
          if mused m ! i = False then (- 1, m)
          else (0, m\<lparr>mused := (mused m)[i := False]\<rparr>)
        else free_scan m p (Suc i) (ptr2 + msize m)
      else (- 1, m))"
  by pat_completeness auto
termination
  by (relation "measure (\<lambda>(m, p, i, q). mnum m - i)") auto

definition memb_free :: "memb \<Rightarrow> ptr \<Rightarrow> int \<times> memb" where
  "memb_free m p = free_scan m p 0 (mbase m)"

definition memb_inmemb :: "memb \<Rightarrow> ptr \<Rightarrow> bool" where
  "memb_inmemb m p \<longleftrightarrow> mbase m \<le> p \<and> p < mbase m + mnum m * msize m"

function numfree_scan :: "memb \<Rightarrow> nat \<Rightarrow> nat \<Rightarrow> nat" where
  "numfree_scan m i num_free =
     (if i < mnum m then
        numfree_scan m (Suc i) (if mused m ! i = False then Suc num_free else num_free)
      else num_free)"
  by pat_completeness auto
termination
  by (relation "measure (\<lambda>(m, i, n). mnum m - i)") auto

definition memb_numfree :: "memb \<Rightarrow> nat" where
  "memb_numfree m = numfree_scan m 0 0"

declare alloc_scan.simps [simp del] free_scan.simps [simp del] numfree_scan.simps [simp del]

section \<open>Well-formed pools and their blocks\<close>

definition memb_wf :: "memb \<Rightarrow> bool" where
  "memb_wf m \<longleftrightarrow> length (mused m) = mnum m \<and> 0 < msize m \<and> 0 < mbase m"

definition block_at :: "memb \<Rightarrow> nat \<Rightarrow> ptr" where
  "block_at m i = mbase m + i * msize m"

text \<open>The blocks that are handed out.\<close>

definition memb_live :: "memb \<Rightarrow> ptr set" where
  "memb_live m = block_at m ` {i. i < mnum m \<and> mused m ! i}"

lemma block_at_inj [simp]: "memb_wf m \<Longrightarrow> block_at m i = block_at m j \<longleftrightarrow> i = j"
  by (simp add: block_at_def memb_wf_def)

lemma block_at_nonNULL [simp]: "memb_wf m \<Longrightarrow> block_at m i \<noteq> NULL"
  by (simp add: block_at_def memb_wf_def)

lemma memb_wf_used [simp]: "memb_wf (m\<lparr>mused := (mused m)[i := b]\<rparr>) = memb_wf m"
  by (simp add: memb_wf_def)

lemma block_at_used [simp]: "block_at (m\<lparr>mused := u\<rparr>) = block_at m"
  by (auto simp: block_at_def)

lemma numfree_scan_eq:
  "numfree_scan m i n = n + card {j. i \<le> j \<and> j < mnum m \<and> \<not> mused m ! j}"
proof (induction m i n rule: numfree_scan.induct)
  case (1 m i n)
  show ?case
  proof (cases "i < mnum m")
    case True
    let ?A = "{j. Suc i \<le> j \<and> j < mnum m \<and> \<not> mused m ! j}"
    have "{j. i \<le> j \<and> j < mnum m \<and> \<not> mused m ! j} = (if mused m ! i then ?A else insert i ?A)"
      using True by (auto simp: Suc_le_eq) (metis le_neq_implies_less)+
    with 1 True show ?thesis
      by (subst numfree_scan.simps) (auto simp: card_insert_if)
  next
    case False
    then have "{j. i \<le> j \<and> j < mnum m \<and> \<not> mused m ! j} = {}" by auto
    with False show ?thesis by (subst numfree_scan.simps) simp
  qed
qed

lemma memb_numfree_eq: "memb_numfree m = card {j. j < mnum m \<and> \<not> mused m ! j}"
  by (simp add: memb_numfree_def numfree_scan_eq)

text \<open>The scan stops at the first free block, or at the end.\<close>

lemma alloc_scan_cases:
  "(\<exists>k. i \<le> k \<and> k < mnum m \<and> \<not> mused m ! k \<and> (\<forall>j. i \<le> j \<and> j < k \<longrightarrow> mused m ! j) \<and>
      alloc_scan m i = (block_at m k, m\<lparr>mused := (mused m)[k := True]\<rparr>)) \<or>
   ((\<forall>j. i \<le> j \<and> j < mnum m \<longrightarrow> mused m ! j) \<and> alloc_scan m i = (NULL, m))"
proof (induction m i rule: alloc_scan.induct)
  case (1 m i)
  consider "i < mnum m" "\<not> mused m ! i" | "i < mnum m" "mused m ! i" | "\<not> i < mnum m" by blast
  then show ?case
  proof cases
    case 2
    have upto: "(i \<le> j \<and> P j) = (j = i \<and> P j \<or> Suc i \<le> j \<and> P j)" for j and P :: "nat \<Rightarrow> bool"
      by auto
    from 2 "1.IH" show ?thesis
      by (subst (1 2) alloc_scan.simps) (simp add: upto; metis less_or_eq_imp_le Suc_leD Suc_leI le_neq_implies_less)
  qed (subst (1 2) alloc_scan.simps; auto simp: block_at_def)+
qed

lemmas memb_alloc_cases = alloc_scan_cases [of 0, folded memb_alloc_def, simplified]

lemma free_scan_hit:
  assumes "memb_wf m" "i \<le> k" "k < mnum m"
  shows "free_scan m (block_at m k) i (block_at m i) =
           (if mused m ! k then (0, m\<lparr>mused := (mused m)[k := False]\<rparr>) else (- 1, m))"
  using assms
proof (induction "k - i" arbitrary: i)
  case 0
  then show ?case by (subst free_scan.simps) auto
next
  case (Suc d)
  then have "block_at m i + msize m = block_at m (Suc i)" "i \<noteq> k" "i < mnum m"
    by (auto simp: block_at_def)
  with Suc show ?case by (subst free_scan.simps) auto
qed

lemma free_scan_miss:
  assumes "\<forall>k. i \<le> k \<and> k < mnum m \<longrightarrow> p \<noteq> block_at m k"
  shows "free_scan m p i (block_at m i) = (- 1, m)"
  using assms
proof (induction "mnum m - i" arbitrary: i)
  case 0
  then show ?case by (subst free_scan.simps) auto
next
  case (Suc d)
  then have "block_at m i + msize m = block_at m (Suc i)" "i < mnum m" "p \<noteq> block_at m i"
    by (auto simp: block_at_def)
  with Suc show ?case by (subst free_scan.simps) auto
qed

lemma block_at_0: "block_at m 0 = mbase m"
  by (simp add: block_at_def)

lemma memb_free_block:
  "memb_wf m \<Longrightarrow> k < mnum m \<Longrightarrow> memb_free m (block_at m k) =
     (if mused m ! k then (0, m\<lparr>mused := (mused m)[k := False]\<rparr>) else (- 1, m))"
  using free_scan_hit [of m 0 k] by (simp add: memb_free_def block_at_0)

section \<open>Allocation and release on the set of live blocks\<close>

lemma live_used_True:
  "memb_wf m \<Longrightarrow> k < mnum m \<Longrightarrow>
   memb_live (m\<lparr>mused := (mused m)[k := True]\<rparr>) = insert (block_at m k) (memb_live m)"
  by (auto simp: memb_live_def memb_wf_def nth_list_update image_iff)

lemma live_used_False:
  "memb_wf m \<Longrightarrow> k < mnum m \<Longrightarrow>
   memb_live (m\<lparr>mused := (mused m)[k := False]\<rparr>) = memb_live m - {block_at m k}"
  by (auto simp: memb_live_def memb_wf_def nth_list_update image_iff split: if_splits)

lemma memb_live_iff: "memb_wf m \<Longrightarrow> k < mnum m \<Longrightarrow> block_at m k \<in> memb_live m \<longleftrightarrow> mused m ! k"
  by (auto simp: memb_live_def)

lemma memb_alloc_live:
  assumes "memb_wf m" "memb_alloc m = (p, m')" "p \<noteq> NULL"
  shows "p \<notin> memb_live m \<and> memb_live m' = insert p (memb_live m) \<and> memb_wf m'"
  using memb_alloc_cases [of m] assms by (auto simp: live_used_True memb_live_iff)

lemma memb_alloc_NULL:
  assumes "memb_wf m" "memb_alloc m = (NULL, m')"
  shows "m' = m \<and> (\<forall>k < mnum m. block_at m k \<in> memb_live m)"
  using memb_alloc_cases [of m] assms by (auto simp: memb_live_iff)

lemma memb_free_live:
  assumes "memb_wf m" "p \<in> memb_live m"
  shows "fst (memb_free m p) = 0 \<and> memb_live (snd (memb_free m p)) = memb_live m - {p}
    \<and> memb_wf (snd (memb_free m p))"
proof -
  obtain k where k: "p = block_at m k" "k < mnum m" "mused m ! k"
    using assms(2) by (auto simp: memb_live_def)
  with assms(1) show ?thesis by (simp add: memb_free_block live_used_False)
qed

lemma memb_free_dead:
  assumes "memb_wf m" "p \<notin> memb_live m"
  shows "memb_free m p = (- 1, m)"
proof (cases "\<exists>k < mnum m. p = block_at m k")
  case True
  then show ?thesis using assms by (auto simp: memb_free_block memb_live_iff)
next
  case False
  then show ?thesis
    using free_scan_miss [of 0 m p] by (auto simp: memb_free_def block_at_0)
qed

lemma finite_memb_live [simp]: "finite (memb_live m)"
  by (simp add: memb_live_def)

text \<open>Blocks are conserved: free and live blocks add up to the size of the pool.\<close>

lemma memb_numfree_live: "memb_wf m \<Longrightarrow> memb_numfree m + card (memb_live m) = mnum m"
proof -
  assume wf: "memb_wf m"
  have "card (memb_live m) = card {i. i < mnum m \<and> mused m ! i}"
    unfolding memb_live_def using wf by (intro card_image inj_onI) simp
  moreover have "card {i. i < mnum m \<and> \<not> mused m ! i} + card {i. i < mnum m \<and> mused m ! i}
      = card ({i. i < mnum m \<and> \<not> mused m ! i} \<union> {i. i < mnum m \<and> mused m ! i})"
    by (intro card_Un_disjoint [symmetric]) auto
  moreover have "{i. i < mnum m \<and> \<not> mused m ! i} \<union> {i. i < mnum m \<and> mused m ! i} = {..<mnum m}"
    by auto
  ultimately show ?thesis by (simp add: memb_numfree_eq)
qed

lemma memb_live_inmemb: "memb_wf m \<Longrightarrow> p \<in> memb_live m \<Longrightarrow> memb_inmemb m p"
proof -
  assume wf: "memb_wf m" and "p \<in> memb_live m"
  then obtain i where i: "p = block_at m i" "i < mnum m" by (auto simp: memb_live_def)
  then have "i * msize m + msize m \<le> mnum m * msize m"
    by (metis Suc_leI add.commute mult_Suc mult_le_mono1)
  with wf i show ?thesis by (simp add: memb_inmemb_def block_at_def memb_wf_def)
qed

lemma memb_live_nonNULL: "memb_wf m \<Longrightarrow> NULL \<notin> memb_live m"
  using block_at_nonNULL [of m] by (force simp: memb_live_def)

lemma memb_init_empty: "memb_live (memb_init m) = {}"
  by (auto simp: memb_live_def memb_init_def)

lemma memb_alloc_geometry:
  "mnum (snd (memb_alloc m)) = mnum m" "mbase (snd (memb_alloc m)) = mbase m"
  "msize (snd (memb_alloc m)) = msize m"
  using memb_alloc_cases [of m] by auto

lemma memb_alloc_blocks [simp]: "block_at (snd (memb_alloc m)) = block_at m"
  by (simp add: block_at_def memb_alloc_geometry fun_eq_iff)

section \<open>The interface\<close>

locale block_pool =
  fixes wf :: "'p \<Rightarrow> bool"
    and live :: "'p \<Rightarrow> ptr set"
    and capacity :: "'p \<Rightarrow> nat"
    and alloc :: "'p \<Rightarrow> ptr \<times> 'p"
    and release :: "'p \<Rightarrow> ptr \<Rightarrow> int \<times> 'p"
  assumes finite_live: "wf m \<Longrightarrow> finite (live m)"
    and alloc_fresh: "wf m \<Longrightarrow> alloc m = (p, m') \<Longrightarrow> p \<noteq> NULL \<Longrightarrow>
      p \<notin> live m \<and> live m' = insert p (live m) \<and> wf m' \<and> capacity m' = capacity m"
    and alloc_fail: "wf m \<Longrightarrow> alloc m = (NULL, m') \<Longrightarrow> m' = m \<and> card (live m) = capacity m"
    and release_live: "wf m \<Longrightarrow> p \<in> live m \<Longrightarrow>
      \<exists>m'. release m p = (0, m') \<and> live m' = live m - {p} \<and> wf m' \<and> capacity m' = capacity m"
    and release_dead: "wf m \<Longrightarrow> p \<notin> live m \<Longrightarrow> release m p = (- 1, m)"
begin

lemma alloc_release:
  assumes "wf m" "alloc m = (p, m')" "p \<noteq> NULL"
  shows "fst (release m' p) = 0 \<and> live (snd (release m' p)) = live m"
  using alloc_fresh [OF assms] release_live [of m' p] by auto

lemma double_release:
  assumes "wf m" "p \<in> live m"
  shows "fst (release (snd (release m p)) p) = - 1"
proof -
  obtain m' where "release m p = (0, m')" "live m' = live m - {p}" "wf m'"
    using release_live [OF assms] by blast
  then show ?thesis using release_dead [of m' p] by simp
qed

lemma two_allocs_differ:
  assumes "wf m" "alloc m = (p, m1)" "p \<noteq> NULL" "alloc m1 = (q, m2)" "q \<noteq> NULL"
  shows "p \<noteq> q"
  using alloc_fresh [OF assms(1-3)] alloc_fresh [of m1 q m2] assms(4,5) by auto

lemma alloc_succeeds:
  assumes "wf m" "card (live m) < capacity m"
  shows "fst (alloc m) \<noteq> NULL"
proof
  assume "fst (alloc m) = NULL"
  then have "alloc m = (NULL, snd (alloc m))" by (metis prod.collapse)
  from alloc_fail [OF assms(1) this] assms(2) show False by simp
qed

end

lemma memb_full_card:
  assumes "memb_wf m" "\<forall>k < mnum m. block_at m k \<in> memb_live m"
  shows "card (memb_live m) = mnum m"
proof -
  have none: "{j. j < mnum m \<and> \<not> mused m ! j} = {}" using assms by (auto simp: memb_live_iff)
  show ?thesis using memb_numfree_live [OF assms(1)] unfolding memb_numfree_eq none by simp
qed

lemma memb_free_mnum: "memb_wf m \<Longrightarrow> mnum (snd (memb_free m p)) = mnum m"
proof (cases "p \<in> memb_live m")
  case True
  assume "memb_wf m"
  with True show ?thesis by (auto simp: memb_live_def memb_free_block)
qed (simp add: memb_free_dead)

interpretation mp: block_pool memb_wf memb_live mnum memb_alloc memb_free
proof
  fix m :: memb and p m'
  assume wf: "memb_wf m"
  show "finite (memb_live m)" by simp
  show "p \<notin> memb_live m \<and> memb_live m' = insert p (memb_live m) \<and> memb_wf m' \<and> mnum m' = mnum m"
    if "memb_alloc m = (p, m')" "p \<noteq> NULL"
    using memb_alloc_live [OF wf that] memb_alloc_geometry(1) [of m] that by simp
  show "m' = m \<and> card (memb_live m) = mnum m" if "memb_alloc m = (NULL, m')"
    using memb_alloc_NULL [OF wf that] memb_full_card [OF wf] by simp
  show "\<exists>m'. memb_free m p = (0, m') \<and> memb_live m' = memb_live m - {p} \<and> memb_wf m' \<and> mnum m' = mnum m"
    if "p \<in> memb_live m"
    using memb_free_live [OF wf that] memb_free_mnum [OF wf, of p] by (metis prod.collapse)
  show "memb_free m p = (- 1, m)" if "p \<notin> memb_live m"
    using memb_free_dead [OF wf that] .
qed

end
