(* ===== verification/Contiki_Packetbuf.thy ===== *)
theory Contiki_Packetbuf imports Prelude begin

text \<open>
  Link-layer addresses (\<open>os/net/linkaddr.c\<close>, with the 8-byte addresses of the default
  configuration) and the packet buffer (\<open>os/net/packetbuf.c\<close>).

  The packet buffer is one global object: a byte array of \<open>PACKETBUF_SIZE\<close>, the lengths
  \<open>buflen\<close>, \<open>bufptr\<close> (16 bits) and \<open>hdrlen\<close> (8 bits), the attributes and the two
  addresses. Lengths are natural numbers and every assignment writes the wrap-around of
  its field out. \<open>pb_wf\<close> is the invariant under which every access stays in the array.
\<close>

section \<open>Link-layer addresses\<close>

datatype linkaddr = Linkaddr u8 u8 u8 u8 u8 u8 u8 u8

definition LINKADDR_SIZE :: nat where
  "LINKADDR_SIZE = 8"

fun linkaddr_bytes :: "linkaddr \<Rightarrow> u8 list" where
  "linkaddr_bytes (Linkaddr a b c d e f g h) = [a, b, c, d, e, f, g, h]"

definition linkaddr_of :: "u8 list \<Rightarrow> linkaddr" where
  "linkaddr_of bs = Linkaddr (bs ! 0) (bs ! 1) (bs ! 2) (bs ! 3) (bs ! 4) (bs ! 5) (bs ! 6) (bs ! 7)"

definition linkaddr_null :: linkaddr where
  "linkaddr_null = Linkaddr 0 0 0 0 0 0 0 0"

definition linkaddr_copy :: "linkaddr \<Rightarrow> linkaddr" where
  "linkaddr_copy src = linkaddr_of (linkaddr_bytes src)"

definition linkaddr_cmp :: "linkaddr \<Rightarrow> linkaddr \<Rightarrow> bool" where
  "linkaddr_cmp a b \<longleftrightarrow> linkaddr_bytes a = linkaddr_bytes b"

lemma length_linkaddr_bytes [simp]: "length (linkaddr_bytes a) = LINKADDR_SIZE"
  by (cases a) (simp add: LINKADDR_SIZE_def)

lemma linkaddr_of_bytes [simp, byte_codec]: "linkaddr_of (linkaddr_bytes a @ bs) = a"
  by (cases a) (simp add: linkaddr_of_def)

lemma linkaddr_of_bytes' [simp, byte_codec]: "linkaddr_of (linkaddr_bytes a) = a"
  using linkaddr_of_bytes [of a "[]"] by simp

lemma linkaddr_cmp_eq [simp]: "linkaddr_cmp a b \<longleftrightarrow> a = b"
  by (cases a; cases b) (auto simp: linkaddr_cmp_def)

lemma linkaddr_copy_id [simp]: "linkaddr_copy a = a"
  by (simp add: linkaddr_copy_def)

section \<open>The packet buffer\<close>

definition PACKETBUF_SIZE :: nat where
  "PACKETBUF_SIZE = 128"

datatype pb_attr = ATTR_NONE | ATTR_CHANNEL | ATTR_NETWORK_ID | ATTR_LINK_QUALITY | ATTR_RSSI
  | ATTR_MAX_MAC_TRANSMISSIONS | ATTR_MAC_SEQNO | ATTR_MAC_ACK | ATTR_MAC_METADATA
  | ATTR_MAC_NO_SRC_ADDR | ATTR_MAC_NO_DEST_ADDR | ATTR_FRAME_TYPE | ATTR_SECURITY_LEVEL
  | ATTR_KEY_ID_MODE | ATTR_KEY_INDEX | ATTR_FRAME_COUNTER_BYTES_0_1
  | ATTR_FRAME_COUNTER_BYTES_2_3

datatype pb_addr = ADDR_SENDER | ADDR_RECEIVER

record packetbuf =
  pbuf :: "u8 list"
  buflen :: nat
  bufptr :: nat
  hdrlen :: nat
  pb_attrs :: "pb_attr \<Rightarrow> u16"
  pb_addrs :: "pb_addr \<Rightarrow> linkaddr"

definition packetbuf_attr_clear :: "packetbuf \<Rightarrow> packetbuf" where
  "packetbuf_attr_clear b = b\<lparr>pb_attrs := (\<lambda>_. 0), pb_addrs := (\<lambda>_. linkaddr_copy linkaddr_null)\<rparr>"

definition packetbuf_clear :: "packetbuf \<Rightarrow> packetbuf" where
  "packetbuf_clear b = packetbuf_attr_clear (b\<lparr>bufptr := 0, buflen := 0, hdrlen := 0\<rparr>)"

definition packetbuf_copyfrom :: "u8 list \<Rightarrow> nat \<Rightarrow> packetbuf \<Rightarrow> nat \<times> packetbuf" where
  "packetbuf_copyfrom from len b =
     (let b = packetbuf_clear b;
          l = min PACKETBUF_SIZE len;
          b = b\<lparr>pbuf := blit (pbuf b) 0 (take l from), buflen := l\<rparr>
      in (l, b))"

definition packetbuf_hdrlen :: "packetbuf \<Rightarrow> nat" where
  "packetbuf_hdrlen b = (bufptr b + hdrlen b) mod 256"

definition packetbuf_datalen :: "packetbuf \<Rightarrow> nat" where
  "packetbuf_datalen b = buflen b"

definition packetbuf_totlen :: "packetbuf \<Rightarrow> nat" where
  "packetbuf_totlen b = (packetbuf_hdrlen b + packetbuf_datalen b) mod 65536"

definition packetbuf_remaininglen :: "packetbuf \<Rightarrow> nat" where
  "packetbuf_remaininglen b = nat ((int PACKETBUF_SIZE - int (packetbuf_totlen b)) mod 65536)"

text \<open>The pointers are offsets into the array.\<close>

definition packetbuf_hdrptr :: "packetbuf \<Rightarrow> nat" where
  "packetbuf_hdrptr b = 0"

definition packetbuf_dataptr :: "packetbuf \<Rightarrow> nat" where
  "packetbuf_dataptr b = packetbuf_hdrlen b"

text \<open>The result of \<open>packetbuf_copyto\<close> is the returned length and the target block.\<close>

definition packetbuf_copyto :: "packetbuf \<Rightarrow> u8 list \<Rightarrow> nat \<times> u8 list" where
  "packetbuf_copyto b to =
     (if hdrlen b + buflen b > PACKETBUF_SIZE then (0, to)
      else
        let to = blit to 0 (sub (pbuf b) (packetbuf_hdrptr b) (hdrlen b));
            to = blit to (hdrlen b) (sub (pbuf b) (packetbuf_dataptr b) (buflen b))
        in (hdrlen b + buflen b, to))"

text \<open>The shifting loop of \<open>packetbuf_hdralloc\<close>; \<open>n\<close> is \<open>i + 1\<close>.\<close>

fun hdr_shift :: "nat \<Rightarrow> nat \<Rightarrow> u8 list \<Rightarrow> u8 list" where
  "hdr_shift sz 0 buf = buf"
| "hdr_shift sz (Suc i) buf = hdr_shift sz i (buf[i + sz := buf ! i])"

definition packetbuf_hdralloc :: "nat \<Rightarrow> packetbuf \<Rightarrow> nat \<times> packetbuf" where
  "packetbuf_hdralloc sz b =
     (if sz + packetbuf_totlen b > PACKETBUF_SIZE then (0, b)
      else (1, b\<lparr>pbuf := hdr_shift sz (packetbuf_totlen b) (pbuf b),
                 hdrlen := (hdrlen b + sz) mod 256\<rparr>))"

definition packetbuf_hdrreduce :: "nat \<Rightarrow> packetbuf \<Rightarrow> nat \<times> packetbuf" where
  "packetbuf_hdrreduce sz b =
     (if buflen b < sz then (0, b)
      else (1, b\<lparr>bufptr := (bufptr b + sz) mod 65536, buflen := buflen b - sz\<rparr>))"

definition packetbuf_set_datalen :: "nat \<Rightarrow> packetbuf \<Rightarrow> packetbuf" where
  "packetbuf_set_datalen len b = b\<lparr>buflen := len mod 65536\<rparr>"

definition packetbuf_attr_copyto :: "packetbuf \<Rightarrow> (pb_attr \<Rightarrow> u16) \<times> (pb_addr \<Rightarrow> linkaddr)" where
  "packetbuf_attr_copyto b = (pb_attrs b, pb_addrs b)"

definition packetbuf_attr_copyfrom ::
  "(pb_attr \<Rightarrow> u16) \<Rightarrow> (pb_addr \<Rightarrow> linkaddr) \<Rightarrow> packetbuf \<Rightarrow> packetbuf" where
  "packetbuf_attr_copyfrom attrs addrs b = b\<lparr>pb_attrs := attrs, pb_addrs := addrs\<rparr>"

definition packetbuf_set_attr :: "pb_attr \<Rightarrow> u16 \<Rightarrow> packetbuf \<Rightarrow> packetbuf" where
  "packetbuf_set_attr type val b = b\<lparr>pb_attrs := (pb_attrs b)(type := val)\<rparr>"

definition packetbuf_attr :: "packetbuf \<Rightarrow> pb_attr \<Rightarrow> u16" where
  "packetbuf_attr b type = pb_attrs b type"

definition packetbuf_set_addr :: "pb_addr \<Rightarrow> linkaddr \<Rightarrow> packetbuf \<Rightarrow> packetbuf" where
  "packetbuf_set_addr type addr b = b\<lparr>pb_addrs := (pb_addrs b)(type := linkaddr_copy addr)\<rparr>"

definition packetbuf_addr :: "packetbuf \<Rightarrow> pb_addr \<Rightarrow> linkaddr" where
  "packetbuf_addr b type = pb_addrs b type"

definition packetbuf_holds_broadcast :: "packetbuf \<Rightarrow> bool" where
  "packetbuf_holds_broadcast b \<longleftrightarrow> linkaddr_cmp (pb_addrs b ADDR_RECEIVER) linkaddr_null"

section \<open>The invariant and the contents\<close>

definition pb_wf :: "packetbuf \<Rightarrow> bool" where
  "pb_wf b \<longleftrightarrow> length (pbuf b) = PACKETBUF_SIZE \<and> bufptr b + hdrlen b + buflen b \<le> PACKETBUF_SIZE"

definition pb_header :: "packetbuf \<Rightarrow> u8 list" where
  "pb_header b = take (packetbuf_hdrlen b) (pbuf b)"

definition pb_data :: "packetbuf \<Rightarrow> u8 list" where
  "pb_data b = sub (pbuf b) (packetbuf_dataptr b) (buflen b)"

text \<open>The bytes from the header pointer on: what the radio is given.\<close>

definition pb_frame :: "packetbuf \<Rightarrow> u8 list" where
  "pb_frame b = sub (pbuf b) (packetbuf_hdrptr b) (packetbuf_totlen b)"

lemmas pb_lengths = packetbuf_hdrlen_def packetbuf_datalen_def packetbuf_totlen_def
  packetbuf_dataptr_def packetbuf_hdrptr_def PACKETBUF_SIZE_def

section \<open>Lengths under the invariant\<close>

lemma pb_wf_lengths:
  assumes "pb_wf b"
  shows "packetbuf_hdrlen b = bufptr b + hdrlen b"
    and "packetbuf_totlen b = bufptr b + hdrlen b + buflen b"
    and "length (pb_data b) = packetbuf_datalen b"
    and "length (pb_frame b) = packetbuf_totlen b"
  using assms by (auto simp: pb_wf_def pb_lengths pb_data_def pb_frame_def)

lemma pb_frame_split: "pb_wf b \<Longrightarrow> pb_frame b = pb_header b @ pb_data b"
  by (simp add: pb_frame_def pb_header_def pb_data_def take_append_sub pb_wf_lengths
      packetbuf_hdrptr_def packetbuf_dataptr_def)

lemma pb_wf_clear [simp, step_inv]: "pb_wf b \<Longrightarrow> pb_wf (packetbuf_clear b)"
  by (simp add: pb_wf_def packetbuf_clear_def packetbuf_attr_clear_def)

lemma pb_wf_attr [simp, step_inv]:
  "pb_wf (packetbuf_set_attr t v b) = pb_wf b" "pb_wf (packetbuf_set_addr u a b) = pb_wf b"
  "pb_wf (packetbuf_attr_copyfrom vs as b) = pb_wf b"
  by (auto simp: pb_wf_def packetbuf_set_attr_def packetbuf_set_addr_def packetbuf_attr_copyfrom_def)

lemma pb_attr_simps [simp]:
  "packetbuf_attr (packetbuf_set_attr t v b) t' = (if t' = t then v else packetbuf_attr b t')"
  "packetbuf_attr (packetbuf_set_addr u a b) t' = packetbuf_attr b t'"
  "packetbuf_addr (packetbuf_set_attr t v b) u' = packetbuf_addr b u'"
  "packetbuf_addr (packetbuf_set_addr u a b) u' = (if u' = u then a else packetbuf_addr b u')"
  "packetbuf_addr (packetbuf_clear b) u' = linkaddr_null"
  "packetbuf_attr (packetbuf_clear b) t' = 0"
  by (auto simp: packetbuf_attr_def packetbuf_addr_def packetbuf_set_attr_def
      packetbuf_set_addr_def packetbuf_clear_def packetbuf_attr_clear_def)

lemma pb_contents_attr [simp]:
  "pb_data (packetbuf_set_attr t v b) = pb_data b" "pb_data (packetbuf_set_addr u a b) = pb_data b"
  "pb_frame (packetbuf_set_attr t v b) = pb_frame b" "pb_frame (packetbuf_set_addr u a b) = pb_frame b"
  "packetbuf_datalen (packetbuf_set_attr t v b) = packetbuf_datalen b"
  "packetbuf_datalen (packetbuf_set_addr u a b) = packetbuf_datalen b"
  by (auto simp: pb_data_def pb_frame_def pb_lengths packetbuf_set_attr_def packetbuf_set_addr_def)

lemma packetbuf_copyfrom_spec:
  assumes "pb_wf b" "len \<le> length from"
  shows "pb_wf (snd (packetbuf_copyfrom from len b))"
    and "fst (packetbuf_copyfrom from len b) = min PACKETBUF_SIZE len"
    and "pb_data (snd (packetbuf_copyfrom from len b)) = take (min PACKETBUF_SIZE len) from"
    and "pb_header (snd (packetbuf_copyfrom from len b)) = []"
  using assms
  by (auto simp: packetbuf_copyfrom_def pb_wf_def packetbuf_clear_def packetbuf_attr_clear_def
      pb_data_def pb_header_def pb_lengths Let_def blit_def sub_def min_def)

section \<open>Header space\<close>

lemma hdr_shift_blit:
  "sz + n \<le> length buf \<Longrightarrow> hdr_shift sz n buf = blit buf sz (take n buf)"
proof (induction n arbitrary: buf)
  case 0
  then show ?case by (simp add: blit_def)
next
  case (Suc i)
  let ?buf = "buf[i + sz := buf ! i]"
  have "hdr_shift sz (Suc i) buf = blit ?buf sz (take i ?buf)"
    using Suc by simp
  moreover have "take i ?buf = take i buf" by simp
  moreover have "drop (sz + i) ?buf = ?buf ! (sz + i) # drop (Suc (sz + i)) ?buf"
    by (rule Cons_nth_drop_Suc [symmetric]) (use Suc.prems in simp)
  moreover have "?buf ! (sz + i) = buf ! i"
    using Suc.prems by (simp add: add.commute)
  moreover have "drop (Suc (sz + i)) ?buf = drop (Suc (sz + i)) buf"
    by (simp add: add.commute)
  ultimately show ?case
    using Suc.prems by (simp add: blit_def take_Suc_conv_app_nth)
qed

text \<open>
  Allocating header space moves the frame up by \<open>sz\<close> bytes: the data stays the data,
  and the old frame is the new frame without its first \<open>sz\<close> bytes.
\<close>

lemma packetbuf_hdralloc_spec:
  assumes "pb_wf b" "sz + packetbuf_totlen b \<le> PACKETBUF_SIZE"
  shows "fst (packetbuf_hdralloc sz b) = 1"
    and "pb_wf (snd (packetbuf_hdralloc sz b))"
    and "pb_data (snd (packetbuf_hdralloc sz b)) = pb_data b"
    and "drop sz (pb_frame (snd (packetbuf_hdralloc sz b))) = pb_frame b"
    and "packetbuf_hdrlen (snd (packetbuf_hdralloc sz b)) = packetbuf_hdrlen b + sz"
    and "packetbuf_datalen (snd (packetbuf_hdralloc sz b)) = packetbuf_datalen b"
proof -
  have tot: "packetbuf_totlen b = bufptr b + hdrlen b + buflen b"
    using pb_wf_lengths(2) [OF assms(1)] .
  let ?b = "snd (packetbuf_hdralloc sz b)"
  have b: "?b = b\<lparr>pbuf := blit (pbuf b) sz (take (packetbuf_totlen b) (pbuf b)), hdrlen := hdrlen b + sz\<rparr>"
    using assms tot by (simp add: packetbuf_hdralloc_def hdr_shift_blit pb_wf_def PACKETBUF_SIZE_def)
  show "fst (packetbuf_hdralloc sz b) = 1" using assms by (simp add: packetbuf_hdralloc_def)
  show wf: "pb_wf ?b" using assms tot by (auto simp: b pb_wf_def)
  show "packetbuf_hdrlen ?b = packetbuf_hdrlen b + sz" "packetbuf_datalen ?b = packetbuf_datalen b"
    using pb_wf_lengths(1) [OF wf] pb_wf_lengths(1) [OF assms(1)]
    by (simp_all add: b packetbuf_datalen_def)
  let ?t = "packetbuf_totlen b" and ?h = "packetbuf_hdrlen b"
  have len: "sz + ?t \<le> length (pbuf b)" "?t = ?h + buflen b"
    using assms by (auto simp: pb_wf_def pb_wf_lengths [OF assms(1)])
  have inside: "sub (pbuf ?b) (sz + h) l = sub (pbuf b) h l" if "h + l \<le> ?t" for h l
    using that len by (simp add: b sub_blit_inside sub_take)
  show "pb_data ?b = pb_data b"
    using inside [of ?h "buflen b"] len pb_wf_lengths(1) [OF wf] pb_wf_lengths(1) [OF assms(1)]
    by (simp add: pb_data_def packetbuf_dataptr_def b ac_simps)
  show "drop sz (pb_frame ?b) = pb_frame b"
    using inside [of 0 ?t] pb_wf_lengths(2) [OF wf] pb_wf_lengths(2) [OF assms(1)]
    by (simp add: pb_frame_def packetbuf_hdrptr_def drop_take sub_def) (simp add: b add.assoc [symmetric])
qed

lemma packetbuf_hdralloc_full:
  "PACKETBUF_SIZE < sz + packetbuf_totlen b \<Longrightarrow> packetbuf_hdralloc sz b = (0, b)"
  by (simp add: packetbuf_hdralloc_def)

lemma packetbuf_hdrreduce_spec:
  assumes "pb_wf b" "sz \<le> packetbuf_datalen b"
  shows "fst (packetbuf_hdrreduce sz b) = 1"
    and "pb_wf (snd (packetbuf_hdrreduce sz b))"
    and "pb_data (snd (packetbuf_hdrreduce sz b)) = drop sz (pb_data b)"
    and "pb_frame (snd (packetbuf_hdrreduce sz b)) = pb_frame b"
proof -
  let ?b = "snd (packetbuf_hdrreduce sz b)"
  have b: "?b = b\<lparr>bufptr := bufptr b + sz, buflen := buflen b - sz\<rparr>"
    using assms by (auto simp: packetbuf_hdrreduce_def pb_wf_def PACKETBUF_SIZE_def packetbuf_datalen_def)
  show "fst (packetbuf_hdrreduce sz b) = 1"
    using assms by (simp add: packetbuf_hdrreduce_def packetbuf_datalen_def)
  show wf: "pb_wf ?b" using assms by (auto simp: b pb_wf_def packetbuf_datalen_def)
  show "pb_data ?b = drop sz (pb_data b)" "pb_frame ?b = pb_frame b"
    using assms(2) pb_wf_lengths [OF wf] pb_wf_lengths [OF assms(1)]
    by (simp_all add: pb_data_def pb_frame_def packetbuf_dataptr_def packetbuf_hdrptr_def
        packetbuf_datalen_def drop_sub) (simp_all add: b ac_simps)
qed

lemma packetbuf_hdrreduce_short:
  "packetbuf_datalen b < sz \<Longrightarrow> packetbuf_hdrreduce sz b = (0, b)"
  by (simp add: packetbuf_hdrreduce_def packetbuf_datalen_def)

section \<open>Copying out and back in\<close>

text \<open>
  \<open>packetbuf_copyto\<close> writes the allocated header and the data; \<open>packetbuf_copyfrom\<close> of
  that block makes all of it data.
\<close>

definition pb_packet :: "packetbuf \<Rightarrow> u8 list" where
  "pb_packet b = sub (pbuf b) 0 (hdrlen b) @ pb_data b"

lemma packetbuf_copyto_spec:
  assumes "pb_wf b" "length to = PACKETBUF_SIZE"
  shows "fst (packetbuf_copyto b to) = hdrlen b + buflen b"
    and "take (hdrlen b + buflen b) (snd (packetbuf_copyto b to)) = pb_packet b"
    and "length (snd (packetbuf_copyto b to)) = PACKETBUF_SIZE"
  using assms pb_wf_lengths(3) [OF assms(1)]
  by (auto simp: packetbuf_copyto_def pb_packet_def pb_data_def pb_wf_def Let_def blit_def
      packetbuf_hdrptr_def packetbuf_datalen_def min_def)

end
