(* ===== verification/Contiki_Queuebuf.thy ===== *)
theory Contiki_Queuebuf imports Contiki_Memb Contiki_Packetbuf begin

text \<open>
  Queue buffers (\<open>os/net/queuebuf.c\<close> without swapping to files, the default since
  \<open>QUEUEBUFRAM_NUM = QUEUEBUF_NUM\<close>): copies of the packet buffer that wait for transmission.
  A queue buffer is a block of \<open>bufmem\<close> whose \<open>ram_ptr\<close> names a block of \<open>buframmem\<close> with the
  data. The functions \<open>ram_ptr\<close> and \<open>ram\<close> are the contents of the two pools.
\<close>

record queuebuf_data =
  qd_data :: "u8 list"
  qd_len :: nat
  qd_attrs :: "pb_attr \<Rightarrow> u16"
  qd_addrs :: "pb_addr \<Rightarrow> linkaddr"

record queuebufs =
  bufmem :: memb
  buframmem :: memb
  ram_ptr :: "ptr \<Rightarrow> ptr"
  ram :: "ptr \<Rightarrow> queuebuf_data"

definition queuebuf_init :: "queuebufs \<Rightarrow> queuebufs" where
  "queuebuf_init q = q\<lparr>buframmem := memb_init (buframmem q), bufmem := memb_init (bufmem q)\<rparr>"

definition queuebuf_numfree :: "queuebufs \<Rightarrow> nat" where
  "queuebuf_numfree q = memb_numfree (bufmem q)"

definition queuebuf_load_to_ram :: "queuebufs \<Rightarrow> ptr \<Rightarrow> ptr" where
  "queuebuf_load_to_ram q b = ram_ptr q b"

definition copy_packet :: "packetbuf \<Rightarrow> queuebuf_data \<Rightarrow> queuebuf_data" where
  "copy_packet pb d =
     (let (len, bytes) = packetbuf_copyto pb (qd_data d)
      in d\<lparr>qd_len := len, qd_data := bytes\<rparr>)"

definition copy_attrs :: "packetbuf \<Rightarrow> queuebuf_data \<Rightarrow> queuebuf_data" where
  "copy_attrs pb d =
     (let (vs, as) = packetbuf_attr_copyto pb in d\<lparr>qd_attrs := vs, qd_addrs := as\<rparr>)"

definition queuebuf_new_from_packetbuf :: "packetbuf \<Rightarrow> queuebufs \<Rightarrow> ptr \<times> queuebufs" where
  "queuebuf_new_from_packetbuf pb q =
     (let (buf, bm) = memb_alloc (bufmem q);
          q = q\<lparr>bufmem := bm\<rparr>
      in if buf \<noteq> NULL then
           let (rp, rm) = memb_alloc (buframmem q);
               q = q\<lparr>buframmem := rm, ram_ptr := (ram_ptr q)(buf := rp)\<rparr>
           in if ram_ptr q buf = NULL
              then (NULL, q\<lparr>bufmem := snd (memb_free (bufmem q) buf)\<rparr>)
              else let d = copy_attrs pb (copy_packet pb (ram q rp))
                   in (buf, q\<lparr>ram := (ram q)(rp := d)\<rparr>)
         else (buf, q))"

definition queuebuf_update_attr_from_packetbuf :: "packetbuf \<Rightarrow> ptr \<Rightarrow> queuebufs \<Rightarrow> queuebufs" where
  "queuebuf_update_attr_from_packetbuf pb b q =
     (let rp = queuebuf_load_to_ram q b in q\<lparr>ram := (ram q)(rp := copy_attrs pb (ram q rp))\<rparr>)"

definition queuebuf_update_from_packetbuf :: "packetbuf \<Rightarrow> ptr \<Rightarrow> queuebufs \<Rightarrow> queuebufs" where
  "queuebuf_update_from_packetbuf pb b q =
     (let rp = queuebuf_load_to_ram q b
      in q\<lparr>ram := (ram q)(rp := copy_packet pb (copy_attrs pb (ram q rp)))\<rparr>)"

definition queuebuf_free :: "ptr \<Rightarrow> queuebufs \<Rightarrow> queuebufs" where
  "queuebuf_free b q =
     (if memb_inmemb (bufmem q) b then
        q\<lparr>buframmem := snd (memb_free (buframmem q) (ram_ptr q b)),
          bufmem := snd (memb_free (bufmem q) b)\<rparr>
      else q)"

definition queuebuf_to_packetbuf :: "queuebufs \<Rightarrow> ptr \<Rightarrow> packetbuf \<Rightarrow> packetbuf" where
  "queuebuf_to_packetbuf q b pb =
     (if memb_inmemb (bufmem q) b then
        let d = ram q (queuebuf_load_to_ram q b);
            pb = snd (packetbuf_copyfrom (qd_data d) (qd_len d) pb)
        in packetbuf_attr_copyfrom (qd_attrs d) (qd_addrs d) pb
      else pb)"

text \<open>NULL is None.\<close>

definition queuebuf_dataptr :: "queuebufs \<Rightarrow> ptr \<Rightarrow> u8 list option" where
  "queuebuf_dataptr q b =
     (if memb_inmemb (bufmem q) b then Some (qd_data (ram q (queuebuf_load_to_ram q b))) else None)"

definition queuebuf_datalen :: "queuebufs \<Rightarrow> ptr \<Rightarrow> nat" where
  "queuebuf_datalen q b = qd_len (ram q (queuebuf_load_to_ram q b))"

definition queuebuf_addr :: "queuebufs \<Rightarrow> ptr \<Rightarrow> pb_addr \<Rightarrow> linkaddr" where
  "queuebuf_addr q b type = qd_addrs (ram q (queuebuf_load_to_ram q b)) type"

definition queuebuf_attr :: "queuebufs \<Rightarrow> ptr \<Rightarrow> pb_attr \<Rightarrow> u16" where
  "queuebuf_attr q b type = qd_attrs (ram q (queuebuf_load_to_ram q b)) type"

section \<open>The invariant: live buffers own their data blocks\<close>

definition qb_live :: "queuebufs \<Rightarrow> ptr set" where
  "qb_live q = memb_live (bufmem q)"

definition qb_wf :: "queuebufs \<Rightarrow> bool" where
  "qb_wf q \<longleftrightarrow> memb_wf (bufmem q) \<and> memb_wf (buframmem q) \<and> mnum (bufmem q) = mnum (buframmem q) \<and>
     inj_on (ram_ptr q) (qb_live q) \<and> memb_live (buframmem q) = ram_ptr q ` qb_live q \<and>
     (\<forall>p. length (qd_data (ram q p)) = PACKETBUF_SIZE)"

text \<open>What a queue buffer holds: its bytes, attributes and addresses.\<close>

definition qb_packet :: "queuebufs \<Rightarrow> ptr \<Rightarrow> u8 list \<times> (pb_attr \<Rightarrow> u16) \<times> (pb_addr \<Rightarrow> linkaddr)" where
  "qb_packet q b =
     (let d = ram q (ram_ptr q b) in (take (qd_len d) (qd_data d), qd_attrs d, qd_addrs d))"

lemma qb_card_live: "qb_wf q \<Longrightarrow> card (memb_live (buframmem q)) = card (qb_live q)"
  by (simp add: qb_wf_def card_image)

text \<open>
  Allocation. Both pools run out together, so the second allocation never fails and a
  new buffer is refused exactly when none is free.
\<close>

lemma queuebuf_new_cases:
  assumes wf: "qb_wf q"
  obtains (full) "memb_numfree (bufmem q) = 0" "queuebuf_new_from_packetbuf pb q = (NULL, q)"
  | (new) b rp bm rm where "memb_alloc (bufmem q) = (b, bm)" "b \<noteq> NULL"
      "memb_alloc (buframmem q) = (rp, rm)" "rp \<noteq> NULL"
      "queuebuf_new_from_packetbuf pb q =
         (b, q\<lparr>bufmem := bm, buframmem := rm, ram_ptr := (ram_ptr q)(b := rp),
              ram := (ram q)(rp := copy_attrs pb (copy_packet pb (ram q rp)))\<rparr>)"
proof -
  obtain b bm where a1: "memb_alloc (bufmem q) = (b, bm)" by fastforce
  obtain rp rm where a2: "memb_alloc (buframmem q) = (rp, rm)" by fastforce
  show thesis
  proof (cases "b = NULL")
    case True
    with wf a1 mp.alloc_fail [of "bufmem q" bm] have "bm = bufmem q" "card (qb_live q) = mnum (bufmem q)"
      by (auto simp: qb_wf_def qb_live_def)
    moreover from this have "memb_numfree (bufmem q) = 0"
      using wf memb_numfree_live [of "bufmem q"] by (simp add: qb_wf_def qb_live_def)
    ultimately show thesis using True a1 full by (simp add: queuebuf_new_from_packetbuf_def)
  next
    case False
    have "b \<notin> qb_live q" "card (insert b (qb_live q)) \<le> mnum (bufmem q)"
      using False wf a1 mp.alloc_fresh [of "bufmem q" b bm] memb_numfree_live [of bm]
      by (auto simp: qb_wf_def qb_live_def)
    then have "card (qb_live q) < mnum (bufmem q)" by (simp add: qb_live_def)
    then have "rp \<noteq> NULL"
      using mp.alloc_succeeds [of "buframmem q"] a2 wf qb_card_live [OF wf] by (simp add: qb_wf_def)
    with False a1 a2 new show thesis
      by (simp add: queuebuf_new_from_packetbuf_def Let_def)
  qed
qed

lemma copy_length [simp]:
  "length (qd_data (copy_attrs pb d)) = length (qd_data d)"
  "pb_wf pb \<Longrightarrow> length (qd_data d) = PACKETBUF_SIZE \<Longrightarrow> length (qd_data (copy_packet pb d)) = PACKETBUF_SIZE"
  using packetbuf_copyto_spec(3) [of pb "qd_data d"]
  by (auto simp: copy_attrs_def copy_packet_def packetbuf_attr_copyto_def split: prod.splits)

lemma qb_wf_new [step_inv]:
  assumes "qb_wf q" "pb_wf pb"
  shows "qb_wf (snd (queuebuf_new_from_packetbuf pb q))"
  using assms(1)
proof (cases rule: queuebuf_new_cases [where pb = pb])
  case (new b rp bm rm)
  have "b \<notin> qb_live q" "memb_live bm = insert b (qb_live q)" "memb_wf bm" "mnum bm = mnum (bufmem q)"
    "rp \<notin> memb_live (buframmem q)" "memb_live rm = insert rp (memb_live (buframmem q))" "memb_wf rm"
    "mnum rm = mnum (buframmem q)"
    using new assms(1) mp.alloc_fresh [of "bufmem q" b bm] mp.alloc_fresh [of "buframmem q" rp rm]
    by (auto simp: qb_wf_def qb_live_def)
  with new assms show ?thesis
    by (auto simp: qb_wf_def qb_live_def inj_on_def)
qed (use assms in simp)

lemma copy_packet_contents:
  assumes "pb_wf pb" "length (qd_data d) = PACKETBUF_SIZE"
  shows "take (qd_len (copy_packet pb d)) (qd_data (copy_packet pb d)) = pb_packet pb"
    and "qd_len (copy_packet pb d) \<le> PACKETBUF_SIZE"
  using packetbuf_copyto_spec [OF assms] assms(1)
  by (auto simp: copy_packet_def pb_wf_def split: prod.splits)

lemma qb_new_contents:
  assumes "qb_wf q" "pb_wf pb" "queuebuf_new_from_packetbuf pb q = (b, q')" "b \<noteq> NULL"
  shows "b \<notin> qb_live q" "qb_live q' = insert b (qb_live q)"
    and "qb_packet q' b = (pb_packet pb, pb_attrs pb, pb_addrs pb)"
    and "c \<in> qb_live q \<Longrightarrow> qb_packet q' c = qb_packet q c"
proof -
  have "b \<notin> qb_live q \<and> qb_live q' = insert b (qb_live q) \<and>
    qb_packet q' b = (pb_packet pb, pb_attrs pb, pb_addrs pb) \<and>
    (c \<in> qb_live q \<longrightarrow> qb_packet q' c = qb_packet q c)"
    using assms(1)
  proof (cases rule: queuebuf_new_cases [where pb = pb])
    case full
    then show ?thesis using assms(3,4) by simp
  next
    case (new b0 rp bm rm)
    have fresh: "b0 \<notin> qb_live q" "memb_live bm = insert b0 (qb_live q)" "rp \<notin> ram_ptr q ` qb_live q"
      using new assms(1) mp.alloc_fresh [of "bufmem q" b0 bm] mp.alloc_fresh [of "buframmem q" rp rm]
      by (auto simp: qb_wf_def qb_live_def)
    have q': "b0 = b" "q' = q\<lparr>bufmem := bm, buframmem := rm, ram_ptr := (ram_ptr q)(b := rp),
              ram := (ram q)(rp := copy_attrs pb (copy_packet pb (ram q rp)))\<rparr>"
      using new assms(3) by auto
    have "length (qd_data (ram q rp)) = PACKETBUF_SIZE" using assms(1) by (simp add: qb_wf_def)
    with copy_packet_contents(1) [OF assms(2)] fresh q' show ?thesis
      by (auto simp: qb_live_def qb_packet_def copy_attrs_def packetbuf_attr_copyto_def Let_def)
  qed
  then show "b \<notin> qb_live q" "qb_live q' = insert b (qb_live q)"
    "qb_packet q' b = (pb_packet pb, pb_attrs pb, pb_addrs pb)"
    "c \<in> qb_live q \<Longrightarrow> qb_packet q' c = qb_packet q c" by auto
qed

lemma qb_new_full:
  assumes "qb_wf q" "queuebuf_new_from_packetbuf pb q = (NULL, q')"
  shows "q' = q" "memb_numfree (bufmem q) = 0"
  using queuebuf_new_cases [OF assms(1), of pb] assms(2) by auto

lemma qb_free_live:
  assumes "qb_wf q" "b \<in> qb_live q"
  shows "qb_wf (queuebuf_free b q)" "qb_live (queuebuf_free b q) = qb_live q - {b}"
    and "qb_packet (queuebuf_free b q) c = qb_packet q c"
proof -
  have live: "ram_ptr q b \<in> memb_live (buframmem q)" using assms by (simp add: qb_wf_def)
  obtain bm where bm: "memb_free (bufmem q) b = (0, bm)" "memb_live bm = qb_live q - {b}"
      "memb_wf bm" "mnum bm = mnum (bufmem q)"
    using assms mp.release_live [of "bufmem q" b] by (auto simp: qb_wf_def qb_live_def)
  obtain rm where rm: "memb_free (buframmem q) (ram_ptr q b) = (0, rm)"
      "memb_live rm = memb_live (buframmem q) - {ram_ptr q b}" "memb_wf rm" "mnum rm = mnum (buframmem q)"
    using assms live mp.release_live [of "buframmem q" "ram_ptr q b"] by (auto simp: qb_wf_def)
  have q': "queuebuf_free b q = q\<lparr>buframmem := rm, bufmem := bm\<rparr>"
    using assms memb_live_inmemb [of "bufmem q" b] bm rm
    by (simp add: queuebuf_free_def qb_wf_def qb_live_def)
  show "qb_live (queuebuf_free b q) = qb_live q - {b}" "qb_packet (queuebuf_free b q) c = qb_packet q c"
    using bm q' by (auto simp: qb_live_def qb_packet_def)
  have "ram_ptr q ` (qb_live q - {b}) = ram_ptr q ` qb_live q - {ram_ptr q b}"
    using assms by (auto simp: inj_on_def qb_wf_def)
  then show "qb_wf (queuebuf_free b q)"
    using assms bm rm q' by (auto simp: qb_wf_def qb_live_def inj_on_diff)
qed

text \<open>Fetching a live buffer makes its bytes the data of the packet buffer.\<close>

lemma queuebuf_to_packetbuf_origin:
  assumes "qb_wf q" "b \<in> qb_live q"
  shows "bufptr (queuebuf_to_packetbuf q b pb) = 0 \<and> hdrlen (queuebuf_to_packetbuf q b pb) = 0"
proof -
  have "memb_inmemb (bufmem q) b" using assms memb_live_inmemb by (auto simp: qb_wf_def qb_live_def)
  then show ?thesis
    by (simp add: queuebuf_to_packetbuf_def Let_def packetbuf_copyfrom_def packetbuf_clear_def
        packetbuf_attr_clear_def packetbuf_attr_copyfrom_def)
qed

lemma queuebuf_to_packetbuf_live:
  assumes "qb_wf q" "b \<in> qb_live q" "pb_wf pb" "qd_len (ram q (ram_ptr q b)) \<le> PACKETBUF_SIZE"
  shows "pb_wf (queuebuf_to_packetbuf q b pb)"
    and "(pb_data (queuebuf_to_packetbuf q b pb), pb_attrs (queuebuf_to_packetbuf q b pb),
          pb_addrs (queuebuf_to_packetbuf q b pb)) = qb_packet q b"
proof -
  let ?d = "ram q (ram_ptr q b)"
  have len: "qd_len ?d \<le> length (qd_data ?d)" using assms by (simp add: qb_wf_def)
  have inm: "memb_inmemb (bufmem q) b"
    using assms memb_live_inmemb by (auto simp: qb_wf_def qb_live_def)
  note spec = packetbuf_copyfrom_spec [OF assms(3) len]
  show "pb_wf (queuebuf_to_packetbuf q b pb)"
    using inm spec by (simp add: queuebuf_to_packetbuf_def queuebuf_load_to_ram_def Let_def)
  show "(pb_data (queuebuf_to_packetbuf q b pb), pb_attrs (queuebuf_to_packetbuf q b pb),
          pb_addrs (queuebuf_to_packetbuf q b pb)) = qb_packet q b"
    using inm spec(3) assms(4)
    by (auto simp: queuebuf_to_packetbuf_def queuebuf_load_to_ram_def Let_def qb_packet_def
        packetbuf_attr_copyfrom_def pb_data_def packetbuf_dataptr_def packetbuf_hdrlen_def min_def
        split: if_splits)
qed

lemma qb_packet_len:
  assumes "qb_wf q" "pb_wf pb" "queuebuf_new_from_packetbuf pb q = (b, q')" "b \<noteq> NULL"
  shows "qd_len (ram q' (ram_ptr q' b)) \<le> PACKETBUF_SIZE"
  using assms(1)
proof (cases rule: queuebuf_new_cases [where pb = pb])
  case full
  then show ?thesis using assms(3,4) by simp
next
  case (new b0 rp bm rm)
  then have "ram_ptr q' b = rp" "ram q' rp = copy_attrs pb (copy_packet pb (ram q rp))"
    using assms(3) by auto
  then show ?thesis
    using copy_packet_contents(2) [OF assms(2)] assms(1)
    by (simp add: copy_attrs_def packetbuf_attr_copyto_def qb_wf_def)
qed

section \<open>The interface of the MAC layer\<close>

locale packet_store =
  fixes wf :: "'q \<Rightarrow> bool"
    and live :: "'q \<Rightarrow> ptr set"
    and contents :: "'q \<Rightarrow> ptr \<Rightarrow> u8 list \<times> (pb_attr \<Rightarrow> u16) \<times> (pb_addr \<Rightarrow> linkaddr)"
    and store :: "packetbuf \<Rightarrow> 'q \<Rightarrow> ptr \<times> 'q"
    and discard :: "ptr \<Rightarrow> 'q \<Rightarrow> 'q"
  assumes store_wf: "wf q \<Longrightarrow> pb_wf pb \<Longrightarrow> wf (snd (store pb q))"
    and store_new: "wf q \<Longrightarrow> pb_wf pb \<Longrightarrow> store pb q = (b, q') \<Longrightarrow> b \<noteq> NULL \<Longrightarrow>
      b \<notin> live q \<and> live q' = insert b (live q) \<and>
      contents q' b = (pb_packet pb, pb_attrs pb, pb_addrs pb) \<and>
      (\<forall>c \<in> live q. contents q' c = contents q c)"
    and discard_live: "wf q \<Longrightarrow> b \<in> live q \<Longrightarrow>
      wf (discard b q) \<and> live (discard b q) = live q - {b} \<and> (\<forall>c. contents (discard b q) c = contents q c)"
begin

lemma store_discard:
  assumes "wf q" "pb_wf pb" "store pb q = (b, q')" "b \<noteq> NULL"
  shows "live (discard b q') = live q"
  using store_new [OF assms] store_wf [OF assms(1,2)] discard_live [of q' b] assms(3) by auto

lemma stored_survives:
  assumes "wf q" "pb_wf pb" "store pb q = (b, q1)" "b \<noteq> NULL"
    and "pb_wf pb2" "store pb2 q1 = (c, q2)" "c \<noteq> NULL"
  shows "contents q2 b = (pb_packet pb, pb_attrs pb, pb_addrs pb) \<and> b \<noteq> c"
  using store_new [OF assms(1-4)] store_wf [OF assms(1,2)] assms(3)
    store_new [of q1 pb2 c q2] assms(5-7) by auto

end

interpretation qs: packet_store qb_wf qb_live qb_packet queuebuf_new_from_packetbuf queuebuf_free
proof
  fix q :: queuebufs and pb b q'
  assume wf: "qb_wf q"
  show "qb_wf (snd (queuebuf_new_from_packetbuf pb q))" if "pb_wf pb"
    using qb_wf_new [OF wf that] .
  show "b \<notin> qb_live q \<and> qb_live q' = insert b (qb_live q) \<and>
      qb_packet q' b = (pb_packet pb, pb_attrs pb, pb_addrs pb) \<and>
      (\<forall>c \<in> qb_live q. qb_packet q' c = qb_packet q c)"
    if "pb_wf pb" "queuebuf_new_from_packetbuf pb q = (b, q')" "b \<noteq> NULL"
    using qb_new_contents [OF wf that] by blast
  show "qb_wf (queuebuf_free b q) \<and> qb_live (queuebuf_free b q) = qb_live q - {b} \<and>
      (\<forall>c. qb_packet (queuebuf_free b q) c = qb_packet q c)" if "b \<in> qb_live q"
    using qb_free_live [OF wf that] by blast
qed

end
