(* ===== verification/Contiki_Mac_Sequence.thy ===== *)
theory Contiki_Mac_Sequence imports Contiki_Packetbuf begin

text \<open>
  Link-layer duplicate suppression (\<open>os/net/mac/mac-sequence.c\<close>): the last sequence number
  of the \<open>MAX_SEQNOS\<close> most recent senders, most recent first. Registering a packet is a
  move-to-front update of the array; the loops over its index are recursions over the array.
\<close>

record seqno =
  sq_sender :: linkaddr
  sq_timestamp :: clock_time
  sq_seqno :: u8

record mac_sequence =
  received_seqnos :: "seqno list"
  mac_dsn :: u8

definition MAX_SEQNOS :: nat where
  "MAX_SEQNOS = 16"

definition SEQNO_MAX_AGE :: clock_time where
  "SEQNO_MAX_AGE = 20 * CLOCK_SECOND"

definition mac_sequence_init :: "u16 \<Rightarrow> mac_sequence \<Rightarrow> mac_sequence" where
  "mac_sequence_init rnd ms = ms\<lparr>mac_dsn := ucast rnd\<rparr>"

definition mac_sequence_set_dsn :: "mac_sequence \<Rightarrow> packetbuf \<Rightarrow> mac_sequence \<times> packetbuf" where
  "mac_sequence_set_dsn ms pb =
     (ms\<lparr>mac_dsn := mac_dsn ms + 1\<rparr>, packetbuf_set_attr ATTR_MAC_SEQNO (ucast (mac_dsn ms)) pb)"

fun dup_scan :: "linkaddr \<Rightarrow> u16 \<Rightarrow> clock_time \<Rightarrow> seqno list \<Rightarrow> bool" where
  "dup_scan sender sn now [] = False"
| "dup_scan sender sn now (e # es) =
     (if linkaddr_cmp sender (sq_sender e) then
        (if sn = ucast (sq_seqno e) then
           (if now - sq_timestamp e \<le> SEQNO_MAX_AGE then True else False)
         else False)
      else dup_scan sender sn now es)"

definition mac_sequence_is_duplicate :: "packetbuf \<Rightarrow> clock_time \<Rightarrow> mac_sequence \<Rightarrow> bool" where
  "mac_sequence_is_duplicate pb now ms =
     dup_scan (packetbuf_addr pb ADDR_SENDER) (packetbuf_attr pb ATTR_MAC_SEQNO) now (received_seqnos ms)"

text \<open>The value of \<open>i\<close> after the first loop: one past the sender's entry, or the length.\<close>

fun find_sender :: "linkaddr \<Rightarrow> seqno list \<Rightarrow> nat \<Rightarrow> nat" where
  "find_sender sender [] i = i"
| "find_sender sender (e # es) i =
     (if linkaddr_cmp sender (sq_sender e) then Suc i else find_sender sender es (Suc i))"

fun shift_down :: "nat \<Rightarrow> 'a list \<Rightarrow> 'a list" where
  "shift_down 0 xs = xs"
| "shift_down (Suc j) xs = shift_down j (xs[Suc j := xs ! j])"

definition mac_sequence_register_seqno :: "packetbuf \<Rightarrow> clock_time \<Rightarrow> mac_sequence \<Rightarrow> mac_sequence" where
  "mac_sequence_register_seqno pb now ms =
     (let sender = packetbuf_addr pb ADDR_SENDER;
          i = find_sender sender (received_seqnos ms) 0;
          xs = shift_down (i - 1) (received_seqnos ms);
          xs = xs[0 := \<lparr>sq_sender = linkaddr_copy sender, sq_timestamp = now,
                        sq_seqno = ucast (packetbuf_attr pb ATTR_MAC_SEQNO)\<rparr>]
      in ms\<lparr>received_seqnos := xs\<rparr>)"

section \<open>Registering is a move-to-front update\<close>

text \<open>The history without the sender's first entry, or without its oldest one.\<close>

fun forget :: "linkaddr \<Rightarrow> seqno list \<Rightarrow> seqno list" where
  "forget sender [] = []"
| "forget sender [e] = []"
| "forget sender (e # es) = (if sender = sq_sender e then es else e # forget sender es)"

lemma length_shift_down [simp]: "length (shift_down j xs) = length xs"
  by (induction j xs rule: shift_down.induct) auto

lemma shift_down_eq:
  "j < length xs \<Longrightarrow> xs \<noteq> [] \<Longrightarrow> shift_down j xs = hd xs # take j xs @ drop (Suc j) xs"
proof (induction j arbitrary: xs)
  case 0
  then show ?case by (cases xs) auto
next
  case (Suc j)
  let ?ys = "xs[Suc j := xs ! j]"
  have "shift_down (Suc j) xs = hd ?ys # take j ?ys @ drop (Suc j) ?ys"
    using Suc by simp
  also have "hd ?ys = hd xs" using Suc.prems by (cases xs) auto
  also have "drop (Suc j) ?ys = xs ! j # drop (Suc (Suc j)) xs"
    using Suc.prems Cons_nth_drop_Suc [of "Suc j" ?ys] by simp
  finally show ?case using Suc.prems by (simp add: take_Suc_conv_app_nth)
qed

lemma find_sender_shift: "find_sender s xs (Suc i) = Suc (find_sender s xs i)"
  by (induction xs arbitrary: i) auto

lemma find_sender_le: "find_sender s xs 0 \<le> length xs"
  by (induction xs) (auto simp: find_sender_shift)

lemma find_sender_pos: "xs \<noteq> [] \<Longrightarrow> 0 < find_sender s xs 0"
  by (cases xs) (auto simp: find_sender_shift)

lemma forget_take_drop:
  "xs \<noteq> [] \<Longrightarrow> forget s xs = take (find_sender s xs 0 - 1) xs @ drop (find_sender s xs 0) xs"
proof (induction s xs rule: forget.induct)
  case (3 s e e' es)
  then show ?case
    by (cases "find_sender s (e' # es) 0") (auto simp: find_sender_shift split: if_splits)
qed (auto simp: find_sender_shift)

lemma register_move_to_front:
  assumes "received_seqnos ms \<noteq> []"
  shows "received_seqnos (mac_sequence_register_seqno pb now ms) =
    \<lparr>sq_sender = packetbuf_addr pb ADDR_SENDER, sq_timestamp = now,
     sq_seqno = ucast (packetbuf_attr pb ATTR_MAC_SEQNO)\<rparr>
    # forget (packetbuf_addr pb ADDR_SENDER) (received_seqnos ms)"
proof -
  let ?xs = "received_seqnos ms" and ?s = "packetbuf_addr pb ADDR_SENDER"
  have "find_sender ?s ?xs 0 - 1 < length ?xs"
    using find_sender_le [of ?s ?xs] find_sender_pos [OF assms, of ?s] by simp
  then show ?thesis
    using assms find_sender_pos [OF assms, of ?s]
    by (simp add: mac_sequence_register_seqno_def Let_def shift_down_eq forget_take_drop)
qed

lemma length_forget: "xs \<noteq> [] \<Longrightarrow> length (forget s xs) = length xs - 1"
  by (induction s xs rule: forget.induct) auto

lemma length_register [simp]:
  "length (received_seqnos (mac_sequence_register_seqno pb now ms)) = length (received_seqnos ms)"
proof (cases "received_seqnos ms = []")
  case False
  then show ?thesis
    using register_move_to_front [OF False, of pb now] length_forget [OF False]
    by (cases "received_seqnos ms") auto
qed (simp add: mac_sequence_register_seqno_def Let_def)

text \<open>Another sender keeps its verdict when the registered sender already had an entry.\<close>

lemma dup_scan_forget:
  "s \<noteq> s' \<Longrightarrow> s \<in> sq_sender ` set xs \<Longrightarrow> dup_scan s' sn now (forget s xs) = dup_scan s' sn now xs"
  by (induction s xs rule: forget.induct) auto

lemma dup_scan_unknown: "s \<notin> sq_sender ` set xs \<Longrightarrow> \<not> dup_scan s sn now xs"
  by (induction xs) auto

end
