(* ===== verification/Block_Heap.thy ===== *)
theory Block_Heap imports Prelude begin

text \<open>
  The C heap as the protocol code uses it: byte blocks from \<open>malloc\<close>, released with \<open>free\<close>.
  \<open>blocks\<close> maps a live block to its bytes; \<open>junk\<close> is what memory outside of live blocks
  happens to hold (uninitialised, freed or past the end), a parameter of every run; \<open>ub\<close>
  records that the run has accessed memory outside of a live block, and never goes back.
  \<open>malloc\<close> never reuses an address and never fails (the sources do not check for NULL).
\<close>

record heap =
  blocks :: "ptr \<Rightarrow> u8 list option"
  brk :: ptr
  junk :: "ptr \<Rightarrow> nat \<Rightarrow> u8"
  ub :: bool

definition malloc :: "nat \<Rightarrow> heap \<Rightarrow> ptr \<times> heap" where
  "malloc n h = (brk h, h\<lparr>blocks := (blocks h)(brk h := Some (map (junk h (brk h)) [0..<n])),
                          brk := Suc (brk h)\<rparr>)"

definition free :: "ptr \<Rightarrow> heap \<Rightarrow> heap" where
  "free p h =
     (if p = NULL then h
      else case blocks h p of None \<Rightarrow> h\<lparr>ub := True\<rparr>
           | Some _ \<Rightarrow> h\<lparr>blocks := (blocks h)(p := None)\<rparr>)"

definition load :: "ptr \<Rightarrow> nat \<Rightarrow> heap \<Rightarrow> u8 \<times> heap" where
  "load p i h =
     (case blocks h p of
        Some bs \<Rightarrow> if i < length bs then (bs ! i, h) else (junk h p i, h\<lparr>ub := True\<rparr>)
      | None \<Rightarrow> (junk h p i, h\<lparr>ub := True\<rparr>))"

definition store :: "ptr \<Rightarrow> nat \<Rightarrow> u8 \<Rightarrow> heap \<Rightarrow> heap" where
  "store p i v h =
     (case blocks h p of
        Some bs \<Rightarrow> if i < length bs then h\<lparr>blocks := (blocks h)(p := Some (bs[i := v]))\<rparr>
                   else h\<lparr>ub := True\<rparr>
      | None \<Rightarrow> h\<lparr>ub := True\<rparr>)"

text \<open>The loop \<open>for (i = 0; i < n; i++) dst[i] = src[i]\<close>.\<close>

fun copy_loop :: "ptr \<Rightarrow> ptr \<Rightarrow> nat \<Rightarrow> heap \<Rightarrow> heap" where
  "copy_loop dst src 0 h = h"
| "copy_loop dst src (Suc n) h =
     (let h = copy_loop dst src n h;
          (v, h) = load src n h
      in store dst n v h)"

definition heap_wf :: "heap \<Rightarrow> bool" where
  "heap_wf h \<longleftrightarrow> 0 < brk h \<and> blocks h NULL = None \<and> (\<forall>p. brk h \<le> p \<longrightarrow> blocks h p = None)"

lemma malloc_fresh: "heap_wf h \<Longrightarrow> blocks h (brk h) = None"
  by (simp add: heap_wf_def)

lemma heap_wf_malloc [simp, step_inv]: "heap_wf h \<Longrightarrow> heap_wf (snd (malloc n h))"
  by (auto simp: heap_wf_def malloc_def)

lemma malloc_ptr: "heap_wf h \<Longrightarrow> fst (malloc n h) \<noteq> NULL \<and> blocks h (fst (malloc n h)) = None"
  by (simp add: malloc_def heap_wf_def)

lemma heap_wf_free [simp, step_inv]: "heap_wf h \<Longrightarrow> heap_wf (free p h)"
  by (auto simp: heap_wf_def free_def split: option.splits)

lemma heap_wf_load [simp, step_inv]: "heap_wf h \<Longrightarrow> heap_wf (snd (load p i h))"
  by (auto simp: heap_wf_def load_def split: option.splits)

lemma heap_wf_store [simp, step_inv]: "heap_wf h \<Longrightarrow> heap_wf (store p i v h)"
  by (auto simp: heap_wf_def store_def split: option.splits)

lemma heap_wf_copy [simp, step_inv]: "heap_wf h \<Longrightarrow> heap_wf (copy_loop dst src n h)"
  by (induction n) (auto simp: Let_def split: prod.splits, metis heap_wf_load heap_wf_store snd_conv)

lemma load_block [mem_ops]:
  "blocks h p = Some bs \<Longrightarrow> i < length bs \<Longrightarrow> load p i h = (bs ! i, h)"
  by (simp add: load_def)

lemma store_block [mem_ops]:
  "blocks h p = Some bs \<Longrightarrow> i < length bs \<Longrightarrow>
   store p i v h = h\<lparr>blocks := (blocks h)(p := Some (bs[i := v]))\<rparr>"
  by (simp add: store_def)

lemma free_block [mem_ops]:
  "blocks h p = Some bs \<Longrightarrow> p \<noteq> NULL \<Longrightarrow> free p h = h\<lparr>blocks := (blocks h)(p := None)\<rparr>"
  by (simp add: free_def)

lemma free_NULL [simp, mem_ops]: "free NULL h = h"
  by (simp add: free_def)

text \<open>Copying between two live blocks, in bounds, replaces the first \<open>n\<close> bytes.\<close>

lemma copy_loop_blocks [mem_ops]:
  assumes "blocks h src = Some bs" "blocks h dst = Some ds" "src \<noteq> dst"
    and "n \<le> length bs" "n \<le> length ds"
  shows "copy_loop dst src n h = h\<lparr>blocks := (blocks h)(dst := Some (take n bs @ drop n ds))\<rparr>"
  using assms(4,5)
proof (induction n)
  case 0
  then show ?case using assms(2) by (simp add: fun_upd_idem)
next
  case (Suc n)
  let ?h = "h\<lparr>blocks := (blocks h)(dst := Some (take n bs @ drop n ds))\<rparr>"
  have "copy_loop dst src (Suc n) h = store dst n (bs ! n) ?h"
    using Suc assms by (simp add: load_block fun_upd_def)
  also have "\<dots> = ?h\<lparr>blocks := (blocks ?h)(dst := Some ((take n bs @ drop n ds)[n := bs ! n]))\<rparr>"
    using Suc.prems by (subst store_block [where bs = "take n bs @ drop n ds"]) auto
  also have "(take n bs @ drop n ds)[n := bs ! n] = take (Suc n) bs @ drop (Suc n) ds"
    using Suc.prems
    by (simp add: list_update_append take_Suc_conv_app_nth Cons_nth_drop_Suc [symmetric])
  finally show ?case by (simp cong: if_cong)
qed

text \<open>
  The effect of an operation on the rest of the heap: only blocks of \<open>A\<close> change, and no
  access leaves the live blocks.
\<close>

definition heap_touch :: "ptr set \<Rightarrow> heap \<Rightarrow> heap \<Rightarrow> bool" where
  "heap_touch A h h' \<longleftrightarrow> (\<forall>p. p \<notin> A \<longrightarrow> blocks h' p = blocks h p) \<and> ub h' = ub h \<and>
     junk h' = junk h \<and> brk h \<le> brk h' \<and> heap_wf h'"

lemma heap_touch_trans:
  "heap_touch A h h' \<Longrightarrow> heap_touch B h' h'' \<Longrightarrow> heap_touch (A \<union> B) h h''"
  by (simp add: heap_touch_def)

lemma heap_touch_mono: "heap_touch A h h' \<Longrightarrow> A \<subseteq> B \<Longrightarrow> heap_touch B h h'"
  by (auto simp: heap_touch_def)

lemma heap_touch_refl [simp]: "heap_wf h \<Longrightarrow> heap_touch A h h"
  by (simp add: heap_touch_def)

text \<open>The flag is sticky: once an access has left the live blocks, every later heap says so.\<close>

lemma ub_malloc [simp]: "ub (snd (malloc n h)) = ub h"
  by (simp add: malloc_def)

lemma ub_free [simp]: "ub h \<Longrightarrow> ub (free p h)"
  by (simp add: free_def split: option.split)

lemma ub_load [simp]: "ub h \<Longrightarrow> ub (snd (load p i h))"
  by (simp add: load_def split: option.split)

lemma ub_store [simp]: "ub h \<Longrightarrow> ub (store p i v h)"
  by (simp add: store_def split: option.split)

lemma ub_copy [simp]: "ub h \<Longrightarrow> ub (copy_loop dst src n h)"
  by (induction n) (simp_all add: Let_def case_prod_beta)

lemma load_dangling: "blocks h p = None \<Longrightarrow> ub (snd (load p i h))"
  by (simp add: load_def)

end
