(* ===== verification/Hlmac_Addr.thy ===== *)
theory Hlmac_Addr imports Block_Heap begin

text \<open>
  Hierarchical MAC addresses (\<open>hlmacaddr.c\<close>): a pointer to the identifiers and their
  number. The functions run on the block heap, one access at a time; \<open>hl_repr\<close> relates
  an address to the list of its identifiers, and each function is proved to implement a
  function on such lists (prefixes, extension by an identifier, comparison).
\<close>

record hlmacaddr =
  address :: ptr
  len :: u8

definition UNSPECIFIED_HLMAC_ADDRESS :: hlmacaddr where
  "UNSPECIFIED_HLMAC_ADDRESS = \<lparr>address = NULL, len = 0\<rparr>"

definition hlmac_is_unspecified_addr :: "hlmacaddr \<Rightarrow> bool" where
  "hlmac_is_unspecified_addr a \<longleftrightarrow> len a = 0 \<and> address a = NULL"

definition hlmac_get_len :: "hlmacaddr \<Rightarrow> u8" where
  "hlmac_get_len a = len a"

definition hlmac_get_address :: "hlmacaddr \<Rightarrow> heap \<Rightarrow> ptr \<times> heap" where
  "hlmac_get_address a h =
     (let (p, h) = malloc (unat (len a)) h
      in (p, copy_loop p (address a) (unat (len a)) h))"

definition hlmac_create_root_addr :: "u8 \<Rightarrow> heap \<Rightarrow> hlmacaddr \<times> heap" where
  "hlmac_create_root_addr root_id h =
     (let (p, h) = malloc 1 h;
          h = store p 0 root_id h
      in (\<lparr>address = p, len = 1\<rparr>, h))"

definition hlmac_add_new_id :: "hlmacaddr \<Rightarrow> u8 \<Rightarrow> heap \<Rightarrow> hlmacaddr \<times> heap" where
  "hlmac_add_new_id a new_id h =
     (let temp = address a;
          n = unat (len a);
          (p, h) = malloc (n + 1) h;
          h = copy_loop p temp n h;
          h = store p n new_id h;
          a = \<lparr>address = p, len = len a + 1\<rparr>;
          h = (if temp \<noteq> NULL then free temp h else h)
      in (a, h))"

definition hlmac_remove_Last_id :: "hlmacaddr \<Rightarrow> heap \<Rightarrow> hlmacaddr \<times> heap" where
  "hlmac_remove_Last_id a h =
     (if len a = 0 then (a, h)
      else if len a = 1 then (\<lparr>address = NULL, len = 0\<rparr>, free (address a) h)
      else
        let temp = address a;
            n = unat (len a) - 1;
            (p, h) = malloc n h;
            h = copy_loop p temp n h
        in (\<lparr>address = p, len = len a - 1\<rparr>, free temp h))"

text \<open>
  The comparison loops of \<open>hlmac_cmp\<close>: over the common length, then over the rest of the
  longer address \<open>p\<close> of length \<open>n\<close>, where an identifier above zero gives \<open>res\<close>.
\<close>

function cmp_rest :: "ptr \<Rightarrow> nat \<Rightarrow> nat \<Rightarrow> int \<Rightarrow> heap \<Rightarrow> int \<times> heap" where
  "cmp_rest p i n res h =
     (if i < n then
        let (v, h) = load p i h
        in if v > 0 then (res, h) else cmp_rest p (Suc i) n res h
      else (0, h))"
  by pat_completeness auto
termination
  by (relation "measure (\<lambda>(p, i, n, res, h). n - i)") auto

definition cmp_lengths :: "hlmacaddr \<Rightarrow> hlmacaddr \<Rightarrow> nat \<Rightarrow> heap \<Rightarrow> int \<times> heap" where
  "cmp_lengths a1 a2 i h =
     (if len a1 = len a2 then (0, h)
      else if len a1 < len a2 then cmp_rest (address a2) i (unat (len a2)) 1 h
      else if len a1 > len a2 then cmp_rest (address a1) i (unat (len a1)) (- 1) h
      else (- 2, h))"

function cmp_common :: "hlmacaddr \<Rightarrow> hlmacaddr \<Rightarrow> nat \<Rightarrow> nat \<Rightarrow> heap \<Rightarrow> int \<times> heap" where
  "cmp_common a1 a2 i min_len h =
     (if i < min_len then
        let (v1, h) = load (address a1) i h;
            (v2, h) = load (address a2) i h
        in if v1 < v2 then (1, h) else if v1 > v2 then (- 1, h)
           else cmp_common a1 a2 (Suc i) min_len h
      else cmp_lengths a1 a2 i h)"
  by pat_completeness auto
termination
  by (relation "measure (\<lambda>(a1, a2, i, n, h). n - i)") auto

definition hlmac_cmp :: "hlmacaddr \<Rightarrow> hlmacaddr \<Rightarrow> heap \<Rightarrow> int \<times> heap" where
  "hlmac_cmp a1 a2 h =
     (let min_len = (if len a1 < len a2 then len a1 else len a2)
      in cmp_common a1 a2 0 (unat min_len) h)"

declare cmp_rest.simps [simp del] cmp_common.simps [simp del]

definition get_addr_index_value :: "hlmacaddr \<Rightarrow> u8 \<Rightarrow> heap \<Rightarrow> u8 \<times> heap" where
  "get_addr_index_value a k h = (if k < len a then load (address a) (unat k) h else (0, h))"

text \<open>
  \<open>sprintf\<close> with \<open>%2.2X.\<close> of a \<open>char\<close>: where \<open>char\<close> is signed, a byte from 128 on is passed as
  a negative \<open>int\<close> and printed as eight digits.
\<close>

definition hex_digit :: "nat \<Rightarrow> char" where
  "hex_digit n = ''0123456789ABCDEF'' ! n"

definition hex_byte :: "u8 \<Rightarrow> string" where
  "hex_byte v = [hex_digit (unat v div 16), hex_digit (unat v mod 16)]"

definition sprintf_hex :: "bool \<Rightarrow> u8 \<Rightarrow> string" where
  "sprintf_hex char_signed v =
     (if char_signed \<and> 128 \<le> v then ''FFFFFF'' else []) @ hex_byte v @ ''.''"

text \<open>
  A character buffer of \<open>cap\<close> bytes and whether a write has gone past its end; \<open>sprintf\<close>
  writes its text and a terminating zero.
\<close>

record strbuf =
  chars :: string
  cap :: nat
  overrun :: bool

definition put_string :: "nat \<Rightarrow> string \<Rightarrow> strbuf \<Rightarrow> strbuf" where
  "put_string off s b =
     b\<lparr>chars := take (cap b) (blit (chars b) off s),
       overrun := (overrun b \<or> cap b < off + length s)\<rparr>"

fun to_str_loop :: "bool \<Rightarrow> hlmacaddr \<Rightarrow> nat \<Rightarrow> heap \<times> strbuf \<Rightarrow> heap \<times> strbuf" where
  "to_str_loop sc a 0 (h, b) = (h, b)"
| "to_str_loop sc a (Suc i) (h, b) =
     (let (h, b) = to_str_loop sc a i (h, b);
          (v, h) = get_addr_index_value a (of_nat i) h
      in (h, put_string (3 * i) (sprintf_hex sc v @ [CHR 0x00]) b))"

definition hlmac_addr_to_str :: "bool \<Rightarrow> hlmacaddr \<Rightarrow> heap \<Rightarrow> heap \<times> strbuf" where
  "hlmac_addr_to_str sc a h =
     (let n = unat (len a);
          b = \<lparr>chars = replicate (n * (2 + 1) + 1) (CHR 0x00), cap = n * (2 + 1) + 1, overrun = False\<rparr>;
          (h, b) = to_str_loop sc a n (h, b)
      in (h, put_string (3 * n) [CHR 0x00] b))"

text \<open>The C string in a buffer: up to the first zero.\<close>

definition c_string :: "strbuf \<Rightarrow> string" where
  "c_string b = takeWhile (\<lambda>c. c \<noteq> CHR 0x00) (chars b)"

section \<open>Invalid accesses are never forgotten\<close>

lemma ub_add_new_id [simp]: "ub h \<Longrightarrow> ub (snd (hlmac_add_new_id a i h))"
  by (simp add: hlmac_add_new_id_def Let_def case_prod_beta)

lemma ub_remove_Last_id [simp]: "ub h \<Longrightarrow> ub (snd (hlmac_remove_Last_id a h))"
  by (simp add: hlmac_remove_Last_id_def Let_def case_prod_beta)

lemma ub_cmp_rest [simp]: "ub h \<Longrightarrow> ub (snd (cmp_rest p i n r h))"
  by (induction p i n r h rule: cmp_rest.induct)
    (subst cmp_rest.simps, simp add: Let_def case_prod_beta, metis prod.collapse ub_load)

lemma ub_cmp_lengths [simp]: "ub h \<Longrightarrow> ub (snd (cmp_lengths a b i h))"
  by (simp add: cmp_lengths_def)

lemma ub_cmp_common [simp]: "ub h \<Longrightarrow> ub (snd (cmp_common a b i n h))"
  by (induction a b i n h rule: cmp_common.induct)
    (subst cmp_common.simps, simp add: Let_def case_prod_beta, metis prod.collapse ub_load)

lemma ub_hlmac_cmp [simp]: "ub h \<Longrightarrow> ub (snd (hlmac_cmp a b h))"
  by (simp add: hlmac_cmp_def)

lemma hlmac_cmp_dangling:
  assumes "blocks h (address a) = None" "len a \<noteq> 0" "len b \<noteq> 0"
  shows "ub (snd (hlmac_cmp a b h))"
proof -
  let ?m = "unat (if len a < len b then len a else len b)"
  have "0 < ?m" using assms(2,3) by (simp add: unat_gt_0)
  then show ?thesis unfolding hlmac_cmp_def Let_def
    by (subst cmp_common.simps) (simp add: Let_def case_prod_beta load_dangling [OF assms(1)])
qed

section \<open>Addresses as lists of identifiers\<close>

definition hl_repr :: "heap \<Rightarrow> hlmacaddr \<Rightarrow> u8 list \<Rightarrow> bool" where
  "hl_repr h a bs \<longleftrightarrow> length bs = unat (len a) \<and>
     (if address a = NULL then bs = [] else blocks h (address a) = Some bs)"

lemma hl_repr_length: "hl_repr h a bs \<Longrightarrow> length bs = unat (len a)"
  by (simp add: hl_repr_def)

lemma hl_repr_block: "hl_repr h a bs \<Longrightarrow> bs \<noteq> [] \<Longrightarrow> address a \<noteq> NULL \<and> blocks h (address a) = Some bs"
  by (auto simp: hl_repr_def split: if_splits)

lemma hl_repr_len0: "hl_repr h a bs \<Longrightarrow> len a = 0 \<longleftrightarrow> bs = []"
  by (auto simp: hl_repr_def unat_eq_0)

lemma hl_repr_touch: "hl_repr h a bs \<Longrightarrow> heap_touch A h h' \<Longrightarrow> address a \<notin> A \<Longrightarrow> hl_repr h' a bs"
  by (auto simp: hl_repr_def heap_touch_def)

lemma hl_repr_unspecified [simp]: "hl_repr h UNSPECIFIED_HLMAC_ADDRESS []"
  by (simp add: hl_repr_def UNSPECIFIED_HLMAC_ADDRESS_def)

text \<open>Copying an address, whatever its length, into a fresh block of that length or more.\<close>

lemma copy_ids:
  assumes "hl_repr h a bs" "blocks h dst = Some ds" "dst \<noteq> address a" "length bs \<le> length ds"
  shows "copy_loop dst (address a) (length bs) h =
     h\<lparr>blocks := (blocks h)(dst := Some (bs @ drop (length bs) ds))\<rparr>"
proof (cases "bs = []")
  case True
  then show ?thesis using assms by (simp add: fun_upd_idem)
next
  case False
  with assms show ?thesis
    using copy_loop_blocks [of h "address a" bs dst ds "length bs"] hl_repr_block by fastforce
qed

lemma hlmac_create_root_spec:
  assumes "heap_wf h" "hlmac_create_root_addr root_id h = (a, h')"
  shows "hl_repr h' a [root_id]" "heap_touch {address a} h h'" "blocks h (address a) = None"
    "address a \<noteq> NULL"
proof -
  have eq: "a = \<lparr>address = brk h, len = 1\<rparr>"
    "h' = h\<lparr>blocks := (blocks h)(brk h := Some [root_id]), brk := Suc (brk h)\<rparr>"
    using assms(2) by (auto simp: hlmac_create_root_addr_def malloc_def store_def)
  show "hl_repr h' a [root_id]" "heap_touch {address a} h h'" "blocks h (address a) = None"
    "address a \<noteq> NULL"
    using assms(1) by (auto simp: eq hl_repr_def heap_touch_def heap_wf_def)
qed

lemma add_new_id_spec:
  assumes wf: "heap_wf h" and a: "hl_repr h a bs" and small: "length bs < 255"
    and res: "hlmac_add_new_id a new_id h = (a', h')"
  shows "hl_repr h' a' (bs @ [new_id])" "heap_touch {address a, address a'} h h'"
    "blocks h (address a') = None" "address a' \<noteq> NULL" "address a \<noteq> NULL \<Longrightarrow> blocks h' (address a) = None"
proof -
  let ?p = "brk h" and ?n = "unat (len a)"
  have n: "?n = length bs" using a by (simp add: hl_repr_def)
  have p: "?p \<noteq> address a" "?p \<noteq> NULL"
    using wf a by (auto simp: hl_repr_def heap_wf_def split: if_splits)
  let ?h1 = "snd (malloc (?n + 1) h)"
  let ?ds = "map (junk h ?p) [0..<?n + 1]"
  have h1: "hl_repr ?h1 a bs" "blocks ?h1 ?p = Some ?ds"
    using a p by (auto simp: hl_repr_def malloc_def)
  let ?h2 = "?h1\<lparr>blocks := (blocks ?h1)(?p := Some (bs @ drop (length bs) ?ds))\<rparr>"
  have h2: "copy_loop ?p (address a) ?n ?h1 = ?h2"
    using copy_ids [OF h1 p(1)] by (simp add: n)
  have h3: "store ?p ?n new_id ?h2 = ?h2\<lparr>blocks := (blocks ?h2)(?p := Some (bs @ [new_id]))\<rparr>"
    by (subst store_block [where bs = "bs @ drop (length bs) ?ds"]) (auto simp: n list_update_append)
  have eq: "a' = \<lparr>address = ?p, len = len a + 1\<rparr>"
    "h' = (let h3 = h\<lparr>brk := Suc ?p, blocks := (blocks h)(?p := Some (bs @ [new_id]))\<rparr>
           in if address a \<noteq> NULL then free (address a) h3 else h3)"
    using res h2 h3 by (auto simp: hlmac_add_new_id_def malloc_def Let_def)
  have len': "unat (len a + 1) = Suc (length bs)"
    using small n by (simp add: unat_word_ariths)
  show "hl_repr h' a' (bs @ [new_id])" "heap_touch {address a, address a'} h h'"
    "blocks h (address a') = None" "address a' \<noteq> NULL" "address a \<noteq> NULL \<Longrightarrow> blocks h' (address a) = None"
    using wf a p len'
    by (auto simp: eq hl_repr_def heap_touch_def heap_wf_def free_def Let_def split: option.splits)
qed

lemma remove_Last_id_spec:
  assumes wf: "heap_wf h" and a: "hl_repr h a bs"
    and res: "hlmac_remove_Last_id a h = (a', h')"
  shows "hl_repr h' a' (butlast bs)" "heap_touch {address a, address a'} h h'"
    "bs \<noteq> [] \<Longrightarrow> blocks h' (address a) = None"
    "address a' = address a \<or> address a' = NULL \<or> blocks h (address a') = None"
    "bs = [] \<Longrightarrow> a' = a \<and> h' = h"
proof -
  let ?p = "brk h" and ?n = "unat (len a) - 1"
  have n: "unat (len a) = length bs" using a by (simp add: hl_repr_def)
  have p: "?p \<noteq> address a" "?p \<noteq> NULL"
    using wf a by (auto simp: hl_repr_def heap_wf_def split: if_splits)
  consider "bs = []" | "length bs = 1" | "length bs \<ge> 2"
    by (metis One_nat_def Suc_1 length_0_conv not_less_eq_eq le_SucE le_zero_eq)
  then have "hl_repr h' a' (butlast bs) \<and> heap_touch {address a, address a'} h h' \<and>
    (bs \<noteq> [] \<longrightarrow> blocks h' (address a) = None) \<and>
    (address a' = address a \<or> address a' = NULL \<or> blocks h (address a') = None) \<and>
    (bs = [] \<longrightarrow> a' = a \<and> h' = h)"
  proof cases
    case 1
    then show ?thesis using res a wf by (auto simp: hlmac_remove_Last_id_def hl_repr_len0)
  next
    case 2
    then have "len a = 1" using n by (metis unat_1 word_unat_eq_iff)
    moreover have "butlast bs = []" "bs \<noteq> []" using 2 by (auto simp: length_Suc_conv)
    ultimately show ?thesis using res hl_repr_block [OF a] wf
      by (auto simp: hlmac_remove_Last_id_def hl_repr_def free_block heap_touch_def heap_wf_def)
  next
    case 3
    then have len: "len a \<noteq> 0" "len a \<noteq> 1" "bs \<noteq> []" using n by auto
    note blk = hl_repr_block [OF a len(3)]
    let ?h1 = "snd (malloc ?n h)" and ?ds = "map (junk h ?p) [0..<?n]"
    have "copy_loop ?p (address a) ?n ?h1 = ?h1\<lparr>blocks := (blocks ?h1)(?p := Some (take ?n bs @ drop ?n ?ds))\<rparr>"
      using blk p by (intro copy_loop_blocks [where bs = bs]) (auto simp: malloc_def n)
    then have eq: "a' = \<lparr>address = ?p, len = len a - 1\<rparr>"
      "h' = free (address a) (h\<lparr>brk := Suc ?p, blocks := (blocks h)(?p := Some (butlast bs))\<rparr>)"
      using res len by (auto simp: hlmac_remove_Last_id_def malloc_def Let_def n butlast_conv_take)
    have "unat (len a - 1) = length bs - 1"
      using len n by (metis unat_minus_one)
    then show ?thesis using wf blk p len
      by (auto simp: eq hl_repr_def heap_touch_def heap_wf_def free_def split: option.splits)
  qed
  then show "hl_repr h' a' (butlast bs)" "heap_touch {address a, address a'} h h'"
    "bs \<noteq> [] \<Longrightarrow> blocks h' (address a) = None"
    "address a' = address a \<or> address a' = NULL \<or> blocks h (address a') = None"
    "bs = [] \<Longrightarrow> a' = a \<and> h' = h" by auto
qed

section \<open>Comparison\<close>

text \<open>
  The comparison on identifier lists: lexicographic, where the list that ends first counts
  as continued with zeros. The result is 1 when the second address is larger.
\<close>

fun cmp_ids :: "u8 list \<Rightarrow> u8 list \<Rightarrow> int" where
  "cmp_ids (x # xs) (y # ys) = (if x < y then 1 else if x > y then - 1 else cmp_ids xs ys)"
| "cmp_ids [] ys = (if \<exists>v \<in> set ys. v > 0 then 1 else 0)"
| "cmp_ids xs [] = (if \<exists>v \<in> set xs. v > 0 then - 1 else 0)"

lemma cmp_rest_block:
  assumes "blocks h p = Some bs" "n = length bs" "i \<le> n"
  shows "cmp_rest p i n res h = (if \<exists>v \<in> set (drop i bs). v > 0 then res else 0, h)"
  using assms
proof (induction "n - i" arbitrary: i)
  case 0
  then show ?case by (subst cmp_rest.simps) simp
next
  case (Suc d)
  then have "drop i bs = bs ! i # drop (Suc i) bs"
    by (simp add: Cons_nth_drop_Suc)
  moreover have "i < length bs" using Suc by simp
  ultimately show ?case using Suc
    by (subst cmp_rest.simps) (simp add: load_block)
qed

lemma cmp_lengths_repr:
  assumes "hl_repr h a1 bs1" "hl_repr h a2 bs2" "i = min (length bs1) (length bs2)"
  shows "cmp_lengths a1 a2 i h = (cmp_ids (drop i bs1) (drop i bs2), h)"
proof -
  have lens: "length bs1 = unat (len a1)" "length bs2 = unat (len a2)"
    using assms by (auto simp: hl_repr_def)
  consider "length bs1 = length bs2" | "length bs1 < length bs2" | "length bs2 < length bs1"
    by linarith
  then show ?thesis
  proof cases
    case 1
    with lens assms(3) show ?thesis by (auto simp: cmp_lengths_def word_unat_eq_iff)
  next
    case 2
    then have "bs2 \<noteq> []" by auto
    with 2 lens assms hl_repr_block [OF assms(2)] show ?thesis
      by (auto simp: cmp_lengths_def word_less_nat_alt cmp_rest_block)
  next
    case 3
    then obtain d ds where d: "drop i bs1 = d # ds" "drop i bs2 = []"
      using assms(3) by (cases "drop i bs1") auto
    have "bs1 \<noteq> []" using 3 by auto
    then have "cmp_rest (address a1) i (unat (len a1)) (- 1) h =
        (if \<exists>v \<in> set (d # ds). v > 0 then - 1 else 0, h)"
      using 3 lens assms(3) hl_repr_block [OF assms(1)] d(1)
      by (subst cmp_rest_block [where bs = bs1]) auto
    with 3 lens d show ?thesis by (simp add: cmp_lengths_def word_less_nat_alt word_unat_eq_iff)
  qed
qed

lemma cmp_common_repr:
  assumes "hl_repr h a1 bs1" "hl_repr h a2 bs2" "m = min (length bs1) (length bs2)" "i \<le> m"
  shows "cmp_common a1 a2 i m h = (cmp_ids (drop i bs1) (drop i bs2), h)"
  using assms(4)
proof (induction "m - i" arbitrary: i)
  case 0
  then have "i = min (length bs1) (length bs2)" "\<not> i < m" using assms(3) by auto
  then show ?case using cmp_lengths_repr [OF assms(1,2), of i]
    by (subst cmp_common.simps) simp
next
  case (Suc d)
  then have "bs1 \<noteq> []" "bs2 \<noteq> []" "i < length bs1" "i < length bs2" using assms(3) by auto
  then have "drop i bs1 = bs1 ! i # drop (Suc i) bs1" "drop i bs2 = bs2 ! i # drop (Suc i) bs2"
    "load (address a1) i h = (bs1 ! i, h)" "load (address a2) i h = (bs2 ! i, h)"
    using hl_repr_block [OF assms(1)] hl_repr_block [OF assms(2)]
    by (auto simp: Cons_nth_drop_Suc load_block)
  moreover have "i < m" using Suc by simp
  ultimately show ?case using Suc by (subst cmp_common.simps) simp
qed

lemma hlmac_cmp_repr:
  assumes "hl_repr h a1 bs1" "hl_repr h a2 bs2"
  shows "hlmac_cmp a1 a2 h = (cmp_ids bs1 bs2, h)"
proof -
  have "unat (if len a1 < len a2 then len a1 else len a2) = min (length bs1) (length bs2)"
    using assms by (auto simp: hl_repr_def word_less_nat_alt min_def)
  then show ?thesis using cmp_common_repr [OF assms refl, of 0] by (simp add: hlmac_cmp_def)
qed

lemma cmp_ids_Nil2: "cmp_ids xs [] = (if \<exists>v \<in> set xs. v > 0 then - 1 else 0)"
  by (cases xs) auto

lemma cmp_ids_antisym: "cmp_ids ys xs = - cmp_ids xs ys"
  by (induction xs ys rule: cmp_ids.induct) (auto simp: cmp_ids_Nil2)

definition strip_zeros :: "u8 list \<Rightarrow> u8 list" where
  "strip_zeros xs = rev (dropWhile (\<lambda>v. v = 0) (rev xs))"

lemma strip_zeros_Nil: "strip_zeros xs = [] \<longleftrightarrow> (\<forall>v \<in> set xs. v = 0)"
  by (simp add: strip_zeros_def)

lemma strip_zeros_Cons:
  "strip_zeros (x # xs) = (if x = 0 \<and> strip_zeros xs = [] then [] else x # strip_zeros xs)"
  by (auto simp: strip_zeros_def dropWhile_append)

text \<open>Two addresses compare equal exactly when they agree up to trailing zero identifiers.\<close>

lemma cmp_ids_0_iff: "cmp_ids xs ys = 0 \<longleftrightarrow> strip_zeros xs = strip_zeros ys"
proof (induction xs ys rule: cmp_ids.induct)
  case (2 ys)
  have "strip_zeros [] = []" by (simp add: strip_zeros_def)
  then show ?case using strip_zeros_Nil [of ys]
    by (cases ys) (auto simp: word_neq_0_conv dest: sym)
next
  case (3 v va)
  have "strip_zeros [] = []" by (simp add: strip_zeros_def)
  then show ?case using strip_zeros_Nil [of "v # va"] by (auto simp: word_neq_0_conv)
qed (auto simp: strip_zeros_Cons)

lemma strip_zeros_id: "0 \<notin> set xs \<Longrightarrow> strip_zeros xs = xs"
proof -
  assume "0 \<notin> set xs"
  then have "xs = [] \<or> last xs \<noteq> 0" by (metis last_in_set)
  then have "dropWhile (\<lambda>v. v = 0) (rev xs) = rev xs"
    by (auto simp: dropWhile_eq_self_iff hd_rev)
  then show ?thesis by (simp add: strip_zeros_def)
qed

lemma cmp_ids_nonzero: "0 \<notin> set xs \<Longrightarrow> 0 \<notin> set ys \<Longrightarrow> cmp_ids xs ys = 0 \<longleftrightarrow> xs = ys"
  by (simp add: cmp_ids_0_iff strip_zeros_id)

section \<open>Printing\<close>

definition ids_text :: "u8 list \<Rightarrow> string" where
  "ids_text bs = concat (map (\<lambda>v. hex_byte v @ ''.'') bs)"

lemma length_ids_text [simp]: "length (ids_text bs) = 3 * length bs"
  by (induction bs) (auto simp: ids_text_def hex_byte_def)

lemma ids_text_snoc: "ids_text (bs @ [v]) = ids_text bs @ hex_byte v @ ''.''"
  by (simp add: ids_text_def)

lemma hex_digit_nonzero: "n < 16 \<Longrightarrow> hex_digit n \<noteq> CHR 0x00"
  by (auto simp: hex_digit_def nth_Cons' less_Suc_eq numeral_eq_Suc)

lemma ids_text_nonzero: "c \<in> set (ids_text bs) \<Longrightarrow> c \<noteq> CHR 0x00"
proof (induction bs)
  case (Cons v bs)
  have "unat v div 16 < 16" "unat v mod 16 < 16"
    using unat_u8 [of v] by auto
  then have "hex_digit (unat v div 16) \<noteq> CHR 0x00" "hex_digit (unat v mod 16) \<noteq> CHR 0x00"
    by (simp_all add: hex_digit_nonzero)
  with Cons show ?case by (auto simp: ids_text_def hex_byte_def)
qed (simp add: ids_text_def)

lemma to_str_loop_repr:
  assumes a: "hl_repr h a bs" and plain: "\<not> sc \<or> (\<forall>v \<in> set bs. v < 128)"
    and i: "i \<le> length bs" "cap b = 3 * length bs + 1" "length (chars b) = cap b"
  shows "\<exists>b'. to_str_loop sc a i (h, b) = (h, b') \<and> take (3 * i) (chars b') = ids_text (take i bs) \<and>
    cap b' = cap b \<and> length (chars b') = cap b \<and> overrun b' = overrun b"
  using i(1)
proof (induction i)
  case 0
  then show ?case using i by (simp add: ids_text_def)
next
  case (Suc i)
  then obtain b1 where b1: "to_str_loop sc a i (h, b) = (h, b1)"
    "take (3 * i) (chars b1) = ids_text (take i bs)" "cap b1 = cap b" "length (chars b1) = cap b"
    "overrun b1 = overrun b" by auto
  have n: "length bs = unat (len a)" "length bs < 256"
    using a unat_u8 [of "len a"] by (auto simp: hl_repr_def)
  then have "(of_nat i :: u8) < len a" "unat (of_nat i :: u8) = i"
    using Suc.prems unat_u8 [of "len a"] by (auto simp: word_less_nat_alt unat_of_nat)
  moreover have "bs \<noteq> []" using Suc.prems by auto
  ultimately have v: "get_addr_index_value a (of_nat i) h = (bs ! i, h)"
    using Suc.prems hl_repr_block [OF a] by (auto simp: get_addr_index_value_def load_block)
  have s: "sprintf_hex sc (bs ! i) = hex_byte (bs ! i) @ ''.''"
    using plain Suc.prems nth_mem [of i bs] by (auto simp: sprintf_hex_def linorder_not_le)
  have "take (Suc i) bs = take i bs @ [bs ! i]" using Suc.prems by (simp add: take_Suc_conv_app_nth)
  with b1 v s Suc.prems i show ?case
    by (simp add: put_string_def blit_def ids_text_snoc hex_byte_def)
qed

lemma hlmac_addr_to_str_repr:
  assumes "hl_repr h a bs" "\<not> sc \<or> (\<forall>v \<in> set bs. v < 128)"
  shows "\<exists>b. hlmac_addr_to_str sc a h = (h, b) \<and> c_string b = ids_text bs \<and> \<not> overrun b"
proof -
  let ?n = "length bs"
  let ?b = "\<lparr>chars = replicate (?n * (2 + 1) + 1) (CHR 0x00), cap = ?n * (2 + 1) + 1, overrun = False\<rparr>"
  obtain b where b: "to_str_loop sc a ?n (h, ?b) = (h, b)" "take (3 * ?n) (chars b) = ids_text bs"
    "cap b = 3 * ?n + 1" "length (chars b) = 3 * ?n + 1" "\<not> overrun b"
    using to_str_loop_repr [OF assms order_refl, of ?b] by auto
  have "unat (len a) = ?n" using assms(1) by (simp add: hl_repr_def)
  moreover have "takeWhile (\<lambda>c. c \<noteq> CHR 0x00) (ids_text bs @ [CHR 0x00]) = ids_text bs"
    using ids_text_nonzero by (subst takeWhile_append2) auto
  ultimately show ?thesis using b
    by (simp add: hlmac_addr_to_str_def put_string_def c_string_def blit_def)
qed

end
