(* ===== verification/Hlmac_Table.thy ===== *)
theory Hlmac_Table imports Hlmac_Addr "HOL-Library.Sublist" begin

text \<open>
  The table of the node's own addresses (\<open>hlmac-table.c\<close>): a list of entries, each an
  address and the timestamp of the round that assigned it, and their number. Entries hold
  the address \<^emph>\<open>by reference\<close>: the identifiers stay in the block the caller passed.
  \<open>null_deref\<close> records a read through the NULL head of an empty list.

  \<open>HLMAC_MAX_HLMAC\<close> is the argument \<open>max_hlmac\<close> (1 in the projects, -1 for no limit).
  Strings that are built for the log and freed at once are left out.
\<close>

record hlmac_entry =
  he_address :: hlmacaddr
  he_timestamp :: u64

record hlmac_table =
  entries :: "hlmac_entry list"
  number_of_hlmac_addresses :: u8
  null_deref :: bool

definition hlmac_table_init :: "hlmac_table \<Rightarrow> hlmac_table" where
  "hlmac_table_init t = t\<lparr>number_of_hlmac_addresses := 0\<rparr>"

definition hlmactable_clean :: "hlmac_table \<Rightarrow> hlmac_table" where
  "hlmactable_clean t = t\<lparr>entries := [], number_of_hlmac_addresses := 0\<rparr>"

text \<open>The first block of \<open>hlmactable_add\<close>: an older round is dropped.\<close>

definition drop_older_round :: "u64 \<Rightarrow> hlmac_table \<Rightarrow> hlmac_table" where
  "drop_older_round timestamp t =
     (if number_of_hlmac_addresses t > 0 then
        case entries t of
          [] \<Rightarrow> t\<lparr>null_deref := True\<rparr>
        | entry # _ \<Rightarrow> if timestamp > he_timestamp entry then hlmactable_clean t else t
      else t)"

definition hlmactable_add :: "int \<Rightarrow> hlmacaddr \<Rightarrow> u64 \<Rightarrow> hlmac_table \<Rightarrow> u8 \<times> hlmac_table" where
  "hlmactable_add max_hlmac addr timestamp t =
     (let t = drop_older_round timestamp t
      in if number_of_hlmac_addresses t \<ge> 255 then (0, t)
         else if max_hlmac = - 1 \<or> (max_hlmac \<noteq> - 1 \<and> uint (number_of_hlmac_addresses t) < max_hlmac)
         then (1, t\<lparr>entries := entries t @ [\<lparr>he_address = addr, he_timestamp = timestamp\<rparr>],
                    number_of_hlmac_addresses := number_of_hlmac_addresses t + 1\<rparr>)
         else (0, t))"

definition hlmactable_chop :: "hlmac_table \<Rightarrow> u8 \<times> hlmac_table" where
  "hlmactable_chop t =
     (1, t\<lparr>entries := butlast (entries t), number_of_hlmac_addresses := number_of_hlmac_addresses t - 1\<rparr>)"

fun entry_scan :: "hlmac_entry list \<Rightarrow> hlmacaddr \<Rightarrow> heap \<Rightarrow> bool \<times> heap" where
  "entry_scan [] a h = (False, h)"
| "entry_scan (e # es) a h =
     (let (c, h) = hlmac_cmp (he_address e) a h
      in if c = 0 then (True, h) else entry_scan es a h)"

lemma remove_Last_id_len: "len a \<noteq> 0 \<Longrightarrow> len (fst (hlmac_remove_Last_id a h)) = len a - 1"
  by (auto simp: hlmac_remove_Last_id_def Let_def split: prod.splits)

function prefix_loop :: "hlmac_entry list \<Rightarrow> hlmacaddr \<Rightarrow> heap \<Rightarrow> hlmacaddr \<times> heap" where
  "prefix_loop es a h =
     (if hlmac_get_len a > 0 then
        let (found, h) = entry_scan es a h
        in if found then (a, h)
           else let (a', h) = hlmac_remove_Last_id a h in prefix_loop es a' h
      else (a, h))"
  by pat_completeness auto
termination
proof (relation "measure (\<lambda>(es, a, h). unat (len a))", goal_cases)
  case (2 es a h x found h' x' a' h'')
  then have "len a \<noteq> 0" "a' = fst (hlmac_remove_Last_id a h')"
    by (auto simp: hlmac_get_len_def) (metis fst_conv)
  then have "len a \<noteq> 0" "len a' = len a - 1" using remove_Last_id_len by blast+
  then have "unat (len a') = unat (len a) - 1" "unat (len a) \<noteq> 0"
    by (simp_all add: unat_minus_one unat_eq_0)
  then show ?case by simp
qed simp

declare prefix_loop.simps [simp del]

definition hlmactable_get_longest_matchhed_prefix ::
  "hlmacaddr \<Rightarrow> hlmac_table \<Rightarrow> heap \<Rightarrow> hlmacaddr \<times> heap" where
  "hlmactable_get_longest_matchhed_prefix addr t h =
     (let (p, h) = malloc (unat (len addr)) h;
          h = copy_loop p (address addr) (unat (len addr)) h;
          (a, h) = hlmac_remove_Last_id \<lparr>address = p, len = len addr\<rparr> h
      in prefix_loop (entries t) a h)"

definition hlmactable_has_loop :: "hlmacaddr \<Rightarrow> hlmac_table \<Rightarrow> heap \<Rightarrow> u8 \<times> heap" where
  "hlmactable_has_loop addr t h =
     (let (longest_prefix, h) = hlmactable_get_longest_matchhed_prefix addr t h
      in if hlmac_is_unspecified_addr longest_prefix
         then (0, free (address longest_prefix) h)
         else (1, free (address longest_prefix) h))"

definition hlmactable_calculate_sum_hop :: "hlmac_table \<Rightarrow> int" where
  "hlmactable_calculate_sum_hop t = foldl (\<lambda>sum e. sum + uint (len (he_address e))) 0 (entries t)"

section \<open>The table invariant\<close>

text \<open>
  The counter agrees with the list, no NULL head was read, and all entries are of one round
  (an older round is cleaned before a newer address is added).
\<close>

definition table_wf :: "int \<Rightarrow> hlmac_table \<Rightarrow> bool" where
  "table_wf max_hlmac t \<longleftrightarrow> length (entries t) = unat (number_of_hlmac_addresses t) \<and> \<not> null_deref t \<and>
     (max_hlmac \<noteq> - 1 \<longrightarrow> int (length (entries t)) \<le> max 0 max_hlmac)"

lemma table_wf_clean [step_inv]: "table_wf m t \<Longrightarrow> table_wf m (hlmactable_clean t)"
  by (auto simp: table_wf_def hlmactable_clean_def)

lemma table_wf_number: "table_wf m t \<Longrightarrow> number_of_hlmac_addresses t > 0 \<longleftrightarrow> entries t \<noteq> []"
proof -
  assume "table_wf m t"
  then have "length (entries t) = unat (number_of_hlmac_addresses t)" by (simp add: table_wf_def)
  moreover have "number_of_hlmac_addresses t > 0 \<longleftrightarrow> unat (number_of_hlmac_addresses t) > 0"
    by (simp add: word_less_nat_alt)
  ultimately show ?thesis by (metis length_greater_0_conv)
qed

lemma drop_older_round_eq:
  "table_wf m t \<Longrightarrow> drop_older_round ts t =
     (case entries t of [] \<Rightarrow> t | e # _ \<Rightarrow> if ts > he_timestamp e then hlmactable_clean t else t)"
  using table_wf_number [of m t] by (simp add: drop_older_round_def split: list.split)

lemma table_wf_drop [step_inv]: "table_wf m t \<Longrightarrow> table_wf m (drop_older_round ts t)"
  by (simp add: drop_older_round_eq table_wf_clean split: list.split)

text \<open>Adding to a table of the current round.\<close>

definition appended :: "hlmacaddr \<Rightarrow> u64 \<Rightarrow> hlmac_table \<Rightarrow> hlmac_table" where
  "appended a ts t = t\<lparr>entries := entries t @ [\<lparr>he_address = a, he_timestamp = ts\<rparr>],
     number_of_hlmac_addresses := number_of_hlmac_addresses t + 1\<rparr>"

definition room :: "int \<Rightarrow> hlmac_table \<Rightarrow> bool" where
  "room m t \<longleftrightarrow> length (entries t) < 255 \<and> (m = - 1 \<or> int (length (entries t)) < m)"

lemma hlmactable_add_cases:
  assumes "table_wf m t"
  shows "hlmactable_add m a ts t =
    (let t = drop_older_round ts t in if room m t then (1, appended a ts t) else (0, t))"
proof -
  let ?t = "drop_older_round ts t"
  let ?n = "number_of_hlmac_addresses ?t"
  have len: "length (entries ?t) = unat ?n"
    using table_wf_drop [OF assms] by (simp add: table_wf_def)
  have "?n \<ge> 255 \<longleftrightarrow> \<not> length (entries ?t) < 255"
    unfolding len by (simp add: word_le_nat_alt linorder_not_less)
  moreover have "uint ?n = int (length (entries ?t))"
    unfolding len by (simp only: uint_nat)
  ultimately show ?thesis
    by (simp only: hlmactable_add_def room_def appended_def Let_def) argo
qed

lemma table_wf_appended:
  assumes "table_wf m t" "room m t"
  shows "table_wf m (appended a ts t)"
proof -
  have "length (entries t) = unat (number_of_hlmac_addresses t)" "length (entries t) < 255"
    using assms by (simp_all add: table_wf_def room_def)
  then have "unat (number_of_hlmac_addresses t + 1) = Suc (length (entries t))"
    by (simp add: unat_word_ariths)
  with assms show ?thesis by (auto simp: table_wf_def room_def appended_def)
qed

lemma table_wf_add [step_inv]: "table_wf m t \<Longrightarrow> table_wf m (snd (hlmactable_add m a ts t))"
  using table_wf_drop [of m t ts] table_wf_appended [of m "drop_older_round ts t" a ts]
  by (simp add: hlmactable_add_cases Let_def)

text \<open>
  What \<open>hlmactable_add\<close> does: an address of a newer round replaces everything; one of the
  same or an older round is appended while the limit allows, and refused otherwise.
\<close>

definition round_entries :: "u64 \<Rightarrow> hlmac_table \<Rightarrow> hlmac_entry list" where
  "round_entries ts t = (case entries t of [] \<Rightarrow> [] | e # es \<Rightarrow> if ts > he_timestamp e then [] else e # es)"

lemma entries_drop_older: "table_wf m t \<Longrightarrow> entries (drop_older_round ts t) = round_entries ts t"
  by (simp add: drop_older_round_eq round_entries_def hlmactable_clean_def split: list.split)

lemma hlmactable_add_entries:
  assumes "table_wf m t"
  shows "entries (snd (hlmactable_add m a ts t)) =
      (if fst (hlmactable_add m a ts t) = 1
       then round_entries ts t @ [\<lparr>he_address = a, he_timestamp = ts\<rparr>] else round_entries ts t)"
    and "fst (hlmactable_add m a ts t) =
      (if length (round_entries ts t) < 255 \<and> (m = - 1 \<or> int (length (round_entries ts t)) < m) then 1 else 0)"
proof -
  have "hlmactable_add m a ts t = (if room m (drop_older_round ts t)
      then (1, appended a ts (drop_older_round ts t)) else (0, drop_older_round ts t))"
    by (simp only: hlmactable_add_cases [OF assms] Let_def)
  then show "entries (snd (hlmactable_add m a ts t)) =
      (if fst (hlmactable_add m a ts t) = 1
       then round_entries ts t @ [\<lparr>he_address = a, he_timestamp = ts\<rparr>] else round_entries ts t)"
    "fst (hlmactable_add m a ts t) =
      (if length (round_entries ts t) < 255 \<and> (m = - 1 \<or> int (length (round_entries ts t)) < m) then 1 else 0)"
    by (cases "room m (drop_older_round ts t)";
      simp add: entries_drop_older [OF assms] appended_def room_def)+
qed

text \<open>All entries carry the timestamp of one round, when rounds are added in order.\<close>

definition one_round :: "hlmac_table \<Rightarrow> bool" where
  "one_round t \<longleftrightarrow> (\<forall>e \<in> set (entries t). \<forall>e' \<in> set (entries t). he_timestamp e = he_timestamp e')"

lemma one_round_add:
  assumes "table_wf m t" "one_round t" "\<forall>e \<in> set (entries t). he_timestamp e \<le> ts"
  shows "one_round (snd (hlmactable_add m a ts t))"
proof -
  have r: "he_timestamp e = ts" if e: "e \<in> set (round_entries ts t)" for e
  proof -
    obtain e0 es where "entries t = e0 # es" "\<not> ts > he_timestamp e0" "e \<in> set (entries t)"
      using e by (cases "entries t") (auto simp: round_entries_def split: if_splits)
    moreover from this have e0: "e0 \<in> set (entries t)" by simp
    ultimately have "he_timestamp e = he_timestamp e0" "he_timestamp e0 \<le> ts" "\<not> he_timestamp e0 < ts"
      using assms(2,3) unfolding one_round_def by blast+
    then show ?thesis by (metis order_le_less)
  qed
  let ?t = "snd (hlmactable_add m a ts t)"
  have "set (entries ?t) \<subseteq> set (round_entries ts t) \<union> {\<lparr>he_address = a, he_timestamp = ts\<rparr>}"
    unfolding hlmactable_add_entries(1) [OF assms(1)] by auto
  then have "e \<in> set (entries ?t) \<Longrightarrow> he_timestamp e = ts" for e
    using r [of e] by auto
  then show ?thesis by (simp add: one_round_def)
qed

section \<open>Loop detection\<close>

text \<open>
  While every entry's block is live, the scan finds an entry that compares equal, and
  \<open>hlmactable_has_loop\<close> decides whether a proper, nonempty prefix of the candidate is in the
  table; it leaves no block behind.
\<close>

definition entries_repr :: "heap \<Rightarrow> hlmac_entry list \<Rightarrow> u8 list list \<Rightarrow> bool" where
  "entries_repr h es ids \<longleftrightarrow> list_all2 (\<lambda>e bs. hl_repr h (he_address e) bs) es ids"

lemma entries_repr_member: "entries_repr h es ids \<Longrightarrow> e \<in> set es \<Longrightarrow> \<exists>bs \<in> set ids. hl_repr h (he_address e) bs"
  unfolding entries_repr_def by (induction es ids rule: list_all2_induct) auto

lemma entry_scan_repr:
  assumes "entries_repr h es ids" "hl_repr h a bs"
  shows "entry_scan es a h = ((\<exists>e \<in> set ids. cmp_ids e bs = 0), h)"
  using assms(1) unfolding entries_repr_def
proof (induction es ids rule: list_all2_induct)
  case (Cons e es x ids)
  then show ?case using hlmac_cmp_repr [OF Cons.hyps(1) assms(2)] by simp
qed simp

text \<open>
  \<open>exchanged a h a' h'\<close>: the run from \<open>h\<close> to \<open>h'\<close> has exchanged the block of \<open>a\<close> for the block of
  \<open>a'\<close> and left every other block alone, with no access outside of live blocks.
\<close>

definition exchanged :: "hlmacaddr \<Rightarrow> heap \<Rightarrow> hlmacaddr \<Rightarrow> heap \<Rightarrow> bool" where
  "exchanged a h a' h' \<longleftrightarrow> ub h' = ub h \<and> heap_wf h' \<and>
     (blocks h')(address a' := None) = (blocks h)(address a := None)"

lemma exchanged_refl: "heap_wf h \<Longrightarrow> exchanged a h a h"
  by (simp add: exchanged_def)

lemma exchanged_trans: "exchanged a h b h1 \<Longrightarrow> exchanged b h1 c h2 \<Longrightarrow> exchanged a h c h2"
  by (simp add: exchanged_def)

definition apart :: "hlmacaddr \<Rightarrow> hlmac_entry list \<Rightarrow> bool" where
  "apart a es \<longleftrightarrow> (\<forall>e \<in> set es. address (he_address e) = NULL \<or> address (he_address e) \<noteq> address a)"

lemma hl_repr_exchanged:
  assumes "hl_repr h b bs" "exchanged a h a' h'" "address b = NULL \<or> address b \<noteq> address a"
  shows "hl_repr h' b bs \<and> (address b = NULL \<or> address b \<noteq> address a')"
proof (cases "address b = NULL")
  case False
  then have "blocks h (address b) = Some bs" using assms(1) by (simp add: hl_repr_def)
  moreover have "((blocks h')(address a' := None)) (address b) = ((blocks h)(address a := None)) (address b)"
    using assms(2) by (simp add: exchanged_def)
  ultimately show ?thesis using False assms(1,3) by (auto simp: hl_repr_def split: if_splits)
qed (use assms(1) in \<open>auto simp: hl_repr_def\<close>)

lemma entries_repr_exchanged:
  assumes "entries_repr h es ids" "exchanged a h a' h'" "apart a es"
  shows "entries_repr h' es ids \<and> apart a' es"
  using assms(1,3) unfolding entries_repr_def
proof (induction es ids rule: list_all2_induct)
  case (Cons e es x ids)
  then show ?case using hl_repr_exchanged [OF Cons.hyps(1) assms(2)] by (auto simp: apart_def)
qed (simp add: apart_def)

lemma exchanged_remove_Last_id:
  assumes "heap_wf h" "hl_repr h a bs" "bs \<noteq> []" "hlmac_remove_Last_id a h = (a', h')"
  shows "exchanged a h a' h'"
proof -
  note spec = remove_Last_id_spec [OF assms(1,2,4)]
  have "blocks h NULL = None" using assms(1) by (simp add: heap_wf_def)
  then have "((blocks h')(address a' := None)) p = ((blocks h)(address a := None)) p" for p
    using spec(2-4) assms(3) by (auto simp: heap_touch_def)
  then show ?thesis using spec(2) by (auto simp: exchanged_def heap_touch_def)
qed

definition known_prefix :: "u8 list list \<Rightarrow> u8 list \<Rightarrow> bool" where
  "known_prefix ids bs \<longleftrightarrow> (\<exists>k \<in> {1..length bs}. \<exists>e \<in> set ids. cmp_ids e (take k bs) = 0)"

lemma known_prefix_Nil [simp]: "\<not> known_prefix ids []"
  by (simp add: known_prefix_def)

lemma known_prefix_snoc:
  "known_prefix ids (bs @ [b]) \<longleftrightarrow> (\<exists>e \<in> set ids. cmp_ids e (bs @ [b]) = 0) \<or> known_prefix ids bs"
proof -
  have "{1..length (bs @ [b])} = insert (Suc (length bs)) {1..length bs}" by auto
  then show ?thesis by (simp add: known_prefix_def)
qed

lemma prefix_loop_repr:
  assumes "heap_wf h" "hl_repr h a bs" "entries_repr h es ids" "apart a es" "bs = [] \<Longrightarrow> address a = NULL"
    and "prefix_loop es a h = (a', h')"
  shows "exchanged a h a' h' \<and> (hlmac_is_unspecified_addr a' \<longleftrightarrow> \<not> known_prefix ids bs) \<and>
    (address a' = NULL \<or> blocks h' (address a') \<noteq> None)"
  using assms
proof (induction bs arbitrary: a h rule: rev_induct)
  case Nil
  then have "len a = 0" using hl_repr_len0 by simp
  moreover from this have "a' = a" "h' = h"
    using Nil by (simp_all add: hlmac_get_len_def prefix_loop.simps [of es a h])
  ultimately have "a' = a" "h' = h" "len a = 0" by simp_all
  with Nil show ?case by (simp add: exchanged_refl hlmac_is_unspecified_addr_def)
next
  case (snoc b bs)
  have nz: "len a \<noteq> 0" "address a \<noteq> NULL"
    using hl_repr_len0 [OF snoc.prems(2)] hl_repr_block [OF snoc.prems(2)] by auto
  note scan = entry_scan_repr [OF snoc.prems(3,2)]
  show ?case
  proof (cases "\<exists>e \<in> set ids. cmp_ids e (bs @ [b]) = 0")
    case True
    then have "(a', h') = (a, h)"
      using snoc.prems(6) nz scan by (simp add: prefix_loop.simps [of es a h] hlmac_get_len_def word_gt_0)
    with True nz snoc.prems(1,2) hl_repr_block [OF snoc.prems(2)] show ?thesis
      by (simp add: exchanged_refl hlmac_is_unspecified_addr_def known_prefix_snoc)
  next
    case False
    obtain a1 h1 where r: "hlmac_remove_Last_id a h = (a1, h1)" by fastforce
    with False have loop: "prefix_loop es a1 h1 = (a', h')"
      using snoc.prems(6) nz scan by (simp add: prefix_loop.simps [of es a h] hlmac_get_len_def word_gt_0)
    note spec = remove_Last_id_spec [OF snoc.prems(1,2) r]
    have p: "exchanged a h a1 h1" using exchanged_remove_Last_id [OF snoc.prems(1,2) _ r] by simp
    have "bs = [] \<Longrightarrow> address a1 = NULL"
      using r nz hl_repr_length [OF snoc.prems(2)]
      by (auto simp: hlmac_remove_Last_id_def Let_def malloc_def word_unat_eq_iff split: if_splits)
    then have "exchanged a1 h1 a' h' \<and> (hlmac_is_unspecified_addr a' \<longleftrightarrow> \<not> known_prefix ids bs) \<and>
        (address a' = NULL \<or> blocks h' (address a') \<noteq> None)"
      using snoc.IH [of h1 a1] spec(1,2) entries_repr_exchanged [OF snoc.prems(3) p snoc.prems(4)] loop
      by (simp add: heap_touch_def)
    with False p show ?thesis using exchanged_trans by (auto simp: known_prefix_snoc)
  qed
qed

text \<open>The candidate's proper prefixes are all tried, and nothing else in the heap changes.\<close>

theorem has_loop_repr:
  assumes "heap_wf h" "hl_repr h a bs" "bs \<noteq> []" "entries_repr h (entries t) ids"
    and "hlmactable_has_loop a t h = (r, h')"
  shows "r = (if known_prefix ids (butlast bs) then 1 else 0)" "blocks h' = blocks h" "ub h' = ub h"
    "heap_wf h'"
proof -
  let ?p = "brk h" and ?n = "unat (len a)"
  let ?c = "\<lparr>address = ?p, len = len a\<rparr>"
  let ?h1 = "h\<lparr>brk := Suc ?p, blocks := (blocks h)(?p := Some bs)\<rparr>"
  have n: "?n = length bs" using assms(2) by (simp add: hl_repr_def)
  have blk: "address a \<noteq> NULL" "blocks h (address a) = Some bs"
    using hl_repr_block [OF assms(2,3)] by auto
  have p: "?p \<noteq> NULL" "blocks h ?p = None" "?p \<noteq> address a"
    using assms(1) blk by (auto simp: heap_wf_def)
  have copy: "copy_loop ?p (address a) ?n (snd (malloc ?n h)) = ?h1"
    using copy_loop_blocks [of "snd (malloc ?n h)" "address a" bs ?p "map (junk h ?p) [0..<?n]" ?n] blk p
    by (simp add: malloc_def n)
  have wf1: "heap_wf ?h1" using assms(1) by (auto simp: heap_wf_def)
  have c: "hl_repr ?h1 ?c bs" using p(1) by (simp add: hl_repr_def n)
  have start: "ub ?h1 = ub h" "(blocks ?h1)(?p := None) = blocks h" using p by (auto simp: fun_upd_idem)
  have live: "entries_repr ?h1 (entries t) ids" "apart ?c (entries t)"
  proof -
    have *: "hl_repr ?h1 (he_address e) b" "address (he_address e) = NULL \<or> address (he_address e) \<noteq> ?p"
      if "hl_repr h (he_address e) b" for e b
      using that p by (auto simp: hl_repr_def split: if_splits)
    show "entries_repr ?h1 (entries t) ids"
      using assms(4) * unfolding entries_repr_def by (auto intro: list_all2_mono)
    show "apart ?c (entries t)"
      using entries_repr_member [OF assms(4)] *(2) unfolding apart_def by fastforce
  qed
  obtain a2 h2 where r: "hlmac_remove_Last_id ?c ?h1 = (a2, h2)" by fastforce
  note spec = remove_Last_id_spec [OF wf1 c r]
  have e2: "exchanged ?c ?h1 a2 h2" by (rule exchanged_remove_Last_id [OF wf1 c assms(3) r])
  obtain a3 h3 where l: "prefix_loop (entries t) a2 h2 = (a3, h3)" by fastforce
  have null: "butlast bs = [] \<Longrightarrow> address a2 = NULL"
    using r assms(3) n by (cases bs) (auto simp: hlmac_remove_Last_id_def word_unat_eq_iff Let_def malloc_def split: if_splits)
  have "exchanged a2 h2 a3 h3 \<and> (hlmac_is_unspecified_addr a3 \<longleftrightarrow> \<not> known_prefix ids (butlast bs)) \<and>
      (address a3 = NULL \<or> blocks h3 (address a3) \<noteq> None)"
    using entries_repr_exchanged [OF live(1) e2 live(2)] e2
    by (intro prefix_loop_repr [OF _ spec(1) _ _ null l]) (simp_all add: exchanged_def)
  then have e3: "exchanged ?c ?h1 a3 h3"
    and live3: "address a3 = NULL \<or> blocks h3 (address a3) \<noteq> None"
    and u: "hlmac_is_unspecified_addr a3 \<longleftrightarrow> \<not> known_prefix ids (butlast bs)"
    using exchanged_trans [OF e2] by auto
  have res: "r = (if known_prefix ids (butlast bs) then 1 else 0)" "h' = free (address a3) h3"
    using assms(5) u copy r l
    by (simp_all add: hlmactable_has_loop_def hlmactable_get_longest_matchhed_prefix_def Let_def
      malloc_def split: if_splits)
  show "r = (if known_prefix ids (butlast bs) then 1 else 0)" by (rule res)
  have "heap_wf h3" "ub h3 = ub h" "(blocks h3)(address a3 := None) = blocks h"
    using e3 start by (auto simp: exchanged_def)
  moreover from this have "blocks h3 (address a3) = None \<Longrightarrow> blocks h3 = blocks h"
    by (metis fun_upd_triv)
  ultimately show "blocks h' = blocks h" "ub h' = ub h"
    using live3 unfolding res(2) by (auto simp: free_def heap_wf_def split: option.splits)
  show "heap_wf h'" using \<open>heap_wf h3\<close> by (simp add: res(2))
qed

text \<open>With nonzero identifiers (as assigned), a loop is a table entry that the candidate extends.\<close>

lemma known_prefix_nonzero:
  assumes "0 \<notin> set bs" "\<forall>e \<in> set ids. 0 \<notin> set e \<and> e \<noteq> []" "bs \<noteq> []"
  shows "known_prefix ids (butlast bs) \<longleftrightarrow> (\<exists>e \<in> set ids. strict_prefix e bs)"
proof -
  have z: "0 \<notin> set (take k (butlast bs))" for k
    using assms(1) by (meson in_set_butlastD in_set_takeD)
  have "e \<in> set ids \<Longrightarrow> cmp_ids e (take k (butlast bs)) = 0 \<longleftrightarrow> e = take k (butlast bs)" for e k
    using z assms(2) by (simp add: cmp_ids_nonzero)
  then have "known_prefix ids (butlast bs) \<longleftrightarrow>
      (\<exists>e \<in> set ids. \<exists>k \<in> {1..length (butlast bs)}. e = take k (butlast bs))"
    unfolding known_prefix_def by blast
  moreover have "(\<exists>k \<in> {1..length (butlast bs)}. e = take k (butlast bs)) \<longleftrightarrow> strict_prefix e bs"
    if "e \<in> set ids" for e
  proof
    assume "\<exists>k \<in> {1..length (butlast bs)}. e = take k (butlast bs)"
    then have "prefix e (butlast bs)" by (auto simp: take_is_prefix)
    then show "strict_prefix e bs"
      using assms(3) by (metis append_butlast_last_id prefix_order.le_less_trans prefix_snocD strict_prefixI' prefix_order.dual_order.refl)
  next
    assume "strict_prefix e bs"
    then obtain zs where "bs = e @ zs" "zs \<noteq> []" by (auto elim: strict_prefixE')
    then have "e = take (length e) (butlast bs)" "length e \<le> length (butlast bs)"
      by (cases zs; simp add: butlast_append)+
    then show "\<exists>k \<in> {1..length (butlast bs)}. e = take k (butlast bs)"
      using assms(2) that by (metis Suc_leI atLeastAtMost_iff length_greater_0_conv One_nat_def)
  qed
  ultimately show ?thesis by blast
qed

section \<open>A freed address in the table\<close>

text \<open>
  An entry whose identifiers were freed by the caller makes the next loop check read freed
  memory, whatever the candidate of two identifiers or more.
\<close>

lemma ub_entry_scan [simp]: "ub h \<Longrightarrow> ub (snd (entry_scan es a h))"
  by (induction es arbitrary: h)
    (auto simp: Let_def case_prod_beta)

lemma ub_prefix_loop [simp]: "ub h \<Longrightarrow> ub (snd (prefix_loop es a h))"
  by (induction es a h rule: prefix_loop.induct)
    (subst prefix_loop.simps, auto simp: Let_def case_prod_beta,
      metis prod.collapse ub_entry_scan ub_remove_Last_id)

text \<open>\<open>p\<close> is not a live block, and not the next one to be allocated.\<close>

definition dead :: "ptr \<Rightarrow> heap \<Rightarrow> bool" where
  "dead p h \<longleftrightarrow> blocks h p = None \<and> p < brk h"

lemma dead_steps:
  assumes "dead p h"
  shows "dead p (snd (malloc n h))" "dead p (free q h)" "dead p (snd (load q i h))" "dead p (store q i v h)"
  using assms by (auto simp: dead_def malloc_def free_def load_def store_def split: option.splits)

lemma dead_copy: "dead p h \<Longrightarrow> dead p (copy_loop dst src n h)"
  by (induction n) (simp_all add: Let_def case_prod_beta dead_steps)

lemma dead_remove_Last_id: "dead p h \<Longrightarrow> dead p (snd (hlmac_remove_Last_id a h))"
  by (simp add: hlmac_remove_Last_id_def Let_def case_prod_beta dead_steps dead_copy)

lemma has_loop_dangling:
  assumes "entries t = e # es" "dead (address (he_address e)) h" "len (he_address e) \<noteq> 0" "len a > 1"
  shows "ub (snd (hlmactable_has_loop a t h))"
proof -
  let ?c = "\<lparr>address = fst (malloc (unat (len a)) h), len = len a\<rparr>"
  let ?h1 = "copy_loop (address ?c) (address a) (unat (len a)) (snd (malloc (unat (len a)) h))"
  obtain a2 h2 where r: "hlmac_remove_Last_id ?c ?h1 = (a2, h2)" by fastforce
  have "len a \<noteq> 0" "len a \<noteq> 1" using assms(4) by auto
  then have "len a2 \<noteq> 0"
    using remove_Last_id_len [of ?c ?h1] r by simp
  moreover have "dead (address (he_address e)) h2"
    using dead_remove_Last_id [of _ ?h1 ?c] dead_copy dead_steps(1) assms(2) r by (metis snd_conv)
  ultimately have "ub (snd (entry_scan (entries t) a2 h2))"
    using hlmac_cmp_dangling [of h2 "he_address e" a2] assms(1,3)
    by (simp add: dead_def Let_def case_prod_beta)
  then have "ub (snd (prefix_loop (entries t) a2 h2))"
    using \<open>len a2 \<noteq> 0\<close>
    by (subst prefix_loop.simps) (simp add: Let_def case_prod_beta hlmac_get_len_def word_gt_0)
  then show ?thesis using r
    by (simp add: hlmactable_has_loop_def hlmactable_get_longest_matchhed_prefix_def Let_def case_prod_beta)
qed

lemma calculate_sum_hop_ids:
  assumes "entries_repr h (entries t) ids"
  shows "hlmactable_calculate_sum_hop t = int (sum_list (map length ids))"
proof -
  have "foldl (\<lambda>sum e. sum + uint (len (he_address e))) s es = s + int (sum_list (map length ids))"
    if "entries_repr h es ids" for s es
    using that unfolding entries_repr_def
  proof (induction es ids arbitrary: s rule: list_all2_induct)
    case (Cons e es x ids)
    have "uint (len (he_address e)) = int (length x)"
      using hl_repr_length [OF Cons.hyps(1)] by (simp only: uint_nat)
    then show ?case using Cons.IH by simp
  qed simp
  then show ?thesis using assms by (simp add: hlmactable_calculate_sum_hop_def)
qed

end
