(* ===== verification/Csma_Output.thy ===== *)
theory Csma_Output imports Contiki_List Contiki_Queuebuf begin

text \<open>
  The CSMA transmission queues (\<open>csma-output.c\<close>): per neighbour a queue of packets, each with
  a queue buffer and metadata from their own pools, a transmission timer, and the counters
  of the backoff and retransmission rules.

  The structs live in pools, so each field is a function of the struct's address; lists
  are the sequences of \<open>Contiki_List\<close>. A timer is the delay it was last set to, or \<open>None\<close>
  when it is stopped. \<open>sent_calls\<close> records the calls of \<open>mac_call_sent_callback\<close> that reach a
  callback. \<open>create_frame\<close> stands for the framer, \<open>radio_answers\<close> for what the radio driver
  answers during one transmission.
\<close>

datatype mac_status = MAC_TX_OK | MAC_TX_COLLISION | MAC_TX_NOACK | MAC_TX_DEFERRED | MAC_TX_ERR
  | MAC_TX_ERR_FATAL | MAC_TX_QUEUE_FULL

datatype radio_status = RADIO_TX_OK | RADIO_TX_ERR | RADIO_TX_COLLISION | RADIO_TX_NOACK

record csma =
  neighbor_memb :: memb
  packet_memb :: memb
  metadata_memb :: memb
  qbufs :: queuebufs
  pktbuf :: packetbuf
  neighbour_list :: "ptr list"
  nq_addr :: "ptr \<Rightarrow> linkaddr"
  nq_timer :: "ptr \<Rightarrow> clock_time option"
  nq_transmissions :: "ptr \<Rightarrow> u8"
  nq_collisions :: "ptr \<Rightarrow> u8"
  nq_queue :: "ptr \<Rightarrow> ptr list"
  pq_buf :: "ptr \<Rightarrow> ptr"
  pq_ptr :: "ptr \<Rightarrow> ptr"
  md_sent :: "ptr \<Rightarrow> ptr"
  md_cptr :: "ptr \<Rightarrow> ptr"
  md_max_transmissions :: "ptr \<Rightarrow> u8"
  out_initialized :: bool
  out_seqno :: u8
  transmission_delay :: clock_time
  rand :: rng
  sent_calls :: "(ptr \<times> ptr \<times> mac_status \<times> nat) list"

definition CSMA_MIN_BE :: nat where "CSMA_MIN_BE = 3"
definition CSMA_MAX_BE :: nat where "CSMA_MAX_BE = 5"
definition CSMA_MAX_BACKOFF :: u8 where "CSMA_MAX_BACKOFF = 5"
definition CSMA_MAX_FRAME_RETRIES :: u8 where "CSMA_MAX_FRAME_RETRIES = 7"

text \<open>\<open>CSMA_MAX_PACKET_PER_NEIGHBOR\<close> is the size of the packet pool by default.\<close>

definition CSMA_MAX_PACKET_PER_NEIGHBOR :: "csma \<Rightarrow> nat" where
  "CSMA_MAX_PACKET_PER_NEIGHBOR s = mnum (packet_memb s)"

fun neighbor_queue_from_addr :: "linkaddr \<Rightarrow> (ptr \<Rightarrow> linkaddr) \<Rightarrow> ptr list \<Rightarrow> ptr" where
  "neighbor_queue_from_addr addr nqa [] = NULL"
| "neighbor_queue_from_addr addr nqa (n # ns) =
     (if linkaddr_cmp (nqa n) addr then n else neighbor_queue_from_addr addr nqa ns)"

definition backoff_period :: "build \<Rightarrow> clock_time" where
  "backoff_period cfg =
     (if target_cooja cfg then max (20 * CLOCK_SECOND div 3125) 1 else max (CLOCK_SECOND div 3125) 1)"

definition max_transmission_delay :: "build \<Rightarrow> clock_time" where
  "max_transmission_delay cfg = (push_bit CSMA_MAX_BE 1 - 1) * backoff_period cfg"

definition mac_call_sent_callback :: "ptr \<Rightarrow> ptr \<Rightarrow> mac_status \<Rightarrow> nat \<Rightarrow> csma \<Rightarrow> csma" where
  "mac_call_sent_callback sent p status num_tx s =
     (if sent \<noteq> NULL then s\<lparr>sent_calls := sent_calls s @ [(sent, p, status, num_tx)]\<rparr> else s)"

definition schedule_transmission :: "build \<Rightarrow> ptr \<Rightarrow> csma \<Rightarrow> csma" where
  "schedule_transmission cfg n s =
     (let backoff_exponent = min (unat (nq_collisions s n) + CSMA_MIN_BE) CSMA_MAX_BE;
          delay = (push_bit backoff_exponent 1 - 1) * backoff_period cfg;
          (delay, s) =
            (if delay > 0 then let (r, g) = random_rand (rand s) in (ucast r mod delay, s\<lparr>rand := g\<rparr>)
             else (delay, s));
          s = s\<lparr>nq_timer := (nq_timer s)(n := Some delay)\<rparr>
      in if hlmac_cast cfg = 0 then s\<lparr>transmission_delay := delay\<rparr> else s)"

definition free_packet :: "build \<Rightarrow> ptr \<Rightarrow> ptr \<Rightarrow> mac_status \<Rightarrow> csma \<Rightarrow> csma" where
  "free_packet cfg n p status s =
     (if p \<noteq> NULL then
        let s = s\<lparr>nq_queue := (nq_queue s)(n := alist_remove p (nq_queue s n))\<rparr>;
            s = s\<lparr>qbufs := queuebuf_free (pq_buf s p) (qbufs s)\<rparr>;
            s = s\<lparr>metadata_memb := snd (memb_free (metadata_memb s) (pq_ptr s p))\<rparr>;
            s = s\<lparr>packet_memb := snd (memb_free (packet_memb s) p)\<rparr>
        in if nq_queue s n \<noteq> [] then
             schedule_transmission cfg n
               (s\<lparr>nq_transmissions := (nq_transmissions s)(n := 0),
                  nq_collisions := (nq_collisions s)(n := 0)\<rparr>)
           else
             s\<lparr>nq_timer := (nq_timer s)(n := None),
               neighbour_list := alist_remove n (neighbour_list s),
               neighbor_memb := snd (memb_free (neighbor_memb s) n)\<rparr>
      else s)"

definition tx_done :: "build \<Rightarrow> mac_status \<Rightarrow> ptr \<Rightarrow> ptr \<Rightarrow> csma \<Rightarrow> csma" where
  "tx_done cfg status q n s =
     (let metadata = pq_ptr s q;
          sent = md_sent s metadata;
          cptr = md_cptr s metadata;
          ntx = nq_transmissions s n;
          s = free_packet cfg n q status s
      in mac_call_sent_callback sent cptr status (unat ntx) s)"

definition rexmit :: "build \<Rightarrow> ptr \<Rightarrow> ptr \<Rightarrow> csma \<Rightarrow> csma" where
  "rexmit cfg q n s =
     (let s = schedule_transmission cfg n s
      in s\<lparr>qbufs := queuebuf_update_attr_from_packetbuf (pktbuf s) (pq_buf s q) (qbufs s)\<rparr>)"

definition collision :: "build \<Rightarrow> ptr \<Rightarrow> ptr \<Rightarrow> u8 \<Rightarrow> csma \<Rightarrow> csma" where
  "collision cfg q n num_transmissions s =
     (let metadata = pq_ptr s q;
          s = s\<lparr>nq_collisions := (nq_collisions s)(n := nq_collisions s n + num_transmissions)\<rparr>;
          s = (if nq_collisions s n > CSMA_MAX_BACKOFF
               then s\<lparr>nq_collisions := (nq_collisions s)(n := 0),
                      nq_transmissions := (nq_transmissions s)(n := nq_transmissions s n + 1)\<rparr>
               else s)
      in if nq_transmissions s n \<ge> md_max_transmissions s metadata
         then tx_done cfg MAC_TX_COLLISION q n s
         else rexmit cfg q n s)"

definition noack :: "build \<Rightarrow> ptr \<Rightarrow> ptr \<Rightarrow> u8 \<Rightarrow> csma \<Rightarrow> csma" where
  "noack cfg q n num_transmissions s =
     (let metadata = pq_ptr s q;
          s = s\<lparr>nq_collisions := (nq_collisions s)(n := 0),
                nq_transmissions := (nq_transmissions s)(n := nq_transmissions s n + num_transmissions)\<rparr>
      in if nq_transmissions s n \<ge> md_max_transmissions s metadata
         then tx_done cfg MAC_TX_NOACK q n s
         else rexmit cfg q n s)"

definition tx_ok :: "build \<Rightarrow> ptr \<Rightarrow> ptr \<Rightarrow> u8 \<Rightarrow> csma \<Rightarrow> csma" where
  "tx_ok cfg q n num_transmissions s =
     (let s = s\<lparr>nq_collisions := (nq_collisions s)(n := 0),
                nq_transmissions := (nq_transmissions s)(n := nq_transmissions s n + num_transmissions)\<rparr>
      in tx_done cfg MAC_TX_OK q n s)"

definition packet_sent :: "build \<Rightarrow> ptr \<Rightarrow> ptr \<Rightarrow> mac_status \<Rightarrow> u8 \<Rightarrow> csma \<Rightarrow> csma" where
  "packet_sent cfg n q status num_transmissions s =
     (if pq_ptr s q = NULL then s
      else case status of
        MAC_TX_OK \<Rightarrow> tx_ok cfg q n num_transmissions s
      | MAC_TX_NOACK \<Rightarrow> noack cfg q n num_transmissions s
      | MAC_TX_COLLISION \<Rightarrow> collision cfg q n num_transmissions s
      | MAC_TX_DEFERRED \<Rightarrow> s
      | _ \<Rightarrow> tx_done cfg status q n s)"

text \<open>
  What the radio answers, in the order of the calls: receiving or pending before the
  transmission, the result of the transmission, then for a unicast frame receiving,
  pending or a busy channel after the first wait, pending after the second one, and the
  bytes that were read.
\<close>

record radio_answers =
  ra_receiving :: bool
  ra_pending :: bool
  ra_transmit :: radio_status
  ra_ack_receiving :: bool
  ra_ack_pending :: bool
  ra_channel_clear :: bool
  ra_ack_ready :: bool
  ra_ack :: "u8 list"

definition CSMA_ACK_LEN :: nat where "CSMA_ACK_LEN = 3"

definition transmit_result :: "radio_answers \<Rightarrow> bool \<Rightarrow> u8 \<Rightarrow> mac_status" where
  "transmit_result ra is_broadcast dsn =
     (if ra_receiving ra \<or> (\<not> is_broadcast \<and> ra_pending ra) then MAC_TX_COLLISION
      else case ra_transmit ra of
        RADIO_TX_OK \<Rightarrow>
          if is_broadcast then MAC_TX_OK
          else if ra_ack_receiving ra \<or> ra_ack_pending ra \<or> \<not> ra_channel_clear ra then
            if ra_ack_ready ra then
              if length (ra_ack ra) = CSMA_ACK_LEN \<and> ra_ack ra ! 2 = dsn then MAC_TX_OK
              else MAC_TX_COLLISION
            else MAC_TX_NOACK
          else MAC_TX_NOACK
      | RADIO_TX_COLLISION \<Rightarrow> MAC_TX_COLLISION
      | _ \<Rightarrow> MAC_TX_ERR)"

definition send_one_packet ::
  "build \<Rightarrow> linkaddr \<Rightarrow> (packetbuf \<Rightarrow> int \<times> packetbuf) \<Rightarrow> radio_answers \<Rightarrow> ptr \<Rightarrow> ptr \<Rightarrow> csma \<Rightarrow> bool \<times> csma" where
  "send_one_packet cfg node_addr create_frame ra n q s =
     (let pb = packetbuf_set_attr ATTR_MAC_ACK 1 (packetbuf_set_addr ADDR_SENDER node_addr (pktbuf s));
          (r, pb) = create_frame pb;
          s = s\<lparr>pktbuf := pb\<rparr>;
          ret = (if r < 0 then MAC_TX_ERR_FATAL
                 else transmit_result ra (packetbuf_holds_broadcast pb) (pbuf pb ! (packetbuf_hdrptr pb + 2)))
      in (ret = MAC_TX_OK, packet_sent cfg n q ret 1 s))"

definition transmit_from_queue ::
  "build \<Rightarrow> linkaddr \<Rightarrow> (packetbuf \<Rightarrow> int \<times> packetbuf) \<Rightarrow> radio_answers \<Rightarrow> ptr \<Rightarrow> csma \<Rightarrow> csma" where
  "transmit_from_queue cfg node_addr create_frame ra n s =
     (if n \<noteq> NULL then
        case nq_queue s n of
          [] \<Rightarrow> s
        | q # _ \<Rightarrow> snd (send_one_packet cfg node_addr create_frame ra n q
                     (s\<lparr>pktbuf := queuebuf_to_packetbuf (qbufs s) (pq_buf s q) (pktbuf s)\<rparr>))
      else s)"

text \<open>The parts of \<open>csma_output_packet\<close>: the sequence number, the neighbour, the packet.\<close>

definition stamp_packet :: "csma \<Rightarrow> csma" where
  "stamp_packet s =
     (let s = (if \<not> out_initialized s
               then let (r, g) = random_rand (rand s)
                    in s\<lparr>out_initialized := True, rand := g, out_seqno := ucast r\<rparr>
               else s);
          s = (if out_seqno s = 0 then s\<lparr>out_seqno := out_seqno s + 1\<rparr> else s);
          pb = packetbuf_set_attr ATTR_MAC_SEQNO (ucast (out_seqno s)) (pktbuf s);
          pb = packetbuf_set_attr ATTR_FRAME_TYPE 1 pb
      in s\<lparr>out_seqno := out_seqno s + 1, pktbuf := pb\<rparr>)"

definition output_neighbor :: "linkaddr \<Rightarrow> csma \<Rightarrow> ptr \<times> csma" where
  "output_neighbor addr s =
     (let n = neighbor_queue_from_addr addr (nq_addr s) (neighbour_list s)
      in if n \<noteq> NULL then (n, s)
         else
           let (n, m) = memb_alloc (neighbor_memb s);
               s = s\<lparr>neighbor_memb := m\<rparr>
           in if n \<noteq> NULL then
                (n, s\<lparr>nq_addr := (nq_addr s)(n := linkaddr_copy addr),
                      nq_transmissions := (nq_transmissions s)(n := 0),
                      nq_collisions := (nq_collisions s)(n := 0),
                      nq_queue := (nq_queue s)(n := []),
                      neighbour_list := alist_add n (neighbour_list s)\<rparr>)
              else (n, s))"

definition enqueue_packet :: "build \<Rightarrow> ptr \<Rightarrow> ptr \<Rightarrow> ptr \<Rightarrow> csma \<Rightarrow> bool \<times> csma" where
  "enqueue_packet cfg n sent cptr s =
     (let (q, m) = memb_alloc (packet_memb s);
          s = s\<lparr>packet_memb := m\<rparr>
      in if q = NULL then (False, s)
         else
           let (md, m) = memb_alloc (metadata_memb s);
               s = s\<lparr>metadata_memb := m, pq_ptr := (pq_ptr s)(q := md)\<rparr>
           in if md = NULL then (False, s\<lparr>packet_memb := snd (memb_free (packet_memb s) q)\<rparr>)
              else
                let (b, qbs) = queuebuf_new_from_packetbuf (pktbuf s) (qbufs s);
                    s = s\<lparr>qbufs := qbs, pq_buf := (pq_buf s)(q := b)\<rparr>
                in if b = NULL then
                     let s = s\<lparr>metadata_memb := snd (memb_free (metadata_memb s) md)\<rparr>
                     in (False, s\<lparr>packet_memb := snd (memb_free (packet_memb s) q)\<rparr>)
                   else
                     let mx = ucast (packetbuf_attr (pktbuf s) ATTR_MAX_MAC_TRANSMISSIONS);
                         mx = (if mx = 0 then CSMA_MAX_FRAME_RETRIES + 1 else mx);
                         s = s\<lparr>md_max_transmissions := (md_max_transmissions s)(md := mx),
                               md_sent := (md_sent s)(md := sent), md_cptr := (md_cptr s)(md := cptr),
                               nq_queue := (nq_queue s)(n := alist_add q (nq_queue s n))\<rparr>
                     in (True, if hd (nq_queue s n) = q then schedule_transmission cfg n s else s))"

text \<open>What follows once the neighbour is known or has been added.\<close>

definition output_tail :: "build \<Rightarrow> ptr \<Rightarrow> ptr \<Rightarrow> ptr \<Rightarrow> csma \<Rightarrow> csma" where
  "output_tail cfg n sent cptr s =
     (if length (nq_queue s n) < CSMA_MAX_PACKET_PER_NEIGHBOR s then
        let (queued, s) = enqueue_packet cfg n sent cptr s
        in if queued then s
           else
             let s = (if length (nq_queue s n) = 0
                      then s\<lparr>neighbour_list := alist_remove n (neighbour_list s),
                             neighbor_memb := snd (memb_free (neighbor_memb s) n)\<rparr>
                      else s)
             in mac_call_sent_callback sent cptr MAC_TX_ERR 1 s
      else mac_call_sent_callback sent cptr MAC_TX_ERR 1 s)"

definition csma_output_packet :: "build \<Rightarrow> ptr \<Rightarrow> ptr \<Rightarrow> csma \<Rightarrow> csma" where
  "csma_output_packet cfg sent cptr s =
     (let addr = packetbuf_addr (pktbuf s) ADDR_RECEIVER;
          s = stamp_packet s;
          (n, s) = output_neighbor addr s
      in if n \<noteq> NULL then output_tail cfg n sent cptr s
         else mac_call_sent_callback sent cptr MAC_TX_ERR 1 s)"

definition csma_output_init :: "csma \<Rightarrow> csma" where
  "csma_output_init s = s\<lparr>packet_memb := memb_init (packet_memb s),
     metadata_memb := memb_init (metadata_memb s), neighbor_memb := memb_init (neighbor_memb s)\<rparr>"

section \<open>The backoff delay\<close>

lemma backoff_period_bounds: "1 \<le> unat (backoff_period cfg)" "unat (backoff_period cfg) \<le> 6"
  by (simp_all add: backoff_period_def CLOCK_SECOND_def max_def word_less_nat_alt)

lemma backoff_window:
  assumes "be \<le> 5"
  shows "unat ((push_bit be 1 - 1) * backoff_period cfg) = (2 ^ be - 1) * unat (backoff_period cfg)"
proof -
  have "be \<in> {0, 1, 2, 3, 4, 5}" using assms by auto
  then have "unat (push_bit be 1 - 1 :: clock_time) = 2 ^ be - 1" by auto
  moreover have "(2 :: nat) ^ be \<le> 2 ^ 5" using assms by (intro power_increasing) auto
  then have "(2 ^ be - 1) * unat (backoff_period cfg) \<le> (2 ^ 5 - 1) * 6"
    using backoff_period_bounds(2) [of cfg] by (intro mult_le_mono) auto
  ultimately show ?thesis by (simp add: unat_word_ariths)
qed

text \<open>The bounds of the exponent and of the delay it allows.\<close>

definition backoff_exponent_of :: "u8 \<Rightarrow> nat" where
  "backoff_exponent_of collisions = min (unat collisions + 3) 5"

lemma schedule_transmission_effect:
  obtains d g td where
    "schedule_transmission cfg n s =
      s\<lparr>rand := g, nq_timer := (nq_timer s)(n := Some d), transmission_delay := td\<rparr>"
    and "unat d < (2 ^ backoff_exponent_of (nq_collisions s n) - 1) * unat (backoff_period cfg)"
    and "td = (if hlmac_cast cfg = 0 then d else transmission_delay s)"
proof -
  let ?be = "backoff_exponent_of (nq_collisions s n)"
  let ?w = "(push_bit ?be 1 - 1) * backoff_period cfg"
  have be: "min (unat (nq_collisions s n) + CSMA_MIN_BE) CSMA_MAX_BE = ?be" "?be \<le> 5" "3 \<le> ?be"
    by (simp_all add: backoff_exponent_of_def CSMA_MIN_BE_def CSMA_MAX_BE_def)
  have w: "unat ?w = (2 ^ ?be - 1) * unat (backoff_period cfg)" by (rule backoff_window [OF be(2)])
  have "(2 :: nat) ^ 3 \<le> 2 ^ ?be" using be(3) by (intro power_increasing) auto
  then have pos: "0 < unat ?w" using backoff_period_bounds(1) [of cfg] unfolding w by simp
  let ?r = "fst (random_rand (rand s))"
  have "unat (ucast ?r mod ?w :: clock_time) < unat ?w"
    using pos by (simp add: unat_mod)
  then have lt: "unat (ucast ?r mod ?w :: clock_time) < (2 ^ ?be - 1) * unat (backoff_period cfg)"
    unfolding w .
  have "?w > 0" using pos by (simp add: word_less_nat_alt)
  then have "schedule_transmission cfg n s =
      s\<lparr>rand := snd (random_rand (rand s)), nq_timer := (nq_timer s)(n := Some (ucast ?r mod ?w)),
        transmission_delay := (if hlmac_cast cfg = 0 then ucast ?r mod ?w else transmission_delay s)\<rparr>"
    unfolding schedule_transmission_def Let_def be(1) by (simp add: case_prod_beta)
  from that [OF this lt] show thesis by simp
qed

section \<open>The queues\<close>

text \<open>
  \<open>queues_wf nl Q P\<close>: the queues \<open>Q\<close> of the neighbours \<open>nl\<close> hold each packet of \<open>P\<close> exactly once.
\<close>

definition queues_wf :: "ptr list \<Rightarrow> (ptr \<Rightarrow> ptr list) \<Rightarrow> ptr set \<Rightarrow> bool" where
  "queues_wf nl Q P \<longleftrightarrow> distinct nl \<and> (\<forall>n \<in> set nl. distinct (Q n)) \<and>
     (\<forall>n \<in> set nl. \<forall>m \<in> set nl. n \<noteq> m \<longrightarrow> set (Q n) \<inter> set (Q m) = {}) \<and>
     (\<Union>n \<in> set nl. set (Q n)) = P"

lemma queues_wf_upd:
  assumes "queues_wf nl Q P" "n \<in> set nl" "distinct q" "set q \<inter> (P - set (Q n)) = {}"
  shows "queues_wf nl (Q(n := q)) (P - set (Q n) \<union> set q)"
proof -
  have disj: "set (Q m) \<subseteq> P" "m \<noteq> n \<Longrightarrow> set (Q m) \<inter> set (Q n) = {}" if "m \<in> set nl" for m
    using assms(1,2) that by (auto simp: queues_wf_def)
  have other: "m \<in> set nl \<Longrightarrow> m \<noteq> n \<Longrightarrow> set (Q m) \<subseteq> P - set (Q n)" for m
    using disj by blast
  have "(\<Union>m \<in> set nl. set ((Q(n := q)) m)) = P - set (Q n) \<union> set q"
  proof
    show "(\<Union>m \<in> set nl. set ((Q(n := q)) m)) \<subseteq> P - set (Q n) \<union> set q"
    proof (rule UN_least)
      fix m assume "m \<in> set nl"
      then show "set ((Q(n := q)) m) \<subseteq> P - set (Q n) \<union> set q"
        using other [of m] by (cases "m = n") auto
    qed
    have "x \<in> (\<Union>m \<in> set nl. set ((Q(n := q)) m))" if x: "x \<in> P" "x \<notin> set (Q n)" for x
    proof -
      obtain m where "m \<in> set nl" "x \<in> set (Q m)" using assms(1) x by (auto simp: queues_wf_def)
      moreover from this x have "m \<noteq> n" by auto
      ultimately show ?thesis by (intro UN_I [of m]) auto
    qed
    then show "P - set (Q n) \<union> set q \<subseteq> (\<Union>m \<in> set nl. set ((Q(n := q)) m))"
      using assms(2) by (fastforce intro: UN_I [of n])
  qed
  moreover have "set ((Q(n := q)) k) \<inter> set ((Q(n := q)) m) = {}"
    if "k \<in> set nl" "m \<in> set nl" "k \<noteq> m" for k m
    using that other [of k] other [of m] assms(1,4) by (auto simp: queues_wf_def split: if_splits)
  moreover have "distinct nl" "\<forall>m \<in> set nl. distinct ((Q(n := q)) m)"
    using assms(1,3) by (auto simp: queues_wf_def)
  ultimately show ?thesis unfolding queues_wf_def by blast
qed

lemma queues_wf_mem: "queues_wf nl Q P \<Longrightarrow> n \<in> set nl \<Longrightarrow> distinct (Q n) \<and> set (Q n) \<subseteq> P"
  by (auto simp: queues_wf_def)

lemma queues_wf_remove:
  assumes "queues_wf nl Q P" "n \<in> set nl" "p \<in> set (Q n)"
  shows "queues_wf nl (Q(n := alist_remove p (Q n))) (P - {p})"
proof -
  note q = queues_wf_mem [OF assms(1,2)]
  then have s: "set (alist_remove p (Q n)) = set (Q n) - {p}" "distinct (alist_remove p (Q n))"
    by (simp_all add: alist_remove_def)
  have "P - set (Q n) \<union> (set (Q n) - {p}) = P - {p}" using q assms(3) by blast
  then show ?thesis
    using queues_wf_upd [OF assms(1,2) s(2)] s(1) by auto
qed

lemma queues_wf_add:
  assumes "queues_wf nl Q P" "n \<in> set nl" "p \<notin> P"
  shows "queues_wf nl (Q(n := alist_add p (Q n))) (insert p P)"
proof -
  note q = queues_wf_mem [OF assms(1,2)]
  then have s: "set (alist_add p (Q n)) = insert p (set (Q n))" "distinct (alist_add p (Q n))"
    by (simp_all add: set_alist_add distinct_alist_add)
  have "P - set (Q n) \<union> insert p (set (Q n)) = insert p P" using q by blast
  then show ?thesis
    using queues_wf_upd [OF assms(1,2) s(2)] s(1) assms(3) by auto
qed

lemma queues_wf_drop:
  assumes "queues_wf nl Q P" "Q n = []"
  shows "queues_wf (alist_remove n nl) Q P"
proof -
  have "distinct nl" using assms(1) by (simp add: queues_wf_def)
  then have "set (alist_remove n nl) = set nl - {n}" "distinct (alist_remove n nl)"
    by (simp_all add: alist_remove_def)
  moreover have "(\<Union>m \<in> set nl - {n}. set (Q m)) = (\<Union>m \<in> set nl. set (Q m))"
    using assms(2) by force
  ultimately show ?thesis using assms(1) by (simp add: queues_wf_def)
qed

lemma queues_wf_new:
  assumes "queues_wf nl Q P" "n \<notin> set nl"
  shows "queues_wf (alist_add n nl) (Q(n := [])) P"
proof -
  have s: "set (alist_add n nl) = insert n (set nl)" "distinct (alist_add n nl)"
    using assms(1) by (simp_all add: set_alist_add distinct_alist_add queues_wf_def)
  have "m \<in> set nl \<Longrightarrow> (Q(n := [])) m = Q m" for m using assms(2) by auto
  then have "(\<Union>m \<in> insert n (set nl). set ((Q(n := [])) m)) = (\<Union>m \<in> set nl. set (Q m))" by simp
  with assms s show ?thesis by (auto simp: queues_wf_def)
qed

lemma find_queue:
  "neighbor_queue_from_addr a nqa nl = n \<Longrightarrow> n \<noteq> NULL \<Longrightarrow> n \<in> set nl \<and> nqa n = a"
  by (induction nl) (auto split: if_splits)

lemma find_queue_none:
  "NULL \<notin> set nl \<Longrightarrow> neighbor_queue_from_addr a nqa nl = NULL \<longleftrightarrow> (\<forall>n \<in> set nl. nqa n \<noteq> a)"
  by (induction nl) auto

section \<open>The invariant\<close>

text \<open>
  Between events: the lists hold exactly the live blocks of the pools, every packet owns its
  metadata and its queue buffer, and a neighbour that exists has a packet and an armed timer.
\<close>

definition stock_wf :: "csma \<Rightarrow> ptr set \<Rightarrow> bool" where
  "stock_wf s P \<longleftrightarrow> inj_on (pq_ptr s) P \<and> pq_ptr s ` P = memb_live (metadata_memb s) \<and>
     inj_on (pq_buf s) P \<and> pq_buf s ` P = qb_live (qbufs s) \<and>
     (\<forall>p \<in> P. md_max_transmissions s (pq_ptr s p) \<noteq> 0 \<and>
        qd_len (ram (qbufs s) (ram_ptr (qbufs s) (pq_buf s p))) \<le> PACKETBUF_SIZE)"

definition pools_wf :: "csma \<Rightarrow> bool" where
  "pools_wf s \<longleftrightarrow> memb_wf (neighbor_memb s) \<and> memb_wf (packet_memb s) \<and> memb_wf (metadata_memb s) \<and>
     qb_wf (qbufs s) \<and> pb_wf (pktbuf s) \<and> mnum (metadata_memb s) = mnum (packet_memb s) \<and>
     mnum (bufmem (qbufs s)) = mnum (packet_memb s) \<and> 0 < mnum (packet_memb s)"

definition csma_core :: "csma \<Rightarrow> bool" where
  "csma_core s \<longleftrightarrow> pools_wf s \<and> set (neighbour_list s) = memb_live (neighbor_memb s) \<and>
     inj_on (nq_addr s) (set (neighbour_list s)) \<and>
     queues_wf (neighbour_list s) (nq_queue s) (memb_live (packet_memb s)) \<and>
     stock_wf s (memb_live (packet_memb s))"

definition busy :: "csma \<Rightarrow> ptr \<Rightarrow> bool" where
  "busy s n \<longleftrightarrow> nq_queue s n \<noteq> [] \<and> nq_timer s n \<noteq> None"

definition csma_wf :: "csma \<Rightarrow> bool" where
  "csma_wf s \<longleftrightarrow> csma_core s \<and> (\<forall>n \<in> set (neighbour_list s). busy s n)"

lemma csma_core_frame [simp]:
  "csma_core (s\<lparr>nq_timer := t\<rparr>) = csma_core s"
  "csma_core (s\<lparr>nq_transmissions := tx\<rparr>) = csma_core s"
  "csma_core (s\<lparr>nq_collisions := co\<rparr>) = csma_core s"
  "csma_core (s\<lparr>transmission_delay := d\<rparr>) = csma_core s"
  "csma_core (s\<lparr>rand := g\<rparr>) = csma_core s"
  "csma_core (s\<lparr>sent_calls := sc\<rparr>) = csma_core s"
  "csma_core (s\<lparr>out_seqno := sq\<rparr>) = csma_core s"
  "csma_core (s\<lparr>out_initialized := b\<rparr>) = csma_core s"
  by (simp_all add: csma_core_def pools_wf_def stock_wf_def)

lemma csma_core_pktbuf [simp]: "csma_core s \<Longrightarrow> pb_wf pb \<Longrightarrow> csma_core (s\<lparr>pktbuf := pb\<rparr>)"
  by (auto simp: csma_core_def pools_wf_def stock_wf_def)

lemma queuebuf_free_ram [simp]:
  "ram (queuebuf_free b q) = ram q" "ram_ptr (queuebuf_free b q) = ram_ptr q"
  by (simp_all add: queuebuf_free_def)

lemma queuebuf_free_size: "qb_wf q \<Longrightarrow> mnum (bufmem (queuebuf_free b q)) = mnum (bufmem q)"
  by (simp add: queuebuf_free_def qb_wf_def memb_free_mnum)

text \<open>The state after \<open>free_packet\<close> has given the packet's blocks back.\<close>

definition without_packet :: "ptr \<Rightarrow> ptr \<Rightarrow> csma \<Rightarrow> csma" where
  "without_packet n p s = s\<lparr>nq_queue := (nq_queue s)(n := alist_remove p (nq_queue s n)),
     qbufs := queuebuf_free (pq_buf s p) (qbufs s),
     metadata_memb := snd (memb_free (metadata_memb s) (pq_ptr s p)),
     packet_memb := snd (memb_free (packet_memb s) p)\<rparr>"

lemma without_packet_fields [simp]:
  "neighbour_list (without_packet n p s) = neighbour_list s" "nq_addr (without_packet n p s) = nq_addr s"
  "pq_ptr (without_packet n p s) = pq_ptr s" "pq_buf (without_packet n p s) = pq_buf s"
  "md_max_transmissions (without_packet n p s) = md_max_transmissions s"
  "neighbor_memb (without_packet n p s) = neighbor_memb s" "pktbuf (without_packet n p s) = pktbuf s"
  "nq_queue (without_packet n p s) = (nq_queue s)(n := alist_remove p (nq_queue s n))"
  "nq_timer (without_packet n p s) = nq_timer s" "sent_calls (without_packet n p s) = sent_calls s"
  "qbufs (without_packet n p s) = queuebuf_free (pq_buf s p) (qbufs s)"
  "metadata_memb (without_packet n p s) = snd (memb_free (metadata_memb s) (pq_ptr s p))"
  "packet_memb (without_packet n p s) = snd (memb_free (packet_memb s) p)"
  by (simp_all add: without_packet_def)

lemma without_packet_core:
  assumes core: "csma_core s" and n: "n \<in> set (neighbour_list s)" and p: "p \<in> set (nq_queue s n)"
  shows "csma_core (without_packet n p s)"
    "memb_live (packet_memb (without_packet n p s)) = memb_live (packet_memb s) - {p}"
    "p \<noteq> NULL"
proof -
  let ?P = "memb_live (packet_memb s)" and ?s = "without_packet n p s"
  have wf: "pools_wf s" "queues_wf (neighbour_list s) (nq_queue s) ?P" "stock_wf s ?P"
    using core by (auto simp: csma_core_def)
  have pP: "p \<in> ?P" using queues_wf_mem [OF wf(2) n] p by blast
  obtain m1 where m1: "memb_free (packet_memb s) p = (0, m1)" "memb_live m1 = ?P - {p}" "memb_wf m1"
      "mnum m1 = mnum (packet_memb s)"
    using mp.release_live [OF _ pP] wf(1) by (auto simp: pools_wf_def)
  have own: "pq_ptr s p \<in> memb_live (metadata_memb s)" "pq_buf s p \<in> qb_live (qbufs s)"
    using wf(3) pP by (auto simp: stock_wf_def)
  obtain m2 where m2: "memb_free (metadata_memb s) (pq_ptr s p) = (0, m2)"
      "memb_live m2 = memb_live (metadata_memb s) - {pq_ptr s p}" "memb_wf m2"
      "mnum m2 = mnum (metadata_memb s)"
    using mp.release_live [OF _ own(1)] wf(1) by (auto simp: pools_wf_def)
  let ?q = "queuebuf_free (pq_buf s p) (qbufs s)"
  have qwf: "qb_wf (qbufs s)" using wf(1) by (simp add: pools_wf_def)
  note q = qb_free_live(1,2) [OF qwf own(2)] queuebuf_free_size [OF qwf]
  have img: "f ` (?P - {p}) = f ` ?P - {f p} \<and> inj_on f (?P - {p})" if "inj_on f ?P" for f :: "ptr \<Rightarrow> ptr"
    using that pP by (auto simp: inj_on_def)
  have st: "stock_wf ?s (?P - {p})"
    using wf(3) img [of "pq_ptr s"] img [of "pq_buf s"] by (simp add: stock_wf_def m2 q)
  have qu: "queues_wf (neighbour_list ?s) (nq_queue ?s) (?P - {p})"
    using queues_wf_remove [OF wf(2) n p] by simp
  have po: "pools_wf ?s"
    using wf(1) m1 m2 q by (simp add: pools_wf_def)
  show "csma_core ?s"
    unfolding csma_core_def using core [unfolded csma_core_def] st qu po m1 by auto
  show "memb_live (packet_memb ?s) = ?P - {p}" using m1 by simp
  show "p \<noteq> NULL" using pP wf(1) by (metis memb_live_nonNULL pools_wf_def)
qed

text \<open>Freeing a packet keeps the invariant and empties or reschedules its queue.\<close>

lemma free_packet_cases:
  assumes core: "csma_core s" and n: "n \<in> set (neighbour_list s)" and p: "p \<in> set (nq_queue s n)"
  obtains (next_packet) d g td where "alist_remove p (nq_queue s n) \<noteq> []"
      "free_packet cfg n p st s =
        (without_packet n p s)\<lparr>nq_transmissions := (nq_transmissions s)(n := 0),
          nq_collisions := (nq_collisions s)(n := 0), rand := g, nq_timer := (nq_timer s)(n := Some d),
          transmission_delay := td\<rparr>"
  | (queue_empty) "nq_queue s n = [p]"
      "free_packet cfg n p st s =
        (without_packet n p s)\<lparr>nq_timer := (nq_timer s)(n := None),
          neighbour_list := alist_remove n (neighbour_list s),
          neighbor_memb := snd (memb_free (neighbor_memb s) n)\<rparr>"
proof (cases "alist_remove p (nq_queue s n) = []")
  case True
  then have "nq_queue s n = [p]"
    using p by (cases "nq_queue s n") (auto simp: alist_remove_def split: if_splits)
  moreover have "free_packet cfg n p st s = (without_packet n p s)\<lparr>nq_timer := (nq_timer s)(n := None),
      neighbour_list := alist_remove n (neighbour_list s),
      neighbor_memb := snd (memb_free (neighbor_memb s) n)\<rparr>"
    using without_packet_core(3) [OF core n p] True
    by (simp add: free_packet_def without_packet_def Let_def)
  ultimately show thesis by (rule queue_empty)
next
  case False
  let ?s = "(without_packet n p s)\<lparr>nq_transmissions := (nq_transmissions s)(n := 0),
      nq_collisions := (nq_collisions s)(n := 0)\<rparr>"
  have "free_packet cfg n p st s = schedule_transmission cfg n ?s"
    using without_packet_core(3) [OF core n p] False
    by (simp add: free_packet_def without_packet_def Let_def)
  moreover obtain d g td where "schedule_transmission cfg n ?s =
      ?s\<lparr>rand := g, nq_timer := (nq_timer ?s)(n := Some d), transmission_delay := td\<rparr>"
    by (rule schedule_transmission_effect)
  ultimately show thesis using next_packet [OF False, of td d g] by simp
qed

text \<open>
  \<open>csma_wf_but n s\<close>: as the invariant, while the timer of \<open>n\<close> has just expired.
\<close>

definition csma_wf_but :: "ptr \<Rightarrow> csma \<Rightarrow> bool" where
  "csma_wf_but n s \<longleftrightarrow> csma_core s \<and> n \<in> set (neighbour_list s) \<and> nq_queue s n \<noteq> [] \<and>
     (\<forall>m \<in> set (neighbour_list s) - {n}. busy s m)"

lemma csma_core_drop_neighbor:
  assumes "csma_core s" "n \<in> set (neighbour_list s)" "nq_queue s n = []"
  shows "csma_core (s\<lparr>neighbour_list := alist_remove n (neighbour_list s),
    neighbor_memb := snd (memb_free (neighbor_memb s) n)\<rparr>)"
    "set (alist_remove n (neighbour_list s)) = set (neighbour_list s) - {n}"
proof -
  have nl: "set (neighbour_list s) = memb_live (neighbor_memb s)" "memb_wf (neighbor_memb s)"
    "distinct (neighbour_list s)"
    using assms(1) by (auto simp: csma_core_def pools_wf_def queues_wf_def)
  obtain m where m: "memb_free (neighbor_memb s) n = (0, m)" "memb_live m = memb_live (neighbor_memb s) - {n}"
      "memb_wf m"
    using mp.release_live [of "neighbor_memb s" n] nl assms(2) by auto
  show set: "set (alist_remove n (neighbour_list s)) = set (neighbour_list s) - {n}"
    using nl(3) by (simp add: alist_remove_def)
  have q: "queues_wf (alist_remove n (neighbour_list s)) (nq_queue s) (memb_live (packet_memb s))"
    using assms(1,3) queues_wf_drop by (auto simp: csma_core_def)
  show "csma_core (s\<lparr>neighbour_list := alist_remove n (neighbour_list s),
      neighbor_memb := snd (memb_free (neighbor_memb s) n)\<rparr>)"
    using assms(1) m nl q set unfolding csma_core_def
    by (auto simp: pools_wf_def stock_wf_def intro: inj_on_diff)
qed

lemma csma_commute [simp]:
  "s\<lparr>nq_timer := t, neighbour_list := nl, neighbor_memb := m\<rparr> =
   s\<lparr>neighbour_list := nl, neighbor_memb := m, nq_timer := t\<rparr>"
  "s\<lparr>rand := g, nq_timer := t, transmission_delay := d, qbufs := q\<rparr> =
   s\<lparr>qbufs := q, rand := g, nq_timer := t, transmission_delay := d\<rparr>"
  by simp_all

lemma free_packet_wf:
  assumes wf: "csma_wf_but n s" and p: "p \<in> set (nq_queue s n)"
  shows "csma_wf (free_packet cfg n p st s)"
proof -
  have core: "csma_core s" and n: "n \<in> set (neighbour_list s)"
    and others: "\<And>m. m \<in> set (neighbour_list s) \<Longrightarrow> m \<noteq> n \<Longrightarrow> busy s m"
    using wf by (auto simp: csma_wf_but_def)
  note c = without_packet_core(1) [OF core n p]
  from core n p show ?thesis
  proof (cases rule: free_packet_cases [where cfg = cfg and st = st])
    case (next_packet d g td)
    then show ?thesis using c others by (auto simp: csma_wf_def busy_def)
  next
    case queue_empty
    let ?s = "without_packet n p s"
    have e: "nq_queue ?s n = []" using queue_empty(1) by (simp add: alist_remove_def)
    have "n \<in> set (neighbour_list ?s)" using n by simp
    from csma_core_drop_neighbor [OF c this e] show ?thesis
      using queue_empty(2) others by (auto simp: csma_wf_def busy_def)
  qed
qed

lemma csma_wf_sent_callback [simp]: "csma_wf (mac_call_sent_callback f p st k s) = csma_wf s"
  by (simp add: mac_call_sent_callback_def csma_wf_def busy_def)

lemma tx_done_wf:
  "csma_wf_but n s \<Longrightarrow> q \<in> set (nq_queue s n) \<Longrightarrow> csma_wf (tx_done cfg st q n s)"
  by (simp add: tx_done_def Let_def free_packet_wf)

lemma update_attr_qb:
  "qb_wf q \<Longrightarrow> qb_wf (queuebuf_update_attr_from_packetbuf pb b q)"
  "qb_live (queuebuf_update_attr_from_packetbuf pb b q) = qb_live q"
  "qd_len (ram (queuebuf_update_attr_from_packetbuf pb b q) r) = qd_len (ram q r)"
  "ram_ptr (queuebuf_update_attr_from_packetbuf pb b q) = ram_ptr q"
  "bufmem (queuebuf_update_attr_from_packetbuf pb b q) = bufmem q"
  by (auto simp: queuebuf_update_attr_from_packetbuf_def qb_wf_def qb_live_def Let_def copy_attrs_def
      packetbuf_attr_copyto_def)

lemma csma_core_update_attr:
  "csma_core s \<Longrightarrow> csma_core (s\<lparr>qbufs := queuebuf_update_attr_from_packetbuf pb b (qbufs s)\<rparr>)"
  using update_attr_qb(1) [of "qbufs s" pb b] update_attr_qb(2-5)
  by (auto simp: csma_core_def pools_wf_def stock_wf_def)

lemma rexmit_wf:
  assumes "csma_wf_but n s"
  shows "csma_wf (rexmit cfg q n s)"
proof -
  obtain d g td where "schedule_transmission cfg n s =
      s\<lparr>rand := g, nq_timer := (nq_timer s)(n := Some d), transmission_delay := td\<rparr>"
    by (rule schedule_transmission_effect)
  then show ?thesis using assms csma_core_update_attr
    by (auto simp: rexmit_def csma_wf_def csma_wf_but_def busy_def Let_def)
qed

lemma csma_wf_but_counters [simp]:
  "csma_wf_but n (s\<lparr>nq_collisions := c\<rparr>) = csma_wf_but n s"
  "csma_wf_but n (s\<lparr>nq_transmissions := t\<rparr>) = csma_wf_but n s"
  by (simp_all add: csma_wf_but_def busy_def)

lemma packet_sent_wf:
  assumes "csma_wf_but n s" "q \<in> set (nq_queue s n)" "status \<noteq> MAC_TX_DEFERRED"
  shows "csma_wf (packet_sent cfg n q status k s)"
proof -
  have "q \<in> memb_live (packet_memb s)"
    using assms(1,2) queues_wf_mem by (fastforce simp: csma_wf_but_def csma_core_def)
  then have "pq_ptr s q \<noteq> NULL"
    using assms(1) memb_live_nonNULL [of "metadata_memb s"]
    by (force simp: csma_wf_but_def csma_core_def stock_wf_def pools_wf_def)
  then show ?thesis using assms
    by (cases status) (auto simp: packet_sent_def tx_ok_def noack_def collision_def Let_def tx_done_wf rexmit_wf)
qed

section \<open>Queueing a packet\<close>

text \<open>The state after \<open>enqueue_packet\<close> has stored packet \<open>q\<close> with metadata \<open>md\<close> and buffer \<open>b\<close>.\<close>

definition with_packet ::
  "ptr \<Rightarrow> ptr \<Rightarrow> ptr \<Rightarrow> memb \<Rightarrow> ptr \<Rightarrow> memb \<Rightarrow> ptr \<Rightarrow> queuebufs \<Rightarrow> ptr \<Rightarrow> csma \<Rightarrow> csma" where
  "with_packet sent cptr q pm md mm b qbs n s =
     s\<lparr>packet_memb := pm, metadata_memb := mm, pq_ptr := (pq_ptr s)(q := md), qbufs := qbs,
       pq_buf := (pq_buf s)(q := b),
       md_max_transmissions := (md_max_transmissions s)(md :=
         (let mx = ucast (packetbuf_attr (pktbuf s) ATTR_MAX_MAC_TRANSMISSIONS)
          in if mx = 0 then CSMA_MAX_FRAME_RETRIES + 1 else mx)),
       md_sent := (md_sent s)(md := sent), md_cptr := (md_cptr s)(md := cptr),
       nq_queue := (nq_queue s)(n := alist_add q (nq_queue s n))\<rparr>"

lemma with_packet_fields [simp]:
  "packet_memb (with_packet f c q pm md mm b qbs n s) = pm" "metadata_memb (with_packet f c q pm md mm b qbs n s) = mm"
  "qbufs (with_packet f c q pm md mm b qbs n s) = qbs" "pktbuf (with_packet f c q pm md mm b qbs n s) = pktbuf s"
  "neighbor_memb (with_packet f c q pm md mm b qbs n s) = neighbor_memb s"
  "neighbour_list (with_packet f c q pm md mm b qbs n s) = neighbour_list s"
  "nq_addr (with_packet f c q pm md mm b qbs n s) = nq_addr s"
  "nq_timer (with_packet f c q pm md mm b qbs n s) = nq_timer s"
  "nq_transmissions (with_packet f c q pm md mm b qbs n s) = nq_transmissions s"
  "nq_collisions (with_packet f c q pm md mm b qbs n s) = nq_collisions s"
  "nq_queue (with_packet f c q pm md mm b qbs n s) = (nq_queue s)(n := alist_add q (nq_queue s n))"
  "pq_ptr (with_packet f c q pm md mm b qbs n s) = (pq_ptr s)(q := md)"
  "pq_buf (with_packet f c q pm md mm b qbs n s) = (pq_buf s)(q := b)"
  "sent_calls (with_packet f c q pm md mm b qbs n s) = sent_calls s"
  by (simp_all add: with_packet_def)

lemma queuebuf_new_ram:
  assumes "qb_wf q" "pb_wf pb" "queuebuf_new_from_packetbuf pb q = (b, q')" "b \<noteq> NULL"
  shows "c \<in> qb_live q \<Longrightarrow> qd_len (ram q' (ram_ptr q' c)) = qd_len (ram q (ram_ptr q c))"
    and "mnum (bufmem q') = mnum (bufmem q)" "qb_wf q'"
proof -
  show "qb_wf q'" using qb_wf_new [OF assms(1,2)] assms(3) by simp
  have "(c \<in> qb_live q \<longrightarrow> qd_len (ram q' (ram_ptr q' c)) = qd_len (ram q (ram_ptr q c))) \<and>
      mnum (bufmem q') = mnum (bufmem q)"
    using assms(1)
  proof (cases rule: queuebuf_new_cases [where pb = pb])
    case full
    then show ?thesis using assms(3,4) by simp
  next
    case (new b0 rp bm rm)
    have "rp \<notin> ram_ptr q ` qb_live q" "b0 \<notin> qb_live q" "mnum bm = mnum (bufmem q)"
      using new assms(1) mp.alloc_fresh [of "bufmem q" b0 bm] mp.alloc_fresh [of "buframmem q" rp rm]
      by (auto simp: qb_wf_def qb_live_def)
    then show ?thesis using new(5) assms(3) by auto
  qed
  then show "c \<in> qb_live q \<Longrightarrow> qd_len (ram q' (ram_ptr q' c)) = qd_len (ram q (ram_ptr q c))"
    "mnum (bufmem q') = mnum (bufmem q)" by auto
qed

lemma with_packet_core:
  assumes core: "csma_core s" and n: "n \<in> set (neighbour_list s)"
    and q: "memb_alloc (packet_memb s) = (q, pm)" "q \<noteq> NULL"
    and md: "memb_alloc (metadata_memb s) = (md, mm)" "md \<noteq> NULL"
    and b: "queuebuf_new_from_packetbuf (pktbuf s) (qbufs s) = (b, qbs)" "b \<noteq> NULL"
  shows "csma_core (with_packet sent cptr q pm md mm b qbs n s)" "q \<notin> memb_live (packet_memb s)"
    "memb_live pm = insert q (memb_live (packet_memb s))"
proof -
  let ?P = "memb_live (packet_memb s)" and ?s = "with_packet sent cptr q pm md mm b qbs n s"
  have wf: "pools_wf s" "queues_wf (neighbour_list s) (nq_queue s) ?P" "stock_wf s ?P"
    using core by (auto simp: csma_core_def)
  have m: "memb_wf (packet_memb s)" "memb_wf (metadata_memb s)" "qb_wf (qbufs s)" "pb_wf (pktbuf s)"
    using wf(1) by (auto simp: pools_wf_def)
  note pm = mp.alloc_fresh [OF m(1) q] and mm = mp.alloc_fresh [OF m(2) md]
  note qn = qb_new_contents(1,2) [OF m(3,4) b] and qr = queuebuf_new_ram [OF m(3,4) b]
    and ql = qb_packet_len [OF m(3,4) b]
  show "q \<notin> ?P" "memb_live pm = insert q ?P" using pm by auto
  have po: "pools_wf ?s" using wf(1) pm mm qr by (simp add: pools_wf_def)
  have qu: "queues_wf (neighbour_list ?s) (nq_queue ?s) (insert q ?P)"
    using queues_wf_add [OF wf(2) n] pm by simp
  have "inj_on ((pq_ptr s)(q := md)) (insert q ?P)" "((pq_ptr s)(q := md)) ` insert q ?P = memb_live mm"
    using wf(3) mm pm by (auto simp: stock_wf_def inj_on_def)
  moreover have "inj_on ((pq_buf s)(q := b)) (insert q ?P)" "((pq_buf s)(q := b)) ` insert q ?P = qb_live qbs"
    using wf(3) qn pm by (auto simp: stock_wf_def inj_on_def)
  moreover have "md_max_transmissions ?s (((pq_ptr s)(q := md)) p) \<noteq> 0 \<and>
      qd_len (ram qbs (ram_ptr qbs (((pq_buf s)(q := b)) p))) \<le> PACKETBUF_SIZE" if "p \<in> insert q ?P" for p
  proof (cases "p = q")
    case True
    then show ?thesis using ql by (simp add: with_packet_def Let_def CSMA_MAX_FRAME_RETRIES_def)
  next
    case False
    then have p: "p \<in> ?P" using that by simp
    then have "pq_ptr s p \<noteq> md" "pq_buf s p \<in> qb_live (qbufs s)"
      using wf(3) mm by (auto simp: stock_wf_def)
    with False p show ?thesis using wf(3) qr(1) by (simp add: with_packet_def stock_wf_def)
  qed
  ultimately have st: "stock_wf ?s (insert q ?P)" by (simp add: stock_wf_def)
  show "csma_core ?s"
    unfolding csma_core_def using core [unfolded csma_core_def] po qu st pm by auto
qed

text \<open>
  A packet is queued exactly when the packet pool has a block: metadata and queue buffers
  come from pools of the same size that only packets draw on, so they never run out first.
\<close>

lemma enqueue_packet_cases:
  assumes core: "csma_core s" and n: "n \<in> set (neighbour_list s)"
  obtains (full) "memb_numfree (packet_memb s) = 0" "enqueue_packet cfg n sent cptr s = (False, s)"
  | (queued) q pm md mm b qbs where "memb_alloc (packet_memb s) = (q, pm)" "q \<noteq> NULL"
      "memb_alloc (metadata_memb s) = (md, mm)" "md \<noteq> NULL"
      "queuebuf_new_from_packetbuf (pktbuf s) (qbufs s) = (b, qbs)" "b \<noteq> NULL"
      "enqueue_packet cfg n sent cptr s =
        (let s1 = with_packet sent cptr q pm md mm b qbs n s
         in (True, if nq_queue s n = [] then schedule_transmission cfg n s1 else s1))"
      "memb_numfree (packet_memb s) \<noteq> 0"
proof -
  let ?P = "memb_live (packet_memb s)"
  have m: "memb_wf (packet_memb s)" "memb_wf (metadata_memb s)" "qb_wf (qbufs s)"
      "mnum (metadata_memb s) = mnum (packet_memb s)" "mnum (bufmem (qbufs s)) = mnum (packet_memb s)"
    and st: "stock_wf s ?P" and qu: "queues_wf (neighbour_list s) (nq_queue s) ?P"
    using core by (auto simp: csma_core_def pools_wf_def)
  have cards: "card (memb_live (metadata_memb s)) = card ?P" "card (qb_live (qbufs s)) = card ?P"
    using st by (auto simp: stock_wf_def card_image dest: sym)
  obtain q pm where q: "memb_alloc (packet_memb s) = (q, pm)" by fastforce
  obtain md mm where md: "memb_alloc (metadata_memb s) = (md, mm)" by fastforce
  obtain b qbs where b: "queuebuf_new_from_packetbuf (pktbuf s) (qbufs s) = (b, qbs)" by fastforce
  show thesis
  proof (cases "q = NULL")
    case True
    with q mp.alloc_fail [OF m(1)] have "pm = packet_memb s" "card ?P = mnum (packet_memb s)" by auto
    then show thesis using True q full memb_numfree_live [OF m(1)]
      by (simp add: enqueue_packet_def)
  next
    case False
    have "q \<notin> ?P" "card (insert q ?P) \<le> mnum (packet_memb s)"
      using mp.alloc_fresh [OF m(1) q False] memb_numfree_live [of pm] by auto
    then have less: "card ?P < mnum (packet_memb s)" by simp
    have md0: "md \<noteq> NULL"
      using mp.alloc_succeeds [OF m(2)] md m(4) cards less by simp
    have b0: "b \<noteq> NULL"
    proof
      assume "b = NULL"
      then have "memb_numfree (bufmem (qbufs s)) = 0" using qb_new_full(2) [OF m(3)] b by simp
      moreover have "memb_wf (bufmem (qbufs s))" using m(3) by (simp add: qb_wf_def)
      ultimately have "card (qb_live (qbufs s)) = mnum (bufmem (qbufs s))"
        using memb_numfree_live [of "bufmem (qbufs s)"] by (simp add: qb_live_def)
      then show False using m(5) cards less by simp
    qed
    have "q \<notin> set (nq_queue s n)" using queues_wf_mem [OF qu n] \<open>q \<notin> ?P\<close> by blast
    then have hd: "hd (alist_add q (nq_queue s n)) = q \<longleftrightarrow> nq_queue s n = []"
      by (cases "nq_queue s n") (auto simp: alist_add_def alist_remove_def remove1_idem)
    have "enqueue_packet cfg n sent cptr s =
        (let s1 = with_packet sent cptr q pm md mm b qbs n s
         in (True, if nq_queue s n = [] then schedule_transmission cfg n s1 else s1))"
      using q md b False md0 b0 hd by (simp add: enqueue_packet_def with_packet_def Let_def)
    moreover have "memb_numfree (packet_memb s) \<noteq> 0" using less memb_numfree_live [OF m(1)] by simp
    ultimately show thesis using queued q md b False md0 b0 by blast
  qed
qed

lemma stamp_packet_effect:
  obtains g b sq v where "stamp_packet s = s\<lparr>rand := g, out_initialized := b, out_seqno := sq,
      pktbuf := packetbuf_set_attr ATTR_FRAME_TYPE 1 (packetbuf_set_attr ATTR_MAC_SEQNO (ucast v) (pktbuf s))\<rparr>"
    "v \<noteq> 0" "sq = v + 1"
proof -
  let ?g = "if out_initialized s then rand s else snd (random_rand (rand s))"
  let ?i = "if out_initialized s then out_seqno s else ucast (fst (random_rand (rand s)))"
  let ?v = "if ?i = 0 then ?i + 1 else ?i"
  show thesis
    by (rule that [where g = ?g and b = True and sq = "?v + 1" and v = ?v]) (auto simp: stamp_packet_def Let_def case_prod_beta)
qed

lemma stamp_packet_wf: "csma_wf s \<Longrightarrow> csma_wf (stamp_packet s)"
  by (rule stamp_packet_effect [of s]) (auto simp: csma_wf_def csma_core_def pools_wf_def stock_wf_def busy_def)

text \<open>A neighbour to which a packet is being added may be new.\<close>

definition csma_wf_adding :: "ptr \<Rightarrow> csma \<Rightarrow> bool" where
  "csma_wf_adding n s \<longleftrightarrow> csma_core s \<and> n \<in> set (neighbour_list s) \<and>
     (\<forall>m \<in> set (neighbour_list s). (m = n \<and> nq_queue s n = []) \<or> busy s m)"

definition with_neighbor :: "ptr \<Rightarrow> linkaddr \<Rightarrow> memb \<Rightarrow> csma \<Rightarrow> csma" where
  "with_neighbor n a m s = s\<lparr>neighbor_memb := m, nq_addr := (nq_addr s)(n := a),
     nq_transmissions := (nq_transmissions s)(n := 0), nq_collisions := (nq_collisions s)(n := 0),
     nq_queue := (nq_queue s)(n := []), neighbour_list := neighbour_list s @ [n]\<rparr>"

lemma with_neighbor_fields [simp]:
  "neighbour_list (with_neighbor n a m s) = neighbour_list s @ [n]"
  "nq_addr (with_neighbor n a m s) = (nq_addr s)(n := a)"
  "nq_queue (with_neighbor n a m s) = (nq_queue s)(n := [])"
  "nq_transmissions (with_neighbor n a m s) = (nq_transmissions s)(n := 0)"
  "nq_collisions (with_neighbor n a m s) = (nq_collisions s)(n := 0)"
  "packet_memb (with_neighbor n a m s) = packet_memb s" "qbufs (with_neighbor n a m s) = qbufs s"
  "pq_buf (with_neighbor n a m s) = pq_buf s" "pq_ptr (with_neighbor n a m s) = pq_ptr s"
  "md_max_transmissions (with_neighbor n a m s) = md_max_transmissions s"
  "pktbuf (with_neighbor n a m s) = pktbuf s" "sent_calls (with_neighbor n a m s) = sent_calls s"
  by (simp_all add: with_neighbor_def)

lemma output_neighbor_cases:
  assumes "csma_wf s"
  obtains (known) n where "n \<in> set (neighbour_list s)" "nq_addr s n = a" "output_neighbor a s = (n, s)"
  | (refused) "\<forall>n \<in> set (neighbour_list s). nq_addr s n \<noteq> a" "memb_numfree (neighbor_memb s) = 0"
      "output_neighbor a s = (NULL, s)"
  | (added) n m where "n \<notin> set (neighbour_list s)" "n \<noteq> NULL"
      "\<forall>k \<in> set (neighbour_list s). nq_addr s k \<noteq> a" "memb_numfree (neighbor_memb s) \<noteq> 0"
      "output_neighbor a s = (n, with_neighbor n a m s)" "csma_wf_adding n (with_neighbor n a m s)"
proof -
  have core: "csma_core s" and nl: "set (neighbour_list s) = memb_live (neighbor_memb s)"
    and mw: "memb_wf (neighbor_memb s)"
    using assms by (auto simp: csma_wf_def csma_core_def pools_wf_def)
  have N: "NULL \<notin> set (neighbour_list s)" using memb_live_nonNULL [OF mw] nl by simp
  let ?f = "neighbor_queue_from_addr a (nq_addr s) (neighbour_list s)"
  show thesis
  proof (cases "?f = NULL")
    case False
    then show thesis using find_queue [of a "nq_addr s" "neighbour_list s" ?f] known [of ?f]
      by (simp add: output_neighbor_def)
  next
    case True
    then have new: "\<forall>n \<in> set (neighbour_list s). nq_addr s n \<noteq> a" using find_queue_none [OF N] by simp
    obtain n m where a: "memb_alloc (neighbor_memb s) = (n, m)" by fastforce
    show thesis
    proof (cases "n = NULL")
      case True
      with a mp.alloc_fail [OF mw] have "m = neighbor_memb s"
        "card (memb_live (neighbor_memb s)) = mnum (neighbor_memb s)" by auto
      then show thesis using refused new \<open>?f = NULL\<close> True a memb_numfree_live [OF mw]
        by (simp add: output_neighbor_def)
    next
      case False
      note fresh = mp.alloc_fresh [OF mw a False]
      let ?s = "with_neighbor n a m s"
      have nnl: "n \<notin> set (neighbour_list s)" using fresh nl by simp
      then have add: "alist_add n (neighbour_list s) = neighbour_list s @ [n]"
        by (simp add: alist_add_def alist_remove_def remove1_idem)
      have qu: "queues_wf (neighbour_list s @ [n]) ((nq_queue s)(n := [])) (memb_live (packet_memb s))"
        using queues_wf_new [OF _ nnl, of "nq_queue s"] core by (simp add: add csma_core_def)
      have inj: "inj_on ((nq_addr s)(n := a)) (insert n (set (neighbour_list s)))"
        using core new nnl by (auto simp: csma_core_def inj_on_def)
      have "csma_core ?s"
        using core fresh nl qu inj unfolding csma_core_def
        by (simp add: pools_wf_def stock_wf_def with_neighbor_def)
      moreover have "\<forall>k \<in> set (neighbour_list s). busy ?s k"
        using assms nnl by (auto simp: csma_wf_def busy_def with_neighbor_def)
      ultimately have "csma_wf_adding n ?s" by (simp add: csma_wf_adding_def)
      moreover have "output_neighbor a s = (n, ?s)"
        using \<open>?f = NULL\<close> a False by (simp add: output_neighbor_def add with_neighbor_def)
      moreover have "memb_numfree (neighbor_memb s) \<noteq> 0"
      proof
        assume "memb_numfree (neighbor_memb s) = 0"
        then have "card (insert n (memb_live (neighbor_memb s))) \<le> card (memb_live (neighbor_memb s))"
          using fresh memb_numfree_live [OF mw] memb_numfree_live [of m] by simp
        then show False using fresh by simp
      qed
      ultimately show thesis using added [of n m] nnl False new by simp
    qed
  qed
qed

theorem csma_output_packet_wf [step_inv]:
  assumes "csma_wf s"
  shows "csma_wf (csma_output_packet cfg sent cptr s)"
proof -
  let ?a = "packetbuf_addr (pktbuf s) ADDR_RECEIVER" and ?s = "stamp_packet s"
  have wf: "csma_wf ?s" by (rule stamp_packet_wf [OF assms])
  have add: "csma_wf (output_tail cfg n sent cptr s1)"
    if s1: "csma_wf_adding n s1" for n s1
proof -
    have core: "csma_core s1" and n: "n \<in> set (neighbour_list s1)"
      and busy1: "\<And>m. m \<in> set (neighbour_list s1) \<Longrightarrow> (m = n \<and> nq_queue s1 n = []) \<or> busy s1 m"
      using s1 by (auto simp: csma_wf_adding_def)
    let ?e = "let (queued, s) = enqueue_packet cfg n sent cptr s1
        in if queued then s
           else
             let s = (if length (nq_queue s n) = 0
                      then s\<lparr>neighbour_list := alist_remove n (neighbour_list s),
                             neighbor_memb := snd (memb_free (neighbor_memb s) n)\<rparr>
                      else s)
             in mac_call_sent_callback sent cptr MAC_TX_ERR 1 s"
    from core n have "csma_wf ?e"
    proof (cases rule: enqueue_packet_cases [where cfg = cfg and sent = sent and cptr = cptr])
      case full
      show ?thesis
      proof (cases "nq_queue s1 n = []")
        case True
        from csma_core_drop_neighbor [OF core n True]
        have "csma_wf (s1\<lparr>neighbour_list := alist_remove n (neighbour_list s1),
            neighbor_memb := snd (memb_free (neighbor_memb s1) n)\<rparr>)"
          using busy1 by (auto simp: csma_wf_def busy_def)
        then show ?thesis using full True by simp
      next
        case False
        then have "csma_wf s1" using busy1 core by (auto simp: csma_wf_def)
        then show ?thesis using full False by simp
      qed
    next
      case (queued q pm md mm b qbs)
      let ?s1 = "with_packet sent cptr q pm md mm b qbs n s1"
      have core1: "csma_core ?s1" using with_packet_core(1) [OF core n queued(1-6)] .
      show ?thesis
      proof (cases "nq_queue s1 n = []")
        case True
        obtain d g td where "schedule_transmission cfg n ?s1 =
            ?s1\<lparr>rand := g, nq_timer := (nq_timer ?s1)(n := Some d), transmission_delay := td\<rparr>"
          by (rule schedule_transmission_effect)
        then show ?thesis using queued(7) core1 busy1 True
          by (auto simp: csma_wf_def busy_def Let_def alist_add_def)
      next
        case False
        then show ?thesis using queued(7) core1 busy1
          by (auto simp: csma_wf_def busy_def Let_def alist_add_def)
      qed
    qed
    moreover have "csma_wf s1" if "nq_queue s1 n \<noteq> []"
      using that core busy1 by (auto simp: csma_wf_def)
    moreover have "0 < mnum (packet_memb s1)" using core by (simp add: csma_core_def pools_wf_def)
    ultimately show ?thesis
      by (cases "nq_queue s1 n") (simp_all add: output_tail_def CSMA_MAX_PACKET_PER_NEIGHBOR_def)
  qed
  from wf show ?thesis
  proof (cases rule: output_neighbor_cases [where a = ?a])
    case (known n)
    have "csma_wf_adding n ?s" using wf known by (simp add: csma_wf_adding_def csma_wf_def)
    moreover have "n \<noteq> NULL"
      using known(1) wf memb_live_nonNULL [of "neighbor_memb ?s"]
      by (metis csma_core_def csma_wf_def pools_wf_def)
    ultimately show ?thesis
      using add [of n ?s] known(3) by (simp add: csma_output_packet_def Let_def)
  next
    case refused
    then show ?thesis using wf by (simp add: csma_output_packet_def)
  next
    case (added n m)
    then show ?thesis using add [OF added(6)] by (simp add: csma_output_packet_def)
  qed
qed

section \<open>Runs\<close>

text \<open>
  The framer keeps the packet buffer well-formed. The interface is what the queues need of
  \<open>csma_security_create_frame\<close>.
\<close>

definition framer_ok :: "(packetbuf \<Rightarrow> int \<times> packetbuf) \<Rightarrow> bool" where
  "framer_ok create_frame \<longleftrightarrow> (\<forall>pb. pb_wf pb \<longrightarrow> pb_wf (snd (create_frame pb)))"

definition timer_fired :: "ptr \<Rightarrow> csma \<Rightarrow> csma" where
  "timer_fired n s = s\<lparr>nq_timer := (nq_timer s)(n := None)\<rparr>"

lemma transmit_result_not_deferred: "transmit_result ra bc dsn \<noteq> MAC_TX_DEFERRED"
  by (auto simp: transmit_result_def split: radio_status.splits)

text \<open>What a transmission amounts to: its result is reported for the head of the queue.\<close>

lemma transmit_from_queue_framed:
  assumes "csma_wf_but n s" "framer_ok cf"
  obtains q st pb pb' where "q = hd (nq_queue s n)" "st \<noteq> MAC_TX_DEFERRED" "pb_wf pb"
    "transmit_from_queue cfg addr cf ra n s = packet_sent cfg n q st 1 (s\<lparr>pktbuf := pb\<rparr>)"
    "pb_wf pb'" "pb = snd (cf pb')" "bufptr pb' = 0 \<and> hdrlen pb' = 0"
proof -
  have core: "csma_core s" and n: "n \<in> set (neighbour_list s)" and ne: "nq_queue s n \<noteq> []"
    using assms(1) by (auto simp: csma_wf_but_def)
  obtain q ps where q: "nq_queue s n = q # ps" using ne by (cases "nq_queue s n") auto
  let ?q = q
  let ?pb = "queuebuf_to_packetbuf (qbufs s) (pq_buf s ?q) (pktbuf s)"
  have "queues_wf (neighbour_list s) (nq_queue s) (memb_live (packet_memb s))"
    using core by (simp add: csma_core_def)
  from queues_wf_mem [OF this n] have "?q \<in> memb_live (packet_memb s)" using q by simp
  then have "pq_buf s ?q \<in> qb_live (qbufs s)" "qb_wf (qbufs s)" "pb_wf (pktbuf s)"
    "qd_len (ram (qbufs s) (ram_ptr (qbufs s) (pq_buf s ?q))) \<le> PACKETBUF_SIZE"
    using core by (auto simp: csma_core_def stock_wf_def pools_wf_def)
  then have pb: "pb_wf ?pb" by (intro queuebuf_to_packetbuf_live(1))
  let ?pb1 = "packetbuf_set_attr ATTR_MAC_ACK 1 (packetbuf_set_addr ADDR_SENDER addr ?pb)"
  obtain r pb2 where r: "cf ?pb1 = (r, pb2)" by fastforce
  have "pb_wf ?pb1" using pb by simp
  then have pb2: "pb_wf pb2" using assms(2) r by (metis framer_ok_def snd_conv)
  let ?st = "if r < 0 then MAC_TX_ERR_FATAL
    else transmit_result ra (packetbuf_holds_broadcast pb2) (pbuf pb2 ! (packetbuf_hdrptr pb2 + 2))"
  have "n \<noteq> NULL"
    using n core memb_live_nonNULL [of "neighbor_memb s"] by (metis csma_core_def pools_wf_def)
  then have "transmit_from_queue cfg addr cf ra n s = packet_sent cfg n ?q ?st 1 (s\<lparr>pktbuf := pb2\<rparr>)"
    using r q by (simp add: transmit_from_queue_def send_one_packet_def Let_def)
  moreover have "bufptr ?pb1 = 0 \<and> hdrlen ?pb1 = 0"
    using queuebuf_to_packetbuf_origin [OF \<open>qb_wf (qbufs s)\<close> \<open>pq_buf s q \<in> qb_live (qbufs s)\<close>]
    by (simp add: packetbuf_set_attr_def packetbuf_set_addr_def)
  moreover have "?st \<noteq> MAC_TX_DEFERRED" using transmit_result_not_deferred by simp
  moreover have "pb2 = snd (cf ?pb1)" using r by simp
  ultimately show thesis using that [of q ?st pb2 ?pb1] q pb2 \<open>pb_wf ?pb1\<close> by (metis list.sel(1))
qed

lemma transmit_from_queue_result:
  assumes "csma_wf_but n s" "framer_ok cf"
  obtains q st pb where "q = hd (nq_queue s n)" "st \<noteq> MAC_TX_DEFERRED" "pb_wf pb"
    "transmit_from_queue cfg addr cf ra n s = packet_sent cfg n q st 1 (s\<lparr>pktbuf := pb\<rparr>)"
  using transmit_from_queue_framed [OF assms] by metis

lemma pktbuf_sent_callback [simp]: "pktbuf (mac_call_sent_callback f p st k m) = pktbuf m"
  by (simp add: mac_call_sent_callback_def)

lemma pktbuf_schedule [simp]: "pktbuf (schedule_transmission cfg n m) = pktbuf m"
  by (rule schedule_transmission_effect [of cfg n m]) simp

lemma pktbuf_tx_done [simp]: "pktbuf (tx_done cfg st q n m) = pktbuf m"
  by (simp add: tx_done_def free_packet_def Let_def)

lemma pktbuf_rexmit [simp]: "pktbuf (rexmit cfg q n m) = pktbuf m"
  by (simp add: rexmit_def Let_def)

lemma pktbuf_packet_sent [simp]: "pktbuf (packet_sent cfg n q st k m) = pktbuf m"
  by (cases st) (simp_all add: packet_sent_def tx_ok_def noack_def collision_def Let_def)

lemma csma_wf_but_pktbuf [simp]: "csma_wf_but n s \<Longrightarrow> pb_wf pb \<Longrightarrow> csma_wf_but n (s\<lparr>pktbuf := pb\<rparr>)"
  by (simp add: csma_wf_but_def busy_def)

lemma timer_fired_wf: "csma_wf s \<Longrightarrow> n \<in> set (neighbour_list s) \<Longrightarrow> csma_wf_but n (timer_fired n s)"
  by (simp add: csma_wf_def csma_wf_but_def timer_fired_def busy_def)

theorem transmit_from_queue_wf [step_inv]:
  assumes "csma_wf_but n s" "framer_ok cf"
  shows "csma_wf (transmit_from_queue cfg addr cf ra n s)"
proof -
  obtain q st pb where "q = hd (nq_queue s n)" "st \<noteq> MAC_TX_DEFERRED" "pb_wf pb"
    "transmit_from_queue cfg addr cf ra n s = packet_sent cfg n q st 1 (s\<lparr>pktbuf := pb\<rparr>)"
    by (rule transmit_from_queue_result [OF assms])
  moreover have "hd (nq_queue s n) \<in> set (nq_queue (s\<lparr>pktbuf := pb\<rparr>) n)" for pb
    using assms(1) by (simp add: csma_wf_but_def)
  ultimately show ?thesis using packet_sent_wf [OF csma_wf_but_pktbuf [OF assms(1)]] by metis
qed

inductive csma_step ::
  "build \<Rightarrow> linkaddr \<Rightarrow> (packetbuf \<Rightarrow> int \<times> packetbuf) \<Rightarrow> csma \<Rightarrow> csma \<Rightarrow> bool"
  for cfg :: build and addr :: linkaddr and cf :: "packetbuf \<Rightarrow> int \<times> packetbuf" where
  step_output: "pb_wf pb \<Longrightarrow> csma_step cfg addr cf s (csma_output_packet cfg sent cptr (s\<lparr>pktbuf := pb\<rparr>))"
| step_timer: "n \<in> set (neighbour_list s) \<Longrightarrow> nq_timer s n \<noteq> None \<Longrightarrow>
    csma_step cfg addr cf s (transmit_from_queue cfg addr cf ra n (timer_fired n s))"

text \<open>The state \<open>csma_output_init\<close> starts from: pools of the right shape, nothing in the lists.\<close>

definition csma_boot :: "csma \<Rightarrow> bool" where
  "csma_boot s \<longleftrightarrow> neighbour_list s = [] \<and> 0 < mnum (packet_memb s) \<and>
     mnum (metadata_memb s) = mnum (packet_memb s) \<and> mnum (bufmem (qbufs s)) = mnum (packet_memb s) \<and>
     (\<forall>m \<in> {neighbor_memb s, packet_memb s, metadata_memb s}. 0 < msize m \<and> 0 < mbase m) \<and>
     qb_wf (qbufs s) \<and> qb_live (qbufs s) = {} \<and> pb_wf (pktbuf s)"

inductive csma_reachable ::
  "build \<Rightarrow> linkaddr \<Rightarrow> (packetbuf \<Rightarrow> int \<times> packetbuf) \<Rightarrow> csma \<Rightarrow> bool"
  for cfg :: build and addr :: linkaddr and cf :: "packetbuf \<Rightarrow> int \<times> packetbuf" where
  reach_init: "csma_boot s \<Longrightarrow> csma_reachable cfg addr cf (csma_output_init s)"
| reach_step: "csma_reachable cfg addr cf s \<Longrightarrow> csma_step cfg addr cf s s' \<Longrightarrow> csma_reachable cfg addr cf s'"

lemma csma_output_init_wf: "csma_boot s \<Longrightarrow> csma_wf (csma_output_init s)"
proof -
  assume b: "csma_boot s"
  have "memb_wf (memb_init m)" if "0 < msize m" "0 < mbase m" for m
    using that by (simp add: memb_wf_def memb_init_def)
  moreover have "mnum (memb_init m) = mnum m" for m by (simp add: memb_init_def)
  ultimately show ?thesis using b
    by (simp add: csma_wf_def csma_core_def csma_output_init_def csma_boot_def pools_wf_def stock_wf_def
        queues_wf_def memb_init_empty)
qed

lemma csma_step_wf:
  assumes "csma_step cfg addr cf s s'" "framer_ok cf" "csma_wf s"
  shows "csma_wf s'"
  using assms
proof (cases rule: csma_step.cases)
  case (step_output pb sent cptr)
  have "csma_wf (s\<lparr>pktbuf := pb\<rparr>)" using assms(3) step_output by (simp add: csma_wf_def busy_def)
  then show ?thesis using step_output by (simp add: csma_output_packet_wf)
next
  case (step_timer n ra)
  then show ?thesis using assms(2,3) transmit_from_queue_wf timer_fired_wf by simp
qed

theorem csma_reachable_wf: "csma_reachable cfg addr cf s \<Longrightarrow> framer_ok cf \<Longrightarrow> csma_wf s"
  by (induction rule: csma_reachable.induct) (auto intro: csma_output_init_wf csma_step_wf)

section \<open>The number of attempts\<close>

text \<open>
  A neighbour's counters belong to the packet at the head of its queue. \<open>attempts_left\<close> bounds
  how often that packet can still be transmitted: each of \<open>max_transmissions\<close> rounds ends
  after at most six collisions.
\<close>

definition head_max :: "csma \<Rightarrow> ptr \<Rightarrow> u8" where
  "head_max s n = md_max_transmissions s (pq_ptr s (hd (nq_queue s n)))"

definition counted :: "csma \<Rightarrow> ptr \<Rightarrow> bool" where
  "counted s n \<longleftrightarrow> nq_transmissions s n < head_max s n \<and> nq_collisions s n \<le> CSMA_MAX_BACKOFF"

definition attempts_left :: "csma \<Rightarrow> ptr \<Rightarrow> nat" where
  "attempts_left s n = 6 * (unat (head_max s n) - unat (nq_transmissions s n)) - unat (nq_collisions s n)"

lemma u8_suc_le: "(t :: u8) < m \<Longrightarrow> unat (t + 1) = Suc (unat t)"
  using unat_u8 [of m] by (simp add: word_less_nat_alt unat_word_ariths)

lemma max_backoff [simp]: "unat CSMA_MAX_BACKOFF = 5"
  by (simp add: CSMA_MAX_BACKOFF_def)

definition with_counters :: "ptr \<Rightarrow> u8 \<Rightarrow> u8 \<Rightarrow> csma \<Rightarrow> csma" where
  "with_counters n c t s = s\<lparr>nq_collisions := (nq_collisions s)(n := c),
     nq_transmissions := (nq_transmissions s)(n := t)\<rparr>"

lemma with_counters_fields [simp]:
  "nq_queue (with_counters n c t s) = nq_queue s" "pq_ptr (with_counters n c t s) = pq_ptr s"
  "md_max_transmissions (with_counters n c t s) = md_max_transmissions s"
  "neighbour_list (with_counters n c t s) = neighbour_list s"
  "nq_collisions (with_counters n c t s) = (nq_collisions s)(n := c)"
  "nq_transmissions (with_counters n c t s) = (nq_transmissions s)(n := t)"
  "csma_core (with_counters n c t s) = csma_core s" "packet_memb (with_counters n c t s) = packet_memb s"
  "csma_wf_but n (with_counters n c t s) = csma_wf_but n s"
  by (simp_all add: with_counters_def)

lemma packet_sent_outcome:
  assumes wf: "csma_wf_but n s" and c: "counted s n" and q: "q = hd (nq_queue s n)"
    and st: "st \<noteq> MAC_TX_DEFERRED"
  obtains (released) c' t' st' where "packet_sent cfg n q st 1 s = tx_done cfg st' q n (with_counters n c' t' s)"
  | (retry) c' t' where "packet_sent cfg n q st 1 s = rexmit cfg q n (with_counters n c' t' s)"
      "t' < head_max s n" "c' \<le> CSMA_MAX_BACKOFF"
      "6 * (unat (head_max s n) - unat t') - unat c' < attempts_left s n"
proof -
  let ?t = "nq_transmissions s n" and ?c = "nq_collisions s n" and ?m = "head_max s n"
  have "q \<in> memb_live (packet_memb s)"
    using wf queues_wf_mem [of "neighbour_list s" "nq_queue s" _ n] q
    by (metis csma_core_def csma_wf_but_def hd_in_set subsetD)
  then have nn: "pq_ptr s q \<noteq> NULL"
    using wf memb_live_nonNULL [of "metadata_memb s"]
    by (force simp: csma_wf_but_def csma_core_def stock_wf_def pools_wf_def)
  have m: "md_max_transmissions s (pq_ptr s q) = ?m" using q by (simp add: head_max_def)
  have t: "?t < ?m" "unat ?t < unat ?m" "unat ?c \<le> 5"
    using c by (simp_all add: counted_def word_less_nat_alt word_le_nat_alt)
  have t1: "unat (?t + 1) = Suc (unat ?t)" using u8_suc_le [OF t(1)] .
  have c1: "unat (?c + 1) = Suc (unat ?c)" using t(3) by (simp add: unat_word_ariths)
  have again: "?t + 1 \<ge> ?m \<or> 6 * (unat ?m - unat (?t + 1)) < attempts_left s n \<and> ?t + 1 < ?m"
    using t t1 by (auto simp: attempts_left_def word_le_nat_alt word_less_nat_alt)
  show thesis
  proof (cases st)
    case MAC_TX_OK
    then show thesis using nn released [where c' = 0 and t' = "?t + 1" and st' = MAC_TX_OK]
      by (simp add: packet_sent_def tx_ok_def with_counters_def)
  next
    case MAC_TX_NOACK
    have eq: "packet_sent cfg n q st 1 s = (if ?t + 1 \<ge> ?m
        then tx_done cfg MAC_TX_NOACK q n (with_counters n 0 (?t + 1) s)
        else rexmit cfg q n (with_counters n 0 (?t + 1) s))"
      using nn MAC_TX_NOACK m by (simp add: packet_sent_def noack_def with_counters_def)
    show thesis
    proof (cases "?t + 1 \<ge> ?m")
      case True
      then show thesis using eq by (intro released [where c' = 0 and t' = "?t + 1" and st' = MAC_TX_NOACK]) simp
    next
      case False
      then show thesis using eq again by (intro retry [of 0 "?t + 1"]) auto
    qed
  next
    case MAC_TX_COLLISION
    let ?over = "?c + 1 > CSMA_MAX_BACKOFF"
    have over: "?over \<longleftrightarrow> unat ?c = 5" using c1 t(3) by (auto simp: word_less_nat_alt)
    let ?c' = "if ?over then 0 else ?c + 1" and ?t' = "if ?over then ?t + 1 else ?t"
    have eq: "packet_sent cfg n q st 1 s = (if ?t' \<ge> ?m
        then tx_done cfg MAC_TX_COLLISION q n (with_counters n ?c' ?t' s)
        else rexmit cfg q n (with_counters n ?c' ?t' s))"
      using nn MAC_TX_COLLISION m
      by (auto simp: packet_sent_def collision_def with_counters_def Let_def fun_upd_idem)
    show thesis
    proof (cases "?t' \<ge> ?m")
      case True
      then show thesis using eq
        by (intro released [where c' = ?c' and t' = ?t' and st' = MAC_TX_COLLISION]) simp
    next
      case False
      have "6 * (unat ?m - unat ?t') - unat ?c' < attempts_left s n"
        using again False over c1 t by (auto simp: attempts_left_def)
      moreover have "?c' \<le> CSMA_MAX_BACKOFF" by auto
      ultimately show thesis using eq False by (intro retry [of ?c' ?t']) auto
    qed
  next
    case MAC_TX_DEFERRED
    then show thesis using st by simp
  qed (use nn released [where c' = ?c and t' = ?t and st' = st] in
      \<open>simp_all add: packet_sent_def with_counters_def fun_upd_idem\<close>)
qed

lemma counted_cong:
  assumes "nq_transmissions s' n = nq_transmissions s n" "nq_collisions s' n = nq_collisions s n"
    and "head_max s' n = head_max s n"
  shows "counted s' n = counted s n"
  using assms by (simp add: counted_def)

lemma counted_fresh:
  assumes "csma_core s" "n \<in> set (neighbour_list s)" "nq_queue s n \<noteq> []"
    and "nq_transmissions s n = 0" "nq_collisions s n = 0"
  shows "counted s n"
proof -
  have "hd (nq_queue s n) \<in> memb_live (packet_memb s)"
    using assms(1-3) queues_wf_mem [of "neighbour_list s" "nq_queue s" _ n]
    by (metis csma_core_def hd_in_set subsetD)
  then have "head_max s n \<noteq> 0" using assms(1) by (simp add: head_max_def csma_core_def stock_wf_def)
  then show ?thesis using assms(4,5) by (simp add: counted_def word_gt_0)
qed

lemma released_counted:
  assumes wf: "csma_wf_but n s" and p: "p \<in> set (nq_queue s n)"
    and others: "\<forall>m \<in> set (neighbour_list s) - {n}. counted s m"
  shows "\<forall>m \<in> set (neighbour_list (tx_done cfg st p n s)). counted (tx_done cfg st p n s) m"
    "p \<notin> memb_live (packet_memb (tx_done cfg st p n s))"
proof -
  have core: "csma_core s" and n: "n \<in> set (neighbour_list s)"
    using wf by (auto simp: csma_wf_but_def)
  let ?s = "free_packet cfg n p st s"
  have "(\<forall>m \<in> set (neighbour_list ?s). counted ?s m) \<and> p \<notin> memb_live (packet_memb ?s)"
    using core n p
  proof (cases rule: free_packet_cases [where cfg = cfg and st = st])
    case (next_packet d g td)
    have c: "csma_core ?s" using without_packet_core(1) [OF core n p] next_packet(2) by simp
    have "counted ?s n" using c n next_packet by (intro counted_fresh) simp_all
    moreover have "counted ?s m" if "m \<in> set (neighbour_list s) - {n}" for m
      using that others next_packet(2)
      by (subst counted_cong [of _ _ s]) (auto simp: head_max_def without_packet_def)
    ultimately show ?thesis using without_packet_core(2) [OF core n p] next_packet(2) by auto
  next
    case queue_empty
    have "set (neighbour_list ?s) = set (neighbour_list s) - {n}"
      using queue_empty(2) core by (auto simp: csma_core_def queues_wf_def alist_remove_def)
    moreover have "counted ?s m" if "m \<in> set (neighbour_list s) - {n}" for m
      using that others queue_empty(2)
      by (subst counted_cong [of _ _ s]) (auto simp: head_max_def without_packet_def)
    ultimately show ?thesis using without_packet_core(2) [OF core n p] queue_empty(2) by auto
  qed
  then show "\<forall>m \<in> set (neighbour_list (tx_done cfg st p n s)). counted (tx_done cfg st p n s) m"
    "p \<notin> memb_live (packet_memb (tx_done cfg st p n s))"
    by (auto simp: tx_done_def mac_call_sent_callback_def Let_def counted_def head_max_def)
qed

text \<open>
  One expiry of the transmission timer: the head packet is released, or it stays and has one
  attempt less.
\<close>

theorem transmit_progress:
  assumes wf: "csma_wf_but n s" and c: "\<forall>m \<in> set (neighbour_list s). counted s m" and f: "framer_ok cf"
    and s': "s' = transmit_from_queue cfg addr cf ra n s"
  shows "\<forall>m \<in> set (neighbour_list s'). counted s' m"
    "hd (nq_queue s n) \<notin> memb_live (packet_memb s') \<or>
     nq_queue s' n = nq_queue s n \<and> n \<in> set (neighbour_list s') \<and> attempts_left s' n < attempts_left s n"
proof -
  obtain q st pb where q: "q = hd (nq_queue s n)" and st: "st \<noteq> MAC_TX_DEFERRED" "pb_wf pb"
    and eq: "transmit_from_queue cfg addr cf ra n s = packet_sent cfg n q st 1 (s\<lparr>pktbuf := pb\<rparr>)"
    by (rule transmit_from_queue_result [OF wf f])
  let ?s = "s\<lparr>pktbuf := pb\<rparr>"
  have n: "n \<in> set (neighbour_list s)" and qm: "q \<in> set (nq_queue s n)"
    using wf q by (auto simp: csma_wf_but_def)
  have wf1: "csma_wf_but n ?s" using wf st(2) by simp
  have cn: "counted ?s n" using c n by (simp add: counted_def head_max_def)
  have "(\<forall>m \<in> set (neighbour_list s'). counted s' m) \<and>
      (q \<notin> memb_live (packet_memb s') \<or>
       nq_queue s' n = nq_queue s n \<and> n \<in> set (neighbour_list s') \<and> attempts_left s' n < attempts_left s n)"
  proof (rule packet_sent_outcome [OF wf1 cn _ st(1), of q cfg])
    show "q = hd (nq_queue ?s n)" using q by simp
  next
    fix c' t' st'
    let ?w = "with_counters n c' t' ?s"
    assume r: "packet_sent cfg n q st 1 ?s = tx_done cfg st' q n ?w"
    have "\<forall>m \<in> set (neighbour_list ?w) - {n}. counted ?w m"
      using c by (auto simp: counted_def head_max_def with_counters_def)
    then show ?thesis using released_counted [of n ?w q cfg st'] wf1 qm r s' eq by simp
  next
    fix c' t'
    let ?w = "with_counters n c' t' ?s"
    assume r: "packet_sent cfg n q st 1 ?s = rexmit cfg q n ?w" "t' < head_max ?s n" "c' \<le> CSMA_MAX_BACKOFF"
      "6 * (unat (head_max ?s n) - unat t') - unat c' < attempts_left ?s n"
    obtain d g td where "schedule_transmission cfg n ?w =
        ?w\<lparr>rand := g, nq_timer := (nq_timer ?w)(n := Some d), transmission_delay := td\<rparr>"
      by (rule schedule_transmission_effect)
    then have s'w: "s' = (?w\<lparr>qbufs := queuebuf_update_attr_from_packetbuf pb (pq_buf ?w q) (qbufs ?w),
        rand := g, nq_timer := (nq_timer ?w)(n := Some d), transmission_delay := td\<rparr>)"
      using r(1) s' eq by (simp add: rexmit_def Let_def with_counters_def)
    have hm: "head_max s' m = head_max s m" for m by (simp add: s'w head_max_def with_counters_def)
    have "counted s' m" if "m \<in> set (neighbour_list s)" for m
      using that c r(2,3) hm by (auto simp: counted_def s'w head_max_def with_counters_def)
    moreover have "attempts_left s' n < attempts_left s n"
      using r(4) hm [of n] by (simp add: attempts_left_def s'w with_counters_def head_max_def)
    ultimately show ?thesis using n by (simp add: s'w with_counters_def)
  qed
  then show "\<forall>m \<in> set (neighbour_list s'). counted s' m"
    "hd (nq_queue s n) \<notin> memb_live (packet_memb s') \<or>
     nq_queue s' n = nq_queue s n \<and> n \<in> set (neighbour_list s') \<and> attempts_left s' n < attempts_left s n"
    using q by auto
qed

section \<open>The abstract view: a queue of packets per destination\<close>

text \<open>
  \<open>pending s a\<close> is the sequence of packets (their bytes) that wait for the address \<open>a\<close>. An output
  operation appends to one of these sequences or reports an error to its callback; a
  transmission removes the first packet of one of them or leaves all of them.
\<close>

definition queue_of :: "csma \<Rightarrow> linkaddr \<Rightarrow> ptr list" where
  "queue_of s a = (let n = neighbor_queue_from_addr a (nq_addr s) (neighbour_list s)
                   in if n = NULL then [] else nq_queue s n)"

definition pending :: "csma \<Rightarrow> linkaddr \<Rightarrow> u8 list list" where
  "pending s a = map (\<lambda>q. fst (qb_packet (qbufs s) (pq_buf s q))) (queue_of s a)"

definition accepts :: "csma \<Rightarrow> bool" where
  "accepts s \<longleftrightarrow> memb_numfree (packet_memb s) \<noteq> 0 \<and>
     ((\<exists>n \<in> set (neighbour_list s). nq_addr s n = packetbuf_addr (pktbuf s) ADDR_RECEIVER) \<or>
      memb_numfree (neighbor_memb s) \<noteq> 0)"

lemma core_nonNULL: "csma_core s \<Longrightarrow> NULL \<notin> set (neighbour_list s)"
  using memb_live_nonNULL [of "neighbor_memb s"] by (simp add: csma_core_def pools_wf_def)

lemma queue_of_known:
  assumes "csma_core s" "n \<in> set (neighbour_list s)"
  shows "queue_of s (nq_addr s n) = nq_queue s n"
proof -
  let ?f = "neighbor_queue_from_addr (nq_addr s n) (nq_addr s) (neighbour_list s)"
  have f: "?f \<noteq> NULL" using find_queue_none [OF core_nonNULL [OF assms(1)]] assms(2) by blast
  then have "?f \<in> set (neighbour_list s)" "nq_addr s ?f = nq_addr s n"
    using find_queue [OF refl f] by auto
  then have "?f = n" using assms by (auto simp: csma_core_def inj_on_def)
  with f show ?thesis by (simp add: queue_of_def)
qed

lemma queue_of_unknown:
  "csma_core s \<Longrightarrow> \<forall>n \<in> set (neighbour_list s). nq_addr s n \<noteq> a \<Longrightarrow> queue_of s a = []"
  using find_queue_none [OF core_nonNULL] by (simp add: queue_of_def)

lemma queue_of_cases:
  assumes "csma_core s"
  obtains (known) n where "n \<in> set (neighbour_list s)" "a = nq_addr s n" "queue_of s a = nq_queue s n"
  | (unknown) "\<forall>n \<in> set (neighbour_list s). nq_addr s n \<noteq> a" "queue_of s a = []"
  using queue_of_known [OF assms] queue_of_unknown [OF assms] by metis

text \<open>Two states whose known neighbours have the same packets have the same abstract view.\<close>

lemma pending_cong:
  assumes "csma_core s" "csma_core s'"
    and "\<And>n. n \<in> set (neighbour_list s) \<union> set (neighbour_list s') \<Longrightarrow> nq_addr s' n = nq_addr s n"
    and "\<And>n. n \<in> set (neighbour_list s) \<Longrightarrow> n \<notin> set (neighbour_list s') \<Longrightarrow> nq_queue s n = []"
    and "\<And>n. n \<in> set (neighbour_list s') \<Longrightarrow> n \<notin> set (neighbour_list s) \<Longrightarrow> nq_queue s' n = []"
    and "\<And>n. n \<in> set (neighbour_list s) \<Longrightarrow> n \<in> set (neighbour_list s') \<Longrightarrow>
      map (\<lambda>q. fst (qb_packet (qbufs s') (pq_buf s' q))) (nq_queue s' n) =
      map (\<lambda>q. fst (qb_packet (qbufs s) (pq_buf s q))) (nq_queue s n)"
  shows "pending s' = pending s"
proof
  fix a
  show "pending s' a = pending s a"
    using assms(1)
  proof (cases rule: queue_of_cases [where a = a])
    case (known n)
    show ?thesis
    proof (cases "n \<in> set (neighbour_list s')")
      case True
      then show ?thesis using known assms(3,6) queue_of_known [OF assms(2) True]
        by (simp add: pending_def)
    next
      case False
      have "\<forall>m \<in> set (neighbour_list s'). nq_addr s' m = a \<longrightarrow> nq_queue s' m = []"
        using assms(1,3,5) known by (metis UnCI csma_core_def False inj_onD)
      then have "queue_of s' a = []"
        using queue_of_cases [OF assms(2), of a "queue_of s' a = []"] by auto
      then show ?thesis using known False assms(4) by (simp add: pending_def)
    qed
  next
    case unknown
    have "\<forall>m \<in> set (neighbour_list s'). nq_addr s' m = a \<longrightarrow> nq_queue s' m = []"
      using unknown assms(3,5) by (metis UnCI)
    then have "queue_of s' a = []"
      using queue_of_cases [OF assms(2), of a "queue_of s' a = []"] by auto
    then show ?thesis using unknown by (simp add: pending_def)
  qed
qed

lemma pending_frame [simp]:
  "pending (s\<lparr>nq_timer := t\<rparr>) = pending s" "pending (s\<lparr>nq_transmissions := tx\<rparr>) = pending s"
  "pending (s\<lparr>nq_collisions := co\<rparr>) = pending s" "pending (s\<lparr>transmission_delay := d\<rparr>) = pending s"
  "pending (s\<lparr>rand := g\<rparr>) = pending s" "pending (s\<lparr>sent_calls := sc\<rparr>) = pending s"
  "pending (s\<lparr>out_seqno := sq\<rparr>) = pending s" "pending (s\<lparr>out_initialized := b\<rparr>) = pending s"
  "pending (s\<lparr>pktbuf := pb\<rparr>) = pending s" "pending (with_counters n c1 t1 s) = pending s"
  "pending (mac_call_sent_callback f p st k s) = pending s"
  by (auto simp: pending_def queue_of_def fun_eq_iff with_counters_def mac_call_sent_callback_def Let_def)

lemma packet_buf_live:
  "csma_core s \<Longrightarrow> n \<in> set (neighbour_list s) \<Longrightarrow> q \<in> set (nq_queue s n) \<Longrightarrow>
   q \<in> memb_live (packet_memb s) \<and> pq_buf s q \<in> qb_live (qbufs s)"
  using queues_wf_mem [of "neighbour_list s" "nq_queue s" "memb_live (packet_memb s)" n]
  unfolding csma_core_def stock_wf_def by blast

text \<open>Changing the queue of one neighbour changes one sequence of the abstract view.\<close>

lemma pending_upd:
  assumes "csma_core s" "csma_core s'" "n \<in> set (neighbour_list s)"
    and "neighbour_list s' = neighbour_list s" "nq_addr s' = nq_addr s"
    and "\<And>m q. m \<in> set (neighbour_list s) \<Longrightarrow> m \<noteq> n \<Longrightarrow> nq_queue s' m = nq_queue s m"
    and "\<And>m q. m \<in> set (neighbour_list s) \<Longrightarrow> m \<noteq> n \<Longrightarrow> q \<in> set (nq_queue s m) \<Longrightarrow>
      fst (qb_packet (qbufs s') (pq_buf s' q)) = fst (qb_packet (qbufs s) (pq_buf s q))"
  shows "pending s' = (pending s)(nq_addr s n :=
    map (\<lambda>q. fst (qb_packet (qbufs s') (pq_buf s' q))) (nq_queue s' n))"
proof
  fix a
  show "pending s' a = ((pending s)(nq_addr s n :=
      map (\<lambda>q. fst (qb_packet (qbufs s') (pq_buf s' q))) (nq_queue s' n))) a"
  proof (cases "a = nq_addr s n")
    case True
    then show ?thesis using queue_of_known [OF assms(2)] assms(3-5) by (simp add: pending_def)
  next
    case False
    from assms(1) show ?thesis
    proof (cases rule: queue_of_cases [where a = a])
      case (known m)
      then have "m \<noteq> n" "queue_of s' a = nq_queue s' m"
        using False queue_of_known [OF assms(2)] assms(4,5) by auto
      with known False show ?thesis using assms(6,7) by (auto simp: pending_def)
    next
      case unknown
      then have "queue_of s' a = []" using queue_of_unknown [OF assms(2)] assms(4,5) by simp
      with unknown False show ?thesis by (simp add: pending_def)
    qed
  qed
qed

lemma pending_with_packet:
  assumes core: "csma_core s" and n: "n \<in> set (neighbour_list s)"
    and q: "memb_alloc (packet_memb s) = (q, pm)" "q \<noteq> NULL"
    and md: "memb_alloc (metadata_memb s) = (md, mm)" "md \<noteq> NULL"
    and b: "queuebuf_new_from_packetbuf (pktbuf s) (qbufs s) = (b, qbs)" "b \<noteq> NULL"
  shows "pending (with_packet sent cptr q pm md mm b qbs n s) =
    (pending s)(nq_addr s n := pending s (nq_addr s n) @ [pb_packet (pktbuf s)])"
proof -
  let ?s = "with_packet sent cptr q pm md mm b qbs n s"
  note wc = with_packet_core [OF core n q md b]
  have qw: "qb_wf (qbufs s)" "pb_wf (pktbuf s)" using core by (auto simp: csma_core_def pools_wf_def)
  note new = qb_new_contents [OF qw b]
  have old: "fst (qb_packet qbs (pq_buf s p)) = fst (qb_packet (qbufs s) (pq_buf s p))" "p \<noteq> q"
    if "m \<in> set (neighbour_list s)" "p \<in> set (nq_queue s m)" for m p
    using packet_buf_live [OF core that] new(4) wc(2) by auto
  have same: "fst (qb_packet (qbufs ?s) (pq_buf ?s p)) = fst (qb_packet (qbufs s) (pq_buf s p))"
    if "m \<in> set (neighbour_list s)" "p \<in> set (nq_queue s m)" for m p
    using old [OF that] by simp
  have "q \<notin> set (nq_queue s n)" using old(2) [OF n] by blast
  then have "alist_add q (nq_queue s n) = nq_queue s n @ [q]"
    by (simp add: alist_add_def alist_remove_def remove1_idem)
  moreover have "fst (qb_packet (qbufs ?s) (pq_buf ?s q)) = pb_packet (pktbuf s)" using new(3) by simp
  ultimately have "map (\<lambda>q. fst (qb_packet (qbufs ?s) (pq_buf ?s q))) (nq_queue ?s n) =
      pending s (nq_addr s n) @ [pb_packet (pktbuf s)]"
    using old [OF n] by (simp add: pending_def queue_of_known [OF core n])
  moreover have "nq_queue ?s m = nq_queue s m" if "m \<noteq> n" for m using that by simp
  ultimately show ?thesis
    using pending_upd [OF core wc(1) n] same by (metis with_packet_fields(6,7))
qed

lemma pending_without_packet:
  assumes "csma_core s" "n \<in> set (neighbour_list s)" "nq_queue s n = p # ps"
  shows "pending (without_packet n p s) = (pending s)(nq_addr s n := tl (pending s (nq_addr s n)))"
proof -
  let ?s = "without_packet n p s"
  have core: "csma_core ?s" using without_packet_core(1) [OF assms(1,2)] assms(3) by simp
  have qw: "qb_wf (qbufs s)" using assms(1) by (auto simp: csma_core_def pools_wf_def)
  have pb: "pq_buf s p \<in> qb_live (qbufs s)" using packet_buf_live [OF assms(1,2), of p] assms(3) by simp
  have same: "qb_packet (qbufs ?s) c = qb_packet (qbufs s) c" for c
    using qb_free_live(3) [OF qw pb] by simp
  have "map (\<lambda>q. fst (qb_packet (qbufs ?s) (pq_buf ?s q))) (nq_queue ?s n) = tl (pending s (nq_addr s n))"
    unfolding same using assms(3) by (simp add: pending_def queue_of_known [OF assms(1,2)] alist_remove_def)
  moreover have "nq_queue ?s m = nq_queue s m" if "m \<noteq> n" for m using that by simp
  ultimately show ?thesis
    using pending_upd [OF assms(1) core assms(2)] same by (metis without_packet_fields(1,2,4))
qed

lemma pending_drop_neighbor:
  assumes "csma_core s" "n \<in> set (neighbour_list s)" "nq_queue s n = []"
  shows "pending (s\<lparr>neighbour_list := alist_remove n (neighbour_list s),
    neighbor_memb := snd (memb_free (neighbor_memb s) n)\<rparr>) = pending s"
  using csma_core_drop_neighbor [OF assms] assms
  by (intro pending_cong) auto

lemma pending_with_neighbor:
  assumes "csma_core s" "n \<notin> set (neighbour_list s)" "csma_core (with_neighbor n a m s)"
    and "\<forall>k \<in> set (neighbour_list s). nq_addr s k \<noteq> a"
  shows "pending (with_neighbor n a m s) = pending s"
proof
  fix b
  let ?s = "with_neighbor n a m s"
  show "pending ?s b = pending s b"
    using assms(1)
  proof (cases rule: queue_of_cases [where a = b])
    case (known k)
    then have "k \<noteq> n" using assms(2) by auto
    then have "queue_of ?s b = nq_queue s k"
      using queue_of_known [OF assms(3), of k] known by simp
    then show ?thesis using known by (simp add: pending_def)
  next
    case unknown
    have "queue_of ?s b = []"
    proof (cases "b = a")
      case True
      then show ?thesis using queue_of_known [OF assms(3), of n] by simp
    next
      case False
      then have "\<forall>k \<in> set (neighbour_list ?s). nq_addr ?s k \<noteq> b" using unknown assms(2) by auto
      then show ?thesis by (rule queue_of_unknown [OF assms(3)])
    qed
    then show ?thesis using unknown by (simp add: pending_def)
  qed
qed

text \<open>
  \<open>csma_output_packet\<close> implements the abstract enqueue: the packet goes to the end of its
  destination's sequence when there is room, and otherwise the callback is told.
\<close>

lemma add_packet_spec:
  assumes s1: "csma_wf_adding n s1" and cnt: "\<forall>m \<in> set (neighbour_list s1) - {n}. counted s1 m"
    and cn: "nq_queue s1 n = [] \<Longrightarrow> nq_transmissions s1 n = 0 \<and> nq_collisions s1 n = 0"
    and cn': "nq_queue s1 n \<noteq> [] \<Longrightarrow> counted s1 n"
    and room: "memb_numfree (packet_memb s1) \<noteq> 0"
    and s': "enqueue_packet cfg n sent cptr s1 = (queued, s')"
  shows "queued" "pending s' = (pending s1)(nq_addr s1 n := pending s1 (nq_addr s1 n) @ [pb_packet (pktbuf s1)])"
    "sent_calls s' = sent_calls s1" "\<forall>m \<in> set (neighbour_list s'). counted s' m"
proof -
  have core: "csma_core s1" and n: "n \<in> set (neighbour_list s1)"
    using s1 by (auto simp: csma_wf_adding_def)
  from core n have "queued \<and>
    pending s' = (pending s1)(nq_addr s1 n := pending s1 (nq_addr s1 n) @ [pb_packet (pktbuf s1)]) \<and>
    sent_calls s' = sent_calls s1 \<and> (\<forall>m \<in> set (neighbour_list s'). counted s' m)"
  proof (cases rule: enqueue_packet_cases [where cfg = cfg and sent = sent and cptr = cptr])
    case full
    then show ?thesis using room by simp
  next
    case (queued q pm md mm b qbs)
    let ?w = "with_packet sent cptr q pm md mm b qbs n s1"
    note wc = with_packet_core [OF core n queued(1-6)]
    note pw = pending_with_packet [OF core n queued(1-6), of sent cptr]
    have mdn: "md \<notin> memb_live (metadata_memb s1)"
      using mp.alloc_fresh [OF _ queued(3,4)] core by (auto simp: csma_core_def pools_wf_def)
    have old: "pq_ptr s1 p \<noteq> md" "p \<noteq> q" if "m \<in> set (neighbour_list s1)" "p \<in> set (nq_queue s1 m)" for m p
      using packet_buf_live [OF core that] core mdn wc(2) by (auto simp: csma_core_def stock_wf_def)
    have qn: "q \<notin> set (nq_queue s1 n)" using old(2) [OF n] by blast
    have same: "head_max ?w m = head_max s1 m" if "m \<in> set (neighbour_list s1)" "nq_queue s1 m \<noteq> []" for m
    proof -
      have "hd (nq_queue s1 m) \<in> set (nq_queue s1 m)" using that(2) by simp
      from old [OF that(1) this] have "pq_ptr s1 (hd (nq_queue s1 m)) \<noteq> md" "hd (nq_queue s1 m) \<noteq> q" .
      moreover have "hd (nq_queue ?w m) = hd (nq_queue s1 m)"
        using that remove1_idem [OF qn] by (auto simp: alist_add_def alist_remove_def)
      ultimately show ?thesis by (simp add: head_max_def with_packet_def)
    qed
    have cw: "counted ?w m" if "m \<in> set (neighbour_list s1)" "nq_queue s1 m \<noteq> []" for m
      using that cnt cn' same [OF that] by (cases "m = n") (simp_all add: counted_def)
    have cb: "counted ?w n" if "nq_queue s1 n = []"
      using that wc(1) n cn by (intro counted_fresh) (simp_all add: alist_add_def)
    have busyo: "nq_queue s1 m \<noteq> []" if "m \<in> set (neighbour_list s1)" "m \<noteq> n" for m
      using s1 that by (auto simp: csma_wf_adding_def busy_def)
    have all: "\<forall>m \<in> set (neighbour_list s1). counted ?w m"
      using cw cb busyo by (metis (full_types))
    obtain d g td where "schedule_transmission cfg n ?w =
        ?w\<lparr>rand := g, nq_timer := (nq_timer ?w)(n := Some d), transmission_delay := td\<rparr>"
      by (rule schedule_transmission_effect)
    then show ?thesis using queued(7) s' pw all
      by (auto simp: Let_def counted_def head_max_def)
  qed
  then show "queued" "pending s' = (pending s1)(nq_addr s1 n := pending s1 (nq_addr s1 n) @ [pb_packet (pktbuf s1)])"
    "sent_calls s' = sent_calls s1" "\<forall>m \<in> set (neighbour_list s'). counted s' m" by auto
qed

lemma stamp_packet_same:
  "pending (stamp_packet s) = pending s" "sent_calls (stamp_packet s) = sent_calls s"
  "packetbuf_addr (pktbuf (stamp_packet s)) u = packetbuf_addr (pktbuf s) u"
  "pb_packet (pktbuf (stamp_packet s)) = pb_packet (pktbuf s)"
  "accepts (stamp_packet s) = accepts s" "counted (stamp_packet s) m = counted s m"
  "neighbour_list (stamp_packet s) = neighbour_list s"
proof -
  have [simp]: "pb_packet (packetbuf_set_attr t v b) = pb_packet b" for t v b
    by (simp add: pb_packet_def) (simp add: packetbuf_set_attr_def)
  obtain g b sq v where "stamp_packet s = s\<lparr>rand := g, out_initialized := b, out_seqno := sq,
      pktbuf := packetbuf_set_attr ATTR_FRAME_TYPE 1 (packetbuf_set_attr ATTR_MAC_SEQNO (ucast (v :: u8)) (pktbuf s))\<rparr>"
    by (rule stamp_packet_effect [of s])
  then show "pending (stamp_packet s) = pending s" "sent_calls (stamp_packet s) = sent_calls s"
    "packetbuf_addr (pktbuf (stamp_packet s)) u = packetbuf_addr (pktbuf s) u"
    "pb_packet (pktbuf (stamp_packet s)) = pb_packet (pktbuf s)"
    "accepts (stamp_packet s) = accepts s" "counted (stamp_packet s) m = counted s m"
    "neighbour_list (stamp_packet s) = neighbour_list s"
    by (simp_all add: accepts_def counted_def head_max_def)
qed

lemma mac_call_sent_calls:
  "sent_calls (mac_call_sent_callback sent p st k s) =
     sent_calls s @ (if sent = NULL then [] else [(sent, p, st, k)])"
  "counted (mac_call_sent_callback sent p st k s) m = counted s m"
  "neighbour_list (mac_call_sent_callback sent p st k s) = neighbour_list s"
  by (simp_all add: mac_call_sent_callback_def counted_def head_max_def)

lemma output_tail_spec:
  assumes s1: "csma_wf_adding n s1" and cnt: "\<forall>m \<in> set (neighbour_list s1) - {n}. counted s1 m"
    and cn: "nq_queue s1 n = [] \<Longrightarrow> nq_transmissions s1 n = 0 \<and> nq_collisions s1 n = 0"
    and cn': "nq_queue s1 n \<noteq> [] \<Longrightarrow> counted s1 n"
    and s': "s' = output_tail cfg n sent cptr s1"
    and ok: "ok \<longleftrightarrow> memb_numfree (packet_memb s1) \<noteq> 0"
  shows "pending s' = (if ok then (pending s1)(nq_addr s1 n := pending s1 (nq_addr s1 n) @ [pb_packet (pktbuf s1)])
        else pending s1) \<and>
    sent_calls s' = sent_calls s1 @ (if ok \<or> sent = NULL then [] else [(sent, cptr, MAC_TX_ERR, 1)]) \<and>
    (\<forall>m \<in> set (neighbour_list s'). counted s' m)"
proof -
  have core: "csma_core s1" and n: "n \<in> set (neighbour_list s1)"
    using s1 by (auto simp: csma_wf_adding_def)
  have pw: "memb_wf (packet_memb s1)" "0 < mnum (packet_memb s1)"
    using core by (auto simp: csma_core_def pools_wf_def)
  obtain queued s2 where e: "enqueue_packet cfg n sent cptr s1 = (queued, s2)" by fastforce
  show ?thesis
  proof (cases ok)
    case True
    have d: "distinct (nq_queue s1 n)" "set (nq_queue s1 n) \<subseteq> memb_live (packet_memb s1)"
      using queues_wf_mem [OF _ n] core by (auto simp: csma_core_def)
    have "length (nq_queue s1 n) = card (set (nq_queue s1 n))" using d(1) by (simp add: distinct_card)
    also have "\<dots> \<le> card (memb_live (packet_memb s1))" using d(2) by (intro card_mono) auto
    also have "\<dots> < mnum (packet_memb s1)"
      using memb_numfree_live [OF pw(1)] True ok by linarith
    finally have "s' = (if queued then s2 else s')" if queued
      using that e s' by (simp add: output_tail_def CSMA_MAX_PACKET_PER_NEIGHBOR_def)
    moreover note add_packet_spec [OF s1 cnt cn cn' _ e]
    ultimately show ?thesis using True ok
        \<open>length (nq_queue s1 n) = card (set (nq_queue s1 n))\<close> by simp
  next
    case False
    then have full: "enqueue_packet cfg n sent cptr s1 = (False, s1)"
      using ok by (cases rule: enqueue_packet_cases [OF core n, where cfg = cfg and sent = sent and cptr = cptr]) auto
    show ?thesis
    proof (cases "nq_queue s1 n = []")
      case True
      let ?d = "s1\<lparr>neighbour_list := alist_remove n (neighbour_list s1),
          neighbor_memb := snd (memb_free (neighbor_memb s1) n)\<rparr>"
      have "s' = mac_call_sent_callback sent cptr MAC_TX_ERR 1 ?d"
        using s' full True pw(2) by (simp add: output_tail_def CSMA_MAX_PACKET_PER_NEIGHBOR_def)
      moreover have "\<forall>m \<in> set (neighbour_list ?d). counted ?d m"
        using cnt csma_core_drop_neighbor(2) [OF core n True] by (simp add: counted_def head_max_def)
      ultimately show ?thesis
        using False pending_drop_neighbor [OF core n True] by (simp add: mac_call_sent_calls)
    next
      case ne: False
      have "s' = mac_call_sent_callback sent cptr MAC_TX_ERR 1 s1"
        using s' full ne by (simp add: output_tail_def)
      moreover have "\<forall>m \<in> set (neighbour_list s1). counted s1 m" using cnt cn' ne by blast
      ultimately show ?thesis using False by (simp add: mac_call_sent_calls)
    qed
  qed
qed

theorem csma_output_spec:
  assumes wf: "csma_wf s" and cnt: "\<forall>m \<in> set (neighbour_list s). counted s m"
    and a: "a = packetbuf_addr (pktbuf s) ADDR_RECEIVER" and s': "s' = csma_output_packet cfg sent cptr s"
  shows "pending s' = (if accepts s then (pending s)(a := pending s a @ [pb_packet (pktbuf s)]) else pending s)"
    "sent_calls s' = sent_calls s @ (if accepts s \<or> sent = NULL then [] else [(sent, cptr, MAC_TX_ERR, 1)])"
    "\<forall>m \<in> set (neighbour_list s'). counted s' m"
proof -
  let ?s = "stamp_packet s"
  have w: "csma_wf ?s" "csma_core ?s" using stamp_packet_wf [OF wf] by (auto simp: csma_wf_def)
  have cnt1: "\<forall>m \<in> set (neighbour_list ?s). counted ?s m" using cnt by (simp add: stamp_packet_same)
  have acc: "accepts ?s = accepts s" "packetbuf_addr (pktbuf ?s) ADDR_RECEIVER = a"
    using a by (simp_all add: stamp_packet_same)
  have s't: "s' = (let (n, s) = output_neighbor a ?s in if n \<noteq> NULL then output_tail cfg n sent cptr s
      else mac_call_sent_callback sent cptr MAC_TX_ERR 1 s)"
    using s' a by (simp add: csma_output_packet_def Let_def)
  have "pending s' = (if accepts s then (pending ?s)(a := pending ?s a @ [pb_packet (pktbuf ?s)]) else pending ?s) \<and>
    sent_calls s' = sent_calls ?s @ (if accepts s \<or> sent = NULL then [] else [(sent, cptr, MAC_TX_ERR, 1)]) \<and>
    (\<forall>m \<in> set (neighbour_list s'). counted s' m)"
    using w(1)
  proof (cases rule: output_neighbor_cases [where a = a])
    case (known n)
    have "n \<noteq> NULL" using core_nonNULL [OF w(2)] known(1) by metis
    then have e: "s' = output_tail cfg n sent cptr ?s" using s't known(3) by simp
    have "csma_wf_adding n ?s" using w known(1) by (simp add: csma_wf_adding_def csma_wf_def)
    moreover have "nq_queue ?s n \<noteq> []" using w known(1) by (simp add: csma_wf_def busy_def)
    moreover have "accepts s \<longleftrightarrow> memb_numfree (packet_memb ?s) \<noteq> 0"
      using known(1,2) acc by (auto simp: accepts_def)
    ultimately show ?thesis
      using output_tail_spec [of n ?s s' cfg sent cptr "accepts s"] cnt1 known(1,2) e by auto
  next
    case refused
    then have "\<not> accepts s" using acc by (auto simp: accepts_def)
    then show ?thesis using s't refused(3) cnt1 by (simp add: mac_call_sent_calls)
  next
    case (added n m)
    let ?w = "with_neighbor n a m ?s"
    have e: "s' = output_tail cfg n sent cptr ?w" using s't added by simp
    have "\<forall>k \<in> set (neighbour_list ?w) - {n}. counted ?w k"
      using cnt1 by (auto simp: counted_def head_max_def)
    moreover have "accepts s \<longleftrightarrow> memb_numfree (packet_memb ?w) \<noteq> 0"
      using added(4) acc by (auto simp: accepts_def)
    moreover have "pending ?w = pending ?s"
      using added(1,3,6) w by (intro pending_with_neighbor) (auto simp: csma_wf_adding_def)
    ultimately show ?thesis
      using output_tail_spec [of n ?w s' cfg sent cptr "accepts s"] added(6) e by simp
  qed
  then show "pending s' = (if accepts s then (pending s)(a := pending s a @ [pb_packet (pktbuf s)]) else pending s)"
    "sent_calls s' = sent_calls s @ (if accepts s \<or> sent = NULL then [] else [(sent, cptr, MAC_TX_ERR, 1)])"
    "\<forall>m \<in> set (neighbour_list s'). counted s' m"
    by (simp_all add: stamp_packet_same)
qed

lemma tx_done_pending:
  assumes core: "csma_core s" and n: "n \<in> set (neighbour_list s)" and q: "nq_queue s n = p # ps"
  shows "pending (tx_done cfg st p n s) = (pending s)(nq_addr s n := tl (pending s (nq_addr s n)))"
proof -
  have p: "p \<in> set (nq_queue s n)" using q by simp
  note wp = pending_without_packet [OF core n q]
  have "pending (free_packet cfg n p st s) = pending (without_packet n p s)"
    using core n p
  proof (cases rule: free_packet_cases [where cfg = cfg and st = st])
    case queue_empty
    let ?s = "without_packet n p s"
    have e: "nq_queue ?s n = []" using queue_empty(1) by (simp add: alist_remove_def)
    have "n \<in> set (neighbour_list ?s)" using n by simp
    from pending_drop_neighbor [OF without_packet_core(1) [OF core n p] this e] show ?thesis
      using queue_empty(2) by simp
  qed simp
  then show ?thesis using wp by (simp add: tx_done_def Let_def)
qed

lemma tx_done_dead:
  assumes core: "csma_core s" and n: "n \<in> set (neighbour_list s)" and p: "p \<in> set (nq_queue s n)"
  shows "p \<notin> memb_live (packet_memb (tx_done cfg st p n s))"
proof -
  have "packet_memb (free_packet cfg n p st s) = packet_memb (without_packet n p s)"
    using core n p by (cases rule: free_packet_cases [where cfg = cfg and st = st]) simp_all
  then show ?thesis using without_packet_core(2) [OF core n p]
    by (simp add: tx_done_def mac_call_sent_callback_def Let_def)
qed

lemma rexmit_pending:
  assumes "csma_core s"
  shows "pending (rexmit cfg q n s) = pending s" "packet_memb (rexmit cfg q n s) = packet_memb s"
proof -
  obtain d g td where e: "schedule_transmission cfg n s =
      s\<lparr>rand := g, nq_timer := (nq_timer s)(n := Some d), transmission_delay := td\<rparr>"
    by (rule schedule_transmission_effect)
  have "fst (qb_packet (queuebuf_update_attr_from_packetbuf pb b qs) c) = fst (qb_packet qs c)" for pb b qs c
    by (simp add: qb_packet_def queuebuf_update_attr_from_packetbuf_def copy_attrs_def
        packetbuf_attr_copyto_def Let_def)
  then show "pending (rexmit cfg q n s) = pending s"
    by (auto simp: rexmit_def e pending_def queue_of_def Let_def fun_eq_iff)
  show "packet_memb (rexmit cfg q n s) = packet_memb s" by (simp add: rexmit_def e Let_def)
qed

text \<open>
  A transmission implements the abstract dequeue: the packet that was sent is the first one of
  its destination, and it leaves exactly when it is released.
\<close>

theorem transmit_pending:
  assumes wf: "csma_wf_but n s" and c: "counted s n" and f: "framer_ok cf"
    and s': "s' = transmit_from_queue cfg addr cf ra n s"
  shows "pending s' = (if hd (nq_queue s n) \<in> memb_live (packet_memb s') then pending s
    else (pending s)(nq_addr s n := tl (pending s (nq_addr s n))))"
proof -
  obtain q st pb where q: "q = hd (nq_queue s n)" and st: "st \<noteq> MAC_TX_DEFERRED" "pb_wf pb"
    and eq: "transmit_from_queue cfg addr cf ra n s = packet_sent cfg n q st 1 (s\<lparr>pktbuf := pb\<rparr>)"
    by (rule transmit_from_queue_result [OF wf f])
  let ?s = "s\<lparr>pktbuf := pb\<rparr>"
  have core: "csma_core s" and n: "n \<in> set (neighbour_list s)" and ne: "nq_queue s n \<noteq> []"
    using wf by (auto simp: csma_wf_but_def)
  have wf1: "csma_wf_but n ?s" using wf st(2) by simp
  have cn: "counted ?s n" using c by (simp add: counted_def head_max_def)
  obtain ps where qs: "nq_queue s n = q # ps" using ne q by (cases "nq_queue s n") auto
  have live: "q \<in> memb_live (packet_memb s)" using packet_buf_live [OF core n, of q] qs by simp
  have "pending s' = (if q \<in> memb_live (packet_memb s') then pending s
    else (pending s)(nq_addr s n := tl (pending s (nq_addr s n))))"
  proof (rule packet_sent_outcome [OF wf1 cn _ st(1), of q cfg])
    show "q = hd (nq_queue ?s n)" using q by simp
  next
    fix c' t' st'
    let ?w = "with_counters n c' t' ?s"
    assume "packet_sent cfg n q st 1 ?s = tx_done cfg st' q n ?w"
    moreover have "csma_core ?w" "n \<in> set (neighbour_list ?w)" "nq_queue ?w n = q # ps"
      using wf1 n qs by (auto simp: csma_wf_but_def)
    moreover from this have "q \<notin> memb_live (packet_memb (tx_done cfg st' q n ?w))"
      by (intro tx_done_dead) auto
    moreover have "nq_addr ?w = nq_addr s" by (simp add: with_counters_def)
    ultimately show ?thesis using tx_done_pending [of ?w n q ps cfg st'] s' eq by simp
  next
    fix c' t'
    let ?w = "with_counters n c' t' ?s"
    assume "packet_sent cfg n q st 1 ?s = rexmit cfg q n ?w"
    moreover have "csma_core ?w" using wf1 by (simp add: csma_wf_but_def)
    ultimately show ?thesis using rexmit_pending [of ?w cfg q n] s' eq live by simp
  qed
  then show ?thesis using q by simp
qed

end
