(* ===== verification/Csma_Delay.thy ===== *)
theory Csma_Delay imports Csma_Output begin

text \<open>
  What the protocol can learn from \<open>transmission_delay\<close> after an output: whether the packet is
  the first of its destination.
\<close>

lemma stamp_packet_delay: "transmission_delay (stamp_packet s) = transmission_delay s" "nq_addr (stamp_packet s) = nq_addr s"
  by (simp_all add: stamp_packet_def Let_def case_prod_beta)

lemma transmission_delay_callback [simp]: "transmission_delay (mac_call_sent_callback f p st k s) = transmission_delay s"
  by (simp add: mac_call_sent_callback_def)

text \<open>
  The delay that \<open>schedule_transmission\<close> leaves for the protocol is written only when the
  packet becomes the head of its queue.
\<close>

theorem output_delay_busy:
  assumes wf: "csma_wf s" and n: "n \<in> set (neighbour_list s)" "nq_addr s n = packetbuf_addr (pktbuf s) ADDR_RECEIVER"
  shows "transmission_delay (csma_output_packet cfg sent cptr s) = transmission_delay s"
proof -
  let ?s = "stamp_packet s" and ?a = "packetbuf_addr (pktbuf s) ADDR_RECEIVER"
  have w: "csma_wf ?s" "csma_core ?s" using stamp_packet_wf [OF wf] by (auto simp: csma_wf_def)
  have tail: "transmission_delay (output_tail cfg k sent cptr ?s) = transmission_delay s"
    if k: "k \<in> set (neighbour_list ?s)" for k
  proof -
    have ne: "nq_queue ?s k \<noteq> []" using w k by (simp add: csma_wf_def busy_def)
    have "transmission_delay (snd (enqueue_packet cfg k sent cptr ?s)) = transmission_delay ?s"
      using w(2) k
      by (cases rule: enqueue_packet_cases [where cfg = cfg and sent = sent and cptr = cptr])
        (simp_all add: Let_def ne with_packet_def)
    then show ?thesis by (simp add: output_tail_def case_prod_beta Let_def stamp_packet_delay)
  qed
  show ?thesis using w(1)
  proof (cases rule: output_neighbor_cases [where a = ?a])
    case (known k)
    have "k \<noteq> NULL" using core_nonNULL [OF w(2)] known(1) by metis
    then show ?thesis using known tail by (simp add: csma_output_packet_def Let_def)
  next
    case refused
    then show ?thesis by (simp add: csma_output_packet_def Let_def stamp_packet_delay)
  next
    case (added k m)
    then show ?thesis using n by (simp add: stamp_packet_same stamp_packet_delay)
  qed
qed

lemma backoff_bound: "(2 ^ backoff_exponent_of c - 1) * unat (backoff_period cfg) \<le> 186"
proof -
  have "backoff_exponent_of c \<le> 5" by (simp add: backoff_exponent_of_def CSMA_MAX_BE_def)
  then have "(2 :: nat) ^ backoff_exponent_of c \<le> 2 ^ 5" by (intro power_increasing) auto
  then have "(2 :: nat) ^ backoff_exponent_of c - 1 \<le> 31" by simp
  then have "(2 ^ backoff_exponent_of c - 1) * unat (backoff_period cfg) \<le> 31 * 6"
    using backoff_period_bounds(2) by (intro mult_le_mono)
  then show ?thesis by simp
qed

theorem output_delay_idle:
  assumes wf: "csma_wf s" and n: "\<forall>n \<in> set (neighbour_list s). nq_addr s n \<noteq> packetbuf_addr (pktbuf s) ADDR_RECEIVER"
    and acc: "accepts s" and uni: "hlmac_cast cfg = 0"
  shows "unat (transmission_delay (csma_output_packet cfg sent cptr s)) < 186"
proof -
  let ?s = "stamp_packet s" and ?a = "packetbuf_addr (pktbuf s) ADDR_RECEIVER"
  have w: "csma_wf ?s" "csma_core ?s" using stamp_packet_wf [OF wf] by (auto simp: csma_wf_def)
  have ac: "accepts ?s" using acc by (simp add: stamp_packet_same)
  show ?thesis using w(1)
  proof (cases rule: output_neighbor_cases [where a = ?a])
    case (added k m)
    let ?w = "with_neighbor k ?a m ?s"
    have core: "csma_core ?w" and k: "k \<in> set (neighbour_list ?w)" using added(6) by (auto simp: csma_wf_adding_def)
    have room: "memb_numfree (packet_memb ?w) \<noteq> 0" using ac by (simp add: accepts_def)
    have e: "nq_queue ?w k = []" by simp
    have sch: "unat (transmission_delay (schedule_transmission cfg k s1)) < 186" for s1
      by (rule schedule_transmission_effect [of cfg k s1])
        (use uni backoff_bound [of "nq_collisions s1 k" cfg] in simp)
    have "0 < mnum (packet_memb ?w)" using core by (simp add: csma_core_def pools_wf_def)
    then have "csma_output_packet cfg sent cptr s = output_tail cfg k sent cptr ?w" "0 < CSMA_MAX_PACKET_PER_NEIGHBOR ?w"
      using added by (simp_all add: csma_output_packet_def Let_def CSMA_MAX_PACKET_PER_NEIGHBOR_def)
    moreover have "fst (enqueue_packet cfg k sent cptr ?w) \<and>
        unat (transmission_delay (snd (enqueue_packet cfg k sent cptr ?w))) < 186"
      using core k
      by (cases rule: enqueue_packet_cases [where cfg = cfg and sent = sent and cptr = cptr])
        (use room sch in \<open>simp_all add: Let_def e\<close>)
    ultimately show ?thesis using e by (auto simp: output_tail_def case_prod_beta Let_def)
  qed (use n ac in \<open>auto simp: stamp_packet_same stamp_packet_delay accepts_def\<close>)
qed
section \<open>A packet does not wait for ever\<close>

text \<open>The timer of neighbour \<open>n\<close> fires again and again while its packet \<open>q\<close> is stored.\<close>

fun fires :: "build \<Rightarrow> linkaddr \<Rightarrow> (packetbuf \<Rightarrow> int \<times> packetbuf) \<Rightarrow> ptr \<Rightarrow> ptr \<Rightarrow> radio_answers list \<Rightarrow> csma \<Rightarrow> csma" where
  "fires cfg addr cf n q [] s = s"
| "fires cfg addr cf n q (ra # ras) s =
     (if q \<in> memb_live (packet_memb s)
      then fires cfg addr cf n q ras (transmit_from_queue cfg addr cf ra n (timer_fired n s)) else s)"

lemma timer_fired_fields [simp]:
  "packet_memb (timer_fired n s) = packet_memb s" "nq_queue (timer_fired n s) = nq_queue s"
  "neighbour_list (timer_fired n s) = neighbour_list s" "pending (timer_fired n s) = pending s"
  "nq_addr (timer_fired n s) = nq_addr s" "counted (timer_fired n s) = counted s"
  "attempts_left (timer_fired n s) = attempts_left s"
  by (simp_all add: timer_fired_def fun_eq_iff counted_def attempts_left_def head_max_def)

lemma fires_release:
  assumes "csma_wf s" "\<forall>m \<in> set (neighbour_list s). counted s m" "framer_ok cf" "n \<in> set (neighbour_list s)"
    and "q = hd (nq_queue s n)" "attempts_left s n < length ras"
  shows "q \<notin> memb_live (packet_memb (fires cfg addr cf n q ras s))"
  using assms
proof (induction ras arbitrary: s)
  case (Cons ra ras)
  let ?s = "transmit_from_queue cfg addr cf ra n (timer_fired n s)"
  have w: "csma_wf_but n (timer_fired n s)" by (rule timer_fired_wf [OF Cons.prems(1,4)])
  have c: "\<forall>m \<in> set (neighbour_list (timer_fired n s)). counted (timer_fired n s) m" using Cons.prems(2) by simp
  note pr = transmit_progress [OF w c Cons.prems(3) refl]
  have gone: "q \<notin> memb_live (packet_memb (fires cfg addr cf n q ras ?s))" if "q \<notin> memb_live (packet_memb ?s)"
    using that by (cases ras) simp_all
  show ?case
  proof (cases "q \<in> memb_live (packet_memb ?s)")
    case True
    then have l: "nq_queue ?s n = nq_queue s n" "n \<in> set (neighbour_list ?s)" "attempts_left ?s n < attempts_left s n"
      using pr(2) [of cfg addr ra] Cons.prems(5) by auto
    have "csma_wf ?s" by (rule transmit_from_queue_wf [OF w Cons.prems(3)])
    then have "q \<notin> memb_live (packet_memb (fires cfg addr cf n q ras ?s))"
      using Cons.IH [of ?s] pr(1) [of cfg addr ra] Cons.prems(3,5,6) l by simp
    then show ?thesis using Cons.prems by simp
  qed (use gone Cons.prems in simp)
qed simp

end
