(* ===== verification/Iotorii_Messages.thy ===== *)
theory Iotorii_Messages imports Hlmac_Addr Contiki_Packetbuf begin

text \<open>
  The SetHLMAC message of \<open>iotorii-csma.c\<close>: a timestamp, the length and the identifiers of the
  sender's address, then one identifier and link-layer address per neighbour. Here are the
  bytes \<open>iotorii_send_sethlmac\<close> writes for one neighbour after another, and the functions that
  read the message on the byte heap, \<open>iotorii_extract_address\<close> and
  \<open>iotorii_extract_timestamp\<close>.
\<close>

section \<open>Reading and writing blocks at an offset\<close>

fun load_bytes :: "ptr \<Rightarrow> nat \<Rightarrow> nat \<Rightarrow> heap \<Rightarrow> u8 list \<times> heap" where
  "load_bytes p off 0 h = ([], h)"
| "load_bytes p off (Suc n) h =
     (let (v, h) = load p off h; (vs, h) = load_bytes p (Suc off) n h in (v # vs, h))"

fun store_bytes :: "ptr \<Rightarrow> nat \<Rightarrow> u8 list \<Rightarrow> heap \<Rightarrow> heap" where
  "store_bytes p off [] h = h"
| "store_bytes p off (v # vs) h = store_bytes p (Suc off) vs (store p off v h)"

text \<open>\<open>malloc\<close> of a copy of the packet buffer's data, as both functions begin.\<close>

definition copy_packet_data :: "packetbuf \<Rightarrow> heap \<Rightarrow> ptr \<times> heap" where
  "copy_packet_data pb h =
     (let (p, h) = malloc (packetbuf_datalen pb) h
      in (p, store_bytes p 0 (sub (pbuf pb) (packetbuf_dataptr pb) (packetbuf_datalen pb)) h))"

section \<open>Reading a message\<close>

text \<open>
  The loop over the (identifier, address) pairs. The position in the message and
  \<open>datalen_counter\<close> advance together and are one variable.
\<close>

function addr_loop ::
  "ptr \<Rightarrow> nat \<Rightarrow> linkaddr \<Rightarrow> nat \<Rightarrow> u8 \<Rightarrow> linkaddr \<Rightarrow> heap \<Rightarrow> u8 \<times> linkaddr \<times> heap" where
  "addr_loop p data_len node_addr counter i link_address h =
     (if counter < data_len \<and> \<not> linkaddr_cmp link_address node_addr then
        let (i, h) = load p counter h;
            (bs, h) = load_bytes p (counter + 1) LINKADDR_SIZE h
        in addr_loop p data_len node_addr (counter + 1 + LINKADDR_SIZE) i (linkaddr_of bs) h
      else (i, link_address, h))"
  by pat_completeness auto
termination
  by (relation "measure (\<lambda>(p, n, a, c, i, l, h). n - c)") auto

declare addr_loop.simps [simp del]

definition iotorii_extract_address :: "linkaddr \<Rightarrow> packetbuf \<Rightarrow> heap \<Rightarrow> hlmacaddr \<times> heap" where
  "iotorii_extract_address node_addr pb h =
     (let data_len = packetbuf_datalen pb;
          (head, h) = copy_packet_data pb h;
          (n, h) = load head 4 h;
          (p, h) = malloc (unat n) h;
          (bs, h) = load_bytes head 5 (unat n) h;
          h = store_bytes p 0 bs h;
          prefix = \<lparr>address = p, len = n\<rparr>;
          (i, link_address, h) = addr_loop head data_len node_addr (5 + unat n) 0 linkaddr_null h;
          h = free head h
      in if linkaddr_cmp link_address node_addr then hlmac_add_new_id prefix i h
         else (UNSPECIFIED_HLMAC_ADDRESS, h))"

definition iotorii_extract_timestamp :: "packetbuf \<Rightarrow> heap \<Rightarrow> u32 \<times> heap" where
  "iotorii_extract_timestamp pb h =
     (let (head, h) = copy_packet_data pb h;
          (bs, h) = load_bytes head 0 4 h
      in (of_le32 bs, free head h))"

section \<open>Writing a message\<close>

definition message_head :: "u32 \<Rightarrow> u8 list \<Rightarrow> u8 list" where
  "message_head timestamp ids = le32 timestamp @ [of_nat (length ids)] @ ids"

definition message_pair :: "u8 \<times> linkaddr \<Rightarrow> u8 list" where
  "message_pair e = fst e # linkaddr_bytes (snd e)"

definition sethlmac_message :: "u32 \<Rightarrow> u8 list \<Rightarrow> (u8 \<times> linkaddr) list \<Rightarrow> u8 list" where
  "sethlmac_message timestamp ids es = message_head timestamp ids @ concat (map message_pair es)"

section \<open>Blocks read and written as a whole\<close>

lemma load_bytes_block [mem_ops]:
  "blocks h p = Some bs \<Longrightarrow> off + n \<le> length bs \<Longrightarrow> load_bytes p off n h = (sub bs off n, h)"
proof (induction n arbitrary: off)
  case (Suc n)
  then have "load p off h = (bs ! off, h)" by (simp add: load_block)
  moreover have "load_bytes p (Suc off) n h = (sub bs (Suc off) n, h)" using Suc by simp
  moreover have "sub bs off (Suc n) = bs ! off # sub bs (Suc off) n"
    using Suc.prems by (simp add: sub_def Cons_nth_drop_Suc [symmetric])
  ultimately show ?case by simp
qed (simp add: sub_def)

lemma store_bytes_block [mem_ops]:
  "blocks h p = Some bs \<Longrightarrow> off + length vs \<le> length bs \<Longrightarrow>
   store_bytes p off vs h = h\<lparr>blocks := (blocks h)(p := Some (blit bs off vs))\<rparr>"
proof (induction vs arbitrary: off bs h)
  case Nil
  then show ?case by (simp add: blit_def fun_upd_idem)
next
  case (Cons v vs)
  have "blit (bs[off := v]) (Suc off) vs = blit bs off (v # vs)"
    using Cons.prems by (simp add: blit_def take_Suc_conv_app_nth)
  with Cons show ?case by (simp add: store_block cong: if_cong)
qed

lemma copy_packet_data_block:
  assumes "heap_wf h" "pb_wf pb"
  shows "copy_packet_data pb h =
    (brk h, h\<lparr>brk := Suc (brk h), blocks := (blocks h)(brk h := Some (pb_data pb))\<rparr>)"
proof -
  have n: "length (pb_data pb) = packetbuf_datalen pb" using pb_wf_lengths(3) [OF assms(2)] .
  let ?h = "snd (malloc (packetbuf_datalen pb) h)"
  let ?ds = "map (junk h (brk h)) [0..<packetbuf_datalen pb]"
  have "store_bytes (brk h) 0 (pb_data pb) ?h = ?h\<lparr>blocks := (blocks ?h)(brk h := Some (blit ?ds 0 (pb_data pb)))\<rparr>"
    using n by (intro store_bytes_block) (simp_all add: malloc_def)
  moreover have "blit ?ds 0 (pb_data pb) = pb_data pb" using n by (simp add: blit_def)
  ultimately show ?thesis
    by (simp add: copy_packet_data_def malloc_def pb_data_def packetbuf_datalen_def)
qed

section \<open>Round trip\<close>

definition assigned :: "(u8 \<times> linkaddr) list \<Rightarrow> linkaddr \<Rightarrow> u8 option" where
  "assigned es a = map_of (map prod.swap es) a"

lemma assigned_simps [simp]:
  "assigned [] a = None"
  "assigned ((i, b) # es) a = (if a = b then Some i else assigned es a)"
  by (simp_all add: assigned_def)

lemma length_message_pair [simp]: "length (message_pair e) = Suc LINKADDR_SIZE"
  by (simp add: message_pair_def)

lemma addr_loop_pairs:
  assumes "blocks h p = Some bs" "bs = pre @ concat (map message_pair es)" "la \<noteq> node"
  shows "\<exists>i' la'. addr_loop p (length bs) node (length pre) i la h = (i', la', h) \<and>
    (case assigned es node of Some k \<Rightarrow> i' = k \<and> la' = node | None \<Rightarrow> la' \<noteq> node)"
  using assms(2,3)
proof (induction es arbitrary: pre i la)
  case Nil
  then show ?case by (subst addr_loop.simps) simp
next
  case (Cons e es)
  obtain k a where e: "e = (k, a)" by fastforce
  have bs: "bs = pre @ k # linkaddr_bytes a @ concat (map message_pair es)"
    using Cons.prems(1) e by (simp add: message_pair_def [of "(k, a)"])
  have l: "load p (length pre) h = (k, h)" "load_bytes p (Suc (length pre)) LINKADDR_SIZE h = (linkaddr_bytes a, h)"
    using assms(1) bs by (simp_all add: load_block load_bytes_block sub_def)
  let ?pre = "pre @ message_pair e"
  have step: "addr_loop p (length bs) node (length pre) i la h = addr_loop p (length bs) node (length ?pre) k a h"
    using Cons.prems(2) bs e by (subst addr_loop.simps) (simp add: l Let_def)
  show ?case
  proof (cases "a = node")
    case True
    then have "addr_loop p (length bs) node (length ?pre) k a h = (k, a, h)"
      by (subst addr_loop.simps) simp
    with step True e show ?thesis by simp
  next
    case False
    with Cons.IH [of ?pre a k] Cons.prems(1) step e show ?thesis by simp
  qed
qed

lemma extract_timestamp_message:
  assumes "heap_wf h" "pb_wf pb" "pb_data pb = sethlmac_message ts ids es"
  shows "fst (iotorii_extract_timestamp pb h) = ts" "blocks (snd (iotorii_extract_timestamp pb h)) = blocks h"
    "ub (snd (iotorii_extract_timestamp pb h)) = ub h" "heap_wf (snd (iotorii_extract_timestamp pb h))"
proof -
  let ?h = "h\<lparr>brk := Suc (brk h), blocks := (blocks h)(brk h := Some (pb_data pb))\<rparr>"
  have "load_bytes (brk h) 0 4 ?h = (le32 ts, ?h)"
    using assms(3) by (subst load_bytes_block [where bs = "pb_data pb"])
      (simp_all add: sethlmac_message_def message_head_def)
  then have eq: "iotorii_extract_timestamp pb h = (of_le32 (le32 ts), free (brk h) ?h)"
    using copy_packet_data_block [OF assms(1,2)] by (simp add: iotorii_extract_timestamp_def)
  have "of_le32 (le32 ts @ []) = ts" by (rule of_le32_le32)
  with eq show "fst (iotorii_extract_timestamp pb h) = ts" by simp
  show "blocks (snd (iotorii_extract_timestamp pb h)) = blocks h" "ub (snd (iotorii_extract_timestamp pb h)) = ub h"
    "heap_wf (snd (iotorii_extract_timestamp pb h))"
    using assms(1) by (auto simp: eq free_def heap_wf_def fun_upd_idem)
qed

text \<open>
  Reading a well-formed message: the addressed neighbour gets the sender's identifiers
  extended by its own, and the heap holds just that block more; any other node gets the
  unspecified address, and the block of the prefix stays allocated.
\<close>

lemma extract_address_message:
  assumes wf: "heap_wf h" "pb_wf pb" and data: "pb_data pb = sethlmac_message ts ids es"
    and len: "length ids < 255" and node: "node \<noteq> linkaddr_null"
    and r: "iotorii_extract_address node pb h = (a, h')"
  shows "heap_wf h'" "ub h' = ub h"
    "assigned es node = Some k \<Longrightarrow> hl_repr h' a (ids @ [k]) \<and> address a \<noteq> NULL \<and> brk h \<le> address a \<and>
       (blocks h')(address a := None) = blocks h"
    "assigned es node = None \<Longrightarrow> a = UNSPECIFIED_HLMAC_ADDRESS \<and>
       blocks h' = (blocks h)(Suc (brk h) := Some ids)"
proof -
  let ?d = "pb_data pb" and ?b = "brk h"
  let ?h1 = "h\<lparr>brk := Suc ?b, blocks := (blocks h)(?b := Some ?d)\<rparr>"
  have n: "packetbuf_datalen pb = length ?d" using pb_wf_lengths(3) [OF wf(2)] by simp
  have d: "?d = le32 ts @ of_nat (length ids) # ids @ concat (map message_pair es)"
    using data by (simp add: sethlmac_message_def message_head_def)
  have un: "unat (of_nat (length ids) :: u8) = length ids" using len by (simp add: unat_of_nat)
  have free1: "blocks h ?b = None" "blocks h (Suc ?b) = None" "?b \<noteq> NULL" "blocks h NULL = None"
    using wf(1) by (auto simp: heap_wf_def)
  have l4: "load ?b 4 ?h1 = (of_nat (length ids), ?h1)"
    by (subst load_block [where bs = ?d]) (simp_all add: d nth_append)
  let ?ds = "map (junk h (Suc ?b)) [0..<length ids]"
  let ?h2 = "h\<lparr>brk := Suc (Suc ?b), blocks := (blocks h)(?b := Some ?d, Suc ?b := Some ?ds)\<rparr>"
  have m2: "malloc (length ids) ?h1 = (Suc ?b, ?h2)" by (simp add: malloc_def)
  have l5: "load_bytes ?b 5 (length ids) ?h2 = (ids, ?h2)"
    by (subst load_bytes_block [where bs = ?d]) (simp_all add: d sub_def)
  let ?h3 = "h\<lparr>brk := Suc (Suc ?b), blocks := (blocks h)(?b := Some ?d, Suc ?b := Some ids)\<rparr>"
  have s3: "store_bytes (Suc ?b) 0 ids ?h2 = ?h3"
    by (subst store_bytes_block [where bs = ?ds]) (simp_all add: blit_def cong: if_cong)
  let ?pre = "le32 ts @ of_nat (length ids) # ids"
  obtain i' la' where loop: "addr_loop ?b (length ?d) node (5 + length ids) 0 linkaddr_null ?h3 = (i', la', ?h3)"
    and res: "case assigned es node of Some k \<Rightarrow> i' = k \<and> la' = node | None \<Rightarrow> la' \<noteq> node"
    using addr_loop_pairs [of ?h3 ?b ?d ?pre es linkaddr_null node 0] d node by fastforce
  let ?h4 = "h\<lparr>brk := Suc (Suc ?b), blocks := (blocks h)(Suc ?b := Some ids)\<rparr>"
  have f4: "free ?b ?h3 = ?h4" using free1 by (simp add: free_def fun_upd_idem fun_upd_twist)
  let ?pf = "\<lparr>address = Suc ?b, len = of_nat (length ids)\<rparr>"
  have ex: "iotorii_extract_address node pb h =
      (if la' = node then hlmac_add_new_id ?pf i' ?h4 else (UNSPECIFIED_HLMAC_ADDRESS, ?h4))"
    using copy_packet_data_block [OF wf] l4 un m2 l5 s3 loop f4 n
    by (simp add: iotorii_extract_address_def Let_def)
  have wf4: "heap_wf ?h4" and pf: "hl_repr ?h4 ?pf ids" using wf(1) un by (auto simp: heap_wf_def hl_repr_def)
  show "heap_wf h'" "ub h' = ub h"
    using ex r wf4 add_new_id_spec(2) [OF wf4 pf len, of i' a h'] by (auto simp: heap_touch_def split: if_splits)
  show "assigned es node = None \<Longrightarrow> a = UNSPECIFIED_HLMAC_ADDRESS \<and>
       blocks h' = (blocks h)(Suc (brk h) := Some ids)"
    using ex r res by auto
  assume k: "assigned es node = Some k"
  with res ex r have add: "hlmac_add_new_id ?pf k ?h4 = (a, h')" by simp
  note spec = add_new_id_spec [OF wf4 pf len add]
  have "address a \<noteq> Suc ?b" using spec(3) by auto
  moreover from this have "(blocks h')(address a := None) = blocks h"
    using spec(2,3,5) free1 by (auto simp: heap_touch_def fun_eq_iff split: if_splits) (metis free1(2))+
  moreover have "brk h \<le> address a"
    using add by (auto simp: hlmac_add_new_id_def malloc_def Let_def)
  ultimately show "hl_repr h' a (ids @ [k]) \<and> address a \<noteq> NULL \<and> brk h \<le> address a \<and>
       (blocks h')(address a := None) = blocks h"
    using spec(1,4) by simp
qed

section \<open>Short messages\<close>

text \<open>
  A load (four bytes) or share (two bytes) message goes through the same functions: the
  address is read as unspecified, but only after the length byte, and a prefix of that
  length, have been read past the end of the copied message.
\<close>

lemma ub_load_bytes [simp]: "ub h \<Longrightarrow> ub (snd (load_bytes p off n h))"
  by (induction n arbitrary: off h) (simp_all add: Let_def case_prod_beta)

lemma ub_store_bytes [simp]: "ub h \<Longrightarrow> ub (store_bytes p off vs h)"
  by (induction vs arbitrary: off h) simp_all

lemma ub_addr_loop [simp]: "ub h \<Longrightarrow> ub (snd (snd (addr_loop p n a c i l h)))"
  by (induction p n a c i l h rule: addr_loop.induct)
    (subst addr_loop.simps, simp add: Let_def case_prod_beta, metis prod.collapse ub_load ub_load_bytes)

lemma load_past_end: "blocks h p = Some bs \<Longrightarrow> length bs \<le> i \<Longrightarrow> ub (snd (load p i h))"
  by (simp add: load_def)

lemma extract_address_short:
  assumes wf: "heap_wf h" "pb_wf pb" and short: "packetbuf_datalen pb \<le> 4" and node: "node \<noteq> linkaddr_null"
  shows "fst (iotorii_extract_address node pb h) = UNSPECIFIED_HLMAC_ADDRESS"
    "ub (snd (iotorii_extract_address node pb h))"
proof -
  let ?b = "brk h"
  let ?h1 = "h\<lparr>brk := Suc ?b, blocks := (blocks h)(?b := Some (pb_data pb))\<rparr>"
  have n: "length (pb_data pb) = packetbuf_datalen pb" using pb_wf_lengths(3) [OF wf(2)] .
  obtain v h2 where l: "load ?b 4 ?h1 = (v, h2)" by fastforce
  have ub2: "ub h2"
    using load_past_end [of ?h1 ?b "pb_data pb" 4] n short by (simp add: l)
  have loop: "addr_loop ?b (packetbuf_datalen pb) node (5 + unat v) 0 linkaddr_null h3 = (0, linkaddr_null, h3)" for h3
    using short by (subst addr_loop.simps) simp
  show "fst (iotorii_extract_address node pb h) = UNSPECIFIED_HLMAC_ADDRESS"
    "ub (snd (iotorii_extract_address node pb h))"
    using copy_packet_data_block [OF wf] loop node ub2
    by (simp_all add: iotorii_extract_address_def l Let_def case_prod_beta)
qed

lemma extract_timestamp_short:
  assumes wf: "heap_wf h" "pb_wf pb" and short: "packetbuf_datalen pb < 4"
  shows "ub (snd (iotorii_extract_timestamp pb h))"
proof -
  let ?b = "brk h"
  let ?h1 = "h\<lparr>brk := Suc ?b, blocks := (blocks h)(?b := Some (pb_data pb))\<rparr>"
  have n: "length (pb_data pb) = packetbuf_datalen pb" using pb_wf_lengths(3) [OF wf(2)] .
  have last: "load_bytes p off (Suc k) g = (fst (load_bytes p off k g) @ [fst (load p (off + k) (snd (load_bytes p off k g)))],
      snd (load p (off + k) (snd (load_bytes p off k g))))" for p off k and g :: heap
    by (induction k arbitrary: off g) (simp_all add: Let_def case_prod_beta)
  have keep: "blocks (snd (load_bytes p off k g)) = blocks g" for p off k and g :: heap
    by (induction k arbitrary: off g) (simp_all add: Let_def case_prod_beta load_def split: option.split)
  have four: "load_bytes ?b 0 4 ?h1 = load_bytes ?b 0 (Suc 3) ?h1"
    by (rule arg_cong [where f = "\<lambda>k. load_bytes ?b 0 k ?h1"]) simp
  have "ub (snd (load_bytes ?b 0 4 ?h1))"
    unfolding four last using load_past_end [of "snd (load_bytes ?b 0 3 ?h1)" ?b "pb_data pb" 3] n short
    by (simp add: keep)
  then show ?thesis
    using copy_packet_data_block [OF wf] by (simp add: iotorii_extract_timestamp_def Let_def case_prod_beta)
qed

end
