(* ===== verification/Iotorii_Node.thy ===== *)
theory Iotorii_Node imports Hlmac_Table Csma_Output Iotorii_Messages Contiki_Mac_Sequence begin

text \<open>
  The den2ne node (\<open>iotorii-csma.c\<close>): its state, what it sends and its timers. The state is one
  record of the file's global variables, with the components it calls as fields: the byte
  heap, the HLMAC table, the CSMA layer and the duplicate filter. A timer is the delay it was
  last set to. \<open>bad_access\<close> records a read through a NULL list entry or past the list of
  random priorities.

  The three lists are the sequences of \<open>Contiki_List\<close>. A payload entry carries its identity
  since one entry may be added twice. Numbers of type \<open>int\<close> that count are integers, loads keep
  their width. Flash and terminal logs are left out.
\<close>

section \<open>State\<close>

record env =
  opts :: build
  linkaddr_node_addr :: linkaddr
  framer_hdrlen :: int
  char_signed :: bool
  stray_addr :: linkaddr

text \<open>\<open>stray_addr\<close> is what an address field holds that was allocated and never written.\<close>

record neighbour_table_entry =
  nb_addr :: linkaddr
  last_hello :: u16
  number_id :: u8
  nb_flag :: int
  nb_load :: u32
  in_out :: u16

record payload_entry =
  pe_ref :: nat
  pe_payload :: "u8 list"
  pe_data_len :: nat
  pe_dest :: linkaddr

datatype c_str = Malloced string | Literal string

record this_node =
  str_addr :: c_str
  str_top_addr :: c_str
  tn_payload :: u8
  nhops :: u8
  tn_load :: u32

record iot =
  mem :: heap
  table :: hlmac_table
  mac :: csma
  seqnos :: mac_sequence
  neighbours :: "neighbour_table_entry list"
  payloads :: "payload_entry list"
  nodes :: "this_node list"
  fresh_ref :: nat
  number_of_neighbours :: int
  number_of_neighbours_flag :: int
  number_of_hello_messages :: u16
  number_of_sethlmac_messages :: u16
  number_times_converged :: u16
  n_hijos_share :: u8
  n_hijos_load :: u8
  edge :: bool
  sent_load :: bool
  sent_share :: bool
  has_converged :: u32
  extra_load :: u16
  last_timestamp :: u32
  root_timestamp :: u32
  convergence_time :: clock_time
  hello_start_time :: clock_time
  hello_idle_time :: clock_time
  sethlmac_timer :: "clock_time option"
  hello_timer :: "clock_time option"
  send_sethlmac_timer :: "clock_time option"
  statistic_timer :: "clock_time option"
  bad_access :: bool

definition IOTORII_HELLO_START_TIME :: clock_time where "IOTORII_HELLO_START_TIME = 15"
definition IOTORII_HELLO_IDLE_TIME :: clock_time where "IOTORII_HELLO_IDLE_TIME = 60"
definition IOTORII_SETHLMAC_START_TIME :: clock_time where "IOTORII_SETHLMAC_START_TIME = 2"
definition IOTORII_SETHLMAC_DELAY :: clock_time where "IOTORII_SETHLMAC_DELAY = 25"
definition IOTORII_STATISTICS_TIME :: clock_time where "IOTORII_STATISTICS_TIME = 20"
definition IOTORII_MAX_HELLO_DIFF :: int where "IOTORII_MAX_HELLO_DIFF = 2"
definition IOTORII_MAX_DELAY :: clock_time where "IOTORII_MAX_DELAY = 25"

definition next_rand :: "iot \<Rightarrow> clock_time \<times> iot" where
  "next_rand s = (let (r, g) = random_rand (rand (mac s)) in (ucast r, s\<lparr>mac := (mac s)\<lparr>rand := g\<rparr>\<rparr>))"

definition max_payload :: "env \<Rightarrow> int" where
  "max_payload e = 127 - 2 - (if framer_hdrlen e < 0 then 21 else framer_hdrlen e)"

definition send_packet :: "env \<Rightarrow> ptr \<Rightarrow> ptr \<Rightarrow> iot \<Rightarrow> iot" where
  "send_packet e sent p s = s\<lparr>mac := csma_output_packet (opts e) sent p (mac s)\<rparr>"

definition prepare_packet :: "env \<Rightarrow> u8 list \<Rightarrow> nat \<Rightarrow> linkaddr \<Rightarrow> iot \<Rightarrow> iot" where
  "prepare_packet e data datalen addr s =
     (let pb = packetbuf_clear (pktbuf (mac s));
          pb = pb\<lparr>pbuf := blit (pbuf pb) (packetbuf_dataptr pb) (take datalen data)\<rparr>;
          pb = packetbuf_set_datalen datalen pb;
          pb = packetbuf_set_addr ADDR_RECEIVER addr pb
      in send_packet e NULL NULL (s\<lparr>mac := (mac s)\<lparr>pktbuf := pb\<rparr>\<rparr>))"

section \<open>Load and share messages\<close>

text \<open>\<open>list_add\<close> of an entry that may already be in the list: it moves to the end.\<close>

definition payload_add :: "payload_entry \<Rightarrow> payload_entry list \<Rightarrow> payload_entry list" where
  "payload_add p ps = filter (\<lambda>q. pe_ref q \<noteq> pe_ref p) ps @ [p]"

fun send_to_parents :: "env \<Rightarrow> u8 list \<Rightarrow> neighbour_table_entry list \<Rightarrow> iot \<Rightarrow> iot" where
  "send_to_parents e data [] s = s"
| "send_to_parents e data (nb # nbs) s =
     send_to_parents e data nbs
       (if nb_flag nb = 1 then prepare_packet e data (length data) (nb_addr nb) s else s)"

fun queue_to_parents :: "payload_entry \<Rightarrow> neighbour_table_entry list \<Rightarrow> iot \<Rightarrow> iot" where
  "queue_to_parents p [] s = s"
| "queue_to_parents p (nb # nbs) s =
     (if nb_flag nb = 1 then
        let p = p\<lparr>pe_dest := nb_addr nb\<rparr>;
            s = (if payloads s = [] then s\<lparr>send_sethlmac_timer := Some 10\<rparr> else s)
        in queue_to_parents p nbs (s\<lparr>payloads := payload_add p (payloads s)\<rparr>)
      else queue_to_parents p nbs s)"

definition iotorii_handle_load_timer :: "env \<Rightarrow> iot \<Rightarrow> iot" where
  "iotorii_handle_load_timer e s =
     (case nodes s of
        [] \<Rightarrow> s
      | node # _ \<Rightarrow>
          if hlmac_cast (opts e) = 1 then send_to_parents e (le32 (tn_load node)) (neighbours s) s
          else queue_to_parents
                 \<lparr>pe_ref = fresh_ref s, pe_payload = le32 (tn_load node), pe_data_len = 4, pe_dest = stray_addr e\<rparr>
                 (neighbours s) (s\<lparr>fresh_ref := Suc (fresh_ref s)\<rparr>))"

text \<open>The computation of \<open>extra_load\<close>, branch by branch; assignment to \<open>short\<close> truncates.\<close>

definition compute_extra_load :: "u32 \<Rightarrow> u16" where
  "compute_extra_load ld =
     (if sint ld > 100 then ucast (ld - 100)
      else if sint ld > 0 then ucast (ld - 100)
      else let extra = ucast (- ld + 100) in - extra)"

definition mark_in_out :: "u16 \<Rightarrow> neighbour_table_entry \<Rightarrow> neighbour_table_entry" where
  "mark_in_out extra nb = (if nb_flag nb = 1 then nb\<lparr>in_out := - extra\<rparr> else nb)"

fun last_parent :: "linkaddr \<Rightarrow> neighbour_table_entry list \<Rightarrow> linkaddr" where
  "last_parent d [] = d"
| "last_parent d (nb # nbs) = last_parent (if nb_flag nb = 1 then nb_addr nb else d) nbs"

definition iotorii_handle_share_upstream_timer :: "env \<Rightarrow> iot \<Rightarrow> iot" where
  "iotorii_handle_share_upstream_timer e s =
     (case nodes s of
        [] \<Rightarrow> s\<lparr>bad_access := True\<rparr>
      | node # ns \<Rightarrow>
          let extra = compute_extra_load (tn_load node);
              s = s\<lparr>extra_load := extra\<rparr>;
              s = (if node_type (opts e) = 2 then s\<lparr>nodes := node\<lparr>tn_load := 100\<rparr> # ns\<rparr> else s)
          in if hlmac_cast (opts e) = 1 then
               let s = s\<lparr>mac := (mac s)\<lparr>pktbuf := packetbuf_set_datalen 2 (pktbuf (mac s))\<rparr>\<rparr>;
                   s = s\<lparr>neighbours := map (mark_in_out extra) (neighbours s)\<rparr>
               in send_to_parents e (le16 extra) (neighbours s) s
             else
               let p = \<lparr>pe_ref = fresh_ref s, pe_payload = le16 extra, pe_data_len = 2,
                        pe_dest = last_parent (stray_addr e) (neighbours s)\<rparr>;
                   s = s\<lparr>fresh_ref := Suc (fresh_ref s), neighbours := map (mark_in_out extra) (neighbours s)\<rparr>;
                   s = (if payloads s = [] then s\<lparr>send_sethlmac_timer := Some 10\<rparr> else s)
               in s\<lparr>payloads := payload_add p (payloads s)\<rparr>)"

text \<open>Children are the neighbours that are not marked as parents.\<close>

definition count_children :: "neighbour_table_entry list \<Rightarrow> u8" where
  "count_children nbs = foldl (\<lambda>n nb. if nb_flag nb = 1 \<or> nb_flag nb = - 1 then n else n + 1) 0 nbs"

definition iotorii_handle_statistic_timer :: "env \<Rightarrow> iot \<Rightarrow> iot" where
  "iotorii_handle_statistic_timer e s =
     (if nodes s \<noteq> [] then
        let s = (if node_type (opts e) > 1 then s\<lparr>edge := (number_of_neighbours_flag s = 0)\<rparr> else s);
            s = s\<lparr>n_hijos_share := count_children (neighbours s), n_hijos_load := count_children (neighbours s)\<rparr>
        in if node_type (opts e) > 1 \<and> edge s then
             let s = iotorii_handle_load_timer e s;
                 s = iotorii_handle_share_upstream_timer e s
             in s\<lparr>sent_load := True, sent_share := True\<rparr>
           else s
      else s)"

section \<open>Hello messages\<close>

text \<open>
  The loop removes an entry with \<open>list_remove\<close> and only then reads its \<open>next\<close>, which is NULL
  by then (see \<open>hello_walk\<close>): it ends after the first removal.
\<close>

definition stale :: "u16 \<Rightarrow> neighbour_table_entry \<Rightarrow> bool" where
  "stale hellos nb \<longleftrightarrow> uint hellos - uint (last_hello nb) > IOTORII_MAX_HELLO_DIFF"

fun remove_first :: "('a \<Rightarrow> bool) \<Rightarrow> 'a list \<Rightarrow> 'a list" where
  "remove_first P [] = []"
| "remove_first P (x # xs) = (if P x then xs else x # remove_first P xs)"

definition iotorii_check_neighbours_hello :: "iot \<Rightarrow> iot" where
  "iotorii_check_neighbours_hello s =
     (let P = stale (number_of_hello_messages s)
      in if \<exists>nb \<in> set (neighbours s). P nb
         then s\<lparr>neighbours := remove_first P (neighbours s), number_of_neighbours := number_of_neighbours s - 1\<rparr>
         else s)"

definition iotorii_neighbours_flag :: "iot \<Rightarrow> iot" where
  "iotorii_neighbours_flag s = s\<lparr>neighbours := map (\<lambda>nb. nb\<lparr>nb_flag := 0\<rparr>) (neighbours s)\<rparr>"

definition iotorii_handle_hello_timer :: "env \<Rightarrow> iot \<Rightarrow> iot" where
  "iotorii_handle_hello_timer e s =
     (let s = (if max_payload e \<le> 0 then s
               else let pb = packetbuf_set_addr ADDR_RECEIVER linkaddr_null (packetbuf_clear (pktbuf (mac s)))
                    in send_packet e NULL NULL (s\<lparr>mac := (mac s)\<lparr>pktbuf := pb\<rparr>\<rparr>));
          s = s\<lparr>number_of_hello_messages := number_of_hello_messages s + 1\<rparr>;
          s = (if number_of_hello_messages s \<le> 500 then
                 let s = (if node_type (opts e) = 1 then
                            let (r, s) = next_rand s
                            in s\<lparr>sethlmac_timer := Some (r mod IOTORII_SETHLMAC_START_TIME
                                   + IOTORII_SETHLMAC_START_TIME * CLOCK_SECOND)\<rparr>
                          else s);
                     (r, s) = next_rand s;
                     idle = (IOTORII_HELLO_IDLE_TIME * CLOCK_SECOND - IOTORII_HELLO_IDLE_TIME)
                            + r mod (IOTORII_HELLO_IDLE_TIME * 2)
                 in s\<lparr>hello_idle_time := idle, hello_timer := Some idle\<rparr>
               else s)
      in iotorii_check_neighbours_hello s)"

section \<open>The queue of messages\<close>

definition arm_next :: "env \<Rightarrow> payload_entry \<Rightarrow> iot \<Rightarrow> iot" where
  "arm_next e p s =
     (if hlmac_cast (opts e) = 1 then
        if payloads s \<noteq> [] then s\<lparr>send_sethlmac_timer := Some (max_transmission_delay (opts e) + 10)\<rparr>
        else s
      else if transmission_delay (mac s) = 1000 then
        let (r, s) = next_rand s
        in s\<lparr>send_sethlmac_timer := Some (max_transmission_delay (opts e) + r mod IOTORII_MAX_DELAY),
             payloads := p # payloads s\<rparr>
      else if payloads s \<noteq> [] then
        let (r, s) = next_rand s
        in s\<lparr>send_sethlmac_timer := Some (transmission_delay (mac s) + r mod IOTORII_MAX_DELAY)\<rparr>
      else s)"

definition iotorii_handle_send_message_timer :: "env \<Rightarrow> iot \<Rightarrow> iot" where
  "iotorii_handle_send_message_timer e s =
     (case payloads s of
        [] \<Rightarrow> s\<lparr>bad_access := True\<rparr>
      | p # ps \<Rightarrow>
          let s = s\<lparr>payloads := ps, mac := (mac s)\<lparr>transmission_delay := 1000\<rparr>\<rparr>;
              dest = (if hlmac_cast (opts e) = 1 then linkaddr_null else pe_dest p)
          in arm_next e p (prepare_packet e (pe_payload p) (pe_data_len p) dest s))"

end
