(* ===== verification/Iotorii_Receive.thy ===== *)
theory Iotorii_Receive imports Iotorii_Node begin

text \<open>
  Sending SetHLMAC messages and processing what arrives (\<open>iotorii-csma.c\<close>): the handlers of
  hello, SetHLMAC, load and share messages, the root's timer, initialisation and the input
  function of the MAC driver. A handler that sends SetHLMAC may search a free priority for
  ever when the random numbers never hit one; its result is then \<open>None\<close>.
\<close>

section \<open>Sending SetHLMAC\<close>

text \<open>\<open>list_this_node_entry\<close>: one node entry per payload entry of the chain it is given.\<close>

definition node_strings :: "bool \<Rightarrow> hlmacaddr \<Rightarrow> heap \<Rightarrow> c_str \<times> c_str \<times> heap" where
  "node_strings sc addr h =
     (let (h, b) = hlmac_addr_to_str sc addr h;
          h = (if overrun b then h\<lparr>ub := True\<rparr> else h)
      in (Malloced (c_string b),
          if len addr > 1 then Malloced (take ((unat (len addr) - 1) * 3) (c_string b)) else Literal ''/'',
          h))"

definition list_this_node_entry :: "env \<Rightarrow> u8 list \<Rightarrow> hlmacaddr \<Rightarrow> iot \<Rightarrow> iot" where
  "list_this_node_entry e chain addr s =
     (let (sa, st, h) = node_strings (char_signed e) addr (mem s)
      in foldl (\<lambda>s v.
           let (r, s) = next_rand s
           in s\<lparr>nodes := nodes s @ [\<lparr>str_addr = sa, str_top_addr = st, tn_payload = v,
                  nhops = of_int (hlmactable_calculate_sum_hop (table s)), tn_load = ucast (r mod 200)\<rparr>]\<rparr>)
         (s\<lparr>mem := h\<rparr>) chain)"

text \<open>The random order: every neighbour but the sender gets a free place.\<close>

partial_function (option) probe :: "neighbour_table_entry option list \<Rightarrow> rng \<Rightarrow> (nat \<times> rng) option" where
  "probe slots g =
     (let (r, g) = random_rand g; i = unat r mod length slots
      in if slots ! i \<noteq> None then probe slots g else Some (i, g))"

fun fill_slots :: "linkaddr \<Rightarrow> neighbour_table_entry list \<Rightarrow> neighbour_table_entry option list \<Rightarrow> rng \<Rightarrow>
    (neighbour_table_entry option list \<times> rng) option" where
  "fill_slots sender [] slots g = Some (slots, g)"
| "fill_slots sender (nb # nbs) slots g =
     (if \<not> linkaddr_cmp (nb_addr nb) sender then
        Option.bind (probe slots g) (\<lambda>(i, g). fill_slots sender nbs (slots[i := Some nb]) g)
      else fill_slots sender nbs slots g)"

text \<open>\<open>number_of_neighbours_new\<close>, an \<open>uint8_t\<close>.\<close>

definition neighbours_new :: "linkaddr \<Rightarrow> iot \<Rightarrow> u8" where
  "neighbours_new sender s =
     (if \<exists>nb \<in> set (neighbours s). linkaddr_cmp (nb_addr nb) sender
      then of_int (number_of_neighbours s - 1) else of_int (number_of_neighbours s))"

text \<open>
  The loop that writes the pairs of a broadcast message, from a place of the random list on;
  \<open>i\<close> is an \<open>uint8_t\<close>, so with 255 places it wraps instead of ending. The flag tells of a
  NULL place or one past the list.
\<close>

fun pairs_loop :: "int \<Rightarrow> int \<Rightarrow> bool \<Rightarrow> neighbour_table_entry option list \<Rightarrow> (u8 \<times> linkaddr) list \<times> bool" where
  "pairs_loop mac_max_payload counter wraps [] = ([], True)"
| "pairs_loop mac_max_payload counter wraps (None # slots) = ([], True)"
| "pairs_loop mac_max_payload counter wraps (Some nb # slots) =
     (let counter = counter + 1 + int LINKADDR_SIZE;
          (es, bad) =
            (if mac_max_payload \<ge> counter + int LINKADDR_SIZE + 1 \<and> (slots \<noteq> [] \<or> wraps)
             then pairs_loop mac_max_payload counter wraps slots else ([], False))
      in ((number_id nb, nb_addr nb) # es, bad))"

definition queue_payload :: "env \<Rightarrow> clock_time \<Rightarrow> u8 list \<Rightarrow> linkaddr \<Rightarrow> iot \<Rightarrow> iot" where
  "queue_payload e now data dest s =
     (let p = \<lparr>pe_ref = fresh_ref s, pe_payload = data, pe_data_len = length data, pe_dest = dest\<rparr>;
          s = s\<lparr>fresh_ref := Suc (fresh_ref s)\<rparr>
      in if payloads s = [] then
           let (delay, s) = (if node_type (opts e) > 1 then
                               let (r, s) = next_rand s in (r mod IOTORII_SETHLMAC_DELAY, s)
                             else (0, s));
               s = s\<lparr>payloads := payload_add p (payloads s)\<rparr>;
               s = (if node_type (opts e) = 1 then s\<lparr>convergence_time := now\<rparr> else s)
           in s\<lparr>number_of_sethlmac_messages := number_of_sethlmac_messages s + 1,
                send_sethlmac_timer := Some delay\<rparr>
         else s\<lparr>payloads := payload_add p (payloads s)\<rparr>)"

text \<open>The buffer of a message has \<open>mac_max_payload\<close> bytes.\<close>

definition note_overflow :: "int \<Rightarrow> u8 list \<Rightarrow> iot \<Rightarrow> iot" where
  "note_overflow mac_max_payload data s =
     (if int (length data) > mac_max_payload then s\<lparr>mem := (mem s)\<lparr>ub := True\<rparr>\<rparr> else s)"

definition send_broadcast ::
  "env \<Rightarrow> clock_time \<Rightarrow> hlmacaddr \<Rightarrow> u32 \<Rightarrow> neighbour_table_entry option list \<Rightarrow> iot \<Rightarrow> iot" where
  "send_broadcast e now addr timestamp slots s =
     (let (ids, h) = load_bytes (address addr) 0 (unat (len addr)) (mem s);
          (es, bad) = pairs_loop (max_payload e) (4 + 1 + int (length ids)) (length slots = 255) slots;
          data = sethlmac_message timestamp ids es;
          s = note_overflow (max_payload e) data (s\<lparr>mem := h, bad_access := (bad_access s \<or> bad)\<rparr>);
          s = queue_payload e now data (stray_addr e) s
      in list_this_node_entry e [hd data] addr s)"

text \<open>With unicast messages the outer loop writes a whole message for each neighbour.\<close>

fun send_unicast ::
  "env \<Rightarrow> clock_time \<Rightarrow> hlmacaddr \<Rightarrow> u32 \<Rightarrow> bool \<Rightarrow> bool \<Rightarrow> neighbour_table_entry option list \<Rightarrow> iot \<Rightarrow> iot" where
  "send_unicast e now addr timestamp wraps first [] s = s\<lparr>bad_access := True\<rparr>"
| "send_unicast e now addr timestamp wraps first (None # slots) s = s\<lparr>bad_access := True\<rparr>"
| "send_unicast e now addr timestamp wraps first (Some nb # slots) s =
     (let (ids, h) = load_bytes (address addr) 0 (unat (len addr)) (mem s);
          data = sethlmac_message timestamp ids [(number_id nb, nb_addr nb)];
          s = note_overflow (max_payload e) data (s\<lparr>mem := h\<rparr>);
          s = queue_payload e now data (nb_addr nb) s;
          s = (if first then list_this_node_entry e [hd data] addr s else s)
      in if max_payload e \<ge> int (length data) + int LINKADDR_SIZE + 1 \<and> (slots \<noteq> [] \<or> wraps)
         then send_unicast e now addr timestamp wraps False slots s
         else s)"

definition iotorii_send_sethlmac ::
  "env \<Rightarrow> clock_time \<Rightarrow> hlmacaddr \<Rightarrow> linkaddr \<Rightarrow> u32 \<Rightarrow> iot \<Rightarrow> iot option" where
  "iotorii_send_sethlmac e now addr sender timestamp s =
     Option.bind
       (if max_payload e \<le> 0 then Some s
        else
          let n = neighbours_new sender s
          in if n > 0 then
               Option.bind (fill_slots sender (neighbours s) (replicate (unat n) None) (rand (mac s)))
                 (\<lambda>(slots, g).
                    let s = s\<lparr>mac := (mac s)\<lparr>rand := g\<rparr>\<rparr>
                    in Some (if slots ! 0 \<noteq> None \<and> max_payload e \<ge> int (unat (len addr)) + 2 + int LINKADDR_SIZE
                             then if hlmac_cast (opts e) = 1 then send_broadcast e now addr timestamp slots s
                                  else send_unicast e now addr timestamp (n = 255) True slots s
                             else s))
             else Some (list_this_node_entry e [0] addr s))
       (\<lambda>s. Some (if hlmac_cast (opts e) = 1
                  then s\<lparr>statistic_timer := Some (max_transmission_delay (opts e) + IOTORII_SETHLMAC_DELAY)\<rparr>
                  else s))"

section \<open>Incoming messages\<close>

definition touch_hello :: "linkaddr \<Rightarrow> u16 \<Rightarrow> neighbour_table_entry \<Rightarrow> neighbour_table_entry" where
  "touch_hello sender hellos nb = (if linkaddr_cmp (nb_addr nb) sender then nb\<lparr>last_hello := hellos\<rparr> else nb)"

definition iotorii_handle_incoming_hello :: "iot \<Rightarrow> iot" where
  "iotorii_handle_incoming_hello s =
     (let sender = packetbuf_addr (pktbuf (mac s)) ADDR_SENDER
      in if number_of_neighbours s < 256 then
           let known = (\<exists>nb \<in> set (neighbours s). linkaddr_cmp (nb_addr nb) sender);
               s = s\<lparr>neighbours := map (touch_hello sender (number_of_hello_messages s)) (neighbours s)\<rparr>
           in if \<not> known then
                let n = number_of_neighbours s + 1
                in s\<lparr>number_of_neighbours := n,
                     neighbours := neighbours s @ [\<lparr>nb_addr = sender, last_hello = number_of_hello_messages s,
                       number_id = of_int n, nb_flag = 0, nb_load = 0, in_out = 0\<rparr>]\<rparr>
              else s
         else s)"

definition note_convergence :: "clock_time \<Rightarrow> iot \<Rightarrow> iot" where
  "note_convergence now s =
     (if n_hijos_load s = 0 \<and> n_hijos_share s = 0 \<and> has_converged s = 0
      then s\<lparr>convergence_time := now - convergence_time s,
             number_times_converged := number_times_converged s + 1, has_converged := 1\<rparr>
      else s)"

definition upd_nb :: "nat \<Rightarrow> (neighbour_table_entry \<Rightarrow> neighbour_table_entry) \<Rightarrow> iot \<Rightarrow> iot" where
  "upd_nb i f s = s\<lparr>neighbours := (neighbours s)[i := f (neighbours s ! i)]\<rparr>"

text \<open>
  One neighbour of the loop over the list. The load is read from where the data of the
  received message began in the packet buffer, which a message sent meanwhile overwrites.
\<close>

definition load_step :: "env \<Rightarrow> clock_time \<Rightarrow> linkaddr \<Rightarrow> nat \<Rightarrow> iot \<Rightarrow> nat \<Rightarrow> iot" where
  "load_step e now sender off s i =
     (if linkaddr_cmp (nb_addr (neighbours s ! i)) sender then
        let s = upd_nb i (\<lambda>nb. nb\<lparr>nb_load := of_le32 (sub (pbuf (pktbuf (mac s))) off 4)\<rparr>) s;
            s = (if nb_flag (neighbours s ! i) = 0 \<and> \<not> edge s \<and> n_hijos_load s \<noteq> 0
                 then s\<lparr>n_hijos_load := n_hijos_load s - 1\<rparr> else s)
        in if node_type (opts e) = 1 then note_convergence now s
           else if \<not> edge s \<and> \<not> sent_load s \<and> n_hijos_load s = 0
           then (iotorii_handle_load_timer e s)\<lparr>sent_load := True\<rparr> else s
      else s)"

definition add_to_load :: "u16 \<Rightarrow> iot \<Rightarrow> iot" where
  "add_to_load extra s =
     (case nodes s of [] \<Rightarrow> s\<lparr>bad_access := True\<rparr>
      | node # ns \<Rightarrow> s\<lparr>nodes := node\<lparr>tn_load := tn_load node + scast extra\<rparr> # ns\<rparr>)"

definition share_from_child :: "env \<Rightarrow> clock_time \<Rightarrow> u16 \<Rightarrow> nat \<Rightarrow> iot \<Rightarrow> iot" where
  "share_from_child e now extra i s =
     (if nb_flag (neighbours s ! i) = 0 \<and> \<not> edge s \<and> n_hijos_share s \<noteq> 0 then
        let s = add_to_load extra s;
            s = s\<lparr>n_hijos_share := n_hijos_share s - 1\<rparr>
        in if node_type (opts e) = 1 then note_convergence now s
           else if n_hijos_share s = 0 \<and> \<not> sent_share s
           then (iotorii_handle_share_upstream_timer e s)\<lparr>sent_share := True\<rparr> else s
      else s)"

definition share_step :: "env \<Rightarrow> clock_time \<Rightarrow> linkaddr \<Rightarrow> u16 \<Rightarrow> iot \<Rightarrow> nat \<Rightarrow> iot" where
  "share_step e now sender extra s i =
     (if linkaddr_cmp (nb_addr (neighbours s ! i)) sender then
        let s = share_from_child e now extra i s
        in if extra \<noteq> 0 \<and> in_out (neighbours s ! i) = 0
           then upd_nb i (\<lambda>nb. nb\<lparr>in_out := extra\<rparr>) s else s
      else s)"

section \<open>Accepting an address\<close>

definition free_str :: "c_str \<Rightarrow> heap \<Rightarrow> heap" where
  "free_str t h = (case t of Malloced _ \<Rightarrow> h | Literal _ \<Rightarrow> h\<lparr>ub := True\<rparr>)"

definition clear_nodes :: "iot \<Rightarrow> iot" where
  "clear_nodes s = s\<lparr>mem := foldr (\<lambda>n h. free_str (str_top_addr n) (free_str (str_addr n) h)) (nodes s) (mem s),
     nodes := []\<rparr>"

text \<open>The first address of a round resets the node.\<close>

definition start_round :: "env \<Rightarrow> u32 \<Rightarrow> iot \<Rightarrow> iot" where
  "start_round e timestamp s =
     (if last_timestamp s < timestamp \<or> last_timestamp s = 0 then
        let s = iotorii_neighbours_flag (s\<lparr>last_timestamp := timestamp\<rparr>);
            s = s\<lparr>number_of_neighbours_flag := number_of_neighbours s\<rparr>;
            s = (if hlmac_cast (opts e) = 0
                 then s\<lparr>n_hijos_load := of_int (number_of_neighbours s),
                        n_hijos_share := of_int (number_of_neighbours s), edge := False\<rparr>
                 else s)
        in (clear_nodes s)\<lparr>sent_load := False, sent_share := False\<rparr>
      else s)"

definition one_child_less :: "iot \<Rightarrow> iot" where
  "one_child_less s =
     s\<lparr>n_hijos_load := (if n_hijos_load s > 0 then n_hijos_load s - 1 else n_hijos_load s),
       n_hijos_share := (if n_hijos_share s > 0 then n_hijos_share s - 1 else n_hijos_share s)\<rparr>"

definition report_if_done :: "env \<Rightarrow> iot \<Rightarrow> iot" where
  "report_if_done e s =
     (let s = (if \<not> edge s \<and> n_hijos_load s = 0 \<and> \<not> sent_load s
               then (iotorii_handle_load_timer e s)\<lparr>sent_load := True\<rparr> else s)
      in if \<not> edge s \<and> n_hijos_share s = 0 \<and> \<not> sent_share s
         then (iotorii_handle_share_upstream_timer e s)\<lparr>sent_share := True\<rparr> else s)"

definition become_edge :: "env \<Rightarrow> iot \<Rightarrow> iot" where
  "become_edge e s =
     (if number_of_neighbours_flag s = 0 then
        let s = s\<lparr>edge := True\<rparr>;
            s = iotorii_handle_load_timer e s;
            s = iotorii_handle_share_upstream_timer e s
        in s\<lparr>sent_load := True, sent_share := True\<rparr>
      else s)"

definition mark_parent :: "linkaddr \<Rightarrow> bool \<Rightarrow> neighbour_table_entry \<Rightarrow> neighbour_table_entry" where
  "mark_parent sender added nb =
     (if linkaddr_cmp (nb_addr nb) sender then nb\<lparr>nb_flag := (if added then 1 else - 1)\<rparr> else nb)"

definition free_received :: "hlmacaddr \<Rightarrow> iot \<Rightarrow> iot" where
  "free_received a s = s\<lparr>mem := free (address a) (mem s)\<rparr>"

definition accept_check :: "hlmacaddr \<Rightarrow> u32 \<Rightarrow> iot \<Rightarrow> bool \<times> iot" where
  "accept_check a timestamp s =
     (if timestamp > last_timestamp s then (True, s)
      else let (loop, h) = hlmactable_has_loop a (table s) (mem s)
           in (loop = 0 \<and> timestamp = last_timestamp s, s\<lparr>mem := h\<rparr>))"

definition handle_sethlmac ::
  "env \<Rightarrow> clock_time \<Rightarrow> linkaddr \<Rightarrow> hlmacaddr \<Rightarrow> u32 \<Rightarrow> iot \<Rightarrow> iot option" where
  "handle_sethlmac e now sender a timestamp s =
     Option.bind
       (let (ok, s) = accept_check a timestamp s
        in if ok then
             let (added, t) = hlmactable_add (hlmac_max (opts e)) a (ucast timestamp) (table s);
                 s = s\<lparr>table := t\<rparr>
             in Option.bind
                  (if added \<noteq> 0 then
                     map_option (free_received a)
                       (iotorii_send_sethlmac e now a sender timestamp (start_round e timestamp s))
                   else Some (free_received a s))
                  (\<lambda>s.
                     let s = s\<lparr>neighbours := map (mark_parent sender (added \<noteq> 0)) (neighbours s)\<rparr>;
                         s = s\<lparr>number_of_neighbours_flag := number_of_neighbours_flag s - 1\<rparr>
                     in Some (if hlmac_cast (opts e) = 0
                              then report_if_done e (become_edge e (one_child_less s)) else s))
           else
             let s = free_received a s
             in Some (if hlmac_cast (opts e) = 0 then report_if_done e (one_child_less s) else s))
       (\<lambda>s. Some (if node_type (opts e) = 1 then note_convergence now s else s))"

definition iotorii_handle_incoming_sethlmac_or_load :: "env \<Rightarrow> clock_time \<Rightarrow> iot \<Rightarrow> iot option" where
  "iotorii_handle_incoming_sethlmac_or_load e now s =
     (let pb = pktbuf (mac s);
          data_len = packetbuf_datalen pb;
          off = packetbuf_dataptr pb;
          sender = packetbuf_addr pb ADDR_SENDER;
          (a, h) = iotorii_extract_address (linkaddr_node_addr e) pb (mem s);
          (timestamp, h) = iotorii_extract_timestamp pb h;
          s = s\<lparr>mem := h\<rparr>
      in if hlmac_is_unspecified_addr a then
           if data_len = 4 then
             Some (foldl (load_step e now sender off) s [0..<length (neighbours s)])
           else if data_len = 2 then
             Some (foldl (share_step e now sender (of_le16 (sub (pbuf pb) off 2))) s [0..<length (neighbours s)])
           else Some s
         else handle_sethlmac e now sender a timestamp s)"

definition iotorii_operation :: "env \<Rightarrow> clock_time \<Rightarrow> iot \<Rightarrow> iot option" where
  "iotorii_operation e now s =
     (if packetbuf_datalen (pktbuf (mac s)) = 0 then Some (iotorii_handle_incoming_hello s)
      else iotorii_handle_incoming_sethlmac_or_load e now s)"

section \<open>The root's timer, initialisation and input\<close>

definition iotorii_handle_sethlmac_timer :: "env \<Rightarrow> clock_time \<Rightarrow> iot \<Rightarrow> iot option" where
  "iotorii_handle_sethlmac_timer e now s =
     (let timestamp = root_timestamp s + 1;
          s = s\<lparr>root_timestamp := timestamp, has_converged := 0\<rparr>;
          (root_addr, h) = hlmac_create_root_addr 1 (mem s);
          (added, t) = hlmactable_add (hlmac_max (opts e)) root_addr (ucast timestamp) (table s);
          s = s\<lparr>mem := h, table := t\<rparr>
      in map_option
           (\<lambda>s.
              let s = free_received root_addr s;
                  (r, s) = next_rand s;
                  s = (if hlmac_cast (opts e) = 1 then s\<lparr>statistic_timer := Some IOTORII_STATISTICS_TIME\<rparr>
                       else s\<lparr>n_hijos_share := of_int (number_of_neighbours s),
                              n_hijos_load := of_int (number_of_neighbours s)\<rparr>);
                  s = iotorii_neighbours_flag s
              in s\<lparr>number_of_neighbours_flag := number_of_neighbours s\<rparr>)
           (iotorii_send_sethlmac e now root_addr (linkaddr_node_addr e) timestamp s))"

definition iotorii_init :: "env \<Rightarrow> iot \<Rightarrow> iot" where
  "iotorii_init e s =
     (let s = s\<lparr>mac := csma_output_init (mac s)\<rparr>;
          (r, s) = next_rand s;
          t = (IOTORII_HELLO_START_TIME * CLOCK_SECOND - IOTORII_HELLO_START_TIME)
              + r mod (IOTORII_HELLO_START_TIME * 2)
      in s\<lparr>hello_start_time := t, hello_timer := Some t, number_of_neighbours := 0,
           number_of_neighbours_flag := 0, table := hlmac_table_init (table s)\<rparr>)"

text \<open>
  \<open>parse_frame\<close> stands for \<open>csma_security_parse_frame\<close>: it returns a negative number or strips
  the header and sets the addresses and attributes of the packet buffer.
\<close>

definition input_packet ::
  "env \<Rightarrow> (packetbuf \<Rightarrow> int \<times> packetbuf) \<Rightarrow> clock_time \<Rightarrow> iot \<Rightarrow> iot option" where
  "input_packet e parse_frame now s =
     (if packetbuf_datalen (pktbuf (mac s)) = CSMA_ACK_LEN then Some s
      else
        let (r, pb) = parse_frame (pktbuf (mac s));
            s = s\<lparr>mac := (mac s)\<lparr>pktbuf := pb\<rparr>\<rparr>
        in if r < 0 then Some s
           else if \<not> linkaddr_cmp (packetbuf_addr pb ADDR_RECEIVER) (linkaddr_node_addr e)
                   \<and> \<not> packetbuf_holds_broadcast pb then Some s
           else if linkaddr_cmp (packetbuf_addr pb ADDR_SENDER) (linkaddr_node_addr e) then Some s
           else if mac_sequence_is_duplicate pb now (seqnos s) then Some s
           else iotorii_operation e now (s\<lparr>seqnos := mac_sequence_register_seqno pb now (seqnos s)\<rparr>))"

end
