(* ===== verification/Iotorii_Invariant.thy ===== *)
theory Iotorii_Invariant imports Iotorii_Receive begin

text \<open>
  The invariant of a den2ne node over any sequence of received frames and timer expiries:
  the components' invariants, one table entry per neighbour address with the right count,
  and a send timer that is armed whenever a message waits.
\<close>

definition nb_ok :: "iot \<Rightarrow> bool" where
  "nb_ok s \<longleftrightarrow> number_of_neighbours s = int (length (neighbours s)) \<and> length (neighbours s) \<le> 256 \<and>
     distinct (map nb_addr (neighbours s))"

definition pay_ok :: "iot \<Rightarrow> bool" where
  "pay_ok s \<longleftrightarrow> (\<forall>p \<in> set (payloads s). pe_data_len p = length (pe_payload p) \<and> pe_data_len p \<le> PACKETBUF_SIZE \<and>
       pe_ref p < fresh_ref s) \<and> distinct (map pe_ref (payloads s)) \<and>
     (payloads s \<noteq> [] \<longrightarrow> send_sethlmac_timer s \<noteq> None)"

text \<open>
  The header in the packet buffer leaves two bytes: \<open>iotorii_handle_share_upstream_timer\<close> sets
  the data length to two before it clears the buffer.
\<close>

definition pb_room :: "packetbuf \<Rightarrow> bool" where
  "pb_room pb \<longleftrightarrow> bufptr pb + hdrlen pb + 2 \<le> PACKETBUF_SIZE"

definition node_inv :: "env \<Rightarrow> iot \<Rightarrow> bool" where
  "node_inv e s \<longleftrightarrow> csma_wf (mac s) \<and> pb_room (pktbuf (mac s)) \<and> heap_wf (mem s) \<and> table_wf (hlmac_max (opts e)) (table s) \<and>
     nb_ok s \<and> pay_ok s"

text \<open>The header of the framer leaves room: at most 124 bytes of payload.\<close>

definition env_ok :: "env \<Rightarrow> bool" where
  "env_ok e \<longleftrightarrow> framer_hdrlen e \<noteq> 0 \<and> linkaddr_node_addr e \<noteq> linkaddr_null"

lemma max_payload_bound: "env_ok e \<Longrightarrow> max_payload e \<le> 124"
  by (auto simp: max_payload_def env_ok_def)

section \<open>Sending\<close>

lemma csma_wf_rand [simp]: "csma_wf (m\<lparr>rand := g\<rparr>) = csma_wf m"
  by (simp add: csma_wf_def busy_def)

lemma csma_wf_delay [simp]: "csma_wf (m\<lparr>transmission_delay := d\<rparr>) = csma_wf m"
  by (simp add: csma_wf_def busy_def)

lemma csma_wf_pktbuf: "csma_wf m \<Longrightarrow> pb_wf pb \<Longrightarrow> csma_wf (m\<lparr>pktbuf := pb\<rparr>)"
  by (simp add: csma_wf_def busy_def)

lemma csma_wf_pb: "csma_wf m \<Longrightarrow> pb_wf (pktbuf m)"
  by (simp add: csma_wf_def csma_core_def pools_wf_def)

lemma nb_ok_frame [simp]:
  "nb_ok (s\<lparr>mac := m\<rparr>) = nb_ok s" "nb_ok (s\<lparr>payloads := p\<rparr>) = nb_ok s"
  "nb_ok (s\<lparr>fresh_ref := r\<rparr>) = nb_ok s" "nb_ok (s\<lparr>send_sethlmac_timer := t\<rparr>) = nb_ok s"
  "nb_ok (s\<lparr>mem := h\<rparr>) = nb_ok s" "nb_ok (s\<lparr>table := tb\<rparr>) = nb_ok s"
  by (simp_all add: nb_ok_def)

lemma pay_ok_frame [simp]:
  "pay_ok (s\<lparr>mac := m\<rparr>) = pay_ok s" "pay_ok (s\<lparr>neighbours := n\<rparr>) = pay_ok s"
  "pay_ok (s\<lparr>mem := h\<rparr>) = pay_ok s" "pay_ok (s\<lparr>table := tb\<rparr>) = pay_ok s"
  "pay_ok (s\<lparr>number_of_neighbours := k\<rparr>) = pay_ok s"
  by (simp_all add: pay_ok_def)

text \<open>Fields that the invariant does not read.\<close>

lemma node_inv_frame [simp]:
  "node_inv e (s\<lparr>nodes := a1\<rparr>) = node_inv e s"
  "node_inv e (s\<lparr>seqnos := a2\<rparr>) = node_inv e s"
  "node_inv e (s\<lparr>number_of_neighbours_flag := a3\<rparr>) = node_inv e s"
  "node_inv e (s\<lparr>number_of_hello_messages := a4\<rparr>) = node_inv e s"
  "node_inv e (s\<lparr>number_of_sethlmac_messages := a5\<rparr>) = node_inv e s"
  "node_inv e (s\<lparr>number_times_converged := a6\<rparr>) = node_inv e s"
  "node_inv e (s\<lparr>n_hijos_share := a7\<rparr>) = node_inv e s"
  "node_inv e (s\<lparr>n_hijos_load := a8\<rparr>) = node_inv e s"
  "node_inv e (s\<lparr>edge := a9\<rparr>) = node_inv e s"
  "node_inv e (s\<lparr>sent_load := a10\<rparr>) = node_inv e s"
  "node_inv e (s\<lparr>sent_share := a11\<rparr>) = node_inv e s"
  "node_inv e (s\<lparr>has_converged := a12\<rparr>) = node_inv e s"
  "node_inv e (s\<lparr>extra_load := a13\<rparr>) = node_inv e s"
  "node_inv e (s\<lparr>last_timestamp := a14\<rparr>) = node_inv e s"
  "node_inv e (s\<lparr>root_timestamp := a15\<rparr>) = node_inv e s"
  "node_inv e (s\<lparr>convergence_time := a16\<rparr>) = node_inv e s"
  "node_inv e (s\<lparr>hello_start_time := a17\<rparr>) = node_inv e s"
  "node_inv e (s\<lparr>hello_idle_time := a17\<rparr>) = node_inv e s"
  "node_inv e (s\<lparr>sethlmac_timer := a18\<rparr>) = node_inv e s"
  "node_inv e (s\<lparr>hello_timer := a18\<rparr>) = node_inv e s"
  "node_inv e (s\<lparr>statistic_timer := a18\<rparr>) = node_inv e s"
  "node_inv e (s\<lparr>bad_access := a19\<rparr>) = node_inv e s"
  by (simp_all add: node_inv_def nb_ok_def pay_ok_def)

lemma node_inv_mac: "node_inv e s \<Longrightarrow> csma_wf m \<Longrightarrow> pb_room (pktbuf m) \<Longrightarrow> node_inv e (s\<lparr>mac := m\<rparr>)"
  by (simp add: node_inv_def)

lemma node_inv_mem: "node_inv e s \<Longrightarrow> heap_wf h \<Longrightarrow> node_inv e (s\<lparr>mem := h\<rparr>)"
  by (simp add: node_inv_def)

lemma node_inv_next_rand [simp]: "node_inv e (snd (next_rand s)) = node_inv e s"
  by (simp add: next_rand_def node_inv_def case_prod_beta)

lemma node_inv_next_rand' [dest]: "next_rand s = (r, s') \<Longrightarrow> node_inv e s \<Longrightarrow> node_inv e s'"
  using node_inv_next_rand by (metis snd_conv)

lemma pb_wf_prepared:
  assumes "pb_wf pb" "length data = n" "n \<le> PACKETBUF_SIZE"
  shows "pb_wf (packetbuf_set_datalen n (packetbuf_clear pb\<lparr>pbuf := blit (pbuf (packetbuf_clear pb))
    (packetbuf_dataptr (packetbuf_clear pb)) (take n data)\<rparr>))"
  using assms by (simp add: pb_wf_def packetbuf_set_datalen_def packetbuf_clear_def packetbuf_attr_clear_def
      pb_lengths blit_def)

text \<open>\<open>csma_output_packet\<close> only stamps attributes of the packet buffer.\<close>

lemma pb_room_attr [simp]:
  "pb_room (packetbuf_set_attr t v pb) = pb_room pb" "pb_room (packetbuf_set_addr u a pb) = pb_room pb"
  by (simp_all add: pb_room_def packetbuf_set_attr_def packetbuf_set_addr_def)

lemma pktbuf_enqueue [simp]: "pktbuf (snd (enqueue_packet cfg n f p m)) = pktbuf m"
  by (simp add: enqueue_packet_def Let_def case_prod_beta)

lemma pktbuf_output_tail [simp]: "pktbuf (output_tail cfg n f p m) = pktbuf m"
  using pktbuf_enqueue [of cfg n f p m] by (auto simp: output_tail_def Let_def case_prod_beta)

lemma pktbuf_output_neighbor [simp]: "pktbuf (snd (output_neighbor a m)) = pktbuf m"
  by (simp add: output_neighbor_def Let_def case_prod_beta)

lemma pb_room_stamp [simp]: "pb_room (pktbuf (stamp_packet m)) = pb_room (pktbuf m)"
  by (rule stamp_packet_effect [of m]) simp

lemma pb_room_output [simp]: "pb_room (pktbuf (csma_output_packet cfg f p m)) = pb_room (pktbuf m)"
  by (simp add: csma_output_packet_def Let_def case_prod_beta)

definition prepared :: "u8 list \<Rightarrow> nat \<Rightarrow> linkaddr \<Rightarrow> packetbuf \<Rightarrow> packetbuf" where
  "prepared data n a pb = packetbuf_set_addr ADDR_RECEIVER a (packetbuf_set_datalen n (packetbuf_clear pb
     \<lparr>pbuf := blit (pbuf (packetbuf_clear pb)) (packetbuf_dataptr (packetbuf_clear pb)) (take n data)\<rparr>))"

lemma prepare_packet_eq: "prepare_packet e data n a s =
    s\<lparr>mac := csma_output_packet (opts e) NULL NULL ((mac s)\<lparr>pktbuf := prepared data n a (pktbuf (mac s))\<rparr>)\<rparr>"
  by (simp add: prepare_packet_def send_packet_def prepared_def Let_def)

lemma prepare_packet_inv [step_inv]:
  assumes "node_inv e s" "length data = n" "n \<le> PACKETBUF_SIZE"
  shows "node_inv e (prepare_packet e data n a s)"
proof -
  have w: "csma_wf (mac s)" using assms(1) by (simp add: node_inv_def)
  have "pb_wf (prepared data n a (pktbuf (mac s)))"
    using pb_wf_prepared [OF csma_wf_pb [OF w] assms(2,3)] by (simp add: prepared_def)
  moreover have "pb_room (prepared data n a (pktbuf (mac s)))"
    by (simp add: prepared_def) (simp add: pb_room_def packetbuf_set_datalen_def packetbuf_clear_def
        packetbuf_attr_clear_def PACKETBUF_SIZE_def)
  ultimately show ?thesis unfolding prepare_packet_eq
    by (intro node_inv_mac assms csma_output_packet_wf csma_wf_pktbuf w) simp_all
qed

lemma prepare_packet_fields [simp]:
  "neighbours (prepare_packet e d n a s) = neighbours s" "payloads (prepare_packet e d n a s) = payloads s"
  "nodes (prepare_packet e d n a s) = nodes s" "mem (prepare_packet e d n a s) = mem s"
  "table (prepare_packet e d n a s) = table s" "edge (prepare_packet e d n a s) = edge s"
  "send_sethlmac_timer (prepare_packet e d n a s) = send_sethlmac_timer s"
  "fresh_ref (prepare_packet e d n a s) = fresh_ref s"
  "number_of_neighbours (prepare_packet e d n a s) = number_of_neighbours s"
  by (simp_all add: prepare_packet_eq)

lemma send_to_parents_inv [step_inv]:
  "node_inv e s \<Longrightarrow> length data \<le> PACKETBUF_SIZE \<Longrightarrow> node_inv e (send_to_parents e data nbs s)"
  by (induction nbs arbitrary: s) (auto simp: prepare_packet_inv)

lemma node_inv_fresh: "node_inv e s \<Longrightarrow> node_inv e (s\<lparr>fresh_ref := Suc (fresh_ref s)\<rparr>)"
  by (auto simp: node_inv_def pay_ok_def less_Suc_eq)

lemma node_inv_timer: "node_inv e s \<Longrightarrow> node_inv e (s\<lparr>send_sethlmac_timer := Some d\<rparr>)"
  by (auto simp: node_inv_def pay_ok_def)

definition entry_ok :: "payload_entry \<Rightarrow> iot \<Rightarrow> bool" where
  "entry_ok p s \<longleftrightarrow> pe_data_len p = length (pe_payload p) \<and> pe_data_len p \<le> PACKETBUF_SIZE \<and> pe_ref p < fresh_ref s"

lemma payload_add_inv:
  assumes "node_inv e s" "entry_ok p s" "send_sethlmac_timer s \<noteq> None"
  shows "node_inv e (s\<lparr>payloads := payload_add p (payloads s)\<rparr>)"
  using assms by (auto simp: node_inv_def pay_ok_def payload_add_def distinct_map_filter entry_ok_def)

lemma queue_entry_inv:
  assumes "node_inv e s" "entry_ok p s"
    and "s1 = (if payloads s = [] then s\<lparr>send_sethlmac_timer := Some d\<rparr> else s)"
  shows "node_inv e (s1\<lparr>payloads := payload_add p (payloads s1)\<rparr>)"
proof -
  have "node_inv e s1" "entry_ok p s1" using assms by (auto simp: node_inv_timer entry_ok_def)
  moreover have "send_sethlmac_timer s1 \<noteq> None" using assms by (auto simp: node_inv_def pay_ok_def)
  ultimately show ?thesis by (rule payload_add_inv)
qed

lemma queue_to_parents_inv [step_inv]:
  "node_inv e s \<Longrightarrow> entry_ok p s \<Longrightarrow> node_inv e (queue_to_parents p nbs s)"
proof (induction p nbs s rule: queue_to_parents.induct)
  case (2 p nb nbs s)
  let ?p = "p\<lparr>pe_dest := nb_addr nb\<rparr>"
  let ?s1 = "if payloads s = [] then s\<lparr>send_sethlmac_timer := Some 10\<rparr> else s"
  let ?s2 = "?s1\<lparr>payloads := payload_add ?p (payloads ?s1)\<rparr>"
  have "entry_ok ?p s" "entry_ok ?p ?s2" using 2(4) by (auto simp: entry_ok_def)
  with queue_entry_inv [OF 2(3) this(1) refl] 2 show ?case by (simp add: Let_def)
qed simp

lemma load_timer_inv [step_inv]: "node_inv e s \<Longrightarrow> node_inv e (iotorii_handle_load_timer e s)"
  by (auto simp: iotorii_handle_load_timer_def send_to_parents_inv PACKETBUF_SIZE_def entry_ok_def
      intro!: queue_to_parents_inv node_inv_fresh split: list.split)

lemma node_inv_neighbours:
  assumes "node_inv e s" "map nb_addr nbs = map nb_addr (neighbours s)"
  shows "node_inv e (s\<lparr>neighbours := nbs\<rparr>)"
  using assms map_eq_imp_length_eq [OF assms(2)] by (simp add: node_inv_def nb_ok_def)

lemma nb_addr_updates [simp]:
  "nb_addr (mark_in_out x nb) = nb_addr nb" "nb_addr (touch_hello a h nb) = nb_addr nb"
  "nb_addr (mark_parent a b nb) = nb_addr nb"
  by (simp_all add: mark_in_out_def touch_hello_def mark_parent_def)

lemma nb_addr_updates_comp [simp]:
  "nb_addr \<circ> mark_in_out x = nb_addr" "nb_addr \<circ> touch_hello a h = nb_addr"
  "nb_addr \<circ> mark_parent a b = nb_addr"
  by (simp_all add: comp_def)

lemma share_timer_inv [step_inv]:
  assumes "node_inv e s"
  shows "node_inv e (iotorii_handle_share_upstream_timer e s)"
proof (cases "nodes s")
  case Nil
  then show ?thesis using assms by (simp add: iotorii_handle_share_upstream_timer_def)
next
  case (Cons node ns)
  let ?x = "compute_extra_load (tn_load node)"
  define s1 where "s1 = (let s = s\<lparr>extra_load := ?x\<rparr> in
    if node_type (opts e) = 2 then s\<lparr>nodes := node\<lparr>tn_load := 100\<rparr> # ns\<rparr> else s)"
  have i1: "node_inv e s1" using assms by (simp add: s1_def Let_def)
  show ?thesis
  proof (cases "hlmac_cast (opts e) = 1")
    case True
    let ?m = "(mac s1)\<lparr>pktbuf := packetbuf_set_datalen 2 (pktbuf (mac s1))\<rparr>"
    have "iotorii_handle_share_upstream_timer e s =
        send_to_parents e (le16 ?x) (map (mark_in_out ?x) (neighbours s1))
          (s1\<lparr>mac := ?m, neighbours := map (mark_in_out ?x) (neighbours s1)\<rparr>)"
      using Cons True by (simp add: iotorii_handle_share_upstream_timer_def s1_def Let_def)
    moreover have "node_inv e (s1\<lparr>mac := ?m, neighbours := map (mark_in_out ?x) (neighbours s1)\<rparr>)"
    proof -
      have "csma_wf (mac s1)" "pb_room (pktbuf (mac s1))" using i1 by (auto simp: node_inv_def)
      then have "csma_wf ?m" "pb_room (pktbuf ?m)"
        using csma_wf_pb [of "mac s1"]
        by (auto intro!: csma_wf_pktbuf simp: pb_wf_def pb_room_def packetbuf_set_datalen_def)
      then have "node_inv e (s1\<lparr>mac := ?m\<rparr>)" by (rule node_inv_mac [OF i1])
      from node_inv_neighbours [OF this, of "map (mark_in_out ?x) (neighbours s1)"] show ?thesis by simp
    qed
    ultimately show ?thesis by (simp add: send_to_parents_inv PACKETBUF_SIZE_def)
  next
    case False
    let ?p = "\<lparr>pe_ref = fresh_ref s1, pe_payload = le16 ?x, pe_data_len = 2,
      pe_dest = last_parent (stray_addr e) (neighbours s1)\<rparr>"
    let ?s2 = "s1\<lparr>fresh_ref := Suc (fresh_ref s1), neighbours := map (mark_in_out ?x) (neighbours s1)\<rparr>"
    have i2: "node_inv e ?s2"
      using node_inv_neighbours [OF node_inv_fresh [OF i1], of "map (mark_in_out ?x) (neighbours s1)"] by simp
    have "entry_ok ?p ?s2" by (simp add: entry_ok_def PACKETBUF_SIZE_def)
    note q = queue_entry_inv [OF i2 this refl, of 10]
    let ?s3 = "if payloads ?s2 = [] then ?s2\<lparr>send_sethlmac_timer := Some 10\<rparr> else ?s2"
    have "iotorii_handle_share_upstream_timer e s = ?s3\<lparr>payloads := payload_add ?p (payloads ?s3)\<rparr>"
      using Cons False by (simp add: iotorii_handle_share_upstream_timer_def s1_def Let_def)
    with q show ?thesis by (simp only:)
  qed
qed

lemma statistic_timer_inv [step_inv]: "node_inv e s \<Longrightarrow> node_inv e (iotorii_handle_statistic_timer e s)"
  by (simp add: iotorii_handle_statistic_timer_def Let_def share_timer_inv load_timer_inv)

section \<open>Hello messages and the message queue\<close>

lemma set_remove_first: "x \<in> set (remove_first P xs) \<Longrightarrow> x \<in> set xs"
  by (induction xs) (auto split: if_splits)

lemma distinct_remove_first: "distinct (map f xs) \<Longrightarrow> distinct (map f (remove_first P xs))"
  by (induction xs) (auto dest: set_remove_first)

lemma length_remove_first: "\<exists>x \<in> set xs. P x \<Longrightarrow> Suc (length (remove_first P xs)) = length xs"
  by (induction xs) auto

lemma nb_ok_remove:
  assumes "nb_ok s" "\<exists>nb \<in> set (neighbours s). P nb"
  shows "nb_ok (s\<lparr>neighbours := remove_first P (neighbours s), number_of_neighbours := number_of_neighbours s - 1\<rparr>)"
  using assms length_remove_first [OF assms(2)] distinct_remove_first [of nb_addr "neighbours s" P]
  by (simp add: nb_ok_def)

lemma check_neighbours_inv [step_inv]: "node_inv e s \<Longrightarrow> node_inv e (iotorii_check_neighbours_hello s)"
  using nb_ok_remove [of s "stale (number_of_hello_messages s)"]
  by (auto simp: iotorii_check_neighbours_hello_def Let_def node_inv_def)

lemma neighbours_flag_inv [step_inv]: "node_inv e s \<Longrightarrow> node_inv e (iotorii_neighbours_flag s)"
  by (simp add: iotorii_neighbours_flag_def node_inv_neighbours)

lemma hello_timer_inv [step_inv]:
  assumes "node_inv e s"
  shows "node_inv e (iotorii_handle_hello_timer e s)"
proof -
  let ?pb = "packetbuf_set_addr ADDR_RECEIVER linkaddr_null (packetbuf_clear (pktbuf (mac s)))"
  have w: "csma_wf (mac s)" using assms by (simp add: node_inv_def)
  then have "csma_wf ((mac s)\<lparr>pktbuf := ?pb\<rparr>)" by (intro csma_wf_pktbuf) (simp_all add: csma_wf_pb)
  moreover have "pb_room ?pb"
    by simp (simp add: pb_room_def packetbuf_clear_def packetbuf_attr_clear_def PACKETBUF_SIZE_def)
  ultimately have "node_inv e (send_packet e NULL NULL (s\<lparr>mac := (mac s)\<lparr>pktbuf := ?pb\<rparr>\<rparr>))"
    unfolding send_packet_def using node_inv_mac [OF assms, of "csma_output_packet (opts e) NULL NULL ((mac s)\<lparr>pktbuf := ?pb\<rparr>)"]
    by (simp add: csma_output_packet_wf)
  then show ?thesis using assms
    by (auto simp: iotorii_handle_hello_timer_def Let_def case_prod_beta intro!: check_neighbours_inv)
qed

lemma pay_ok_pop: "node_inv e s \<Longrightarrow> payloads s = p # ps \<Longrightarrow>
    node_inv e (s\<lparr>payloads := ps\<rparr>) \<and> entry_ok p s \<and> pe_ref p \<notin> pe_ref ` set ps"
  by (auto simp: node_inv_def pay_ok_def entry_ok_def)

lemma csma_delay_inv: "node_inv e s \<Longrightarrow> node_inv e (s\<lparr>mac := (mac s)\<lparr>transmission_delay := d\<rparr>\<rparr>)"
  by (simp add: node_inv_def)

lemma payload_push_inv:
  assumes "node_inv e s" "entry_ok p s" "pe_ref p \<notin> pe_ref ` set (payloads s)"
  shows "node_inv e (s\<lparr>send_sethlmac_timer := Some d, payloads := p # payloads s\<rparr>)"
  using assms by (auto simp: node_inv_def pay_ok_def entry_ok_def nb_ok_def)

lemma arm_next_inv:
  assumes "node_inv e s" "entry_ok p s" "pe_ref p \<notin> pe_ref ` set (payloads s)"
  shows "node_inv e (arm_next e p s)"
proof -
  obtain r s' where n: "next_rand s = (r, s')" by fastforce
  have "node_inv e s'" using assms(1) n by blast
  moreover have "payloads s' = payloads s" "fresh_ref s' = fresh_ref s" using n by (auto simp: next_rand_def case_prod_beta)
  ultimately show ?thesis using assms n payload_push_inv [of e s' p]
    by (auto simp: arm_next_def Let_def node_inv_timer entry_ok_def)
qed

lemma send_message_inv [step_inv]:
  assumes "node_inv e s"
  shows "node_inv e (iotorii_handle_send_message_timer e s)"
proof (cases "payloads s")
  case Nil
  then show ?thesis using assms by (simp add: iotorii_handle_send_message_timer_def)
next
  case (Cons p ps)
  let ?s1 = "s\<lparr>payloads := ps, mac := (mac s)\<lparr>transmission_delay := 1000\<rparr>\<rparr>"
  note pop = pay_ok_pop [OF assms Cons]
  have i1: "node_inv e ?s1" using pop csma_delay_inv [of e "s\<lparr>payloads := ps\<rparr>"] by simp
  have ok: "length (pe_payload p) = pe_data_len p" "pe_data_len p \<le> PACKETBUF_SIZE"
    using pop by (auto simp: entry_ok_def)
  have "node_inv e (arm_next e p (prepare_packet e (pe_payload p) (pe_data_len p) d ?s1))" for d
    using pop by (intro arm_next_inv prepare_packet_inv [OF i1 ok]) (auto simp: entry_ok_def)
  then show ?thesis using Cons by (simp add: iotorii_handle_send_message_timer_def Let_def)
qed

section \<open>Incoming messages\<close>

lemma incoming_hello_inv [step_inv]:
  assumes "node_inv e s"
  shows "node_inv e (iotorii_handle_incoming_hello s)"
  using assms
  by (auto simp: iotorii_handle_incoming_hello_def Let_def node_inv_def nb_ok_def pay_ok_def image_iff)

lemma note_convergence_inv [step_inv]: "node_inv e s \<Longrightarrow> node_inv e (note_convergence now s)"
  by (simp add: note_convergence_def)

lemma upd_nb_inv [step_inv]:
  assumes "node_inv e s" "i < length (neighbours s)" "nb_addr (f (neighbours s ! i)) = nb_addr (neighbours s ! i)"
  shows "node_inv e (upd_nb i f s)"
  unfolding upd_nb_def using assms(2,3)
  by (intro node_inv_neighbours assms(1)) (simp add: map_update, metis length_map list_update_id nth_map)

text \<open>The number of neighbours stays while the loops over them run.\<close>

lemma send_to_parents_neighbours [simp]:
  "neighbours (send_to_parents e d nbs s) = neighbours s" "payloads (send_to_parents e d nbs s) = payloads s"
  "nodes (send_to_parents e d nbs s) = nodes s" "mem (send_to_parents e d nbs s) = mem s"
  by (induction nbs arbitrary: s) simp_all

lemma queue_to_parents_neighbours [simp]:
  "neighbours (queue_to_parents p nbs s) = neighbours s" "nodes (queue_to_parents p nbs s) = nodes s"
  "mem (queue_to_parents p nbs s) = mem s" "mac (queue_to_parents p nbs s) = mac s"
  by (induction p nbs s rule: queue_to_parents.induct) (simp_all add: Let_def)

lemma load_timer_neighbours [simp]:
  "neighbours (iotorii_handle_load_timer e s) = neighbours s" "nodes (iotorii_handle_load_timer e s) = nodes s"
  "mem (iotorii_handle_load_timer e s) = mem s"
  by (simp_all add: iotorii_handle_load_timer_def split: list.split)

lemma share_timer_neighbours [simp]:
  "length (neighbours (iotorii_handle_share_upstream_timer e s)) = length (neighbours s)"
  "mem (iotorii_handle_share_upstream_timer e s) = mem s"
  by (simp_all add: iotorii_handle_share_upstream_timer_def Let_def split: list.split)

lemma note_convergence_fields [simp]:
  "neighbours (note_convergence now s) = neighbours s" "mem (note_convergence now s) = mem s"
  by (simp_all add: note_convergence_def)

lemma load_step_inv:
  assumes "node_inv e s" "i < length (neighbours s)"
  shows "node_inv e (load_step e now a off s i) \<and> length (neighbours (load_step e now a off s i)) = length (neighbours s)"
proof -
  let ?s1 = "upd_nb i (\<lambda>nb. nb\<lparr>nb_load := of_le32 (sub (pbuf (pktbuf (mac s))) off 4)\<rparr>) s"
  have "node_inv e ?s1" by (intro upd_nb_inv assms) simp
  moreover have "length (neighbours ?s1) = length (neighbours s)" by (simp add: upd_nb_def)
  ultimately show ?thesis using assms
    by (auto simp: load_step_def Let_def note_convergence_inv load_timer_inv)
qed

lemma add_to_load_fields [simp]:
  "node_inv e (add_to_load x s) = node_inv e s" "neighbours (add_to_load x s) = neighbours s"
  "mem (add_to_load x s) = mem s"
  by (simp_all add: add_to_load_def split: list.split)

lemma share_from_child_inv:
  assumes "node_inv e s"
  shows "node_inv e (share_from_child e now x i s)"
    "length (neighbours (share_from_child e now x i s)) = length (neighbours s)"
  using assms by (simp_all add: share_from_child_def Let_def note_convergence_inv share_timer_inv)

lemma share_step_inv:
  assumes "node_inv e s" "i < length (neighbours s)"
  shows "node_inv e (share_step e now a x s i) \<and> length (neighbours (share_step e now a x s i)) = length (neighbours s)"
proof -
  let ?s = "share_from_child e now x i s"
  have "node_inv e (upd_nb i (\<lambda>nb. nb\<lparr>in_out := x\<rparr>) ?s)"
    using share_from_child_inv [OF assms(1)] assms(2) by (intro upd_nb_inv) simp_all
  then show ?thesis using share_from_child_inv [OF assms(1)] assms(1)
    by (simp add: share_step_def Let_def upd_nb_def)
qed

lemma fold_steps_inv:
  assumes "\<And>s i. node_inv e s \<Longrightarrow> i < length (neighbours s) \<Longrightarrow>
      node_inv e (f s i) \<and> length (neighbours (f s i)) = length (neighbours s)"
    and "node_inv e s" "n \<le> length (neighbours s)"
  shows "node_inv e (foldl f s [0..<n])"
proof -
  have "node_inv e (foldl f s [0..<n]) \<and> length (neighbours (foldl f s [0..<n])) = length (neighbours s)"
    using assms(3) by (induction n) (use assms(1,2) in auto)
  then show ?thesis by simp
qed

section \<open>The heap\<close>

lemma heap_wf_add_new_id [simp]: "heap_wf h \<Longrightarrow> heap_wf (snd (hlmac_add_new_id a i h))"
  by (simp add: hlmac_add_new_id_def Let_def case_prod_beta)

lemma heap_wf_remove_Last_id [simp]: "heap_wf h \<Longrightarrow> heap_wf (snd (hlmac_remove_Last_id a h))"
  by (simp add: hlmac_remove_Last_id_def Let_def case_prod_beta)

lemma heap_wf_cmp_rest [simp]: "heap_wf h \<Longrightarrow> heap_wf (snd (cmp_rest p i n r h))"
  by (induction p i n r h rule: cmp_rest.induct)
    (subst cmp_rest.simps, simp add: Let_def case_prod_beta, metis prod.collapse heap_wf_load)

lemma heap_wf_cmp_common [simp]: "heap_wf h \<Longrightarrow> heap_wf (snd (cmp_common a b i n h))"
  by (induction a b i n h rule: cmp_common.induct)
    (subst cmp_common.simps, simp add: Let_def case_prod_beta cmp_lengths_def, metis prod.collapse heap_wf_load)

lemma heap_wf_entry_scan [simp]: "heap_wf h \<Longrightarrow> heap_wf (snd (entry_scan es a h))"
  by (induction es arbitrary: h) (simp_all add: Let_def case_prod_beta hlmac_cmp_def)

lemma heap_wf_prefix_loop [simp]: "heap_wf h \<Longrightarrow> heap_wf (snd (prefix_loop es a h))"
  by (induction es a h rule: prefix_loop.induct)
    (subst prefix_loop.simps, auto simp: Let_def case_prod_beta,
      metis prod.collapse heap_wf_entry_scan heap_wf_remove_Last_id)

lemma heap_wf_has_loop [simp]: "heap_wf h \<Longrightarrow> heap_wf (snd (hlmactable_has_loop a t h))"
  by (simp add: hlmactable_has_loop_def hlmactable_get_longest_matchhed_prefix_def Let_def case_prod_beta)

lemma heap_wf_load_bytes [simp]: "heap_wf h \<Longrightarrow> heap_wf (snd (load_bytes p off n h))"
  by (induction n arbitrary: off h) (simp_all add: Let_def case_prod_beta)

lemma heap_wf_store_bytes [simp]: "heap_wf h \<Longrightarrow> heap_wf (store_bytes p off vs h)"
  by (induction vs arbitrary: off h) simp_all

lemma heap_wf_addr_loop [simp]: "heap_wf h \<Longrightarrow> heap_wf (snd (snd (addr_loop p n a c i l h)))"
  by (induction p n a c i l h rule: addr_loop.induct)
    (subst addr_loop.simps, simp add: Let_def case_prod_beta, metis prod.collapse heap_wf_load heap_wf_load_bytes)

lemma heap_wf_copy_packet [simp]: "heap_wf h \<Longrightarrow> heap_wf (snd (copy_packet_data pb h))"
  by (simp add: copy_packet_data_def Let_def case_prod_beta)

lemma heap_wf_extract [simp]:
  "heap_wf h \<Longrightarrow> heap_wf (snd (iotorii_extract_address na pb h))"
  "heap_wf h \<Longrightarrow> heap_wf (snd (iotorii_extract_timestamp pb h))"
  by (simp_all add: iotorii_extract_address_def iotorii_extract_timestamp_def Let_def case_prod_beta)

lemma heap_wf_ub [simp]: "heap_wf (h\<lparr>ub := b\<rparr>) = heap_wf h"
  by (simp add: heap_wf_def)

lemma heap_wf_index_value [simp]: "heap_wf h \<Longrightarrow> heap_wf (snd (get_addr_index_value a k h))"
  by (simp add: get_addr_index_value_def)

lemma heap_wf_to_str [simp]: "heap_wf (fst hb) \<Longrightarrow> heap_wf (fst (to_str_loop sc a n hb))"
  by (induction sc a n hb rule: to_str_loop.induct) (simp_all add: Let_def case_prod_beta)

lemma heap_wf_node_strings [simp]: "heap_wf h \<Longrightarrow> heap_wf (snd (snd (node_strings sc a h)))"
  by (simp add: node_strings_def hlmac_addr_to_str_def Let_def case_prod_beta)

lemma heap_wf_free_strs: "heap_wf h \<Longrightarrow> heap_wf (foldr (\<lambda>n h. free_str (str_top_addr n) (free_str (str_addr n) h)) ns h)"
  by (induction ns) (simp_all add: free_str_def split: c_str.split)

section \<open>Sending SetHLMAC and accepting an address\<close>

lemma foldl_inv: "(\<And>s v. P s \<Longrightarrow> P (f s v)) \<Longrightarrow> P s \<Longrightarrow> P (foldl f s vs)"
  by (induction vs arbitrary: s) simp_all

lemma list_this_node_inv [step_inv]:
  assumes "node_inv e s"
  shows "node_inv e (list_this_node_entry e chain a s)"
proof -
  obtain sa st h where n: "node_strings (char_signed e) a (mem s) = (sa, st, h)" by (metis prod_cases3)
  have "heap_wf h" using heap_wf_node_strings [of "mem s" "char_signed e" a] assms n by (simp add: node_inv_def)
  then have "node_inv e (s\<lparr>mem := h\<rparr>)" by (rule node_inv_mem [OF assms])
  moreover have "node_inv e s \<Longrightarrow> node_inv e (case next_rand s of (r, s) \<Rightarrow> s\<lparr>nodes := f s r\<rparr>)" for s f
    by (auto split: prod.split)
  ultimately show ?thesis using n by (auto simp: list_this_node_entry_def intro!: foldl_inv [where P = "node_inv e"])
qed

lemma payload_add_timer_inv:
  assumes "node_inv e s" "entry_ok p s"
  shows "node_inv e (s\<lparr>payloads := payload_add p (payloads s), number_of_sethlmac_messages := k,
      send_sethlmac_timer := Some t\<rparr>)"
    "node_inv e (s\<lparr>payloads := payload_add p (payloads s), convergence_time := c,
      number_of_sethlmac_messages := k, send_sethlmac_timer := Some t\<rparr>)"
  using assms
  by (auto simp: node_inv_def nb_ok_def pay_ok_def payload_add_def distinct_map_filter entry_ok_def)

lemma queue_payload_inv [step_inv]:
  assumes "node_inv e s" "length data \<le> PACKETBUF_SIZE"
  shows "node_inv e (queue_payload e now data d s)"
proof -
  let ?p = "\<lparr>pe_ref = fresh_ref s, pe_payload = data, pe_data_len = length data, pe_dest = d\<rparr>"
  let ?s = "s\<lparr>fresh_ref := Suc (fresh_ref s)\<rparr>"
  have i1: "node_inv e ?s" by (rule node_inv_fresh [OF assms(1)])
  have ok: "entry_ok ?p s'" if "fresh_ref s' = Suc (fresh_ref s)" for s'
    using assms(2) that by (simp add: entry_ok_def)
  show ?thesis
  proof (cases "payloads s = []")
    case True
    obtain dl s' where d: "(if node_type (opts e) > 1 then let (r, s) = next_rand ?s in (r mod IOTORII_SETHLMAC_DELAY, s)
        else (0, ?s)) = (dl, s')" by fastforce
    then have s': "node_inv e s'" "fresh_ref s' = Suc (fresh_ref s)"
      using i1 by (auto simp: next_rand_def case_prod_beta Let_def node_inv_def split: if_splits)
    show ?thesis using True d payload_add_timer_inv [OF s'(1) ok [OF s'(2)]]
      by (simp add: queue_payload_def Let_def)
  next
    case False
    have "send_sethlmac_timer ?s \<noteq> None" using assms(1) False by (simp add: node_inv_def pay_ok_def)
    then show ?thesis using payload_add_inv [OF i1 ok] False by (simp add: queue_payload_def)
  qed
qed

lemma length_load_bytes [simp]: "length (fst (load_bytes p off n h)) = n"
  by (induction n arbitrary: off h) (simp_all add: Let_def case_prod_beta)

lemma length_concat_pairs [simp]: "length (concat (map message_pair es)) = 9 * length es"
  by (induction es) (simp_all add: LINKADDR_SIZE_def)

lemma length_sethlmac_message [simp]:
  "length (sethlmac_message ts ids es) = 5 + length ids + 9 * length es"
  by (simp add: sethlmac_message_def message_head_def)

text \<open>
  A message never exceeds the payload limit by more than what its first pair needs: the limit
  is tested without the four bytes of the timestamp before the first pair, and exactly after
  each pair.
\<close>

lemma pairs_loop_length:
  "counter + 9 * int (length (fst (pairs_loop m counter w slots))) \<le> max (counter + 9) m"
  by (induction m counter w slots rule: pairs_loop.induct)
    (auto simp: Let_def case_prod_beta LINKADDR_SIZE_def)

lemma note_overflow_inv [step_inv]: "node_inv e s \<Longrightarrow> node_inv e (note_overflow m d s)"
  by (simp add: note_overflow_def node_inv_def)

lemma send_broadcast_inv [step_inv]:
  assumes "node_inv e s" "env_ok e" "max_payload e \<ge> int (unat (len a)) + 2 + int LINKADDR_SIZE"
  shows "node_inv e (send_broadcast e now a ts slots s)"
proof -
  obtain ids h where l: "load_bytes (address a) 0 (unat (len a)) (mem s) = (ids, h)" by fastforce
  then have ids: "length ids = unat (len a)" "heap_wf h"
    using length_load_bytes [of "address a" 0 "unat (len a)" "mem s"] assms(1)
      heap_wf_load_bytes [of "mem s" "address a" 0 "unat (len a)"] by (auto simp: node_inv_def)
  obtain es bad where p: "pairs_loop (max_payload e) (4 + 1 + int (length ids)) (length slots = 255) slots = (es, bad)"
    by fastforce
  have "int (5 + length ids + 9 * length es) \<le> 128"
    using pairs_loop_length [of "4 + 1 + int (length ids)" "max_payload e" "length slots = 255" slots] p ids(1)
      assms(3) max_payload_bound [OF assms(2)] by (simp add: LINKADDR_SIZE_def)
  then have len: "length (sethlmac_message ts ids es) \<le> PACKETBUF_SIZE" by (simp add: PACKETBUF_SIZE_def)
  have "node_inv e (s\<lparr>mem := h, bad_access := (bad_access s \<or> bad)\<rparr>)"
    using node_inv_mem [OF assms(1) ids(2)] by simp
  then show ?thesis using l p len
    by (simp add: send_broadcast_def Let_def list_this_node_inv queue_payload_inv note_overflow_inv)
qed

lemma send_unicast_inv [step_inv]:
  assumes "env_ok e" "max_payload e \<ge> int (unat (len a)) + 2 + int LINKADDR_SIZE" "node_inv e s"
  shows "node_inv e (send_unicast e now a ts w first slots s)"
  using assms(3)
proof (induction slots arbitrary: s first)
  case (Cons x slots)
  show ?case
  proof (cases x)
    case (Some nb)
    obtain ids h where l: "load_bytes (address a) 0 (unat (len a)) (mem s) = (ids, h)" by fastforce
    then have ids: "length ids = unat (len a)" "heap_wf h"
      using length_load_bytes [of "address a" 0 "unat (len a)" "mem s"] Cons.prems
        heap_wf_load_bytes [of "mem s" "address a" 0 "unat (len a)"] by (auto simp: node_inv_def)
    let ?d = "sethlmac_message ts ids [(number_id nb, nb_addr nb)]"
    have "length ?d \<le> PACKETBUF_SIZE"
      using assms(2) [folded ids(1)] max_payload_bound [OF assms(1)] by (simp add: LINKADDR_SIZE_def PACKETBUF_SIZE_def)
    then have q: "node_inv e (queue_payload e now ?d (nb_addr nb) (note_overflow (max_payload e) ?d (s\<lparr>mem := h\<rparr>)))"
      by (intro queue_payload_inv note_overflow_inv node_inv_mem Cons.prems ids(2))
    then show ?thesis using l Some Cons.IH list_this_node_inv [OF q]
      by (simp add: Let_def del: length_sethlmac_message)
  qed (use Cons.prems in simp)
qed simp

lemma send_sethlmac_inv [step_inv]:
  assumes "node_inv e s" "env_ok e" "iotorii_send_sethlmac e now a sender ts s = Some s'"
  shows "node_inv e s'"
proof -
  have rnd: "node_inv e (s\<lparr>mac := (mac s)\<lparr>rand := g\<rparr>\<rparr>)" for g using assms(1) by (simp add: node_inv_def)
  show ?thesis using assms(3,1) rnd assms(2)
    by (auto simp: iotorii_send_sethlmac_def Let_def list_this_node_inv send_broadcast_inv send_unicast_inv
        split: if_splits bind_splits prod.splits)
qed

lemma heap_wf_mem: "node_inv e s \<Longrightarrow> heap_wf (mem s)"
  by (simp add: node_inv_def)

lemma clear_nodes_inv [step_inv]: "node_inv e s \<Longrightarrow> node_inv e (clear_nodes s)"
  by (simp add: clear_nodes_def node_inv_mem heap_wf_free_strs heap_wf_mem)

lemma start_round_inv [step_inv]: "node_inv e s \<Longrightarrow> node_inv e (start_round e ts s)"
  by (simp add: start_round_def Let_def clear_nodes_inv neighbours_flag_inv)

lemma free_received_inv [step_inv]: "node_inv e s \<Longrightarrow> node_inv e (free_received a s)"
  by (simp add: free_received_def node_inv_mem heap_wf_mem)

lemma accept_check_inv: "node_inv e s \<Longrightarrow> node_inv e (snd (accept_check a ts s))"
  by (simp add: accept_check_def Let_def case_prod_beta node_inv_mem heap_wf_mem)

lemma one_child_less_inv [simp]: "node_inv e (one_child_less s) = node_inv e s"
  by (simp add: one_child_less_def)

lemma report_if_done_inv [step_inv]: "node_inv e s \<Longrightarrow> node_inv e (report_if_done e s)"
  by (simp add: report_if_done_def Let_def load_timer_inv share_timer_inv)

lemma become_edge_inv [step_inv]: "node_inv e s \<Longrightarrow> node_inv e (become_edge e s)"
  by (simp add: become_edge_def Let_def load_timer_inv share_timer_inv)

lemma node_inv_table: "node_inv e s \<Longrightarrow> table_wf (hlmac_max (opts e)) t \<Longrightarrow> node_inv e (s\<lparr>table := t\<rparr>)"
  by (simp add: node_inv_def)

lemma table_add_inv: "node_inv e s \<Longrightarrow> node_inv e (s\<lparr>table := snd (hlmactable_add (hlmac_max (opts e)) a ts (table s))\<rparr>)"
  by (intro node_inv_table) (auto simp: node_inv_def table_wf_add)

lemma mark_parents_inv: "node_inv e s \<Longrightarrow> node_inv e (s\<lparr>neighbours := map (mark_parent a b) (neighbours s)\<rparr>)"
  by (simp add: node_inv_neighbours)

lemma handle_sethlmac_inv [step_inv]:
  assumes "node_inv e s" "env_ok e" "handle_sethlmac e now sender a ts s = Some s'"
  shows "node_inv e s'"
proof -
  obtain ok s1 where c: "accept_check a ts s = (ok, s1)" by fastforce
  have i1: "node_inv e s1" using accept_check_inv [OF assms(1), of a ts] c by simp
  obtain added t where ad: "hlmactable_add (hlmac_max (opts e)) a (ucast ts) (table s1) = (added, t)" by fastforce
  have i2: "node_inv e (s1\<lparr>table := t\<rparr>)" using table_add_inv [OF i1, of a "ucast ts"] ad by simp
  show ?thesis using assms(3) c ad i1
    by (auto simp: handle_sethlmac_def Let_def split: if_splits bind_splits
        intro!: note_convergence_inv report_if_done_inv become_edge_inv mark_parents_inv free_received_inv
        intro: send_sethlmac_inv [OF start_round_inv [OF i2] assms(2)] i2)
qed

lemma incoming_inv [step_inv]:
  assumes "node_inv e s" "env_ok e" "iotorii_handle_incoming_sethlmac_or_load e now s = Some s'"
  shows "node_inv e s'"
proof -
  obtain a h where x: "iotorii_extract_address (linkaddr_node_addr e) (pktbuf (mac s)) (mem s) = (a, h)" by fastforce
  obtain ts h' where y: "iotorii_extract_timestamp (pktbuf (mac s)) h = (ts, h')" by fastforce
  have "heap_wf h" using heap_wf_extract(1) [OF heap_wf_mem [OF assms(1)]] x by (metis snd_conv)
  then have "heap_wf h'" using heap_wf_extract(2) [of h "pktbuf (mac s)"] y by simp
  then have i: "node_inv e (s\<lparr>mem := h'\<rparr>)" by (rule node_inv_mem [OF assms(1)])
  note folds = fold_steps_inv [where n = "length (neighbours s)", OF load_step_inv i]
    fold_steps_inv [where n = "length (neighbours s)", OF share_step_inv i]
  show ?thesis using assms(3) x y i folds
    by (auto simp: iotorii_handle_incoming_sethlmac_or_load_def Let_def split: if_splits
        intro: handle_sethlmac_inv [OF i assms(2)])
qed

lemma operation_inv [step_inv]:
  "node_inv e s \<Longrightarrow> env_ok e \<Longrightarrow> iotorii_operation e now s = Some s' \<Longrightarrow> node_inv e s'"
  by (auto simp: iotorii_operation_def incoming_hello_inv intro: incoming_inv split: if_splits)

lemma sethlmac_timer_inv [step_inv]:
  assumes "node_inv e s" "env_ok e" "iotorii_handle_sethlmac_timer e now s = Some s'"
  shows "node_inv e s'"
proof -
  let ?s = "s\<lparr>root_timestamp := root_timestamp s + 1, has_converged := 0\<rparr>"
  obtain a h where c: "hlmac_create_root_addr 1 (mem s) = (a, h)" by fastforce
  have "heap_wf h" using heap_wf_mem [OF assms(1)] c by (auto simp: hlmac_create_root_addr_def Let_def case_prod_beta)
  then have i1: "node_inv e (?s\<lparr>mem := h\<rparr>)" using assms(1) by (simp add: node_inv_mem)
  obtain added t where ad: "hlmactable_add (hlmac_max (opts e)) a (ucast (root_timestamp s + 1)) (table s) = (added, t)"
    by fastforce
  have i2: "node_inv e (?s\<lparr>mem := h, table := t\<rparr>)"
    using table_add_inv [OF i1, of a "ucast (root_timestamp s + 1)"] ad by simp
  have send: "node_inv e s1" if "iotorii_send_sethlmac e now a (linkaddr_node_addr e) (root_timestamp s + 1)
      (?s\<lparr>mem := h, table := t\<rparr>) = Some s1" for s1
    by (rule send_sethlmac_inv [OF i2 assms(2) that])
  obtain s1 where "iotorii_send_sethlmac e now a (linkaddr_node_addr e) (root_timestamp s + 1)
      (?s\<lparr>mem := h, table := t\<rparr>) = Some s1"
    using assms(3) c ad by (auto simp: iotorii_handle_sethlmac_timer_def Let_def)
  moreover from this send have "node_inv e (free_received a s1)" by (simp add: free_received_inv)
  ultimately show ?thesis using assms(3) c ad
    by (auto simp: iotorii_handle_sethlmac_timer_def Let_def case_prod_beta intro!: neighbours_flag_inv)
qed

section \<open>Runs of a node\<close>

text \<open>
  The framer and the parser of frames keep the packet buffer well formed and leave room for
  two bytes behind the header.
\<close>

definition framer_room :: "(packetbuf \<Rightarrow> int \<times> packetbuf) \<Rightarrow> bool" where
  "framer_room f \<longleftrightarrow> framer_ok f \<and> (\<forall>pb. pb_wf pb \<and> bufptr pb = 0 \<and> hdrlen pb = 0 \<longrightarrow> pb_room (snd (f pb)))"

definition parser_ok :: "(packetbuf \<Rightarrow> int \<times> packetbuf) \<Rightarrow> bool" where
  "parser_ok f \<longleftrightarrow> (\<forall>pb. pb_wf pb \<and> bufptr pb = 0 \<and> hdrlen pb = 0 \<longrightarrow> pb_wf (snd (f pb)) \<and> pb_room (snd (f pb)))"

definition received_frame :: "packetbuf \<Rightarrow> bool" where
  "received_frame pb \<longleftrightarrow> pb_wf pb \<and> bufptr pb = 0 \<and> hdrlen pb = 0"

lemma transmit_room:
  assumes "csma_wf m" "n \<in> set (neighbour_list m)" "framer_room cf"
  shows "pb_room (pktbuf (transmit_from_queue cfg addr cf ra n (timer_fired n m)))"
proof -
  have f: "framer_ok cf" using assms(3) by (simp add: framer_room_def)
  show ?thesis
    by (rule transmit_from_queue_framed [OF timer_fired_wf [OF assms(1,2)] f, where cfg = cfg and addr = addr and ra = ra])
      (use assms(3) in \<open>simp add: framer_room_def\<close>)
qed

text \<open>A timer that fires is no longer set when its handler runs.\<close>

inductive iot_step ::
  "env \<Rightarrow> (packetbuf \<Rightarrow> int \<times> packetbuf) \<Rightarrow> (packetbuf \<Rightarrow> int \<times> packetbuf) \<Rightarrow> iot \<Rightarrow> iot \<Rightarrow> bool"
  for e :: env and create_frame parse_frame :: "packetbuf \<Rightarrow> int \<times> packetbuf" where
  hello_fires: "hello_timer s \<noteq> None \<Longrightarrow>
    iot_step e create_frame parse_frame s (iotorii_handle_hello_timer e (s\<lparr>hello_timer := None\<rparr>))"
| sethlmac_fires: "sethlmac_timer s \<noteq> None \<Longrightarrow>
    iotorii_handle_sethlmac_timer e now (s\<lparr>sethlmac_timer := None\<rparr>) = Some s' \<Longrightarrow>
    iot_step e create_frame parse_frame s s'"
| send_fires: "send_sethlmac_timer s \<noteq> None \<Longrightarrow>
    iot_step e create_frame parse_frame s (iotorii_handle_send_message_timer e (s\<lparr>send_sethlmac_timer := None\<rparr>))"
| statistic_fires: "statistic_timer s \<noteq> None \<Longrightarrow>
    iot_step e create_frame parse_frame s (iotorii_handle_statistic_timer e (s\<lparr>statistic_timer := None\<rparr>))"
| transmission: "n \<in> set (neighbour_list (mac s)) \<Longrightarrow> nq_timer (mac s) n \<noteq> None \<Longrightarrow>
    iot_step e create_frame parse_frame s
      (s\<lparr>mac := transmit_from_queue (opts e) (linkaddr_node_addr e) create_frame ra n (timer_fired n (mac s))\<rparr>)"
| frame: "received_frame pb \<Longrightarrow>
    input_packet e parse_frame now (s\<lparr>mac := (mac s)\<lparr>pktbuf := pb\<rparr>\<rparr>) = Some s' \<Longrightarrow>
    iot_step e create_frame parse_frame s s'"

definition iot_boot :: "env \<Rightarrow> iot \<Rightarrow> bool" where
  "iot_boot e s \<longleftrightarrow> csma_boot (mac s) \<and> pb_room (pktbuf (mac s)) \<and> heap_wf (mem s) \<and>
     entries (table s) = [] \<and> \<not> null_deref (table s) \<and> neighbours s = [] \<and> payloads s = []"

inductive iot_reachable ::
  "env \<Rightarrow> (packetbuf \<Rightarrow> int \<times> packetbuf) \<Rightarrow> (packetbuf \<Rightarrow> int \<times> packetbuf) \<Rightarrow> iot \<Rightarrow> bool"
  for e :: env and create_frame parse_frame :: "packetbuf \<Rightarrow> int \<times> packetbuf" where
  booted: "iot_boot e s \<Longrightarrow> iot_reachable e create_frame parse_frame (iotorii_init e s)"
| stepped: "iot_reachable e create_frame parse_frame s \<Longrightarrow> iot_step e create_frame parse_frame s s' \<Longrightarrow>
    iot_reachable e create_frame parse_frame s'"

lemma init_inv:
  assumes "iot_boot e s"
  shows "node_inv e (iotorii_init e s)"
proof -
  have "csma_wf (csma_output_init (mac s))" using assms by (simp add: iot_boot_def csma_output_init_wf)
  then show ?thesis using assms
    by (simp add: iotorii_init_def iot_boot_def node_inv_def nb_ok_def pay_ok_def next_rand_def case_prod_beta Let_def
        hlmac_table_init_def table_wf_def csma_output_init_def)
qed

lemma input_packet_inv [step_inv]:
  assumes "node_inv e s" "env_ok e" "parser_ok pf" "received_frame (pktbuf (mac s))" "input_packet e pf now s = Some s'"
  shows "node_inv e s'"
proof -
  obtain r pb where p: "pf (pktbuf (mac s)) = (r, pb)" by fastforce
  have "pb_wf pb" "pb_room pb" using assms(3,4) p by (auto simp: parser_ok_def received_frame_def)
  then have i: "node_inv e (s\<lparr>mac := (mac s)\<lparr>pktbuf := pb\<rparr>\<rparr>)"
    using assms(1) by (intro node_inv_mac csma_wf_pktbuf) (simp_all add: node_inv_def)
  then have j: "node_inv e (s\<lparr>mac := (mac s)\<lparr>pktbuf := pb\<rparr>, seqnos := q\<rparr>)" for q by simp
  show ?thesis using assms(1,5) p i
    by (auto simp: input_packet_def Let_def split: if_splits intro: operation_inv [OF j assms(2)])
qed

text \<open>
  The handler of the send timer sets the timer again whenever a message is left, so the
  invariant holds although the timer was cleared before it ran.
\<close>

lemma prepare_timer: "prepare_packet e d n a (s\<lparr>send_sethlmac_timer := t\<rparr>) =
    (prepare_packet e d n a s)\<lparr>send_sethlmac_timer := t\<rparr>"
  by (simp add: prepare_packet_eq)

lemma arm_next_timer:
  "arm_next e p (s\<lparr>send_sethlmac_timer := t\<rparr>) = arm_next e p s \<or>
   (payloads (arm_next e p s) = [] \<and> arm_next e p (s\<lparr>send_sethlmac_timer := t\<rparr>) = (arm_next e p s)\<lparr>send_sethlmac_timer := t\<rparr>)"
proof -
  obtain r s' where n: "next_rand s = (r, s')" by fastforce
  then have n': "next_rand (s\<lparr>send_sethlmac_timer := t\<rparr>) = (r, s'\<lparr>send_sethlmac_timer := t\<rparr>)"
    by (auto simp: next_rand_def case_prod_beta)
  show ?thesis unfolding arm_next_def Let_def n n' case_prod_conv
    by (cases "hlmac_cast (opts e) = 1"; cases "payloads s = []"; cases "transmission_delay (mac s) = 1000") simp_all
qed

lemma send_message_timer_commute:
  "iotorii_handle_send_message_timer e (s\<lparr>send_sethlmac_timer := t\<rparr>) = iotorii_handle_send_message_timer e s \<or>
   (payloads (iotorii_handle_send_message_timer e s) = [] \<and>
    iotorii_handle_send_message_timer e (s\<lparr>send_sethlmac_timer := t\<rparr>) =
      (iotorii_handle_send_message_timer e s)\<lparr>send_sethlmac_timer := t\<rparr>)"
proof (cases "payloads s")
  case Nil
  then show ?thesis by (simp add: iotorii_handle_send_message_timer_def)
next
  case (Cons p ps)
  let ?q = "s\<lparr>payloads := ps, mac := (mac s)\<lparr>transmission_delay := 1000\<rparr>\<rparr>"
  have "s\<lparr>send_sethlmac_timer := t, payloads := ps, mac := (mac s)\<lparr>transmission_delay := 1000\<rparr>\<rparr> =
      ?q\<lparr>send_sethlmac_timer := t\<rparr>" by simp
  moreover have "payloads (s\<lparr>send_sethlmac_timer := t\<rparr>) = p # ps" "mac (s\<lparr>send_sethlmac_timer := t\<rparr>) = mac s"
    using Cons by simp_all
  ultimately show ?thesis unfolding iotorii_handle_send_message_timer_def
    using Cons arm_next_timer [where e = e and p = p and t = t] by (simp only: list.case Let_def prepare_timer)
qed

lemma node_inv_idle: "node_inv e s \<Longrightarrow> payloads s = [] \<Longrightarrow> node_inv e (s\<lparr>send_sethlmac_timer := t\<rparr>)"
  by (auto simp: node_inv_def nb_ok_def pay_ok_def)

lemma send_message_fired_inv:
  "node_inv e s \<Longrightarrow> node_inv e (iotorii_handle_send_message_timer e (s\<lparr>send_sethlmac_timer := t\<rparr>))"
  using send_message_timer_commute [where e = e and s = s and t = t] send_message_inv [of e s] node_inv_idle by metis

lemma iot_step_inv:
  assumes "iot_step e cf pf s s'" "node_inv e s" "env_ok e" "framer_room cf" "parser_ok pf"
  shows "node_inv e s'"
  using assms(1)
proof cases
  case (sethlmac_fires now)
  have "node_inv e (s\<lparr>sethlmac_timer := None\<rparr>)" using assms(2) by simp
  from sethlmac_timer_inv [OF this assms(3) sethlmac_fires(2)] show ?thesis .
next
  case (transmission n ra)
  have w: "csma_wf (mac s)" "framer_ok cf" using assms(2,4) by (auto simp: node_inv_def framer_room_def)
  show ?thesis unfolding transmission(1)
    by (intro node_inv_mac assms(2) transmit_from_queue_wf [OF timer_fired_wf [OF w(1) transmission(2)] w(2)]
        transmit_room [OF w(1) transmission(2) assms(4)])
next
  case (frame pb now)
  let ?s = "s\<lparr>mac := (mac s)\<lparr>pktbuf := pb\<rparr>\<rparr>"
  have "pb_wf pb" "pb_room pb" using frame(1) by (auto simp: received_frame_def pb_room_def PACKETBUF_SIZE_def)
  then have "node_inv e ?s" using assms(2) by (intro node_inv_mac csma_wf_pktbuf) (simp_all add: node_inv_def)
  from input_packet_inv [OF this assms(3,5) _ frame(2)] frame(1) show ?thesis by simp
qed (use assms(2) send_message_fired_inv hello_timer_inv statistic_timer_inv in auto)

theorem iot_reachable_inv:
  assumes "iot_reachable e cf pf s" "env_ok e" "framer_room cf" "parser_ok pf"
  shows "node_inv e s"
  using assms(1)
proof induction
  case (booted s)
  then show ?case by (rule init_inv)
next
  case (stepped s s')
  then show ?case using iot_step_inv assms(2-4) by blast
qed

end
