(* ===== verification/Iotorii_Labels.thy ===== *)
theory Iotorii_Labels imports Iotorii_Invariant "HOL-Library.Multiset" begin

text \<open>
  How labels travel: the removal of silent neighbours on the linked list itself, the random
  order of the neighbours in a SetHLMAC message, what fits into a message, and what a node
  holds after it accepted an address.
\<close>

section \<open>Removing silent neighbours\<close>

text \<open>
  The loop of \<open>iotorii_check_neighbours_hello\<close> on the list as the code has it; \<open>old\<close> tells
  which entries are stale.
\<close>

partial_function (option) hello_walk ::
  "(ptr \<Rightarrow> bool) \<Rightarrow> ptr \<Rightarrow> int \<Rightarrow> list_state \<Rightarrow> (int \<times> list_state) option" where
  "hello_walk old nb n s =
     (if nb \<noteq> NULL then
        if old nb then
          Option.bind (list_remove nb s) (\<lambda>s. hello_walk old (nxt s nb) (n - 1) s)
        else hello_walk old (nxt s nb) n s
      else Some (n, s))"

lemma remove1_first: "\<not> (\<exists>x \<in> set us. old x) \<Longrightarrow> old v \<Longrightarrow> remove_first old (us @ v # vs) = us @ vs"
  by (induction us) auto

lemma remove_first_none: "\<not> (\<exists>x \<in> set us. old x) \<Longrightarrow> remove_first old us = us"
  by (induction us) auto

lemma hello_walk_repr:
  assumes "list_repr s (us @ vs)" "lpath (nxt s) p vs" "\<not> (\<exists>x \<in> set us. old x)"
  shows "\<exists>s'. hello_walk old p n s = Some (if \<exists>x \<in> set vs. old x then n - 1 else n, s') \<and>
    list_repr s' (remove_first old (us @ vs))"
  using assms
proof (induction vs arbitrary: us p)
  case Nil
  then show ?case by (subst hello_walk.simps) (simp add: remove_first_none)
next
  case (Cons v vs)
  then have p: "p = v" "v \<noteq> NULL" "lpath (nxt s) (nxt s v) vs" by auto
  show ?case
  proof (cases "old v")
    case True
    obtain s' where s': "list_remove v s = Some s'" "list_repr s' (alist_remove v (us @ v # vs))" "nxt s' v = NULL"
      using list_remove_repr [OF Cons.prems(1), of v] by auto
    have "v \<notin> set us" using Cons.prems(3) True by blast
    then have "alist_remove v (us @ v # vs) = remove_first old (us @ v # vs)"
      using remove1_first [OF Cons.prems(3) True] by (simp add: alist_defs remove1_append)
    moreover have "hello_walk old v n s = Some (n - 1, s')"
      using True p s' by (subst hello_walk.simps) (simp add: hello_walk.simps [of old NULL])
    ultimately show ?thesis using s' p True by auto
  next
    case False
    with Cons.IH [of "us @ [v]" "nxt s v"] Cons.prems p show ?thesis
      by (subst hello_walk.simps) auto
  qed
qed

theorem hello_walk_removes_one:
  assumes "list_repr s xs"
  shows "\<exists>s'. hello_walk old (head s) n s = Some (if \<exists>x \<in> set xs. old x then n - 1 else n, s') \<and>
    list_repr s' (remove_first old xs)"
  using hello_walk_repr [of s "[]" xs "head s" old n] assms by (simp add: list_repr_def)

section \<open>The random order\<close>

definition wanted :: "linkaddr \<Rightarrow> neighbour_table_entry list \<Rightarrow> neighbour_table_entry list" where
  "wanted sender nbs = filter (\<lambda>nb. nb_addr nb \<noteq> sender) nbs"

lemma wanted_simps [simp]:
  "wanted sender [] = []"
  "wanted sender (nb # nbs) = (if nb_addr nb \<noteq> sender then nb # wanted sender nbs else wanted sender nbs)"
  by (simp_all add: wanted_def)

lemma probe_free:
  assumes "probe slots g = Some (i, g')" "slots \<noteq> []"
  shows "i < length slots \<and> slots ! i = None \<and> rand_src g' = rand_src g"
proof -
  have "slots \<noteq> [] \<longrightarrow> fst (i, g') < length slots \<and> slots ! fst (i, g') = None \<and> rand_src (snd (i, g')) = rand_src g"
    by (rule probe.raw_induct [OF _ assms(1), where P = "\<lambda>slots g r. slots \<noteq> [] \<longrightarrow>
        fst r < length slots \<and> slots ! fst r = None \<and> rand_src (snd r) = rand_src g"])
      (auto simp: Let_def case_prod_beta random_rand_def split: if_splits)
  then show ?thesis using assms(2) by simp
qed

lemma mset_replace: "i < length xs \<Longrightarrow> add_mset (xs ! i) (mset (xs[i := y])) = add_mset y (mset xs)"
  by (simp add: mset_update)

lemma trade: "A + R = B + M \<Longrightarrow> add_mset x B = add_mset y C \<Longrightarrow> A + add_mset x R = C + add_mset y M"
  by (metis union_mset_add_mset_left union_mset_add_mset_right)

text \<open>Each neighbour but the sender takes the place of one free slot.\<close>

lemma fill_slots_mset:
  assumes "fill_slots sender nbs slots g = Some (slots', g')" "slots \<noteq> []"
  shows "mset slots' + replicate_mset (length (wanted sender nbs)) None =
      mset slots + mset (map Some (wanted sender nbs)) \<and> length slots' = length slots \<and> rand_src g' = rand_src g"
  using assms
proof (induction nbs arbitrary: slots g)
  case (Cons nb nbs)
  show ?case
  proof (cases "nb_addr nb = sender")
    case False
    then obtain i h where i: "probe slots g = Some (i, h)" "fill_slots sender nbs (slots[i := Some nb]) h = Some (slots', g')"
      using Cons.prems by (auto split: bind_splits)
    have p: "i < length slots" "slots ! i = None" "rand_src h = rand_src g" using probe_free [OF i(1) Cons.prems(2)] by auto
    from Cons.IH [OF i(2)] have "mset slots' + replicate_mset (length (wanted sender nbs)) None =
      mset (slots[i := Some nb]) + mset (map Some (wanted sender nbs)) \<and> length slots' = length slots \<and> rand_src g' = rand_src g"
      using Cons.prems(2) p(3) by simp
    moreover have "add_mset None (mset (slots[i := Some nb])) = add_mset (Some nb) (mset slots)"
      using mset_replace [OF p(1), of "Some nb"] p(2) by simp
    ultimately show ?thesis using False
      trade [of "mset slots'" _ "mset (slots[i := Some nb])" _ None "Some nb" "mset slots"] by simp
  qed (use Cons in simp)
qed simp

theorem fill_slots_permutes:
  assumes "fill_slots sender nbs (replicate n None) g = Some (slots, g')" "n = length (wanted sender nbs)" "n \<noteq> 0"
  shows "mset slots = mset (map Some (wanted sender nbs))" "rand_src g' = rand_src g"
  using fill_slots_mset [OF assms(1)] assms(2,3) by auto

text \<open>
  A generator that keeps hitting every residue: then a free place is always found, and sending
  SetHLMAC ends.
\<close>

definition hits :: "rng \<Rightarrow> bool" where
  "hits g \<longleftrightarrow> (\<forall>n \<in> {1..255}. \<forall>i < n. \<forall>k. \<exists>j \<ge> k. unat (rand_src g j) mod n = i)"

lemma probe_total:
  assumes "unat (rand_src g j) mod length slots = i" "slots ! i = None" "rand_pos g \<le> j"
  shows "\<exists>r. probe slots g = Some r"
  using assms
proof (induction "j - rand_pos g" arbitrary: g)
  case 0
  then show ?case by (subst probe.simps) (simp add: random_rand_def)
next
  case (Suc d)
  show ?case
  proof (cases "slots ! (unat (rand_src g (rand_pos g)) mod length slots) = None")
    case False
    with Suc.hyps(1) [of "snd (random_rand g)"] Suc.prems Suc.hyps(2) show ?thesis
      by (subst probe.simps) (simp add: random_rand_def)
  qed (subst probe.simps, simp add: random_rand_def)
qed

lemma probe_ends:
  assumes "hits g" "length slots \<le> 255" "None \<in> set slots"
  shows "\<exists>r. probe slots g = Some r"
proof -
  obtain i where i: "i < length slots" "slots ! i = None" using assms(3) by (auto simp: in_set_conv_nth)
  moreover have "length slots \<in> {1..255}" using i(1) assms(2) by simp
  ultimately obtain j where "j \<ge> rand_pos g" "unat (rand_src g j) mod length slots = i"
    using assms(1) unfolding hits_def by blast
  with i(2) show ?thesis by (metis probe_total)
qed

lemma fill_slots_ends:
  assumes "hits g" "length slots \<le> 255" "length (wanted sender nbs) \<le> count (mset slots) None"
  shows "\<exists>r. fill_slots sender nbs slots g = Some r"
  using assms
proof (induction nbs arbitrary: slots g)
  case (Cons nb nbs)
  show ?case
  proof (cases "nb_addr nb = sender")
    case False
    then have "None \<in> set slots" using Cons.prems(3) by (auto simp flip: count_greater_zero_iff set_mset_mset)
    then obtain i h where i: "probe slots g = Some (i, h)"
      using probe_ends [OF Cons.prems(1,2)] by auto
    have p: "i < length slots" "slots ! i = None" "rand_src h = rand_src g"
      using probe_free [OF i] \<open>None \<in> set slots\<close> by (cases slots; auto)+
    have "count (mset (slots[i := Some nb])) None = count (mset slots) None - 1"
      using p by (simp add: mset_update)
    then have "length (wanted sender nbs) \<le> count (mset (slots[i := Some nb])) None"
      using Cons.prems(3) False by simp
    moreover have "hits h" using Cons.prems(1) p(3) by (simp add: hits_def)
    ultimately have "\<exists>r. fill_slots sender nbs (slots[i := Some nb]) h = Some r"
      using Cons.IH [of h "slots[i := Some nb]"] Cons.prems(2) by simp
    then show ?thesis using i False by simp
  qed (use Cons in simp)
qed simp

lemma wanted_length:
  assumes "distinct (map nb_addr nbs)"
  shows "length (wanted sender nbs) = (if sender \<in> nb_addr ` set nbs then length nbs - 1 else length nbs)"
  using assms
proof (induction nbs)
  case (Cons nb nbs)
  then show ?case by (cases nbs) auto
qed simp

lemma neighbours_new_wanted:
  assumes "nb_ok s"
  shows "neighbours_new sender s = of_nat (length (wanted sender (neighbours s)))"
    "length (wanted sender (neighbours s)) \<le> 256"
proof -
  have n: "number_of_neighbours s = int (length (neighbours s))" "length (neighbours s) \<le> 256"
    using assms by (auto simp: nb_ok_def)
  have w: "length (wanted sender (neighbours s)) = (if sender \<in> nb_addr ` set (neighbours s)
      then length (neighbours s) - 1 else length (neighbours s))"
    using assms by (intro wanted_length) (simp add: nb_ok_def)
  show "length (wanted sender (neighbours s)) \<le> 256" unfolding w using n(2) by (cases "sender \<in> nb_addr ` set (neighbours s)") simp_all
  show "neighbours_new sender s = of_nat (length (wanted sender (neighbours s)))"
    using n(1) w by (cases "neighbours s") (auto simp: neighbours_new_def image_iff)
qed

lemma send_sethlmac_ends:
  assumes "nb_ok s" "hits (rand (mac s))"
  shows "\<exists>s'. iotorii_send_sethlmac e now a sender ts s = Some s'"
proof (cases "neighbours_new sender s > 0")
  case True
  let ?w = "length (wanted sender (neighbours s))" and ?n = "neighbours_new sender s"
  have "?w \<noteq> 256" using True neighbours_new_wanted(1) [OF assms(1), of sender] by auto
  then have "?w < 256" using neighbours_new_wanted(2) [OF assms(1), of sender] by simp
  then have "unat ?n = ?w" using neighbours_new_wanted(1) [OF assms(1), of sender] by (simp add: unat_of_nat)
  then obtain slots g where "fill_slots sender (neighbours s) (replicate (unat ?n) None) (rand (mac s)) = Some (slots, g)"
    using fill_slots_ends [OF assms(2), of "replicate (unat ?n) None" sender "neighbours s"] \<open>?w < 256\<close> by auto
  then show ?thesis using True by (simp add: iotorii_send_sethlmac_def Let_def)
qed (simp add: iotorii_send_sethlmac_def Let_def)

text \<open>Starting a round changes neither the addresses of the neighbours nor the generator.\<close>

lemma start_round_fields [simp]:
  "mac (start_round e ts s) = mac s" "number_of_neighbours (start_round e ts s) = number_of_neighbours s"
  "map nb_addr (neighbours (start_round e ts s)) = map nb_addr (neighbours s)"
  "table (start_round e ts s) = table s"
  by (simp_all add: start_round_def Let_def iotorii_neighbours_flag_def clear_nodes_def comp_def)

lemma accept_check_fields:
  assumes "accept_check a ts s = (ok, s')"
  shows "\<exists>h. s' = s\<lparr>mem := h\<rparr>" "ok \<longleftrightarrow> ts > last_timestamp s \<or>
    (ts = last_timestamp s \<and> fst (hlmactable_has_loop a (table s) (mem s)) = 0)"
proof -
  show "\<exists>h. s' = s\<lparr>mem := h\<rparr>"
  proof (cases "ts > last_timestamp s")
    case True
    then show ?thesis using assms by (auto simp: accept_check_def intro: exI [of _ "mem s"])
  qed (use assms in \<open>auto simp: accept_check_def Let_def case_prod_beta\<close>)
  show "ok \<longleftrightarrow> ts > last_timestamp s \<or> (ts = last_timestamp s \<and> fst (hlmactable_has_loop a (table s) (mem s)) = 0)"
    using assms by (auto simp: accept_check_def Let_def case_prod_beta split: if_splits)
qed

lemma nb_ok_cong:
  assumes "map nb_addr (neighbours s') = map nb_addr (neighbours s)" "number_of_neighbours s' = number_of_neighbours s"
  shows "nb_ok s' = nb_ok s"
  using assms map_eq_imp_length_eq [OF assms(1)] by (simp add: nb_ok_def)

lemma handle_sethlmac_ends:
  assumes "nb_ok s" "hits (rand (mac s))"
  shows "\<exists>s'. handle_sethlmac e now sender a ts s = Some s'"
proof -
  obtain ok s1 where c: "accept_check a ts s = (ok, s1)" by fastforce
  then obtain h where s1: "s1 = s\<lparr>mem := h\<rparr>" using accept_check_fields(1) by blast
  obtain added t where t: "hlmactable_add (hlmac_max (opts e)) a (ucast ts) (table s1) = (added, t)" by fastforce
  let ?s = "start_round e ts (s1\<lparr>table := t\<rparr>)"
  have "nb_ok ?s" using assms(1) s1 by (subst nb_ok_cong [of _ s]) simp_all
  moreover have "hits (rand (mac ?s))" using assms(2) s1 by simp
  ultimately obtain s2 where "iotorii_send_sethlmac e now a sender ts ?s = Some s2"
    using send_sethlmac_ends by blast
  then show ?thesis using c t by (simp add: handle_sethlmac_def Let_def)
qed

lemma operation_ends:
  assumes "nb_ok s" "hits (rand (mac s))"
  shows "\<exists>s'. iotorii_operation e now s = Some s'"
proof -
  obtain a h where x: "iotorii_extract_address (linkaddr_node_addr e) (pktbuf (mac s)) (mem s) = (a, h)" by fastforce
  obtain ts h' where y: "iotorii_extract_timestamp (pktbuf (mac s)) h = (ts, h')" by fastforce
  have "nb_ok (s\<lparr>mem := h'\<rparr>)" "hits (rand (mac (s\<lparr>mem := h'\<rparr>)))" using assms by simp_all
  from handle_sethlmac_ends [OF this] show ?thesis
    using x y by (simp add: iotorii_operation_def iotorii_handle_incoming_sethlmac_or_load_def Let_def)
qed

lemma input_packet_ends:
  assumes "nb_ok s" "hits (rand (mac s))"
  shows "\<exists>s'. input_packet e pf now s = Some s'"
proof -
  obtain r pb where p: "pf (pktbuf (mac s)) = (r, pb)" by fastforce
  let ?s = "s\<lparr>mac := (mac s)\<lparr>pktbuf := pb\<rparr>, seqnos := mac_sequence_register_seqno pb now (seqnos s)\<rparr>"
  have "nb_ok ?s" by (subst nb_ok_cong [of _ s]) (simp_all add: assms(1))
  moreover have "hits (rand (mac ?s))" using assms(2) by simp
  ultimately obtain s' where "iotorii_operation e now ?s = Some s'" using operation_ends by blast
  then show ?thesis using p by (simp add: input_packet_def Let_def)
qed

lemma sethlmac_timer_ends:
  assumes "nb_ok s" "hits (rand (mac s))"
  shows "\<exists>s'. iotorii_handle_sethlmac_timer e now s = Some s'"
proof -
  let ?ts = "root_timestamp s + 1"
  obtain a h where c: "hlmac_create_root_addr 1 (mem s) = (a, h)" by fastforce
  obtain added t where t: "hlmactable_add (hlmac_max (opts e)) a (ucast ?ts) (table s) = (added, t)" by fastforce
  let ?s = "s\<lparr>root_timestamp := ?ts, has_converged := 0, mem := h, table := t\<rparr>"
  have "nb_ok ?s" by (subst nb_ok_cong [of _ s]) (simp_all add: assms(1))
  moreover have "hits (rand (mac ?s))" using assms(2) by simp
  ultimately obtain s' where "iotorii_send_sethlmac e now a (linkaddr_node_addr e) ?ts ?s = Some s'"
    using send_sethlmac_ends by blast
  then show ?thesis using c t by (simp add: iotorii_handle_sethlmac_timer_def Let_def)
qed

section \<open>What fits into a broadcast message\<close>

text \<open>The number of pairs: what the limit leaves, but at least one.\<close>

definition pairs_count :: "int \<Rightarrow> int \<Rightarrow> nat \<Rightarrow> nat" where
  "pairs_count m counter n = min n (max 1 (nat ((m - counter) div 9)))"

lemma pairs_loop_count:
  assumes "nbs \<noteq> []"
  shows "pairs_loop m counter False (map Some nbs) =
    (map (\<lambda>nb. (number_id nb, nb_addr nb)) (take (pairs_count m counter (length nbs)) nbs), False)"
  using assms
proof (induction nbs arbitrary: counter)
  case (Cons nb nbs)
  let ?c = "counter + 9"
  have step: "pairs_loop m counter False (map Some (nb # nbs)) =
      (let (es, bad) = (if m \<ge> ?c + 9 \<and> nbs \<noteq> [] then pairs_loop m ?c False (map Some nbs) else ([], False))
       in ((number_id nb, nb_addr nb) # es, bad))"
    by (simp add: LINKADDR_SIZE_def Let_def add.commute)
  show ?case
  proof (cases "m \<ge> ?c + 9 \<and> nbs \<noteq> []")
    case True
    have d: "(m - counter) div 9 = 1 + (m - ?c) div 9"
      using div_add_self2 [of 9 "m - ?c"] by (simp add: algebra_simps)
    have "1 \<le> (m - ?c) div 9" using True by (simp add: pos_imp_zdiv_pos_iff zdiv_mono1 [of 9 _ 9, simplified])
    then have "pairs_count m counter (length (nb # nbs)) = Suc (pairs_count m ?c (length nbs))"
      using d by (auto simp: pairs_count_def min_def max_def nat_add_distrib)
    then show ?thesis using step Cons.IH [of ?c] True by (simp add: Let_def)
  next
    case False
    have "pairs_count m counter (length (nb # nbs)) = 1"
    proof (cases "nbs = []")
      case False
      with \<open>\<not> (m \<ge> ?c + 9 \<and> nbs \<noteq> [])\<close> have "m - counter < 18" by simp
      then have "(m - counter) div 9 \<le> 1" by linarith
      then have "nat ((m - counter) div 9) \<le> 1" by simp
      then have "max 1 (nat ((m - counter) div 9)) = 1" by (simp add: max_def)
      then show ?thesis by (simp add: pairs_count_def)
    qed (simp add: pairs_count_def)
    then show ?thesis using step False by (simp add: Let_def)
  qed
qed simp

lemma assigned_pairs:
  "assigned (map (\<lambda>nb. (number_id nb, nb_addr nb)) nbs) a = map_option number_id (find (\<lambda>nb. nb_addr nb = a) nbs)"
  by (induction nbs) (auto simp: eq_commute)

section \<open>What sending does to the heap\<close>

definition same_store :: "heap \<Rightarrow> heap \<Rightarrow> bool" where
  "same_store h h' \<longleftrightarrow> blocks h' = blocks h \<and> brk h' = brk h \<and> (ub h \<longrightarrow> ub h')"

lemma same_store_refl [simp]: "same_store h h"
  by (simp add: same_store_def)

lemma same_store_trans: "same_store h h1 \<Longrightarrow> same_store h1 h2 \<Longrightarrow> same_store h h2"
  by (simp add: same_store_def)

lemma same_store_load [simp]: "same_store h (snd (load p i h))"
  by (simp add: same_store_def load_def split: option.split)

lemma same_store_load_bytes [simp]: "same_store h (snd (load_bytes p off n h))"
proof (induction n arbitrary: off h)
  case (Suc n)
  then show ?case
    by (simp add: Let_def case_prod_beta) (rule same_store_trans [OF same_store_load])
qed simp

lemma same_store_index [simp]: "same_store h (snd (get_addr_index_value a k h))"
  by (simp add: get_addr_index_value_def)

lemma same_store_to_str [simp]: "same_store (fst hb) (fst (to_str_loop sc a n hb))"
proof (induction sc a n hb rule: to_str_loop.induct)
  case (2 sc a n h b)
  then show ?case using same_store_trans by (simp add: Let_def case_prod_beta)
qed simp

lemma same_store_strings [simp]: "same_store h (snd (snd (node_strings sc a h)))"
proof -
  have "same_store h (h1\<lparr>ub := True\<rparr>)" if "same_store h h1" for h1 using that by (simp add: same_store_def)
  then show ?thesis
    using same_store_to_str [of "(h, _)"] by (simp add: node_strings_def hlmac_addr_to_str_def Let_def case_prod_beta)
qed

text \<open>
  What every sending step keeps: the heap's blocks, the table, the round and the neighbours'
  addresses.
\<close>

definition kept :: "iot \<Rightarrow> iot \<Rightarrow> bool" where
  "kept s s' \<longleftrightarrow> same_store (mem s) (mem s') \<and> table s' = table s \<and> last_timestamp s' = last_timestamp s \<and>
     map nb_addr (neighbours s') = map nb_addr (neighbours s)"

lemma kept_refl [simp]: "kept s s"
  by (simp add: kept_def)

lemma kept_trans: "kept s s1 \<Longrightarrow> kept s1 s2 \<Longrightarrow> kept s s2"
  by (auto simp: kept_def intro: same_store_trans)

lemma kept_frame [simp]:
  "kept s0 (s\<lparr>bad_access := b\<rparr>) = kept s0 s" "kept s0 (s\<lparr>mac := m\<rparr>) = kept s0 s"
  "kept s0 (s\<lparr>nodes := ns\<rparr>) = kept s0 s" "kept s0 (s\<lparr>edge := b\<rparr>) = kept s0 s"
  "kept s0 (s\<lparr>sent_load := b\<rparr>) = kept s0 s" "kept s0 (s\<lparr>sent_share := b\<rparr>) = kept s0 s"
  "kept s0 (s\<lparr>statistic_timer := tm\<rparr>) = kept s0 s" "kept s0 (s\<lparr>fresh_ref := k\<rparr>) = kept s0 s"
  "kept s0 (s\<lparr>payloads := ps\<rparr>) = kept s0 s" "kept s0 (s\<lparr>send_sethlmac_timer := tm\<rparr>) = kept s0 s"
  "kept s0 (s\<lparr>extra_load := x\<rparr>) = kept s0 s" "kept s0 (s\<lparr>neighbours := map (mark_in_out x) (neighbours s)\<rparr>) = kept s0 s"
  by (simp_all add: kept_def)

lemma list_this_node_kept: "kept s (list_this_node_entry e chain a s)"
proof -
  obtain sa st h where n: "node_strings (char_signed e) a (mem s) = (sa, st, h)" by (metis prod_cases3)
  have "same_store (mem s) h" using same_store_strings [of "mem s" "char_signed e" a] n by simp
  then have "kept s (s\<lparr>mem := h\<rparr>)" by (simp add: kept_def)
  then show ?thesis using n
    by (auto simp: list_this_node_entry_def next_rand_def case_prod_beta intro!: foldl_inv [where P = "kept s"])
qed

lemma queue_payload_kept: "kept s0 s \<Longrightarrow> kept s0 (queue_payload e now data d s)"
  by (simp add: queue_payload_def Let_def next_rand_def case_prod_beta kept_def)

lemma queue_payload_mem [simp]: "mem (queue_payload e now data d s) = mem s"
  by (simp add: queue_payload_def Let_def next_rand_def case_prod_beta)

lemma note_overflow_kept: "kept s0 s \<Longrightarrow> kept s0 (note_overflow m d s)"
  by (simp add: note_overflow_def kept_def same_store_def)

lemma kept_mem: "kept s0 s \<Longrightarrow> same_store (mem s) h \<Longrightarrow> kept s0 (s\<lparr>mem := h\<rparr>)"
  by (auto simp: kept_def intro: same_store_trans)

lemma message_kept:
  assumes "kept s0 s" "load_bytes p off n (mem s) = (ids, h)"
  shows "kept s0 (queue_payload e now d x (note_overflow m d' (s\<lparr>mem := h\<rparr>)))"
  using kept_mem [OF assms(1), of h] same_store_load_bytes [of "mem s" p off n] assms(2)
  by (simp add: queue_payload_kept note_overflow_kept)

lemma send_broadcast_kept: "kept s0 s \<Longrightarrow> kept s0 (send_broadcast e now a ts slots s)"
proof -
  assume k: "kept s0 s"
  obtain ids h where l: "load_bytes (address a) 0 (unat (len a)) (mem s) = (ids, h)" by fastforce
  then have "kept s0 (s\<lparr>mem := h\<rparr>)" using kept_mem [OF k] by (metis same_store_load_bytes snd_conv)
  then have "kept s0 (s\<lparr>mem := h, bad_access := b\<rparr>)" for b by simp
  then show ?thesis using l
    by (auto simp: send_broadcast_def Let_def case_prod_beta
        intro!: kept_trans [OF _ list_this_node_kept] queue_payload_kept note_overflow_kept)
qed

lemma send_unicast_kept: "kept s0 s \<Longrightarrow> kept s0 (send_unicast e now a ts w first slots s)"
proof (induction slots arbitrary: s first)
  case (Cons x slots)
  show ?case
  proof (cases x)
    case (Some nb)
    obtain ids h where l: "load_bytes (address a) 0 (unat (len a)) (mem s) = (ids, h)" by fastforce
    note q = message_kept [OF Cons.prems l]
    show ?thesis using l Some q kept_trans [OF q list_this_node_kept] Cons.IH by (simp add: Let_def)
  qed (use Cons.prems in \<open>simp add: kept_def\<close>)
qed (simp add: kept_def)

lemma send_sethlmac_kept:
  assumes "iotorii_send_sethlmac e now a sender ts s = Some s'"
  shows "kept s s'"
proof -
  have k: "kept s (s\<lparr>mac := m\<rparr>)" for m by (simp add: kept_def)
  have t: "kept s s1 \<Longrightarrow> kept s (s1\<lparr>statistic_timer := x\<rparr>)" for s1 x by (simp add: kept_def)
  show ?thesis using assms k
    by (auto simp: iotorii_send_sethlmac_def Let_def list_this_node_kept send_broadcast_kept send_unicast_kept t
        split: if_splits bind_splits prod.splits)
qed

lemma kept_prepare: "kept s0 s \<Longrightarrow> kept s0 (prepare_packet e d n a s)"
  by (simp add: kept_def prepare_packet_eq)

lemma kept_to_parents: "kept s0 s \<Longrightarrow> kept s0 (send_to_parents e d nbs s)"
  by (induction nbs arbitrary: s) (simp_all add: kept_prepare)

lemma kept_queue: "kept s0 s \<Longrightarrow> kept s0 (queue_to_parents p nbs s)"
  by (induction p nbs s rule: queue_to_parents.induct) (simp_all add: Let_def kept_def)

lemma load_timer_kept: "kept s0 s \<Longrightarrow> kept s0 (iotorii_handle_load_timer e s)"
  using kept_queue [of s0 "s\<lparr>fresh_ref := Suc (fresh_ref s)\<rparr>"]
  by (auto simp: iotorii_handle_load_timer_def kept_to_parents split: list.split)

lemma share_timer_kept: "kept s0 s \<Longrightarrow> kept s0 (iotorii_handle_share_upstream_timer e s)"
proof -
  assume "kept s0 s"
  then have "kept s0 (s\<lparr>extra_load := x, nodes := ns, mac := m, neighbours := map (mark_in_out y) (neighbours s)\<rparr>)"
    "kept s0 (s\<lparr>extra_load := x, mac := m, neighbours := map (mark_in_out y) (neighbours s)\<rparr>)" for x ns m y
    by (simp_all add: kept_def)
  then show ?thesis using \<open>kept s0 s\<close>
    by (cases "nodes s"; cases "hlmac_cast (opts e) = 1")
      (auto simp: iotorii_handle_share_upstream_timer_def Let_def kept_to_parents, auto simp: kept_def)
qed

lemma become_edge_kept: "kept s0 s \<Longrightarrow> kept s0 (become_edge e s)"
proof -
  assume "kept s0 s"
  then have "kept s0 (s\<lparr>edge := True\<rparr>)" by (simp add: kept_def)
  then have "kept s0 (iotorii_handle_share_upstream_timer e (iotorii_handle_load_timer e (s\<lparr>edge := True\<rparr>)))"
    by (intro share_timer_kept load_timer_kept)
  then show ?thesis using \<open>kept s0 s\<close> by (simp add: become_edge_def Let_def)
qed

lemma report_if_done_kept: "kept s0 s \<Longrightarrow> kept s0 (report_if_done e s)"
proof -
  assume k: "kept s0 s"
  have flag: "kept s0 (s1\<lparr>sent_load := True\<rparr>)" "kept s0 (s1\<lparr>sent_share := True\<rparr>)" if "kept s0 s1" for s1
    using that by (simp_all add: kept_def)
  show ?thesis unfolding report_if_done_def Let_def using k
    by (auto intro!: flag share_timer_kept load_timer_kept)
qed

lemma one_child_less_kept: "kept s0 s \<Longrightarrow> kept s0 (one_child_less s)"
  by (simp add: one_child_less_def kept_def)

lemma note_convergence_kept: "kept s0 s \<Longrightarrow> kept s0 (note_convergence now s)"
  by (simp add: note_convergence_def kept_def)

section \<open>Accepting an address\<close>

text \<open>A node that has accepted an address keeps a table entry that points to freed memory.\<close>

lemma start_round_store:
  "same_store (mem s) (mem (start_round e ts s))"
proof -
  have "same_store h (free_str t h)" for t h by (simp add: free_str_def same_store_def split: c_str.split)
  then have "same_store h (foldr (\<lambda>n h. free_str (str_top_addr n) (free_str (str_addr n) h)) ns h)" for ns :: "this_node list" and h
    by (induction ns) (simp, metis (no_types, lifting) foldr_Cons comp_apply same_store_trans)
  then show ?thesis by (simp add: start_round_def Let_def clear_nodes_def iotorii_neighbours_flag_def)
qed

lemma start_round_timestamp:
  "last_timestamp s < ts \<Longrightarrow> last_timestamp (start_round e ts s) = ts"
  by (simp add: start_round_def Let_def clear_nodes_def iotorii_neighbours_flag_def)

lemma mark_parents_kept [simp]: "kept s0 (s\<lparr>neighbours := map (mark_parent a b) (neighbours s)\<rparr>) = kept s0 s"
  by (simp add: kept_def)

lemma kept_flag_count [simp]: "kept s0 (s\<lparr>number_of_neighbours_flag := k\<rparr>) = kept s0 s"
  by (simp add: kept_def)

lemma accepted_state:
  assumes "ts > last_timestamp s" "hlmactable_add (hlmac_max (opts e)) a (ucast ts) (table s) = (1, t)"
    and "handle_sethlmac e now sender a ts s = Some s'" "heap_wf (mem s)"
  shows "table s' = t" "last_timestamp s' = ts" "blocks (mem s') (address a) = None" "brk (mem s') = brk (mem s)"
    "ub (mem s) \<Longrightarrow> ub (mem s')"
proof -
  let ?s1 = "start_round e ts (s\<lparr>table := t\<rparr>)"
  obtain s2 where s2: "iotorii_send_sethlmac e now a sender ts ?s1 = Some s2"
    and s': "s' = (let s = (let s = free_received a s2;
        s = s\<lparr>neighbours := map (mark_parent sender True) (neighbours s)\<rparr>;
        s = s\<lparr>number_of_neighbours_flag := number_of_neighbours_flag s - 1\<rparr>
      in if hlmac_cast (opts e) = 0 then report_if_done e (become_edge e (one_child_less s)) else s)
      in if node_type (opts e) = 1 then note_convergence now s else s)"
    using assms by (auto simp: handle_sethlmac_def accept_check_def Let_def split: bind_splits)
  have "kept (free_received a s2) s'" unfolding s' Let_def
    by (auto intro!: note_convergence_kept report_if_done_kept become_edge_kept one_child_less_kept)
  moreover have "kept ?s1 s2" by (rule send_sethlmac_kept [OF s2])
  moreover have "same_store (mem s) (mem ?s1)" using start_round_store [of "s\<lparr>table := t\<rparr>"] by simp
  ultimately have k: "table s' = t" "last_timestamp s' = ts" "same_store (mem s) (mem s2)"
    "same_store (free (address a) (mem s2)) (mem s')"
    using start_round_timestamp [of "s\<lparr>table := t\<rparr>" ts e] assms(1)
    by (auto simp: kept_def free_received_def intro: same_store_trans)
  have f: "brk (free p h) = brk h" "ub h \<Longrightarrow> ub (free p h)" "blocks h NULL = None \<Longrightarrow> blocks (free p h) p = None" for p h
    by (auto simp: free_def split: option.split)
  have "blocks (mem s2) NULL = None" using k(3) assms(4) by (simp add: same_store_def heap_wf_def)
  then show "table s' = t" "last_timestamp s' = ts" "brk (mem s') = brk (mem s)" "ub (mem s) \<Longrightarrow> ub (mem s')"
    "blocks (mem s') (address a) = None"
    using k f by (auto simp: same_store_def)
qed

text \<open>The loop check of the next address of the round then reads the freed block.\<close>

lemma rejected_or_checked_ub:
  assumes "handle_sethlmac e now sender a ts s = Some s'" "ub (mem (snd (accept_check a ts s)))"
  shows "ub (mem s')"
proof -
  obtain ok s1 where c: "accept_check a ts s = (ok, s1)" by fastforce
  obtain added t where t: "hlmactable_add (hlmac_max (opts e)) a (ucast ts) (table s1) = (added, t)" by fastforce
  have u: "ub (mem s1)" using assms(2) c by simp
  have f: "ub (mem (free_received x s0))" if "ub (mem s0)" for x s0
    using that by (simp add: free_received_def)
  have k: "ub (mem s3)" if "kept s2 s3" "ub (mem s2)" for s2 s3
    using that by (simp add: kept_def same_store_def)
  have start: "ub (mem (start_round e ts (s1\<lparr>table := t\<rparr>)))"
    using start_round_store [of "s1\<lparr>table := t\<rparr>" e ts] u by (simp add: same_store_def)
  have sent: "ub (mem (free_received a s2))"
    if "iotorii_send_sethlmac e now a sender ts (start_round e ts (s1\<lparr>table := t\<rparr>)) = Some s2" for s2
    using f k [OF send_sethlmac_kept [OF that] start] by blast
  have tail: "kept s2 (report_if_done e (become_edge e (one_child_less s2)))"
    "kept s2 (report_if_done e (one_child_less s2))" "kept s2 (note_convergence now s2)" for s2
    by (intro report_if_done_kept become_edge_kept one_child_less_kept note_convergence_kept kept_refl)+
  have mark: "kept s2 (s2\<lparr>neighbours := map (mark_parent sender b) (neighbours s2), number_of_neighbours_flag := n\<rparr>)" for s2 b n
    by (simp add: kept_def)
  have after: "ub (mem s')" if "ub (mem s2)" "kept s2 s3" "s' = (if node_type (opts e) = 1 then note_convergence now s3 else s3)"
    for s2 s3 using that k kept_trans tail(3) by (metis (no_types))
  show ?thesis
  proof (cases ok)
    case False
    let ?s2 = "free_received a s1"
    let ?s3 = "if hlmac_cast (opts e) = 0 then report_if_done e (one_child_less ?s2) else ?s2"
    have "s' = (if node_type (opts e) = 1 then note_convergence now ?s3 else ?s3)"
      using assms(1) c False by (simp add: handle_sethlmac_def Let_def)
    then show ?thesis using after [OF f [OF u], of a ?s3] tail(2) by simp
  next
    case True
    obtain s2 where s2: "ub (mem s2)" and "s' = (let s = s2\<lparr>neighbours := map (mark_parent sender (added \<noteq> 0)) (neighbours s2),
          number_of_neighbours_flag := number_of_neighbours_flag s2 - 1\<rparr>;
        s = (if hlmac_cast (opts e) = 0 then report_if_done e (become_edge e (one_child_less s)) else s)
      in if node_type (opts e) = 1 then note_convergence now s else s)"
      using assms(1) c t True f [of "s1\<lparr>table := t\<rparr>"] u sent
      by (auto simp: handle_sethlmac_def Let_def split: bind_splits if_splits)
    moreover have "kept s2 (if hlmac_cast (opts e) = 0 then report_if_done e (become_edge e (one_child_less m)) else m)"
      if "kept s2 m" for m using that kept_trans [OF that tail(1)] by simp
    ultimately show ?thesis using after [OF s2 _] mark unfolding Let_def by blast
  qed
qed

lemma next_check_reads_freed:
  assumes "ts > last_timestamp s" "heap_wf (mem s)" "table_wf (hlmac_max (opts e)) (table s)"
    and "round_entries (ucast ts) (table s) = []" "hlmac_max (opts e) = - 1 \<or> hlmac_max (opts e) > 0"
    and "hl_repr (mem s) a ids" "ids \<noteq> []" "handle_sethlmac e now sender a ts s = Some s1"
    and "len b > 1" "handle_sethlmac e now' sender' b ts s1 = Some s2"
  shows "ub (mem s2)"
proof -
  let ?r = "hlmactable_add (hlmac_max (opts e)) a (ucast ts) (table s)"
  have f: "fst ?r = 1" "entries (snd ?r) = [\<lparr>he_address = a, he_timestamp = ucast ts\<rparr>]"
    using hlmactable_add_entries [OF assms(3), of a "ucast ts"] assms(4,5) by auto
  then have r: "?r = (1, snd ?r)" by (metis prod.collapse)
  note acc = accepted_state [OF assms(1) r assms(8,2)]
  have "address a < brk (mem s)" using hl_repr_block [OF assms(6,7)] assms(2)
    by (metis heap_wf_def not_le option.distinct(1))
  then have "dead (address a) (mem s1)" using acc(3,4) by (simp add: dead_def)
  moreover have "len a \<noteq> 0" using assms(6,7) by (simp add: hl_repr_len0)
  ultimately have "ub (snd (hlmactable_has_loop b (table s1) (mem s1)))"
    using has_loop_dangling [of "table s1" _ "[]" "mem s1" b] f(2) acc(1) assms(9) by simp
  then have "ub (mem (snd (accept_check b ts s1)))"
    using acc(2) by (simp add: accept_check_def Let_def case_prod_beta)
  then show ?thesis by (rule rejected_or_checked_ub [OF assms(10)])
qed

text \<open>
  An address of one identifier gets the string literal of the root; the next round frees it.
\<close>

lemma root_string_literal:
  assumes "len a \<le> 1"
  shows "\<exists>n. nodes (list_this_node_entry e [v] a s) = nodes s @ [n] \<and> str_top_addr n = Literal ''/''"
proof -
  obtain sa st h where n: "node_strings (char_signed e) a (mem s) = (sa, st, h)" by (metis prod_cases3)
  then have "st = Literal ''/''" using assms by (auto simp: node_strings_def Let_def case_prod_beta)
  then show ?thesis using n by (simp add: list_this_node_entry_def next_rand_def case_prod_beta)
qed

lemma free_strings_ub:
  "ub h \<or> (\<exists>n \<in> set ns. \<exists>t. str_top_addr n = Literal t) \<Longrightarrow>
    ub (foldr (\<lambda>n h. free_str (str_top_addr n) (free_str (str_addr n) h)) ns h)"
proof (induction ns)
  case (Cons n ns)
  have "ub h \<Longrightarrow> ub (free_str t h)" for t h by (simp add: free_str_def split: c_str.split)
  then show ?case using Cons by (auto simp: free_str_def split: c_str.split)
qed simp

lemma start_round_frees_literal:
  assumes "last_timestamp s < ts" "n \<in> set (nodes s)" "str_top_addr n = Literal t"
  shows "ub (mem (start_round e ts s))"
  using assms free_strings_ub [of "mem s" "nodes s"]
  by (auto simp: start_round_def Let_def clear_nodes_def iotorii_neighbours_flag_def)

text \<open>
  With the payload limit between ten and thirteen bytes above the address length, the first
  pair is written past the end of the buffer.
\<close>

lemma send_broadcast_overflow:
  assumes "max_payload e < int (unat (len a)) + 14" "slots = Some nb # slots'"
  shows "ub (mem (send_broadcast e now a ts slots s))"
proof -
  obtain ids h where l: "load_bytes (address a) 0 (unat (len a)) (mem s) = (ids, h)" by fastforce
  then have n: "length ids = unat (len a)" by (metis length_load_bytes fst_conv)
  obtain es bad where p: "pairs_loop (max_payload e) (4 + 1 + int (length ids)) (length slots = 255) slots = (es, bad)"
    by fastforce
  have "es \<noteq> []" using p assms(2) by (auto simp: Let_def case_prod_beta)
  then have "length (sethlmac_message ts ids es) \<ge> 14 + unat (len a)" using n by (cases es) simp_all
  then have o: "max_payload e < int (length (sethlmac_message ts ids es))" using assms(1) by linarith
  let ?s = "note_overflow (max_payload e) (sethlmac_message ts ids es) (s\<lparr>mem := h, bad_access := (bad_access s \<or> bad)\<rparr>)"
  let ?q = "queue_payload e now (sethlmac_message ts ids es) (stray_addr e) ?s"
  have "ub (mem ?q)" using o by (simp add: note_overflow_def)
  then have "ub (mem (list_this_node_entry e c a ?q))" for c
    using list_this_node_kept [of ?q e c a] by (simp add: kept_def same_store_def)
  then show ?thesis using l p by (simp add: send_broadcast_def Let_def)
qed

section \<open>Messages for others\<close>

lemma unaddressed_message:
  assumes "heap_wf (mem s)" "pb_wf (pktbuf (mac s))" "pb_data (pktbuf (mac s)) = sethlmac_message ts ids es"
    and "length ids < 255" "linkaddr_node_addr e \<noteq> linkaddr_null" "assigned es (linkaddr_node_addr e) = None"
  shows "\<exists>h. iotorii_handle_incoming_sethlmac_or_load e now s = Some (s\<lparr>mem := h\<rparr>) \<and> ub h = ub (mem s) \<and>
    blocks h = (blocks (mem s))(Suc (brk (mem s)) := Some ids)"
proof -
  let ?pb = "pktbuf (mac s)"
  obtain a h where x: "iotorii_extract_address (linkaddr_node_addr e) ?pb (mem s) = (a, h)" by fastforce
  note xa = extract_address_message [OF assms(1-5) x]
  obtain t h' where y: "iotorii_extract_timestamp ?pb h = (t, h')" by fastforce
  have "blocks h' = blocks h" "ub h' = ub h"
    using extract_timestamp_message(2,3) [OF xa(1) assms(2,3)] y by simp_all
  moreover have "packetbuf_datalen ?pb = length (sethlmac_message ts ids es)"
    using pb_wf_lengths(3) [OF assms(2)] assms(3) by simp
  ultimately show ?thesis using x y xa(2) xa(4) [OF assms(6)]
    by (intro exI [of _ h'])
      (simp add: iotorii_handle_incoming_sethlmac_or_load_def Let_def hlmac_is_unspecified_addr_def UNSPECIFIED_HLMAC_ADDRESS_def)
qed

section \<open>Hello messages\<close>

definition new_neighbour :: "linkaddr \<Rightarrow> int \<Rightarrow> u16 \<Rightarrow> neighbour_table_entry" where
  "new_neighbour a n h = \<lparr>nb_addr = a, last_hello = h, number_id = of_int n, nb_flag = 0, nb_load = 0, in_out = 0\<rparr>"

lemma incoming_hello_neighbours:
  assumes "packetbuf_addr (pktbuf (mac s)) ADDR_SENDER = sender"
  shows "neighbours (iotorii_handle_incoming_hello s) =
    (if number_of_neighbours s < 256 then map (touch_hello sender (number_of_hello_messages s)) (neighbours s) @
       (if sender \<in> nb_addr ` set (neighbours s) then []
        else [new_neighbour sender (number_of_neighbours s + 1) (number_of_hello_messages s)])
     else neighbours s)"
proof -
  have "(\<exists>nb \<in> set (neighbours s). linkaddr_cmp (nb_addr nb) sender) \<longleftrightarrow> sender \<in> nb_addr ` set (neighbours s)"
    by auto
  then show ?thesis unfolding iotorii_handle_incoming_hello_def Let_def assms
    by (simp only: iot.simps if_not_P if_P split: if_split) (simp add: new_neighbour_def)
qed

section \<open>Identifiers of neighbours\<close>

text \<open>
  The identifier of a new neighbour is the number of neighbours. After a neighbour other than
  the last was removed, the new one gets the identifier of the last one again.
\<close>

lemma identifier_taken_twice:
  assumes "neighbours s = nbs @ [z]" "number_id z = of_int (number_of_neighbours s)"
    and "\<exists>nb \<in> set nbs. stale (number_of_hello_messages s) nb"
    and "sender \<notin> nb_addr ` set (nbs @ [z])" "packetbuf_addr (pktbuf (mac s)) ADDR_SENDER = sender"
    and "number_of_neighbours s \<le> 256" "s' = iotorii_handle_incoming_hello (iotorii_check_neighbours_hello s)"
  shows "\<exists>x \<in> set (neighbours s'). \<exists>y \<in> set (neighbours s'). nb_addr x = sender \<and> nb_addr y = nb_addr z \<and>
    number_id x = number_id y \<and> nb_addr x \<noteq> nb_addr y"
proof -
  let ?P = "stale (number_of_hello_messages s)" and ?c = "iotorii_check_neighbours_hello s"
  have r: "remove_first P (xs @ [v]) = remove_first P xs @ [v]" if "\<exists>x \<in> set xs. P x" for P xs and v :: neighbour_table_entry
    using that by (induction xs) auto
  have c: "neighbours ?c = remove_first ?P nbs @ [z]" "number_of_neighbours ?c = number_of_neighbours s - 1"
    "mac ?c = mac s" "number_of_hello_messages ?c = number_of_hello_messages s"
    using assms(1,3) r by (simp_all add: iotorii_check_neighbours_hello_def Let_def)
  have new: "sender \<notin> nb_addr ` set (neighbours ?c)" using assms(4) c(1) by (auto dest: set_remove_first)
  let ?new = "new_neighbour sender (number_of_neighbours s) (number_of_hello_messages s)"
  let ?z = "touch_hello sender (number_of_hello_messages s) z"
  have "neighbours s' = map (touch_hello sender (number_of_hello_messages s)) (neighbours ?c) @ [?new]"
    using assms(6,7) new incoming_hello_neighbours [of ?c sender] c assms(5) by simp
  then have "?new \<in> set (neighbours s')" "?z \<in> set (neighbours s')" using c(1) by simp_all
  moreover have "number_id ?z = number_id z" "nb_addr ?z = nb_addr z" by (simp_all add: touch_hello_def)
  moreover have "nb_addr z \<noteq> sender" using assms(4) by auto
  ultimately show ?thesis using assms(2)
    by (intro bexI [of _ ?new] bexI [of _ ?z]) (simp_all add: new_neighbour_def)
qed

end
