(* ===== verification/Iotorii_Loads.thy ===== *)
theory Iotorii_Loads imports Iotorii_Invariant Csma_Delay begin

text \<open>
  How loads travel up the tree: what a node keeps and passes on, which parents get it, when a
  message is sent twice, and that a node reports once per round.
\<close>

section \<open>The amount passed on\<close>

lemma ucast_minus: "(ucast (- x) :: u16) = - ucast (x :: u32)"
proof transfer
  fix x :: int
  have "take_bit 16 (- take_bit 16 (take_bit 32 x)) = take_bit 16 (- take_bit 32 x)"
    by (rule take_bit_minus)
  moreover have "take_bit 16 (take_bit 32 (- x)) = take_bit 16 (- x)" "take_bit 16 (take_bit 32 x) = take_bit 16 x"
    by (simp_all add: min_def)
  ultimately show "take_bit LENGTH(16) (take_bit LENGTH(32) (- x)) = take_bit LENGTH(16) (- take_bit LENGTH(32) x)"
    by (simp add: take_bit_minus)
qed

lemma compute_extra_load_eq: "compute_extra_load ld = ucast (ld - 100)"
proof -
  have "(ucast (- ld + 100) :: u16) = - ucast (ld - 100)" using ucast_minus [of "ld - 100"] by (simp add: algebra_simps)
  then show ?thesis by (simp add: compute_extra_load_def Let_def)
qed

text \<open>An \<open>int\<close> that fits a \<open>short\<close> survives the message.\<close>

lemma extra_load_fits:
  assumes "- 32768 \<le> sint (ld - 100)" "sint (ld - 100) \<le> 32767"
  shows "scast (compute_extra_load ld) = ld - 100"
proof -
  have "sint (ucast (ld - 100) :: u16) = signed_take_bit 15 (uint (ld - 100))"
    by (simp add: sint_uint unsigned_ucast_eq signed_take_bit_take_bit)
  also have "\<dots> = signed_take_bit 15 (sint (ld - 100))"
    by (simp add: sint_uint min_def)
  also have "\<dots> = sint (ld - 100)"
    using assms by (intro signed_take_bit_int_eq_self) auto
  finally show ?thesis
    by (simp add: compute_extra_load_eq scast_eq)
qed

section \<open>Which parents get a load\<close>

lemma last_parent_none: "\<not> (\<exists>nb \<in> set nbs. nb_flag nb = 1) \<Longrightarrow> last_parent d nbs = d"
  by (induction nbs arbitrary: d) auto

lemma queue_to_parents_last:
  "payloads (queue_to_parents p nbs s) = (if \<exists>nb \<in> set nbs. nb_flag nb = 1
     then filter (\<lambda>q. pe_ref q \<noteq> pe_ref p) (payloads s) @ [p\<lparr>pe_dest := last_parent (pe_dest p) nbs\<rparr>]
     else payloads s)"
proof (induction p nbs s rule: queue_to_parents.induct)
  case (2 p nb nbs s)
  then show ?case
    by (auto simp: Let_def payload_add_def last_parent_none)
qed simp

section \<open>Reporting once\<close>

lemma load_timer_flags [simp]:
  "n_hijos_load (iotorii_handle_load_timer e s) = n_hijos_load s"
  "n_hijos_share (iotorii_handle_load_timer e s) = n_hijos_share s"
  "sent_share (iotorii_handle_load_timer e s) = sent_share s"
  "edge (iotorii_handle_load_timer e s) = edge s"
proof -
  have p: "n_hijos_load (send_to_parents e d nbs s) = n_hijos_load s \<and> n_hijos_share (send_to_parents e d nbs s) = n_hijos_share s \<and>
      sent_share (send_to_parents e d nbs s) = sent_share s \<and> edge (send_to_parents e d nbs s) = edge s" for d nbs
    by (induction nbs arbitrary: s) (simp_all add: prepare_packet_eq)
  have q: "n_hijos_load (queue_to_parents x nbs s) = n_hijos_load s \<and> n_hijos_share (queue_to_parents x nbs s) = n_hijos_share s \<and>
      sent_share (queue_to_parents x nbs s) = sent_share s \<and> edge (queue_to_parents x nbs s) = edge s" for x nbs s
    by (induction x nbs s rule: queue_to_parents.induct) (simp_all add: Let_def)
  show "n_hijos_load (iotorii_handle_load_timer e s) = n_hijos_load s"
    "n_hijos_share (iotorii_handle_load_timer e s) = n_hijos_share s"
    "sent_share (iotorii_handle_load_timer e s) = sent_share s"
    "edge (iotorii_handle_load_timer e s) = edge s"
    by (simp_all add: iotorii_handle_load_timer_def p q split: list.split)
qed

lemma send_to_parents_flags [simp]:
  "n_hijos_load (send_to_parents e d nbs s) = n_hijos_load s" "n_hijos_share (send_to_parents e d nbs s) = n_hijos_share s"
  "sent_load (send_to_parents e d nbs s) = sent_load s" "edge (send_to_parents e d nbs s) = edge s"
  by (induction nbs arbitrary: s) (simp_all add: prepare_packet_eq)

lemma share_timer_flags [simp]:
  "n_hijos_load (iotorii_handle_share_upstream_timer e s) = n_hijos_load s"
  "n_hijos_share (iotorii_handle_share_upstream_timer e s) = n_hijos_share s"
  "sent_load (iotorii_handle_share_upstream_timer e s) = sent_load s"
  "edge (iotorii_handle_share_upstream_timer e s) = edge s"
  by (simp_all add: iotorii_handle_share_upstream_timer_def Let_def split: list.split)

lemma report_if_done_once: "report_if_done e (report_if_done e s) = report_if_done e s"
proof -
  define s1 where "s1 = (if \<not> edge s \<and> n_hijos_load s = 0 \<and> \<not> sent_load s
      then (iotorii_handle_load_timer e s)\<lparr>sent_load := True\<rparr> else s)"
  define s2 where "s2 = (if \<not> edge s1 \<and> n_hijos_share s1 = 0 \<and> \<not> sent_share s1
      then (iotorii_handle_share_upstream_timer e s1)\<lparr>sent_share := True\<rparr> else s1)"
  have r: "report_if_done e s = s2" by (simp add: report_if_done_def Let_def s1_def s2_def)
  have "edge s1 = edge s" "n_hijos_load s1 = n_hijos_load s" "edge s \<or> n_hijos_load s \<noteq> 0 \<or> sent_load s1"
    by (auto simp: s1_def)
  moreover have "edge s2 = edge s1" "n_hijos_load s2 = n_hijos_load s1" "sent_load s2 = sent_load s1"
    "edge s1 \<or> n_hijos_share s2 \<noteq> 0 \<or> sent_share s2"
    by (auto simp: s2_def)
  ultimately have "report_if_done e s2 = s2" by (auto simp: report_if_done_def Let_def)
  with r show ?thesis by simp
qed

section \<open>Load moves, it does not vanish\<close>

text \<open>
  What the child drops when it sets its load to 100 the parent adds, whatever the sign, as
  long as the difference fits the \<open>short\<close> of the message.
\<close>

definition head_load :: "iot \<Rightarrow> u32" where
  "head_load s = tn_load (hd (nodes s))"

lemma share_timer_unicast:
  assumes "nodes s = x # xs" "hlmac_cast (opts e) = 0" "node_type (opts e) = 2"
  shows "head_load (iotorii_handle_share_upstream_timer e s) = 100"
    "pe_payload (last (payloads (iotorii_handle_share_upstream_timer e s))) = le16 (compute_extra_load (tn_load x))"
  using assms by (simp_all add: iotorii_handle_share_upstream_timer_def Let_def head_load_def payload_add_def)

lemma share_from_child_load:
  assumes "nodes s \<noteq> []" "nb_flag (neighbours s ! i) = 0" "\<not> edge s" "n_hijos_share s \<noteq> 0"
    and "node_type (opts e) = 1 \<or> n_hijos_share s \<noteq> 1 \<or> sent_share s"
  shows "head_load (share_from_child e now x i s) = head_load s + scast x"
proof -
  obtain y ys where "nodes s = y # ys" using assms(1) by (cases "nodes s") auto
  then show ?thesis using assms(2-5)
    by (auto simp: share_from_child_def add_to_load_def Let_def head_load_def note_convergence_def)
qed

lemma of_le16_le16': "of_le16 (le16 w) = w"
  using of_le16_le16 [of w "[]"] by simp

section \<open>The message queue\<close>

lemma pb_packet_prepared:
  assumes "pb_wf pb" "length data = n" "n \<le> PACKETBUF_SIZE"
  shows "pb_packet (prepared data n a pb) = data"
proof -
  have "length (pbuf pb) = PACKETBUF_SIZE" using assms(1) by (simp add: pb_wf_def)
  then show ?thesis using assms(2,3)
    by (simp add: pb_packet_def pb_data_def prepared_def packetbuf_set_addr_def packetbuf_set_datalen_def
        packetbuf_clear_def packetbuf_attr_clear_def pb_lengths sub_def blit_def)
qed

lemma prepared_receiver [simp]: "packetbuf_addr (prepared data n a pb) ADDR_RECEIVER = a"
  by (simp add: prepared_def)

text \<open>What a send does for a destination that already has a queue, and for one that has none.\<close>

lemma prepare_packet_pending:
  assumes inv: "node_inv e s" and cnt: "\<forall>m \<in> set (neighbour_list (mac s)). counted (mac s) m"
    and len: "length data = n" "n \<le> PACKETBUF_SIZE" and room: "memb_numfree (packet_memb (mac s)) \<noteq> 0"
    and dest: "(\<exists>k \<in> set (neighbour_list (mac s)). nq_addr (mac s) k = a) \<or> memb_numfree (neighbor_memb (mac s)) \<noteq> 0"
  shows "pending (mac (prepare_packet e data n a s)) = (pending (mac s))(a := pending (mac s) a @ [data])"
    "\<exists>k \<in> set (neighbour_list (mac s)). nq_addr (mac s) k = a \<Longrightarrow>
      transmission_delay (mac (prepare_packet e data n a s)) = transmission_delay (mac s)"
    "\<forall>k \<in> set (neighbour_list (mac s)). nq_addr (mac s) k \<noteq> a \<Longrightarrow> hlmac_cast (opts e) = 0 \<Longrightarrow>
      unat (transmission_delay (mac (prepare_packet e data n a s))) < 186"
proof -
  let ?m = "(mac s)\<lparr>pktbuf := prepared data n a (pktbuf (mac s))\<rparr>"
  have w: "csma_wf (mac s)" using inv by (simp add: node_inv_def)
  have "pb_wf (prepared data n a (pktbuf (mac s)))"
    using pb_wf_prepared [OF csma_wf_pb [OF w] len] by (simp add: prepared_def)
  then have wm: "csma_wf ?m" by (rule csma_wf_pktbuf [OF w])
  have cm: "\<forall>m \<in> set (neighbour_list ?m). counted ?m m" using cnt by (simp add: counted_def head_max_def)
  have acc: "accepts ?m" using room dest by (simp add: accepts_def)
  have rcv: "a = packetbuf_addr (pktbuf ?m) ADDR_RECEIVER" by simp
  show "pending (mac (prepare_packet e data n a s)) = (pending (mac s))(a := pending (mac s) a @ [data])"
    using csma_output_spec(1) [OF wm cm rcv refl, of "opts e" NULL NULL] acc
      pb_packet_prepared [OF csma_wf_pb [OF w] len] by (simp add: prepare_packet_eq)
  show "transmission_delay (mac (prepare_packet e data n a s)) = transmission_delay (mac s)"
    if k: "\<exists>k \<in> set (neighbour_list (mac s)). nq_addr (mac s) k = a"
  proof -
    obtain k where "k \<in> set (neighbour_list ?m)" "nq_addr ?m k = packetbuf_addr (pktbuf ?m) ADDR_RECEIVER"
      using k by auto
    from output_delay_busy [OF wm this] show ?thesis by (simp add: prepare_packet_eq)
  qed
  show "unat (transmission_delay (mac (prepare_packet e data n a s))) < 186"
    if "\<forall>k \<in> set (neighbour_list (mac s)). nq_addr (mac s) k \<noteq> a" "hlmac_cast (opts e) = 0"
    using output_delay_idle [OF wm _ acc that(2)] that(1) by (simp add: prepare_packet_eq)
qed

lemma send_message_unicast:
  assumes inv: "node_inv e s" and cnt: "\<forall>m \<in> set (neighbour_list (mac s)). counted (mac s) m"
    and uni: "hlmac_cast (opts e) = 0" and p: "payloads s = p # ps"
    and room: "memb_numfree (packet_memb (mac s)) \<noteq> 0"
    and known: "known \<longleftrightarrow> (\<exists>k \<in> set (neighbour_list (mac s)). nq_addr (mac s) k = pe_dest p)"
    and space: "known \<or> memb_numfree (neighbor_memb (mac s)) \<noteq> 0"
    and s': "s' = iotorii_handle_send_message_timer e s"
  shows "pending (mac s') = (pending (mac s))(pe_dest p := pending (mac s) (pe_dest p) @ [pe_payload p]) \<and>
    payloads s' = (if known then p # ps else ps)"
proof -
  let ?s1 = "s\<lparr>payloads := ps, mac := (mac s)\<lparr>transmission_delay := 1000\<rparr>\<rparr>"
  let ?s2 = "prepare_packet e (pe_payload p) (pe_data_len p) (pe_dest p) ?s1"
  note pop = pay_ok_pop [OF inv p]
  have i1: "node_inv e ?s1" using pop csma_delay_inv [of e "s\<lparr>payloads := ps\<rparr>"] by simp
  have ok: "length (pe_payload p) = pe_data_len p" "pe_data_len p \<le> PACKETBUF_SIZE"
    using pop by (auto simp: entry_ok_def)
  have c1: "\<forall>m \<in> set (neighbour_list (mac ?s1)). counted (mac ?s1) m"
    using cnt by (simp add: counted_def head_max_def)
  have d: "(\<exists>k \<in> set (neighbour_list (mac ?s1)). nq_addr (mac ?s1) k = pe_dest p) \<or> memb_numfree (neighbor_memb (mac ?s1)) \<noteq> 0"
    using space known by auto
  have "memb_numfree (packet_memb (mac ?s1)) \<noteq> 0" using room by simp
  note pp = prepare_packet_pending [OF i1 c1 ok this d]
  have "transmission_delay (mac ?s2) = 1000 \<longleftrightarrow> known"
  proof (cases known)
    case False
    then have "unat (transmission_delay (mac ?s2)) < 186" using pp(3) uni known by simp
    then show ?thesis using False by auto
  qed (use pp(2) known in simp)
  moreover have "pending (mac ?s1) = pending (mac s)" by simp
  ultimately show ?thesis using pp(1) s' p uni
    by (cases known; cases "ps = []") (simp_all add: iotorii_handle_send_message_timer_def Let_def arm_next_def next_rand_def case_prod_beta)
qed

section \<open>Messages of two or four bytes\<close>

lemma mem_load_step [simp]: "mem (load_step e now a off s i) = mem s"
  by (simp add: load_step_def upd_nb_def Let_def)

lemma mem_share_step [simp]: "mem (share_step e now a x s i) = mem s"
  by (simp add: share_step_def share_from_child_def upd_nb_def Let_def)

lemma foldl_mem: "(\<And>s v. mem (f s v) = mem s) \<Longrightarrow> mem (foldl f s vs) = mem s"
  by (induction vs arbitrary: s) simp_all

lemma unspecified: "hlmac_is_unspecified_addr UNSPECIFIED_HLMAC_ADDRESS"
  by (simp add: hlmac_is_unspecified_addr_def UNSPECIFIED_HLMAC_ADDRESS_def)

text \<open>A load or share message has no prefix: reading one goes past the copy of the message.\<close>

lemma short_message_overread:
  assumes "heap_wf (mem s)" "pb_wf (pktbuf (mac s))" "packetbuf_datalen (pktbuf (mac s)) \<le> 4"
    and "linkaddr_node_addr e \<noteq> linkaddr_null" "iotorii_handle_incoming_sethlmac_or_load e now s = Some s'"
  shows "ub (mem s')"
proof -
  let ?pb = "pktbuf (mac s)"
  obtain a h where x: "iotorii_extract_address (linkaddr_node_addr e) ?pb (mem s) = (a, h)" by fastforce
  obtain ts h' where y: "iotorii_extract_timestamp ?pb h = (ts, h')" by fastforce
  have a: "a = UNSPECIFIED_HLMAC_ADDRESS" and u: "ub h"
    using extract_address_short [OF assms(1-4)] x by auto
  have "ub h'"
    using u y by (auto simp: iotorii_extract_timestamp_def copy_packet_data_def Let_def case_prod_beta)
  then show ?thesis using assms(5) x y a
    by (auto simp: iotorii_handle_incoming_sethlmac_or_load_def Let_def foldl_mem unspecified split: if_splits)
qed

end
