(* ===== verification/Iotorii_Random.thy ===== *)
theory Iotorii_Random imports Iotorii_Labels begin

text \<open>
  No operation replaces the source of the random numbers: whatever it promises at boot, it
  promises in every state of a run.
\<close>

abbreviation src :: "csma \<Rightarrow> nat \<Rightarrow> u16" where
  "src m \<equiv> rand_src (rand m)"

section \<open>The CSMA layer\<close>

lemma src_schedule [simp]: "src (schedule_transmission cfg n m) = src m"
  by (simp add: schedule_transmission_def Let_def case_prod_beta random_rand_def)

lemma src_callback [simp]: "src (mac_call_sent_callback f p st k m) = src m"
  by (simp add: mac_call_sent_callback_def)

lemma src_stamp [simp]: "src (stamp_packet m) = src m"
  by (simp add: stamp_packet_def Let_def case_prod_beta random_rand_def)

lemma src_neighbor [simp]: "src (snd (output_neighbor a m)) = src m"
  by (simp add: output_neighbor_def Let_def case_prod_beta)

lemma src_enqueue [simp]: "src (snd (enqueue_packet cfg n f p m)) = src m"
  by (simp add: enqueue_packet_def Let_def case_prod_beta)

lemma src_tail [simp]: "src (output_tail cfg n f p m) = src m"
  by (simp add: output_tail_def Let_def case_prod_beta)

lemma src_output [simp]: "src (csma_output_packet cfg f p m) = src m"
  by (simp add: csma_output_packet_def Let_def case_prod_beta)

lemma src_tx_done [simp]: "src (tx_done cfg st q n m) = src m"
  by (simp add: tx_done_def free_packet_def Let_def)

lemma src_rexmit [simp]: "src (rexmit cfg q n m) = src m"
  by (simp add: rexmit_def Let_def)

lemma src_packet_sent [simp]: "src (packet_sent cfg n q st k m) = src m"
  by (cases st) (simp_all add: packet_sent_def tx_ok_def noack_def collision_def Let_def)

lemma src_transmit [simp]: "src (transmit_from_queue cfg a cf ra n m) = src m"
  by (simp add: transmit_from_queue_def send_one_packet_def Let_def case_prod_beta split: list.split)

lemma src_expired [simp]: "src (timer_fired n m) = src m"
  by (simp add: timer_fired_def)

section \<open>The node\<close>

lemma src_next_rand [simp]: "src (mac (snd (next_rand s))) = src (mac s)"
  by (simp add: next_rand_def case_prod_beta random_rand_def)

lemma src_prepare [simp]: "src (mac (prepare_packet e d n a s)) = src (mac s)"
  by (simp add: prepare_packet_eq)

lemma src_to_parents [simp]: "src (mac (send_to_parents e d nbs s)) = src (mac s)"
  by (induction nbs arbitrary: s) simp_all

lemma src_load_timer [simp]: "src (mac (iotorii_handle_load_timer e s)) = src (mac s)"
  by (simp add: iotorii_handle_load_timer_def split: list.split)

lemma src_share_timer [simp]: "src (mac (iotorii_handle_share_upstream_timer e s)) = src (mac s)"
  by (simp add: iotorii_handle_share_upstream_timer_def Let_def split: list.split)

lemma src_statistic [simp]: "src (mac (iotorii_handle_statistic_timer e s)) = src (mac s)"
  by (simp add: iotorii_handle_statistic_timer_def Let_def)

lemma mac_check_neighbours [simp]: "mac (iotorii_check_neighbours_hello s) = mac s"
  by (simp add: iotorii_check_neighbours_hello_def Let_def)

lemma mac_neighbours_flag [simp]: "mac (iotorii_neighbours_flag s) = mac s"
  by (simp add: iotorii_neighbours_flag_def)

lemma src_hello_timer [simp]: "src (mac (iotorii_handle_hello_timer e s)) = src (mac s)"
  by (simp add: iotorii_handle_hello_timer_def send_packet_def Let_def case_prod_beta)

lemma src_arm_next [simp]: "src (mac (arm_next e p s)) = src (mac s)"
  by (simp add: arm_next_def Let_def case_prod_beta)

lemma src_send_message [simp]: "src (mac (iotorii_handle_send_message_timer e s)) = src (mac s)"
  by (simp add: iotorii_handle_send_message_timer_def Let_def split: list.split)

lemma src_list_node [simp]: "src (mac (list_this_node_entry e chain a s)) = src (mac s)"
proof -
  obtain sa st h where n: "node_strings (char_signed e) a (mem s) = (sa, st, h)" by (metis prod_cases3)
  show ?thesis using n
    by (auto simp: list_this_node_entry_def case_prod_beta
        intro!: foldl_inv [where P = "\<lambda>s'. src (mac s') = src (mac s)"])
qed

lemma src_queue_payload [simp]: "src (mac (queue_payload e now d x s)) = src (mac s)"
  by (simp add: queue_payload_def Let_def case_prod_beta)

lemma src_note_overflow [simp]: "src (mac (note_overflow m d s)) = src (mac s)"
  by (simp add: note_overflow_def)

lemma src_broadcast [simp]: "src (mac (send_broadcast e now a ts slots s)) = src (mac s)"
  by (simp add: send_broadcast_def Let_def case_prod_beta)

lemma src_unicast [simp]: "src (mac (send_unicast e now a ts w first slots s)) = src (mac s)"
proof (induction slots arbitrary: s first)
  case (Cons x slots)
  then show ?case by (cases x) (simp_all add: Let_def case_prod_beta)
qed simp

lemma src_send_sethlmac:
  assumes "iotorii_send_sethlmac e now a sender ts s = Some s'"
  shows "src (mac s') = src (mac s)"
proof -
  have "rand_src g = src (mac s)"
    if "fill_slots sender (neighbours s) (replicate (unat (neighbours_new sender s)) None) (rand (mac s)) = Some (slots, g)"
      "neighbours_new sender s > 0" for slots g
    using fill_slots_mset [OF that(1)] that(2) by (simp add: unat_gt_0)
  then show ?thesis using assms
    by (auto simp: iotorii_send_sethlmac_def Let_def split: if_splits bind_splits)
qed

lemma src_note_convergence [simp]: "mac (note_convergence now s) = mac s"
  by (simp add: note_convergence_def)

lemma src_load_step [simp]: "src (mac (load_step e now a off s i)) = src (mac s)"
  by (simp add: load_step_def upd_nb_def Let_def)

lemma src_share_step [simp]: "src (mac (share_step e now a x s i)) = src (mac s)"
  by (simp add: share_step_def share_from_child_def add_to_load_def upd_nb_def Let_def split: list.split)

lemma src_small [simp]: "mac (one_child_less s) = mac s" "mac (free_received a s) = mac s"
  "src (mac (report_if_done e s)) = src (mac s)" "src (mac (become_edge e s)) = src (mac s)"
  by (simp_all add: one_child_less_def free_received_def report_if_done_def become_edge_def Let_def)

lemma src_handle_sethlmac:
  assumes "handle_sethlmac e now sender a ts s = Some s'"
  shows "src (mac s') = src (mac s)"
proof -
  obtain ok s1 where c: "accept_check a ts s = (ok, s1)" by fastforce
  then have "mac s1 = mac s" using accept_check_fields(1) by fastforce
  then show ?thesis using assms c src_send_sethlmac
    by (fastforce simp: handle_sethlmac_def Let_def case_prod_beta split: bind_splits if_splits)
qed

lemma src_operation:
  assumes "iotorii_operation e now s = Some s'"
  shows "src (mac s') = src (mac s)"
proof -
  have f: "src (mac (foldl f s0 vs)) = src (mac s0)" if "\<And>s v. src (mac (f s v)) = src (mac s)" for f s0 and vs :: "nat list"
    using that by (induction vs arbitrary: s0) simp_all
  show ?thesis using assms src_handle_sethlmac
    by (fastforce simp: iotorii_operation_def iotorii_handle_incoming_hello_def f
        iotorii_handle_incoming_sethlmac_or_load_def Let_def case_prod_beta split: if_splits)
qed

lemma src_input:
  "input_packet e pf now s = Some s' \<Longrightarrow> src (mac s') = src (mac s)"
  using src_operation by (fastforce simp: input_packet_def Let_def case_prod_beta split: if_splits)

lemma src_sethlmac_timer:
  assumes "iotorii_handle_sethlmac_timer e now s = Some s'"
  shows "src (mac s') = src (mac s)"
  using assms src_send_sethlmac
  by (fastforce simp: iotorii_handle_sethlmac_timer_def Let_def case_prod_beta)

theorem iot_step_src: "iot_step e cf pf s s' \<Longrightarrow> src (mac s') = src (mac s)"
  by (induction rule: iot_step.induct) (auto dest: src_input src_sethlmac_timer)

lemma iot_steps_hits:
  assumes "(iot_step e cf pf)\<^sup>*\<^sup>* s s'" "hits (rand (mac s))"
  shows "hits (rand (mac s'))"
proof -
  have "src (mac s') = src (mac s)" using assms(1) by induction (auto dest: iot_step_src)
  then show ?thesis using assms(2) by (simp add: hits_def)
qed

lemma iot_steps_reachable:
  "(iot_step e cf pf)\<^sup>*\<^sup>* s s' \<Longrightarrow> iot_reachable e cf pf s \<Longrightarrow> iot_reachable e cf pf s'"
  by (induction rule: rtranclp_induct) (auto intro: stepped)

end
