(* ===== verification/Frame_802154.thy ===== *)
theory Frame_802154 imports Contiki_Packetbuf begin

text \<open>
  IEEE 802.15.4 headers (\<open>os/net/mac/framer/frame802154.c\<close>): the lengths of the fields, writing
  a header and reading one. \<open>llsec\<close> holds the build options the code tests. An address is its
  eight bytes, short ones in the first two. Reading starts from whatever the frame variable
  holds, since fields that a header leaves out are not written.
  Key identifier modes are those of the standard, 0 to 3; the C table has no entry for others.
\<close>

section \<open>Data\<close>

record llsec =
  frame_version_opt :: u8
  suppr_seqno :: u8
  uses_aux_header :: bool
  uses_frame_counter :: bool
  uses_explicit_keys :: bool

record fcf =
  frame_type :: u8
  security_enabled :: u8
  frame_pending :: u8
  ack_required :: u8
  panid_compression :: u8
  sequence_number_suppression :: u8
  ie_list_present :: u8
  dest_addr_mode :: u8
  frame_version :: u8
  src_addr_mode :: u8

record aux_hdr =
  security_level :: u8
  key_id_mode :: u8
  frame_counter_suppression :: u8
  frame_counter_size :: u8
  frame_counter :: "u8 list"
  key_source :: "u8 list"
  key_index :: u8

record frame802154 =
  dest_addr :: "u8 list"
  src_addr :: "u8 list"
  fr_fcf :: fcf
  fr_seq :: u8
  dest_pid :: u16
  src_pid :: u16
  aux :: aux_hdr
  payload_at :: nat
  payload_len :: int

record field_length =
  seqno_len :: nat
  dest_pid_len :: nat
  dest_addr_len :: nat
  src_pid_len :: nat
  src_addr_len :: nat
  aux_sec_len :: nat

definition FRAME802154_DATAFRAME :: u8 where "FRAME802154_DATAFRAME = 1"
definition FRAME802154_ACKFRAME :: u8 where "FRAME802154_ACKFRAME = 2"
definition FRAME802154_NOADDR :: u8 where "FRAME802154_NOADDR = 0"
definition FRAME802154_SHORTADDRMODE :: u8 where "FRAME802154_SHORTADDRMODE = 2"
definition FRAME802154_LONGADDRMODE :: u8 where "FRAME802154_LONGADDRMODE = 3"
definition FRAME802154_BROADCASTPANDID :: u16 where "FRAME802154_BROADCASTPANDID = 0xffff"
definition FRAME802154_IEEE802154_2015 :: u8 where "FRAME802154_IEEE802154_2015 = 2"

lemmas frame_consts = FRAME802154_DATAFRAME_def FRAME802154_ACKFRAME_def FRAME802154_NOADDR_def
  FRAME802154_SHORTADDRMODE_def FRAME802154_LONGADDRMODE_def FRAME802154_BROADCASTPANDID_def
  FRAME802154_IEEE802154_2015_def

section \<open>Lengths\<close>

definition addr_len :: "u8 \<Rightarrow> nat" where
  "addr_len mode = (if mode = FRAME802154_SHORTADDRMODE then 2 else if mode = FRAME802154_LONGADDRMODE then 8 else 0)"

definition get_key_id_len :: "u8 \<Rightarrow> nat" where
  "get_key_id_len mode = (if mode = 1 then 1 else if mode = 2 then 5 else if mode = 3 then 9 else 0)"

text \<open>The result is the pair of \<open>has_src_pan_id\<close> and \<open>has_dest_pan_id\<close>.\<close>

definition frame802154_has_panid :: "fcf \<Rightarrow> bool \<times> bool" where
  "frame802154_has_panid f =
     (let d = dest_addr_mode f; s = src_addr_mode f; comp = panid_compression f;
          NO = FRAME802154_NOADDR; SHORT = FRAME802154_SHORTADDRMODE; LONG = FRAME802154_LONGADDRMODE
      in if frame_version f = FRAME802154_IEEE802154_2015 then
           (comp = 0 \<and>
              (d = NO \<and> s = LONG \<or> d = NO \<and> s = SHORT \<or> d = SHORT \<and> s = SHORT \<or> d = SHORT \<and> s = LONG \<or> d = LONG \<and> s = SHORT),
            d = NO \<and> s = NO \<and> comp = 1 \<or> d \<noteq> NO \<and> s = NO \<and> comp = 0 \<or> d = LONG \<and> s = LONG \<and> comp = 0 \<or>
              (d = SHORT \<and> s \<noteq> NO \<or> d \<noteq> NO \<and> s = SHORT))
         else if frame_type f \<noteq> FRAME802154_ACKFRAME then (comp = 0 \<and> s AND 3 \<noteq> 0, d AND 3 \<noteq> 0)
         else (False, False))"

definition frame802154_check_dest_panid :: "u16 \<Rightarrow> frame802154 \<Rightarrow> int" where
  "frame802154_check_dest_panid pan_id fr =
     (if \<not> snd (frame802154_has_panid (fr_fcf fr)) \<or>
         dest_pid fr \<noteq> pan_id \<and> dest_pid fr \<noteq> FRAME802154_BROADCASTPANDID then 0 else 1)"

definition frame802154_is_broadcast_addr :: "u8 \<Rightarrow> u8 list \<Rightarrow> bool" where
  "frame802154_is_broadcast_addr mode addr \<longleftrightarrow>
     list_all (\<lambda>b. b = 0xff) (rev (take (if mode = FRAME802154_SHORTADDRMODE then 2 else 8) addr))"

definition extract_one :: "u8 \<Rightarrow> u8 list \<Rightarrow> linkaddr option" where
  "extract_one mode addr =
     (let l = (if mode \<noteq> 0 then if mode = FRAME802154_SHORTADDRMODE then 2 else 8 else 0)
      in if l = 0 \<or> frame802154_is_broadcast_addr mode addr then Some (linkaddr_copy linkaddr_null)
         else if l \<noteq> LINKADDR_SIZE then None else Some (linkaddr_copy (linkaddr_of addr)))"

text \<open>None is the result 0, Some the result 1 with the two addresses.\<close>

definition frame802154_extract_linkaddr :: "frame802154 \<Rightarrow> (linkaddr \<times> linkaddr) option" where
  "frame802154_extract_linkaddr fr =
     Option.bind (extract_one (src_addr_mode (fr_fcf fr)) (src_addr fr)) (\<lambda>s.
     Option.bind (extract_one (dest_addr_mode (fr_fcf fr)) (dest_addr fr)) (\<lambda>d. Some (s, d)))"

definition compress_panid :: "frame802154 \<Rightarrow> frame802154" where
  "compress_panid p =
     (if frame_version (fr_fcf p) < FRAME802154_IEEE802154_2015 then
        p\<lparr>fr_fcf := (fr_fcf p)\<lparr>panid_compression :=
          (if dest_addr_mode (fr_fcf p) AND 3 \<noteq> 0 \<and> src_addr_mode (fr_fcf p) AND 3 \<noteq> 0 \<and> src_pid p = dest_pid p
           then 1 else 0)\<rparr>\<rparr>
      else p)"

definition aux_len :: "llsec \<Rightarrow> frame802154 \<Rightarrow> nat" where
  "aux_len ll p =
     (if uses_aux_header ll \<and> security_enabled (fr_fcf p) AND 1 \<noteq> 0 then
        1 + (if frame_counter_suppression (aux p) = 0 then if frame_counter_size (aux p) = 1 then 5 else 4 else 0)
          + (if uses_explicit_keys ll then get_key_id_len (key_id_mode (aux p)) else 0)
      else 0)"

definition field_len :: "llsec \<Rightarrow> frame802154 \<Rightarrow> frame802154 \<times> field_length" where
  "field_len ll p =
     (let p = compress_panid p;
          (has_src, has_dest) = frame802154_has_panid (fr_fcf p)
      in (p, \<lparr>seqno_len = (if sequence_number_suppression (fr_fcf p) AND 1 = 0 then 1 else 0),
              dest_pid_len = (if has_dest then 2 else 0), dest_addr_len = addr_len (dest_addr_mode (fr_fcf p) AND 3),
              src_pid_len = (if has_src then 2 else 0), src_addr_len = addr_len (src_addr_mode (fr_fcf p) AND 3),
              aux_sec_len = aux_len ll p\<rparr>))"

definition frame802154_hdrlen :: "llsec \<Rightarrow> frame802154 \<Rightarrow> nat" where
  "frame802154_hdrlen ll p =
     (let fl = snd (field_len ll p)
      in 2 + seqno_len fl + dest_pid_len fl + dest_addr_len fl + src_pid_len fl + src_addr_len fl + aux_sec_len fl)"

section \<open>Writing a header\<close>

text \<open>Bytes written at \<open>pos\<close>, which moves on.\<close>

definition emit :: "u8 list \<Rightarrow> u8 list \<times> nat \<Rightarrow> u8 list \<times> nat" where
  "emit bs st = (blit (fst st) (snd st) bs, snd st + length bs)"

definition frame802154_create_fcf :: "fcf \<Rightarrow> u8 list" where
  "frame802154_create_fcf f =
     [(frame_type f AND 7) OR push_bit 3 (security_enabled f AND 1) OR push_bit 4 (frame_pending f AND 1)
        OR push_bit 5 (ack_required f AND 1) OR push_bit 6 (panid_compression f AND 1),
      (sequence_number_suppression f AND 1) OR push_bit 1 (ie_list_present f AND 1) OR push_bit 2 (dest_addr_mode f AND 3)
        OR push_bit 4 (frame_version f AND 3) OR push_bit 6 (src_addr_mode f AND 3)]"

definition emit_aux :: "llsec \<Rightarrow> aux_hdr \<Rightarrow> u8 list \<times> nat \<Rightarrow> u8 list \<times> nat" where
  "emit_aux ll a st =
     (let st = emit [security_level a OR (if uses_explicit_keys ll then push_bit 3 (key_id_mode a) else 0)
                OR push_bit 5 (frame_counter_suppression a) OR push_bit 6 (frame_counter_size a)] st;
          st = (if frame_counter_suppression a = 0 then
                  let st = emit (take 4 (frame_counter a)) st
                  in if frame_counter_size a = 1 then (fst st, snd st + 1) else st
                else st)
      in if uses_explicit_keys ll \<and> key_id_mode a \<noteq> 0 then
           emit [key_index a] (emit (take ((unat (key_id_mode a) - 1) * 4) (key_source a)) st)
         else st)"

definition frame802154_create :: "llsec \<Rightarrow> frame802154 \<Rightarrow> u8 list \<Rightarrow> nat \<times> u8 list" where
  "frame802154_create ll p buf =
     (let (p, fl) = field_len ll p;
          st = emit (frame802154_create_fcf (fr_fcf p)) (buf, 0);
          st = (if seqno_len fl = 1 then emit [fr_seq p] st else st);
          st = (if dest_pid_len fl = 2 then emit (le16 (dest_pid p)) st else st);
          st = emit (rev (take (dest_addr_len fl) (dest_addr p))) st;
          st = (if src_pid_len fl = 2 then emit (le16 (src_pid p)) st else st);
          st = emit (rev (take (src_addr_len fl) (src_addr p))) st;
          st = (if uses_aux_header ll \<and> aux_sec_len fl \<noteq> 0 then emit_aux ll (aux p) st else st)
      in (snd st, fst st))"

section \<open>Reading a header\<close>

definition frame802154_parse_fcf :: "u8 list \<Rightarrow> fcf" where
  "frame802154_parse_fcf data =
     \<lparr>frame_type = data ! 0 AND 7, security_enabled = drop_bit 3 (data ! 0) AND 1,
      frame_pending = drop_bit 4 (data ! 0) AND 1, ack_required = drop_bit 5 (data ! 0) AND 1,
      panid_compression = drop_bit 6 (data ! 0) AND 1,
      sequence_number_suppression = data ! 1 AND 1, ie_list_present = drop_bit 1 (data ! 1) AND 1,
      dest_addr_mode = drop_bit 2 (data ! 1) AND 3, frame_version = drop_bit 4 (data ! 1) AND 3,
      src_addr_mode = drop_bit 6 (data ! 1) AND 3\<rparr>"

definition read_u16 :: "u8 list \<Rightarrow> nat \<Rightarrow> u16" where
  "read_u16 data p = ucast (data ! p) + push_bit 8 (ucast (data ! (p + 1)))"

text \<open>An address of the given mode at \<open>p\<close>, over the bytes the variable held.\<close>

definition read_addr :: "u8 list \<Rightarrow> nat \<Rightarrow> u8 \<Rightarrow> u8 list \<Rightarrow> u8 list" where
  "read_addr data p mode old =
     (if mode = FRAME802154_SHORTADDRMODE then
        (blit old 0 (linkaddr_bytes (linkaddr_copy linkaddr_null)))[0 := data ! (p + 1), 1 := data ! p]
      else if mode = FRAME802154_LONGADDRMODE then
        foldl (\<lambda>a c. a[c := data ! (p + (7 - c))]) old [0..<8]
      else old)"

definition parse_dest :: "u8 list \<Rightarrow> fcf \<Rightarrow> bool \<Rightarrow> frame802154 \<times> nat \<Rightarrow> frame802154 \<times> nat" where
  "parse_dest data f has_dest st =
     (let (pf, p) = st
      in if dest_addr_mode f \<noteq> 0 then
           let (pf, p) = (if has_dest then (pf\<lparr>dest_pid := read_u16 data p\<rparr>, p + 2) else (pf\<lparr>dest_pid := 0\<rparr>, p))
           in (pf\<lparr>dest_addr := read_addr data p (dest_addr_mode f) (dest_addr pf)\<rparr>, p + addr_len (dest_addr_mode f))
         else (pf\<lparr>dest_addr := blit (dest_addr pf) 0 (linkaddr_bytes (linkaddr_copy linkaddr_null)), dest_pid := 0\<rparr>, p))"

definition parse_src :: "u8 list \<Rightarrow> fcf \<Rightarrow> bool \<Rightarrow> bool \<Rightarrow> frame802154 \<times> nat \<Rightarrow> frame802154 \<times> nat" where
  "parse_src data f has_src has_dest st =
     (let (pf, p) = st
      in if src_addr_mode f \<noteq> 0 then
           let (pf, p) = (if has_src then
                            let pf = pf\<lparr>src_pid := read_u16 data p\<rparr>
                            in (if \<not> has_dest then pf\<lparr>dest_pid := src_pid pf\<rparr> else pf, p + 2)
                          else (pf\<lparr>src_pid := dest_pid pf\<rparr>, p))
           in (pf\<lparr>src_addr := read_addr data p (src_addr_mode f) (src_addr pf)\<rparr>, p + addr_len (src_addr_mode f))
         else (pf\<lparr>src_addr := blit (src_addr pf) 0 (linkaddr_bytes (linkaddr_copy linkaddr_null)), src_pid := 0\<rparr>, p))"

definition parse_aux :: "llsec \<Rightarrow> u8 list \<Rightarrow> aux_hdr \<times> nat \<Rightarrow> aux_hdr \<times> nat" where
  "parse_aux ll data st =
     (let (a, p) = st;
          a = a\<lparr>security_level := data ! p AND 7\<rparr>;
          a = (if uses_explicit_keys ll then a\<lparr>key_id_mode := drop_bit 3 (data ! p) AND 3\<rparr> else a);
          a = a\<lparr>frame_counter_suppression := drop_bit 5 (data ! p), frame_counter_size := drop_bit 6 (data ! p)\<rparr>;
          p = p + 1;
          (a, p) = (if frame_counter_suppression a = 0 then
                      (a\<lparr>frame_counter := blit (frame_counter a) 0 (sub data p 4)\<rparr>,
                       if frame_counter_size a = 1 then p + 5 else p + 4)
                    else (a, p))
      in if uses_explicit_keys ll \<and> key_id_mode a \<noteq> 0 then
           let c = (unat (key_id_mode a) - 1) * 4
           in (a\<lparr>key_source := blit (key_source a) 0 (sub data p c), key_index := data ! (p + c)\<rparr>, p + c + 1)
         else (a, p))"

definition frame802154_parse :: "llsec \<Rightarrow> u8 list \<Rightarrow> nat \<Rightarrow> frame802154 \<Rightarrow> nat \<times> frame802154" where
  "frame802154_parse ll data len pf =
     (if len < 2 then (0, pf)
      else
        let f = frame802154_parse_fcf data;
            pf = pf\<lparr>fr_fcf := f\<rparr>;
            (pf, p) = (if sequence_number_suppression f = 0 then (pf\<lparr>fr_seq := data ! 2\<rparr>, 3) else (pf, 2));
            (has_src, has_dest) = frame802154_has_panid f;
            (pf, p) = parse_src data f has_src has_dest (parse_dest data f has_dest (pf, p));
            (pf, p) = (if uses_aux_header ll \<and> security_enabled f \<noteq> 0
                       then let (a, p) = parse_aux ll data (aux pf, p) in (pf\<lparr>aux := a\<rparr>, p)
                       else (pf, p));
            pf = pf\<lparr>payload_len := int len - int p, payload_at := p\<rparr>
        in (if p > len then 0 else p, pf))"

section \<open>The bytes of a header\<close>

text \<open>
  A header as the sequence of its fields, and the frames that have one: every field fits its
  width, addresses have eight bytes, an address mode is none, short or long, no PAN identifier
  is announced without an address. The five-byte frame counter is excluded: see
  \<open>five_byte_counter\<close>.
\<close>

definition aux_bytes :: "llsec \<Rightarrow> aux_hdr \<Rightarrow> u8 list" where
  "aux_bytes ll a =
     [security_level a OR (if uses_explicit_keys ll then push_bit 3 (key_id_mode a) else 0)
        OR push_bit 5 (frame_counter_suppression a) OR push_bit 6 (frame_counter_size a)]
     @ (if frame_counter_suppression a = 0 then take 4 (frame_counter a) else [])
     @ (if uses_explicit_keys ll \<and> key_id_mode a \<noteq> 0
        then take ((unat (key_id_mode a) - 1) * 4) (key_source a) @ [key_index a] else [])"

definition dest_bytes :: "frame802154 \<Rightarrow> u8 list" where
  "dest_bytes p = (if snd (frame802154_has_panid (fr_fcf p)) then le16 (dest_pid p) else [])
     @ rev (take (addr_len (dest_addr_mode (fr_fcf p))) (dest_addr p))"

definition src_bytes :: "frame802154 \<Rightarrow> u8 list" where
  "src_bytes p = (if fst (frame802154_has_panid (fr_fcf p)) then le16 (src_pid p) else [])
     @ rev (take (addr_len (src_addr_mode (fr_fcf p))) (src_addr p))"

definition seq_bytes :: "frame802154 \<Rightarrow> u8 list" where
  "seq_bytes p = (if sequence_number_suppression (fr_fcf p) = 0 then [fr_seq p] else [])"

definition has_aux :: "llsec \<Rightarrow> frame802154 \<Rightarrow> bool" where
  "has_aux ll p \<longleftrightarrow> uses_aux_header ll \<and> security_enabled (fr_fcf p) \<noteq> 0"

definition header_bytes :: "llsec \<Rightarrow> frame802154 \<Rightarrow> u8 list" where
  "header_bytes ll p = frame802154_create_fcf (fr_fcf p) @ seq_bytes p @ dest_bytes p @ src_bytes p
     @ (if has_aux ll p then aux_bytes ll (aux p) else [])"

definition fcf_ok :: "fcf \<Rightarrow> bool" where
  "fcf_ok f \<longleftrightarrow> frame_type f AND 7 = frame_type f \<and> security_enabled f AND 1 = security_enabled f \<and>
     frame_pending f AND 1 = frame_pending f \<and> ack_required f AND 1 = ack_required f \<and>
     panid_compression f AND 1 = panid_compression f \<and>
     sequence_number_suppression f AND 1 = sequence_number_suppression f \<and>
     ie_list_present f AND 1 = ie_list_present f \<and> frame_version f AND 3 = frame_version f \<and>
     dest_addr_mode f \<in> {0, 2, 3} \<and> src_addr_mode f \<in> {0, 2, 3}"

definition aux_ok :: "llsec \<Rightarrow> aux_hdr \<Rightarrow> bool" where
  "aux_ok ll a \<longleftrightarrow> security_level a AND 7 = security_level a \<and> key_id_mode a AND 3 = key_id_mode a \<and>
     frame_counter_suppression a AND 1 = frame_counter_suppression a \<and> frame_counter_size a AND 1 = frame_counter_size a \<and>
     (frame_counter_suppression a = 0 \<longrightarrow> frame_counter_size a = 0) \<and> length (frame_counter a) = 4 \<and> length (key_source a) = 8"

definition frame_ok :: "llsec \<Rightarrow> frame802154 \<Rightarrow> bool" where
  "frame_ok ll p \<longleftrightarrow> fcf_ok (fr_fcf p) \<and> aux_ok ll (aux p) \<and> length (dest_addr p) = 8 \<and> length (src_addr p) = 8 \<and>
     (dest_addr_mode (fr_fcf p) = 0 \<longrightarrow> \<not> snd (frame802154_has_panid (fr_fcf p))) \<and>
     (src_addr_mode (fr_fcf p) = 0 \<longrightarrow> \<not> fst (frame802154_has_panid (fr_fcf p)))"

text \<open>A buffer whose first bytes have been written.\<close>

definition emitted :: "u8 list \<Rightarrow> u8 list \<Rightarrow> u8 list \<times> nat" where
  "emitted out buf = (out @ drop (length out) buf, length out)"

lemma emit_emitted [simp]: "emit bs (emitted out buf) = emitted (out @ bs) buf"
  by (simp add: emit_def emitted_def blit_def add.commute)

lemma length_create_fcf [simp]: "length (frame802154_create_fcf f) = 2"
  by (simp add: frame802154_create_fcf_def)

lemma mode_and: "m \<in> {0, 2, 3} \<Longrightarrow> (m :: u8) AND 3 = m"
  by auto

lemma emit_aux_eq:
  assumes "aux_ok ll a"
  shows "emit_aux ll a (emitted out buf) = emitted (out @ aux_bytes ll a) buf"
  using assms by (simp add: emit_aux_def aux_bytes_def aux_ok_def Let_def)

lemma compress_panid_frame [simp]:
  "aux (compress_panid p) = aux p" "dest_addr (compress_panid p) = dest_addr p" "src_addr (compress_panid p) = src_addr p"
  "dest_pid (compress_panid p) = dest_pid p" "src_pid (compress_panid p) = src_pid p" "fr_seq (compress_panid p) = fr_seq p"
  "security_enabled (fr_fcf (compress_panid p)) = security_enabled (fr_fcf p)"
  "dest_addr_mode (fr_fcf (compress_panid p)) = dest_addr_mode (fr_fcf p)"
  "src_addr_mode (fr_fcf (compress_panid p)) = src_addr_mode (fr_fcf p)"
  "sequence_number_suppression (fr_fcf (compress_panid p)) = sequence_number_suppression (fr_fcf p)"
  by (simp_all add: compress_panid_def)

lemma aux_len_eq:
  assumes "frame_ok ll p"
  shows "aux_len ll p = (if has_aux ll p then length (aux_bytes ll (aux p)) else 0)"
proof -
  have m: "key_id_mode (aux p) AND 3 = key_id_mode (aux p)" using assms by (simp add: frame_ok_def aux_ok_def)
  have "key_id_mode (aux p) \<in> {0, 1, 2, 3}"
  proof -
    have "key_id_mode (aux p) < 4"
      using m and_mask_less' [of 2 "key_id_mode (aux p)"] by (simp add: mask_eq_exp_minus_1)
    then have "unat (key_id_mode (aux p)) \<in> {0, 1, 2, 3}" by (auto simp: word_less_nat_alt)
    then show ?thesis by (simp add: word_unat_eq_iff)
  qed
  with assms show ?thesis
    by (auto simp: aux_len_def has_aux_def aux_bytes_def frame_ok_def aux_ok_def fcf_ok_def get_key_id_len_def)
qed

lemma create_eq:
  assumes "frame_ok ll (compress_panid p)" "q = compress_panid p"
  shows "frame802154_create ll p buf = (length (header_bytes ll q), header_bytes ll q @ drop (length (header_bytes ll q)) buf)"
    "frame802154_hdrlen ll p = length (header_bytes ll q)"
proof -
  have q: "frame_ok ll q" using assms by simp
  have m: "dest_addr_mode (fr_fcf q) AND 3 = dest_addr_mode (fr_fcf q)" "src_addr_mode (fr_fcf q) AND 3 = src_addr_mode (fr_fcf q)"
    "sequence_number_suppression (fr_fcf q) AND 1 = sequence_number_suppression (fr_fcf q)"
    using q by (auto simp: frame_ok_def fcf_ok_def)
  have x: "aux_len ll q = (if has_aux ll q then length (aux_bytes ll (aux q)) else 0)" by (rule aux_len_eq [OF q])
  have ne: "has_aux ll q \<Longrightarrow> uses_aux_header ll \<and> aux_bytes ll (aux q) \<noteq> []" by (simp add: has_aux_def aux_bytes_def)
  have l: "length (take (addr_len (dest_addr_mode (fr_fcf q))) (dest_addr q)) = addr_len (dest_addr_mode (fr_fcf q))"
    "length (take (addr_len (src_addr_mode (fr_fcf q))) (src_addr q)) = addr_len (src_addr_mode (fr_fcf q))"
    using q by (auto simp: frame_ok_def addr_len_def)
  show "frame802154_hdrlen ll p = length (header_bytes ll q)"
    using l by (simp add: frame802154_hdrlen_def field_len_def Let_def case_prod_beta header_bytes_def seq_bytes_def
        dest_bytes_def src_bytes_def m x assms(2) [symmetric])
  have "(buf, 0) = emitted [] buf" by (simp add: emitted_def)
  then have "frame802154_create ll p buf = (snd (emitted (header_bytes ll q) buf), fst (emitted (header_bytes ll q) buf))"
    using emit_aux_eq [of ll "aux q"] q ne
    by (simp add: frame802154_create_def field_len_def Let_def case_prod_beta header_bytes_def seq_bytes_def
        dest_bytes_def src_bytes_def m x assms(2) [symmetric] frame_ok_def)
  then show "frame802154_create ll p buf = (length (header_bytes ll q), header_bytes ll q @ drop (length (header_bytes ll q)) buf)"
    by (simp add: emitted_def)
qed

section \<open>Reading what was written\<close>

lemma low_bits_eq:
  fixes x y :: u8
  shows "x AND 7 = y AND 7 \<longleftrightarrow> bit x 0 = bit y 0 \<and> bit x 1 = bit y 1 \<and> bit x 2 = bit y 2"
    "x AND 3 = y AND 3 \<longleftrightarrow> bit x 0 = bit y 0 \<and> bit x 1 = bit y 1" "x AND 1 = y AND 1 \<longleftrightarrow> bit x 0 = bit y 0"
proof -
  have "x AND mask m = y AND mask m \<longleftrightarrow> (\<forall>n < m. bit x n = bit y n)" if "m \<le> 8" for m
    using that by (auto simp: bit_eq_iff bit_simps) (meson order_less_le_trans)+
  from this [of 3] this [of 2] this [of 1]
  show "x AND 7 = y AND 7 \<longleftrightarrow> bit x 0 = bit y 0 \<and> bit x 1 = bit y 1 \<and> bit x 2 = bit y 2"
    "x AND 3 = y AND 3 \<longleftrightarrow> bit x 0 = bit y 0 \<and> bit x 1 = bit y 1" "x AND 1 = y AND 1 \<longleftrightarrow> bit x 0 = bit y 0"
    by (simp_all add: mask_eq_exp_minus_1 numeral_eq_Suc All_less_Suc conj_ac)
qed

text \<open>The fields of the two bytes of the control field do not overlap.\<close>

lemma fcf_bits:
  fixes a b c d e :: u8
  defines "w \<equiv> (a AND 7) OR push_bit 3 (b AND 1) OR push_bit 4 (c AND 1) OR push_bit 5 (d AND 1) OR push_bit 6 (e AND 1)"
  shows "w AND 7 = a AND 7" "drop_bit 3 w AND 1 = b AND 1" "drop_bit 4 w AND 1 = c AND 1" "drop_bit 5 w AND 1 = d AND 1"
    "drop_bit 6 w AND 1 = e AND 1"
  by (simp_all only: w_def low_bits_eq) (simp_all add: bit_simps del: push_bit_Suc)

lemma fcf_bits':
  fixes a b c d e :: u8
  defines "w \<equiv> (a AND 1) OR push_bit 1 (b AND 1) OR push_bit 2 (c AND 3) OR push_bit 4 (d AND 3) OR push_bit 6 (e AND 3)"
  shows "w AND 1 = a AND 1" "drop_bit 1 w AND 1 = b AND 1" "drop_bit 2 w AND 3 = c AND 3" "drop_bit 4 w AND 3 = d AND 3"
    "drop_bit 6 w AND 3 = e AND 3"
  by (simp_all only: w_def low_bits_eq) (simp_all add: bit_simps del: push_bit_Suc)

lemma parse_create_fcf:
  assumes "fcf_ok f"
  shows "frame802154_parse_fcf (frame802154_create_fcf f @ rest) = f"
proof -
  obtain a b where ab: "frame802154_create_fcf f = [a, b]" by (simp add: frame802154_create_fcf_def)
  note bits = ab [unfolded frame802154_create_fcf_def list.inject, THEN conjunct1, symmetric]
    ab [unfolded frame802154_create_fcf_def list.inject, THEN conjunct2, THEN conjunct1, symmetric]
  have d: "([a, b] @ rest) ! 0 = a" "([a, b] @ rest) ! 1 = b" by simp_all
  have "frame802154_parse_fcf ([a, b] @ rest) = \<lparr>frame_type = frame_type f AND 7, security_enabled = security_enabled f AND 1,
      frame_pending = frame_pending f AND 1, ack_required = ack_required f AND 1,
      panid_compression = panid_compression f AND 1,
      sequence_number_suppression = sequence_number_suppression f AND 1, ie_list_present = ie_list_present f AND 1,
      dest_addr_mode = dest_addr_mode f AND 3, frame_version = frame_version f AND 3, src_addr_mode = src_addr_mode f AND 3\<rparr>"
    unfolding frame802154_parse_fcf_def d unfolding bits fcf_bits fcf_bits' ..
  also have "\<dots> = f"
    using assms mode_and [of "dest_addr_mode f"] mode_and [of "src_addr_mode f"] by (simp add: fcf_ok_def)
  finally show ?thesis by (simp only: ab)
qed

text \<open>Each reader consumes what the writer produced, wherever it stands in the data.\<close>

lemma nth_behind: "n = length pre \<Longrightarrow> (pre @ bs) ! (n + k) = bs ! k" "n = length pre \<Longrightarrow> (pre @ bs) ! n = bs ! 0"
  "n = length pre \<Longrightarrow> (pre @ bs) ! Suc n = bs ! 1"
  by (simp_all add: nth_append)

lemma read_u16_le16: "n = length pre \<Longrightarrow> read_u16 (pre @ le16 w @ rest) n = w"
proof -
  assume n: "n = length pre"
  have "ucast (ucast w :: u8) + push_bit 8 (ucast (ucast (drop_bit 8 w) :: u8)) = w"
    by (subst disjunctive_add) (auto simp: bit_simps bit_eq_iff)
  then show ?thesis by (simp add: read_u16_def nth_behind [OF n] le16_def)
qed

definition shown_addr :: "u8 \<Rightarrow> u8 list \<Rightarrow> u8 list" where
  "shown_addr mode a = (if mode = 2 then take 2 a @ replicate 6 0 else if mode = 3 then a else replicate 8 0)"

lemma eight:
  assumes "length st = 8"
  obtains a b c d e f g h where "st = [a, b, c, d, e, f, g, h]"
  using assms by (auto simp: eval_nat_numeral length_Suc_conv)

lemma null_bytes [simp]: "linkaddr_bytes linkaddr_null = replicate 8 0"
  by (simp add: linkaddr_null_def numeral_eq_Suc)

lemma read_addr_rev:
  assumes "n = length pre" "length a = 8" "length old = 8" "mode \<in> {2, 3}"
  shows "read_addr (pre @ rev (take (addr_len mode) a) @ rest) n mode old = shown_addr mode a"
  using assms(2-4)
  by (elim eight) (auto simp: read_addr_def shown_addr_def addr_len_def frame_consts nth_behind [OF assms(1)] blit_def upt_rec
      numeral_eq_Suc)

lemma addr_len_3 [simp]: "addr_len 0 = 0" "addr_len 2 = 2" "addr_len 3 = 8"
  by (simp_all add: addr_len_def frame_consts)

text \<open>The identifier a reader finds: its own field, the destination's, or none.\<close>

definition shown_dest_pid :: "frame802154 \<Rightarrow> u16" where
  "shown_dest_pid p = (if snd (frame802154_has_panid (fr_fcf p)) then dest_pid p else 0)"

lemma parse_dest_eq:
  assumes "frame_ok ll p" "n = length pre" "length (dest_addr pf) = 8" "has = snd (frame802154_has_panid (fr_fcf p))"
  shows "parse_dest (pre @ dest_bytes p @ rest) (fr_fcf p) has (pf, n) =
    (pf\<lparr>dest_addr := shown_addr (dest_addr_mode (fr_fcf p)) (dest_addr p), dest_pid := shown_dest_pid p\<rparr>,
     n + length (dest_bytes p))"
proof -
  let ?m = "dest_addr_mode (fr_fcf p)"
  have m: "?m \<in> {0, 2, 3}" "length (dest_addr p) = 8" "?m = 0 \<Longrightarrow> \<not> has" using assms(1,4) by (auto simp: frame_ok_def fcf_ok_def)
  show ?thesis
  proof (cases "?m = 0")
    case True
    then show ?thesis using m(3) assms(3,4)
      by (simp add: parse_dest_def dest_bytes_def shown_dest_pid_def shown_addr_def blit_def)
  next
    case False
    then have m': "?m \<in> {2, 3}" using m(1) by simp
    let ?a = "rev (take (addr_len ?m) (dest_addr p))"
    have "read_addr ((pre @ le16 (dest_pid p)) @ ?a @ rest) (n + 2) ?m old = shown_addr ?m (dest_addr p)" if "length old = 8" for old
      by (rule read_addr_rev [OF _ m(2) that m']) (simp add: assms(2))
    moreover have "read_addr (pre @ ?a @ rest) n ?m old = shown_addr ?m (dest_addr p)" if "length old = 8" for old
      by (rule read_addr_rev [OF assms(2) m(2) that m'])
    moreover have "length ?a = addr_len ?m" using m' m(2) by auto
    ultimately show ?thesis
      using False assms(2-4) by (simp add: parse_dest_def dest_bytes_def shown_dest_pid_def read_u16_le16 numeral_eq_Suc)
  qed
qed

definition shown_pids :: "frame802154 \<Rightarrow> u16 \<times> u16" where
  "shown_pids p =
     (let (has_src, has_dest) = frame802154_has_panid (fr_fcf p)
      in if src_addr_mode (fr_fcf p) = 0 then (shown_dest_pid p, 0)
         else if has_src then (if has_dest then dest_pid p else src_pid p, src_pid p)
         else (shown_dest_pid p, shown_dest_pid p))"

lemma parse_src_eq:
  assumes "frame_ok ll p" "n = length pre" "length (src_addr pf) = 8" "(has_s, has_d) = frame802154_has_panid (fr_fcf p)"
    and "dest_pid pf = shown_dest_pid p"
  shows "parse_src (pre @ src_bytes p @ rest) (fr_fcf p) has_s has_d (pf, n) =
    (pf\<lparr>src_addr := shown_addr (src_addr_mode (fr_fcf p)) (src_addr p), dest_pid := fst (shown_pids p),
        src_pid := snd (shown_pids p)\<rparr>,
     n + length (src_bytes p))"
proof -
  let ?m = "src_addr_mode (fr_fcf p)"
  have h: "has_s = fst (frame802154_has_panid (fr_fcf p))" "has_d = snd (frame802154_has_panid (fr_fcf p))" using assms(4) by (metis fst_conv, metis snd_conv)
  have m: "?m \<in> {0, 2, 3}" "length (src_addr p) = 8" "?m = 0 \<Longrightarrow> \<not> has_s" using assms(1) h by (auto simp: frame_ok_def fcf_ok_def)
  show ?thesis
  proof (cases "?m = 0")
    case True
    then show ?thesis using m(3) assms(3,5) h
      by (simp add: parse_src_def src_bytes_def shown_pids_def shown_addr_def blit_def case_prod_beta)
  next
    case False
    then have m': "?m \<in> {2, 3}" using m(1) by simp
    let ?a = "rev (take (addr_len ?m) (src_addr p))"
    have "read_addr ((pre @ le16 (src_pid p)) @ ?a @ rest) (n + 2) ?m old = shown_addr ?m (src_addr p)" if "length old = 8" for old
      by (rule read_addr_rev [OF _ m(2) that m']) (simp add: assms(2))
    moreover have "read_addr (pre @ ?a @ rest) n ?m old = shown_addr ?m (src_addr p)" if "length old = 8" for old
      by (rule read_addr_rev [OF assms(2) m(2) that m'])
    moreover have "length ?a = addr_len ?m" using m' m(2) by auto
    ultimately show ?thesis
      using False assms(2,3,5) h
      by (simp add: parse_src_def src_bytes_def shown_pids_def shown_dest_pid_def read_u16_le16 numeral_eq_Suc case_prod_beta)
  qed
qed

text \<open>The security header.\<close>

lemma aux_bits:
  fixes a b c d :: u8
  defines "w \<equiv> (a AND 7) OR push_bit 3 (b AND 3) OR push_bit 5 (c AND 1) OR push_bit 6 (d AND 1)"
  shows "w AND 7 = a AND 7" "drop_bit 3 w AND 3 = b AND 3" "drop_bit 5 w = (c AND 1) OR push_bit 1 (d AND 1)"
    "drop_bit 6 w = d AND 1"
proof -
  show "w AND 7 = a AND 7" "drop_bit 3 w AND 3 = b AND 3"
    by (simp_all only: w_def low_bits_eq) (simp_all add: bit_simps del: push_bit_Suc)
  have one: "bit (1 :: u8) n \<longleftrightarrow> n = 0" "bit (7 :: u8) n \<longleftrightarrow> n < 3" "bit (3 :: u8) n \<longleftrightarrow> n < 2" for n
    using bit_mask_iff [of 3 n, where 'a = u8] bit_mask_iff [of 2 n, where 'a = u8]
    by (auto simp: mask_eq_exp_minus_1 bit_1_iff)
  show "drop_bit 5 w = (c AND 1) OR push_bit 1 (d AND 1)" "drop_bit 6 w = d AND 1"
    by (rule bit_word_eqI; auto simp: w_def bit_simps one simp del: push_bit_Suc)+
qed

definition shown_aux :: "llsec \<Rightarrow> aux_hdr \<Rightarrow> aux_hdr \<Rightarrow> aux_hdr" where
  "shown_aux ll a old =
     (let keyed = uses_explicit_keys ll \<and> key_id_mode a \<noteq> 0; c = (unat (key_id_mode a) - 1) * 4
      in old\<lparr>security_level := security_level a,
             key_id_mode := (if uses_explicit_keys ll then key_id_mode a else key_id_mode old),
             frame_counter_suppression := frame_counter_suppression a OR push_bit 1 (frame_counter_size a),
             frame_counter_size := frame_counter_size a,
             frame_counter := (if frame_counter_suppression a = 0 then frame_counter a else frame_counter old),
             key_source := (if keyed then take c (key_source a) @ drop c (key_source old) else key_source old),
             key_index := (if keyed then key_index a else key_index old)\<rparr>)"

definition aux_control :: "llsec \<Rightarrow> aux_hdr \<Rightarrow> u8" where
  "aux_control ll a = security_level a OR push_bit 3 (if uses_explicit_keys ll then key_id_mode a else 0)
     OR push_bit 5 (frame_counter_suppression a) OR push_bit 6 (frame_counter_size a)"

lemma aux_control_bits:
  assumes "aux_ok ll a"
  shows "aux_control ll a AND 7 = security_level a"
    "drop_bit 3 (aux_control ll a) AND 3 = (if uses_explicit_keys ll then key_id_mode a else 0)"
    "drop_bit 5 (aux_control ll a) = frame_counter_suppression a OR push_bit 1 (frame_counter_size a)"
    "drop_bit 6 (aux_control ll a) = frame_counter_size a"
proof -
  define m where "m = (if uses_explicit_keys ll then key_id_mode a else 0)"
  have e: "security_level a AND 7 = security_level a" "m AND 3 = m" "frame_counter_suppression a AND 1 = frame_counter_suppression a"
    "frame_counter_size a AND 1 = frame_counter_size a"
    using assms by (auto simp: aux_ok_def m_def)
  note bits = aux_bits [of "security_level a" m "frame_counter_suppression a" "frame_counter_size a", unfolded e]
  show "aux_control ll a AND 7 = security_level a" "drop_bit 3 (aux_control ll a) AND 3 = (if uses_explicit_keys ll then key_id_mode a else 0)"
    "drop_bit 5 (aux_control ll a) = frame_counter_suppression a OR push_bit 1 (frame_counter_size a)"
    "drop_bit 6 (aux_control ll a) = frame_counter_size a"
    unfolding aux_control_def m_def [symmetric] by (rule bits)+
qed

lemma key_mode_small:
  assumes "aux_ok ll a" "key_id_mode a \<noteq> 0"
  shows "(unat (key_id_mode a) - 1) * 4 \<le> 8"
proof -
  have "key_id_mode a < 4"
    using assms(1) and_mask_less' [of 2 "key_id_mode a"] by (simp add: mask_eq_exp_minus_1 aux_ok_def)
  then show ?thesis by (simp add: word_less_nat_alt)
qed

lemma counter_flag:
  assumes "aux_ok ll a"
  shows "frame_counter_suppression a OR push_bit 1 (frame_counter_size a) = 0 \<longleftrightarrow> frame_counter_suppression a = 0"
  using assms by (auto simp: aux_ok_def or_eq_0_iff)

lemma sub_behind: "n = length pre \<Longrightarrow> k = length bs \<Longrightarrow> sub (pre @ bs @ rest) n k = bs"
  by (simp add: sub_def)

lemma parse_aux_eq:
  assumes "aux_ok ll a" "n = length pre" "length (frame_counter old) = 4" "length (key_source old) = 8"
  shows "parse_aux ll (pre @ aux_bytes ll a @ rest) (old, n) = (shown_aux ll a old, n + length (aux_bytes ll a))"
proof -
  define c where "c = (unat (key_id_mode a) - 1) * 4"
  define counter where "counter = (if frame_counter_suppression a = 0 then frame_counter a else [])"
  define keyed where "keyed \<longleftrightarrow> uses_explicit_keys ll \<and> key_id_mode a \<noteq> 0"
  define key where "key = (if keyed then take c (key_source a) @ [key_index a] else [])"
  define data where "data = pre @ aux_bytes ll a @ rest"
  have b: "aux_bytes ll a = aux_control ll a # counter @ key"
    using assms(1) by (simp add: aux_bytes_def aux_control_def aux_ok_def counter_def key_def c_def keyed_def)
  have ctl: "data ! n = aux_control ll a" using assms(2) by (simp add: data_def b nth_append)
  have len: "length counter = (if frame_counter_suppression a = 0 then 4 else 0)" "keyed \<Longrightarrow> length (take c (key_source a)) = c" "keyed \<Longrightarrow> c \<le> 8"
    using assms(1) key_mode_small [OF assms(1)] by (auto simp: aux_ok_def counter_def c_def keyed_def)
  have ctr: "sub data (n + 1) (length counter) = counter"
    using sub_behind [of "n + 1" "pre @ [aux_control ll a]" "length counter" counter "key @ rest"] assms(2) by (simp add: data_def b)
  have k1: "sub data (n + 1 + length counter) c = take c (key_source a)" if keyed
    using sub_behind [of _ "pre @ aux_control ll a # counter" c "take c (key_source a)" "key_index a # rest"] that assms(2) len(2)
    by (simp add: data_def b key_def)
  have k2: "data ! (n + 1 + length counter + c) = key_index a" if keyed
    using nth_behind(2) [of _ "pre @ aux_control ll a # counter @ take c (key_source a)" "key_index a # rest"] that assms(2) len(2)
    by (simp add: data_def b key_def add.assoc)
  have zero: "frame_counter_size a = 0" if "frame_counter_suppression a = 0" using assms(1) that by (simp add: aux_ok_def)
  have c: "(unat (key_id_mode a) - Suc 0) * 4 = c" by (simp add: c_def)
  note bits = aux_control_bits [OF assms(1)] counter_flag [OF assms(1)]
  have l4: "length (frame_counter a) = 4" using assms(1) by (simp add: aux_ok_def)
  show ?thesis
  proof (cases "frame_counter_suppression a = 0")
    case True
    then have "counter = frame_counter a" by (simp add: counter_def)
    with True show ?thesis
      using ctr k1 k2 len zero assms(3,4) l4 unfolding data_def [symmetric]
      by (cases keyed) (auto simp: parse_aux_def shown_aux_def ctl bits c keyed_def b key_def blit_def Let_def)
  next
    case False
    then have "counter = []" by (simp add: counter_def)
    with False show ?thesis
      using k1 k2 len assms(3,4) unfolding data_def [symmetric]
      by (cases keyed) (auto simp: parse_aux_def shown_aux_def ctl bits c keyed_def b key_def blit_def Let_def or_eq_0_iff)
  qed
qed

lemma has_panid_seq [simp]: "length (seq_bytes p) = (if sequence_number_suppression (fr_fcf p) = 0 then 1 else 0)"
  by (simp add: seq_bytes_def)

definition buffers_ok :: "frame802154 \<Rightarrow> bool" where
  "buffers_ok pf \<longleftrightarrow> length (dest_addr pf) = 8 \<and> length (src_addr pf) = 8 \<and> length (frame_counter (aux pf)) = 4 \<and>
     length (key_source (aux pf)) = 8"

text \<open>What a reader makes of a header of \<open>p\<close>, starting from \<open>pf\<close>.\<close>

definition shown_frame :: "llsec \<Rightarrow> nat \<Rightarrow> frame802154 \<Rightarrow> frame802154 \<Rightarrow> frame802154" where
  "shown_frame ll len p pf =
     pf\<lparr>fr_fcf := fr_fcf p, fr_seq := (if sequence_number_suppression (fr_fcf p) = 0 then fr_seq p else fr_seq pf),
        dest_addr := shown_addr (dest_addr_mode (fr_fcf p)) (dest_addr p),
        src_addr := shown_addr (src_addr_mode (fr_fcf p)) (src_addr p),
        dest_pid := fst (shown_pids p), src_pid := snd (shown_pids p),
        aux := (if has_aux ll p then shown_aux ll (aux p) (aux pf) else aux pf),
        payload_len := int len - int (length (header_bytes ll p)), payload_at := length (header_bytes ll p)\<rparr>"

lemma parse_header:
  assumes "frame_ok ll p" "buffers_ok pf" "length (header_bytes ll p) \<le> len"
  shows "frame802154_parse ll (header_bytes ll p @ rest) len pf = (length (header_bytes ll p), shown_frame ll len p pf)"
proof -
  let ?f = "fr_fcf p" and ?ab = "if has_aux ll p then aux_bytes ll (aux p) else []"
  let ?data = "header_bytes ll p @ rest"
  have split: "?data = frame802154_create_fcf ?f @ (seq_bytes p @ dest_bytes p @ src_bytes p @ ?ab @ rest)"
    by (simp add: header_bytes_def)
  have fcf: "frame802154_parse_fcf ?data = ?f"
    unfolding split using assms(1) by (intro parse_create_fcf) (simp add: frame_ok_def)
  have seq: "?data ! 2 = fr_seq p" if "sequence_number_suppression ?f = 0"
    unfolding split using that by (simp add: nth_append seq_bytes_def)
  obtain hs hds where hp: "frame802154_has_panid ?f = (hs, hds)" by fastforce
  let ?pf1 = "pf\<lparr>fr_fcf := ?f, fr_seq := (if sequence_number_suppression ?f = 0 then fr_seq p else fr_seq pf)\<rparr>"
  let ?n1 = "2 + length (seq_bytes p)" and ?n2 = "2 + length (seq_bytes p) + length (dest_bytes p)"
  let ?n3 = "?n2 + length (src_bytes p)"
  let ?pf2 = "?pf1\<lparr>dest_addr := shown_addr (dest_addr_mode ?f) (dest_addr p), dest_pid := shown_dest_pid p\<rparr>"
  let ?pf3 = "?pf2\<lparr>src_addr := shown_addr (src_addr_mode ?f) (src_addr p), dest_pid := fst (shown_pids p), src_pid := snd (shown_pids p)\<rparr>"
  have dest: "parse_dest ?data ?f hds (?pf1, ?n1) = (?pf2, ?n2)"
    using parse_dest_eq [OF assms(1), of ?n1 "frame802154_create_fcf ?f @ seq_bytes p" ?pf1 hds "src_bytes p @ ?ab @ rest"]
      assms(2) hp by (simp add: split buffers_ok_def)
  have src: "parse_src ?data ?f hs hds (?pf2, ?n2) = (?pf3, ?n3)"
    using parse_src_eq [OF assms(1), of ?n2 "frame802154_create_fcf ?f @ seq_bytes p @ dest_bytes p" ?pf2 hs hds "?ab @ rest"]
      assms(2) hp by (simp add: split buffers_ok_def)
  have aux: "parse_aux ll ?data (aux pf, ?n3) = (shown_aux ll (aux p) (aux pf), ?n3 + length ?ab)" if "has_aux ll p"
    using parse_aux_eq [of ll "aux p" ?n3 "frame802154_create_fcf ?f @ seq_bytes p @ dest_bytes p @ src_bytes p" "aux pf" rest]
      assms(1,2) that by (simp add: split buffers_ok_def frame_ok_def)
  have len: "length (header_bytes ll p) = ?n3 + length ?ab" by (simp add: header_bytes_def)
  then have two: "\<not> len < 2" using assms(3) by simp
  have first: "(if sequence_number_suppression ?f = 0 then (pf\<lparr>fr_fcf := ?f, fr_seq := ?data ! 2\<rparr>, 3) else (pf\<lparr>fr_fcf := ?f\<rparr>, 2)) =
      (?pf1, ?n1)"
    using seq by (cases pf) (simp add: numeral_eq_Suc)
  have last: "(if uses_aux_header ll \<and> security_enabled ?f \<noteq> 0
      then let (a, n) = parse_aux ll ?data (aux ?pf3, ?n3) in (?pf3\<lparr>aux := a\<rparr>, n) else (?pf3, ?n3)) =
      (?pf3\<lparr>aux := (if has_aux ll p then shown_aux ll (aux p) (aux pf) else aux pf)\<rparr>, length (header_bytes ll p))"
    using aux by (cases pf) (auto simp: has_aux_def len)
  show ?thesis
    unfolding frame802154_parse_def Let_def fcf hp prod.case first [unfolded prod.case] dest src last [unfolded Let_def]
    using two assms(3) by (cases pf) (simp add: shown_frame_def first dest src last)
qed

text \<open>
  The reader does not mask the suppression bit: with a five-byte counter it finds 2 there and
  skips one byte where the writer used six.
\<close>

lemma five_byte_counter:
  assumes "\<not> uses_explicit_keys ll" "security_level a AND 7 = security_level a"
    and "frame_counter_suppression a = 0" "frame_counter_size a = 1" "n = length pre"
  shows "snd (emit_aux ll a st) = snd st + 1 + length (take 4 (frame_counter a)) + 1"
    "snd (parse_aux ll (pre @ aux_bytes ll a @ rest) (old, n)) = n + 1"
proof -
  show "snd (emit_aux ll a st) = snd st + 1 + length (take 4 (frame_counter a)) + 1"
    using assms by (simp add: emit_aux_def Let_def emit_def)
  have "drop_bit 5 (security_level a OR push_bit 6 1) = 2"
    using aux_bits(3) [of "security_level a" 0 0 1] assms(2) by simp
  then show "snd (parse_aux ll (pre @ aux_bytes ll a @ rest) (old, n)) = n + 1"
    using assms by (simp add: parse_aux_def Let_def aux_bytes_def nth_append case_prod_beta)
qed

text \<open>However the bytes are chosen, a header is at most 38 bytes long.\<close>

lemma addr_len_le: "addr_len m \<le> 8"
  by (simp add: addr_len_def)

lemma parse_dest_le: "snd (parse_dest data f h st) \<le> snd st + 10"
  using addr_len_le [of "dest_addr_mode f"] by (auto simp: parse_dest_def Let_def split: prod.splits)

lemma parse_src_le: "snd (parse_src data f h h' st) \<le> snd st + 10"
  using addr_len_le [of "src_addr_mode f"] by (auto simp: parse_src_def Let_def split: prod.splits)

lemma parse_aux_le: "snd (parse_aux ll data (a, n)) \<le> n + 15"
proof -
  have small: "(unat (x AND 3 :: u8) - Suc 0) * 4 \<le> 8" for x :: u8
    using and_mask_less' [of 2 x] by (simp add: mask_eq_exp_minus_1 word_less_nat_alt)
  show ?thesis
    using small [of "drop_bit 3 (data ! n)"] by (auto simp: parse_aux_def Let_def)
qed

lemma parse_le: "fst (frame802154_parse ll data len pf) \<le> 38" "fst (frame802154_parse ll data len pf) \<le> len"
proof -
  let ?f = "frame802154_parse_fcf data"
  let ?st = "if sequence_number_suppression ?f = 0 then (pf\<lparr>fr_fcf := ?f, fr_seq := data ! 2\<rparr>, 3) else (pf\<lparr>fr_fcf := ?f\<rparr>, 2)"
  obtain hs hds where hp: "frame802154_has_panid ?f = (hs, hds)" by fastforce
  obtain d n1 where d: "parse_dest data ?f hds ?st = (d, n1)" by fastforce
  obtain s n2 where s: "parse_src data ?f hs hds (d, n1) = (s, n2)" by fastforce
  obtain a n3 where a: "parse_aux ll data (aux s, n2) = (a, n3)" by fastforce
  have "n1 \<le> 13" using parse_dest_le [of data ?f hds ?st] d by (auto split: if_splits)
  moreover have "n2 \<le> n1 + 10" using parse_src_le [of data ?f hs hds "(d, n1)"] s by simp
  moreover have "n3 \<le> n2 + 15" using parse_aux_le [of ll data "aux s" n2] a by simp
  ultimately show "fst (frame802154_parse ll data len pf) \<le> 38" "fst (frame802154_parse ll data len pf) \<le> len"
    using d s a by (auto simp: frame802154_parse_def hp Let_def split: if_splits)
qed

lemma hdrlen_le: "frame802154_hdrlen ll p \<le> 38"
proof -
  have "aux_len ll p \<le> 15" for p by (simp add: aux_len_def get_key_id_len_def)
  moreover note addr_len_le
  ultimately have "aux_len ll (compress_panid p) \<le> 15" "addr_len (dest_addr_mode (fr_fcf p) AND 3) \<le> 8"
    "addr_len (src_addr_mode (fr_fcf p) AND 3) \<le> 8" by blast+
  then show ?thesis by (simp add: frame802154_hdrlen_def field_len_def Let_def case_prod_beta)
qed

end
