(* ===== verification/Framer_802154.thy ===== *)
theory Framer_802154 imports Frame_802154 begin

text \<open>
  The framer (\<open>os/net/mac/framer/framer-802154.c\<close>): a header for what the packet buffer holds,
  built from its attributes and addresses, and the way back. \<open>pan_id\<close> is the node's PAN
  identifier; the parser's frame variable starts with the bytes \<open>f0\<close>.
\<close>

section \<open>The code\<close>

definition zero_frame :: frame802154 where
  "zero_frame = \<lparr>dest_addr = replicate 8 0, src_addr = replicate 8 0,
     fr_fcf = \<lparr>frame_type = 0, security_enabled = 0, frame_pending = 0, ack_required = 0, panid_compression = 0,
       sequence_number_suppression = 0, ie_list_present = 0, dest_addr_mode = 0, frame_version = 0, src_addr_mode = 0\<rparr>,
     fr_seq = 0, dest_pid = 0, src_pid = 0,
     aux = \<lparr>security_level = 0, key_id_mode = 0, frame_counter_suppression = 0, frame_counter_size = 0,
       frame_counter = replicate 4 0, key_source = replicate 8 0, key_index = 0\<rparr>,
     payload_at = 0, payload_len = 0\<rparr>"

definition setup_aux :: "llsec \<Rightarrow> (pb_attr \<Rightarrow> u16) \<Rightarrow> frame802154 \<Rightarrow> frame802154" where
  "setup_aux ll get_attr p =
     (if uses_aux_header ll then
        let p = (if get_attr ATTR_SECURITY_LEVEL \<noteq> 0 then p\<lparr>fr_fcf := (fr_fcf p)\<lparr>security_enabled := 1\<rparr>\<rparr> else p);
            a = (aux p)\<lparr>security_level := ucast (get_attr ATTR_SECURITY_LEVEL)\<rparr>;
            a = (if uses_frame_counter ll
                 then a\<lparr>frame_counter := le16 (get_attr ATTR_FRAME_COUNTER_BYTES_0_1) @ le16 (get_attr ATTR_FRAME_COUNTER_BYTES_2_3)\<rparr>
                 else a\<lparr>frame_counter_suppression := 1, frame_counter_size := 1\<rparr>);
            a = (if uses_explicit_keys ll
                 then a\<lparr>key_id_mode := ucast (get_attr ATTR_KEY_ID_MODE), key_index := ucast (get_attr ATTR_KEY_INDEX)\<rparr>
                 else a)
        in p\<lparr>aux := a\<rparr>
      else p\<lparr>fr_fcf := (fr_fcf p)\<lparr>security_enabled := 0\<rparr>\<rparr>)"

definition addr_mode :: "bool \<Rightarrow> bool \<Rightarrow> u8" where
  "addr_mode none broadcast =
     (if none then FRAME802154_NOADDR
      else if broadcast then FRAME802154_SHORTADDRMODE
      else if LINKADDR_SIZE = 2 then FRAME802154_SHORTADDRMODE else FRAME802154_LONGADDRMODE)"

definition framer_802154_setup_params :: "llsec \<Rightarrow> u16 \<Rightarrow> (pb_attr \<Rightarrow> u16) \<Rightarrow> bool \<Rightarrow> frame802154 \<Rightarrow> frame802154" where
  "framer_802154_setup_params ll pan_id get_attr dest_is_broadcast p =
     (let f = (fr_fcf p)\<lparr>frame_type := ucast (get_attr ATTR_FRAME_TYPE), frame_pending := 0\<rparr>;
          f = (if dest_is_broadcast
               then f\<lparr>ack_required := 0,
                      sequence_number_suppression := of_bool (frame_version_opt ll \<ge> FRAME802154_IEEE802154_2015)\<rparr>
               else f\<lparr>ack_required := ucast (get_attr ATTR_MAC_ACK), sequence_number_suppression := suppr_seqno ll\<rparr>);
          f = f\<lparr>ie_list_present := ucast (get_attr ATTR_MAC_METADATA), frame_version := frame_version_opt ll\<rparr>;
          p = setup_aux ll get_attr (p\<lparr>fr_fcf := f\<rparr>);
          p = p\<lparr>fr_seq := ucast (get_attr ATTR_MAC_SEQNO), src_pid := pan_id, dest_pid := pan_id\<rparr>;
          s = addr_mode (get_attr ATTR_MAC_NO_SRC_ADDR = 1) False;
          d = addr_mode (get_attr ATTR_MAC_NO_DEST_ADDR = 1) dest_is_broadcast
      in p\<lparr>fr_fcf := (fr_fcf p)\<lparr>src_addr_mode := s, dest_addr_mode := d,
             panid_compression := of_bool (s = FRAME802154_SHORTADDRMODE \<or> d = FRAME802154_SHORTADDRMODE)\<rparr>\<rparr>)"

definition frame_params :: "llsec \<Rightarrow> u16 \<Rightarrow> packetbuf \<Rightarrow> frame802154" where
  "frame_params ll pan_id pb =
     (let p = framer_802154_setup_params ll pan_id (packetbuf_attr pb) (packetbuf_holds_broadcast pb) zero_frame;
          p = p\<lparr>dest_addr := (if packetbuf_holds_broadcast pb then (dest_addr p)[0 := 0xff, 1 := 0xff]
                             else blit (dest_addr p) 0 (linkaddr_bytes (linkaddr_copy (packetbuf_addr pb ADDR_RECEIVER))))\<rparr>;
          p = p\<lparr>src_addr := blit (src_addr p) 0 (linkaddr_bytes (linkaddr_copy (packetbuf_addr pb ADDR_SENDER)))\<rparr>
      in p\<lparr>payload_at := packetbuf_dataptr pb, payload_len := int (packetbuf_datalen pb)\<rparr>)"

definition framer_create_frame :: "llsec \<Rightarrow> u16 \<Rightarrow> bool \<Rightarrow> packetbuf \<Rightarrow> int \<times> packetbuf" where
  "framer_create_frame ll pan_id do_create pb =
     (if pan_id = 0xffff then (- 1, pb)
      else
        let params = frame_params ll pan_id pb;
            hdr_len = frame802154_hdrlen ll params
        in if \<not> do_create then (int hdr_len, pb)
           else
             let (ok, pb) = packetbuf_hdralloc hdr_len pb
             in if ok \<noteq> 0 then (int hdr_len, pb\<lparr>pbuf := snd (frame802154_create ll params (pbuf pb))\<rparr>)
                else (- 1, pb))"

definition framer_hdr_length :: "llsec \<Rightarrow> u16 \<Rightarrow> packetbuf \<Rightarrow> int" where
  "framer_hdr_length ll pan_id pb = fst (framer_create_frame ll pan_id False pb)"

definition framer_create :: "llsec \<Rightarrow> u16 \<Rightarrow> packetbuf \<Rightarrow> int \<times> packetbuf" where
  "framer_create ll pan_id pb = framer_create_frame ll pan_id True pb"

definition note_frame :: "llsec \<Rightarrow> frame802154 \<Rightarrow> packetbuf \<Rightarrow> packetbuf" where
  "note_frame ll fr pb =
     (let pb = packetbuf_set_addr ADDR_SENDER (linkaddr_of (src_addr fr)) pb;
          pb = packetbuf_set_attr ATTR_MAC_SEQNO
                 (if sequence_number_suppression (fr_fcf fr) = 0 then ucast (fr_seq fr) else 0xffff) pb
      in if uses_aux_header ll \<and> security_enabled (fr_fcf fr) \<noteq> 0 then
           let a = aux fr;
               pb = packetbuf_set_attr ATTR_SECURITY_LEVEL (ucast (security_level a)) pb;
               pb = (if uses_frame_counter ll then
                       packetbuf_set_attr ATTR_FRAME_COUNTER_BYTES_2_3 (of_le16 (drop 2 (frame_counter a)))
                         (packetbuf_set_attr ATTR_FRAME_COUNTER_BYTES_0_1 (of_le16 (frame_counter a)) pb)
                     else pb)
           in if uses_explicit_keys ll then
                packetbuf_set_attr ATTR_KEY_INDEX (ucast (key_index a))
                  (packetbuf_set_attr ATTR_KEY_ID_MODE (ucast (key_id_mode a)) pb)
              else pb
         else pb)"

definition framer_parse :: "llsec \<Rightarrow> u16 \<Rightarrow> frame802154 \<Rightarrow> packetbuf \<Rightarrow> int \<times> packetbuf" where
  "framer_parse ll pan_id f0 pb =
     (let (hdr_len, fr) = frame802154_parse ll (drop (packetbuf_dataptr pb) (pbuf pb)) (packetbuf_datalen pb) f0;
          (ok, pb) = (if hdr_len \<noteq> 0 then packetbuf_hdrreduce hdr_len pb else (0, pb))
      in if ok \<noteq> 0 then
           let pb = packetbuf_set_attr ATTR_FRAME_TYPE (ucast (frame_type (fr_fcf fr))) pb;
               pb = packetbuf_set_attr ATTR_MAC_ACK (ucast (ack_required (fr_fcf fr))) pb
           in if dest_addr_mode (fr_fcf fr) \<noteq> 0 \<and> dest_pid fr \<noteq> pan_id \<and> dest_pid fr \<noteq> FRAME802154_BROADCASTPANDID
              then (- 1, pb)
              else
                let pb = (if dest_addr_mode (fr_fcf fr) \<noteq> 0 \<and>
                             \<not> frame802154_is_broadcast_addr (dest_addr_mode (fr_fcf fr)) (dest_addr fr)
                          then packetbuf_set_addr ADDR_RECEIVER (linkaddr_of (dest_addr fr)) pb else pb)
                in (int hdr_len, note_frame ll fr pb)
         else (- 1, pb))"

section \<open>Room for a header\<close>

text \<open>A position below \<open>n\<close> in a buffer of fixed size.\<close>

definition writing :: "nat \<Rightarrow> nat \<Rightarrow> u8 list \<times> nat \<Rightarrow> bool" where
  "writing sz n st \<longleftrightarrow> length (fst st) = sz \<and> snd st \<le> n"

lemma writing_emit: "writing sz n st \<Longrightarrow> length bs \<le> k \<Longrightarrow> n + k \<le> sz \<Longrightarrow> writing sz (n + k) (emit bs st)"
  by (simp add: writing_def emit_def)

lemma writing_mono: "writing sz n st \<Longrightarrow> n \<le> m \<Longrightarrow> writing sz m st"
  by (simp add: writing_def)

lemma writing_skip: "writing sz n st \<Longrightarrow> writing sz (Suc n) (fst st, Suc (snd st))"
  by (simp add: writing_def)

lemma writing_aux:
  assumes "writing sz n st" "n + 15 \<le> sz" "length (key_source a) = 8"
  shows "writing sz (n + 15) (emit_aux ll a st)"
proof -
  define w where "w = security_level a OR (if uses_explicit_keys ll then push_bit 3 (key_id_mode a) else 0)
                OR push_bit 5 (frame_counter_suppression a) OR push_bit 6 (frame_counter_size a)"
  have 1: "writing sz (n + 1) (emit [w] st)" using assms by (intro writing_emit) simp_all
  have 2: "writing sz (n + 6) (if frame_counter_suppression a = 0 then
      let st = emit (take 4 (frame_counter a)) (emit [w] st)
      in if frame_counter_size a = 1 then (fst st, snd st + 1) else st else emit [w] st)"
    using writing_emit [OF 1, of "take 4 (frame_counter a)" 4] writing_mono [OF 1, of "n + 6"] assms(2)
      writing_skip [of sz "n + 5"] writing_mono [of sz "n + 5" _ "n + 6"]
    by (auto simp: Let_def add.commute)
  define x where "x = (if frame_counter_suppression a = 0 then
      let st = emit (take 4 (frame_counter a)) (emit [w] st)
      in if frame_counter_size a = 1 then (fst st, snd st + 1) else st else emit [w] st)"
  have 3: "writing sz (n + 6 + 8) (emit (take ((unat (key_id_mode a) - 1) * 4) (key_source a)) x)"
    using assms(2,3) by (intro writing_emit [OF 2 [folded x_def]]) simp_all
  have "writing sz (n + 6 + 8 + 1) (emit [key_index a] (emit (take ((unat (key_id_mode a) - 1) * 4) (key_source a)) x))"
    using assms(2) by (intro writing_emit [OF 3]) simp_all
  moreover have "writing sz (n + 15) x" by (rule writing_mono [OF 2 [folded x_def]]) simp
  moreover have "emit_aux ll a st = (if uses_explicit_keys ll \<and> key_id_mode a \<noteq> 0
      then emit [key_index a] (emit (take ((unat (key_id_mode a) - 1) * 4) (key_source a)) x) else x)"
    by (simp add: emit_aux_def Let_def x_def w_def)
  ultimately show ?thesis by (simp add: ac_simps)
qed

text \<open>A step that may write nothing.\<close>

lemma writing_if: "writing sz n st \<Longrightarrow> length bs \<le> k \<Longrightarrow> n + k \<le> sz \<Longrightarrow> writing sz (n + k) (if c then emit bs st else st)"
  using writing_emit [of sz n st bs k] writing_mono [of sz n st "n + k"] by simp

lemma length_create:
  assumes "38 \<le> length buf" "length (key_source (aux p)) = 8"
  shows "length (snd (frame802154_create ll p buf)) = length buf"
proof -
  let ?sz = "length buf" and ?q = "compress_panid p"
  define a where "a = emit (frame802154_create_fcf (fr_fcf ?q)) (buf, 0)"
  define b where "b = (if sequence_number_suppression (fr_fcf ?q) AND 1 = 0 then emit [fr_seq ?q] a else a)"
  define c where "c = (if snd (frame802154_has_panid (fr_fcf ?q)) then emit (le16 (dest_pid ?q)) b else b)"
  define d where "d = emit (rev (take (addr_len (dest_addr_mode (fr_fcf ?q) AND 3)) (dest_addr ?q))) c"
  define e where "e = (if fst (frame802154_has_panid (fr_fcf ?q)) then emit (le16 (src_pid ?q)) d else d)"
  define f where "f = emit (rev (take (addr_len (src_addr_mode (fr_fcf ?q) AND 3)) (src_addr ?q))) e"
  have al: "length (rev (take (addr_len m) xs)) \<le> 8" for m and xs :: "u8 list" using addr_len_le [of m] by simp
  have "writing ?sz 0 (buf, 0)" by (simp add: writing_def)
  then have "writing ?sz (0 + 2) a" unfolding a_def using assms(1) by (rule_tac writing_emit) simp_all
  then have "writing ?sz (0 + 2 + 1) b" unfolding b_def using assms(1) by (rule_tac writing_if) simp_all
  then have "writing ?sz (0 + 2 + 1 + 2) c" unfolding c_def using assms(1) by (rule_tac writing_if) simp_all
  then have "writing ?sz (0 + 2 + 1 + 2 + 8) d" unfolding d_def using assms(1) by (rule_tac writing_emit [OF _ al]) simp_all
  then have "writing ?sz (0 + 2 + 1 + 2 + 8 + 2) e" unfolding e_def using assms(1) by (rule_tac writing_if) simp_all
  then have f: "writing ?sz (0 + 2 + 1 + 2 + 8 + 2 + 8) f" unfolding f_def using assms(1) by (rule_tac writing_emit [OF _ al]) simp_all
  have g: "writing ?sz (0 + 2 + 1 + 2 + 8 + 2 + 8 + 15) (emit_aux ll (aux ?q) f)"
    by (rule writing_aux [OF f]) (use assms in simp_all)
  have "frame802154_create ll p buf = prod.swap (if uses_aux_header ll \<and> aux_len ll ?q \<noteq> 0 then emit_aux ll (aux ?q) f else f)"
    by (simp add: frame802154_create_def field_len_def Let_def case_prod_beta a_def b_def c_def d_def e_def f_def prod.swap_def)
  then show ?thesis using f g by (simp add: writing_def)
qed

lemma frame_params_aux [simp]: "length (key_source (aux (frame_params ll pan_id pb))) = 8"
  by (simp add: frame_params_def framer_802154_setup_params_def setup_aux_def zero_frame_def Let_def)

text \<open>Creating a frame keeps the packet buffer well formed and leaves room for the payload.\<close>

lemma framer_create_cases:
  assumes "pb_wf pb" "h = frame802154_hdrlen ll (frame_params ll pan_id pb)" "r = framer_create ll pan_id pb"
  obtains (failed) "fst r = - 1" "snd r = pb"
  | (created) "fst r = int h" "h + packetbuf_totlen pb \<le> PACKETBUF_SIZE" "pan_id \<noteq> 0xffff"
      "snd r = (snd (packetbuf_hdralloc h pb))\<lparr>pbuf := snd (frame802154_create ll (frame_params ll pan_id pb)
        (pbuf (snd (packetbuf_hdralloc h pb))))\<rparr>"
proof (cases "pan_id = 0xffff \<or> PACKETBUF_SIZE < h + packetbuf_totlen pb")
  case True
  then show thesis
    using failed assms(2,3) packetbuf_hdralloc_full [of h pb] by (auto simp: framer_create_def framer_create_frame_def Let_def)
next
  case False
  then have "fst (packetbuf_hdralloc h pb) = 1" using packetbuf_hdralloc_spec(1) [OF assms(1), of h] by simp
  then show thesis
    using created False assms(2,3) by (simp add: framer_create_def framer_create_frame_def Let_def case_prod_beta)
qed

lemma framer_create_wf:
  assumes "pb_wf pb"
  shows "pb_wf (snd (framer_create ll pan_id pb))"
    "hdrlen (snd (framer_create ll pan_id pb)) \<le> hdrlen pb + 38" "bufptr (snd (framer_create ll pan_id pb)) = bufptr pb"
proof -
  let ?h = "frame802154_hdrlen ll (frame_params ll pan_id pb)"
  let ?r = "framer_create ll pan_id pb"
  from assms refl refl have "pb_wf (snd ?r) \<and> hdrlen (snd ?r) \<le> hdrlen pb + 38 \<and> bufptr (snd ?r) = bufptr pb"
  proof (cases rule: framer_create_cases [where ll = ll and pan_id = pan_id])
    case created
    let ?b = "snd (packetbuf_hdralloc ?h pb)"
    have b: "pb_wf ?b" "hdrlen ?b \<le> hdrlen pb + 38" "bufptr ?b = bufptr pb"
      using packetbuf_hdralloc_spec(2) [OF assms created(2)] hdrlen_le [of ll "frame_params ll pan_id pb"]
      by (auto simp: packetbuf_hdralloc_def)
    then have "length (pbuf ?b) = 128" by (simp add: pb_wf_def PACKETBUF_SIZE_def)
    then have "length (snd (frame802154_create ll (frame_params ll pan_id pb) (pbuf ?b))) = 128" by (simp add: length_create)
    then show ?thesis using b created(4) by (simp add: pb_wf_def PACKETBUF_SIZE_def)
  qed (use assms in simp)
  then show "pb_wf (snd ?r)" "hdrlen (snd ?r) \<le> hdrlen pb + 38" "bufptr (snd ?r) = bufptr pb" by auto
qed

text \<open>A packet of at most 90 bytes can always be framed.\<close>

lemma framer_create_fits:
  assumes "pb_wf pb" "pan_id \<noteq> 0xffff" "packetbuf_totlen pb \<le> 90"
  shows "0 \<le> fst (framer_create ll pan_id pb)"
proof -
  let ?h = "frame802154_hdrlen ll (frame_params ll pan_id pb)"
  have "?h + packetbuf_totlen pb \<le> PACKETBUF_SIZE"
    using hdrlen_le [of ll "frame_params ll pan_id pb"] assms(3) by (simp add: PACKETBUF_SIZE_def)
  then have "fst (packetbuf_hdralloc ?h pb) = 1" using packetbuf_hdralloc_spec(1) [of pb ?h] assms(1) by simp
  then show ?thesis
    using assms(2) by (simp add: framer_create_def framer_create_frame_def Let_def case_prod_beta)
qed

lemma totlen_set_attr [simp]: "packetbuf_totlen (packetbuf_set_attr t v b) = packetbuf_totlen b"
  by (simp add: pb_lengths packetbuf_set_attr_def)

lemma set_attr_frame [simp]:
  "hdrlen (packetbuf_set_attr t v b) = hdrlen b" "bufptr (packetbuf_set_attr t v b) = bufptr b"
  "hdrlen (packetbuf_set_addr u a b) = hdrlen b" "bufptr (packetbuf_set_addr u a b) = bufptr b"
  by (simp_all add: packetbuf_set_attr_def packetbuf_set_addr_def)

lemma note_frame_frame [simp]:
  "pb_wf (note_frame ll fr b) = pb_wf b" "hdrlen (note_frame ll fr b) = hdrlen b" "bufptr (note_frame ll fr b) = bufptr b"
  "pb_data (note_frame ll fr b) = pb_data b" "pb_frame (note_frame ll fr b) = pb_frame b" "packetbuf_addr (note_frame ll fr b) ADDR_RECEIVER = packetbuf_addr b ADDR_RECEIVER"
  "packetbuf_attr (note_frame ll fr b) ATTR_FRAME_TYPE = packetbuf_attr b ATTR_FRAME_TYPE"
  "packetbuf_attr (note_frame ll fr b) ATTR_MAC_ACK = packetbuf_attr b ATTR_MAC_ACK"
  "packetbuf_addr (note_frame ll fr b) ADDR_SENDER = linkaddr_of (src_addr fr)"
  "packetbuf_attr (note_frame ll fr b) ATTR_MAC_SEQNO =
     (if sequence_number_suppression (fr_fcf fr) = 0 then ucast (fr_seq fr) else 0xffff)"
  by (simp_all add: note_frame_def Let_def)

lemma framer_parse_wf:
  assumes "pb_wf pb"
  shows "pb_wf (snd (framer_parse ll pan_id f0 pb))" "hdrlen (snd (framer_parse ll pan_id f0 pb)) = hdrlen pb"
    "bufptr (snd (framer_parse ll pan_id f0 pb)) \<le> bufptr pb + 38"
proof -
  obtain n fr where p: "frame802154_parse ll (drop (packetbuf_dataptr pb) (pbuf pb)) (packetbuf_datalen pb) f0 = (n, fr)"
    by fastforce
  obtain ok b where b: "packetbuf_hdrreduce n pb = (ok, b)" by fastforce
  have le: "n \<le> 38" "n \<le> packetbuf_datalen pb" using parse_le p by (metis fst_conv)+
  have ok: "pb_wf b" "hdrlen b = hdrlen pb" "bufptr b \<le> bufptr pb + 38"
    using packetbuf_hdrreduce_spec(2) [OF assms le(2)] le(1) b by (auto simp: packetbuf_hdrreduce_def split: if_splits)
  have "pb_wf (snd (framer_parse ll pan_id f0 pb)) \<and> hdrlen (snd (framer_parse ll pan_id f0 pb)) = hdrlen pb \<and>
      bufptr (snd (framer_parse ll pan_id f0 pb)) \<le> bufptr pb + 38"
    using ok assms by (simp add: framer_parse_def p b Let_def)
  then show "pb_wf (snd (framer_parse ll pan_id f0 pb))" "hdrlen (snd (framer_parse ll pan_id f0 pb)) = hdrlen pb"
    "bufptr (snd (framer_parse ll pan_id f0 pb)) \<le> bufptr pb + 38" by auto
qed

section \<open>Over the air\<close>

text \<open>
  The attributes of a packet that can be sent: they fit the fields of the header, the frame is
  no acknowledgement and carries both addresses.
\<close>

definition attrs_ok :: "llsec \<Rightarrow> packetbuf \<Rightarrow> bool" where
  "attrs_ok ll pb \<longleftrightarrow> unat (packetbuf_attr pb ATTR_FRAME_TYPE) < 8 \<and> packetbuf_attr pb ATTR_FRAME_TYPE \<noteq> 2 \<and>
     packetbuf_attr pb ATTR_MAC_ACK \<in> {0, 1} \<and> packetbuf_attr pb ATTR_MAC_METADATA \<in> {0, 1} \<and>
     unat (packetbuf_attr pb ATTR_SECURITY_LEVEL) < 8 \<and> unat (packetbuf_attr pb ATTR_KEY_ID_MODE) < 4 \<and>
     packetbuf_attr pb ATTR_MAC_NO_SRC_ADDR \<noteq> 1 \<and> packetbuf_attr pb ATTR_MAC_NO_DEST_ADDR \<noteq> 1 \<and>
     suppr_seqno ll \<in> {0, 1} \<and> unat (frame_version_opt ll) < 4"

lemma and_low: "unat (x :: u8) < 8 \<Longrightarrow> x AND 7 = x" "unat (x :: u8) < 4 \<Longrightarrow> x AND 3 = x"
  "x \<in> {0, 1} \<Longrightarrow> x AND 1 = x"
proof -
  have "x AND mask n = x" if "unat x < 2 ^ n" for n
    using that by (metis take_bit_eq_mask take_bit_nat_eq_self word_unat_eq_iff unsigned_take_bit_eq)
  from this [of 3] this [of 2] show "unat (x :: u8) < 8 \<Longrightarrow> x AND 7 = x" "unat (x :: u8) < 4 \<Longrightarrow> x AND 3 = x"
    by (simp_all add: mask_eq_exp_minus_1)
qed auto

lemma unat_narrow: "unat (x :: u16) < 256 \<Longrightarrow> unat (ucast x :: u8) = unat x"
  by (simp add: unsigned_ucast_eq unsigned_take_bit_eq take_bit_nat_eq_self)

lemma unat_widen: "unat (ucast (x :: u8) :: u16) = unat x"
  by (simp add: unsigned_ucast_eq unsigned_take_bit_eq take_bit_nat_eq_self order_less_trans [OF unat_u8])

lemma narrow_bit: "(x :: u16) \<in> {0, 1} \<Longrightarrow> (ucast x :: u8) \<in> {0, 1}"
  by auto

lemma aux_frame_fields:
  "fr_fcf (setup_aux ll g p) = (fr_fcf p)\<lparr>security_enabled :=
     (if uses_aux_header ll then if g ATTR_SECURITY_LEVEL \<noteq> 0 then 1 else security_enabled (fr_fcf p) else 0)\<rparr>"
  "dest_addr (setup_aux ll g p) = dest_addr p" "src_addr (setup_aux ll g p) = src_addr p"
  by (cases p; cases "fr_fcf p"; simp add: setup_aux_def Let_def)+

lemma frame_params_fields:
  fixes pan_id :: u16
  assumes "attrs_ok ll pb"
  defines "p \<equiv> frame_params ll pan_id pb"
  shows "fr_fcf p = \<lparr>frame_type = ucast (packetbuf_attr pb ATTR_FRAME_TYPE),
      security_enabled = of_bool (uses_aux_header ll \<and> packetbuf_attr pb ATTR_SECURITY_LEVEL \<noteq> 0), frame_pending = 0,
      ack_required = (if packetbuf_holds_broadcast pb then 0 else ucast (packetbuf_attr pb ATTR_MAC_ACK)),
      panid_compression = of_bool (packetbuf_holds_broadcast pb),
      sequence_number_suppression = (if packetbuf_holds_broadcast pb then of_bool (frame_version_opt ll \<ge> 2) else suppr_seqno ll),
      ie_list_present = ucast (packetbuf_attr pb ATTR_MAC_METADATA),
      dest_addr_mode = (if packetbuf_holds_broadcast pb then 2 else 3), frame_version = frame_version_opt ll,
      src_addr_mode = 3\<rparr>"
    "dest_addr p = (if packetbuf_holds_broadcast pb then [0xff, 0xff, 0, 0, 0, 0, 0, 0]
      else linkaddr_bytes (packetbuf_addr pb ADDR_RECEIVER))"
    "src_addr p = linkaddr_bytes (packetbuf_addr pb ADDR_SENDER)"
    "dest_pid p = pan_id" "src_pid p = pan_id" "fr_seq p = ucast (packetbuf_attr pb ATTR_MAC_SEQNO)"
  using assms
  by (simp_all add: frame_params_def framer_802154_setup_params_def zero_frame_def aux_frame_fields Let_def addr_mode_def
      frame_consts attrs_ok_def LINKADDR_SIZE_def blit_def numeral_eq_Suc)

lemma aux_ok_setup:
  assumes "aux_ok ll (aux p)" "unat (g ATTR_SECURITY_LEVEL) < 8" "unat (g ATTR_KEY_ID_MODE) < 4"
  shows "aux_ok ll (aux (setup_aux ll g p))"
  using assms by (simp add: setup_aux_def Let_def aux_ok_def and_low unat_narrow)

lemma frame_params_ok:
  fixes pan_id :: u16
  assumes "attrs_ok ll pb"
  defines "q \<equiv> compress_panid (frame_params ll pan_id pb)"
  shows "frame_ok ll q" "snd (frame802154_has_panid (fr_fcf q))"
proof -
  let ?p = "frame_params ll pan_id pb"
  note fields = frame_params_fields [OF assms(1), of pan_id]
  have "\<exists>f. aux ?p = aux (setup_aux ll (packetbuf_attr pb) (zero_frame\<lparr>fr_fcf := f\<rparr>))"
    by (rule exI) (simp add: frame_params_def framer_802154_setup_params_def Let_def)
  moreover have "aux_ok ll (aux (zero_frame\<lparr>fr_fcf := f\<rparr>))" for f by (simp add: zero_frame_def aux_ok_def)
  ultimately have aux: "aux_ok ll (aux ?p)"
    using aux_ok_setup assms(1) by (auto simp: attrs_ok_def)
  have at: "unat (packetbuf_attr pb ATTR_FRAME_TYPE) < 8" "packetbuf_attr pb ATTR_FRAME_TYPE \<noteq> 2"
      "packetbuf_attr pb ATTR_MAC_ACK \<in> {0, 1}" "packetbuf_attr pb ATTR_MAC_METADATA \<in> {0, 1}"
      "suppr_seqno ll \<in> {0, 1}" "unat (frame_version_opt ll) < 4"
    using assms(1) by (simp_all add: attrs_ok_def)
  have fcf: "fcf_ok (fr_fcf ?p)"
    using at narrow_bit [OF at(3)] narrow_bit [OF at(4)]
    by (auto simp: fcf_ok_def fields and_low unat_narrow)
  show "snd (frame802154_has_panid (fr_fcf q))"
    using at(1,2) by (auto simp: word_less_nat_alt q_def compress_panid_def frame802154_has_panid_def fields frame_consts word_unat_eq_iff unat_narrow Let_def)
  moreover have "fcf_ok (fr_fcf q)" using fcf by (auto simp: q_def compress_panid_def fcf_ok_def)
  ultimately show "frame_ok ll q"
    using aux by (auto simp: frame_ok_def q_def fields LINKADDR_SIZE_def)
qed

text \<open>A created frame is the header followed by the old frame.\<close>

lemma framer_create_frame_bytes:
  fixes pan_id :: u16
  assumes "pb_wf pb" "attrs_ok ll pb" "framer_create ll pan_id pb = (r, pb')" "0 \<le> r"
  defines "q \<equiv> compress_panid (frame_params ll pan_id pb)"
  shows "r = int (length (header_bytes ll q))" "pb_frame pb' = header_bytes ll q @ pb_frame pb" "pan_id \<noteq> 0xffff"
    "pb_wf pb'" "packetbuf_totlen pb' = length (header_bytes ll q) + packetbuf_totlen pb"
    "pb_attrs pb' = pb_attrs pb" "pb_addrs pb' = pb_addrs pb" "bufptr pb' = bufptr pb"
    "hdrlen pb' = hdrlen pb + length (header_bytes ll q)"
proof -
  let ?p = "frame_params ll pan_id pb"
  note ok = frame_params_ok(1) [OF assms(2), of pan_id, folded q_def]
  have c: "frame802154_hdrlen ll ?p = length (header_bytes ll q)"
    "frame802154_create ll ?p buf = (length (header_bytes ll q), header_bytes ll q @ drop (length (header_bytes ll q)) buf)" for buf
    using create_eq [OF ok [unfolded q_def] refl] by (simp_all add: q_def)
  let ?h = "length (header_bytes ll q)" and ?b = "snd (packetbuf_hdralloc (length (header_bytes ll q)) pb)"
  have r: "fst (framer_create ll pan_id pb) \<noteq> - 1" using assms(3,4) by simp
  from assms(1) c(1) [symmetric] refl have
    "r = int ?h \<and> ?h + packetbuf_totlen pb \<le> PACKETBUF_SIZE \<and> pan_id \<noteq> 0xffff \<and>
      pb' = ?b\<lparr>pbuf := header_bytes ll q @ drop ?h (pbuf ?b)\<rparr>"
  proof (cases rule: framer_create_cases)
    case failed
    then show ?thesis using r by blast
  next
    case created
    then show ?thesis using assms(3) by (simp add: c(2))
  qed
  then have r': "r = int ?h" and fits: "?h + packetbuf_totlen pb \<le> PACKETBUF_SIZE" and pan: "pan_id \<noteq> 0xffff"
    and pb': "pb' = ?b\<lparr>pbuf := header_bytes ll q @ drop ?h (pbuf ?b)\<rparr>" by auto
  note spec = packetbuf_hdralloc_spec [OF assms(1) fits]
  have tot: "packetbuf_totlen pb = bufptr pb + hdrlen pb + buflen pb" by (rule pb_wf_lengths(2) [OF assms(1)])
  have b: "hdrlen ?b = hdrlen pb + ?h" "bufptr ?b = bufptr pb" "buflen ?b = buflen pb" "pb_attrs ?b = pb_attrs pb"
    "pb_addrs ?b = pb_addrs pb"
    using fits tot by (simp_all add: packetbuf_hdralloc_def PACKETBUF_SIZE_def)
  have bw: "length (pbuf ?b) = PACKETBUF_SIZE" "packetbuf_totlen ?b = ?h + packetbuf_totlen pb"
    using spec(2) pb_wf_lengths(2) [OF spec(2)] tot b by (auto simp: pb_wf_def)
  show wf: "pb_wf pb'" using spec(2) fits bw by (simp add: pb' pb_wf_def)
  have tot': "packetbuf_totlen pb' = ?h + packetbuf_totlen pb"
    using pb_wf_lengths(2) [OF wf] bw(2) pb_wf_lengths(2) [OF spec(2)] by (simp add: pb')
  show "packetbuf_totlen pb' = ?h + packetbuf_totlen pb" by (rule tot')
  have "pb_frame pb' = header_bytes ll q @ take (packetbuf_totlen pb) (drop ?h (pbuf ?b))"
    using tot' by (simp add: pb_frame_def packetbuf_hdrptr_def) (simp add: pb')
  also have "take (packetbuf_totlen pb) (drop ?h (pbuf ?b)) = drop ?h (pb_frame ?b)"
    using bw(2) by (simp add: pb_frame_def packetbuf_hdrptr_def drop_take)
  finally show "pb_frame pb' = header_bytes ll q @ pb_frame pb" using spec(4) by simp
  show "r = int ?h" "pan_id \<noteq> 0xffff" by (fact r' pan)+
  show "pb_attrs pb' = pb_attrs pb" "pb_addrs pb' = pb_addrs pb" "bufptr pb' = bufptr pb" "hdrlen pb' = hdrlen pb + ?h"
    by (simp_all add: pb' b)
qed

lemma holds_broadcast_addr: "packetbuf_holds_broadcast b \<longleftrightarrow> packetbuf_addr b ADDR_RECEIVER = linkaddr_null"
  by (simp add: packetbuf_holds_broadcast_def packetbuf_addr_def)

text \<open>
  A receiver that finds the frame in its packet buffer, with no header read yet, and whose
  radio driver has cleared the addresses.
\<close>

lemma framer_parse_body:
  fixes pan_id :: u16
  assumes "attrs_ok ll pb" "H = header_bytes ll (compress_panid (frame_params ll pan_id pb))"
    and "pb_wf rx" "bufptr rx = 0" "hdrlen rx = 0" "pb_data rx = H @ body" "packetbuf_addr rx ADDR_RECEIVER = linkaddr_null"
    and "linkaddr_bytes (packetbuf_addr pb ADDR_RECEIVER) \<noteq> replicate 8 0xff" "buffers_ok f0"
    and "framer_parse ll pan_id f0 rx = (r', rx')"
  shows "r' = int (length H)" "pb_data rx' = body" "packetbuf_addr rx' ADDR_SENDER = packetbuf_addr pb ADDR_SENDER"
    "packetbuf_addr rx' ADDR_RECEIVER = packetbuf_addr pb ADDR_RECEIVER"
    "packetbuf_attr rx' ATTR_FRAME_TYPE = packetbuf_attr pb ATTR_FRAME_TYPE"
    "bufptr rx' = length H" "hdrlen rx' = 0" "pb_wf rx'"
    "\<exists>b. rx' = note_frame ll (shown_frame ll (packetbuf_datalen rx) (compress_panid (frame_params ll pan_id pb)) f0) b"
    "pb_frame rx' = H @ body"
proof -
  let ?p = "frame_params ll pan_id pb"
  let ?q = "compress_panid ?p"
  note ok = frame_params_ok [OF assms(1), of pan_id] and fields = frame_params_fields [OF assms(1), of pan_id]
  let ?fr = "shown_frame ll (packetbuf_datalen rx) ?q f0"
  have rx: "packetbuf_dataptr rx = 0" "packetbuf_datalen rx = buflen rx" "pb_data rx = take (buflen rx) (pbuf rx)"
    using assms(4,5) by (simp_all add: pb_data_def pb_lengths)
  have len: "packetbuf_datalen rx = length H + length body"
    using pb_wf_lengths(3) [OF assms(3)] assms(6) by simp
  have "take (buflen rx) (pbuf rx) = H @ body" using rx(3) assms(6) by simp
  then have "pbuf rx = H @ (body @ drop (buflen rx) (pbuf rx))"
    by (metis append_assoc append_take_drop_id)
  then have parse: "frame802154_parse ll (drop (packetbuf_dataptr rx) (pbuf rx)) (packetbuf_datalen rx) f0 = (length H, ?fr)"
    using parse_header [OF ok(1) assms(9), of "packetbuf_datalen rx" "body @ drop (buflen rx) (pbuf rx)"] len rx(1)
    unfolding assms(2) by (metis drop_0 le_add1)
  have H: "length H \<noteq> 0" by (simp add: assms(2) header_bytes_def)
  have le: "length H \<le> packetbuf_datalen rx" using len by simp
  note red = packetbuf_hdrreduce_spec [OF assms(3) le]
  let ?b = "snd (packetbuf_hdrreduce (length H) rx)"
  have red0: "packetbuf_hdrreduce (length H) rx = (1, ?b)" using red(1) by (simp add: prod_eq_iff)
  have b0: "bufptr ?b = length H" "hdrlen ?b = 0" "packetbuf_addr ?b = packetbuf_addr rx"
    using red(1) le assms(3-5) by (auto simp: packetbuf_hdrreduce_def packetbuf_datalen_def packetbuf_addr_def pb_wf_def
        PACKETBUF_SIZE_def)
  have modes: "dest_addr_mode (fr_fcf ?q) = (if packetbuf_holds_broadcast pb then 2 else 3)" "src_addr_mode (fr_fcf ?q) = 3"
    "frame_type (fr_fcf ?q) = ucast (packetbuf_attr pb ATTR_FRAME_TYPE)"
    by (simp_all add: fields compress_panid_def)
  have pid: "dest_pid ?fr = pan_id"
    using ok(2) by (simp add: shown_frame_def shown_pids_def shown_dest_pid_def case_prod_beta modes fields)
  have bc: "frame802154_is_broadcast_addr (dest_addr_mode (fr_fcf ?fr)) (dest_addr ?fr) \<longleftrightarrow> packetbuf_holds_broadcast pb"
  proof (cases "packetbuf_holds_broadcast pb")
    case True
    then show ?thesis by (simp add: shown_frame_def modes fields shown_addr_def frame802154_is_broadcast_addr_def frame_consts numeral_eq_Suc)
  next
    case False
    have "\<not> list_all (\<lambda>b. b = 0xff) xs" if "length xs = 8" "xs \<noteq> replicate 8 0xff" for xs :: "u8 list"
      using that replicate_eqI [of xs 8 "0xff"] by (auto simp: list_all_iff)
    then show ?thesis using False assms(8)
      by (simp add: shown_frame_def modes fields shown_addr_def frame802154_is_broadcast_addr_def frame_consts LINKADDR_SIZE_def)
  qed
  define fr where "fr = ?fr"
  define b where "b = ?b"
  have fr: "dest_addr_mode (fr_fcf fr) \<noteq> 0" "dest_pid fr = pan_id"
      "frame802154_is_broadcast_addr (dest_addr_mode (fr_fcf fr)) (dest_addr fr) \<longleftrightarrow> packetbuf_holds_broadcast pb"
      "frame_type (fr_fcf fr) = ucast (packetbuf_attr pb ATTR_FRAME_TYPE)" "src_addr fr = linkaddr_bytes (packetbuf_addr pb ADDR_SENDER)"
      "\<not> packetbuf_holds_broadcast pb \<Longrightarrow> dest_addr fr = linkaddr_bytes (packetbuf_addr pb ADDR_RECEIVER)"
    using pid bc by (simp_all add: fr_def) (simp_all add: shown_frame_def modes shown_addr_def fields)
  define b1 where "b1 = packetbuf_set_attr ATTR_MAC_ACK (ucast (ack_required (fr_fcf fr)))
    (packetbuf_set_attr ATTR_FRAME_TYPE (ucast (frame_type (fr_fcf fr))) b)"
  define b2 where "b2 = (if \<not> packetbuf_holds_broadcast pb then packetbuf_set_addr ADDR_RECEIVER (linkaddr_of (dest_addr fr)) b1 else b1)"
  have "framer_parse ll pan_id f0 rx = (int (length H), note_frame ll fr b2)"
    using H fr(1-3) by (simp add: framer_parse_def parse [folded fr_def] red0 [folded b_def] Let_def b1_def b2_def)
  then have r': "r' = int (length H)" "rx' = note_frame ll fr b2" using assms(10) by simp_all
  show "r' = int (length H)" using r'(1) by simp
  show "\<exists>b. rx' = note_frame ll ?fr b" using r'(2) by (auto simp: fr_def)
  have same: "pb_data b2 = pb_data b" "pb_frame b2 = pb_frame b" "bufptr b2 = bufptr b" "hdrlen b2 = hdrlen b" "pb_wf b2 = pb_wf b"
    by (simp_all add: b2_def b1_def)
  show "bufptr rx' = length H" "hdrlen rx' = 0" "pb_wf rx'" using b0 red(2) by (simp_all add: r'(2) same b_def)
  show "pb_data rx' = body" using red(3) assms(6) by (simp add: r'(2) same b_def)
  have "pb_frame rx = pb_data rx" using rx(1) assms(4,5) pb_wf_lengths(1) [OF assms(3)] pb_frame_split [OF assms(3)]
    by (simp add: pb_header_def)
  then show "pb_frame rx' = H @ body" using red(4) assms(6) by (simp add: r'(2) same b_def)
  show "packetbuf_addr rx' ADDR_SENDER = packetbuf_addr pb ADDR_SENDER" by (simp add: r'(2) fr(5))
  show "packetbuf_addr rx' ADDR_RECEIVER = packetbuf_addr pb ADDR_RECEIVER"
    using b0(3) assms(7) fr(6) by (auto simp: r'(2) b2_def b1_def b_def holds_broadcast_addr)
  have "unat (packetbuf_attr pb ATTR_FRAME_TYPE) < 256" using assms(1) by (simp add: attrs_ok_def)
  then have "(ucast (ucast (packetbuf_attr pb ATTR_FRAME_TYPE) :: u8) :: u16) = packetbuf_attr pb ATTR_FRAME_TYPE"
    by (simp add: word_unat_eq_iff unat_narrow unat_widen)
  then show "packetbuf_attr rx' ATTR_FRAME_TYPE = packetbuf_attr pb ATTR_FRAME_TYPE"
    by (simp add: r'(2) b2_def b1_def fr(4))
qed

text \<open>The security attributes come back, the key index in its low eight bits.\<close>

lemma frame_params_security:
  fixes pan_id :: u16 and pb :: packetbuf
  assumes "uses_aux_header ll" "uses_frame_counter ll"
  defines "a \<equiv> aux (frame_params ll pan_id pb)"
  shows "security_level a = ucast (packetbuf_attr pb ATTR_SECURITY_LEVEL)" "frame_counter_suppression a = 0"
    "frame_counter a = le16 (packetbuf_attr pb ATTR_FRAME_COUNTER_BYTES_0_1) @ le16 (packetbuf_attr pb ATTR_FRAME_COUNTER_BYTES_2_3)"
    "uses_explicit_keys ll \<Longrightarrow> key_id_mode a = ucast (packetbuf_attr pb ATTR_KEY_ID_MODE)"
    "uses_explicit_keys ll \<Longrightarrow> key_index a = ucast (packetbuf_attr pb ATTR_KEY_INDEX)"
  using assms by (simp_all add: frame_params_def framer_802154_setup_params_def setup_aux_def zero_frame_def Let_def)

lemma widen_narrow: "unat x < 256 \<Longrightarrow> (ucast (ucast x :: u8) :: u16) = x"
  by (simp add: word_unat_eq_iff unat_narrow unat_widen)

lemma note_frame_security:
  fixes pan_id :: u16 and pb b :: packetbuf and f0 :: frame802154 and len :: nat
  assumes "attrs_ok ll pb" "uses_aux_header ll" "uses_frame_counter ll" "packetbuf_attr pb ATTR_SECURITY_LEVEL \<noteq> 0"
  defines "rx \<equiv> note_frame ll (shown_frame ll len (compress_panid (frame_params ll pan_id pb)) f0) b"
  shows "packetbuf_attr rx ATTR_SECURITY_LEVEL = packetbuf_attr pb ATTR_SECURITY_LEVEL"
    "packetbuf_attr rx ATTR_FRAME_COUNTER_BYTES_0_1 = packetbuf_attr pb ATTR_FRAME_COUNTER_BYTES_0_1"
    "packetbuf_attr rx ATTR_FRAME_COUNTER_BYTES_2_3 = packetbuf_attr pb ATTR_FRAME_COUNTER_BYTES_2_3"
    "uses_explicit_keys ll \<Longrightarrow> packetbuf_attr rx ATTR_KEY_ID_MODE = packetbuf_attr pb ATTR_KEY_ID_MODE"
    "uses_explicit_keys ll \<Longrightarrow> packetbuf_attr pb ATTR_KEY_ID_MODE \<noteq> 0 \<Longrightarrow>
      packetbuf_attr rx ATTR_KEY_INDEX = ucast (ucast (packetbuf_attr pb ATTR_KEY_INDEX) :: u8)"
proof -
  let ?q = "compress_panid (frame_params ll pan_id pb)"
  define fr where "fr = shown_frame ll len ?q f0"
  note sec = frame_params_security [OF assms(2,3), of pan_id pb]
  have on: "security_enabled (fr_fcf ?q) = 1"
    using frame_params_fields(1) [OF assms(1), of pan_id] assms(2,4) by simp
  then have "has_aux ll ?q" "security_enabled (fr_fcf fr) \<noteq> 0" using assms(2) by (simp_all add: has_aux_def fr_def shown_frame_def)
  then have fr: "security_enabled (fr_fcf fr) \<noteq> 0" "aux fr = shown_aux ll (aux (frame_params ll pan_id pb)) (aux f0)"
    by (simp_all add: fr_def shown_frame_def)
  have small: "unat (packetbuf_attr pb ATTR_SECURITY_LEVEL) < 256" "unat (packetbuf_attr pb ATTR_KEY_ID_MODE) < 256"
    using assms(1) by (simp_all add: attrs_ok_def)
  have km: "(ucast (packetbuf_attr pb ATTR_KEY_ID_MODE) :: u8) = 0 \<longleftrightarrow> packetbuf_attr pb ATTR_KEY_ID_MODE = 0"
    using small(2) by (simp add: word_unat_eq_iff unat_narrow)
  have a: "security_level (aux fr) = ucast (packetbuf_attr pb ATTR_SECURITY_LEVEL)"
    "frame_counter (aux fr) = le16 (packetbuf_attr pb ATTR_FRAME_COUNTER_BYTES_0_1) @ le16 (packetbuf_attr pb ATTR_FRAME_COUNTER_BYTES_2_3)"
    "uses_explicit_keys ll \<Longrightarrow> key_id_mode (aux fr) = ucast (packetbuf_attr pb ATTR_KEY_ID_MODE)"
    "uses_explicit_keys ll \<Longrightarrow> packetbuf_attr pb ATTR_KEY_ID_MODE \<noteq> 0 \<Longrightarrow>
      key_index (aux fr) = ucast (packetbuf_attr pb ATTR_KEY_INDEX)"
    by (simp_all add: fr(2) shown_aux_def Let_def sec km)
  have c: "of_le16 (frame_counter (aux fr)) = packetbuf_attr pb ATTR_FRAME_COUNTER_BYTES_0_1"
    "of_le16 (drop 2 (frame_counter (aux fr))) = packetbuf_attr pb ATTR_FRAME_COUNTER_BYTES_2_3"
    using of_le16_le16 [of _ "[]"] by (simp_all add: a(2))
  show "packetbuf_attr rx ATTR_SECURITY_LEVEL = packetbuf_attr pb ATTR_SECURITY_LEVEL"
    "packetbuf_attr rx ATTR_FRAME_COUNTER_BYTES_0_1 = packetbuf_attr pb ATTR_FRAME_COUNTER_BYTES_0_1"
    "packetbuf_attr rx ATTR_FRAME_COUNTER_BYTES_2_3 = packetbuf_attr pb ATTR_FRAME_COUNTER_BYTES_2_3"
    "uses_explicit_keys ll \<Longrightarrow> packetbuf_attr rx ATTR_KEY_ID_MODE = packetbuf_attr pb ATTR_KEY_ID_MODE"
    "uses_explicit_keys ll \<Longrightarrow> packetbuf_attr pb ATTR_KEY_ID_MODE \<noteq> 0 \<Longrightarrow>
      packetbuf_attr rx ATTR_KEY_INDEX = ucast (ucast (packetbuf_attr pb ATTR_KEY_INDEX) :: u8)"
    using fr(1) assms(2,3) a c widen_narrow [OF small(1)] widen_narrow [OF small(2)]
    by (simp_all add: rx_def fr_def [symmetric] note_frame_def Let_def)
qed

end
