(* ===== verification/Aes_128.thy ===== *)
theory Aes_128 imports Prelude begin

text \<open>
  AES-128 encryption (\<open>os/lib/aes-128.c\<close>): the key schedule into eleven round keys and the
  rounds on a block of sixteen bytes, updated in place as the code does. The reference is the
  cipher of FIPS-197 on a state of rows and columns.
\<close>

section \<open>The code\<close>

definition sbox :: "u8 list" where
  "sbox = [
    0x63, 0x7c, 0x77, 0x7b, 0xf2, 0x6b, 0x6f, 0xc5, 0x30, 0x01, 0x67, 0x2b, 0xfe, 0xd7, 0xab, 0x76,
    0xca, 0x82, 0xc9, 0x7d, 0xfa, 0x59, 0x47, 0xf0, 0xad, 0xd4, 0xa2, 0xaf, 0x9c, 0xa4, 0x72, 0xc0,
    0xb7, 0xfd, 0x93, 0x26, 0x36, 0x3f, 0xf7, 0xcc, 0x34, 0xa5, 0xe5, 0xf1, 0x71, 0xd8, 0x31, 0x15,
    0x04, 0xc7, 0x23, 0xc3, 0x18, 0x96, 0x05, 0x9a, 0x07, 0x12, 0x80, 0xe2, 0xeb, 0x27, 0xb2, 0x75,
    0x09, 0x83, 0x2c, 0x1a, 0x1b, 0x6e, 0x5a, 0xa0, 0x52, 0x3b, 0xd6, 0xb3, 0x29, 0xe3, 0x2f, 0x84,
    0x53, 0xd1, 0x00, 0xed, 0x20, 0xfc, 0xb1, 0x5b, 0x6a, 0xcb, 0xbe, 0x39, 0x4a, 0x4c, 0x58, 0xcf,
    0xd0, 0xef, 0xaa, 0xfb, 0x43, 0x4d, 0x33, 0x85, 0x45, 0xf9, 0x02, 0x7f, 0x50, 0x3c, 0x9f, 0xa8,
    0x51, 0xa3, 0x40, 0x8f, 0x92, 0x9d, 0x38, 0xf5, 0xbc, 0xb6, 0xda, 0x21, 0x10, 0xff, 0xf3, 0xd2,
    0xcd, 0x0c, 0x13, 0xec, 0x5f, 0x97, 0x44, 0x17, 0xc4, 0xa7, 0x7e, 0x3d, 0x64, 0x5d, 0x19, 0x73,
    0x60, 0x81, 0x4f, 0xdc, 0x22, 0x2a, 0x90, 0x88, 0x46, 0xee, 0xb8, 0x14, 0xde, 0x5e, 0x0b, 0xdb,
    0xe0, 0x32, 0x3a, 0x0a, 0x49, 0x06, 0x24, 0x5c, 0xc2, 0xd3, 0xac, 0x62, 0x91, 0x95, 0xe4, 0x79,
    0xe7, 0xc8, 0x37, 0x6d, 0x8d, 0xd5, 0x4e, 0xa9, 0x6c, 0x56, 0xf4, 0xea, 0x65, 0x7a, 0xae, 0x08,
    0xba, 0x78, 0x25, 0x2e, 0x1c, 0xa6, 0xb4, 0xc6, 0xe8, 0xdd, 0x74, 0x1f, 0x4b, 0xbd, 0x8b, 0x8a,
    0x70, 0x3e, 0xb5, 0x66, 0x48, 0x03, 0xf6, 0x0e, 0x61, 0x35, 0x57, 0xb9, 0x86, 0xc1, 0x1d, 0x9e,
    0xe1, 0xf8, 0x98, 0x11, 0x69, 0xd9, 0x8e, 0x94, 0x9b, 0x1e, 0x87, 0xe9, 0xce, 0x55, 0x28, 0xdf,
    0x8c, 0xa1, 0x89, 0x0d, 0xbf, 0xe6, 0x42, 0x68, 0x41, 0x99, 0x2d, 0x0f, 0xb0, 0x54, 0xbb, 0x16]"

definition galois_mul2 :: "u8 \<Rightarrow> u8" where
  "galois_mul2 v = push_bit 1 v XOR drop_bit 7 v * 0x1b"

definition round_key_step :: "u8 list \<Rightarrow> u8 \<Rightarrow> u8 list \<Rightarrow> u8 list" where
  "round_key_step prev rcon k =
     (let k = k[0 := sbox ! unat (prev ! 13) XOR prev ! 0 XOR rcon];
          k = k[1 := sbox ! unat (prev ! 14) XOR prev ! 1];
          k = k[2 := sbox ! unat (prev ! 15) XOR prev ! 2];
          k = k[3 := sbox ! unat (prev ! 12) XOR prev ! 3]
      in foldl (\<lambda>k j. k[j := prev ! j XOR k ! (j - 4)]) k [4..<16])"

function key_rounds :: "nat \<Rightarrow> u8 \<Rightarrow> u8 list list \<Rightarrow> u8 list list" where
  "key_rounds i rcon rks =
     (if i \<le> 10 then key_rounds (i + 1) (galois_mul2 rcon) (rks[i := round_key_step (rks ! (i - 1)) rcon (rks ! i)])
      else rks)"
  by auto
termination by (relation "measure (\<lambda>(i, _). 11 - i)") auto

declare key_rounds.simps [simp del]

definition aes_set_key :: "u8 list \<Rightarrow> u8 list list \<Rightarrow> u8 list list" where
  "aes_set_key key rks = key_rounds 1 0x01 (rks[0 := take 16 key])"

definition add_round_key :: "u8 list \<Rightarrow> u8 list \<Rightarrow> u8 list" where
  "add_round_key k st = foldl (\<lambda>st i. st[i := st ! i XOR k ! i]) st [0..<16]"

definition byte_sub :: "u8 list \<Rightarrow> u8 list" where
  "byte_sub st = foldl (\<lambda>st i. st[i := sbox ! unat (st ! i)]) st [0..<16]"

definition shift_row :: "u8 list \<Rightarrow> u8 list" where
  "shift_row st =
     (let buf1 = st ! 1; st = st[1 := st ! 5]; st = st[5 := st ! 9]; st = st[9 := st ! 13]; st = st[13 := buf1];
          buf1 = st ! 2; buf2 = st ! 6; st = st[2 := st ! 10]; st = st[6 := st ! 14]; st = st[10 := buf1];
          st = st[14 := buf2];
          buf1 = st ! 15; st = st[15 := st ! 11]; st = st[11 := st ! 7]; st = st[7 := st ! 3]
      in st[3 := buf1])"

definition mix_column :: "u8 list \<Rightarrow> nat \<Rightarrow> u8 list" where
  "mix_column st i =
     (let buf4 = i * 4;
          buf1 = st ! buf4 XOR st ! (buf4 + 1) XOR st ! (buf4 + 2) XOR st ! (buf4 + 3);
          buf2 = st ! buf4;
          buf3 = galois_mul2 (st ! buf4 XOR st ! (buf4 + 1));
          st = st[buf4 := st ! buf4 XOR buf3 XOR buf1];
          buf3 = galois_mul2 (st ! (buf4 + 1) XOR st ! (buf4 + 2));
          st = st[buf4 + 1 := st ! (buf4 + 1) XOR buf3 XOR buf1];
          buf3 = galois_mul2 (st ! (buf4 + 2) XOR st ! (buf4 + 3));
          st = st[buf4 + 2 := st ! (buf4 + 2) XOR buf3 XOR buf1];
          buf3 = galois_mul2 (st ! (buf4 + 3) XOR buf2)
      in st[buf4 + 3 := st ! (buf4 + 3) XOR buf3 XOR buf1])"

definition aes_round :: "u8 list list \<Rightarrow> u8 list \<Rightarrow> nat \<Rightarrow> u8 list" where
  "aes_round rks st r =
     (let st = shift_row (byte_sub st);
          st = (if r < 10 then foldl mix_column st [0..<4] else st)
      in add_round_key (rks ! r) st)"

definition aes_encrypt :: "u8 list list \<Rightarrow> u8 list \<Rightarrow> u8 list" where
  "aes_encrypt rks st = foldl (aes_round rks) (add_round_key (rks ! 0) st) [1..<11]"

section \<open>FIPS-197\<close>

text \<open>
  Multiplication by \<open>x\<close> modulo \<open>x^8 + x^4 + x^3 + x + 1\<close>. The S-box is the table of the standard.
\<close>

definition xtime :: "u8 \<Rightarrow> u8" where
  "xtime a = (if bit a 7 then push_bit 1 a XOR 0x1b else push_bit 1 a)"

text \<open>The byte in row \<open>r\<close> and column \<open>c\<close> of a state is element \<open>r + 4 * c\<close> of the block.\<close>

definition fips_shift_rows :: "u8 list \<Rightarrow> u8 list" where
  "fips_shift_rows st = map (\<lambda>n. st ! (n mod 4 + 4 * ((n div 4 + n mod 4) mod 4))) [0..<16]"

fun fips_mix_columns :: "u8 list \<Rightarrow> u8 list" where
  "fips_mix_columns (a # b # c # d # st) =
     (xtime a XOR (xtime b XOR b) XOR c XOR d) # (a XOR xtime b XOR (xtime c XOR c) XOR d)
     # (a XOR b XOR xtime c XOR (xtime d XOR d)) # ((xtime a XOR a) XOR b XOR c XOR xtime d) # fips_mix_columns st"
| "fips_mix_columns st = st"

definition fips_sub_bytes :: "u8 list \<Rightarrow> u8 list" where
  "fips_sub_bytes = map (\<lambda>b. sbox ! unat b)"

text \<open>The words of the key schedule; \<open>Rcon\<close> is a power of \<open>x\<close>.\<close>

definition xor_bytes :: "u8 list \<Rightarrow> u8 list \<Rightarrow> u8 list" where
  "xor_bytes xs ys = map (\<lambda>(x, y). x XOR y) (zip xs ys)"

function fips_word :: "u8 list \<Rightarrow> nat \<Rightarrow> u8 list" where
  "fips_word key i =
     (if i < 4 then sub key (4 * i) 4
      else let temp = fips_word key (i - 1);
               temp = (if i mod 4 = 0
                       then xor_bytes (fips_sub_bytes (rotate1 temp)) [(xtime ^^ (i div 4 - 1)) 1, 0, 0, 0]
                       else temp)
           in xor_bytes (fips_word key (i - 4)) temp)"
  by auto
termination by (relation "measure snd") auto

declare fips_word.simps [simp del]

definition fips_round_key :: "u8 list \<Rightarrow> nat \<Rightarrow> u8 list" where
  "fips_round_key key r = concat (map (\<lambda>c. fips_word key (4 * r + c)) [0..<4])"

definition fips_cipher :: "u8 list \<Rightarrow> u8 list \<Rightarrow> u8 list" where
  "fips_cipher key st =
     (let st = xor_bytes st (fips_round_key key 0);
          st = foldl (\<lambda>st r. xor_bytes (fips_mix_columns (fips_shift_rows (fips_sub_bytes st))) (fips_round_key key r))
                 st [1..<10]
      in xor_bytes (fips_shift_rows (fips_sub_bytes st)) (fips_round_key key 10))"

section \<open>The steps of a round\<close>

lemma galois_mul2_xtime: "galois_mul2 = xtime"
proof
  fix v :: u8
  have "drop_bit 7 v = of_bool (bit v 7)"
  proof (rule bit_word_eqI)
    show "bit (drop_bit 7 v) n = bit (of_bool (bit v 7) :: u8) n" for n
      by (cases n) (auto simp: bit_simps dest: bit_imp_le_length)
  qed
  then show "galois_mul2 v = xtime v" by (simp add: galois_mul2_def xtime_def)
qed

lemma xtime_xor: "xtime (a XOR b) = xtime a XOR xtime b"
  by (simp add: xtime_def bit_simps push_bit_xor ac_simps)

text \<open>A loop that updates each element in turn.\<close>

lemma update_loop:
  assumes "m \<le> length st"
  shows "foldl (\<lambda>st i. st[i := f i (st ! i)]) st [0..<m] = map (\<lambda>i. f i (st ! i)) [0..<m] @ drop m st"
  using assms
proof (induction m)
  case (Suc m)
  then have "drop m st = st ! m # drop (Suc m) st" by (simp add: Cons_nth_drop_Suc)
  with Suc show ?case by (simp add: nth_append list_update_append)
qed simp

lemma length_xor_bytes [simp]: "length (xor_bytes xs ys) = min (length xs) (length ys)"
  by (simp add: xor_bytes_def)

lemma add_round_key_eq: "length st = 16 \<Longrightarrow> length k = 16 \<Longrightarrow> add_round_key k st = xor_bytes st k"
  by (rule nth_equalityI) (simp_all add: add_round_key_def update_loop [where f = "\<lambda>i b. b XOR k ! i"] xor_bytes_def)

lemma byte_sub_eq: "length st = 16 \<Longrightarrow> byte_sub st = fips_sub_bytes st"
  by (rule nth_equalityI) (simp_all add: byte_sub_def update_loop [where f = "\<lambda>_ b. sbox ! unat b"] fips_sub_bytes_def)

lemma sixteen:
  assumes "length st = 16"
  obtains a b c d e f g h i j k l m n p q where "st = [a, b, c, d, e, f, g, h, i, j, k, l, m, n, p, q]"
  using assms by (auto simp: eval_nat_numeral length_Suc_conv)

lemma shift_row_eq: "length st = 16 \<Longrightarrow> shift_row st = fips_shift_rows st"
  by (erule sixteen) (simp add: shift_row_def fips_shift_rows_def Let_def upt_rec)

lemma mix_columns_eq: "length st = 16 \<Longrightarrow> foldl mix_column st [0..<4] = fips_mix_columns st"
  by (erule sixteen) (simp add: mix_column_def Let_def upt_rec galois_mul2_xtime xtime_xor ac_simps)

section \<open>The cipher\<close>

lemma length_steps [simp]:
  "length (fips_sub_bytes st) = length st" "length (fips_shift_rows st) = 16" "length (fips_mix_columns st) = length st"
  by (simp_all add: fips_sub_bytes_def fips_shift_rows_def) (induction st rule: fips_mix_columns.induct, simp_all)

lemma aes_round_eq:
  assumes "length st = 16" "length (rks ! r) = 16"
  shows "aes_round rks st r = xor_bytes (if r < 10 then fips_mix_columns (fips_shift_rows (fips_sub_bytes st))
      else fips_shift_rows (fips_sub_bytes st)) (rks ! r)"
  using assms by (simp add: aes_round_def Let_def byte_sub_eq shift_row_eq mix_columns_eq add_round_key_eq)

lemma aes_encrypt_rounds:
  assumes "length st = 16" "\<forall>r < 11. length (rks ! r) = 16"
  shows "aes_encrypt rks st = (let st = xor_bytes st (rks ! 0);
      st = foldl (\<lambda>st r. xor_bytes (fips_mix_columns (fips_shift_rows (fips_sub_bytes st))) (rks ! r)) st [1..<10]
    in xor_bytes (fips_shift_rows (fips_sub_bytes st)) (rks ! 10))"
proof -
  let ?f = "\<lambda>st r. xor_bytes (fips_mix_columns (fips_shift_rows (fips_sub_bytes st))) (rks ! r)"
  have rounds: "foldl (aes_round rks) st [1..<m] = foldl ?f st [1..<m] \<and> length (foldl ?f st [1..<m]) = 16"
    if "length st = 16" "m \<le> 10" for st m
    using that(2)
  proof (induction m)
    case (Suc m)
    then show ?case using that(1) assms(2) by (cases "m = 0") (auto simp: aes_round_eq)
  qed (use that in simp)
  have "[1..<11] = [1..<10] @ [10]" by (simp add: upt_rec)
  then show ?thesis
    using assms rounds [of "xor_bytes st (rks ! 0)" 10] by (simp add: aes_encrypt_def add_round_key_eq aes_round_eq Let_def)
qed

section \<open>The key schedule\<close>

text \<open>One step of the code makes the four words of one round key from those of the one before.\<close>

lemma round_key_step_eq:
  assumes "length prev = 16" "length k = 16"
  shows "round_key_step prev rc k =
    (let w = xor_bytes (sub prev 0 4) (xor_bytes (fips_sub_bytes (rotate1 (sub prev 12 4))) [rc, 0, 0, 0]);
         x = xor_bytes (sub prev 4 4) w; y = xor_bytes (sub prev 8 4) x
     in w @ x @ y @ xor_bytes (sub prev 12 4) y)"
  using assms
  by (elim sixteen) (simp add: round_key_step_def Let_def upt_rec xor_bytes_def sub_def fips_sub_bytes_def ac_simps)

lemma fips_word_length [simp]: "length key = 16 \<Longrightarrow> length (fips_word key i) = 4"
proof (induction key i rule: fips_word.induct)
  case (1 key i)
  then show ?case by (subst fips_word.simps) (auto simp: Let_def fips_sub_bytes_def)
qed

lemma four_words:
  "fips_round_key key r = fips_word key (4 * r) @ fips_word key (4 * r + 1) @ fips_word key (4 * r + 2) @ fips_word key (4 * r + 3)"
  by (simp add: fips_round_key_def upt_rec eval_nat_numeral)

lemma round_key_words:
  assumes "length key = 16"
  shows "take 4 (fips_round_key key r) = fips_word key (4 * r)" "sub (fips_round_key key r) 4 4 = fips_word key (4 * r + 1)"
    "sub (fips_round_key key r) 8 4 = fips_word key (4 * r + 2)" "sub (fips_round_key key r) 12 4 = fips_word key (4 * r + 3)"
    "length (fips_round_key key r) = 16"
  using assms by (simp_all add: four_words sub_def)

lemma next_round_key:
  assumes "length key = 16" "length k = 16"
  shows "round_key_step (fips_round_key key r) ((xtime ^^ r) 1) k = fips_round_key key (Suc r)"
proof -
  have w: "fips_word key (4 * Suc r) = xor_bytes (fips_word key (4 * r))
      (xor_bytes (fips_sub_bytes (rotate1 (fips_word key (4 * r + 3)))) [(xtime ^^ r) 1, 0, 0, 0])"
    by (subst fips_word.simps) (simp add: Let_def ac_simps)
  have s: "fips_word key (4 * Suc r + j) = xor_bytes (fips_word key (4 * r + j)) (fips_word key (4 * Suc r + j - 1))"
    if "j \<in> {1, 2, 3}" for j
  proof -
    have "(4 * Suc r + j) mod 4 = j" using that by auto
    then show ?thesis using that by (subst fips_word.simps) (auto simp: Let_def simp del: mod_mult_self1 mod_mult_self2)
  qed
  show ?thesis
    using w s [of 1] s [of 2] s [of 3]
    by (simp add: round_key_step_eq round_key_words assms Let_def four_words [of key "Suc r"])
qed

lemma key_rounds_eq:
  assumes "length key = 16" "1 \<le> i" "length rks = 11" "\<forall>r < 11. length (rks ! r) = 16"
    and "\<forall>r < i. r < 11 \<longrightarrow> rks ! r = fips_round_key key r" "rc = (xtime ^^ (i - 1)) 1"
  shows "length (key_rounds i rc rks) = 11 \<and> (\<forall>r < 11. key_rounds i rc rks ! r = fips_round_key key r)"
  using assms(2-)
proof (induction i rc rks rule: key_rounds.induct)
  case (1 i rc rks)
  show ?case
  proof (cases "i \<le> 10")
    case True
    then obtain j where i: "i = Suc j" using 1(2) by (cases i) auto
    let ?k = "round_key_step (rks ! j) rc (rks ! i)"
    have k: "?k = fips_round_key key i"
      using 1(3-6) True next_round_key [OF assms(1), of "rks ! i" j] by (simp add: i)
    have "key_rounds i rc rks = key_rounds (Suc i) (galois_mul2 rc) (rks[i := ?k])"
      using True by (subst key_rounds.simps) (simp add: i)
    moreover have "galois_mul2 rc = (xtime ^^ (Suc i - 1)) 1" using 1(6) by (simp add: i galois_mul2_xtime)
    moreover have "\<forall>r < Suc i. r < 11 \<longrightarrow> rks[i := ?k] ! r = fips_round_key key r" "\<forall>r < 11. length (rks[i := ?k] ! r) = 16"
      using 1(3-5) True by (auto simp: nth_list_update less_Suc_eq k round_key_words [OF assms(1)])
    ultimately show ?thesis using 1(1) [OF True] 1(3) by (simp add: i)
  next
    case False
    then show ?thesis using 1(3,5) by (subst (1 2) key_rounds.simps) simp
  qed
qed

lemma aes_set_key_eq:
  assumes "length key = 16" "length rks = 11" "\<forall>r < 11. length (rks ! r) = 16" "r < 11"
  shows "aes_set_key key rks ! r = fips_round_key key r" "length (aes_set_key key rks) = 11"
proof -
  have "fips_round_key key 0 = key"
    using assms(1) by (elim sixteen) (simp add: four_words fips_word.simps sub_def)
  then have "length (aes_set_key key rks) = 11 \<and> (\<forall>r < 11. aes_set_key key rks ! r = fips_round_key key r)"
    unfolding aes_set_key_def using assms(1-3) by (intro key_rounds_eq) (auto simp: nth_list_update)
  then show "aes_set_key key rks ! r = fips_round_key key r" "length (aes_set_key key rks) = 11" using assms(4) by auto
qed

lemma aes_encrypt_fips:
  assumes "length key = 16" "length rks = 11" "\<forall>r < 11. length (rks ! r) = 16" "length st = 16"
  shows "aes_encrypt (aes_set_key key rks) st = fips_cipher key st"
proof -
  note k = aes_set_key_eq [OF assms(1-3)]
  have "foldl (\<lambda>st r. xor_bytes (fips_mix_columns (fips_shift_rows (fips_sub_bytes st))) (aes_set_key key rks ! r)) x [1..<10] =
      foldl (\<lambda>st r. xor_bytes (fips_mix_columns (fips_shift_rows (fips_sub_bytes st))) (fips_round_key key r)) x [1..<10]" for x
    by (rule foldl_cong) (simp_all add: k)
  then show ?thesis
    using assms(4) k by (simp add: aes_encrypt_rounds round_key_words [OF assms(1)] fips_cipher_def)
qed

lemma length_fips_cipher [simp]: "length key = 16 \<Longrightarrow> length (fips_cipher key st) = 16"
  by (simp add: fips_cipher_def Let_def round_key_words)

text \<open>The example vector of FIPS-197, computed by the code.\<close>

lemma aes_example_vector:
  "aes_encrypt (aes_set_key (map of_nat [0..<16]) (replicate 11 (replicate 16 0))) (map (\<lambda>i. of_nat (17 * i)) [0..<16]) =
    [0x69, 0xc4, 0xe0, 0xd8, 0x6a, 0x7b, 0x04, 0x30, 0xd8, 0xcd, 0xb7, 0x80, 0x70, 0xb4, 0xc5, 0x5a]"
  by code_simp

end
