(* ===== verification/Ccm_Star.thy ===== *)
theory Ccm_Star imports Aes_128 begin

text \<open>
  CCM* authenticated encryption (\<open>os/lib/ccm-star.c\<close>) over a block cipher, the driver
  \<open>AES_128\<close> with its key set: the CBC-MAC over header and message, the counter mode that
  encrypts in place, and their combination. Message and header are separate parts of one
  buffer. Lengths are below \<open>2 ^ 16\<close>; the block counter keeps its sixteen bits. The reference is
  RFC 3610.
\<close>

section \<open>The code\<close>

definition MIC_LEN_VALID :: "nat \<Rightarrow> bool" where
  "MIC_LEN_VALID n \<longleftrightarrow> 4 \<le> n \<and> n \<le> 16 \<and> n mod 2 = 0"

definition MAX_A_LEN :: nat where
  "MAX_A_LEN = 0xfeff"

definition CCM_STAR_AUTH_FLAGS :: "bool \<Rightarrow> nat \<Rightarrow> u8" where
  "CCM_STAR_AUTH_FLAGS auth miclen = (if auth then push_bit 6 1 else 0) OR push_bit 3 (drop_bit 1 (of_nat miclen - 2)) OR 1"

definition set_iv :: "u8 \<Rightarrow> u8 list \<Rightarrow> u16 \<Rightarrow> u8 list" where
  "set_iv flags nonce counter = flags # take 13 nonce @ [ucast (drop_bit 8 counter), ucast counter]"

definition ctr_step :: "(u8 list \<Rightarrow> u8 list) \<Rightarrow> u8 list \<Rightarrow> nat \<Rightarrow> u8 list \<Rightarrow> nat \<Rightarrow> u16 \<Rightarrow> u8 list" where
  "ctr_step enc nonce pos m m_len counter =
     (let a = enc (set_iv 1 nonce counter)
      in foldl (\<lambda>m i. m[pos + i := m ! (pos + i) XOR a ! i]) m [0..<min 16 (m_len - pos)])"

text \<open>Adding up to sixteen bytes of the input to the state and encrypting it.\<close>

definition mac_block :: "(u8 list \<Rightarrow> u8 list) \<Rightarrow> u8 list \<Rightarrow> nat \<Rightarrow> nat \<Rightarrow> u8 list \<Rightarrow> u8 list" where
  "mac_block enc m m_len pos x =
     enc (foldl (\<lambda>x i. x[i := x ! i XOR m ! (pos + i)]) x [0..<min 16 (m_len - pos)])"

function mac_loop :: "(u8 list \<Rightarrow> u8 list) \<Rightarrow> u8 list \<Rightarrow> nat \<Rightarrow> nat \<Rightarrow> u8 list \<Rightarrow> u8 list" where
  "mac_loop enc m m_len pos x =
     (if pos < m_len then mac_loop enc m m_len (pos + 16) (mac_block enc m m_len pos x) else x)"
  by auto
termination by (relation "measure (\<lambda>(_, _, n, pos, _). n - pos)") auto

definition mic :: "(u8 list \<Rightarrow> u8 list) \<Rightarrow> u8 list \<Rightarrow> u8 list \<Rightarrow> nat \<Rightarrow> u8 list \<Rightarrow> nat \<Rightarrow> nat \<Rightarrow> u8 list" where
  "mic enc nonce m m_len a a_len mic_len =
     (let x = enc (set_iv (CCM_STAR_AUTH_FLAGS (a_len > 0) mic_len) nonce (of_nat m_len));
          x = (if a_len \<noteq> 0 then
                 let x = x[0 := x ! 0 XOR ucast (drop_bit 8 (of_nat a_len :: u16))];
                     x = x[1 := x ! 1 XOR of_nat a_len];
                     x = foldl (\<lambda>x i. x[i := x ! i XOR a ! (i - 2)]) x [2..<min 16 (a_len + 2)]
                 in mac_loop enc a a_len 14 (enc x)
               else x);
          x = (if m_len \<noteq> 0 then mac_loop enc m m_len 0 x else x)
      in take mic_len (ctr_step enc nonce 0 x 16 0))"

function ctr_loop :: "(u8 list \<Rightarrow> u8 list) \<Rightarrow> u8 list \<Rightarrow> nat \<Rightarrow> u16 \<Rightarrow> nat \<Rightarrow> u8 list \<Rightarrow> u8 list" where
  "ctr_loop enc nonce pos counter m_len m =
     (if pos < m_len then ctr_loop enc nonce (pos + 16) (counter + 1) m_len (ctr_step enc nonce pos m m_len counter)
      else m)"
  by auto
termination by (relation "measure (\<lambda>(_, _, pos, _, n, _). n - pos)") auto

declare mac_loop.simps [simp del] ctr_loop.simps [simp del]

definition ctr :: "(u8 list \<Rightarrow> u8 list) \<Rightarrow> u8 list \<Rightarrow> u8 list \<Rightarrow> nat \<Rightarrow> u8 list" where
  "ctr enc nonce m m_len = ctr_loop enc nonce 0 1 m_len m"

text \<open>The message after the call and the place of the result.\<close>

definition ccm_aead :: "(u8 list \<Rightarrow> u8 list) \<Rightarrow> u8 list \<Rightarrow> u8 list \<Rightarrow> nat \<Rightarrow> u8 list \<Rightarrow> nat \<Rightarrow> u8 list \<Rightarrow> nat \<Rightarrow> bool \<Rightarrow>
    u8 list \<times> u8 list" where
  "ccm_aead enc nonce m m_len a a_len result mic_len forward =
     (if a_len > MAX_A_LEN \<or> \<not> MIC_LEN_VALID mic_len then (m, result)
      else
        let m = (if \<not> forward then ctr enc nonce m m_len else m);
            result = blit result 0 (mic enc nonce m m_len a a_len mic_len);
            m = (if forward then ctr enc nonce m m_len else m)
        in (m, result))"

section \<open>RFC 3610\<close>

definition pad16 :: "u8 list \<Rightarrow> u8 list" where
  "pad16 bs = bs @ replicate ((16 - length bs mod 16) mod 16) 0"

function cbc :: "(u8 list \<Rightarrow> u8 list) \<Rightarrow> u8 list \<Rightarrow> u8 list \<Rightarrow> u8 list" where
  "cbc enc x bs = (if bs = [] then x else cbc enc (enc (xor_bytes x (take 16 bs))) (drop 16 bs))"
  by auto
termination by (relation "measure (\<lambda>(_, _, bs). length bs)") auto

declare cbc.simps [simp del]

text \<open>\<open>T\<close>: the CBC-MAC of the first block, the padded header with its length, the padded message.\<close>

definition auth_blocks :: "u8 list \<Rightarrow> u8 list \<Rightarrow> u8 list" where
  "auth_blocks a m =
     (if a = [] then [] else pad16 ([ucast (drop_bit 8 (of_nat (length a) :: u16)), of_nat (length a)] @ a)) @ pad16 m"

definition rfc_mic :: "(u8 list \<Rightarrow> u8 list) \<Rightarrow> u8 list \<Rightarrow> u8 list \<Rightarrow> u8 list \<Rightarrow> nat \<Rightarrow> u8 list" where
  "rfc_mic enc nonce m a mic_len =
     (let b0 = (64 * of_bool (a \<noteq> []) + 8 * of_nat ((mic_len - 2) div 2) + 1) # nonce
               @ [ucast (drop_bit 8 (of_nat (length m) :: u16)), of_nat (length m)];
          t = cbc enc (enc b0) (auth_blocks a m)
      in take mic_len (xor_bytes t (enc (set_iv 1 nonce 0))))"

text \<open>Byte \<open>i\<close> of the key stream comes from counter \<open>1 + i div 16\<close>.\<close>

definition key_stream :: "(u8 list \<Rightarrow> u8 list) \<Rightarrow> u8 list \<Rightarrow> nat \<Rightarrow> u8" where
  "key_stream enc nonce i = enc (set_iv 1 nonce (of_nat (1 + i div 16))) ! (i mod 16)"

definition rfc_encrypt :: "(u8 list \<Rightarrow> u8 list) \<Rightarrow> u8 list \<Rightarrow> u8 list \<Rightarrow> u8 list" where
  "rfc_encrypt enc nonce m = map (\<lambda>i. m ! i XOR key_stream enc nonce i) [0..<length m]"

section \<open>Counter mode\<close>

lemma update_loop_from:
  assumes "pos + n \<le> length m"
  shows "foldl (\<lambda>m i. m[pos + i := f i (m ! (pos + i))]) m [0..<n] =
    take pos m @ map (\<lambda>i. f i (m ! (pos + i))) [0..<n] @ drop (pos + n) m"
  using assms
proof (induction n)
  case (Suc n)
  then have "drop (pos + n) m = m ! (pos + n) # drop (Suc (pos + n)) m" by (simp add: Cons_nth_drop_Suc)
  with Suc show ?case by (simp add: nth_append list_update_append)
qed simp

lemma length_foldl_update [simp]: "length (foldl (\<lambda>m i. m[g i := f i m]) m is) = length m"
  by (induction "is" arbitrary: m) simp_all

lemma length_ctr_step [simp]: "length (ctr_step enc nonce pos m m_len c) = length m"
  by (simp add: ctr_step_def Let_def)

lemma ctr_step_nth:
  assumes "m_len \<le> length m" "j < length m"
  shows "ctr_step enc nonce pos m m_len c ! j =
    (if pos \<le> j \<and> j < pos + 16 \<and> j < m_len then m ! j XOR enc (set_iv 1 nonce c) ! (j - pos) else m ! j)"
proof (cases "pos \<le> m_len")
  case True
  then have "pos + min 16 (m_len - pos) \<le> length m" using assms(1) by simp
  from update_loop_from [OF this, where f = "\<lambda>i b. b XOR enc (set_iv 1 nonce c) ! i"] show ?thesis
    using True assms by (auto simp: ctr_step_def Let_def nth_append min_def)
next
  case False
  then show ?thesis by (auto simp: ctr_step_def)
qed

lemma length_ctr_loop [simp]: "length (ctr_loop enc nonce pos c m_len m) = length m"
proof (induction enc nonce pos c m_len m rule: ctr_loop.induct)
  case (1 enc nonce pos c m_len m)
  then show ?case by (subst ctr_loop.simps) simp
qed

lemma ctr_loop_nth:
  assumes "m_len \<le> length m" "j < length m"
  shows "ctr_loop enc nonce pos c m_len m ! j = (if pos \<le> j \<and> j < m_len
      then m ! j XOR enc (set_iv 1 nonce (c + of_nat ((j - pos) div 16))) ! ((j - pos) mod 16) else m ! j)"
  using assms
proof (induction enc nonce pos c m_len m rule: ctr_loop.induct)
  case (1 enc nonce pos c m_len m)
  show ?case
  proof (cases "pos < m_len")
    case True
    let ?m = "ctr_step enc nonce pos m m_len c"
    have step: "ctr_loop enc nonce pos c m_len m = ctr_loop enc nonce (pos + 16) (c + 1) m_len ?m"
      using True by (subst ctr_loop.simps) simp
    have IH: "ctr_loop enc nonce (pos + 16) (c + 1) m_len ?m ! j = (if pos + 16 \<le> j \<and> j < m_len
        then ?m ! j XOR enc (set_iv 1 nonce (c + 1 + of_nat ((j - (pos + 16)) div 16))) ! ((j - (pos + 16)) mod 16) else ?m ! j)"
      using 1(2,3) by (intro 1(1) [OF True]) simp_all
    show ?thesis
    proof (cases "pos + 16 \<le> j")
      case far: True
      then obtain k where k: "j = pos + 16 + k" using le_Suc_ex by blast
      have "j - pos = 16 + k" "j - (pos + 16) = k" by (simp_all add: k)
      moreover have "(16 + k) div 16 = 1 + k div 16" "(16 + k) mod 16 = k mod 16" by simp_all
      ultimately show ?thesis using far IH ctr_step_nth [OF 1(2,3), of enc nonce pos c] by (simp only: step) (simp add: add.assoc k)
    next
      case False
      then show ?thesis using IH ctr_step_nth [OF 1(2,3), of enc nonce pos c] by (auto simp: step)
    qed
  next
    case False
    then have "ctr_loop enc nonce pos c m_len m = m" by (subst ctr_loop.simps) simp
    then show ?thesis using False by auto
  qed
qed

lemma ctr_eq:
  assumes "m_len \<le> length m"
  shows "ctr enc nonce m m_len = rfc_encrypt enc nonce (take m_len m) @ drop m_len m"
proof (rule nth_equalityI)
  have len: "length (ctr enc nonce m m_len) = length m"
    by (simp add: ctr_def)
  with assms show "length (ctr enc nonce m m_len) = length (rfc_encrypt enc nonce (take m_len m) @ drop m_len m)"
    by (simp add: rfc_encrypt_def)
  show "ctr enc nonce m m_len ! j = (rfc_encrypt enc nonce (take m_len m) @ drop m_len m) ! j"
    if "j < length (ctr enc nonce m m_len)" for j
    using ctr_loop_nth [OF assms, of j] that len assms by (simp add: ctr_def rfc_encrypt_def key_stream_def nth_append)
qed

lemma rfc_encrypt_twice: "rfc_encrypt enc nonce (rfc_encrypt enc nonce m) = m"
  by (rule nth_equalityI) (simp_all add: rfc_encrypt_def xor.assoc)

lemma length_rfc_encrypt [simp]: "length (rfc_encrypt enc nonce m) = length m"
  by (simp add: rfc_encrypt_def)

section \<open>The message authentication code\<close>

lemma pad16_blocks:
  assumes "bs \<noteq> []"
  shows "take 16 (pad16 bs) = take 16 bs @ replicate (16 - length bs) 0" "drop 16 (pad16 bs) = pad16 (drop 16 bs)"
proof -
  have l: "0 < length bs" using assms by simp
  show "take 16 (pad16 bs) = take 16 bs @ replicate (16 - length bs) 0"
    using l by (cases "length bs < 16") (simp_all add: pad16_def)
  show "drop 16 (pad16 bs) = pad16 (drop 16 bs)"
    using l by (cases "length bs < 16") (simp_all add: pad16_def le_mod_geq)
qed

lemma pad16_Nil [simp]: "pad16 [] = []" "pad16 bs = [] \<longleftrightarrow> bs = []"
  by (cases bs; simp add: pad16_def)+

lemma length_pad16_mod: "length (pad16 bs) mod 16 = 0"
proof -
  have "length bs + (16 - length bs mod 16) = 16 * (length bs div 16 + 1)"
    using mod_less_divisor [of 16 "length bs", OF zero_less_numeral] div_mult_mod_eq [of "length bs" 16] by arith
  then have "(length bs + (16 - length bs mod 16)) mod 16 = 0" by (simp only: mod_mult_self1_is_0)
  then show ?thesis by (simp add: pad16_def mod_add_right_eq)
qed

lemma add_bytes:
  assumes "length x = 16" "n = min 16 (length bs - pos)"
  shows "foldl (\<lambda>x i. x[i := x ! i XOR bs ! (pos + i)]) x [0..<n] =
    xor_bytes x (take 16 (drop pos bs) @ replicate (16 - length (drop pos bs)) 0)"
proof -
  have "n \<le> length x" using assms by simp
  from update_loop [OF this, where f = "\<lambda>i b. b XOR bs ! (pos + i)"] show ?thesis
    using assms by (intro nth_equalityI) (auto simp: xor_bytes_def nth_append min_def)
qed

lemma cbc_Nil [simp]: "cbc enc x [] = x"
  by (subst cbc.simps) simp

lemma cbc_step: "bs \<noteq> [] \<Longrightarrow> cbc enc x bs = cbc enc (enc (xor_bytes x (take 16 bs))) (drop 16 bs)"
  by (subst cbc.simps) simp

lemma cbc_append:
  assumes "length bs mod 16 = 0"
  shows "cbc enc x (bs @ cs) = cbc enc (cbc enc x bs) cs"
  using assms
proof (induction enc x bs rule: cbc.induct)
  case (1 enc x bs)
  show ?case
  proof (cases "bs = []")
    case False
    then have l: "16 \<le> length bs" using 1(2) by (metis length_0_conv mod_less not_less)
    then have "length (drop 16 bs) mod 16 = 0" using 1(2) by (simp add: le_mod_geq [symmetric])
    from 1(1) [OF False this] show ?thesis using l False by (simp add: cbc_step)
  qed simp
qed

lemma update_range:
  "n \<le> length x \<Longrightarrow> foldl (\<lambda>x i. x[i := f i (x ! i)]) x [j..<n] ! k = (if j \<le> k \<and> k < n then f k (x ! k) else x ! k)"
proof (induction n)
  case (Suc n)
  then show ?case by (cases "j \<le> n") (auto simp: nth_list_update less_Suc_eq)
qed simp

lemma auth_flags: "MIC_LEN_VALID n \<Longrightarrow> CCM_STAR_AUTH_FLAGS b n = 64 * of_bool b + 8 * of_nat ((n - 2) div 2) + 1"
proof -
  assume "MIC_LEN_VALID n"
  then have "n \<in> {4, 6, 8, 10, 12, 14, 16}" unfolding MIC_LEN_VALID_def by simp presburger
  then show ?thesis by (cases b) (auto simp: CCM_STAR_AUTH_FLAGS_def)
qed

lemma ucast_of_nat_u8: "(ucast (of_nat n :: u16) :: u8) = of_nat n"
  by transfer (simp add: take_bit_of_nat min_def)

text \<open>A cipher maps blocks of sixteen bytes to such blocks.\<close>

locale block_cipher =
  fixes enc :: "u8 list \<Rightarrow> u8 list"
  assumes length_enc: "length x = 16 \<Longrightarrow> length (enc x) = 16"
begin

lemma mac_block_eq:
  assumes "m_len \<le> length m" "length x = 16" "pos < m_len" "bs = drop pos (take m_len m)"
  shows "mac_block enc m m_len pos x = enc (xor_bytes x (take 16 (pad16 bs)))" "bs \<noteq> []"
proof -
  show b: "bs \<noteq> []" using assms by simp
  let ?m = "take m_len m"
  have "foldl (\<lambda>x i. x[i := x ! i XOR m ! (pos + i)]) x [0..<min 16 (m_len - pos)] =
      foldl (\<lambda>x i. x[i := x ! i XOR ?m ! (pos + i)]) x [0..<min 16 (m_len - pos)]"
    using assms by (intro foldl_cong) auto
  then show "mac_block enc m m_len pos x = enc (xor_bytes x (take 16 (pad16 bs)))"
    using assms add_bytes [OF assms(2), of "min 16 (m_len - pos)" ?m pos]
    by (simp add: mac_block_def pad16_blocks)
qed

lemma mac_loop_eq:
  assumes "m_len \<le> length m" "length x = 16"
  shows "mac_loop enc m m_len pos x = cbc enc x (pad16 (drop pos (take m_len m)))"
  using assms
proof (induction "m_len - pos" arbitrary: pos x rule: less_induct)
  case less
  show ?case
  proof (cases "pos < m_len")
    case True
    let ?x = "mac_block enc m m_len pos x" and ?bs = "drop pos (take m_len m)"
    note b = mac_block_eq [OF less(2,3) True refl]
    have "length (xor_bytes x (take 16 (pad16 ?bs))) = 16" using less(3) b(2) by (simp add: pad16_blocks)
    then have "length ?x = 16" using b(1) by (simp add: length_enc)
    moreover have "m_len - (pos + 16) < m_len - pos" using True by simp
    ultimately have "mac_loop enc m m_len (pos + 16) ?x = cbc enc ?x (pad16 (drop (pos + 16) (take m_len m)))"
      using less(1,2) by blast
    then show ?thesis
      using True b by (subst mac_loop.simps) (simp add: cbc_step pad16_blocks add.commute)
  next
    case False
    then show ?thesis by (subst mac_loop.simps) simp
  qed
qed

text \<open>The first block of the header holds its length and up to fourteen of its bytes.\<close>

lemma header_nth:
  assumes "length x = 16" "0 < a_len" "a_len \<le> length a" "bs = l # l' # take a_len a" "k < 16"
  shows "foldl (\<lambda>x i. x[i := x ! i XOR a ! (i - 2)]) (x[0 := x ! 0 XOR l, 1 := x ! 1 XOR l']) [2..<min 16 (a_len + 2)] ! k =
      xor_bytes x (take 16 (pad16 bs)) ! k"
proof -
  have b: "bs \<noteq> []" "length bs = a_len + 2" using assms by auto
  define N where "N = min 16 (a_len + 2)"
  have N: "N \<le> length (x[0 := x ! 0 XOR l, 1 := x ! 1 XOR l'])" "2 \<le> N" using assms(1) by (simp_all add: N_def)
  note upd = update_range [OF N(1), where f = "\<lambda>i b. b XOR a ! (i - 2)" and k = k and j = 2]
  have block: "take 16 (pad16 bs) ! k = (if k = 0 then l else if k = 1 then l' else if k < N then a ! (k - 2) else 0)"
  proof -
    have A: "take 16 (pad16 bs) ! k = (if k < a_len + 2 then bs ! k else 0)"
      unfolding nth_take [OF assms(5)] using assms(5) b(2) by (simp add: pad16_def nth_append)
    have B: "k < N \<longleftrightarrow> k < a_len + 2" using assms(5) unfolding N_def min_less_iff_conj by simp
    consider "k = 0" | "k = 1" | j where "k = Suc (Suc j)" by (metis One_nat_def not0_implies_Suc)
    then show ?thesis unfolding A B using assms(3) by cases (simp_all add: assms(4))
  qed
  have "xor_bytes x (take 16 (pad16 bs)) ! k = x ! k XOR take 16 (pad16 bs) ! k"
    using assms b by (simp add: xor_bytes_def pad16_blocks)
  then show ?thesis unfolding N_def [symmetric] upd block using assms(1,5) N(2) by (simp add: nth_list_update)
qed

lemma header_eq:
  assumes "length x = 16" "0 < a_len" "a_len \<le> length a" "bs = l # l' # take a_len a"
  shows "foldl (\<lambda>x i. x[i := x ! i XOR a ! (i - 2)]) (x[0 := x ! 0 XOR l, 1 := x ! 1 XOR l']) [2..<min 16 (a_len + 2)] =
      xor_bytes x (take 16 (pad16 bs))"
    "mac_loop enc a a_len 14 (enc (xor_bytes x (take 16 (pad16 bs)))) = cbc enc x (pad16 bs)"
proof -
  have b: "bs \<noteq> []" "length bs = a_len + 2" using assms by auto
  show "foldl (\<lambda>x i. x[i := x ! i XOR a ! (i - 2)]) (x[0 := x ! 0 XOR l, 1 := x ! 1 XOR l']) [2..<min 16 (a_len + 2)] =
      xor_bytes x (take 16 (pad16 bs))" (is "?l = ?r")
  proof (rule nth_equalityI)
    show "length ?l = length ?r" using assms b by (simp add: pad16_blocks)
    show "?l ! k = ?r ! k" if "k < length ?l" for k
      using header_nth [OF assms, of k] that assms(1) by simp
  qed
  have "length (xor_bytes x (take 16 (pad16 bs))) = 16" using assms b by (simp add: pad16_blocks)
  then have "length (enc (xor_bytes x (take 16 (pad16 bs)))) = 16" by (rule length_enc)
  moreover have "drop 16 bs = drop 14 (take a_len a)" by (simp add: assms(4))
  ultimately show "mac_loop enc a a_len 14 (enc (xor_bytes x (take 16 (pad16 bs)))) = cbc enc x (pad16 bs)"
    using b assms(3) by (simp add: mac_loop_eq cbc_step pad16_blocks)
qed

lemma length_cbc: "length x = 16 \<Longrightarrow> length bs mod 16 = 0 \<Longrightarrow> length (cbc enc x bs) = 16"
proof (induction "length bs" arbitrary: x bs rule: less_induct)
  case less
  show ?case
  proof (cases "bs = []")
    case False
    then have l: "16 \<le> length bs" using less(3) by (metis length_0_conv mod_less not_less)
    have "length (enc (xor_bytes x (take 16 bs))) = 16" using less(2) l by (simp add: length_enc)
    moreover have "length (drop 16 bs) mod 16 = 0" using less(3) l by (simp add: le_mod_geq [symmetric])
    ultimately show ?thesis using less(1) [of "drop 16 bs"] False l by (simp add: cbc_step)
  qed (simp add: less)
qed

lemma mic_length:
  assumes "length nonce = 13" "MIC_LEN_VALID n"
  shows "length (rfc_mic enc nonce m a n) = n"
proof -
  have "length (set_iv 1 nonce 0) = 16" using assms(1) by (simp add: set_iv_def)
  moreover have "length (auth_blocks a m) mod 16 = 0"
    using length_pad16_mod by (simp add: auth_blocks_def mod_add_eq [symmetric])
  ultimately show ?thesis
    using assms by (simp add: rfc_mic_def length_cbc length_enc MIC_LEN_VALID_def)
qed

lemma mic_eq:
  assumes "length nonce = 13" "a_len \<le> length a" "m_len \<le> length m" "MIC_LEN_VALID n"
  shows "mic enc nonce m m_len a a_len n = rfc_mic enc nonce (take m_len m) (take a_len a) n"
proof -
  let ?b0 = "set_iv (CCM_STAR_AUTH_FLAGS (a_len > 0) n) nonce (of_nat m_len)"
  have len: "length (set_iv f nonce c) = 16" for f c using assms(1) by (simp add: set_iv_def)
  define x where "x = enc ?b0"
  have x: "length x = 16" using len by (simp add: x_def length_enc)
  define y where "y = (if a_len \<noteq> 0 then cbc enc x (pad16 ([ucast (drop_bit 8 (of_nat a_len :: u16)), of_nat a_len] @ take a_len a)) else x)"
  have y: "length y = 16" using x by (simp add: y_def length_cbc length_pad16_mod)
  define z where "z = cbc enc y (pad16 (take m_len m))"
  have z: "length z = 16" using y by (simp add: z_def length_cbc length_pad16_mod)
  have ctr0: "ctr_step enc nonce 0 z 16 0 = xor_bytes z (enc (set_iv 1 nonce 0))"
    using z length_enc [OF len, of 1 0] by (intro nth_equalityI) (simp_all add: ctr_step_nth xor_bytes_def)
  have "mic enc nonce m m_len a a_len n = take n (ctr_step enc nonce 0 z 16 0)"
    unfolding mic_def x_def [symmetric] Let_def
    using x y assms(2,3) header_eq [OF x _ assms(2) refl]
    by (cases "a_len = 0"; cases "m_len = 0") (simp_all add: z_def y_def mac_loop_eq)
  moreover have "cbc enc x (auth_blocks (take a_len a) (take m_len m)) = z"
    using assms(2) by (auto simp: auth_blocks_def z_def y_def cbc_append length_pad16_mod)
  moreover have "?b0 = (64 * of_bool (take a_len a \<noteq> []) + 8 * of_nat ((n - 2) div 2) + 1) # nonce
      @ [ucast (drop_bit 8 (of_nat (length (take m_len m)) :: u16)), of_nat (length (take m_len m))]"
    using assms auth_flags [OF assms(4), of "a_len > 0"] by (auto simp: set_iv_def ucast_of_nat_u8)
  ultimately show ?thesis by (simp add: rfc_mic_def ctr0 x_def)
qed

section \<open>Encrypting and back\<close>

lemma aead_forward:
  assumes "length nonce = 13" "a_len \<le> length a" "a_len \<le> MAX_A_LEN" "m_len \<le> length m" "MIC_LEN_VALID n" "n \<le> length r"
  shows "ccm_aead enc nonce m m_len a a_len r n True =
    (rfc_encrypt enc nonce (take m_len m) @ drop m_len m, rfc_mic enc nonce (take m_len m) (take a_len a) n @ drop n r)"
proof -
  have "length (rfc_mic enc nonce (take m_len m) (take a_len a) n) = n"
    using assms(1,5) length_enc by (simp add: mic_length)
  then show ?thesis using assms by (simp add: ccm_aead_def ctr_eq mic_eq blit_def)
qed

lemma aead_backward:
  assumes "length nonce = 13" "a_len \<le> length a" "a_len \<le> MAX_A_LEN" "m_len \<le> length m" "MIC_LEN_VALID n" "n \<le> length r"
  shows "ccm_aead enc nonce m m_len a a_len r n False =
    (rfc_encrypt enc nonce (take m_len m) @ drop m_len m,
     rfc_mic enc nonce (rfc_encrypt enc nonce (take m_len m)) (take a_len a) n @ drop n r)"
proof -
  have "length (rfc_mic enc nonce (rfc_encrypt enc nonce (take m_len m)) (take a_len a) n) = n"
    using assms(1,5) length_enc by (simp add: mic_length)
  then show ?thesis using assms by (simp add: ccm_aead_def ctr_eq mic_eq blit_def)
qed

end

text \<open>A call with lengths the implementation does not support changes nothing.\<close>

lemma aead_refused: "\<not> MIC_LEN_VALID n \<Longrightarrow> ccm_aead enc nonce m m_len a a_len r n fwd = (m, r)"
  by (simp add: ccm_aead_def)

section \<open>AES as the cipher\<close>

lemma length_aes_encrypt [simp]: "length (aes_encrypt rks x) = length x"
proof -
  have mix: "length (foldl mix_column st is) = length st" for st "is"
    by (induction "is" arbitrary: st) (simp_all add: mix_column_def Let_def)
  have "length (aes_round rks st r) = length st" for st r
    by (simp add: aes_round_def Let_def add_round_key_def byte_sub_def shift_row_def mix)
  then have "length (foldl (aes_round rks) st rs) = length st" for st rs
    by (induction rs arbitrary: st) simp_all
  then show ?thesis by (simp add: aes_encrypt_def add_round_key_def)
qed

interpretation aes: block_cipher "aes_encrypt rks" for rks
  by unfold_locales simp

end
