(* ===== verification/Csma_Security.thy ===== *)
theory Csma_Security imports Framer_802154 Ccm_Star begin

text \<open>
  Link-layer security of den2ne (\<open>csma-security.c\<close>, \<open>ccm-star-packetbuf.c\<close>, \<open>anti-replay.c\<close>):
  frames are created and parsed with or without security, as the build says. The state is the
  frame counter, the keys, the round keys of the cipher and whether a MIC has been written past
  the end of the packet buffer. \<open>junk\<close> is what the local array for the received MIC holds.
  Integers are little-endian, so \<open>LLSEC802154_HTONL\<close> is the identity.
\<close>

section \<open>Replay protection\<close>

record anti_replay_info =
  last_broadcast_counter :: u32
  last_unicast_counter :: u32

record llsec_state =
  counter :: u32
  keys :: "u8 list list"
  round_keys :: "u8 list list"
  sec_overrun :: bool

definition anti_replay_set_counter :: "llsec_state \<Rightarrow> packetbuf \<Rightarrow> llsec_state \<times> packetbuf" where
  "anti_replay_set_counter s pb =
     (let s = s\<lparr>counter := counter s + 1\<rparr>;
          pb = packetbuf_set_attr ATTR_FRAME_COUNTER_BYTES_0_1 (ucast (counter s)) pb;
          pb = packetbuf_set_attr ATTR_FRAME_COUNTER_BYTES_2_3 (ucast (drop_bit 16 (counter s))) pb
      in (s, pb))"

definition anti_replay_get_counter :: "packetbuf \<Rightarrow> u32" where
  "anti_replay_get_counter pb =
     ucast (packetbuf_attr pb ATTR_FRAME_COUNTER_BYTES_0_1) OR
     push_bit 16 (ucast (packetbuf_attr pb ATTR_FRAME_COUNTER_BYTES_2_3))"

definition anti_replay_init_info :: "packetbuf \<Rightarrow> anti_replay_info" where
  "anti_replay_init_info pb =
     \<lparr>last_broadcast_counter = anti_replay_get_counter pb, last_unicast_counter = anti_replay_get_counter pb\<rparr>"

definition anti_replay_was_replayed :: "packetbuf \<Rightarrow> anti_replay_info \<Rightarrow> int \<times> anti_replay_info" where
  "anti_replay_was_replayed pb info =
     (let received_counter = anti_replay_get_counter pb
      in if packetbuf_holds_broadcast pb then
           if received_counter \<le> last_broadcast_counter info then (1, info)
           else (0, info\<lparr>last_broadcast_counter := received_counter\<rparr>)
         else
           if received_counter \<le> last_unicast_counter info then (1, info)
           else (0, info\<lparr>last_unicast_counter := received_counter\<rparr>))"

section \<open>Encryption of the packet buffer\<close>

definition ccm_star_packetbuf_set_nonce :: "linkaddr \<Rightarrow> bool \<Rightarrow> packetbuf \<Rightarrow> u8 list" where
  "ccm_star_packetbuf_set_nonce node_addr forward pb =
     linkaddr_bytes (if forward then node_addr else packetbuf_addr pb ADDR_SENDER)
     @ [ucast (drop_bit 8 (packetbuf_attr pb ATTR_FRAME_COUNTER_BYTES_2_3)),
        ucast (packetbuf_attr pb ATTR_FRAME_COUNTER_BYTES_2_3 AND 0xff),
        ucast (drop_bit 8 (packetbuf_attr pb ATTR_FRAME_COUNTER_BYTES_0_1)),
        ucast (packetbuf_attr pb ATTR_FRAME_COUNTER_BYTES_0_1 AND 0xff),
        ucast (packetbuf_attr pb ATTR_SECURITY_LEVEL)]"

definition csma_security_set_key :: "nat \<Rightarrow> u8 list option \<Rightarrow> llsec_state \<Rightarrow> int \<times> llsec_state" where
  "csma_security_set_key index key s =
     (case key of
        Some k \<Rightarrow> if index < length (keys s) then (1, s\<lparr>keys := (keys s)[index := take 16 k]\<rparr>) else (0, s)
      | None \<Rightarrow> (0, s))"

definition MIC_LEN :: "u16 \<Rightarrow> nat" where
  "MIC_LEN level = 2 * 2 ^ unat (level AND 3)"

definition LLSEC_KEY_INDEX :: "llsec \<Rightarrow> packetbuf \<Rightarrow> u16" where
  "LLSEC_KEY_INDEX ll pb =
     (if uses_explicit_keys ll then
        if packetbuf_attr pb ATTR_KEY_ID_MODE = 0 then 0 else packetbuf_attr pb ATTR_KEY_INDEX
      else 0)"

definition LLSEC_KEY_MODE :: "llsec \<Rightarrow> packetbuf \<Rightarrow> u16" where
  "LLSEC_KEY_MODE ll pb = (if uses_explicit_keys ll then packetbuf_attr pb ATTR_KEY_ID_MODE else 0)"

text \<open>The result is what the call returns, the packet buffer and the state.\<close>

definition aead :: "llsec \<Rightarrow> linkaddr \<Rightarrow> u8 list \<Rightarrow> nat \<Rightarrow> bool \<Rightarrow> packetbuf \<Rightarrow> llsec_state \<Rightarrow> int \<times> packetbuf \<times> llsec_state" where
  "aead ll node_addr junk hdr forward pb s =
     (let key_index = unat (ucast (LLSEC_KEY_INDEX ll pb) :: u8);
          level = packetbuf_attr pb ATTR_SECURITY_LEVEL;
          miclen = MIC_LEN (level AND 7)
      in if key_index \<ge> length (keys s) then (0, pb, s)
         else
           let nonce = ccm_star_packetbuf_set_nonce node_addr forward pb;
               totlen = packetbuf_totlen pb mod 256;
               with_encryption = (level AND 4 \<noteq> 0);
               a_len = (if with_encryption then hdr mod 256 else totlen);
               m_len = (if with_encryption then (totlen + 256 - hdr mod 256) mod 256 else 0);
               s = s\<lparr>round_keys := aes_set_key (keys s ! key_index) (round_keys s)\<rparr>;
               (m, result) = ccm_aead (aes_encrypt (round_keys s)) nonce (sub (pbuf pb) a_len m_len) m_len
                 (take a_len (pbuf pb)) a_len (if forward then sub (pbuf pb) totlen miclen else junk) miclen forward;
               pb = pb\<lparr>pbuf := blit (pbuf pb) a_len m\<rparr>
           in if forward then
                (1, packetbuf_set_datalen (packetbuf_datalen pb + miclen)
                      (pb\<lparr>pbuf := take PACKETBUF_SIZE (blit (pbuf pb) totlen result)\<rparr>),
                 s\<lparr>sec_overrun := (sec_overrun s \<or> MIC_LEN_VALID miclen \<and> PACKETBUF_SIZE < totlen + miclen)\<rparr>)
              else (of_bool (take miclen result = sub (pbuf pb) totlen miclen), pb, s))"

definition csma_security_create_frame :: "llsec \<Rightarrow> linkaddr \<Rightarrow> u16 \<Rightarrow> u8 list \<Rightarrow> packetbuf \<Rightarrow> llsec_state \<Rightarrow>
    int \<times> packetbuf \<times> llsec_state" where
  "csma_security_create_frame ll node_addr pan_id junk pb s =
     (let pb = packetbuf_set_attr ATTR_FRAME_TYPE 1 pb
      in if uses_aux_header ll \<and> uses_frame_counter ll then
           let (s, pb) = (if packetbuf_attr pb ATTR_SECURITY_LEVEL > 0 \<and> LLSEC_KEY_INDEX ll pb \<noteq> 0xffff
                          then anti_replay_set_counter s pb else (s, pb));
               (hdr_len, pb) = framer_create ll pan_id pb
           in if hdr_len < 0 then (hdr_len, pb, s)
              else if packetbuf_attr pb ATTR_SECURITY_LEVEL > 0 then
                let (ok, pb, s) = aead ll node_addr junk (nat hdr_len) True pb s
                in if ok = 0 then (- 1, pb, s) else (hdr_len, pb, s)
              else (hdr_len, pb, s)
         else let (hdr_len, pb) = framer_create ll pan_id pb in (hdr_len, pb, s))"

definition csma_security_frame_len :: "llsec \<Rightarrow> u16 \<Rightarrow> packetbuf \<Rightarrow> int" where
  "csma_security_frame_len ll pan_id pb =
     (if packetbuf_attr pb ATTR_SECURITY_LEVEL > 0 \<and> LLSEC_KEY_INDEX ll pb \<noteq> 0xffff
      then framer_hdr_length ll pan_id pb + int (MIC_LEN (packetbuf_attr pb ATTR_SECURITY_LEVEL AND 7))
      else framer_hdr_length ll pan_id pb)"

text \<open>\<open>level\<close> and \<open>key_mode\<close> are what the build asks of secured frames.\<close>

definition csma_security_parse_frame :: "llsec \<Rightarrow> linkaddr \<Rightarrow> u16 \<Rightarrow> u16 \<Rightarrow> u16 \<Rightarrow> u8 list \<Rightarrow> frame802154 \<Rightarrow> packetbuf \<Rightarrow> llsec_state \<Rightarrow>
    int \<times> packetbuf \<times> llsec_state" where
  "csma_security_parse_frame ll node_addr pan_id level key_mode junk f0 pb s =
     (let (hdr_len, pb) = framer_parse ll pan_id f0 pb
      in if uses_aux_header ll \<and> uses_frame_counter ll then
           let miclen = MIC_LEN (packetbuf_attr pb ATTR_SECURITY_LEVEL AND 7)
           in if hdr_len < 0 then (hdr_len, pb, s)
              else if packetbuf_attr pb ATTR_SECURITY_LEVEL = 0 then (hdr_len, pb, s)
              else if packetbuf_attr pb ATTR_SECURITY_LEVEL \<noteq> level then (- 1, pb, s)
              else if LLSEC_KEY_MODE ll pb \<noteq> key_mode then (- 1, pb, s)
              else if linkaddr_cmp (packetbuf_addr pb ADDR_SENDER) node_addr then (- 1, pb, s)
              else if packetbuf_datalen pb \<le> miclen then (- 1, pb, s)
              else
                let pb = packetbuf_set_datalen (packetbuf_datalen pb - miclen) pb;
                    (ok, pb, s) = aead ll node_addr junk (nat hdr_len) False pb s
                in if ok = 0 then (- 1, pb, s) else (hdr_len, pb, s)
         else (hdr_len, pb, s))"

section \<open>What encryption does to a frame\<close>

definition llsec_ok :: "llsec_state \<Rightarrow> bool" where
  "llsec_ok s \<longleftrightarrow> length (round_keys s) = 11 \<and> (\<forall>r < 11. length (round_keys s ! r) = 16) \<and> (\<forall>k \<in> set (keys s). length k = 16)"

text \<open>The cipher, the header that is only authenticated and the part that is encrypted too.\<close>

definition cipher_of :: "llsec \<Rightarrow> packetbuf \<Rightarrow> llsec_state \<Rightarrow> u8 list \<Rightarrow> u8 list" where
  "cipher_of ll pb s = aes_encrypt (map (fips_round_key (keys s ! unat (ucast (LLSEC_KEY_INDEX ll pb) :: u8))) [0..<11])"

definition encrypts :: "packetbuf \<Rightarrow> bool" where
  "encrypts pb \<longleftrightarrow> packetbuf_attr pb ATTR_SECURITY_LEVEL AND 4 \<noteq> 0"

definition clear_part :: "packetbuf \<Rightarrow> nat \<Rightarrow> u8 list \<Rightarrow> u8 list" where
  "clear_part pb hdr frame = (if encrypts pb then take hdr frame else frame)"

definition secret_part :: "packetbuf \<Rightarrow> nat \<Rightarrow> u8 list \<Rightarrow> u8 list" where
  "secret_part pb hdr frame = (if encrypts pb then drop hdr frame else [])"

definition mic_len :: "packetbuf \<Rightarrow> nat" where
  "mic_len pb = MIC_LEN (packetbuf_attr pb ATTR_SECURITY_LEVEL AND 7)"

lemma parts: "clear_part pb hdr frame @ secret_part pb hdr frame = frame"
  by (simp add: clear_part_def secret_part_def)

lemma aes_set_key_list:
  assumes "length key = 16" "length rks = 11" "\<forall>r < 11. length (rks ! r) = 16"
  shows "aes_set_key key rks = map (fips_round_key key) [0..<11]"
proof (rule nth_equalityI)
  show "length (aes_set_key key rks) = length (map (fips_round_key key) [0..<11])"
    using aes_set_key_eq(2) [OF assms, of 0] by simp
  show "aes_set_key key rks ! r = map (fips_round_key key) [0..<11] ! r" if "r < length (aes_set_key key rks)" for r
    using that aes_set_key_eq(2) [OF assms, of 0] aes_set_key_eq(1) [OF assms, of r] by simp
qed

lemma length_nonce [simp]: "length (ccm_star_packetbuf_set_nonce na fwd pb) = 13"
  by (simp add: ccm_star_packetbuf_set_nonce_def LINKADDR_SIZE_def)

lemma mic_len_le: "mic_len pb \<le> 16"
proof -
  have "unat (x AND 3 :: u16) \<le> 3" for x :: u16
    using and_mask_less' [of 2 x] by (simp add: mask_eq_exp_minus_1 word_less_nat_alt)
  then have "(2 :: nat) ^ unat (x AND 3 :: u16) \<le> 2 ^ 3" for x :: u16 by (intro power_increasing) auto
  then show ?thesis by (simp add: mic_len_def MIC_LEN_def)
qed

text \<open>What the call reads of the packet buffer.\<close>

lemma aead_parts:
  assumes "pb_wf pb" "hdr \<le> packetbuf_totlen pb"
  defines "f \<equiv> pb_frame pb" and "t \<equiv> packetbuf_totlen pb"
  defines "a \<equiv> clear_part pb hdr f" and "m \<equiv> secret_part pb hdr f"
  shows "t mod 256 = t" "(if encrypts pb then hdr mod 256 else t) = length a"
    "(if encrypts pb then (t + 256 - hdr mod 256) mod 256 else 0) = length m"
    "take (length a) (pbuf pb) = a" "sub (pbuf pb) (length a) (length m) = m" "length a + length m = t"
    "pbuf pb = a @ m @ drop t (pbuf pb)" "length f = t"
proof -
  have t: "t \<le> 128" "length f = t" "length (pbuf pb) = 128" "f = take t (pbuf pb)"
    using pb_wf_lengths [OF assms(1)] assms(1)
    by (auto simp: pb_wf_def PACKETBUF_SIZE_def f_def t_def pb_frame_def packetbuf_hdrptr_def)
  have minus: "(packetbuf_totlen pb + 256 - hdr) mod 256 = packetbuf_totlen pb - hdr"
    using t(1) assms(2) mod_add_self2 [of "packetbuf_totlen pb - hdr" 256] by (simp add: t_def)
  have am: "a @ m = f" by (simp add: a_def m_def parts)
  show "t mod 256 = t" "length f = t" using t by simp_all
  show buf: "pbuf pb = a @ m @ drop t (pbuf pb)" using am t(4) by (metis append.assoc append_take_drop_id)
  show "take (length a) (pbuf pb) = a" by (subst buf) simp
  show "sub (pbuf pb) (length a) (length m) = m" by (subst buf) (simp add: sub_def)
  show "length a + length m = t" using am t(2) by (metis length_append)
  show "(if encrypts pb then hdr mod 256 else t) = length a" "(if encrypts pb then (t + 256 - hdr mod 256) mod 256 else 0) = length m"
    using t assms(2) by (auto simp: a_def m_def clear_part_def secret_part_def t_def minus)
qed

definition keyed :: "llsec \<Rightarrow> packetbuf \<Rightarrow> llsec_state \<Rightarrow> llsec_state" where
  "keyed ll pb s = s\<lparr>round_keys := map (fips_round_key (keys s ! unat (ucast (LLSEC_KEY_INDEX ll pb) :: u8))) [0..<11]\<rparr>"

lemma aead_setup:
  fixes na :: linkaddr and junk :: "u8 list" and fwd :: bool
  assumes "pb_wf pb" "llsec_ok s" "unat (ucast (LLSEC_KEY_INDEX ll pb) :: u8) < length (keys s)" "hdr \<le> packetbuf_totlen pb"
  defines "a \<equiv> clear_part pb hdr (pb_frame pb)" and "m \<equiv> secret_part pb hdr (pb_frame pb)"
  defines "c \<equiv> ccm_aead (cipher_of ll pb s) (ccm_star_packetbuf_set_nonce na fwd pb) m (length m) a (length a)
             (if fwd then sub (pbuf pb) (packetbuf_totlen pb) (mic_len pb) else junk) (mic_len pb) fwd"
  defines "pb1 \<equiv> pb\<lparr>pbuf := blit (pbuf pb) (length a) (fst c)\<rparr>"
  shows "aead ll na junk hdr fwd pb s =
     (if fwd then
        (1, packetbuf_set_datalen (packetbuf_datalen pb + mic_len pb)
              (pb1\<lparr>pbuf := take PACKETBUF_SIZE (blit (pbuf pb1) (packetbuf_totlen pb) (snd c))\<rparr>),
         (keyed ll pb s)\<lparr>sec_overrun := (sec_overrun s \<or> MIC_LEN_VALID (mic_len pb) \<and> PACKETBUF_SIZE < packetbuf_totlen pb + mic_len pb)\<rparr>)
      else (of_bool (take (mic_len pb) (snd c) = sub (pbuf pb1) (packetbuf_totlen pb) (mic_len pb)), pb1, keyed ll pb s))"
proof -
  let ?k = "keys s ! unat (ucast (LLSEC_KEY_INDEX ll pb) :: u8)"
  have k: "aes_set_key ?k (round_keys s) = map (fips_round_key ?k) [0..<11]"
    using assms(2,3) by (intro aes_set_key_list) (auto simp: llsec_ok_def)
  note p = aead_parts [OF assms(1,4), folded a_def m_def]
  show ?thesis
    unfolding aead_def Let_def k p(1) encrypts_def [symmetric] p(2,3) p(4,5)
    using assms(3)
    by (simp add: mic_len_def [symmetric] cipher_of_def [symmetric] keyed_def case_prod_beta pb1_def c_def packetbuf_datalen_def)
qed

text \<open>Encrypting leaves the header, the encrypted message and the MIC in the frame.\<close>

lemma aead_sends:
  fixes na :: linkaddr
  assumes "pb_wf pb" "llsec_ok s" "unat (ucast (LLSEC_KEY_INDEX ll pb) :: u8) < length (keys s)" "hdr \<le> packetbuf_totlen pb"
    and "MIC_LEN_VALID (mic_len pb)" "packetbuf_totlen pb + mic_len pb \<le> PACKETBUF_SIZE"
    and "aead ll na junk hdr True pb s = (r, pb', s')"
  defines "a \<equiv> clear_part pb hdr (pb_frame pb)" and "m \<equiv> secret_part pb hdr (pb_frame pb)"
    and "nonce \<equiv> ccm_star_packetbuf_set_nonce na True pb"
  shows "r = 1"
    "pb_frame pb' = a @ rfc_encrypt (cipher_of ll pb s) nonce m @ rfc_mic (cipher_of ll pb s) nonce m a (mic_len pb)"
    "pb_wf pb'" "pb_attrs pb' = pb_attrs pb" "pb_addrs pb' = pb_addrs pb" "bufptr pb' = bufptr pb" "hdrlen pb' = hdrlen pb"
    "packetbuf_datalen pb' = packetbuf_datalen pb + mic_len pb"
    "s' = keyed ll pb s"
proof -
  let ?enc = "cipher_of ll pb s" and ?t = "packetbuf_totlen pb" and ?n = "mic_len pb"
  define e where "e = rfc_encrypt ?enc nonce m"
  define t where "t = rfc_mic ?enc nonce m a ?n"
  define rest where "rest = drop ?t (pbuf pb)"
  note p = aead_parts [OF assms(1,4), folded a_def m_def rest_def]
  have buf: "length (pbuf pb) = 128" "?t + ?n \<le> 128" using assms(1,6) by (simp_all add: pb_wf_def PACKETBUF_SIZE_def)
  have nonce: "length nonce = 13" by (simp add: nonce_def)
  have enc: "?enc = aes_encrypt (map (fips_round_key (keys s ! unat (ucast (LLSEC_KEY_INDEX ll pb) :: u8))) [0..<11])"
    by (simp add: cipher_of_def)
  have lt: "length t = ?n" unfolding t_def enc by (rule aes.mic_length [OF nonce assms(5)])
  have al: "length a \<le> MAX_A_LEN" using p(6) buf(2) by (simp add: MAX_A_LEN_def)
  have junk: "length (sub (pbuf pb) ?t ?n) = ?n" using buf by simp
  have c: "ccm_aead ?enc nonce m (length m) a (length a) (sub (pbuf pb) ?t ?n) ?n True = (e, t)"
    using aes.aead_forward [OF nonce order_refl al order_refl assms(5), of "sub (pbuf pb) ?t ?n"] junk
    by (simp add: enc e_def t_def)
  have le: "length e = length m" by (simp add: e_def)
  have pb1: "blit (pbuf pb) (length a) e = a @ e @ rest"
    by (subst p(7)) (simp add: blit_def le)
  have pb2: "take PACKETBUF_SIZE (blit (a @ e @ rest) ?t t) = a @ e @ t @ drop ?n rest"
    using p(6) buf lt by (simp add: blit_def le rest_def PACKETBUF_SIZE_def p(6) [symmetric])
  note call = aead_setup [OF assms(1-4), of na junk True, folded a_def m_def nonce_def]
  have out: "r = 1" "pb' = packetbuf_set_datalen (packetbuf_datalen pb + ?n) (pb\<lparr>pbuf := a @ e @ t @ drop ?n rest\<rparr>)"
    "s' = (keyed ll pb s)\<lparr>sec_overrun := sec_overrun s\<rparr>"
    using assms(5-7) call by (simp_all add: c pb1 pb2)
  have tot: "?t = bufptr pb + hdrlen pb + buflen pb" by (rule pb_wf_lengths(2) [OF assms(1)])
  show "r = 1" by (rule out(1))
  show "s' = keyed ll pb s" using out(3) by (simp add: keyed_def)
  show f: "pb_attrs pb' = pb_attrs pb" "pb_addrs pb' = pb_addrs pb" "bufptr pb' = bufptr pb" "hdrlen pb' = hdrlen pb"
    "packetbuf_datalen pb' = packetbuf_datalen pb + ?n"
    using buf(2) tot by (simp_all add: out(2) packetbuf_set_datalen_def packetbuf_datalen_def)
  have l: "length (pbuf pb') = 128"
    using buf p(6) by (simp add: out(2) packetbuf_set_datalen_def le lt rest_def)
  show wf: "pb_wf pb'"
    using buf(2) tot f l by (simp add: pb_wf_def PACKETBUF_SIZE_def packetbuf_datalen_def)
  have tot': "packetbuf_totlen pb' = length a + length m + ?n"
    using pb_wf_lengths(2) [OF wf] tot f p(6) by (simp add: packetbuf_datalen_def)
  have "pbuf pb' = (a @ e @ t) @ drop ?n rest" by (simp add: out(2) packetbuf_set_datalen_def)
  then have "pb_frame pb' = a @ e @ t" using tot' le lt by (simp add: pb_frame_def packetbuf_hdrptr_def)
  then show "pb_frame pb' = a @ rfc_encrypt ?enc nonce m @ rfc_mic ?enc nonce m a ?n" by (simp add: e_def t_def)
qed

text \<open>
  Decrypting: \<open>tag\<close> is what follows the frame in the buffer, where the received MIC is; the
  call accepts it just when it is the MIC of the decrypted frame.
\<close>

lemma aead_receives:
  fixes na :: linkaddr
  assumes "pb_wf pb" "llsec_ok s" "unat (ucast (LLSEC_KEY_INDEX ll pb) :: u8) < length (keys s)" "hdr \<le> packetbuf_totlen pb"
    and "MIC_LEN_VALID (mic_len pb)" "mic_len pb \<le> length junk"
    and "aead ll na junk hdr False pb s = (r, pb', s')"
  defines "a \<equiv> clear_part pb hdr (pb_frame pb)" and "m \<equiv> secret_part pb hdr (pb_frame pb)"
    and "nonce \<equiv> ccm_star_packetbuf_set_nonce na False pb" and "tag \<equiv> sub (pbuf pb) (packetbuf_totlen pb) (mic_len pb)"
  shows "r = of_bool (rfc_mic (cipher_of ll pb s) nonce (rfc_encrypt (cipher_of ll pb s) nonce m) a (mic_len pb) = tag)"
    "pb_frame pb' = a @ rfc_encrypt (cipher_of ll pb s) nonce m"
    "pb_wf pb'" "pb_attrs pb' = pb_attrs pb" "pb_addrs pb' = pb_addrs pb" "bufptr pb' = bufptr pb" "hdrlen pb' = hdrlen pb"
    "packetbuf_datalen pb' = packetbuf_datalen pb"
    "s' = keyed ll pb s"
proof -
  let ?enc = "cipher_of ll pb s" and ?t = "packetbuf_totlen pb" and ?n = "mic_len pb"
  define e where "e = rfc_encrypt ?enc nonce m"
  define t where "t = rfc_mic ?enc nonce e a ?n"
  define rest where "rest = drop ?t (pbuf pb)"
  note p = aead_parts [OF assms(1,4), folded a_def m_def rest_def]
  have nonce: "length nonce = 13" by (simp add: nonce_def)
  have enc: "?enc = aes_encrypt (map (fips_round_key (keys s ! unat (ucast (LLSEC_KEY_INDEX ll pb) :: u8))) [0..<11])"
    by (simp add: cipher_of_def)
  have lt: "length t = ?n" unfolding t_def enc by (rule aes.mic_length [OF nonce assms(5)])
  have al: "length a \<le> MAX_A_LEN"
    using p(6,8) pb_wf_lengths [OF assms(1)] assms(1) by (simp add: MAX_A_LEN_def pb_wf_def PACKETBUF_SIZE_def)
  have c: "ccm_aead ?enc nonce m (length m) a (length a) junk ?n False = (e, t @ drop ?n junk)"
    using aes.aead_backward [OF nonce order_refl al order_refl assms(5,6)] by (simp add: enc e_def t_def)
  have le: "length e = length m" by (simp add: e_def)
  have pb1: "blit (pbuf pb) (length a) e = a @ e @ rest"
    by (subst p(7)) (simp add: blit_def le)
  have tag: "sub (a @ e @ rest) ?t ?n = tag"
    by (simp add: tag_def sub_def rest_def le p(6) [symmetric])
  note call = aead_setup [OF assms(1-4), of na junk False, folded a_def m_def nonce_def]
  have out: "r = of_bool (t = tag)" "pb' = pb\<lparr>pbuf := a @ e @ rest\<rparr>" "s' = keyed ll pb s"
    using assms(7) call by (simp_all add: c pb1 tag lt)
  show "r = of_bool (rfc_mic ?enc nonce (rfc_encrypt ?enc nonce m) a ?n = tag)" using out(1) by (simp add: t_def e_def)
  show "s' = keyed ll pb s" by (rule out(3))
  show f: "pb_attrs pb' = pb_attrs pb" "pb_addrs pb' = pb_addrs pb" "bufptr pb' = bufptr pb" "hdrlen pb' = hdrlen pb"
    "packetbuf_datalen pb' = packetbuf_datalen pb"
    by (simp_all add: out(2) packetbuf_datalen_def)
  have "length (pbuf pb') = length (pbuf pb)" by (subst p(7)) (simp add: out(2) le)
  then show wf: "pb_wf pb'" using assms(1) f by (simp add: pb_wf_def packetbuf_datalen_def)
  have "packetbuf_totlen pb' = length a + length m"
    using pb_wf_lengths(2) [OF wf] pb_wf_lengths(2) [OF assms(1)] f p(6) by (simp add: packetbuf_datalen_def)
  then have "pb_frame pb' = a @ e" using le by (simp add: pb_frame_def packetbuf_hdrptr_def) (simp add: out(2))
  then show "pb_frame pb' = a @ rfc_encrypt ?enc nonce m" by (simp add: e_def)
qed

section \<open>Secured frames over the air\<close>

lemma set_counter_attrs:
  assumes "anti_replay_set_counter s pb = (s', pb')"
  shows "s' = s\<lparr>counter := counter s + 1\<rparr>" "anti_replay_get_counter pb' = counter s'"
    "pb_wf pb' = pb_wf pb" "pb_frame pb' = pb_frame pb" "packetbuf_addr pb' = packetbuf_addr pb"
    "packetbuf_totlen pb' = packetbuf_totlen pb" "bufptr pb' = bufptr pb" "hdrlen pb' = hdrlen pb"
    "packetbuf_holds_broadcast pb' = packetbuf_holds_broadcast pb"
    "t \<noteq> ATTR_FRAME_COUNTER_BYTES_0_1 \<Longrightarrow> t \<noteq> ATTR_FRAME_COUNTER_BYTES_2_3 \<Longrightarrow> packetbuf_attr pb' t = packetbuf_attr pb t"
proof -
  have split: "ucast (ucast c :: u16) OR push_bit 16 (ucast (ucast (drop_bit 16 c) :: u16)) = c" for c :: u32
    by (rule bit_word_eqI) (auto simp: bit_or_iff bit_push_bit_iff bit_ucast_iff bit_drop_bit_eq)
  show "s' = s\<lparr>counter := counter s + 1\<rparr>" "anti_replay_get_counter pb' = counter s'"
    using assms split by (auto simp: anti_replay_set_counter_def anti_replay_get_counter_def Let_def)
  show "pb_wf pb' = pb_wf pb" "pb_frame pb' = pb_frame pb" "packetbuf_addr pb' = packetbuf_addr pb"
    "packetbuf_totlen pb' = packetbuf_totlen pb" "bufptr pb' = bufptr pb" "hdrlen pb' = hdrlen pb"
    "packetbuf_holds_broadcast pb' = packetbuf_holds_broadcast pb"
    "t \<noteq> ATTR_FRAME_COUNTER_BYTES_0_1 \<Longrightarrow> t \<noteq> ATTR_FRAME_COUNTER_BYTES_2_3 \<Longrightarrow> packetbuf_attr pb' t = packetbuf_attr pb t"
    using assms by (auto simp: anti_replay_set_counter_def Let_def fun_eq_iff packetbuf_holds_broadcast_def
        packetbuf_set_attr_def packetbuf_attr_def packetbuf_addr_def pb_wf_def pb_frame_def pb_lengths)
qed

lemma narrow_widen: "(ucast (ucast (x :: u8) :: u16) :: u8) = x"
  by (rule bit_word_eqI) (simp add: bit_ucast_iff)

lemma parts_of:
  "clear_part pb (length H) (H @ p) = (if encrypts pb then H else H @ p)"
  "secret_part pb (length H) (H @ p) = (if encrypts pb then p else [])"
  by (simp_all add: clear_part_def secret_part_def)

text \<open>The same attributes give the same lengths and keys.\<close>

lemma same_attrs:
  assumes "packetbuf_attr p ATTR_SECURITY_LEVEL = packetbuf_attr q ATTR_SECURITY_LEVEL"
    and "uses_explicit_keys ll \<Longrightarrow> packetbuf_attr p ATTR_KEY_ID_MODE = packetbuf_attr q ATTR_KEY_ID_MODE"
    and "uses_explicit_keys ll \<Longrightarrow> packetbuf_attr q ATTR_KEY_ID_MODE \<noteq> 0 \<Longrightarrow>
      (ucast (packetbuf_attr p ATTR_KEY_INDEX) :: u8) = ucast (packetbuf_attr q ATTR_KEY_INDEX)"
  shows "mic_len p = mic_len q" "encrypts p = encrypts q" "LLSEC_KEY_MODE ll p = LLSEC_KEY_MODE ll q"
    "(ucast (LLSEC_KEY_INDEX ll p) :: u8) = ucast (LLSEC_KEY_INDEX ll q)"
    "clear_part p = clear_part q" "secret_part p = secret_part q"
  using assms by (auto simp: mic_len_def encrypts_def LLSEC_KEY_MODE_def LLSEC_KEY_INDEX_def clear_part_def secret_part_def fun_eq_iff)

text \<open>A packet that can be sent with security; \<open>secured_ok\<close> adds a level with a MIC.\<close>

definition framed_ok :: "llsec \<Rightarrow> packetbuf \<Rightarrow> llsec_state \<Rightarrow> bool" where
  "framed_ok ll pb s \<longleftrightarrow> uses_aux_header ll \<and> uses_frame_counter ll \<and> pb_wf pb \<and> llsec_ok s \<and>
     packetbuf_attr pb ATTR_SECURITY_LEVEL \<noteq> 0 \<and> LLSEC_KEY_INDEX ll pb \<noteq> 0xffff \<and>
     unat (ucast (LLSEC_KEY_INDEX ll pb) :: u8) < length (keys s) \<and> attrs_ok ll (packetbuf_set_attr ATTR_FRAME_TYPE 1 pb)"

definition secured_ok :: "llsec \<Rightarrow> packetbuf \<Rightarrow> llsec_state \<Rightarrow> bool" where
  "secured_ok ll pb s \<longleftrightarrow> framed_ok ll pb s \<and> MIC_LEN_VALID (mic_len pb)"

text \<open>Creating a frame numbers the packet, adds the header and calls the cipher.\<close>

lemma create_calls_aead:
  assumes "framed_ok ll pb s" "csma_security_create_frame ll na pan_id junk pb s = (r, tx, s')" "0 \<le> r"
    and "anti_replay_set_counter s (packetbuf_set_attr ATTR_FRAME_TYPE 1 pb) = (s1, pb1)"
    and "H = header_bytes ll (compress_panid (frame_params ll pan_id pb1))"
  obtains q b where "r = int (length H)" "pan_id \<noteq> 0xffff" "attrs_ok ll pb1" "pb_wf q" "pb_frame q = H @ pb_frame pb"
    "packetbuf_attr q = packetbuf_attr pb1" "packetbuf_addr q = packetbuf_addr pb1"
    "packetbuf_totlen q = length H + packetbuf_totlen pb" "LLSEC_KEY_INDEX ll q = LLSEC_KEY_INDEX ll pb"
    "mic_len q = mic_len pb" "encrypts q = encrypts pb" "aead ll na junk (length H) True q s1 = (b, tx, s')"
proof -
  note ok = assms(1) [unfolded framed_ok_def]
  note c = set_counter_attrs [OF assms(4)]
  have sel: "packetbuf_attr pb1 t = packetbuf_attr pb t" if "t \<in> {ATTR_SECURITY_LEVEL, ATTR_KEY_ID_MODE, ATTR_KEY_INDEX}" for t
    using that c(10) [of t] by auto
  have pb1: "pb_wf pb1" "pb_frame pb1 = pb_frame pb" "attrs_ok ll pb1" "packetbuf_totlen pb1 = packetbuf_totlen pb"
    using ok c by (simp_all add: attrs_ok_def)
  obtain h q where hq: "framer_create ll pan_id pb1 = (h, q)" by fastforce
  have level: "0 < packetbuf_attr pb1 ATTR_SECURITY_LEVEL" using ok by (simp add: sel word_gt_0)
  obtain b tx0 s2 where a: "aead ll na junk (nat h) True q s1 = (b, tx0, s2)" by (metis prod_cases3)
  have fc: "LLSEC_KEY_INDEX ll (packetbuf_set_attr ATTR_FRAME_TYPE 1 pb) = LLSEC_KEY_INDEX ll pb"
    by (simp add: LLSEC_KEY_INDEX_def)
  have h: "0 \<le> h"
    using assms(2-4) ok level by (auto simp: csma_security_create_frame_def hq word_gt_0 fc split: if_splits)
  note f = framer_create_frame_bytes [OF pb1(1,3) hq h, folded assms(5)]
  have q: "packetbuf_attr q = packetbuf_attr pb1" "packetbuf_addr q = packetbuf_addr pb1"
    using f(6,7) by (simp_all add: packetbuf_attr_def packetbuf_addr_def fun_eq_iff)
  have out: "r = h \<and> tx = tx0 \<and> s' = s2"
    using assms(2-4) ok level h a by (auto simp: csma_security_create_frame_def hq word_gt_0 fc q split: if_splits)
  show thesis
  proof (rule that)
    show "aead ll na junk (length H) True q s1 = (b, tx, s')" using a out f(1) by simp
    show "LLSEC_KEY_INDEX ll q = LLSEC_KEY_INDEX ll pb" "mic_len q = mic_len pb" "encrypts q = encrypts pb"
      by (simp_all add: LLSEC_KEY_INDEX_def mic_len_def encrypts_def q sel)
  qed (use f pb1 q out in simp_all)
qed

lemma create_secured:
  assumes "secured_ok ll pb s" "csma_security_create_frame ll na pan_id junk pb s = (r, tx, s')" "0 \<le> r" "\<not> sec_overrun s'"
    and "anti_replay_set_counter s (packetbuf_set_attr ATTR_FRAME_TYPE 1 pb) = (s1, pb1)"
    and "p = pb_frame pb" "H = header_bytes ll (compress_panid (frame_params ll pan_id pb1))"
    and "enc = cipher_of ll pb s" "nonce = ccm_star_packetbuf_set_nonce na True pb1"
  shows "r = int (length H)" "pan_id \<noteq> 0xffff"
    "pb_frame tx = H @ (if encrypts pb then rfc_encrypt enc nonce p else p)
       @ rfc_mic enc nonce (if encrypts pb then p else []) (if encrypts pb then H else H @ p) (mic_len pb)"
    "s' = keyed ll pb (s\<lparr>counter := counter s + 1\<rparr>)" "attrs_ok ll pb1" "pb_wf tx"
proof -
  have ok: "framed_ok ll pb s" "MIC_LEN_VALID (mic_len pb)" using assms(1) by (simp_all add: secured_ok_def)
  obtain q b where fr: "r = int (length H)" "pan_id \<noteq> 0xffff" "attrs_ok ll pb1" "pb_wf q" "pb_frame q = H @ pb_frame pb"
    "packetbuf_attr q = packetbuf_attr pb1" "packetbuf_addr q = packetbuf_addr pb1"
    "packetbuf_totlen q = length H + packetbuf_totlen pb" "LLSEC_KEY_INDEX ll q = LLSEC_KEY_INDEX ll pb"
    "mic_len q = mic_len pb" "encrypts q = encrypts pb" "aead ll na junk (length H) True q s1 = (b, tx, s')"
    by (rule create_calls_aead [OF ok(1) assms(2,3,5,7)])
  have s1: "llsec_ok s1" "keys s1 = keys s" "s1 = s\<lparr>counter := counter s + 1\<rparr>"
    using ok(1) set_counter_attrs(1) [OF assms(5)] by (simp_all add: framed_ok_def llsec_ok_def)
  have eqs: "ccm_star_packetbuf_set_nonce na True q = nonce" "cipher_of ll q s1 = enc" "keyed ll q = keyed ll pb"
    by (simp_all add: ccm_star_packetbuf_set_nonce_def fr assms(8,9) cipher_of_def s1(2) keyed_def fun_eq_iff)
  have idx: "unat (ucast (LLSEC_KEY_INDEX ll q) :: u8) < length (keys s1)" using ok(1) by (simp add: framed_ok_def fr(9) s1)
  have hdr: "length H \<le> packetbuf_totlen q" by (simp add: fr(8))
  have mic: "MIC_LEN_VALID (mic_len q)" using ok(2) by (simp add: fr(10))
  have room: "packetbuf_totlen q + mic_len q \<le> PACKETBUF_SIZE"
    using aead_setup [OF fr(4) s1(1) idx hdr, of na junk True] fr(12) assms(4) mic by (auto simp: not_less)
  note sent = aead_sends [OF fr(4) s1(1) idx hdr mic room fr(12)]
  show "r = int (length H)" "pan_id \<noteq> 0xffff" "attrs_ok ll pb1" by (fact fr(1-3))+
  show "pb_wf tx" by (rule sent(3))
  show "s' = keyed ll pb (s\<lparr>counter := counter s + 1\<rparr>)" using sent(9) s1(3) by (simp add: eqs)
  show "pb_frame tx = H @ (if encrypts pb then rfc_encrypt enc nonce p else p)
       @ rfc_mic enc nonce (if encrypts pb then p else []) (if encrypts pb then H else H @ p) (mic_len pb)"
    using sent(2) by (simp add: eqs fr(5,10,11) parts_of assms(6)) (simp add: rfc_encrypt_def)
qed

text \<open>A packet of at most 74 bytes can always be framed and encrypted.\<close>

lemma secured_fits:
  assumes "framed_ok ll pb s" "pan_id \<noteq> 0xffff" "packetbuf_totlen pb \<le> 74" "\<not> sec_overrun s"
    and "csma_security_create_frame ll na pan_id junk pb s = (r, tx, s')"
  shows "0 \<le> r" "\<not> sec_overrun s'"
proof -
  note fok = assms(1) [unfolded framed_ok_def]
  obtain s1 pb1 where set1: "anti_replay_set_counter s (packetbuf_set_attr ATTR_FRAME_TYPE 1 pb) = (s1, pb1)" by fastforce
  note c = set_counter_attrs [OF set1]
  define H where "H = header_bytes ll (compress_panid (frame_params ll pan_id pb1))"
  have sel: "packetbuf_attr pb1 t = packetbuf_attr pb t" if "t \<in> {ATTR_SECURITY_LEVEL, ATTR_KEY_ID_MODE, ATTR_KEY_INDEX}" for t
    using that c(10) [of t] by auto
  have pb1: "pb_wf pb1" "attrs_ok ll pb1" "packetbuf_totlen pb1 = packetbuf_totlen pb"
    using fok c by (simp_all add: attrs_ok_def)
  obtain h q where hq: "framer_create ll pan_id pb1 = (h, q)" by fastforce
  have h: "0 \<le> h" using framer_create_fits [OF pb1(1) assms(2), of ll] assms(3) pb1(3) by (simp add: hq)
  note f = framer_create_frame_bytes [OF pb1(1,2) hq h, folded H_def]
  have q: "packetbuf_attr q = packetbuf_attr pb1" using f(6) by (simp add: packetbuf_attr_def fun_eq_iff)
  have s1: "llsec_ok s1" "keys s1 = keys s" "\<not> sec_overrun s1" using fok assms(4) by (simp_all add: c(1) llsec_ok_def)
  have k: "LLSEC_KEY_INDEX ll q = LLSEC_KEY_INDEX ll pb" "mic_len q = mic_len pb"
    by (simp_all add: LLSEC_KEY_INDEX_def mic_len_def q sel)
  have idx: "unat (ucast (LLSEC_KEY_INDEX ll q) :: u8) < length (keys s1)" using fok by (simp add: k s1)
  have hdr: "nat h \<le> packetbuf_totlen q" using f(1,5) by simp
  have "length H \<le> 38"
    using hdrlen_le [of ll "frame_params ll pan_id pb1"] create_eq(2) [OF frame_params_ok(1) [OF pb1(2), of pan_id] refl] by (simp add: H_def)
  then have room: "packetbuf_totlen q + mic_len q \<le> PACKETBUF_SIZE"
    using mic_len_le [of pb] assms(3) pb1(3) f(5) by (simp add: k PACKETBUF_SIZE_def)
  obtain b tx0 s2 where a: "aead ll na junk (nat h) True q s1 = (b, tx0, s2)" by (metis prod_cases3)
  then have b: "b = 1" "sec_overrun s2 = sec_overrun s1"
    using aead_setup [OF f(4) s1(1) idx hdr, of na junk True] room by auto
  have fc: "LLSEC_KEY_INDEX ll (packetbuf_set_attr ATTR_FRAME_TYPE 1 pb) = LLSEC_KEY_INDEX ll pb"
    by (simp add: LLSEC_KEY_INDEX_def)
  have "0 < packetbuf_attr pb1 ATTR_SECURITY_LEVEL" using fok by (simp add: sel word_gt_0)
  then have "csma_security_create_frame ll na pan_id junk pb s = (h, tx0, s2)"
    using fok h a b(1) set1 by (simp add: csma_security_create_frame_def word_gt_0 fc hq q)
  then show "0 \<le> r" "\<not> sec_overrun s'" using assms(5) h b(2) s1(3) by simp_all
qed

text \<open>
  The receiver has the sender's keys and the frame in its packet buffer; it gives the payload
  back, decrypted, and the sender's and the receiver's addresses.
\<close>

lemma parse_secured:
  assumes "secured_ok ll pb s" "csma_security_create_frame ll na pan_id junk pb s = (r, tx, s')" "0 \<le> r" "\<not> sec_overrun s'"
    and "packetbuf_addr pb ADDR_SENDER = na" "linkaddr_bytes (packetbuf_addr pb ADDR_RECEIVER) \<noteq> replicate 8 0xff" "pb_frame pb \<noteq> []"
    and "pb_wf rx" "bufptr rx = 0" "hdrlen rx = 0" "pb_data rx = pb_frame tx" "packetbuf_addr rx ADDR_RECEIVER = linkaddr_null"
    and "llsec_ok s2" "keys s2 = keys s" "na2 \<noteq> na" "buffers_ok f0" "16 \<le> length junk2"
    and "level = packetbuf_attr pb ATTR_SECURITY_LEVEL" "key_mode = LLSEC_KEY_MODE ll pb"
    and "csma_security_parse_frame ll na2 pan_id level key_mode junk2 f0 rx s2 = (r', rx', s2')"
  shows "r' = r" "pb_data rx' = pb_frame pb" "packetbuf_addr rx' ADDR_SENDER = na"
    "packetbuf_addr rx' ADDR_RECEIVER = packetbuf_addr pb ADDR_RECEIVER" "anti_replay_get_counter rx' = counter s'"
proof -
  note ok = assms(1) [unfolded secured_ok_def framed_ok_def]
  obtain s1 pb1 where set1: "anti_replay_set_counter s (packetbuf_set_attr ATTR_FRAME_TYPE 1 pb) = (s1, pb1)" by fastforce
  note c = set_counter_attrs [OF set1]
  define p where "p = pb_frame pb"
  define H where "H = header_bytes ll (compress_panid (frame_params ll pan_id pb1))"
  define enc where "enc = cipher_of ll pb s"
  define nonce where "nonce = ccm_star_packetbuf_set_nonce na True pb1"
  define n where "n = mic_len pb"
  define sent where "sent = (if encrypts pb then rfc_encrypt enc nonce p else p)"
  define tag where "tag = rfc_mic enc nonce (if encrypts pb then p else []) (if encrypts pb then H else H @ p) n"
  note cr = create_secured [OF assms(1-4) set1 p_def H_def enc_def nonce_def, folded n_def sent_def, folded tag_def]
  have ls: "length sent = length p" by (simp add: sent_def)
  have lt: "length tag = n" using ok unfolding tag_def enc_def cipher_of_def
    by (intro aes.mic_length) (simp_all add: nonce_def n_def)
  obtain h b where hb: "framer_parse ll pan_id f0 rx = (h, b)" by fastforce
  have addr1: "packetbuf_addr pb1 = packetbuf_addr pb" by (simp add: c(5) fun_eq_iff)
  have data: "pb_data rx = H @ (sent @ tag)" using assms(11) cr(3) by simp
  have notff: "linkaddr_bytes (packetbuf_addr pb1 ADDR_RECEIVER) \<noteq> replicate 8 0xff" using assms(6) by (simp add: addr1)
  note pp = framer_parse_body [OF cr(5) H_def assms(8-10) data assms(12) notff assms(16) hb, unfolded addr1]
  have on: "packetbuf_attr pb1 ATTR_SECURITY_LEVEL \<noteq> 0" using ok c(10) [of ATTR_SECURITY_LEVEL] by simp
  obtain b0 where "b = note_frame ll (shown_frame ll (packetbuf_datalen rx) (compress_panid (frame_params ll pan_id pb1)) f0) b0"
    using pp(9) by blast
  note sec = note_frame_security [OF cr(5) _ _ on, where b = b0 and pan_id = pan_id and ?f0.0 = f0 and len = "packetbuf_datalen rx",
      folded this]
  have attrs: "packetbuf_attr b ATTR_SECURITY_LEVEL = packetbuf_attr pb ATTR_SECURITY_LEVEL"
    "uses_explicit_keys ll \<Longrightarrow> packetbuf_attr b ATTR_KEY_ID_MODE = packetbuf_attr pb ATTR_KEY_ID_MODE"
    "uses_explicit_keys ll \<Longrightarrow> packetbuf_attr pb ATTR_KEY_ID_MODE \<noteq> 0 \<Longrightarrow>
      (ucast (packetbuf_attr b ATTR_KEY_INDEX) :: u8) = ucast (packetbuf_attr pb ATTR_KEY_INDEX)"
    using ok sec c(10) by (auto simp: narrow_widen)
  have same: "mic_len b = mic_len pb" "encrypts b = encrypts pb" "LLSEC_KEY_MODE ll b = LLSEC_KEY_MODE ll pb"
    "(ucast (LLSEC_KEY_INDEX ll b) :: u8) = ucast (LLSEC_KEY_INDEX ll pb)"
    "clear_part b = clear_part pb" "secret_part b = secret_part pb"
    by (rule same_attrs [OF attrs]; assumption)+
  define b' where "b' = packetbuf_set_datalen (packetbuf_datalen b - n) b"
  obtain ok' rx0 s3 where a: "aead ll na2 junk2 (nat h) False b' s2 = (ok', rx0, s3)" by (metis prod_cases3)
  have dl: "packetbuf_datalen b = length p + n" using pb_wf_lengths(3) [OF pp(8)] pp(2) ls lt by simp
  have len: "bufptr b = length H" "hdrlen b = 0" "pb_wf b" by (fact pp)+
  have room: "length H + length p + n \<le> 128" using len dl by (simp add: pb_wf_def PACKETBUF_SIZE_def packetbuf_datalen_def)
  have b': "pb_wf b'" "packetbuf_datalen b' = length p" "bufptr b' = length H" "hdrlen b' = 0" "pbuf b' = pbuf b"
    "packetbuf_attr b' = packetbuf_attr b" "packetbuf_addr b' = packetbuf_addr b"
    using len dl room by (simp_all add: b'_def pb_wf_def packetbuf_set_datalen_def packetbuf_datalen_def PACKETBUF_SIZE_def
        packetbuf_attr_def packetbuf_addr_def fun_eq_iff)
  have tot: "packetbuf_totlen b' = length H + length p" "packetbuf_totlen b = length H + length p + n"
    using pb_wf_lengths(2) [OF b'(1)] pb_wf_lengths(2) [OF len(3)] b' len dl by (simp_all add: packetbuf_datalen_def)
  have buf: "take (length H + length p + n) (pbuf b) = H @ sent @ tag"
    using pp(10) tot(2) by (simp add: pb_frame_def packetbuf_hdrptr_def)
  then obtain rest where rest: "pbuf b = H @ sent @ tag @ rest" by (metis append_assoc append_take_drop_id)
  have frame: "pb_frame b' = H @ sent" and tag: "sub (pbuf b') (length H + length p) n = tag"
    using ls lt tot(1) b'(5) rest by (simp_all add: pb_frame_def packetbuf_hdrptr_def sub_def)
  have key: "LLSEC_KEY_INDEX ll b' = LLSEC_KEY_INDEX ll b" by (simp add: LLSEC_KEY_INDEX_def b'(6))
  have enc2: "cipher_of ll b' s2 = enc" using same(4) by (simp add: cipher_of_def enc_def assms(14) key)
  have nonce2: "ccm_star_packetbuf_set_nonce na2 False b' = nonce"
    using ok sec(1-3) pp(3) c(10) [of ATTR_SECURITY_LEVEL] attrs(1) assms(5)
    by (simp add: nonce_def ccm_star_packetbuf_set_nonce_def b'(6,7))
  have eqs: "mic_len b' = n" "clear_part b' = clear_part pb"
      "secret_part b' = secret_part pb"
    using same(1,2) by (simp_all add: n_def mic_len_def clear_part_def secret_part_def encrypts_def b'(6) fun_eq_iff)
  have idx: "unat (ucast (LLSEC_KEY_INDEX ll b') :: u8) < length (keys s2)" using ok same(4) by (simp add: key assms(14))
  have hdr: "nat h = length H" "nat h \<le> packetbuf_totlen b'" using pp(1) tot(1) by simp_all
  have mic: "MIC_LEN_VALID (mic_len b')" "mic_len b' \<le> length junk2"
    using ok mic_len_le [of pb] assms(17) by (simp_all add: eqs n_def)
  note got = aead_receives [OF b'(1) assms(13) idx hdr(2) mic a, unfolded enc2 nonce2 eqs frame hdr(1) tot(1) tag parts_of]
  have twice: "rfc_encrypt enc nonce (if encrypts pb then sent else []) = (if encrypts pb then p else [])"
    by (simp add: sent_def rfc_encrypt_twice) (simp add: rfc_encrypt_def)
  have fine: "ok' = 1" using got(1) unfolding twice by (simp add: tag_def sent_def)
  have "pb_frame rx0 = H @ p" using got(2) unfolding twice by (auto simp: sent_def)
  moreover have "pb_frame rx0 = pb_header rx0 @ pb_data rx0" by (rule pb_frame_split [OF got(3)])
  moreover have "length (pb_header rx0) = length H"
    using got(3,6,7) b'(3,4) pb_wf_lengths(1) [OF got(3)] by (simp add: pb_header_def pb_wf_def)
  ultimately have data': "pb_data rx0 = p" by simp
  have lv: "packetbuf_attr b ATTR_SECURITY_LEVEL = level" "LLSEC_KEY_MODE ll b = key_mode" "packetbuf_addr b ADDR_SENDER = na"
    "0 < length p" "level \<noteq> 0" "MIC_LEN (level AND 7) = n"
    using attrs(1) same(3) pp(3) assms(5,7,18,19) ok by (simp_all add: p_def n_def mic_len_def)
  have "packetbuf_set_datalen (length p) b = b'" by (simp add: b'_def dl)
  then have "csma_security_parse_frame ll na2 pan_id level key_mode junk2 f0 rx s2 = (h, rx0, s3)"
    using ok pp(1) lv assms(15) dl a fine
    by (simp add: csma_security_parse_frame_def hb)
  then have out: "r' = h" "rx' = rx0" using assms(20) by simp_all
  show "r' = r" using out(1) cr(1) pp(1) by simp
  show "pb_data rx' = pb_frame pb" using data' by (simp add: out(2) p_def)
  show "packetbuf_addr rx' ADDR_SENDER = na" "packetbuf_addr rx' ADDR_RECEIVER = packetbuf_addr pb ADDR_RECEIVER"
    using got(5) pp(3,4) b'(7) assms(5) by (simp_all add: out(2) packetbuf_addr_def fun_eq_iff)
  have "anti_replay_get_counter rx0 = anti_replay_get_counter pb1"
    using got(4) b'(6) sec(2,3) ok by (simp add: anti_replay_get_counter_def packetbuf_attr_def fun_eq_iff)
  then show "anti_replay_get_counter rx' = counter s'" using c(1,2) cr(4) by (simp add: out(2) keyed_def)
qed

text \<open>A build without security sends the frame as it is.\<close>

definition plain_ok :: "llsec \<Rightarrow> packetbuf \<Rightarrow> bool" where
  "plain_ok ll pb \<longleftrightarrow> \<not> (uses_aux_header ll \<and> uses_frame_counter ll) \<and> pb_wf pb \<and>
     attrs_ok ll (packetbuf_set_attr ATTR_FRAME_TYPE 1 pb)"

lemma plain_build:
  assumes "\<not> (uses_aux_header ll \<and> uses_frame_counter ll)"
  shows "csma_security_create_frame ll na pan_id junk pb s =
      (case framer_create ll pan_id (packetbuf_set_attr ATTR_FRAME_TYPE 1 pb) of (r, pb) \<Rightarrow> (r, pb, s))"
    "csma_security_parse_frame ll na pan_id level key_mode junk f0 pb s =
      (case framer_parse ll pan_id f0 pb of (r, pb) \<Rightarrow> (r, pb, s))"
  using assms by (auto simp: csma_security_create_frame_def csma_security_parse_frame_def split: prod.splits)

lemma parse_plain:
  assumes "plain_ok ll pb" "csma_security_create_frame ll na pan_id junk pb s = (r, tx, s')" "0 \<le> r"
    and "linkaddr_bytes (packetbuf_addr pb ADDR_RECEIVER) \<noteq> replicate 8 0xff"
    and "pb_wf rx" "bufptr rx = 0" "hdrlen rx = 0" "pb_data rx = pb_frame tx" "packetbuf_addr rx ADDR_RECEIVER = linkaddr_null"
    and "buffers_ok f0" "csma_security_parse_frame ll na2 pan_id level key_mode junk2 f0 rx s2 = (r', rx', s2')"
  shows "r' = r" "pb_data rx' = pb_frame pb" "packetbuf_addr rx' ADDR_SENDER = packetbuf_addr pb ADDR_SENDER"
    "packetbuf_addr rx' ADDR_RECEIVER = packetbuf_addr pb ADDR_RECEIVER"
proof -
  note ok = assms(1) [unfolded plain_ok_def]
  define pb1 where "pb1 = packetbuf_set_attr ATTR_FRAME_TYPE 1 pb"
  have pb1: "pb_wf pb1" "attrs_ok ll pb1" using ok by (simp_all add: pb1_def)
  have c: "framer_create ll pan_id pb1 = (r, tx)"
    using assms(2) ok by (auto simp: plain_build pb1_def split: prod.splits)
  have p: "framer_parse ll pan_id f0 rx = (r', rx')"
    using assms(11) ok by (auto simp: plain_build split: prod.splits)
  note f = framer_create_frame_bytes [OF pb1 c assms(3)]
  have a: "linkaddr_bytes (packetbuf_addr pb1 ADDR_RECEIVER) \<noteq> replicate 8 0xff" using assms(4) by (simp add: pb1_def)
  note b = framer_parse_body [OF pb1(2) refl assms(5-7) _ assms(9) a assms(10) p, OF assms(8) [unfolded f(2)]]
  show "r' = r" "pb_data rx' = pb_frame pb" "packetbuf_addr rx' ADDR_SENDER = packetbuf_addr pb ADDR_SENDER"
    "packetbuf_addr rx' ADDR_RECEIVER = packetbuf_addr pb ADDR_RECEIVER"
    using b(1-4) f(1) by (simp_all add: pb1_def)
qed

section \<open>A level without a MIC\<close>

text \<open>
  The levels 0 and 4 ask for two bytes of MIC, a length CCM* refuses: nothing is encrypted and
  the two bytes behind the frame are sent in place of the MIC.
\<close>

lemma aead_level_4:
  assumes "pb_wf pb" "llsec_ok s" "unat (ucast (LLSEC_KEY_INDEX ll pb) :: u8) < length (keys s)" "hdr \<le> packetbuf_totlen pb"
    and "mic_len pb = 2" "packetbuf_totlen pb + 2 \<le> PACKETBUF_SIZE" "aead ll na junk hdr True pb s = (r, pb', s')"
  shows "r = 1" "pb_frame pb' = pb_frame pb @ sub (pbuf pb) (packetbuf_totlen pb) 2"
proof -
  let ?t = "packetbuf_totlen pb" and ?a = "clear_part pb hdr (pb_frame pb)" and ?m = "secret_part pb hdr (pb_frame pb)"
  note p = aead_parts [OF assms(1,4)]
  have bad: "\<not> MIC_LEN_VALID 2" by (simp add: MIC_LEN_VALID_def)
  have len: "length (pbuf pb) = 128" "?t + 2 \<le> 128" using assms(1,6) by (simp_all add: pb_wf_def PACKETBUF_SIZE_def)
  have same: "blit (pbuf pb) (length ?a) ?m = pbuf pb"
    by (subst (1 2) p(7)) (simp add: blit_def)
  have sub2: "blit (pbuf pb) ?t (sub (pbuf pb) ?t 2) = pbuf pb"
    using len append_take_drop_id [of ?t "pbuf pb"] append_take_drop_id [of 2 "drop ?t (pbuf pb)"]
    by (simp add: blit_def sub_def add.commute del: append_take_drop_id)
  have out: "r = 1" "pb' = packetbuf_set_datalen (packetbuf_datalen pb + 2) pb"
    using aead_setup [OF assms(1-4), of na junk True] assms(5,7) len
    by (simp_all add: aead_refused [OF bad] same sub2 PACKETBUF_SIZE_def)
  show "r = 1" by (rule out(1))
  have "packetbuf_totlen pb' = ?t + 2"
    using len(2) pb_wf_lengths(1,2) [OF assms(1)] by (simp add: out(2) packetbuf_set_datalen_def pb_lengths)
  then have "pb_frame pb' = take (?t + 2) (pbuf pb)" by (simp add: pb_frame_def packetbuf_hdrptr_def) (simp add: out(2) packetbuf_set_datalen_def)
  then show "pb_frame pb' = pb_frame pb @ sub (pbuf pb) ?t 2" by (simp add: pb_frame_def packetbuf_hdrptr_def take_append_sub)
qed

lemma create_level_4:
  assumes "framed_ok ll pb s" "mic_len pb = 2" "csma_security_create_frame ll na pan_id junk pb s = (r, tx, s')" "0 \<le> r"
    and "packetbuf_totlen pb \<le> 88"
  shows "\<exists>H stale. r = int (length H) \<and> length stale = 2 \<and> pb_frame tx = H @ pb_frame pb @ stale"
proof -
  obtain s1 pb1 where set1: "anti_replay_set_counter s (packetbuf_set_attr ATTR_FRAME_TYPE 1 pb) = (s1, pb1)" by fastforce
  define H where "H = header_bytes ll (compress_panid (frame_params ll pan_id pb1))"
  obtain q b where fr: "r = int (length H)" "attrs_ok ll pb1" "pb_wf q" "pb_frame q = H @ pb_frame pb"
    "packetbuf_totlen q = length H + packetbuf_totlen pb" "LLSEC_KEY_INDEX ll q = LLSEC_KEY_INDEX ll pb"
    "mic_len q = mic_len pb" "aead ll na junk (length H) True q s1 = (b, tx, s')"
    by (rule create_calls_aead [OF assms(1,3,4) set1 H_def])
  have s1: "llsec_ok s1" "keys s1 = keys s"
    using assms(1) set_counter_attrs(1) [OF set1] by (simp_all add: framed_ok_def llsec_ok_def)
  have idx: "unat (ucast (LLSEC_KEY_INDEX ll q) :: u8) < length (keys s1)" using assms(1) by (simp add: framed_ok_def fr(6) s1)
  have "length H \<le> 38"
    using hdrlen_le [of ll "frame_params ll pan_id pb1"] create_eq(2) [OF frame_params_ok(1) [OF fr(2), of pan_id] refl] by (simp add: H_def)
  then have room: "length H \<le> packetbuf_totlen q" "packetbuf_totlen q + 2 \<le> PACKETBUF_SIZE" and m: "mic_len q = 2"
    using assms(2,5) by (simp_all add: fr(5,7) PACKETBUF_SIZE_def)
  have "length (sub (pbuf q) (packetbuf_totlen q) 2) = 2" using fr(3) room(2) by (simp add: pb_wf_def)
  then show ?thesis using fr(1) aead_level_4(2) [OF fr(3) s1(1) idx room(1) m room(2) fr(8)] by (auto simp: fr(4))
qed

section \<open>Replays\<close>

text \<open>\<open>accepted\<close> is what the replay check lets through of a sequence of packets from one sender.\<close>

fun accepted :: "packetbuf list \<Rightarrow> anti_replay_info \<Rightarrow> packetbuf list" where
  "accepted [] info = []"
| "accepted (p # ps) info = (case anti_replay_was_replayed p info of
     (replayed, info) \<Rightarrow> if replayed = 0 then p # accepted ps info else accepted ps info)"

definition last_counter :: "bool \<Rightarrow> anti_replay_info \<Rightarrow> u32" where
  "last_counter broadcast info = (if broadcast then last_broadcast_counter info else last_unicast_counter info)"

lemma was_replayed_cases:
  obtains (replayed) "anti_replay_was_replayed p info = (1, info)"
      "anti_replay_get_counter p \<le> last_counter (packetbuf_holds_broadcast p) info"
  | (fresh) info' where "anti_replay_was_replayed p info = (0, info')"
      "last_counter (packetbuf_holds_broadcast p) info < anti_replay_get_counter p"
      "\<And>b. last_counter b info' = (if b = packetbuf_holds_broadcast p then anti_replay_get_counter p else last_counter b info)"
proof (cases "anti_replay_get_counter p \<le> last_counter (packetbuf_holds_broadcast p) info")
  case True
  then show thesis by (intro replayed) (auto simp: anti_replay_was_replayed_def last_counter_def Let_def not_le split: if_splits)
next
  case False
  then show thesis
    using fresh [of "if packetbuf_holds_broadcast p then info\<lparr>last_broadcast_counter := anti_replay_get_counter p\<rparr>
      else info\<lparr>last_unicast_counter := anti_replay_get_counter p\<rparr>"]
    by (auto simp: anti_replay_was_replayed_def last_counter_def Let_def not_le split: if_splits)
qed

lemma accepted_increases:
  "sorted_wrt (<) (last_counter b info # map anti_replay_get_counter (filter (\<lambda>p. packetbuf_holds_broadcast p = b) (accepted ps info)))"
proof (induction ps arbitrary: info)
  case (Cons p ps)
  show ?case
  proof (cases rule: was_replayed_cases [of p info])
    case replayed
    then show ?thesis using Cons by simp
  next
    case (fresh info')
    then show ?thesis using Cons [of info'] by (auto intro: less_trans)
  qed
qed simp

end
