(* ===== verification/Node_Frames.thy ===== *)
theory Node_Frames imports Csma_Security Iotorii_Labels begin

text \<open>
  The node with the IEEE 802.15.4 framer of a build without link-layer security: the framer
  keeps what the node relies on, and what one node hands to its radio reaches the message
  handlers of another.
\<close>

section \<open>The framer as the node's framer\<close>

definition node_create_frame :: "llsec \<Rightarrow> linkaddr \<Rightarrow> u16 \<Rightarrow> packetbuf \<Rightarrow> int \<times> packetbuf" where
  "node_create_frame ll node_addr pan_id pb =
     (case csma_security_create_frame ll node_addr pan_id [] pb \<lparr>counter = 0, keys = [], round_keys = [], sec_overrun = False\<rparr>
      of (r, pb, _) \<Rightarrow> (r, pb))"

definition node_parse_frame :: "llsec \<Rightarrow> linkaddr \<Rightarrow> u16 \<Rightarrow> frame802154 \<Rightarrow> packetbuf \<Rightarrow> int \<times> packetbuf" where
  "node_parse_frame ll node_addr pan_id f0 pb =
     (case csma_security_parse_frame ll node_addr pan_id 0 0 [] f0 pb \<lparr>counter = 0, keys = [], round_keys = [], sec_overrun = False\<rparr>
      of (r, pb, _) \<Rightarrow> (r, pb))"

abbreviation insecure :: "llsec \<Rightarrow> bool" where
  "insecure ll \<equiv> \<not> (uses_aux_header ll \<and> uses_frame_counter ll)"

lemma insecure_frames:
  assumes "insecure ll"
  shows "node_create_frame ll na pan_id pb = framer_create ll pan_id (packetbuf_set_attr ATTR_FRAME_TYPE 1 pb)"
    "node_parse_frame ll na pan_id f0 pb = framer_parse ll pan_id f0 pb"
  using assms by (simp_all add: node_create_frame_def node_parse_frame_def plain_build split: prod.splits)

lemma framer_meets_contract:
  assumes "insecure ll"
  shows "framer_room (node_create_frame ll na pan_id)" "parser_ok (node_parse_frame ll na pan_id f0)"
proof -
  have c: "node_create_frame ll na pan_id = (\<lambda>pb. framer_create ll pan_id (packetbuf_set_attr ATTR_FRAME_TYPE 1 pb))"
    "node_parse_frame ll na pan_id f0 = framer_parse ll pan_id f0"
    using assms by (simp_all add: insecure_frames fun_eq_iff)
  have "pb_room (snd (framer_create ll pan_id (packetbuf_set_attr ATTR_FRAME_TYPE 1 pb)))"
    if "pb_wf pb" "bufptr pb = 0" "hdrlen pb = 0" for pb
    using framer_create_wf(2,3) [of "packetbuf_set_attr ATTR_FRAME_TYPE 1 pb" ll pan_id] that
    by (simp add: pb_room_def PACKETBUF_SIZE_def)
  then show "framer_room (node_create_frame ll na pan_id)"
    unfolding framer_room_def framer_ok_def c using framer_create_wf(1) by simp
  have "pb_wf (snd (framer_parse ll pan_id f0 pb)) \<and> pb_room (snd (framer_parse ll pan_id f0 pb))"
    if "pb_wf pb" "bufptr pb = 0" "hdrlen pb = 0" for pb
    using framer_parse_wf [of pb ll pan_id f0] that by (simp add: pb_room_def PACKETBUF_SIZE_def)
  then show "parser_ok (node_parse_frame ll na pan_id f0)" by (simp add: parser_ok_def c)
qed

lemma node_create_fits:
  "insecure ll \<Longrightarrow> pb_wf pb \<Longrightarrow> pan_id \<noteq> 0xffff \<Longrightarrow> packetbuf_totlen pb \<le> 90 \<Longrightarrow>
    0 \<le> fst (node_create_frame ll na pan_id pb)"
  by (simp add: insecure_frames framer_create_fits)

section \<open>From one node to another\<close>

text \<open>A long address makes a frame longer than an acknowledgement.\<close>

lemma header_long: "src_addr_mode (fr_fcf p) = 3 \<Longrightarrow> length (src_addr p) = 8 \<Longrightarrow> 8 \<le> length (header_bytes ll p)"
  by (simp add: header_bytes_def src_bytes_def addr_len_def frame_consts)

lemma seqno_kept:
  assumes "attrs_ok ll pb" "suppr_seqno ll = 0" "frame_version_opt ll < 2" "unat (packetbuf_attr pb ATTR_MAC_SEQNO) < 256"
  shows "packetbuf_attr (note_frame ll (shown_frame ll n (compress_panid (frame_params ll pan_id pb)) f0) b) ATTR_MAC_SEQNO =
    packetbuf_attr pb ATTR_MAC_SEQNO"
proof -
  have "\<not> 2 \<le> frame_version_opt ll" using assms(3) by simp
  then show ?thesis
    using assms(2,4) by (simp add: shown_frame_def frame_params_fields [OF assms(1)] compress_panid_def widen_narrow)
qed

text \<open>
  What node \<open>a\<close> hands to its radio for a packet \<open>pb\<close>, found in the packet buffer of a node in
  state \<open>s\<close>: the packet is for everybody or for that node, and comes from another one.
\<close>

definition delivered :: "llsec \<Rightarrow> u16 \<Rightarrow> packetbuf \<Rightarrow> env \<Rightarrow> iot \<Rightarrow> bool" where
  "delivered ll pan_id pb e s \<longleftrightarrow>
     (case node_create_frame ll (packetbuf_addr pb ADDR_SENDER) pan_id pb of (r, tx) \<Rightarrow>
        0 \<le> r \<and> received_frame (pktbuf (mac s)) \<and> pb_data (pktbuf (mac s)) = pb_frame tx) \<and>
     packetbuf_addr (pktbuf (mac s)) ADDR_RECEIVER = linkaddr_null \<and>
     packetbuf_addr pb ADDR_RECEIVER \<in> {linkaddr_null, linkaddr_node_addr e} \<and>
     linkaddr_bytes (linkaddr_node_addr e) \<noteq> replicate 8 0xff \<and>
     packetbuf_addr pb ADDR_SENDER \<noteq> linkaddr_node_addr e"

lemma delivered_input:
  assumes "plain_ok ll pb" "suppr_seqno ll = 0" "frame_version_opt ll < 2" "unat (packetbuf_attr pb ATTR_MAC_SEQNO) < 256"
    and "delivered ll pan_id pb e s" "\<not> mac_sequence_is_duplicate pb now (seqnos s)" "buffers_ok f0"
  obtains rx where "pb_data rx = pb_frame pb" "packetbuf_addr rx ADDR_SENDER = packetbuf_addr pb ADDR_SENDER" "pb_wf rx"
    "input_packet e (node_parse_frame ll (linkaddr_node_addr e) pan_id f0) now s =
       iotorii_operation e now (s\<lparr>mac := (mac s)\<lparr>pktbuf := rx\<rparr>, seqnos := mac_sequence_register_seqno rx now (seqnos s)\<rparr>)"
proof -
  have ins: "insecure ll" "pb_wf pb" using assms(1) by (simp_all add: plain_ok_def)
  define pb1 where "pb1 = packetbuf_set_attr ATTR_FRAME_TYPE 1 pb"
  have pb1: "pb_wf pb1" "attrs_ok ll pb1" "pb_frame pb1 = pb_frame pb" "packetbuf_addr pb1 = packetbuf_addr pb"
      "packetbuf_attr pb1 ATTR_MAC_SEQNO = packetbuf_attr pb ATTR_MAC_SEQNO"
    using assms(1) by (simp_all add: plain_ok_def pb1_def fun_eq_iff)
  obtain r tx where rtx: "framer_create ll pan_id pb1 = (r, tx)" by fastforce
  note d = assms(5) [unfolded delivered_def insecure_frames(1) [OF ins(1)] pb1_def [symmetric] rtx case_prod_conv]
  define H where "H = header_bytes ll (compress_panid (frame_params ll pan_id pb1))"
  have r: "0 \<le> r" using d by simp
  note f = framer_create_frame_bytes [OF pb1(1,2) rtx r, folded H_def]
  let ?in = "pktbuf (mac s)"
  have rin: "pb_wf ?in" "bufptr ?in = 0" "hdrlen ?in = 0" using d by (simp_all add: received_frame_def)
  have data: "pb_data ?in = H @ pb_frame pb" "packetbuf_addr ?in ADDR_RECEIVER = linkaddr_null"
    using d f(2) pb1(3) by simp_all
  have "hd (linkaddr_bytes linkaddr_null) \<noteq> hd (replicate 8 0xff)" by (simp add: linkaddr_null_def)
  then have notff: "linkaddr_bytes (packetbuf_addr pb1 ADDR_RECEIVER) \<noteq> replicate 8 0xff"
    using d unfolding pb1(4) by auto
  obtain r' rx where p: "framer_parse ll pan_id f0 ?in = (r', rx)" by fastforce
  note b = framer_parse_body [OF pb1(2) H_def rin data notff assms(7) p, unfolded pb1(4)]
  have same: "packetbuf_attr rx ATTR_MAC_SEQNO = packetbuf_attr pb ATTR_MAC_SEQNO"
    using b(9) seqno_kept [OF pb1(2) assms(2,3)] assms(4) pb1(5) by fastforce
  have dup: "\<not> mac_sequence_is_duplicate rx now (seqnos s)"
    using assms(6) by (simp add: mac_sequence_is_duplicate_def same b(3))
  have "8 \<le> length H"
    unfolding H_def by (rule header_long) (simp_all add: compress_panid_def frame_params_fields [OF pb1(2)] LINKADDR_SIZE_def)
  then have "packetbuf_datalen ?in \<noteq> CSMA_ACK_LEN"
    using pb_wf_lengths(3) [OF rin(1)] data(1) by (simp add: CSMA_ACK_LEN_def)
  then have "input_packet e (node_parse_frame ll (linkaddr_node_addr e) pan_id f0) now s =
       iotorii_operation e now (s\<lparr>mac := (mac s)\<lparr>pktbuf := rx\<rparr>, seqnos := mac_sequence_register_seqno rx now (seqnos s)\<rparr>)"
    using d b(1,3,4) dup by (auto simp: input_packet_def insecure_frames(2) [OF ins(1)] p holds_broadcast_addr)
  then show thesis using that b(2,3,8) by blast
qed

text \<open>An empty packet is a hello: the receiver knows the sender afterwards.\<close>

lemma delivered_hello:
  assumes "plain_ok ll pb" "suppr_seqno ll = 0" "frame_version_opt ll < 2" "unat (packetbuf_attr pb ATTR_MAC_SEQNO) < 256"
    and "delivered ll pan_id pb e s" "\<not> mac_sequence_is_duplicate pb now (seqnos s)" "buffers_ok f0"
    and "pb_frame pb = []" "number_of_neighbours s < 256"
    and "input_packet e (node_parse_frame ll (linkaddr_node_addr e) pan_id f0) now s = Some s'"
  shows "packetbuf_addr pb ADDR_SENDER \<in> nb_addr ` set (neighbours s')"
    "map nb_addr (neighbours s') = map nb_addr (neighbours s) @
      (if packetbuf_addr pb ADDR_SENDER \<in> nb_addr ` set (neighbours s) then [] else [packetbuf_addr pb ADDR_SENDER])"
proof -
  obtain rx where rx: "pb_data rx = pb_frame pb" "packetbuf_addr rx ADDR_SENDER = packetbuf_addr pb ADDR_SENDER" "pb_wf rx"
    "input_packet e (node_parse_frame ll (linkaddr_node_addr e) pan_id f0) now s =
       iotorii_operation e now (s\<lparr>mac := (mac s)\<lparr>pktbuf := rx\<rparr>, seqnos := mac_sequence_register_seqno rx now (seqnos s)\<rparr>)"
    by (rule delivered_input [OF assms(1-7)])
  let ?s = "s\<lparr>mac := (mac s)\<lparr>pktbuf := rx\<rparr>, seqnos := mac_sequence_register_seqno rx now (seqnos s)\<rparr>"
  have "packetbuf_datalen rx = 0" using pb_wf_lengths(3) [OF rx(3)] rx(1) assms(8) by simp
  then have s': "s' = iotorii_handle_incoming_hello ?s"
    using rx(4) assms(10) by (simp add: iotorii_operation_def)
  let ?a = "packetbuf_addr pb ADDR_SENDER"
  have n: "map nb_addr (neighbours s') = map nb_addr (neighbours s) @ (if ?a \<in> nb_addr ` set (neighbours s) then [] else [?a])"
    using incoming_hello_neighbours [of ?s ?a] rx(2) assms(9)
    by (simp add: s' touch_hello_def new_neighbour_def comp_def if_distrib cong: if_cong)
  then show "map nb_addr (neighbours s') = map nb_addr (neighbours s) @ (if ?a \<in> nb_addr ` set (neighbours s) then [] else [?a])" .
  have "?a \<in> set (map nb_addr (neighbours s'))" unfolding n by auto
  then show "?a \<in> nb_addr ` set (neighbours s')" by simp
qed

lemma delivered_hello_ends:
  assumes "plain_ok ll pb" "suppr_seqno ll = 0" "frame_version_opt ll < 2" "unat (packetbuf_attr pb ATTR_MAC_SEQNO) < 256"
    and "delivered ll pan_id pb e s" "\<not> mac_sequence_is_duplicate pb now (seqnos s)" "buffers_ok f0" "pb_frame pb = []"
  shows "\<exists>s'. input_packet e (node_parse_frame ll (linkaddr_node_addr e) pan_id f0) now s = Some s'"
proof -
  obtain rx where rx: "pb_data rx = pb_frame pb" "pb_wf rx"
    "input_packet e (node_parse_frame ll (linkaddr_node_addr e) pan_id f0) now s =
       iotorii_operation e now (s\<lparr>mac := (mac s)\<lparr>pktbuf := rx\<rparr>, seqnos := mac_sequence_register_seqno rx now (seqnos s)\<rparr>)"
    by (rule delivered_input [OF assms(1-7)])
  then show ?thesis using pb_wf_lengths(3) [OF rx(2)] assms(8) by (simp add: iotorii_operation_def)
qed

text \<open>
  A packet of the den2ne layer on a build that numbers its frames, and the node of a run that
  finds it in its packet buffer.
\<close>

definition plain_packet :: "llsec \<Rightarrow> packetbuf \<Rightarrow> bool" where
  "plain_packet ll pb \<longleftrightarrow> plain_ok ll pb \<and> suppr_seqno ll = 0 \<and> frame_version_opt ll < 2 \<and>
     unat (packetbuf_attr pb ATTR_MAC_SEQNO) < 256"

lemma run_takes_frame:
  assumes "iot_reachable e (node_create_frame ll na pan_id) (node_parse_frame ll na pan_id f0) s"
    and "received_frame rx" "input_packet e (node_parse_frame ll na pan_id f0) now (s\<lparr>mac := (mac s)\<lparr>pktbuf := rx\<rparr>\<rparr>) = Some s'"
  shows "iot_reachable e (node_create_frame ll na pan_id) (node_parse_frame ll na pan_id f0) s'"
  using stepped [OF assms(1)] iot_step.frame assms(2,3) by blast

end
