(* ===== verification/Sample_States.thy ===== *)
theory Sample_States imports Iotorii_Labels Iotorii_Loads Node_Frames begin

text \<open>
  Concrete states on which the witnesses of the properties run: an empty packet buffer,
  one-block pools, a heap with one address.
\<close>

definition node_a :: linkaddr where "node_a = Linkaddr 1 0 0 0 0 0 0 0"
definition node_b :: linkaddr where "node_b = Linkaddr 2 0 0 0 0 0 0 0"

definition broadcast_root :: build where
  "broadcast_root = \<lparr>node_type = 1, hlmac_cast = 1, hlmac_max = 1, target_cooja = False\<rparr>"

definition unicast_node :: build where
  "unicast_node = \<lparr>node_type = 2, hlmac_cast = 0, hlmac_max = 1, target_cooja = False\<rparr>"

definition empty_pktbuf :: packetbuf where
  "empty_pktbuf = \<lparr>pbuf = replicate 128 0, buflen = 0, bufptr = 0, hdrlen = 0,
     pb_attrs = (\<lambda>_. 0), pb_addrs = (\<lambda>_. linkaddr_null)\<rparr>"

definition small_pool :: "nat \<Rightarrow> ptr \<Rightarrow> memb" where
  "small_pool n base = \<lparr>msize = 8, mnum = n, mused = replicate n False, mbase = base,
     mmem = replicate (8 * n) 0\<rparr>"

definition empty_qbufs :: queuebufs where
  "empty_qbufs = \<lparr>bufmem = small_pool 2 100, buframmem = small_pool 2 200, ram_ptr = (\<lambda>_. 0),
     ram = (\<lambda>_. \<lparr>qd_data = replicate 128 0, qd_len = 0, qd_attrs = (\<lambda>_. 0), qd_addrs = (\<lambda>_. linkaddr_null)\<rparr>)\<rparr>"

definition boot_state :: csma where
  "boot_state = \<lparr>neighbor_memb = small_pool 2 300, packet_memb = small_pool 2 400,
     metadata_memb = small_pool 2 500, qbufs = empty_qbufs, pktbuf = empty_pktbuf,
     neighbour_list = [], nq_addr = (\<lambda>_. linkaddr_null), nq_timer = (\<lambda>_. None),
     nq_transmissions = (\<lambda>_. 0), nq_collisions = (\<lambda>_. 0), nq_queue = (\<lambda>_. []),
     pq_buf = (\<lambda>_. 0), pq_ptr = (\<lambda>_. 0), md_sent = (\<lambda>_. 0), md_cptr = (\<lambda>_. 0),
     md_max_transmissions = (\<lambda>_. 0), out_initialized = False, out_seqno = 0,
     transmission_delay = 1000, rand = \<lparr>rand_src = of_nat, rand_pos = 0\<rparr>,
     sent_calls = []\<rparr>"

lemma pb_wf_empty [simp]: "pb_wf empty_pktbuf"
  by (simp add: pb_wf_def empty_pktbuf_def PACKETBUF_SIZE_def)

lemma memb_wf_small [simp]: "0 < base \<Longrightarrow> memb_wf (small_pool n base)"
  by (simp add: memb_wf_def small_pool_def)

lemma memb_live_small [simp]: "memb_live (small_pool n base) = {}"
  by (auto simp: memb_live_def small_pool_def)

lemma small_pool_fields [simp]:
  "mnum (small_pool n base) = n" "msize (small_pool n base) = 8" "mbase (small_pool n base) = base"
  by (simp_all add: small_pool_def)

lemma qb_empty [simp]: "qb_wf empty_qbufs" "qb_live empty_qbufs = {}"
  by (simp_all add: qb_wf_def qb_live_def empty_qbufs_def PACKETBUF_SIZE_def)

lemma boot_ok [simp]: "csma_boot boot_state"
proof -
  have "mnum (bufmem empty_qbufs) = 2" by (simp add: empty_qbufs_def)
  then show ?thesis by (simp add: csma_boot_def) (simp add: boot_state_def)
qed

lemma boot_wf [simp]: "csma_wf (csma_output_init boot_state)"
  by (rule csma_output_init_wf) simp

text \<open>A framer that adds no header.\<close>

definition plain_framer :: "packetbuf \<Rightarrow> int \<times> packetbuf" where
  "plain_framer pb = (0, pb)"

lemma plain_framer_ok [simp]: "framer_ok plain_framer"
  by (simp add: framer_ok_def plain_framer_def)

text \<open>A heap that holds the address with identifiers 1, 4 in block 1 and 1, 4, 2 in block 2.\<close>

definition small_heap :: heap where
  "small_heap = \<lparr>blocks = [1 \<mapsto> [1, 4], 2 \<mapsto> [1, 4, 2]], brk = 3, junk = (\<lambda>_ _. 0), ub = False\<rparr>"

lemma small_heap_wf [simp]: "heap_wf small_heap" "ub small_heap = False"
  by (simp_all add: heap_wf_def small_heap_def)

lemma small_heap_addrs [simp]:
  "hl_repr small_heap \<lparr>address = 1, len = 2\<rparr> [1, 4]" "hl_repr small_heap \<lparr>address = 2, len = 3\<rparr> [1, 4, 2]"
  by (simp_all add: hl_repr_def small_heap_def)

lemmas small_heap_addrs_Suc [simp] = small_heap_addrs [unfolded One_nat_def]

text \<open>The booted layer after one broadcast packet.\<close>

definition busy_state :: csma where
  "busy_state = csma_output_packet broadcast_root NULL NULL (csma_output_init boot_state)"

definition busy_neighbor :: ptr where
  "busy_neighbor = hd (neighbour_list busy_state)"

definition clear_channel :: radio_answers where
  "clear_channel = \<lparr>ra_receiving = False, ra_pending = False, ra_transmit = RADIO_TX_OK, ra_ack_receiving = False,
     ra_ack_pending = False, ra_channel_clear = True, ra_ack_ready = False, ra_ack = []\<rparr>"

lemma boot_accepts: "accepts (csma_output_init boot_state)"
proof -
  have "memb_numfree (memb_init (small_pool 2 b)) \<noteq> 0" if "0 < b" for b
    using that memb_numfree_live [of "memb_init (small_pool 2 b)"] memb_init_empty [of "small_pool 2 b"]
    by (simp add: memb_wf_def memb_init_def small_pool_def)
  then show ?thesis by (simp add: accepts_def csma_output_init_def boot_state_def)
qed

lemma busy_state_wf [simp]:
  "csma_wf busy_state" "\<forall>m \<in> set (neighbour_list busy_state). counted busy_state m"
  "pending busy_state linkaddr_null = [[]]" "busy_neighbor \<in> set (neighbour_list busy_state)"
proof -
  let ?s = "csma_output_init boot_state"
  have f: "neighbour_list ?s = []" "pktbuf ?s = empty_pktbuf" by (simp_all add: csma_output_init_def boot_state_def)
  have "pb_packet empty_pktbuf = []" "packetbuf_addr empty_pktbuf ADDR_RECEIVER = linkaddr_null" "pending ?s linkaddr_null = []"
    using f by (simp_all add: pb_packet_def pb_data_def empty_pktbuf_def sub_def packetbuf_addr_def pending_def queue_of_def)
  moreover have "\<forall>m \<in> set (neighbour_list ?s). counted ?s m" using f(1) by simp
  note csma_output_spec [OF boot_wf this refl refl, of broadcast_root NULL NULL]
  ultimately show p: "pending busy_state linkaddr_null = [[]]" and
      "\<forall>m \<in> set (neighbour_list busy_state). counted busy_state m"
    using boot_accepts f(2) by (simp_all add: busy_state_def)
  show "csma_wf busy_state" by (simp add: busy_state_def csma_output_packet_wf)
  have "neighbour_list busy_state \<noteq> []" using p by (auto simp: pending_def queue_of_def split: if_splits)
  then show "busy_neighbor \<in> set (neighbour_list busy_state)" by (simp add: busy_neighbor_def)
qed

section \<open>A node\<close>

definition sample_env :: "build \<Rightarrow> env" where
  "sample_env b = \<lparr>opts = b, linkaddr_node_addr = node_a, framer_hdrlen = 21, char_signed = False,
     stray_addr = linkaddr_null\<rparr>"

definition sample_nb :: "linkaddr \<Rightarrow> u8 \<Rightarrow> int \<Rightarrow> neighbour_table_entry" where
  "sample_nb a i f = \<lparr>nb_addr = a, last_hello = 0, number_id = i, nb_flag = f, nb_load = 0, in_out = 0\<rparr>"

definition blank_node :: iot where
  "blank_node = \<lparr>mem = small_heap, table = \<lparr>entries = [], number_of_hlmac_addresses = 0, null_deref = False\<rparr>,
     mac = boot_state,
     seqnos = \<lparr>received_seqnos = replicate 16 \<lparr>sq_sender = linkaddr_null, sq_timestamp = 0, sq_seqno = 0\<rparr>, mac_dsn = 0\<rparr>,
     neighbours = [], payloads = [], nodes = [], fresh_ref = 0, number_of_neighbours = 0,
     number_of_neighbours_flag = 0, number_of_hello_messages = 0, number_of_sethlmac_messages = 0,
     number_times_converged = 0, n_hijos_share = 0, n_hijos_load = 0, edge = False, sent_load = False,
     sent_share = False, has_converged = 0, extra_load = 0, last_timestamp = 0, root_timestamp = - 1,
     convergence_time = 0, hello_start_time = 0, hello_idle_time = 0, sethlmac_timer = None, hello_timer = None,
     send_sethlmac_timer = None, statistic_timer = None, bad_access = False\<rparr>"

lemma sample_env_ok [simp]: "env_ok (sample_env b)" "opts (sample_env b) = b"
  by (simp_all add: env_ok_def sample_env_def node_a_def linkaddr_null_def)

lemma empty_pktbuf_room [simp]: "pb_room empty_pktbuf" "received_frame empty_pktbuf"
  by (simp_all add: pb_room_def received_frame_def) (simp_all add: empty_pktbuf_def PACKETBUF_SIZE_def)

lemma blank_node_fields [simp]:
  "mem blank_node = small_heap" "mac blank_node = boot_state" "neighbours blank_node = []"
  "payloads blank_node = []" "nodes blank_node = []" "last_timestamp blank_node = 0"
  by (simp_all add: blank_node_def)

lemma boot_fields [simp]: "pktbuf boot_state = empty_pktbuf" "neighbour_list boot_state = []"
  "rand boot_state = \<lparr>rand_src = of_nat, rand_pos = 0\<rparr>"
  by (simp_all add: boot_state_def)

lemma blank_boot [simp]: "iot_boot (sample_env b) blank_node"
  by (simp add: iot_boot_def) (simp add: blank_node_def)

lemma started_reachable: "iot_reachable (sample_env b) cf pf (iotorii_init (sample_env b) blank_node)"
  by (rule booted) simp

lemma plain_framer_room [simp]: "framer_room plain_framer" "parser_ok plain_framer"
proof -
  have "pb_wf pb \<Longrightarrow> bufptr pb = 0 \<Longrightarrow> hdrlen pb = 0 \<Longrightarrow> pb_room pb" for pb
    by (simp add: pb_room_def PACKETBUF_SIZE_def)
  then show "framer_room plain_framer" "parser_ok plain_framer"
    by (simp_all add: framer_room_def parser_ok_def plain_framer_def framer_ok_def)
qed

text \<open>A node that has booted its MAC layer and knows the given neighbours.\<close>

definition node_with :: "neighbour_table_entry list \<Rightarrow> iot" where
  "node_with nbs = blank_node\<lparr>mac := csma_output_init boot_state, neighbours := nbs,
     number_of_neighbours := int (length nbs)\<rparr>"

lemma node_with_inv [simp]:
  assumes "distinct (map nb_addr nbs)" "length nbs \<le> 256"
  shows "node_inv (sample_env b) (node_with nbs)"
proof -
  have "pktbuf (csma_output_init boot_state) = empty_pktbuf" by (simp add: csma_output_init_def)
  then show ?thesis using assms
    by (simp add: node_inv_def nb_ok_def pay_ok_def node_with_def)
      (simp add: blank_node_def table_wf_def)
qed

lemma node_with_fields [simp]:
  "mem (node_with nbs) = small_heap" "neighbours (node_with nbs) = nbs" "nodes (node_with nbs) = []"
  "last_timestamp (node_with nbs) = 0" "payloads (node_with nbs) = []"
  "mac (node_with nbs) = csma_output_init boot_state"
  by (simp_all add: node_with_def)

lemma hits_counting: "hits \<lparr>rand_src = of_nat, rand_pos = p\<rparr>"
  unfolding hits_def
proof (intro ballI allI impI)
  fix n i k :: nat
  assume "n \<in> {1..255}" "i < n"
  then have "unat (of_nat (65536 * k + i) :: u16) = i" by (simp only: unat_of_nat) simp
  then have "unat (rand_src \<lparr>rand_src = of_nat, rand_pos = p\<rparr> (65536 * k + i)) mod n = i" using \<open>i < n\<close> by simp
  then show "\<exists>j \<ge> k. unat (rand_src \<lparr>rand_src = of_nat, rand_pos = p\<rparr> j) mod n = i"
    by (intro exI [of _ "65536 * k + i"]) simp
qed

lemma init_fields [simp]: "pktbuf (csma_output_init s) = pktbuf s" "neighbour_list (csma_output_init s) = neighbour_list s"
  "rand (csma_output_init s) = rand s"
  by (simp_all add: csma_output_init_def)

text \<open>A packet buffer that holds the given data.\<close>

definition message_buffer :: "u8 list \<Rightarrow> packetbuf" where
  "message_buffer data = snd (packetbuf_copyfrom data (length data) empty_pktbuf)"

lemma message_buffer_ok:
  "length data \<le> PACKETBUF_SIZE \<Longrightarrow> pb_wf (message_buffer data) \<and> pb_data (message_buffer data) = data"
  "length (sethlmac_message ts ids es) \<le> PACKETBUF_SIZE \<longleftrightarrow> 5 + length ids + 9 * length es \<le> 128"
  using packetbuf_copyfrom_spec(1,3) [OF pb_wf_empty order_refl, of data]
  by (simp_all add: message_buffer_def PACKETBUF_SIZE_def)

lemma two_buffers:
  assumes "pb_wf pb"
  shows "fst (queuebuf_new_from_packetbuf pb empty_qbufs) \<noteq> NULL"
    "fst (queuebuf_new_from_packetbuf pb2 (snd (queuebuf_new_from_packetbuf pb empty_qbufs))) \<noteq> NULL"
proof -
  obtain b q where q: "queuebuf_new_from_packetbuf pb empty_qbufs = (b, q)" by fastforce
  have room: "fst (queuebuf_new_from_packetbuf p x) \<noteq> NULL" if w: "qb_wf x" "card (qb_live x) < mnum (bufmem x)" for p x
    using w(1)
  proof (cases rule: queuebuf_new_cases [where pb = p])
    case full
    then show ?thesis using w memb_numfree_live [of "bufmem x"] by (simp add: qb_wf_def qb_live_def)
  qed simp
  have n: "mnum (bufmem empty_qbufs) = 2" by (simp add: empty_qbufs_def)
  show f: "fst (queuebuf_new_from_packetbuf pb empty_qbufs) \<noteq> NULL" by (rule room) (simp_all add: n)
  have l: "qb_wf q" "qb_live q = {b}"
    using qb_wf_new [OF qb_empty(1) assms] qb_new_contents [OF qb_empty(1) assms q] f q by simp_all
  have "mnum (bufmem q) = 2"
    using qb_empty(1)
  proof (cases rule: queuebuf_new_cases [where pb = pb])
    case (new c rp bm rm)
    then show ?thesis using memb_alloc_geometry(1) [of "bufmem empty_qbufs"] q n by auto
  qed (use q n in auto)
  with l show "fst (queuebuf_new_from_packetbuf pb2 (snd (queuebuf_new_from_packetbuf pb empty_qbufs))) \<noteq> NULL"
    using room [of q pb2] q by simp
qed

text \<open>Nodes that have a load, two parents, a waiting message.\<close>

definition loaded_node :: "u32 \<Rightarrow> iot" where
  "loaded_node ld = (node_with [sample_nb node_b 1 0])
     \<lparr>nodes := [\<lparr>str_addr = Malloced [], str_top_addr = Literal ''/'', tn_payload = 0, nhops = 1, tn_load = ld\<rparr>],
      n_hijos_share := 1\<rparr>"

definition parented_node :: iot where
  "parented_node = (node_with [sample_nb node_a 1 1, sample_nb node_b 2 1])\<lparr>nodes := nodes (loaded_node 40)\<rparr>"

lemma parented_node_inv: "node_inv (sample_env b) parented_node"
  unfolding parented_node_def node_inv_frame
  by (rule node_with_inv) (simp_all add: sample_nb_def node_a_def node_b_def)

lemma parented_node_nodes:
  "nodes parented_node = [\<lparr>str_addr = Malloced [], str_top_addr = Literal ''/'', tn_payload = 0, nhops = 1, tn_load = 40\<rparr>]"
  by (simp add: parented_node_def loaded_node_def)

definition queued_node :: iot where
  "queued_node = (node_with [sample_nb node_b 1 1])
     \<lparr>payloads := [\<lparr>pe_ref = 0, pe_payload = le16 5, pe_data_len = 2, pe_dest = node_b\<rparr>], fresh_ref := 1,
      send_sethlmac_timer := Some 10\<rparr>"

lemma queued_node_inv: "node_inv (sample_env b) queued_node"
proof -
  have "node_inv (sample_env b) (node_with [sample_nb node_b 1 1])" by (rule node_with_inv) simp_all
  then show ?thesis
    by (simp add: queued_node_def node_inv_def nb_ok_def pay_ok_def entry_ok_def le16_def PACKETBUF_SIZE_def)
qed

lemma queued_node_payloads: "payloads queued_node = [\<lparr>pe_ref = 0, pe_payload = le16 5, pe_data_len = 2, pe_dest = node_b\<rparr>]"
  by (simp add: queued_node_def)

lemma queued_node_mac [simp]: "mac queued_node = csma_output_init boot_state"
  by (simp add: queued_node_def)

section \<open>Frames\<close>

definition plain_llsec :: llsec where
  "plain_llsec = \<lparr>frame_version_opt = 1, suppr_seqno = 0, uses_aux_header = False, uses_frame_counter = False, uses_explicit_keys = False\<rparr>"

definition secure_llsec :: llsec where
  "secure_llsec = \<lparr>frame_version_opt = 1, suppr_seqno = 0, uses_aux_header = True, uses_frame_counter = True, uses_explicit_keys = False\<rparr>"

definition hello_packet :: packetbuf where
  "hello_packet = packetbuf_set_attr ATTR_MAC_SEQNO 5 (packetbuf_set_addr ADDR_SENDER node_b empty_pktbuf)"

definition secret_packet :: "u16 \<Rightarrow> packetbuf" where
  "secret_packet level = packetbuf_set_attr ATTR_SECURITY_LEVEL level (packetbuf_set_addr ADDR_SENDER node_b
     (packetbuf_set_addr ADDR_RECEIVER node_a (message_buffer [104, 105])))"

definition zero_keys :: llsec_state where
  "zero_keys = \<lparr>counter = 0, keys = [replicate 16 0], round_keys = replicate 11 (replicate 16 0), sec_overrun = False\<rparr>"

lemma node_a_unicast: "linkaddr_bytes node_a \<noteq> replicate 8 0xff"
proof -
  have "hd (linkaddr_bytes node_a) \<noteq> hd (replicate 8 0xff)" by (simp add: node_a_def)
  then show ?thesis by metis
qed

lemma no_dup_of_stranger: "a \<noteq> b \<Longrightarrow> \<not> dup_scan a q now (replicate n \<lparr>sq_sender = b, sq_timestamp = t, sq_seqno = x\<rparr>)"
  by (induction n) simp_all

lemma message_buffer_fields:
  "bufptr (message_buffer data) = 0" "hdrlen (message_buffer data) = 0" "packetbuf_attr (message_buffer data) t = 0"
  "packetbuf_addr (message_buffer data) d = linkaddr_null"
  by (simp_all add: message_buffer_def packetbuf_copyfrom_def packetbuf_clear_def packetbuf_attr_clear_def
      packetbuf_attr_def packetbuf_addr_def Let_def)

lemma hello_packet_ok [simp]:
  "plain_packet plain_llsec hello_packet" "pb_frame hello_packet = []" "packetbuf_addr hello_packet ADDR_SENDER = node_b"
  "packetbuf_addr hello_packet ADDR_RECEIVER = linkaddr_null" "pb_wf hello_packet" "packetbuf_totlen hello_packet = 0"
proof -
  have "pb_frame empty_pktbuf = []" "packetbuf_addr empty_pktbuf ADDR_RECEIVER = linkaddr_null" "packetbuf_totlen empty_pktbuf = 0"
    and a: "packetbuf_attr empty_pktbuf t = 0" for t
    by (simp_all add: empty_pktbuf_def pb_frame_def pb_lengths packetbuf_addr_def packetbuf_attr_def sub_def)
  then show "pb_frame hello_packet = []" "packetbuf_addr hello_packet ADDR_SENDER = node_b" "pb_wf hello_packet"
    "packetbuf_addr hello_packet ADDR_RECEIVER = linkaddr_null" "packetbuf_totlen hello_packet = 0"
    by (simp_all add: hello_packet_def) (simp add: pb_lengths packetbuf_set_addr_def)
  show "plain_packet plain_llsec hello_packet"
    by (simp add: plain_packet_def plain_ok_def attrs_ok_def hello_packet_def plain_llsec_def a)
qed

lemma secret_packet_ok:
  assumes "level = 4 \<or> level = 5"
  shows "framed_ok secure_llsec (secret_packet level) zero_keys" "pb_frame (secret_packet level) = [104, 105]"
    "packetbuf_addr (secret_packet level) ADDR_SENDER = node_b" "packetbuf_addr (secret_packet level) ADDR_RECEIVER = node_a"
    "packetbuf_totlen (secret_packet level) = 2" "packetbuf_attr (secret_packet level) ATTR_SECURITY_LEVEL = level"
    "mic_len (secret_packet 4) = 2" "mic_len (secret_packet 5) = 4"
proof -
  let ?m = "message_buffer [104, 105]"
  have m: "pb_wf ?m" "pb_data ?m = [104, 105]" using message_buffer_ok(1) [of "[104, 105]"] by (simp_all add: PACKETBUF_SIZE_def)
  have "pb_frame ?m = [104, 105]" using pb_frame_split [OF m(1)] pb_wf_lengths(1) [OF m(1)] m(2) by (simp add: pb_header_def message_buffer_fields)
  then show f: "pb_frame (secret_packet level) = [104, 105]" by (simp add: secret_packet_def)
  show "packetbuf_addr (secret_packet level) ADDR_SENDER = node_b" "packetbuf_addr (secret_packet level) ADDR_RECEIVER = node_a"
    "packetbuf_attr (secret_packet level) ATTR_SECURITY_LEVEL = level"
    "mic_len (secret_packet 4) = 2" "mic_len (secret_packet 5) = 4"
    by (simp_all add: secret_packet_def mic_len_def MIC_LEN_def)
  have wf: "pb_wf (secret_packet level)" using m by (simp add: secret_packet_def)
  show "packetbuf_totlen (secret_packet level) = 2" using pb_wf_lengths(4) [OF wf] f by simp
  show "framed_ok secure_llsec (secret_packet level) zero_keys"
    using assms wf message_buffer_fields(3) [of "[104, 105]"] by (auto simp: framed_ok_def secure_llsec_def zero_keys_def llsec_ok_def LLSEC_KEY_INDEX_def attrs_ok_def secret_packet_def)
qed

lemma message_buffer_received:
  assumes "length data \<le> PACKETBUF_SIZE"
  shows "received_frame (message_buffer data)" "packetbuf_addr (message_buffer data) ADDR_RECEIVER = linkaddr_null"
  using message_buffer_ok(1) [OF assms] by (simp_all add: received_frame_def message_buffer_fields)

lemma frame_length: "pb_wf pb \<Longrightarrow> length (pb_frame pb) \<le> PACKETBUF_SIZE"
  using pb_wf_lengths(2,4) [of pb] by (simp add: pb_wf_def)

end
