(* ===== verification/Contiki_Process.thy ===== *)
theory Contiki_Process imports Contiki_List begin

text \<open>
  The process kernel, \<open>os/sys/process.c\<close>: the list of processes with their states and poll
  flags, the ring of queued events, and the calls of the process threads.

  A thread is code of the application. It is a parameter: what it does from one synchronous
  request to the kernel to the next is a function on the whole state, which it may change at
  will (queue events, ask for polls, change its own data); \<open>process_post_synch\<close>,
  \<open>process_start\<close> and \<open>process_exit\<close> run other threads before they return, and appear as
  requests with the code that follows. The state is extensible, so that the services built
  on the kernel and the applications add their own variables.

  The walks along the process list follow the \<open>next\<close> fields as they are at each step, and the
  threads called in a walk may change them: the walks are partial functions.
\<close>

type_synonym event = u8
type_synonym data = nat

datatype pt_ret = PT_WAITING | PT_YIELDED | PT_EXITED | PT_ENDED

record event_data =
  ed_ev :: event
  ed_data :: data
  ed_p :: ptr

record kernel =
  process_list :: ptr
  process_current :: ptr
  lastevent :: event
  nevents :: u8
  fevent :: u8
  events :: "event_data list"
  poll_requested :: u8
  p_next :: "ptr \<Rightarrow> ptr"
  p_state :: "ptr \<Rightarrow> u8"
  p_needspoll :: "ptr \<Rightarrow> u8"
  p_pt :: "ptr \<Rightarrow> nat"

abbreviation (input) PROCESS_STATE_NONE :: u8 where "PROCESS_STATE_NONE \<equiv> 0"
abbreviation (input) PROCESS_STATE_RUNNING :: u8 where "PROCESS_STATE_RUNNING \<equiv> 1"
abbreviation (input) PROCESS_STATE_CALLED :: u8 where "PROCESS_STATE_CALLED \<equiv> 2"

abbreviation (input) PROCESS_EVENT_NONE :: event where "PROCESS_EVENT_NONE \<equiv> 0x80"
abbreviation (input) PROCESS_EVENT_INIT :: event where "PROCESS_EVENT_INIT \<equiv> 0x81"
abbreviation (input) PROCESS_EVENT_POLL :: event where "PROCESS_EVENT_POLL \<equiv> 0x82"
abbreviation (input) PROCESS_EVENT_EXIT :: event where "PROCESS_EVENT_EXIT \<equiv> 0x83"
abbreviation (input) PROCESS_EVENT_EXITED :: event where "PROCESS_EVENT_EXITED \<equiv> 0x87"
abbreviation (input) PROCESS_EVENT_TIMER :: event where "PROCESS_EVENT_TIMER \<equiv> 0x88"
abbreviation (input) PROCESS_EVENT_MAX :: event where "PROCESS_EVENT_MAX \<equiv> 0x8a"

abbreviation (input) PROCESS_ERR_OK :: int where "PROCESS_ERR_OK \<equiv> 0"
abbreviation (input) PROCESS_ERR_FULL :: int where "PROCESS_ERR_FULL \<equiv> 1"
abbreviation (input) PROCESS_NONE :: ptr where "PROCESS_NONE \<equiv> 0"
abbreviation (input) PROCESS_BROADCAST :: ptr where "PROCESS_BROADCAST \<equiv> 0"

text \<open>
  The code of a thread up to its return: it returns, or it asks the kernel for something that
  calls other threads and goes on with the state it finds then.
\<close>

datatype 's code =
    Return pt_ret 's
  | PostSynch ptr event data 's "'s \<Rightarrow> 's code"
  | Start ptr data 's "'s \<Rightarrow> 's code"
  | ExitOf ptr 's "'s \<Rightarrow> 's code"

text \<open>\<open>p->thread\<close>: a process may have none.\<close>

type_synonym 's threads = "ptr \<Rightarrow> (event \<Rightarrow> data \<Rightarrow> 's \<Rightarrow> 's code) option"

section \<open>Events\<close>

definition process_alloc_event :: "'a kernel_scheme \<Rightarrow> event \<times> 'a kernel_scheme" where
  "process_alloc_event s = (lastevent s, s\<lparr>lastevent := lastevent s + 1\<rparr>)"

text \<open>\<open>length (events s)\<close> is \<open>PROCESS_CONF_NUMEVENTS\<close>; the sum is truncated to eight bits before \<open>%\<close>.\<close>

definition process_post :: "ptr \<Rightarrow> event \<Rightarrow> data \<Rightarrow> 'a kernel_scheme \<Rightarrow> int \<times> 'a kernel_scheme" where
  "process_post p ev d s =
     (if unat (nevents s) = length (events s) then (PROCESS_ERR_FULL, s)
      else
        let snum = unat (fevent s + nevents s) mod length (events s)
        in (PROCESS_ERR_OK, s\<lparr>
              events := (events s)[snum := \<lparr>ed_ev = ev, ed_data = d, ed_p = p\<rparr>],
              nevents := nevents s + 1\<rparr>))"

definition process_nevents :: "'a kernel_scheme \<Rightarrow> int" where
  "process_nevents s = int (unat (nevents s)) + int (unat (poll_requested s))"

definition process_is_running :: "ptr \<Rightarrow> 'a kernel_scheme \<Rightarrow> bool" where
  "process_is_running p s = (p_state s p \<noteq> PROCESS_STATE_NONE)"

definition process_poll :: "ptr \<Rightarrow> 'a kernel_scheme \<Rightarrow> 'a kernel_scheme" where
  "process_poll p s =
     (if p \<noteq> NULL \<and> (p_state s p = PROCESS_STATE_RUNNING \<or> p_state s p = PROCESS_STATE_CALLED)
      then s\<lparr>p_needspoll := (p_needspoll s)(p := 1), poll_requested := 1\<rparr> else s)"

definition process_init :: "'a kernel_scheme \<Rightarrow> 'a kernel_scheme" where
  "process_init s = s\<lparr>lastevent := PROCESS_EVENT_MAX, nevents := 0, fevent := 0,
     process_current := NULL, process_list := NULL\<rparr>"

section \<open>Calling threads\<close>

text \<open>The first entry of the list that is \<open>p\<close>; NULL when there is none.\<close>

partial_function (option) find_process :: "(ptr \<Rightarrow> ptr) \<Rightarrow> ptr \<Rightarrow> ptr \<Rightarrow> ptr option" where
  "find_process nx p q = (if q \<noteq> p \<and> q \<noteq> NULL then find_process nx p (nx q) else Some q)"

partial_function (option) unlink_process :: "ptr \<Rightarrow> ptr \<Rightarrow> 'a kernel_scheme \<Rightarrow> 'a kernel_scheme option" where
  "unlink_process p q s =
     (if q = NULL then Some s
      else if p_next s q = p then Some (s\<lparr>p_next := (p_next s)(q := p_next s p)\<rparr>)
      else unlink_process p (p_next s q) s)"

definition remove_process :: "ptr \<Rightarrow> 'a kernel_scheme \<Rightarrow> 'a kernel_scheme option" where
  "remove_process p s =
     (if p = process_list s then Some (s\<lparr>process_list := p_next s (process_list s)\<rparr>)
      else unlink_process p (process_list s) s)"

definition link_process :: "ptr \<Rightarrow> 'a kernel_scheme \<Rightarrow> 'a kernel_scheme" where
  "link_process p s = s\<lparr>p_next := (p_next s)(p := process_list s), process_list := p,
     p_state := (p_state s)(p := PROCESS_STATE_RUNNING), p_pt := (p_pt s)(p := 0)\<rparr>"

text \<open>
  \<open>call_process\<close>, \<open>exit_process\<close>, its loop that informs the other processes, and a thread that
  is running call one another.
\<close>

datatype 's job =
    CallProcess ptr event data 's
  | ExitProcess ptr ptr 's
  | InformExit ptr ptr 's
  | StartProcess ptr data 's
  | Run "'s code"

partial_function (option) kernel_run ::
  "'a kernel_scheme threads \<Rightarrow> 'a kernel_scheme job \<Rightarrow> (pt_ret \<times> 'a kernel_scheme) option" where
  "kernel_run th j = (case j of
     CallProcess p ev d s \<Rightarrow>
       if p_state s p AND PROCESS_STATE_RUNNING \<noteq> 0 \<and> th p \<noteq> None then
         Option.bind (kernel_run th (Run (the (th p) ev d
             (s\<lparr>process_current := p, p_state := (p_state s)(p := PROCESS_STATE_CALLED)\<rparr>))))
           (\<lambda>(ret, s1).
             if ret = PT_EXITED \<or> ret = PT_ENDED \<or> ev = PROCESS_EVENT_EXIT
             then kernel_run th (ExitProcess p p s1)
             else Some (ret, s1\<lparr>p_state := (p_state s1)(p := PROCESS_STATE_RUNNING)\<rparr>))
       else Some (PT_WAITING, s)
   | ExitProcess p fromprocess s \<Rightarrow>
       Option.bind (find_process (p_next s) p (process_list s)) (\<lambda>q.
         if q = NULL then Some (PT_WAITING, s)
         else
           Option.bind
             (if process_is_running p s then
                Option.bind (kernel_run th (InformExit p (process_list s)
                    (s\<lparr>p_state := (p_state s)(p := PROCESS_STATE_NONE)\<rparr>)))
                  (\<lambda>(r, s1).
                    if th p \<noteq> None \<and> p \<noteq> fromprocess
                    then kernel_run th (Run (the (th p) PROCESS_EVENT_EXIT 0
                           (s1\<lparr>process_current := p\<rparr>)))
                    else Some (r, s1))
              else Some (PT_WAITING, s))
             (\<lambda>(r, s2). Option.bind (remove_process p s2) (\<lambda>s3.
               Some (r, s3\<lparr>process_current := process_current s\<rparr>))))
   | InformExit p q s \<Rightarrow>
       if q = NULL then Some (PT_WAITING, s)
       else if p \<noteq> q then
         Option.bind (kernel_run th (CallProcess q PROCESS_EVENT_EXITED p s))
           (\<lambda>(r, s1). kernel_run th (InformExit p (p_next s1 q) s1))
       else kernel_run th (InformExit p (p_next s q) s)
   | StartProcess p d s \<Rightarrow>
       Option.bind (find_process (p_next s) p (process_list s)) (\<lambda>q.
         if q = p then Some (PT_WAITING, s)
         else
           Option.bind (kernel_run th (CallProcess p PROCESS_EVENT_INIT d (link_process p s)))
             (\<lambda>(r, s1). Some (r, s1\<lparr>process_current := process_current s\<rparr>)))
   | Run c \<Rightarrow> (case c of
       Return ret s \<Rightarrow> Some (ret, s)
     | PostSynch p ev d s k \<Rightarrow>
         Option.bind (kernel_run th (CallProcess p ev d s))
           (\<lambda>(r, s1). kernel_run th (Run (k (s1\<lparr>process_current := process_current s\<rparr>))))
     | Start p d s k \<Rightarrow>
         Option.bind (kernel_run th (StartProcess p d s)) (\<lambda>(r, s1). kernel_run th (Run (k s1)))
     | ExitOf p s k \<Rightarrow>
         Option.bind (kernel_run th (ExitProcess p (process_current s) s))
           (\<lambda>(r, s1). kernel_run th (Run (k s1)))))"

definition call_process ::
  "'a kernel_scheme threads \<Rightarrow> ptr \<Rightarrow> event \<Rightarrow> data \<Rightarrow> 'a kernel_scheme \<Rightarrow> 'a kernel_scheme option" where
  "call_process th p ev d s = map_option snd (kernel_run th (CallProcess p ev d s))"

definition exit_process ::
  "'a kernel_scheme threads \<Rightarrow> ptr \<Rightarrow> ptr \<Rightarrow> 'a kernel_scheme \<Rightarrow> 'a kernel_scheme option" where
  "exit_process th p fromprocess s = map_option snd (kernel_run th (ExitProcess p fromprocess s))"

definition process_start ::
  "'a kernel_scheme threads \<Rightarrow> ptr \<Rightarrow> data \<Rightarrow> 'a kernel_scheme \<Rightarrow> 'a kernel_scheme option" where
  "process_start th p d s = map_option snd (kernel_run th (StartProcess p d s))"

definition process_exit ::
  "'a kernel_scheme threads \<Rightarrow> ptr \<Rightarrow> 'a kernel_scheme \<Rightarrow> 'a kernel_scheme option" where
  "process_exit th p s = exit_process th p (process_current s) s"

definition process_post_synch ::
  "'a kernel_scheme threads \<Rightarrow> ptr \<Rightarrow> event \<Rightarrow> data \<Rightarrow> 'a kernel_scheme \<Rightarrow> 'a kernel_scheme option" where
  "process_post_synch th p ev d s =
     map_option (\<lambda>s1. s1\<lparr>process_current := process_current s\<rparr>) (call_process th p ev d s)"

section \<open>The main loop\<close>

partial_function (option) poll_walk ::
  "'a kernel_scheme threads \<Rightarrow> ptr \<Rightarrow> 'a kernel_scheme \<Rightarrow> 'a kernel_scheme option" where
  "poll_walk th p s =
     (if p = NULL then Some s
      else if p_needspoll s p \<noteq> 0 then
        Option.bind (call_process th p PROCESS_EVENT_POLL 0
            (s\<lparr>p_state := (p_state s)(p := PROCESS_STATE_RUNNING), p_needspoll := (p_needspoll s)(p := 0)\<rparr>))
          (\<lambda>s1. poll_walk th (p_next s1 p) s1)
      else poll_walk th (p_next s p) s)"

definition do_poll :: "'a kernel_scheme threads \<Rightarrow> 'a kernel_scheme \<Rightarrow> 'a kernel_scheme option" where
  "do_poll th s = (let s1 = s\<lparr>poll_requested := 0\<rparr> in poll_walk th (process_list s1) s1)"

partial_function (option) broadcast_walk ::
  "'a kernel_scheme threads \<Rightarrow> event \<Rightarrow> data \<Rightarrow> ptr \<Rightarrow> 'a kernel_scheme \<Rightarrow> 'a kernel_scheme option" where
  "broadcast_walk th ev d p s =
     (if p = NULL then Some s
      else
        Option.bind (if poll_requested s \<noteq> 0 then do_poll th s else Some s) (\<lambda>s1.
        Option.bind (call_process th p ev d s1) (\<lambda>s2.
          broadcast_walk th ev d (p_next s2 p) s2)))"

definition take_event :: "'a kernel_scheme \<Rightarrow> event_data \<times> 'a kernel_scheme" where
  "take_event s = (events s ! unat (fevent s),
     s\<lparr>fevent := of_nat ((unat (fevent s) + 1) mod length (events s)), nevents := nevents s - 1\<rparr>)"

definition do_event :: "'a kernel_scheme threads \<Rightarrow> 'a kernel_scheme \<Rightarrow> 'a kernel_scheme option" where
  "do_event th s =
     (if 0 < nevents s then
        let (e, s1) = take_event s
        in if ed_p e = PROCESS_BROADCAST then broadcast_walk th (ed_ev e) (ed_data e) (process_list s1) s1
           else call_process th (ed_p e) (ed_ev e) (ed_data e)
                  (if ed_ev e = PROCESS_EVENT_INIT
                   then s1\<lparr>p_state := (p_state s1)(ed_p e := PROCESS_STATE_RUNNING)\<rparr> else s1)
      else Some s)"

definition process_run :: "'a kernel_scheme threads \<Rightarrow> 'a kernel_scheme \<Rightarrow> (int \<times> 'a kernel_scheme) option" where
  "process_run th s =
     Option.bind (if poll_requested s \<noteq> 0 then do_poll th s else Some s) (\<lambda>s1.
     Option.bind (do_event th s1) (\<lambda>s2. Some (process_nevents s2, s2)))"

end
