(* ===== verification/Bounded_Fifo.thy ===== *)
theory Bounded_Fifo imports Prelude begin

text \<open>
  What a bounded queue promises, as an interface: \<open>put\<close> stores an element at the end or
  refuses it and changes nothing, \<open>get\<close> takes the oldest element, and no more than \<open>cap\<close>
  elements are held. The event queue of the kernel and the ring buffers of the library keep
  this contract. What every such queue does over a whole run of operations is proved here once.
\<close>

text \<open>Two positions of a ring less than a full turn apart are different places.\<close>

lemma ring_slot_inj: "a < N \<Longrightarrow> b < N \<Longrightarrow> (f + a) mod N = (f + b) mod N \<longleftrightarrow> a = (b :: nat)"
proof -
  have "a = b" if "a \<le> b" "b < N" "(f + a) mod N = (f + b) mod N" for a b :: nat
  proof -
    have "N dvd (f + b) - (f + a)" using that(3) by (metis mod_eq_dvd_iff_nat add_le_mono le_refl that(1))
    then have "N dvd b - a" by simp
    moreover have "b - a < N" using that by linarith
    ultimately have "b - a = 0" using nat_dvd_not_less by blast
    with that show ?thesis by simp
  qed
  then show "a < N \<Longrightarrow> b < N \<Longrightarrow> ?thesis" by (metis nat_le_linear)
qed

datatype 'e fifo_op = Put 'e | Get

text \<open>A run: the elements \<open>put\<close> accepted, the elements \<open>get\<close> returned, and the final state.\<close>

fun fifo_run :: "('e \<Rightarrow> 's \<Rightarrow> bool \<times> 's) \<Rightarrow> ('s \<Rightarrow> ('e \<times> 's) option) \<Rightarrow> 'e fifo_op list \<Rightarrow> 's
    \<Rightarrow> 'e list \<times> 'e list \<times> 's" where
  "fifo_run put get [] s = ([], [], s)"
| "fifo_run put get (Put e # ops) s =
     (let (stored, s1) = put e s; (acc, out, s2) = fifo_run put get ops s1
      in (if stored then e # acc else acc, out, s2))"
| "fifo_run put get (Get # ops) s =
     (case get s of None \<Rightarrow> fifo_run put get ops s
      | Some (e, s1) \<Rightarrow> (let (acc, out, s2) = fifo_run put get ops s1 in (acc, e # out, s2)))"

locale bounded_fifo =
  fixes ok :: "'s \<Rightarrow> bool"
    and items :: "'s \<Rightarrow> 'e list"
    and cap :: "'s \<Rightarrow> nat"
    and put :: "'e \<Rightarrow> 's \<Rightarrow> bool \<times> 's"
    and get :: "'s \<Rightarrow> ('e \<times> 's) option"
  assumes put_ok: "ok s \<Longrightarrow> put e s = (b, s') \<Longrightarrow> ok s' \<and> cap s' = cap s"
    and put_room: "ok s \<Longrightarrow> length (items s) < cap s \<Longrightarrow> put e s = (b, s') \<Longrightarrow> b \<and> items s' = items s @ [e]"
    and put_full: "ok s \<Longrightarrow> length (items s) = cap s \<Longrightarrow> put e s = (False, s)"
    and get_empty: "ok s \<Longrightarrow> items s = [] \<Longrightarrow> get s = None"
    and get_some: "ok s \<Longrightarrow> items s \<noteq> [] \<Longrightarrow>
      \<exists>s'. get s = Some (hd (items s), s') \<and> ok s' \<and> cap s' = cap s \<and> items s' = tl (items s)"
    and bounded: "ok s \<Longrightarrow> length (items s) \<le> cap s"
begin

lemma put_accepts: "ok s \<Longrightarrow> fst (put e s) \<longleftrightarrow> length (items s) < cap s"
  using put_room [of s e "fst (put e s)" "snd (put e s)"] put_full [of s e] bounded [of s]
  by (cases "length (items s) < cap s") auto

lemma put_items:
  "ok s \<Longrightarrow> put e s = (b, s') \<Longrightarrow> items s' = items s @ (if b then [e] else []) \<and> ok s' \<and> cap s' = cap s"
  using put_room [of s e b s'] put_full [of s e] put_ok [of s e b s'] bounded [of s]
  by (cases "length (items s) < cap s") auto

text \<open>Nothing is lost, made up or reordered, and the bound is kept.\<close>

lemma run_conserves:
  assumes "ok s" "fifo_run put get ops s = (acc, out, s')"
  shows "items s @ acc = out @ items s' \<and> ok s' \<and> cap s' = cap s \<and> length (items s') \<le> cap s"
  using assms
proof (induction ops arbitrary: s acc out)
  case Nil
  then show ?case using bounded by auto
next
  case (Cons a ops)
  show ?case
  proof (cases a)
    case (Put e)
    obtain b s1 where p: "put e s = (b, s1)" by (metis prod.exhaust)
    from put_items [OF Cons.prems(1) p] Cons.IH [of s1] Cons.prems(2) p Put show ?thesis
      by (cases b) (auto split: prod.splits)
  next
    case Get
    show ?thesis
    proof (cases "items s = []")
      case True
      with Get Cons.prems Cons.IH [of s acc out] show ?thesis using get_empty [of s] by auto
    next
      case False
      then obtain s1 where "get s = Some (hd (items s), s1)" "ok s1" "cap s1 = cap s" "items s1 = tl (items s)"
        using get_some Cons.prems(1) by blast
      with Cons.IH [of s1] Cons.prems(2) Get False show ?thesis
        by (auto split: prod.splits) (metis append_Cons hd_Cons_tl)
    qed
  qed
qed

text \<open>Filling an empty queue: exactly the first \<open>cap\<close> elements are kept, in order.\<close>

lemma fill_keeps_prefix:
  assumes "ok s" "items s = []"
  shows "items (snd (snd (fifo_run put get (map Put es) s))) = take (cap s) es"
proof -
  have "items (snd (snd (fifo_run put get (map Put es) t))) = items t @ take (cap t - length (items t)) es"
    if "ok t" for t
    using that
  proof (induction es arbitrary: t)
    case Nil
    then show ?case by simp
  next
    case (Cons e es)
    obtain b t1 where p: "put e t = (b, t1)" by (metis prod.exhaust)
    note q = put_items [OF Cons.prems p] put_accepts [OF Cons.prems, of e] bounded [OF Cons.prems]
    from q p Cons.IH [of t1] show ?case
      by (cases "cap t - length (items t)") (auto split: prod.splits intro!: arg_cong [where f = "\<lambda>n. take n es"])
  qed
  from this [of s] assms show ?thesis by simp
qed

end

end
