(* ===== verification/Process_Queue.thy ===== *)
theory Process_Queue imports Contiki_Process Bounded_Fifo begin

text \<open>
  The event queue of the kernel: as long as the ring has at most 128 places, which keeps the
  index computation within eight bits, \<open>process_post\<close> and the first half of \<open>do_event\<close>
  implement a bounded first-in first-out queue. A larger ring is shown to lose events.
\<close>

text \<open>The queued events, oldest first.\<close>

definition event_queue :: "'a kernel_scheme \<Rightarrow> event_data list" where
  "event_queue s = map (\<lambda>i. events s ! ((unat (fevent s) + i) mod length (events s))) [0..<unat (nevents s)]"

definition ring_wf :: "'a kernel_scheme \<Rightarrow> bool" where
  "ring_wf s \<longleftrightarrow> 0 < length (events s) \<and> length (events s) \<le> 128 \<and>
     unat (nevents s) \<le> length (events s) \<and> unat (fevent s) < length (events s)"

lemma length_pending [simp]: "length (event_queue s) = unat (nevents s)"
  by (simp add: event_queue_def)

lemma event_queue_cong:
  "events s' = events s \<Longrightarrow> fevent s' = fevent s \<Longrightarrow> nevents s' = nevents s \<Longrightarrow> event_queue s' = event_queue s"
  by (simp add: event_queue_def)

lemma unat_slot:
  assumes "ring_wf s" "unat (nevents s) < length (events s)"
  shows "unat (fevent s + nevents s) = unat (fevent s) + unat (nevents s)"
  using assms by (auto simp: ring_wf_def unat_word_ariths)

lemma unat_nevents_Suc:
  assumes "ring_wf s" "unat (nevents s) < length (events s)"
  shows "unat (nevents s + 1) = Suc (unat (nevents s))"
  using assms by (auto simp: ring_wf_def unat_word_ariths)

lemma process_post_stores:
  assumes "ring_wf s" "unat (nevents s) < length (events s)" "process_post p ev d s = (r, s')"
  shows "r = PROCESS_ERR_OK \<and> event_queue s' = event_queue s @ [\<lparr>ed_ev = ev, ed_data = d, ed_p = p\<rparr>]"
proof -
  define N f n where "N = length (events s)" and "f = unat (fevent s)" and "n = unat (nevents s)"
  have N: "n < N" "f < N" using assms(1,2) by (auto simp: ring_wf_def N_def f_def n_def)
  have s': "r = 0" "events s' = (events s)[(f + n) mod N := \<lparr>ed_ev = ev, ed_data = d, ed_p = p\<rparr>]"
    "unat (nevents s') = Suc n" "fevent s' = fevent s"
    using assms(2,3) unat_slot [OF assms(1,2)] unat_nevents_Suc [OF assms(1,2)]
    by (auto simp: process_post_def Let_def N_def f_def n_def)
  have "(f + n) mod N < length (events s)"
    using N mod_less_divisor [of N "f + n"] unfolding N_def by linarith
  moreover have "(f + n) mod N \<noteq> (f + i) mod N" if "i < n" for i
    using ring_slot_inj [of n N i f] N that by auto
  ultimately show ?thesis
    using s' by (simp add: event_queue_def f_def [symmetric] N_def [symmetric] n_def [symmetric])
qed

lemma process_post_full:
  "unat (nevents s) = length (events s) \<Longrightarrow> process_post p ev d s = (PROCESS_ERR_FULL, s)"
  by (simp add: process_post_def)

lemma process_post_wf [step_inv]:
  assumes "ring_wf s"
  shows "ring_wf (snd (process_post p ev d s))" "length (events (snd (process_post p ev d s))) = length (events s)"
  using assms unat_nevents_Suc [OF assms]
  by (auto simp: process_post_def ring_wf_def Let_def)

lemma process_post_frame [simp]:
  "process_list (snd (process_post p ev d s)) = process_list s"
  "process_current (snd (process_post p ev d s)) = process_current s"
  "p_next (snd (process_post p ev d s)) = p_next s"
  "p_state (snd (process_post p ev d s)) = p_state s"
  "p_needspoll (snd (process_post p ev d s)) = p_needspoll s"
  "p_pt (snd (process_post p ev d s)) = p_pt s"
  "poll_requested (snd (process_post p ev d s)) = poll_requested s"
  "fevent (snd (process_post p ev d s)) = fevent s"
  by (simp_all add: process_post_def Let_def)

lemma take_event_pending:
  assumes "ring_wf s" "0 < nevents s" "take_event s = (e, s')"
  shows "event_queue s = e # event_queue s' \<and> ring_wf s' \<and> length (events s') = length (events s)"
proof -
  define N f where "N = length (events s)" and "f = unat (fevent s)"
  obtain n where n: "unat (nevents s) = Suc n"
    using assms(2) by (metis not0_implies_Suc unat_0 word_less_nat_alt less_nat_zero_code)
  have N: "f < N" "N \<le> 128" "Suc n \<le> N" using assms(1) n by (auto simp: ring_wf_def N_def f_def)
  have "unat (nevents s - 1) = n" using n assms(2) by (simp add: unat_minus_one word_gt_0)
  moreover have "unat (of_nat ((f + 1) mod N) :: u8) = (f + 1) mod N"
  proof -
    have "(f + 1) mod N < 256" using N mod_less_divisor [of N "f + 1"] by linarith
    then show ?thesis by (simp add: unat_of_nat)
  qed
  ultimately have s': "e = events s ! f" "events s' = events s" "unat (nevents s') = n"
    "unat (fevent s') = (f + 1) mod N"
    using assms(3) by (auto simp: take_event_def f_def N_def)
  have "event_queue s = map (\<lambda>i. events s ! ((f + i) mod N)) (0 # map Suc [0..<n])"
    unfolding event_queue_def n f_def [symmetric] N_def [symmetric] by (simp add: upt_conv_Cons map_Suc_upt del: upt_Suc)
  also have "\<dots> = e # event_queue s'"
    using N s' by (simp add: event_queue_def N_def [symmetric] comp_def mod_simps)
  finally show ?thesis using N s' assms(1) by (auto simp: ring_wf_def N_def)
qed

section \<open>The queue contract\<close>

definition post_event :: "event_data \<Rightarrow> 'a kernel_scheme \<Rightarrow> bool \<times> 'a kernel_scheme" where
  "post_event e s = (let (r, s') = process_post (ed_p e) (ed_ev e) (ed_data e) s in (r = PROCESS_ERR_OK, s'))"

definition next_event :: "'a kernel_scheme \<Rightarrow> (event_data \<times> 'a kernel_scheme) option" where
  "next_event s = (if 0 < nevents s then Some (take_event s) else None)"

lemma nevents_zero: "ring_wf s \<Longrightarrow> event_queue s = [] \<longleftrightarrow> nevents s = 0"
  by (metis length_pending length_0_conv unat_eq_zero)

interpretation ev: bounded_fifo ring_wf event_queue "\<lambda>s. length (events s)" post_event next_event
proof
  fix s s' :: "'a kernel_scheme" and e b
  assume "ring_wf s" "post_event e s = (b, s')"
  then show "ring_wf s' \<and> length (events s') = length (events s)"
    using process_post_wf [of s "ed_p e" "ed_ev e" "ed_data e"]
    by (auto simp: post_event_def split: prod.splits)
next
  fix s s' :: "'a kernel_scheme" and e b
  assume "ring_wf s" "length (event_queue s) < length (events s)" "post_event e s = (b, s')"
  then show "b \<and> event_queue s' = event_queue s @ [e]"
    using process_post_stores by (fastforce simp: post_event_def split: prod.splits)
next
  fix s :: "'a kernel_scheme" and e
  assume "length (event_queue s) = length (events s)"
  then show "post_event e s = (False, s)" by (simp add: post_event_def process_post_full)
next
  fix s :: "'a kernel_scheme"
  assume "ring_wf s" "event_queue s = []"
  then show "next_event s = None" by (simp add: next_event_def nevents_zero)
next
  fix s :: "'a kernel_scheme"
  assume s: "ring_wf s" "event_queue s \<noteq> []"
  then have "0 < nevents s" by (simp add: nevents_zero word_gt_0)
  with take_event_pending [OF s(1) this] show "\<exists>s'. next_event s = Some (hd (event_queue s), s') \<and> ring_wf s' \<and>
      length (events s') = length (events s) \<and> event_queue s' = tl (event_queue s)"
    by (cases "take_event s") (auto simp: next_event_def)
next
  fix s :: "'a kernel_scheme"
  assume "ring_wf s"
  then show "length (event_queue s) \<le> length (events s)" by (simp add: ring_wf_def)
qed

section \<open>A ring of more than 128 places\<close>

text \<open>
  With 200 places, of which the first event_queue is the last one, and 100 events queued, the next
  event belongs at place 99. The sum 199 + 100 is truncated to 43, and the event overwrites the
  one that waits at place 43.
\<close>

definition big_ring :: "event_data list \<Rightarrow> kernel \<Rightarrow> bool" where
  "big_ring evs s \<longleftrightarrow> length evs = 200 \<and> events s = evs \<and> fevent s = 199 \<and> nevents s = 100"

lemma big_ring_overwrites:
  assumes "big_ring evs s"
  shows "events (snd (process_post p ev d s)) = evs[43 := \<lparr>ed_ev = ev, ed_data = d, ed_p = p\<rparr>]"
    and "event_queue s ! 44 = evs ! 43"
  using assms by (simp_all add: big_ring_def process_post_def event_queue_def Let_def)

section \<open>Event numbers\<close>

text \<open>The numbers \<open>process_alloc_event\<close> returns on successive calls.\<close>

fun alloc_events :: "nat \<Rightarrow> 'a kernel_scheme \<Rightarrow> event list" where
  "alloc_events 0 s = []"
| "alloc_events (Suc n) s = (let (e, s') = process_alloc_event s in e # alloc_events n s')"

lemma alloc_events_eq: "alloc_events n s = map (\<lambda>i. lastevent s + of_nat i) [0..<n]"
proof (induction n arbitrary: s)
  case (Suc n)
  have "[0..<Suc n] = 0 # map Suc [0..<n]" by (simp add: upt_conv_Cons map_Suc_upt)
  then show ?case by (simp only:) (simp add: process_alloc_event_def Suc comp_def ac_simps)
qed simp

end
