(* ===== verification/Process_Delivery.thy ===== *)
theory Process_Delivery imports Process_Runs begin

text \<open>
  What a pass of the main loop does when the threads it calls only work on their own data,
  queue events and ask for polls, and then wait (\<open>calm\<close> threads): the pass returns, a
  broadcast reaches every listed process in list order, a process that exits is announced to
  every other process, gets its own exit event and leaves the list.
\<close>

section \<open>Calm threads\<close>

primrec code_state :: "'s code \<Rightarrow> 's" where
  "code_state (Return r s) = s"
| "code_state (PostSynch p ev d s k) = s"
| "code_state (Start p d s k) = s"
| "code_state (ExitOf p s k) = s"

definition waits :: "'a kernel_scheme \<Rightarrow> 'a kernel_scheme code \<Rightarrow> bool" where
  "waits s c \<longleftrightarrow> (\<exists>r s'. c = Return r s' \<and> r \<noteq> PT_EXITED \<and> r \<noteq> PT_ENDED \<and>
     process_list s' = process_list s \<and> p_next s' = p_next s \<and> p_state s' = p_state s)"

definition calm :: "'a kernel_scheme threads \<Rightarrow> ptr \<Rightarrow> bool" where
  "calm th p \<longleftrightarrow> (\<forall>f ev d s. th p = Some f \<longrightarrow> waits s (f ev d s))"

text \<open>The effect of one call of a calm thread.\<close>

definition deliver ::
  "'a kernel_scheme threads \<Rightarrow> event \<Rightarrow> data \<Rightarrow> ptr \<Rightarrow> 'a kernel_scheme \<Rightarrow> 'a kernel_scheme" where
  "deliver th ev d p s =
     (if p_state s p AND PROCESS_STATE_RUNNING \<noteq> 0 \<and> th p \<noteq> None then
        let s1 = code_state (the (th p) ev d
              (s\<lparr>process_current := p, p_state := (p_state s)(p := PROCESS_STATE_CALLED)\<rparr>))
        in s1\<lparr>p_state := (p_state s1)(p := PROCESS_STATE_RUNNING)\<rparr>
      else s)"

lemma calm_run:
  assumes "calm th p" "th p = Some f"
  shows "\<exists>r. kernel_run th (Run (f ev d s)) = Some (r, code_state (f ev d s)) \<and> r \<noteq> PT_EXITED \<and> r \<noteq> PT_ENDED"
    and "process_list (code_state (f ev d s)) = process_list s"
    and "p_next (code_state (f ev d s)) = p_next s"
    and "p_state (code_state (f ev d s)) = p_state s"
proof -
  have "waits s (f ev d s)" using assms by (simp add: calm_def)
  then obtain r s' where "f ev d s = Return r s'" "r \<noteq> PT_EXITED" "r \<noteq> PT_ENDED"
    "process_list s' = process_list s" "p_next s' = p_next s" "p_state s' = p_state s"
    unfolding waits_def by blast
  then show "\<exists>r. kernel_run th (Run (f ev d s)) = Some (r, code_state (f ev d s)) \<and> r \<noteq> PT_EXITED \<and> r \<noteq> PT_ENDED"
    and "process_list (code_state (f ev d s)) = process_list s"
    and "p_next (code_state (f ev d s)) = p_next s"
    and "p_state (code_state (f ev d s)) = p_state s"
    by (simp_all add: kernel_run.simps)
qed

lemma calm_call:
  assumes "calm th p" "ev \<noteq> PROCESS_EVENT_EXIT"
  shows "\<exists>r. kernel_run th (CallProcess p ev d s) = Some (r, deliver th ev d p s)"
proof (cases "p_state s p AND 1 \<noteq> 0 \<and> th p \<noteq> None")
  case True
  then obtain f where f: "th p = Some f" by blast
  define t where "t = s\<lparr>process_current := p, p_state := (p_state s)(p := 2)\<rparr>"
  obtain r where "kernel_run th (Run (f ev d t)) = Some (r, code_state (f ev d t))" "r \<noteq> PT_EXITED" "r \<noteq> PT_ENDED"
    using calm_run(1) [OF assms(1) f] by blast
  with True f assms(2) show ?thesis
    by (subst kernel_run.simps) (simp add: deliver_def Let_def t_def [symmetric])
next
  case False
  then show ?thesis by (subst kernel_run.simps) (auto simp: deliver_def)
qed

lemma call_process_calm:
  "calm th p \<Longrightarrow> ev \<noteq> PROCESS_EVENT_EXIT \<Longrightarrow> call_process th p ev d s = Some (deliver th ev d p s)"
  using calm_call [of th p ev d s] by (auto simp: call_process_def)

lemma deliver_frame [simp]:
  assumes "calm th p"
  shows "process_list (deliver th ev d p s) = process_list s" "p_next (deliver th ev d p s) = p_next s"
    "q \<noteq> p \<Longrightarrow> p_state (deliver th ev d p s) q = p_state s q"
    "p_state s p = 1 \<Longrightarrow> p_state (deliver th ev d p s) p = 1"
  using calm_run(2-4) [OF assms] by (auto simp: deliver_def Let_def)

section \<open>Polls and broadcasts\<close>

text \<open>One place of the poll walk.\<close>

definition poll_step :: "'a kernel_scheme threads \<Rightarrow> ptr \<Rightarrow> 'a kernel_scheme \<Rightarrow> 'a kernel_scheme" where
  "poll_step th p s =
     (if p_needspoll s p \<noteq> 0
      then deliver th PROCESS_EVENT_POLL 0 p
        (s\<lparr>p_state := (p_state s)(p := PROCESS_STATE_RUNNING), p_needspoll := (p_needspoll s)(p := 0)\<rparr>)
      else s)"

lemma poll_step_frame [simp]:
  assumes "calm th p"
  shows "process_list (poll_step th p s) = process_list s" "p_next (poll_step th p s) = p_next s"
    "q \<noteq> p \<Longrightarrow> p_state (poll_step th p s) q = p_state s q"
    "p_state s p = 1 \<Longrightarrow> p_state (poll_step th p s) p = 1"
  using assms by (auto simp: poll_step_def)

lemma poll_walk_calm:
  assumes "lpath nx p ps" "nx = p_next s" "\<forall>q \<in> set ps. calm th q"
  shows "poll_walk th p s = Some (fold (poll_step th) ps s)"
  using assms
proof (induction ps arbitrary: p s)
  case Nil
  then show ?case by (subst poll_walk.simps) simp
next
  case (Cons x xs)
  then have "poll_walk th p s = poll_walk th (p_next (poll_step th x s) x) (poll_step th x s)"
    by (subst poll_walk.simps) (auto simp: call_process_calm poll_step_def)
  also have "\<dots> = Some (fold (poll_step th) xs (poll_step th x s))"
    using Cons.prems by (intro Cons.IH) auto
  finally show ?case by simp
qed

lemma do_poll_calm:
  assumes "procs_path s ps" "\<forall>q \<in> set ps. calm th q"
  shows "do_poll th s = Some (fold (poll_step th) ps (s\<lparr>poll_requested := 0\<rparr>))"
  using assms by (auto simp: do_poll_def procs_path_def intro!: poll_walk_calm)

lemma fold_poll_frame:
  assumes "\<forall>q \<in> set ps. calm th q"
  shows "process_list (fold (poll_step th) ps s) = process_list s"
    and "p_next (fold (poll_step th) ps s) = p_next s"
  using assms by (induction ps arbitrary: s) auto

definition poll_now :: "'a kernel_scheme threads \<Rightarrow> ptr list \<Rightarrow> 'a kernel_scheme \<Rightarrow> 'a kernel_scheme" where
  "poll_now th ps s =
     (if poll_requested s \<noteq> 0 then fold (poll_step th) ps (s\<lparr>poll_requested := 0\<rparr>) else s)"

lemma poll_now_frame [simp]:
  assumes "\<forall>q \<in> set ps. calm th q"
  shows "process_list (poll_now th ps s) = process_list s" "p_next (poll_now th ps s) = p_next s"
  using fold_poll_frame [OF assms] by (auto simp: poll_now_def)

lemma poll_now_eq:
  assumes "procs_path s ps" "\<forall>q \<in> set ps. calm th q"
  shows "(if poll_requested s \<noteq> 0 then do_poll th s else Some s) = Some (poll_now th ps s)"
  using do_poll_calm [OF assms] by (simp add: poll_now_def)

text \<open>A broadcast: the pending polls first, then the event, for each process in turn.\<close>

lemma broadcast_walk_calm:
  assumes "lpath (p_next s) p qs" "procs_path s ps" "set qs \<subseteq> set ps" "\<forall>q \<in> set ps. calm th q"
    and "ev \<noteq> PROCESS_EVENT_EXIT"
  shows "broadcast_walk th ev d p s = Some (fold (\<lambda>q s. deliver th ev d q (poll_now th ps s)) qs s)"
  using assms(1-3)
proof (induction qs arbitrary: p s)
  case Nil
  then show ?case by (subst broadcast_walk.simps) simp
next
  case (Cons x xs)
  then have x: "p = x" "x \<noteq> NULL" "x \<in> set ps" "lpath (p_next s) (p_next s x) xs" by auto
  let ?t = "deliver th ev d x (poll_now th ps s)"
  have frame: "process_list ?t = process_list s" "p_next ?t = p_next s" using assms(4) x(3) by auto
  have "broadcast_walk th ev d p s = broadcast_walk th ev d (p_next ?t x) ?t"
    using x assms(4,5) poll_now_eq [OF Cons.prems(2) assms(4)]
    by (subst broadcast_walk.simps) (simp add: call_process_calm)
  also have "\<dots> = Some (fold (\<lambda>q s. deliver th ev d q (poll_now th ps s)) xs ?t)"
    using Cons.prems x frame by (intro Cons.IH) (auto simp: procs_path_def)
  finally show ?case by simp
qed

text \<open>Every process of the list is called exactly once, in list order.\<close>

lemma broadcast_walk_no_polls:
  assumes "procs_path s ps" "\<forall>q \<in> set ps. calm th q" "ev \<noteq> PROCESS_EVENT_EXIT"
    and "poll_requested s = 0" "\<forall>q \<in> set ps. \<forall>t. poll_requested t = 0 \<longrightarrow> poll_requested (deliver th ev d q t) = 0"
  shows "broadcast_walk th ev d (process_list s) s = Some (fold (deliver th ev d) ps s)"
proof -
  have "fold (\<lambda>q s. deliver th ev d q (poll_now th ps s)) qs t = fold (deliver th ev d) qs t"
    if "set qs \<subseteq> set ps" "poll_requested t = 0" for qs t
    using that assms(5) by (induction qs arbitrary: t) (auto simp: poll_now_def)
  with assms(1,4) broadcast_walk_calm [OF _ assms(1) subset_refl assms(2,3)] show ?thesis
    by (simp add: procs_path_def)
qed

text \<open>One queued event, to everybody or to one process.\<close>

definition dispatch :: "'a kernel_scheme threads \<Rightarrow> ptr list \<Rightarrow> event_data \<Rightarrow> 'a kernel_scheme \<Rightarrow> 'a kernel_scheme" where
  "dispatch th ps e s =
     (if ed_p e = PROCESS_BROADCAST
      then fold (\<lambda>q s. deliver th (ed_ev e) (ed_data e) q (poll_now th ps s)) ps s
      else deliver th (ed_ev e) (ed_data e) (ed_p e)
        (if ed_ev e = PROCESS_EVENT_INIT
         then s\<lparr>p_state := (p_state s)(ed_p e := PROCESS_STATE_RUNNING)\<rparr> else s))"

lemma do_event_calm:
  assumes "ring_wf s" "procs_path s ps" "\<forall>q. calm th q" "event_queue s = e # es" "ed_ev e \<noteq> PROCESS_EVENT_EXIT"
  shows "do_event th s = Some (dispatch th ps e (snd (take_event s))) \<and> event_queue (snd (take_event s)) = es"
proof -
  have n: "0 < nevents s" using assms(1,4) nevents_zero [of s] by (auto simp: word_gt_0)
  obtain e' s1 where t: "take_event s = (e', s1)" by (metis prod.exhaust)
  with take_event_pending [OF assms(1) n] assms(4) have e: "e' = e" "event_queue s1 = es" by auto
  have "procs_path s1 ps" using t assms(2) by (auto simp: take_event_def procs_path_def)
  then have "broadcast_walk th ev d (process_list s1) s1 =
      Some (fold (\<lambda>q s. deliver th ev d q (poll_now th ps s)) ps s1)" if "ev \<noteq> 0x83" for ev d
    using assms(3) that by (intro broadcast_walk_calm) (auto simp: procs_path_def)
  with t e n assms(3,5) show ?thesis
    by (simp add: do_event_def dispatch_def call_process_calm)
qed

text \<open>A pass of the main loop returns: the polls, then the oldest event.\<close>

lemma process_run_calm:
  assumes "procs_path s ps" "\<forall>q. calm th q" "ring_wf (poll_now th ps s)"
    and "\<forall>e es. event_queue (poll_now th ps s) = e # es \<longrightarrow> ed_ev e \<noteq> PROCESS_EVENT_EXIT"
  shows "process_run th s = Some (let s1 = poll_now th ps s;
      s2 = (case event_queue s1 of [] \<Rightarrow> s1 | e # es \<Rightarrow> dispatch th ps e (snd (take_event s1)))
    in (process_nevents s2, s2))"
proof -
  have calms: "\<forall>q \<in> set ps. calm th q" using assms(2) by simp
  define s1 where "s1 = poll_now th ps s"
  have path: "procs_path s1 ps" using assms(1) calms by (simp add: procs_path_def s1_def)
  have run: "process_run th s = Option.bind (do_event th s1) (\<lambda>s2. Some (process_nevents s2, s2))"
    using poll_now_eq [OF assms(1) calms] by (simp add: process_run_def s1_def)
  show ?thesis
  proof (cases "event_queue s1")
    case Nil
    then have "do_event th s1 = Some s1"
      using nevents_zero [of s1] assms(3) by (simp add: do_event_def s1_def)
    with run Nil show ?thesis by (simp add: Let_def flip: s1_def)
  next
    case (Cons e es)
    have "do_event th s1 = Some (dispatch th ps e (snd (take_event s1)))"
      using do_event_calm [OF _ path assms(2) Cons] assms(3,4) Cons by (simp add: s1_def)
    with run Cons show ?thesis by (simp add: Let_def flip: s1_def)
  qed
qed

section \<open>Exits\<close>

text \<open>The announcement of the exit of \<open>p\<close> to the processes \<open>qs\<close>.\<close>

definition announce :: "'a kernel_scheme threads \<Rightarrow> ptr \<Rightarrow> ptr list \<Rightarrow> 'a kernel_scheme \<Rightarrow> 'a kernel_scheme" where
  "announce th p qs s = fold (deliver th PROCESS_EVENT_EXITED p) (filter (\<lambda>q. q \<noteq> p) qs) s"

lemma announce_Cons [simp]:
  "announce th p (x # xs) s = announce th p xs (if x = p then s else deliver th PROCESS_EVENT_EXITED p x s)"
  by (simp add: announce_def)

lemma announce_frame:
  assumes "\<forall>q \<in> set qs. q \<noteq> p \<longrightarrow> calm th q"
  shows "process_list (announce th p qs s) = process_list s" "p_next (announce th p qs s) = p_next s"
    "p_state (announce th p qs s) p = p_state s p"
  using assms by (induction qs arbitrary: s) (auto simp: announce_def)

lemma inform_exit_calm:
  assumes "lpath nx q qs" "nx = p_next s" "\<forall>x \<in> set qs. x \<noteq> p \<longrightarrow> calm th x"
  shows "\<exists>r. kernel_run th (InformExit p q s) = Some (r, announce th p qs s)"
  using assms
proof (induction qs arbitrary: q s)
  case Nil
  then show ?case by (subst kernel_run.simps) (simp add: announce_def)
next
  case (Cons x xs)
  let ?t = "if x = p then s else deliver th PROCESS_EVENT_EXITED p x s"
  have frame: "p_next ?t = p_next s" using Cons.prems(3) by auto
  have "kernel_run th (InformExit p q s) = kernel_run th (InformExit p (p_next ?t x) ?t)"
  proof (cases "x = p")
    case True
    with Cons.prems show ?thesis by (subst kernel_run.simps) auto
  next
    case False
    with Cons.prems calm_call [of th x PROCESS_EVENT_EXITED p s] obtain r where
      "kernel_run th (CallProcess x PROCESS_EVENT_EXITED p s) = Some (r, ?t)" by auto
    with Cons.prems False show ?thesis by (subst kernel_run.simps) simp
  qed
  moreover from Cons.IH [of "p_next ?t x" ?t] obtain r where
    "kernel_run th (InformExit p (p_next ?t x) ?t) = Some (r, announce th p xs ?t)"
    using Cons.prems frame by auto
  ultimately show ?case by simp
qed

lemma run_request:
  "kernel_run th (Run (Return ret s)) = Some (ret, s)"
  "kernel_run th (Run (ExitOf p s k)) =
     Option.bind (kernel_run th (ExitProcess p (process_current s) s)) (\<lambda>(r, s1). kernel_run th (Run (k s1)))"
  by (subst kernel_run.simps, simp)+

lemma exit_request:
  assumes "find_process (p_next s) p (process_list s) = Some p" "p \<noteq> NULL" "process_is_running p s"
    and "kernel_run th (InformExit p (process_list s) (s\<lparr>p_state := (p_state s)(p := PROCESS_STATE_NONE)\<rparr>)) = Some (r1, s1)"
    and "th p = Some f"
    and "(if p \<noteq> fromprocess then kernel_run th (Run (f PROCESS_EVENT_EXIT 0 (s1\<lparr>process_current := p\<rparr>)))
          else Some (r1, s1)) = Some (r, s2)"
    and "remove_process p s2 = Some s3"
  shows "kernel_run th (ExitProcess p fromprocess s) = Some (r, s3\<lparr>process_current := process_current s\<rparr>)"
proof (cases "p = fromprocess")
  case True
  with assms show ?thesis by (subst kernel_run.simps) simp
next
  case False
  with assms show ?thesis by (subst kernel_run.simps) simp
qed

text \<open>
  The whole exit of a listed, running process: the others are told, in list order, then the
  process itself unless it is the one that asks, and it is unlinked.
\<close>

definition after_exit ::
  "'a kernel_scheme threads \<Rightarrow> ptr \<Rightarrow> ptr \<Rightarrow> ptr list \<Rightarrow> 'a kernel_scheme \<Rightarrow> 'a kernel_scheme" where
  "after_exit th p fromprocess ps s =
     (let s1 = announce th p ps (s\<lparr>p_state := (p_state s)(p := PROCESS_STATE_NONE)\<rparr>)
      in if p = fromprocess then s1
         else code_state (the (th p) PROCESS_EVENT_EXIT 0 (s1\<lparr>process_current := p\<rparr>)))"

lemma exit_process_calm:
  assumes "procs_path s ps" "p \<in> set ps" "process_is_running p s" "\<forall>q \<in> set ps. q \<noteq> p \<longrightarrow> calm th q"
    and "th p = Some f" "p \<noteq> fromprocess \<longrightarrow> calm th p"
  shows "\<exists>r nx h. kernel_run th (ExitProcess p fromprocess s) = Some (r, (after_exit th p fromprocess ps s)
        \<lparr>process_list := h, p_next := nx, process_current := process_current s\<rparr>) \<and>
    lpath nx h (remove1 p ps) \<and> p_state (after_exit th p fromprocess ps s) p = PROCESS_STATE_NONE"
proof -
  define s1 where "s1 = announce th p ps (s\<lparr>p_state := (p_state s)(p := PROCESS_STATE_NONE)\<rparr>)"
  define s2 where "s2 = after_exit th p fromprocess ps s"
  have s2_eq: "s2 = (if p = fromprocess then s1
      else code_state (f PROCESS_EVENT_EXIT 0 (s1\<lparr>process_current := p\<rparr>)))"
    using assms(5) by (simp add: s2_def after_exit_def s1_def Let_def)
  have nz: "p \<noteq> NULL" using lpath_nonNULL [of "p_next s" "process_list s" ps] assms(1,2)
    by (metis procs_path_def)
  have found: "find_process (p_next s) p (process_list s) = Some p"
    using find_process_exact [OF assms(1), of p] assms(2) by simp
  have path1: "procs_path s1 ps" "p_state s1 p = 0"
    using announce_frame [of ps p th] assms(1,4) by (simp_all add: s1_def procs_path_def)
  have "\<exists>r. kernel_run th (InformExit p (process_list s)
      (s\<lparr>p_state := (p_state s)(p := PROCESS_STATE_NONE)\<rparr>)) = Some (r, s1)"
    unfolding s1_def
    by (rule inform_exit_calm [of "p_next s"]) (use assms(1,4) in \<open>simp_all add: procs_path_def\<close>)
  then obtain r1 where inform: "kernel_run th (InformExit p (process_list s)
      (s\<lparr>p_state := (p_state s)(p := PROCESS_STATE_NONE)\<rparr>)) = Some (r1, s1)" by blast
  obtain r where run: "(if p \<noteq> fromprocess
      then kernel_run th (Run (f PROCESS_EVENT_EXIT 0 (s1\<lparr>process_current := p\<rparr>))) else Some (r1, s1)) = Some (r, s2)"
  proof (cases "p = fromprocess")
    case True
    then show ?thesis by (intro that [of r1]) (simp add: s2_eq)
  next
    case False
    then obtain r where "kernel_run th (Run (f PROCESS_EVENT_EXIT 0 (s1\<lparr>process_current := p\<rparr>))) = Some (r, s2)"
      using calm_run(1) [of th p f PROCESS_EVENT_EXIT 0 "s1\<lparr>process_current := p\<rparr>"] assms(5,6)
      by (auto simp: s2_eq)
    with False show ?thesis by (intro that [of r]) simp
  qed
  have path2: "procs_path s2 ps" "p_state s2 p = 0"
    using path1 calm_run(2-4) [of th p f PROCESS_EVENT_EXIT 0 "s1\<lparr>process_current := p\<rparr>"] assms(5,6)
    by (auto simp: s2_eq procs_path_def)
  from remove_process_path [OF path2(1) nz] obtain nx h where
    rem: "remove_process p s2 = Some (s2\<lparr>process_list := h, p_next := nx\<rparr>)" "lpath nx h (remove1 p ps)" by blast
  define v where "v = s2\<lparr>process_list := h, p_next := nx\<rparr>"
  have "kernel_run th (ExitProcess p fromprocess s) = Some (r, v\<lparr>process_current := process_current s\<rparr>)"
    using exit_request [OF found nz assms(3) inform assms(5) run rem(1)]
    by (simp only: v_def)
  with rem(2) path2(2) show ?thesis unfolding s2_def [symmetric] v_def by blast
qed

text \<open>A process that is not listed: nothing happens.\<close>

lemma exit_process_unlisted:
  "procs_path s ps \<Longrightarrow> p \<notin> set ps \<Longrightarrow> exit_process th p fromprocess s = Some s"
  using find_process_exact [of s ps p] by (simp add: exit_process_def kernel_run.simps)

lemma process_start_listed:
  "procs_path s ps \<Longrightarrow> p \<in> set ps \<Longrightarrow> process_start th p d s = Some s"
  using find_process_exact [of s ps p] by (simp add: process_start_def kernel_run.simps)

lemma process_start_new:
  assumes "procs_path s ps" "p \<notin> set ps" "p \<noteq> NULL" "calm th p"
  shows "process_start th p d s = Some ((deliver th PROCESS_EVENT_INIT d p (link_process p s))
      \<lparr>process_current := process_current s\<rparr>)"
    and "procs_path ((deliver th PROCESS_EVENT_INIT d p (link_process p s))
      \<lparr>process_current := process_current s\<rparr>) (p # ps)"
proof -
  have "\<exists>r. kernel_run th (CallProcess p 0x81 d (link_process p s)) =
      Some (r, deliver th 0x81 d p (link_process p s))" using assms(4) by (intro calm_call) simp_all
  then obtain r where
    "kernel_run th (CallProcess p 0x81 d (link_process p s)) = Some (r, deliver th 0x81 d p (link_process p s))"
    by auto
  with find_process_exact [OF assms(1), of p] assms(2,3)
  show "process_start th p d s = Some ((deliver th PROCESS_EVENT_INIT d p (link_process p s))
      \<lparr>process_current := process_current s\<rparr>)"
    unfolding process_start_def by (subst kernel_run.simps) simp
  from link_process_path [OF assms(1-3)] assms(4)
  show "procs_path ((deliver th PROCESS_EVENT_INIT d p (link_process p s))
      \<lparr>process_current := process_current s\<rparr>) (p # ps)" by (simp add: procs_path_def)
qed

section \<open>A process that exits itself\<close>

text \<open>
  \<open>process_exit\<close> allows the calling process as its argument. \<open>exit_process\<close> unlinks it and
  resets its state; but when its thread then waits, \<open>call_process\<close> sets the state back to
  running: the process is not listed, and still receives what is posted to it.
\<close>

lemma self_exit_stays_running:
  assumes "procs_path s ps" "p \<in> set ps" "p_state s p = PROCESS_STATE_RUNNING"
    and "\<forall>q \<in> set ps. q \<noteq> p \<longrightarrow> calm th q"
    and "th p = Some f" "\<forall>t. f ev d t = ExitOf p t (\<lambda>u. Return PT_WAITING u)" "ev \<noteq> PROCESS_EVENT_EXIT"
  shows "\<exists>s'. call_process th p ev d s = Some s' \<and> p_state s' p = PROCESS_STATE_RUNNING \<and>
    procs_path s' (remove1 p ps)"
proof -
  define t where "t = s\<lparr>process_current := p, p_state := (p_state s)(p := PROCESS_STATE_CALLED)\<rparr>"
  have "procs_path t ps" "process_is_running p t" using assms(1)
    by (auto simp: t_def procs_path_def process_is_running_def)
  from exit_process_calm [OF this(1) assms(2) this(2) assms(4,5), of p] obtain r nx h where
    r: "kernel_run th (ExitProcess p p t) = Some (r, (after_exit th p p ps t)
        \<lparr>process_list := h, p_next := nx, process_current := process_current t\<rparr>)" "lpath nx h (remove1 p ps)"
    by blast
  define w where "w = (after_exit th p p ps t)\<lparr>process_list := h, p_next := nx, process_current := process_current t\<rparr>"
  have w: "kernel_run th (ExitProcess p p t) = Some (r, w)" unfolding w_def by (rule r(1))
  have path: "procs_path w (remove1 p ps)" using r(2) by (simp add: w_def procs_path_def)
  have "f ev d t = ExitOf p t (\<lambda>u. Return PT_WAITING u)" using assms(6) by (rule spec)
  moreover have "process_current t = p" by (simp add: t_def)
  ultimately have "kernel_run th (Run (f ev d t)) = Some (PT_WAITING, w)"
    by (simp only: run_request w bind.bind_lunit prod.case)
  then have "kernel_run th (CallProcess p ev d s) = Some (PT_WAITING, w\<lparr>p_state := (p_state w)(p := 1)\<rparr>)"
    using assms(3,5,7) unfolding t_def by (subst kernel_run.simps) simp
  with path show ?thesis by (simp add: call_process_def process_is_running_def procs_path_def)
qed

end
