(* ===== verification/Contiki_Timer.thy ===== *)
theory Contiki_Timer imports Prelude begin

text \<open>
  The passive timers of the kernel, \<open>os/sys/timer.c\<close> (clock ticks) and \<open>os/sys/stimer.c\<close>
  (seconds): a timer is the moment it was started and its interval, and a program asks whether
  it has expired. The reading of the clock is the argument \<open>now\<close>. All arithmetic wraps at the
  width of the clock.

  The lemmas say when a timer counts as expired, that a periodic timer reset after each expiry
  stays on the grid of its first start, and where the two kinds differ.
\<close>

record timer =
  start :: clock_time
  interval :: clock_time

section \<open>Clock ticks\<close>

definition timer_set :: "clock_time \<Rightarrow> clock_time \<Rightarrow> timer \<Rightarrow> timer" where
  "timer_set now i t = t\<lparr>interval := i, start := now\<rparr>"

definition timer_expired :: "clock_time \<Rightarrow> timer \<Rightarrow> bool" where
  "timer_expired now t = (let diff = (now - start t) + 1 in interval t < diff)"

definition timer_reset :: "clock_time \<Rightarrow> timer \<Rightarrow> timer" where
  "timer_reset now t = (if timer_expired now t then t\<lparr>start := start t + interval t\<rparr> else t)"

definition timer_restart :: "clock_time \<Rightarrow> timer \<Rightarrow> timer" where
  "timer_restart now t = t\<lparr>start := now\<rparr>"

definition timer_remaining :: "clock_time \<Rightarrow> timer \<Rightarrow> clock_time" where
  "timer_remaining now t = start t + interval t - now"

text \<open>The moment a timer expires, as \<open>etimer_expiration_time\<close> computes it.\<close>

abbreviation expiration :: "timer \<Rightarrow> clock_time" where
  "expiration t \<equiv> start t + interval t"

section \<open>Seconds\<close>

text \<open>\<open>SCLOCK_GEQ\<close> takes a difference below half a turn of the seconds clock as not negative.\<close>

definition SCLOCK_GEQ :: "u64 \<Rightarrow> u64 \<Rightarrow> bool" where
  "SCLOCK_GEQ a b = (a - b < drop_bit 1 (NOT 0))"

definition stimer_set :: "u64 \<Rightarrow> u64 \<Rightarrow> timer \<Rightarrow> timer" where
  "stimer_set secs i t = t\<lparr>interval := i, start := secs\<rparr>"

definition stimer_expired :: "u64 \<Rightarrow> timer \<Rightarrow> bool" where
  "stimer_expired secs t = SCLOCK_GEQ secs (start t + interval t)"

definition stimer_reset :: "u64 \<Rightarrow> timer \<Rightarrow> timer" where
  "stimer_reset secs t = (if stimer_expired secs t then t\<lparr>start := start t + interval t\<rparr> else t)"

definition stimer_restart :: "u64 \<Rightarrow> timer \<Rightarrow> timer" where
  "stimer_restart secs t = t\<lparr>start := secs\<rparr>"

definition stimer_remaining :: "u64 \<Rightarrow> timer \<Rightarrow> u64" where
  "stimer_remaining secs t = start t + interval t - secs"

definition stimer_elapsed :: "u64 \<Rightarrow> timer \<Rightarrow> u64" where
  "stimer_elapsed secs t = secs - start t"

section \<open>When a timer has expired\<close>

lemma unat_Suc_lt: "a < b + 1 \<longleftrightarrow> unat a \<le> unat b \<and> b \<noteq> - 1" for a b :: "'a::len word"
proof (cases "b = - 1")
  case False
  then have "unat (b + 1) = Suc (unat b)"
    by (metis add.commute unatSuc add_eq_0_iff)
  with False show ?thesis by (simp add: word_less_nat_alt less_Suc_eq_le)
qed simp

lemma unat_minus_one: "unat (- 1 :: u64) = 2 ^ 64 - 1"
  by (simp add: unsigned_minus_1_eq_mask mask_eq_exp_minus_1)

lemma timer_expired_iff:
  "timer_expired now t \<longleftrightarrow> unat (interval t) \<le> unat (now - start t) \<and> now - start t \<noteq> - 1"
  by (simp add: timer_expired_def unat_Suc_lt)

text \<open>\<open>k\<close> ticks after the start, whatever the clock shows and whether or not it has wrapped since.\<close>

lemma timer_expired_after:
  assumes "k < 2 ^ 64 - 1"
  shows "timer_expired (start t + of_nat k) t \<longleftrightarrow> unat (interval t) \<le> k"
proof -
  have k: "unat (of_nat k :: clock_time) = k" using assms by (simp add: unat_of_nat)
  moreover have "(of_nat k :: clock_time) \<noteq> - 1"
  proof
    assume "(of_nat k :: clock_time) = - 1"
    with k have "k = unat (- 1 :: clock_time)" by metis
    with assms unat_minus_one show False by simp
  qed
  ultimately show ?thesis by (simp add: timer_expired_iff)
qed

text \<open>One tick before a full turn of the clock, a timer does not count as expired.\<close>

lemma timer_expired_blind_spot: "\<not> timer_expired (start t - 1) t"
  by (simp add: timer_expired_iff)

lemma timer_set_fields [simp]:
  "start (timer_set now i t) = now" "interval (timer_set now i t) = i"
  "start (timer_restart now t) = now" "interval (timer_restart now t) = interval t"
  "interval (timer_reset now t) = interval t"
  by (simp_all add: timer_set_def timer_restart_def timer_reset_def)

lemma timer_set_zero: "timer_expired now (timer_set now 0 t)"
  by (simp add: timer_expired_iff)

text \<open>Until a timer expires, \<open>timer_remaining\<close> is what is left of its interval.\<close>

lemma timer_remaining_pending:
  assumes "\<not> timer_expired now t" "now - start t \<noteq> - 1"
  shows "unat (timer_remaining now t) = unat (interval t) - unat (now - start t)"
proof -
  have "now - start t \<le> interval t" using assms by (auto simp: timer_expired_iff word_le_nat_alt)
  then have "unat (interval t - (now - start t)) = unat (interval t) - unat (now - start t)"
    by (rule unat_sub)
  then show ?thesis by (simp add: timer_remaining_def algebra_simps)
qed

section \<open>Periodic timers\<close>

text \<open>A timer polled at the moments \<open>ts\<close> and reset each time it is found expired.\<close>

fun poll_reset :: "clock_time list \<Rightarrow> timer \<Rightarrow> timer" where
  "poll_reset [] t = t"
| "poll_reset (now # ts) t = poll_reset ts (timer_reset now t)"

lemma poll_reset_grid:
  "\<exists>n \<le> length ts. start (poll_reset ts t) = start t + of_nat n * interval t
     \<and> interval (poll_reset ts t) = interval t"
proof (induction ts arbitrary: t)
  case (Cons now ts)
  from Cons.IH [of "timer_reset now t"] obtain n where n: "n \<le> length ts"
    "start (poll_reset ts (timer_reset now t)) = start (timer_reset now t) + of_nat n * interval t"
    "interval (poll_reset ts (timer_reset now t)) = interval t" by auto
  show ?case
  proof (cases "timer_expired now t")
    case True
    with n show ?thesis
      by (intro exI [of _ "Suc n"]) (simp add: timer_reset_def algebra_simps)
  next
    case False
    with n show ?thesis by (intro exI [of _ n]) (simp add: timer_reset_def)
  qed
qed simp

text \<open>A reset that came no later than one interval after the expiry leaves the timer pending.\<close>

lemma timer_reset_pending:
  assumes "unat (now - start t) < 2 * unat (interval t)" "timer_expired now t"
  shows "\<not> timer_expired now (timer_reset now t)"
proof -
  have "interval t \<le> now - start t" using assms(2) by (auto simp: timer_expired_iff word_le_nat_alt)
  then have "unat (now - start t - interval t) = unat (now - start t) - unat (interval t)"
    by (rule unat_sub)
  with assms show ?thesis by (auto simp: timer_expired_iff timer_reset_def diff_diff_eq)
qed

section \<open>The two kinds\<close>

text \<open>
  A timer in seconds expires for half a turn of its clock and then counts as pending again; a
  timer in ticks stays expired. Within half a turn both decide alike.
\<close>

lemma half_turn: "unat (drop_bit 1 (NOT 0) :: u64) = 2 ^ 63 - 1"
  by (simp add: unat_drop_bit_eq drop_bit_eq_div unat_minus_one)

lemma stimer_expired_iff:
  "stimer_expired secs t \<longleftrightarrow> unat (secs - (start t + interval t)) < 2 ^ 63 - 1"
  unfolding stimer_expired_def SCLOCK_GEQ_def word_less_nat_alt half_turn ..

lemma stimer_timer_agree:
  assumes "unat (interval t) < 2 ^ 63 - 1" "unat (now - start t) < 2 ^ 63 - 1"
  shows "stimer_expired now t \<longleftrightarrow> timer_expired now t"
proof -
  define e i where "e = now - start t" and "i = interval t"
  have s: "now - (start t + i) = e - i" by (simp add: e_def algebra_simps)
  have "unat (e - i) < 2 ^ 63 - 1 \<longleftrightarrow> unat i \<le> unat e" if "unat i < 2 ^ 63 - 1" "unat e < 2 ^ 63 - 1"
    using that by (auto simp: unat_sub_if')
  moreover have "e \<noteq> - 1" using assms(2) unat_minus_one by (auto simp: e_def)
  ultimately show ?thesis using assms
    unfolding stimer_expired_iff timer_expired_iff e_def [symmetric] i_def [symmetric] s by simp
qed

lemma stimer_elapsed_expired:
  assumes "unat (interval t) < 2 ^ 63 - 1" "unat (stimer_elapsed secs t) < 2 ^ 63 - 1"
  shows "stimer_expired secs t \<longleftrightarrow> interval t \<le> stimer_elapsed secs t"
  using stimer_timer_agree [of t secs] assms unat_minus_one
  by (auto simp: stimer_elapsed_def timer_expired_iff word_le_nat_alt)

end
