(* ===== verification/Contiki_Etimer.thy ===== *)
theory Contiki_Etimer imports Process_Queue Contiki_Timer begin

text \<open>
  The event timers, \<open>os/sys/etimer.c\<close>: the list of running timers, linked through the timers
  themselves, and the process that, when it is polled, posts an event for each timer that
  has expired and takes it off the list. A timer's owner is the process current when it was set;
  \<open>PROCESS_NONE\<close> there means expired.

  \<open>now\<close> is the reading of the clock during one call, \<open>ep\<close> the address of \<open>etimer_process\<close>.
  On a list without cycles every operation is proved to return and to implement the
  corresponding operation on sequences of timers; setting a timer twice outside every process
  makes a cyclic list, on which the walks do not return.
\<close>

record etimers = kernel +
  timerlist :: ptr
  next_expiration :: clock_time
  et_timer :: "ptr \<Rightarrow> timer"
  et_next :: "ptr \<Rightarrow> ptr"
  et_p :: "ptr \<Rightarrow> ptr"

section \<open>The operations\<close>

definition etimer_expiration_time :: "'a etimers_scheme \<Rightarrow> ptr \<Rightarrow> clock_time" where
  "etimer_expiration_time s et = start (et_timer s et) + interval (et_timer s et)"

definition etimer_start_time :: "'a etimers_scheme \<Rightarrow> ptr \<Rightarrow> clock_time" where
  "etimer_start_time s et = start (et_timer s et)"

definition etimer_expired :: "'a etimers_scheme \<Rightarrow> ptr \<Rightarrow> bool" where
  "etimer_expired s et = (et_p s et = PROCESS_NONE)"

definition etimer_pending :: "'a etimers_scheme \<Rightarrow> bool" where
  "etimer_pending s = (timerlist s \<noteq> NULL)"

definition etimer_next_expiration_time :: "'a etimers_scheme \<Rightarrow> clock_time" where
  "etimer_next_expiration_time s = (if etimer_pending s then next_expiration s else 0)"

partial_function (option) tdist_walk ::
  "'a etimers_scheme \<Rightarrow> clock_time \<Rightarrow> ptr \<Rightarrow> clock_time \<Rightarrow> clock_time option" where
  "tdist_walk s now t tdist =
     (if t = NULL then Some tdist
      else tdist_walk s now (et_next s t)
        (if start (et_timer s t) + interval (et_timer s t) - now < tdist
         then start (et_timer s t) + interval (et_timer s t) - now else tdist))"

definition update_time :: "clock_time \<Rightarrow> 'a etimers_scheme \<Rightarrow> 'a etimers_scheme option" where
  "update_time now s =
     (if timerlist s = NULL then Some (s\<lparr>next_expiration := 0\<rparr>)
      else
        let t = timerlist s in
        Option.bind (tdist_walk s now (et_next s t) (start (et_timer s t) + interval (et_timer s t) - now))
          (\<lambda>tdist. Some (s\<lparr>next_expiration := now + tdist\<rparr>)))"

definition etimer_request_poll :: "ptr \<Rightarrow> 'a etimers_scheme \<Rightarrow> 'a etimers_scheme" where
  "etimer_request_poll ep s = process_poll ep s"

partial_function (option) timer_listed :: "(ptr \<Rightarrow> ptr) \<Rightarrow> ptr \<Rightarrow> ptr \<Rightarrow> bool option" where
  "timer_listed nx timer t =
     (if t = NULL then Some False else if t = timer then Some True else timer_listed nx timer (nx t))"

definition add_timer :: "ptr \<Rightarrow> clock_time \<Rightarrow> ptr \<Rightarrow> 'a etimers_scheme \<Rightarrow> 'a etimers_scheme option" where
  "add_timer ep now timer s =
     (let s1 = etimer_request_poll ep s in
      Option.bind (if et_p s1 timer \<noteq> PROCESS_NONE then timer_listed (et_next s1) timer (timerlist s1) else Some False)
        (\<lambda>listed.
          if listed then update_time now (s1\<lparr>et_p := (et_p s1)(timer := process_current s1)\<rparr>)
          else update_time now (s1\<lparr>et_p := (et_p s1)(timer := process_current s1),
                 et_next := (et_next s1)(timer := timerlist s1), timerlist := timer\<rparr>)))"

definition etimer_set :: "ptr \<Rightarrow> clock_time \<Rightarrow> ptr \<Rightarrow> clock_time \<Rightarrow> 'a etimers_scheme \<Rightarrow> 'a etimers_scheme option" where
  "etimer_set ep now et i s =
     add_timer ep now et (s\<lparr>et_timer := (et_timer s)(et := timer_set now i (et_timer s et))\<rparr>)"

definition etimer_reset_with_new_interval ::
  "ptr \<Rightarrow> clock_time \<Rightarrow> ptr \<Rightarrow> clock_time \<Rightarrow> 'a etimers_scheme \<Rightarrow> 'a etimers_scheme option" where
  "etimer_reset_with_new_interval ep now et i s =
     add_timer ep now et (s\<lparr>et_timer := (et_timer s)(et := (timer_reset now (et_timer s et))\<lparr>interval := i\<rparr>)\<rparr>)"

definition etimer_reset :: "ptr \<Rightarrow> clock_time \<Rightarrow> ptr \<Rightarrow> 'a etimers_scheme \<Rightarrow> 'a etimers_scheme option" where
  "etimer_reset ep now et s =
     add_timer ep now et (s\<lparr>et_timer := (et_timer s)(et := timer_reset now (et_timer s et))\<rparr>)"

definition etimer_restart :: "ptr \<Rightarrow> clock_time \<Rightarrow> ptr \<Rightarrow> 'a etimers_scheme \<Rightarrow> 'a etimers_scheme option" where
  "etimer_restart ep now et s =
     add_timer ep now et (s\<lparr>et_timer := (et_timer s)(et := timer_restart now (et_timer s et))\<rparr>)"

text \<open>The difference is a C \<open>int\<close>, sign-extended to the width of the clock.\<close>

definition etimer_adjust :: "clock_time \<Rightarrow> ptr \<Rightarrow> 32 word \<Rightarrow> 'a etimers_scheme \<Rightarrow> 'a etimers_scheme option" where
  "etimer_adjust now et timediff s =
     update_time now (s\<lparr>et_timer := (et_timer s)
       (et := (et_timer s et)\<lparr>start := start (et_timer s et) + scast timediff\<rparr>)\<rparr>)"

partial_function (option) find_previous :: "(ptr \<Rightarrow> ptr) \<Rightarrow> ptr \<Rightarrow> ptr \<Rightarrow> ptr option" where
  "find_previous nx et t = (if t \<noteq> NULL \<and> nx t \<noteq> et then find_previous nx et (nx t) else Some t)"

definition etimer_stop :: "clock_time \<Rightarrow> ptr \<Rightarrow> 'a etimers_scheme \<Rightarrow> 'a etimers_scheme option" where
  "etimer_stop now et s =
     map_option (\<lambda>s1. s1\<lparr>et_next := (et_next s1)(et := NULL), et_p := (et_p s1)(et := PROCESS_NONE)\<rparr>)
       (if et = timerlist s then update_time now (s\<lparr>timerlist := et_next s (timerlist s)\<rparr>)
        else
          Option.bind (find_previous (et_next s) et (timerlist s)) (\<lambda>t.
            if t \<noteq> NULL then update_time now (s\<lparr>et_next := (et_next s)(t := et_next s et)\<rparr>) else Some s))"

section \<open>The process\<close>

text \<open>When a process has exited, its timers leave the list.\<close>

partial_function (option) exited_head :: "ptr \<Rightarrow> 'a etimers_scheme \<Rightarrow> 'a etimers_scheme option" where
  "exited_head p s =
     (if timerlist s \<noteq> NULL \<and> et_p s (timerlist s) = p
      then exited_head p (s\<lparr>timerlist := et_next s (timerlist s)\<rparr>) else Some s)"

partial_function (option) exited_walk :: "ptr \<Rightarrow> ptr \<Rightarrow> 'a etimers_scheme \<Rightarrow> 'a etimers_scheme option" where
  "exited_walk p t s =
     (if et_next s t = NULL then Some s
      else if et_p s (et_next s t) = p
      then exited_walk p t (s\<lparr>et_next := (et_next s)(t := et_next s (et_next s t))\<rparr>)
      else exited_walk p (et_next s t) s)"

definition timers_exited :: "ptr \<Rightarrow> 'a etimers_scheme \<Rightarrow> 'a etimers_scheme option" where
  "timers_exited p s =
     Option.bind (exited_head p s) (\<lambda>s1.
       if timerlist s1 \<noteq> NULL then exited_walk p (timerlist s1) s1 else Some s1)"

text \<open>
  The search for expired timers: \<open>u\<close> is the timer before \<open>t\<close>, NULL at the head of the list. After
  each event posted it starts again at the head; when the queue is full it asks for another
  poll and goes on.
\<close>

partial_function (option) expire_scan ::
  "ptr \<Rightarrow> clock_time \<Rightarrow> ptr \<Rightarrow> ptr \<Rightarrow> 'a etimers_scheme \<Rightarrow> 'a etimers_scheme option" where
  "expire_scan ep now u t s =
     (if t = NULL then Some s
      else if timer_expired now (et_timer s t) then
        (let (r, s1) = process_post (et_p s t) PROCESS_EVENT_TIMER t s in
         if r = PROCESS_ERR_OK then
           let s2 = s1\<lparr>et_p := (et_p s1)(t := PROCESS_NONE)\<rparr>;
               s3 = (if u \<noteq> NULL then s2\<lparr>et_next := (et_next s2)(u := et_next s2 t)\<rparr>
                     else s2\<lparr>timerlist := et_next s2 t\<rparr>);
               s4 = s3\<lparr>et_next := (et_next s3)(t := NULL)\<rparr>
           in Option.bind (update_time now s4) (\<lambda>s5. expire_scan ep now NULL (timerlist s5) s5)
         else
           let s2 = etimer_request_poll ep s1 in expire_scan ep now t (et_next s2 t) s2)
      else expire_scan ep now t (et_next s t) s)"

definition etimer_thread ::
  "ptr \<Rightarrow> clock_time \<Rightarrow> event \<Rightarrow> data \<Rightarrow> 'a etimers_scheme \<Rightarrow> 'a etimers_scheme option" where
  "etimer_thread ep now ev d s =
     (if p_pt s ep = 0 then Some (s\<lparr>timerlist := NULL, p_pt := (p_pt s)(ep := 1)\<rparr>)
      else if ev = PROCESS_EVENT_EXITED then timers_exited d s
      else if ev \<noteq> PROCESS_EVENT_POLL then Some s
      else expire_scan ep now NULL (timerlist s) s)"

section \<open>The list of timers\<close>

definition timers_path :: "'a etimers_scheme \<Rightarrow> ptr list \<Rightarrow> bool" where
  "timers_path s ts \<longleftrightarrow> lpath (et_next s) (timerlist s) ts"

text \<open>How far the expiration of a timer lies ahead of \<open>now\<close>, around the clock.\<close>

abbreviation ahead :: "clock_time \<Rightarrow> 'a etimers_scheme \<Rightarrow> ptr \<Rightarrow> clock_time" where
  "ahead now s t \<equiv> start (et_timer s t) + interval (et_timer s t) - now"

lemma tdist_walk_path:
  "lpath (et_next s) t ts \<Longrightarrow> tdist_walk s now t d = Some (fold (\<lambda>t d. min (ahead now s t) d) ts d)"
proof (induction ts arbitrary: t d)
  case Nil
  then show ?case by (subst tdist_walk.simps) simp
next
  case (Cons x xs)
  moreover have "(if a < d then a else d) = min a d" for a d :: clock_time by (auto simp: min_def)
  ultimately show ?case by (subst tdist_walk.simps) auto
qed

lemma fold_min_Min: "fold (\<lambda>t d. min (f t) d) ts d = Min (insert d (f ` set ts))" for d :: "'b::linorder"
proof (induction ts arbitrary: d)
  case (Cons x xs)
  have "fold (\<lambda>t d. min (f t) d) (x # xs) d = Min (insert (min (f x) d) (f ` set xs))" using Cons by simp
  also have "\<dots> = Min (insert d (insert (f x) (f ` set xs)))"
    by (cases "xs = []") (auto simp: min_def)
  finally show ?case by simp
qed simp

definition nearest :: "clock_time \<Rightarrow> 'a etimers_scheme \<Rightarrow> ptr list \<Rightarrow> clock_time" where
  "nearest now s ts = (if ts = [] then 0 else now + Min (ahead now s ` set ts))"

lemma update_time_path:
  assumes "timers_path s ts"
  shows "update_time now s = Some (s\<lparr>next_expiration := nearest now s ts\<rparr>)"
proof (cases ts)
  case Nil
  with assms show ?thesis by (simp add: update_time_def timers_path_def nearest_def)
next
  case (Cons x xs)
  then have x: "timerlist s = x" "x \<noteq> NULL" "lpath (et_next s) (et_next s x) xs"
    using assms by (auto simp: timers_path_def)
  from tdist_walk_path [OF x(3)] x show ?thesis
    by (simp add: update_time_def nearest_def Cons fold_min_Min)
qed

lemma timer_listed_path: "lpath nx t ts \<Longrightarrow> timer_listed nx timer t = Some (timer \<in> set ts)"
proof (induction ts arbitrary: t)
  case Nil
  then show ?case by (subst timer_listed.simps) simp
next
  case (Cons x xs)
  then show ?case by (subst timer_listed.simps) auto
qed

section \<open>Setting and stopping\<close>

text \<open>What setting, stopping and expiry keep of the kernel: everything but poll flags and events.\<close>

lemma process_poll_more [simp]:
  "timerlist (process_poll p s) = timerlist s" "et_timer (process_poll p s) = et_timer s"
  "et_next (process_poll p s) = et_next s" "et_p (process_poll p s) = et_p s"
  "process_current (process_poll p s) = process_current s"
  "next_expiration (process_poll p s) = next_expiration s"
  "events (process_poll p s) = events s" "nevents (process_poll p s) = nevents s"
  "fevent (process_poll p s) = fevent s" "p_state (process_poll p s) = p_state s"
  "p_pt (process_poll p s) = p_pt s"
  by (simp_all add: process_poll_def)

text \<open>The state just before \<open>update_time\<close>.\<close>

definition own_timer :: "ptr \<Rightarrow> ptr \<Rightarrow> 'a etimers_scheme \<Rightarrow> 'a etimers_scheme" where
  "own_timer ep timer s = (process_poll ep s)\<lparr>et_p := (et_p s)(timer := process_current s)\<rparr>"

definition push_timer :: "ptr \<Rightarrow> 'a etimers_scheme \<Rightarrow> 'a etimers_scheme" where
  "push_timer timer s = s\<lparr>et_next := (et_next s)(timer := timerlist s), timerlist := timer\<rparr>"

lemma own_push_fields [simp]:
  "timerlist (own_timer ep timer s) = timerlist s" "et_next (own_timer ep timer s) = et_next s"
  "et_timer (own_timer ep timer s) = et_timer s" "et_p (own_timer ep timer s) = (et_p s)(timer := process_current s)"
  "et_timer (push_timer timer s) = et_timer s" "et_p (push_timer timer s) = et_p s"
  "timerlist (push_timer timer s) = timer" "et_next (push_timer timer s) = (et_next s)(timer := timerlist s)"
  by (simp_all add: own_timer_def push_timer_def)

lemma add_timer_eq:
  "add_timer ep now timer s =
     Option.bind (if et_p s timer \<noteq> PROCESS_NONE then timer_listed (et_next s) timer (timerlist s) else Some False)
       (\<lambda>listed. update_time now (if listed then own_timer ep timer s else push_timer timer (own_timer ep timer s)))"
proof -
  have own: "(process_poll ep s)\<lparr>et_p := (et_p s)(timer := process_current s)\<rparr> = own_timer ep timer s"
    by (simp only: own_timer_def)
  have push: "(own_timer ep timer s)\<lparr>et_next := (et_next s)(timer := timerlist s), timerlist := timer\<rparr> =
      push_timer timer (own_timer ep timer s)"
    by (simp add: own_timer_def push_timer_def)
  have "(if listed then update_time now (own_timer ep timer s)
      else update_time now (push_timer timer (own_timer ep timer s))) =
    update_time now (if listed then own_timer ep timer s else push_timer timer (own_timer ep timer s))" for listed
    by simp
  then show ?thesis
    unfolding add_timer_def etimer_request_poll_def Let_def process_poll_more own push by (simp only:)
qed

lemma add_timer_new:
  assumes "timers_path s ts" "timer \<notin> set ts" "timer \<noteq> NULL"
  shows "add_timer ep now timer s = Some ((push_timer timer (own_timer ep timer s))
      \<lparr>next_expiration := nearest now (push_timer timer (own_timer ep timer s)) (timer # ts)\<rparr>)"
    and "timers_path (push_timer timer (own_timer ep timer s)) (timer # ts)"
proof -
  show path: "timers_path (push_timer timer (own_timer ep timer s)) (timer # ts)"
    using assms by (simp add: timers_path_def)
  have "timer_listed (et_next s) timer (timerlist s) = Some False"
    using timer_listed_path [of "et_next s" "timerlist s" ts timer] assms(1,2) by (simp add: timers_path_def)
  then show "add_timer ep now timer s = Some ((push_timer timer (own_timer ep timer s))
      \<lparr>next_expiration := nearest now (push_timer timer (own_timer ep timer s)) (timer # ts)\<rparr>)"
    by (simp add: add_timer_eq update_time_path [OF path, of now])
qed

lemma add_timer_listed:
  assumes "timers_path s ts" "timer \<in> set ts" "et_p s timer \<noteq> PROCESS_NONE"
  shows "add_timer ep now timer s = Some ((own_timer ep timer s)\<lparr>next_expiration := nearest now (own_timer ep timer s) ts\<rparr>)"
    and "timers_path (own_timer ep timer s) ts"
proof -
  show path: "timers_path (own_timer ep timer s) ts" using assms(1) by (simp add: timers_path_def)
  have "timer_listed (et_next s) timer (timerlist s) = Some True"
    using timer_listed_path [of "et_next s" "timerlist s" ts timer] assms(1,2) by (simp add: timers_path_def)
  with assms(3) show "add_timer ep now timer s =
      Some ((own_timer ep timer s)\<lparr>next_expiration := nearest now (own_timer ep timer s) ts\<rparr>)"
    by (simp add: add_timer_eq update_time_path [OF path, of now])
qed

text \<open>
  The state invariant: the listed timers form a path, and each belongs to a process. It holds as
  long as timers are set by processes.
\<close>

definition timers_wf :: "'a etimers_scheme \<Rightarrow> ptr list \<Rightarrow> bool" where
  "timers_wf s ts \<longleftrightarrow> timers_path s ts \<and> (\<forall>t \<in> set ts. et_p s t \<noteq> PROCESS_NONE)"

text \<open>The timer becomes the head of the list, or keeps its place.\<close>

definition set_in :: "ptr \<Rightarrow> ptr list \<Rightarrow> ptr list" where
  "set_in timer ts = (if timer \<in> set ts then ts else timer # ts)"

lemma add_timer_wf:
  assumes "timers_wf s ts" "timer \<noteq> NULL" "process_current s \<noteq> NULL"
  shows "\<exists>s'. add_timer ep now timer s = Some s' \<and> timers_wf s' (set_in timer ts) \<and>
    et_p s' = (et_p s)(timer := process_current s) \<and> et_timer s' = et_timer s \<and>
    next_expiration s' = nearest now s' (set_in timer ts)"
proof (cases "timer \<in> set ts")
  case True
  with assms add_timer_listed [of s ts timer] show ?thesis
    by (auto simp: timers_wf_def set_in_def timers_path_def nearest_def)
next
  case False
  with assms add_timer_new [of s ts timer] show ?thesis
    by (auto simp: timers_wf_def set_in_def timers_path_def nearest_def)
qed

lemma timers_wf_timer [simp]: "timers_wf (s\<lparr>et_timer := tm\<rparr>) ts = timers_wf s ts"
  by (simp add: timers_wf_def timers_path_def)

lemma etimer_set_spec:
  assumes "timers_wf s ts" "et \<noteq> NULL" "process_current s \<noteq> NULL"
  shows "\<exists>s'. etimer_set ep now et i s = Some s' \<and> timers_wf s' (set_in et ts) \<and>
    et_p s' = (et_p s)(et := process_current s) \<and>
    et_timer s' = (et_timer s)(et := \<lparr>start = now, interval = i\<rparr>) \<and>
    next_expiration s' = nearest now s' (set_in et ts)"
proof -
  have [simp]: "timer_set now i t = \<lparr>start = now, interval = i\<rparr>" for t :: timer
    by (cases t) (simp add: timer_set_def)
  show ?thesis using add_timer_wf [of "s\<lparr>et_timer := (et_timer s)(et := timer_set now i (et_timer s et))\<rparr>" ts et ep now]
      assms by (simp add: etimer_set_def)
qed

lemma etimer_reset_spec:
  assumes "timers_wf s ts" "et \<noteq> NULL" "process_current s \<noteq> NULL"
  shows "\<exists>s'. etimer_reset ep now et s = Some s' \<and> timers_wf s' (set_in et ts) \<and>
    et_p s' = (et_p s)(et := process_current s) \<and>
    et_timer s' = (et_timer s)(et := timer_reset now (et_timer s et)) \<and>
    next_expiration s' = nearest now s' (set_in et ts)"
  using add_timer_wf [of "s\<lparr>et_timer := (et_timer s)(et := timer_reset now (et_timer s et))\<rparr>" ts et] assms
  by (simp add: etimer_reset_def)

lemma etimer_restart_spec:
  assumes "timers_wf s ts" "et \<noteq> NULL" "process_current s \<noteq> NULL"
  shows "\<exists>s'. etimer_restart ep now et s = Some s' \<and> timers_wf s' (set_in et ts) \<and>
    et_p s' = (et_p s)(et := process_current s) \<and>
    et_timer s' = (et_timer s)(et := timer_restart now (et_timer s et)) \<and>
    next_expiration s' = nearest now s' (set_in et ts)"
  using add_timer_wf [of "s\<lparr>et_timer := (et_timer s)(et := timer_restart now (et_timer s et))\<rparr>" ts et] assms
  by (simp add: etimer_restart_def)

lemma etimer_adjust_spec:
  assumes "timers_wf s ts"
  shows "\<exists>s'. etimer_adjust now et diff s = Some s' \<and> timers_wf s' ts \<and> et_p s' = et_p s \<and>
    start (et_timer s' et) = start (et_timer s et) + scast diff"
proof -
  define s1 where "s1 = s\<lparr>et_timer := (et_timer s)
       (et := (et_timer s et)\<lparr>start := start (et_timer s et) + scast diff\<rparr>)\<rparr>"
  have "timers_path s1 ts" using assms by (simp add: s1_def timers_wf_def timers_path_def)
  from update_time_path [OF this, of now] show ?thesis
    using assms by (simp add: etimer_adjust_def s1_def [symmetric]) (simp add: s1_def timers_wf_def timers_path_def)
qed

lemma find_previous_path:
  assumes "lpath nx t (us @ et # vs)" "us \<noteq> []" "et \<notin> set us"
  shows "find_previous nx et t = Some (last us)"
  using assms
proof (induction us arbitrary: t)
  case (Cons x xs)
  show ?case
  proof (cases xs)
    case Nil
    with Cons.prems show ?thesis by (subst find_previous.simps) auto
  next
    case (Cons y ys)
    with Cons.prems Cons.IH [of "nx x"] show ?thesis by (subst find_previous.simps) auto
  qed
qed simp

lemma find_previous_absent:
  assumes "lpath nx t ts" "et \<notin> set ts" "et \<noteq> NULL"
  shows "find_previous nx et t = Some NULL"
  using assms
proof (induction ts arbitrary: t)
  case Nil
  then show ?case by (subst find_previous.simps) simp
next
  case (Cons x xs)
  then have "nx x \<noteq> et" by (cases xs) auto
  with Cons show ?case by (subst find_previous.simps) auto
qed

lemma lpath_unlink:
  assumes "lpath nx p (us @ et # vs)" "us \<noteq> []"
  shows "lpath (nx(last us := nx et, et := q)) p (us @ vs)"
proof -
  obtain ws w where us: "us = ws @ [w]" using assms(2) by (cases us rule: rev_cases) auto
  from lpath_distinct [OF assms(1)] have "w \<notin> set ws" "w \<noteq> et" "w \<notin> set vs" "et \<notin> set ws" "et \<notin> set vs"
    by (auto simp: us)
  with assms(1) us show ?thesis by (auto simp: lpath_append lseg_snoc)
qed

lemma etimer_stop_spec:
  assumes "timers_wf s ts" "et \<noteq> NULL"
  shows "\<exists>s'. etimer_stop now et s = Some s' \<and> timers_wf s' (remove1 et ts) \<and>
    et_p s' = (et_p s)(et := PROCESS_NONE) \<and> et_timer s' = et_timer s \<and> et_next s' et = NULL"
proof -
  have path: "lpath (et_next s) (timerlist s) ts" and ps: "\<forall>t \<in> set ts. et_p s t \<noteq> 0"
    using assms(1) by (auto simp: timers_wf_def timers_path_def)
  have dist: "distinct ts" using path by (rule lpath_distinct)
  consider "ts = []" | vs where "ts = et # vs" | "et \<notin> set ts" "ts \<noteq> []"
    | us vs where "ts = us @ et # vs" "us \<noteq> []"
    by (metis append_Nil list.exhaust split_list)
  then show ?thesis
  proof cases
    case 1
    with path assms(2) have "etimer_stop now et s = Some (s\<lparr>et_next := (et_next s)(et := NULL), et_p := (et_p s)(et := 0)\<rparr>)"
      using find_previous_absent [of "et_next s" "timerlist s" ts et] by (simp add: etimer_stop_def)
    with 1 path show ?thesis by (simp add: timers_wf_def timers_path_def)
  next
    case 2
    define s1 where "s1 = s\<lparr>timerlist := et_next s et\<rparr>"
    have head: "timerlist s = et" "timers_path s1 vs" using path 2 by (auto simp: s1_def timers_path_def)
    from update_time_path [OF head(2), of now] head(1)
    have "etimer_stop now et s = Some (s1\<lparr>next_expiration := nearest now s1 vs,
        et_next := (et_next s1)(et := NULL), et_p := (et_p s1)(et := 0)\<rparr>)"
      by (simp add: etimer_stop_def flip: s1_def)
    with head 2 dist ps show ?thesis by (auto simp: timers_wf_def timers_path_def s1_def)
  next
    case 3
    with path have "et \<noteq> timerlist s" by (cases ts) auto
    with 3 path assms(2) have "etimer_stop now et s = Some (s\<lparr>et_next := (et_next s)(et := NULL), et_p := (et_p s)(et := 0)\<rparr>)"
      using find_previous_absent [of "et_next s" "timerlist s" ts et] by (simp add: etimer_stop_def)
    with 3 path ps show ?thesis
      by (auto simp: timers_wf_def timers_path_def remove1_idem)
  next
    case 4
    then have nh: "et \<noteq> timerlist s" "et \<notin> set us" "et \<notin> set vs" using path dist by (cases us; auto)+
    have prev: "find_previous (et_next s) et (timerlist s) = Some (last us)" "last us \<noteq> NULL"
      using find_previous_path [of "et_next s" "timerlist s" us et vs] lpath_nonNULL [OF path] path 4 nh
        last_in_set [of us] by (auto simp del: last_in_set intro: gr0I)
    define s1 where "s1 = s\<lparr>et_next := (et_next s)(last us := et_next s et)\<rparr>"
    have path1: "timers_path s1 (us @ vs)"
    proof -
      have "lpath ((et_next s)(last us := et_next s et, et := et_next s et)) (timerlist s) (us @ vs)"
        using lpath_unlink path 4 by metis
      moreover have "last us \<noteq> et" using nh(2) 4(2) last_in_set by metis
      ultimately show ?thesis
        by (simp add: s1_def timers_path_def fun_upd_twist [of "last us" et])
    qed
    from update_time_path [OF this, of now] prev nh(1)
    have "etimer_stop now et s = Some (s1\<lparr>next_expiration := nearest now s1 (us @ vs),
        et_next := (et_next s1)(et := NULL), et_p := (et_p s1)(et := 0)\<rparr>)"
      by (simp add: etimer_stop_def flip: s1_def)
    moreover have "remove1 et ts = us @ vs" using 4 nh by (simp add: remove1_append)
    moreover have "et_p s1 = et_p s" "et_timer s1 = et_timer s" by (simp_all add: s1_def)
    ultimately show ?thesis using path1 nh ps 4 by (auto simp: timers_wf_def timers_path_def)
  qed
qed

text \<open>What setting and stopping a timer leave alone.\<close>

definition timers_frame :: "'a etimers_scheme \<Rightarrow> 'a etimers_scheme \<Rightarrow> bool" where
  "timers_frame s s' \<longleftrightarrow> event_queue s' = event_queue s \<and> ring_wf s' = ring_wf s \<and> events s' = events s \<and>
     process_current s' = process_current s \<and> process_list s' = process_list s \<and> p_next s' = p_next s \<and>
     p_state s' = p_state s \<and> p_pt s' = p_pt s \<and> etimers.more s' = etimers.more s"

lemma timers_frame_refl [simp]: "timers_frame s s"
  by (simp add: timers_frame_def)

lemma timers_frame_trans: "timers_frame s s' \<Longrightarrow> timers_frame s' s'' \<Longrightarrow> timers_frame s s''"
  by (auto simp: timers_frame_def)

lemma timers_frame_update [simp]:
  "timers_frame s (s\<lparr>next_expiration := e\<rparr>)" "timers_frame s (s\<lparr>et_timer := tm\<rparr>)"
  "timers_frame s (s\<lparr>timerlist := l\<rparr>)" "timers_frame s (s\<lparr>et_next := nx\<rparr>)" "timers_frame s (s\<lparr>et_p := ps\<rparr>)"
  "timers_frame s (process_poll p s)"
  by (simp_all add: timers_frame_def process_poll_def event_queue_def ring_wf_def)

lemma update_time_frame: "update_time now s = Some s' \<Longrightarrow> timers_frame s s'"
  by (auto simp: update_time_def Let_def bind_eq_Some_conv split: if_splits)

lemma add_timer_frame: 
  assumes "add_timer ep now timer s = Some s'"
  shows "timers_frame s s'"
proof -
  have own: "timers_frame s (own_timer ep timer s)"
    unfolding own_timer_def by (rule timers_frame_trans [OF timers_frame_update(6) timers_frame_update(5)])
  have "timers_frame t (push_timer timer t)" for t :: "'a etimers_scheme"
    unfolding push_timer_def by (rule timers_frame_trans [OF timers_frame_update(4) timers_frame_update(3)])
  with own have "timers_frame s (if listed then own_timer ep timer s else push_timer timer (own_timer ep timer s))"
    for listed using timers_frame_trans by auto
  with assms show ?thesis
    unfolding add_timer_eq bind_eq_Some_conv using timers_frame_trans update_time_frame by blast
qed

lemma etimer_ops_frame:
  "etimer_set ep now et i s = Some s' \<Longrightarrow> timers_frame s s'"
  "etimer_reset ep now et s = Some s' \<Longrightarrow> timers_frame s s'"
  "etimer_restart ep now et s = Some s' \<Longrightarrow> timers_frame s s'"
  "etimer_reset_with_new_interval ep now et i s = Some s' \<Longrightarrow> timers_frame s s'"
  unfolding etimer_set_def etimer_reset_def etimer_restart_def etimer_reset_with_new_interval_def
  by (blast intro: timers_frame_trans [OF timers_frame_update(2) add_timer_frame])+

lemma etimer_stop_frame:
  assumes "etimer_stop now et s = Some s'"
  shows "timers_frame s s'"
proof -
  have close: "timers_frame t (t\<lparr>et_next := nx, et_p := ps\<rparr>)" for t :: "'a etimers_scheme" and nx ps
    by (rule timers_frame_trans [OF timers_frame_update(4) timers_frame_update(5)])
  obtain s1 where s1: "s' = s1\<lparr>et_next := (et_next s1)(et := NULL), et_p := (et_p s1)(et := PROCESS_NONE)\<rparr>"
    and cut: "(if et = timerlist s then update_time now (s\<lparr>timerlist := et_next s (timerlist s)\<rparr>)
        else Option.bind (find_previous (et_next s) et (timerlist s)) (\<lambda>t.
          if t \<noteq> NULL then update_time now (s\<lparr>et_next := (et_next s)(t := et_next s et)\<rparr>) else Some s)) = Some s1"
    using assms by (auto simp: etimer_stop_def)
  have upd: "update_time now (s\<lparr>timerlist := l\<rparr>) = Some s1 \<Longrightarrow> timers_frame s s1"
    "update_time now (s\<lparr>et_next := nx\<rparr>) = Some s1 \<Longrightarrow> timers_frame s s1" for l nx
    using timers_frame_trans [OF timers_frame_update(3) update_time_frame]
      timers_frame_trans [OF timers_frame_update(4) update_time_frame] by blast+
  have "timers_frame s s1"
  proof (cases "et = timerlist s")
    case True
    with cut show ?thesis by (intro upd(1)) simp
  next
    case False
    with cut obtain t where "(if t \<noteq> NULL then update_time now (s\<lparr>et_next := (et_next s)(t := et_next s et)\<rparr>)
        else Some s) = Some s1" by (auto simp: bind_eq_Some_conv)
    then show ?thesis by (cases "t = NULL") (simp_all add: upd(2))
  qed
  then show ?thesis unfolding s1 by (rule timers_frame_trans [OF _ close])
qed

section \<open>When a process exits\<close>

lemma exited_head_path:
  assumes "timers_path s ts"
  shows "exited_head p s = Some (s\<lparr>timerlist := hd (dropWhile (\<lambda>t. et_p s t = p) ts @ [NULL])\<rparr>)"
    and "timers_path (s\<lparr>timerlist := hd (dropWhile (\<lambda>t. et_p s t = p) ts @ [NULL])\<rparr>) (dropWhile (\<lambda>t. et_p s t = p) ts)"
  using assms
proof (induction ts arbitrary: s)
  case Nil
  case 1
  then have "s\<lparr>timerlist := NULL\<rparr> = s" by (simp add: timers_path_def)
  with 1 show ?case by (subst exited_head.simps) (simp add: timers_path_def)
next
  case Nil
  case 2
  then show ?case by (simp add: timers_path_def)
next
  case (Cons x xs)
  case 1
  let ?s = "s\<lparr>timerlist := et_next s x\<rparr>"
  from 1 have x: "timerlist s = x" "x \<noteq> NULL" "timers_path ?s xs" by (auto simp: timers_path_def)
  from x(1) have "s\<lparr>timerlist := x\<rparr> = s" by simp
  with Cons(1) [OF x(3)] x show ?case by (subst exited_head.simps) auto
next
  case (Cons x xs)
  case 2
  let ?s = "s\<lparr>timerlist := et_next s x\<rparr>"
  from 2 have x: "timerlist s = x" "x \<noteq> NULL" "timers_path ?s xs" by (auto simp: timers_path_def)
  from Cons(2) [OF x(3)] x 2 show ?case by (auto simp: timers_path_def)
qed

lemma exited_walk_path:
  assumes "lpath (et_next s) t (t # ts)"
  shows "\<exists>nx. exited_walk p t s = Some (s\<lparr>et_next := nx\<rparr>) \<and>
    lpath nx t (t # filter (\<lambda>x. et_p s x \<noteq> p) ts) \<and> (\<forall>x. x \<notin> set (t # ts) \<longrightarrow> nx x = et_next s x)"
  using assms
proof (induction ts arbitrary: t s)
  case Nil
  then have "exited_walk p t s = Some s" by (subst exited_walk.simps) simp
  with Nil show ?case by (intro exI [of _ "et_next s"]) simp
next
  case (Cons y ys)
  then have y: "t \<noteq> NULL" "et_next s t = y" "y \<noteq> NULL" "lpath (et_next s) (et_next s y) ys"
    "t \<notin> set (y # ys)" "y \<notin> set ys" using lpath_distinct [OF Cons.prems] by auto
  show ?case
  proof (cases "et_p s y = p")
    case True
    let ?s = "s\<lparr>et_next := (et_next s)(t := et_next s y)\<rparr>"
    have "lpath (et_next ?s) t (t # ys)" using y by simp
    from Cons.IH [OF this] obtain nx where nx: "exited_walk p t ?s = Some (?s\<lparr>et_next := nx\<rparr>)"
      "lpath nx t (t # filter (\<lambda>x. et_p s x \<noteq> p) ys)" "\<forall>x. x \<notin> set (t # ys) \<longrightarrow> nx x = et_next ?s x"
      by auto
    have "exited_walk p t s = exited_walk p t ?s"
      using y True by (subst exited_walk.simps) simp
    with nx True y show ?thesis by (intro exI [of _ nx]) simp
  next
    case False
    have "lpath (et_next s) y (y # ys)" using y by simp
    from Cons.IH [OF this] obtain nx where nx: "exited_walk p y s = Some (s\<lparr>et_next := nx\<rparr>)"
      "lpath nx y (y # filter (\<lambda>x. et_p s x \<noteq> p) ys)" "\<forall>x. x \<notin> set (y # ys) \<longrightarrow> nx x = et_next s x"
      by blast
    have "exited_walk p t s = exited_walk p y s"
      using y False by (subst exited_walk.simps) simp
    moreover have "nx t = y" using nx(3) y by simp
    ultimately show ?thesis using nx False y by (intro exI [of _ nx]) simp
  qed
qed

lemma timers_exited_spec:
  assumes "timers_path s ts"
  shows "\<exists>h nx. timers_exited p s = Some (s\<lparr>timerlist := h, et_next := nx\<rparr>) \<and>
    lpath nx h (filter (\<lambda>t. et_p s t \<noteq> p) ts)"
proof -
  define r where "r = dropWhile (\<lambda>t. et_p s t = p) ts"
  define s1 where "s1 = s\<lparr>timerlist := hd (r @ [NULL])\<rparr>"
  have h: "exited_head p s = Some s1" "timers_path s1 r"
    using exited_head_path [OF assms, of p] by (simp_all add: r_def s1_def)
  have kept: "filter (\<lambda>t. et_p s t \<noteq> p) ts = filter (\<lambda>t. et_p s t \<noteq> p) r"
    unfolding r_def by (induction ts) auto
  show ?thesis
  proof (cases r)
    case Nil
    with h kept show ?thesis
      by (intro exI [of _ NULL] exI [of _ "et_next s"]) (simp add: timers_exited_def s1_def)
  next
    case (Cons y ys)
    then have "et_p s y \<noteq> p" using hd_dropWhile [of "\<lambda>t. et_p s t = p" ts] by (simp add: r_def)
    have y: "timerlist s1 = y" "y \<noteq> NULL" "lpath (et_next s1) y (y # ys)"
      using h(2) Cons by (auto simp: timers_path_def)
    from exited_walk_path [OF y(3), of p] obtain nx where
      "exited_walk p y s1 = Some (s1\<lparr>et_next := nx\<rparr>)" "lpath nx y (y # filter (\<lambda>x. et_p s1 x \<noteq> p) ys)" by blast
    with h y Cons kept \<open>et_p s y \<noteq> p\<close> show ?thesis
      by (intro exI [of _ y] exI [of _ nx]) (simp add: timers_exited_def s1_def)
  qed
qed

section \<open>Expiry\<close>

definition due :: "clock_time \<Rightarrow> 'a etimers_scheme \<Rightarrow> ptr list \<Rightarrow> ptr list" where
  "due now s ts = filter (\<lambda>t. timer_expired now (et_timer s t)) ts"

definition room :: "'a kernel_scheme \<Rightarrow> nat" where
  "room s = length (events s) - unat (nevents s)"

definition timer_event :: "'a etimers_scheme \<Rightarrow> ptr \<Rightarrow> event_data" where
  "timer_event s t = \<lparr>ed_ev = PROCESS_EVENT_TIMER, ed_data = t, ed_p = et_p s t\<rparr>"

text \<open>
  From \<open>s\<close> to \<open>s'\<close> exactly the timers \<open>ps\<close> of the list \<open>ts\<close> have expired: their events are queued
  for their owners, in this order, they are off the list and marked as expired, and nothing else
  about the timers and the processes has changed.
\<close>

definition expired_step :: "'a etimers_scheme \<Rightarrow> 'a etimers_scheme \<Rightarrow> ptr list \<Rightarrow> ptr list \<Rightarrow> bool" where
  "expired_step s s' ts ps \<longleftrightarrow>
     timers_path s' (filter (\<lambda>t. t \<notin> set ps) ts) \<and> ring_wf s' \<and> length (events s') = length (events s) \<and>
     event_queue s' = event_queue s @ map (timer_event s) ps \<and>
     et_timer s' = et_timer s \<and> et_p s' = (\<lambda>t. if t \<in> set ps then PROCESS_NONE else et_p s t) \<and>
     process_list s' = process_list s \<and> p_next s' = p_next s \<and> p_state s' = p_state s \<and>
     process_current s' = process_current s \<and> p_pt s' = p_pt s \<and> etimers.more s' = etimers.more s"

lemma expired_step_refl: "timers_path s ts \<Longrightarrow> ring_wf s \<Longrightarrow> expired_step s s ts []"
  by (simp add: expired_step_def)

lemma process_poll_kernel [simp]:
  "process_list (process_poll p s) = process_list s" "p_next (process_poll p s) = p_next s"
  "event_queue (process_poll p s) = event_queue s" "ring_wf (process_poll p s) = ring_wf s"
  by (simp_all add: process_poll_def event_queue_def ring_wf_def)

lemma etimers_more_frame [simp]:
  "etimers.more (process_poll p s) = etimers.more s"
  "etimers.more (snd (process_post p ev d s)) = etimers.more s"
  by (simp_all add: process_poll_def process_post_def Let_def)

lemma expired_step_poll: "expired_step (process_poll ep s) s' ts ps \<Longrightarrow> expired_step s s' ts ps"
  by (simp add: expired_step_def timer_event_def [abs_def] cong: if_cong)

lemma expired_step_expiration:
  "expired_step (s\<lparr>next_expiration := e\<rparr>) s' ts ps = expired_step s s' ts ps"
  using event_queue_cong [of "s\<lparr>next_expiration := e\<rparr>" s]
  by (simp add: expired_step_def timer_event_def [abs_def] cong: if_cong)

lemma process_post_etimers [simp]:
  "timerlist (snd (process_post p ev d s)) = timerlist s" "et_timer (snd (process_post p ev d s)) = et_timer s"
  "et_next (snd (process_post p ev d s)) = et_next s" "et_p (snd (process_post p ev d s)) = et_p s"
  by (simp_all add: process_post_def Let_def)

text \<open>One timer posted and unlinked, before the search starts again.\<close>

definition post_timer :: "ptr \<Rightarrow> ptr \<Rightarrow> 'a etimers_scheme \<Rightarrow> 'a etimers_scheme" where
  "post_timer u t s =
     (let s1 = snd (process_post (et_p s t) PROCESS_EVENT_TIMER t s);
          s2 = s1\<lparr>et_p := (et_p s1)(t := PROCESS_NONE)\<rparr>;
          s3 = (if u \<noteq> NULL then s2\<lparr>et_next := (et_next s2)(u := et_next s2 t)\<rparr>
                else s2\<lparr>timerlist := et_next s2 t\<rparr>)
      in s3\<lparr>et_next := (et_next s3)(t := NULL)\<rparr>)"

lemma post_timer_step:
  assumes "ring_wf s" "0 < room s" "timers_path s (us @ t # vs)" "u = (if us = [] then NULL else last us)"
  shows "expired_step s (post_timer u t s) (us @ t # vs) [t]" "room (post_timer u t s) = room s - 1"
proof -
  define s1 where "s1 = snd (process_post (et_p s t) PROCESS_EVENT_TIMER t s)"
  have rm: "unat (nevents s) < length (events s)" using assms(2) by (simp add: room_def)
  have ring: "ring_wf s1" "length (events s1) = length (events s)"
    using process_post_wf [OF assms(1)] by (simp_all add: s1_def)
  have q: "event_queue s1 = event_queue s @ [timer_event s t]"
    using process_post_stores [OF assms(1) rm, of "et_p s t" PROCESS_EVENT_TIMER t]
    by (cases "process_post (et_p s t) PROCESS_EVENT_TIMER t s") (auto simp: s1_def timer_event_def)
  from q have "unat (nevents s1) = Suc (unat (nevents s))" by (metis length_pending length_append_singleton)
  then have r: "room s1 = room s - 1" using ring by (simp add: room_def)
  have same: "etimers.more s1 = etimers.more s" "et_next s1 = et_next s" "timerlist s1 = timerlist s" "et_p s1 = et_p s" "et_timer s1 = et_timer s"
    "process_list s1 = process_list s" "p_next s1 = p_next s" "p_state s1 = p_state s"
    "process_current s1 = process_current s" "p_pt s1 = p_pt s"
    by (simp_all add: s1_def)
  have dist: "distinct (us @ t # vs)" using assms(3) unfolding timers_path_def by (rule lpath_distinct)
  have rest: "filter (\<lambda>x. x \<notin> set [t]) (us @ t # vs) = us @ vs"
    using dist by (auto intro!: arg_cong2 [where f = append] filter_True)
  have nn: "NULL \<notin> set (us @ t # vs)" using assms(3) unfolding timers_path_def by (rule lpath_nonNULL)
  define w where "w = post_timer u t s"
  have w: "et_p w = (et_p s)(t := 0)" "events w = events s1" "nevents w = nevents s1" "fevent w = fevent s1"
    "et_timer w = et_timer s" "process_list w = process_list s" "p_next w = p_next s" "p_state w = p_state s"
    "process_current w = process_current s" "p_pt w = p_pt s" "etimers.more w = etimers.more s"
    "timerlist w = (if u = 0 then et_next s t else timerlist s)"
    "et_next w = (if u = 0 then (et_next s)(t := 0) else (et_next s)(u := et_next s t, t := 0))"
    by (simp_all add: w_def post_timer_def Let_def same flip: s1_def)
  have "timers_path w (us @ vs)"
  proof (cases "us = []")
    case True
    with assms(3,4) dist w show ?thesis by (simp add: timers_path_def)
  next
    case False
    then have "u \<noteq> NULL" "u = last us" using nn assms(4) last_in_set [of us] by (auto simp del: last_in_set intro: gr0I)
    moreover have "lpath ((et_next s)(last us := et_next s t, t := 0)) (timerlist s) (us @ vs)"
      using assms(3) False by (intro lpath_unlink) (simp_all add: timers_path_def)
    ultimately show ?thesis using w by (simp add: timers_path_def)
  qed
  moreover have "event_queue w = event_queue s1" "ring_wf w = ring_wf s1" using w
    by (simp_all add: event_queue_def ring_wf_def)
  ultimately show "expired_step s (post_timer u t s) (us @ t # vs) [t]"
    unfolding expired_step_def w_def [symmetric] rest using w q ring by auto
  show "room (post_timer u t s) = room s - 1"
    unfolding w_def [symmetric] using w r by (simp add: room_def)
qed

lemma expired_step_next:
  assumes "expired_step s w ts [t]" "expired_step w s' (filter (\<lambda>x. x \<notin> set [t]) ts) ps"
    and "t \<notin> set ps"
  shows "expired_step s s' ts (t # ps)"
proof -
  have "map (timer_event w) ps = map (timer_event s) ps"
    using assms(1,3) by (auto simp: expired_step_def timer_event_def)
  moreover have "filter (\<lambda>x. x \<notin> set ps) (filter (\<lambda>x. x \<notin> set [t]) ts) = filter (\<lambda>x. x \<notin> set (t # ps)) ts"
    by (auto intro: filter_cong)
  ultimately show ?thesis using assms(1,2) unfolding expired_step_def by (auto simp: fun_eq_iff)
qed

lemma expire_scan_measured:
  fixes s :: "'a etimers_scheme"
  assumes "ring_wf s" "timers_path s (us @ vs)" "lpath (et_next s) t vs"
    and "u = (if us = [] then NULL else last us)" "due now s us \<noteq> [] \<longrightarrow> room s = 0"
    and "length (us @ vs) = n"
  shows "\<exists>s'. expire_scan ep now u t s = Some s' \<and>
    expired_step s s' (us @ vs) (take (room s) (due now s (us @ vs)))"
  using assms
proof (induction n arbitrary: us vs t u s rule: less_induct)
  case (less n)
  have outer: "\<exists>s'. expire_scan ep now u t s = Some s' \<and>
      expired_step s s' (us @ vs) (take (room s) (due now s (us @ vs)))"
    if "length (us @ vs) < n" "ring_wf s" "timers_path s (us @ vs)" "lpath (et_next s) t vs"
      "u = (if us = [] then NULL else last us)" "due now s us \<noteq> [] \<longrightarrow> room s = 0" for us vs t u and s :: "'a etimers_scheme"
    using less.IH [OF that(1-6)] by simp
  from less.prems show ?case
  proof (induction vs arbitrary: us t u s)
    case Nil
    then have "take (room s) (due now s us) = []" by (cases "due now s us = []") auto
    with expired_step_refl [of s us] Nil show ?case by (subst expire_scan.simps) (simp del: take_eq_Nil)
  next
    case (Cons x xs)
    then have x: "t = x" "x \<noteq> NULL" "lpath (et_next s) (et_next s x) xs" by auto
    have path: "timers_path s ((us @ [x]) @ xs)" using Cons.prems(2) by simp
    show ?case
    proof (cases "timer_expired now (et_timer s x)")
      case False
      from Cons.IH [OF Cons.prems(1) path x(3), of x] False Cons.prems(5,6) x(1,2) show ?thesis
        by (subst expire_scan.simps) (simp add: due_def)
    next
      case True
      show ?thesis
      proof (cases "room s = 0")
        case True
        then have full: "unat (nevents s) = length (events s)"
          using Cons.prems(1) by (simp add: room_def ring_wf_def)
        define w where "w = process_poll ep s"
        have "expire_scan ep now u t s = expire_scan ep now x (et_next w x) w"
          using \<open>timer_expired now (et_timer s x)\<close> x full
          by (subst expire_scan.simps) (simp add: process_post_full etimer_request_poll_def Let_def w_def)
        moreover have "ring_wf w" "timers_path w ((us @ [x]) @ xs)" "lpath (et_next w) (et_next w x) xs" "room w = 0"
          using Cons.prems(1) path x(3) True by (simp_all add: w_def timers_path_def room_def)
        from Cons.IH [OF this(1-3), of x] this(4) Cons.prems(6) obtain s' where
          "expire_scan ep now x (et_next w x) w = Some s'" "expired_step w s' (us @ x # xs) []" by auto
        ultimately show ?thesis using True expired_step_poll by (auto simp: w_def)
      next
        case False
        then have rm: "0 < room s" "due now s us = []" using Cons.prems(5) by auto
        define w where "w = post_timer u x s"
        have post: "process_post (et_p s x) PROCESS_EVENT_TIMER x s =
            (PROCESS_ERR_OK, snd (process_post (et_p s x) PROCESS_EVENT_TIMER x s))"
          using rm(1) by (simp add: process_post_def room_def Let_def)
        note step = post_timer_step [OF Cons.prems(1) rm(1) Cons.prems(2,4), folded w_def]
        have dist: "distinct (us @ x # xs)" using Cons.prems(2) unfolding timers_path_def by (rule lpath_distinct)
        have rest: "filter (\<lambda>y. y \<notin> set [x]) (us @ x # xs) = us @ xs"
          using dist by (auto intro!: arg_cong2 [where f = append] filter_True)
        have wp: "timers_path w (us @ xs)" "ring_wf w" "et_timer w = et_timer s"
          using step(1) rest by (simp_all add: expired_step_def)
        define v where "v = w\<lparr>next_expiration := nearest now w (us @ xs)\<rparr>"
        have scan: "expire_scan ep now u t s = expire_scan ep now NULL (timerlist v) v"
          unfolding x(1)
          by (subst expire_scan.simps, subst post)
            (use x \<open>timer_expired now (et_timer s x)\<close> update_time_path [OF wp(1), of now]
              in \<open>simp add: w_def post_timer_def Let_def v_def\<close>)
        have vp: "ring_wf v" "timers_path v ([] @ (us @ xs))" "lpath (et_next v) (timerlist v) (us @ xs)"
          "room v = room s - 1" "et_timer v = et_timer s"
          using wp step(2) by (simp_all add: v_def timers_path_def ring_wf_def room_def)
        have "due now v (us @ xs) = due now s xs" using rm(2) vp(5) by (simp add: due_def)
        with outer [of "[]" "us @ xs" v "timerlist v" NULL] vp Cons.prems(6) obtain s' where s':
          "expire_scan ep now NULL (timerlist v) v = Some s'"
          "expired_step v s' (us @ xs) (take (room s - 1) (due now s xs))" by (auto simp: due_def)
        have "expired_step w s' (us @ xs) (take (room s - 1) (due now s xs))"
          using s'(2) by (simp add: v_def expired_step_expiration)
        moreover have "x \<notin> set (take (room s - 1) (due now s xs))"
          using dist by (auto simp: due_def dest: in_set_takeD)
        ultimately have "expired_step s s' (us @ x # xs) (x # take (room s - 1) (due now s xs))"
          using expired_step_next [OF step(1)] rest by simp
        moreover have "take (room s) (due now s (us @ x # xs)) = x # take (room s - 1) (due now s xs)"
          using rm True by (cases "room s") (simp_all add: due_def)
        ultimately show ?thesis using scan s'(1) by simp
      qed
    qed
  qed
qed

lemmas expire_scan_spec = expire_scan_measured [OF _ _ _ _ _ refl]

text \<open>
  A poll of \<open>etimer_process\<close>: of the timers that have expired, as many as the event queue has
  room for are posted to their owners and taken off the list, in list order; the others stay.
\<close>

lemma etimer_poll_spec:
  assumes "ring_wf s" "timers_path s ts" "p_pt s ep \<noteq> 0"
  shows "\<exists>s'. etimer_thread ep now PROCESS_EVENT_POLL d s = Some s' \<and>
    expired_step s s' ts (take (room s) (due now s ts))"
  using expire_scan_spec [of s "[]" ts "timerlist s" NULL now ep] assms
  by (simp add: etimer_thread_def timers_path_def due_def)

lemma etimer_poll_wf:
  assumes "ring_wf s" "timers_wf s ts" "p_pt s ep \<noteq> 0"
  shows "\<exists>s'. etimer_thread ep now PROCESS_EVENT_POLL d s = Some s' \<and>
    timers_wf s' (filter (\<lambda>t. t \<notin> set (take (room s) (due now s ts))) ts)"
  using etimer_poll_spec [of s ts ep now d] assms by (auto simp: timers_wf_def expired_step_def)

section \<open>Timers set outside every process\<close>

text \<open>
  When no process is current, \<open>add_timer\<close> leaves the owner \<open>PROCESS_NONE\<close>: the timer counts as
  expired at once, its event will go to every process, and a second \<open>etimer_set\<close> does not look for
  it on the list. It is linked to itself, and \<open>update_time\<close> does not return.
\<close>

lemma tdist_walk_cycle:
  assumes "et_next s t = t" "t \<noteq> NULL"
  shows "tdist_walk s now t d = None"
proof -
  have "tdist_walk s now t e = Some r \<Longrightarrow> et_next s t = t \<longrightarrow> t \<noteq> NULL \<longrightarrow> False" for e r
  proof (induction rule: tdist_walk.raw_induct [rotated, consumes 1, case_names step])
    case (step rec s now t e r)
    from step(2) step(1) [of s now t] show ?case by (auto split: if_splits)
  qed
  with assms show ?thesis by (metis not_None_eq)
qed

lemma etimer_set_orphan:
  assumes "timers_path s ts" "et \<noteq> NULL" "et \<notin> set ts" "process_current s = NULL"
  shows "\<exists>s'. etimer_set ep now et i s = Some s' \<and> etimer_expired s' et \<and> timerlist s' = et \<and>
    process_current s' = NULL \<and> timers_path s' (et # ts)"
proof -
  let ?s = "s\<lparr>et_timer := (et_timer s)(et := timer_set now i (et_timer s et))\<rparr>"
  have "timers_path ?s ts" using assms(1) by (simp add: timers_path_def)
  from add_timer_new [OF this assms(3,2)] assms(4) show ?thesis
    by (simp add: etimer_set_def etimer_expired_def timers_path_def) (simp add: push_timer_def own_timer_def)
qed

lemma etimer_set_twice_hangs:
  assumes "timerlist s = et" "et \<noteq> NULL" "et_p s et = PROCESS_NONE"
  shows "etimer_set ep now et i s = None"
proof -
  let ?s = "s\<lparr>et_timer := (et_timer s)(et := timer_set now i (et_timer s et))\<rparr>"
  have "tdist_walk (push_timer et (own_timer ep et ?s)) now et d = None" for d
    using assms by (intro tdist_walk_cycle) simp_all
  then have "update_time now (push_timer et (own_timer ep et ?s)) = None"
    using assms by (simp add: update_time_def)
  then show ?thesis using assms by (simp add: etimer_set_def add_timer_eq)
qed

end
