(* ===== verification/Contiki_Ctimer.thy ===== *)
theory Contiki_Ctimer imports Contiki_Etimer begin

text \<open>
  The callback timers, \<open>os/sys/ctimer.c\<close>: each holds an event timer owned by \<open>ctimer_process\<close>,
  and when its event arrives the process takes the callback timer off its list and calls the
  function it holds, in the context of the process that set it.

  The functions are code of the application: a parameter \<open>call\<close>, from the function pointer and
  its argument to an effect on the state. \<open>cp\<close> is the address of \<open>ctimer_process\<close>. Proved is that a
  callback timer on the list always has its event timer running or the event waiting in the queue, so
  that no callback is lost; and that a timer set again while its old event waits in the
  queue fires at that event, before its time.
\<close>

record ctimers = etimers +
  ctimer_list :: list_state
  initialized :: bool
  ct_p :: "ptr \<Rightarrow> ptr"
  ct_f :: "ptr \<Rightarrow> ptr"
  ct_ptr :: "ptr \<Rightarrow> ptr"

text \<open>\<open>&c->etimer\<close>: the event timer follows the link field, on a 64-bit machine.\<close>

definition etimer_of :: "ptr \<Rightarrow> ptr" where
  "etimer_of c = c + 8"

type_synonym 's callbacks = "ptr \<Rightarrow> ptr \<Rightarrow> 's \<Rightarrow> 's option"

section \<open>The operations\<close>

text \<open>\<open>PROCESS_CONTEXT_BEGIN\<close> and \<open>PROCESS_CONTEXT_END\<close> around \<open>f\<close>.\<close>

definition in_context :: "ptr \<Rightarrow> ('a kernel_scheme \<Rightarrow> 'a kernel_scheme option) \<Rightarrow> 'a kernel_scheme \<Rightarrow> 'a kernel_scheme option" where
  "in_context p f s =
     map_option (\<lambda>s1. s1\<lparr>process_current := process_current s\<rparr>) (f (s\<lparr>process_current := p\<rparr>))"

definition ctimer_add :: "ptr \<Rightarrow> 'a ctimers_scheme \<Rightarrow> 'a ctimers_scheme option" where
  "ctimer_add c s = map_option (\<lambda>l. s\<lparr>ctimer_list := l\<rparr>) (list_add c (ctimer_list s))"

definition ctimer_set_with_process ::
  "ptr \<Rightarrow> ptr \<Rightarrow> clock_time \<Rightarrow> ptr \<Rightarrow> clock_time \<Rightarrow> ptr \<Rightarrow> ptr \<Rightarrow> ptr \<Rightarrow> 'a ctimers_scheme \<Rightarrow> 'a ctimers_scheme option" where
  "ctimer_set_with_process ep cp now c t f aptr p s =
     (let s1 = s\<lparr>ct_p := (ct_p s)(c := p), ct_f := (ct_f s)(c := f), ct_ptr := (ct_ptr s)(c := aptr)\<rparr> in
      Option.bind
        (if initialized s1 then in_context cp (etimer_set ep now (etimer_of c) t) s1
         else Some (s1\<lparr>et_timer := (et_timer s1)(etimer_of c := (et_timer s1 (etimer_of c))\<lparr>interval := t\<rparr>)\<rparr>))
        (ctimer_add c))"

definition ctimer_set ::
  "ptr \<Rightarrow> ptr \<Rightarrow> clock_time \<Rightarrow> ptr \<Rightarrow> clock_time \<Rightarrow> ptr \<Rightarrow> ptr \<Rightarrow> 'a ctimers_scheme \<Rightarrow> 'a ctimers_scheme option" where
  "ctimer_set ep cp now c t f aptr s = ctimer_set_with_process ep cp now c t f aptr (process_current s) s"

definition ctimer_reset :: "ptr \<Rightarrow> ptr \<Rightarrow> clock_time \<Rightarrow> ptr \<Rightarrow> 'a ctimers_scheme \<Rightarrow> 'a ctimers_scheme option" where
  "ctimer_reset ep cp now c s =
     Option.bind (if initialized s then in_context cp (etimer_reset ep now (etimer_of c)) s else Some s) (ctimer_add c)"

definition ctimer_restart :: "ptr \<Rightarrow> ptr \<Rightarrow> clock_time \<Rightarrow> ptr \<Rightarrow> 'a ctimers_scheme \<Rightarrow> 'a ctimers_scheme option" where
  "ctimer_restart ep cp now c s =
     Option.bind (if initialized s then in_context cp (etimer_restart ep now (etimer_of c)) s else Some s) (ctimer_add c)"

definition ctimer_unlist :: "ptr \<Rightarrow> 'a ctimers_scheme \<Rightarrow> 'a ctimers_scheme option" where
  "ctimer_unlist c s = map_option (\<lambda>l. s\<lparr>ctimer_list := l\<rparr>) (list_remove c (ctimer_list s))"

definition ctimer_stop :: "clock_time \<Rightarrow> ptr \<Rightarrow> 'a ctimers_scheme \<Rightarrow> 'a ctimers_scheme option" where
  "ctimer_stop now c s =
     Option.bind
       (if initialized s then etimer_stop now (etimer_of c) s
        else Some (s\<lparr>et_next := (et_next s)(etimer_of c := NULL), et_p := (et_p s)(etimer_of c := PROCESS_NONE)\<rparr>))
       (ctimer_unlist c)"

definition ctimer_expired :: "'a ctimers_scheme \<Rightarrow> ptr \<Rightarrow> bool option" where
  "ctimer_expired s c =
     (if initialized s then Some (etimer_expired s (etimer_of c))
      else map_option Not (list_contains (ctimer_list s) c))"

definition ctimer_init :: "'a ctimers_scheme threads \<Rightarrow> ptr \<Rightarrow> 'a ctimers_scheme \<Rightarrow> 'a ctimers_scheme option" where
  "ctimer_init th cp s =
     process_start th cp NULL (s\<lparr>initialized := False, ctimer_list := list_init (ctimer_list s)\<rparr>)"

section \<open>The process\<close>

text \<open>At its start the process sets the event timers of the callback timers set before.\<close>

partial_function (option) start_walk ::
  "ptr \<Rightarrow> clock_time \<Rightarrow> ptr \<Rightarrow> 'a ctimers_scheme \<Rightarrow> 'a ctimers_scheme option" where
  "start_walk ep now c s =
     (if c = NULL then Some s
      else Option.bind (etimer_set ep now (etimer_of c) (interval (et_timer s (etimer_of c))) s)
        (\<lambda>s1. start_walk ep now (nxt (ctimer_list s1) c) s1))"

partial_function (option) find_ctimer :: "(ptr \<Rightarrow> ptr) \<Rightarrow> data \<Rightarrow> ptr \<Rightarrow> ptr option" where
  "find_ctimer nx d c = (if c \<noteq> NULL \<and> etimer_of c \<noteq> d then find_ctimer nx d (nx c) else Some c)"

definition ctimer_fire :: "'a ctimers_scheme callbacks \<Rightarrow> ptr \<Rightarrow> 'a ctimers_scheme \<Rightarrow> 'a ctimers_scheme option" where
  "ctimer_fire call c s =
     Option.bind (ctimer_unlist c s) (\<lambda>s1.
       in_context (ct_p s1 c)
         (\<lambda>s2. if ct_f s2 c \<noteq> NULL then call (ct_f s2 c) (ct_ptr s2 c) s2 else Some s2) s1)"

definition ctimer_thread ::
  "'a ctimers_scheme callbacks \<Rightarrow> ptr \<Rightarrow> ptr \<Rightarrow> clock_time \<Rightarrow> event \<Rightarrow> data \<Rightarrow> 'a ctimers_scheme
     \<Rightarrow> 'a ctimers_scheme option" where
  "ctimer_thread call ep cp now ev d s =
     (if p_pt s cp = 0 then
        Option.bind (start_walk ep now (list_head (ctimer_list s)) s) (\<lambda>s1.
          Some (s1\<lparr>initialized := True, p_pt := (p_pt s1)(cp := 1)\<rparr>))
      else if ev \<noteq> PROCESS_EVENT_TIMER then Some s
      else Option.bind (find_ctimer (nxt (ctimer_list s)) d (list_head (ctimer_list s))) (\<lambda>c.
        if c \<noteq> NULL then ctimer_fire call c s else Some s))"

section \<open>Lists of callback timers\<close>

lemma etimer_of_inj [simp]: "etimer_of c = etimer_of c' \<longleftrightarrow> c = c'"
  by (simp add: etimer_of_def)

lemma etimer_of_nonnull [simp]: "etimer_of c \<noteq> NULL"
  by (simp add: etimer_of_def)

lemma find_ctimer_path:
  "lpath nx p cs \<Longrightarrow> find_ctimer nx d p = Some (case find (\<lambda>c. etimer_of c = d) cs of None \<Rightarrow> NULL | Some c \<Rightarrow> c)"
proof (induction cs arbitrary: p)
  case Nil
  then show ?case by (subst find_ctimer.simps) simp
next
  case (Cons x xs)
  then show ?case by (subst find_ctimer.simps) auto
qed

lemma find_ctimer_listed:
  assumes "list_repr l cs" "c \<in> set cs"
  shows "find_ctimer (nxt l) (etimer_of c) (list_head l) = Some c"
proof -
  have "find (\<lambda>x. etimer_of x = etimer_of c) cs = Some c" if "c \<in> set cs" for cs
    using that by (induction cs) auto
  with find_ctimer_path [of "nxt l" "list_head l" cs "etimer_of c"] assms show ?thesis
    by (simp add: list_repr_def list_head_def)
qed

lemma find_ctimer_other:
  assumes "list_repr l cs" "\<forall>c \<in> set cs. etimer_of c \<noteq> d"
  shows "find_ctimer (nxt l) d (list_head l) = Some NULL"
proof -
  have "find (\<lambda>x. etimer_of x = d) cs = None" using assms(2) by (simp add: find_None_iff)
  with find_ctimer_path [of "nxt l" "list_head l" cs d] assms(1) show ?thesis
    by (simp add: list_repr_def list_head_def)
qed

section \<open>No callback is lost\<close>

text \<open>The event that makes \<open>ctimer_process\<close> fire \<open>c\<close>.\<close>

definition fire_event :: "ptr \<Rightarrow> ptr \<Rightarrow> event_data" where
  "fire_event cp c = \<lparr>ed_ev = PROCESS_EVENT_TIMER, ed_data = etimer_of c, ed_p = cp\<rparr>"

text \<open>
  \<open>cs\<close> are the listed callback timers, \<open>ts\<close> the running event timers. Each listed callback timer
  has its event timer running for \<open>ctimer_process\<close>, or its event waits in the queue.
\<close>

definition ctimers_inv :: "ptr \<Rightarrow> ptr list \<Rightarrow> ptr list \<Rightarrow> 'a ctimers_scheme \<Rightarrow> bool" where
  "ctimers_inv cp cs ts s \<longleftrightarrow>
     cp \<noteq> NULL \<and> initialized s \<and> list_repr (ctimer_list s) cs \<and> timers_wf s ts \<and> ring_wf s \<and>
     (\<forall>c \<in> set cs. etimer_of c \<in> set ts \<and> et_p s (etimer_of c) = cp \<or> fire_event cp c \<in> set (event_queue s))"

lemma more_ctimers:
  fixes s s' :: "'a ctimers_scheme"
  assumes "etimers.more s' = etimers.more s"
  shows "ctimer_list s' = ctimer_list s" "initialized s' = initialized s"
    "ct_p s' = ct_p s" "ct_f s' = ct_f s" "ct_ptr s' = ct_ptr s"
  using assms by (cases s; cases s'; simp)+

lemma timers_frame_context: "timers_frame s (s\<lparr>process_current := p\<rparr>) \<longleftrightarrow> process_current s = p"
  by (auto simp: timers_frame_def event_queue_def ring_wf_def)

lemma ctimer_list_updates [simp]:
  "event_queue (s\<lparr>ctimer_list := l\<rparr>) = event_queue s" "ring_wf (s\<lparr>ctimer_list := l\<rparr>) = ring_wf s"
  "timers_wf (s\<lparr>ctimer_list := l\<rparr>) ts = timers_wf s ts"
  "event_queue (s\<lparr>process_current := p\<rparr>) = event_queue s" "ring_wf (s\<lparr>process_current := p\<rparr>) = ring_wf s"
  "timers_wf (u\<lparr>process_current := p\<rparr>) ts = timers_wf u ts"
  by (simp_all add: event_queue_def ring_wf_def timers_wf_def timers_path_def)

text \<open>Setting the event timer in the context of \<open>ctimer_process\<close>, then listing the callback timer.\<close>

lemma ctimers_inv_set:
  assumes inv: "ctimers_inv cp cs ts s" and c: "c \<noteq> NULL"
    and op: "\<exists>w. f (s\<lparr>process_current := cp\<rparr>) = Some w \<and> timers_wf w (set_in (etimer_of c) ts) \<and>
      et_p w = (et_p s)(etimer_of c := cp) \<and> timers_frame (s\<lparr>process_current := cp\<rparr>) w"
  shows "\<exists>s'. Option.bind (in_context cp f s) (ctimer_add c) = Some s' \<and>
    ctimers_inv cp (alist_add c cs) (set_in (etimer_of c) ts) s' \<and> event_queue s' = event_queue s \<and>
    process_current s' = process_current s"
proof -
  obtain w where w: "f (s\<lparr>process_current := cp\<rparr>) = Some w" "timers_wf w (set_in (etimer_of c) ts)"
    "et_p w = (et_p s)(etimer_of c := cp)" "timers_frame (s\<lparr>process_current := cp\<rparr>) w"
    using op by blast
  have frame: "event_queue w = event_queue s" "ring_wf w = ring_wf s" "etimers.more w = etimers.more s"
    using w(4) by (simp_all add: timers_frame_def)
  note more = more_ctimers [OF frame(3)]
  obtain l where l: "list_add c (ctimer_list w) = Some l" "list_repr l (alist_add c cs)"
    using list_add_repr [of "ctimer_list w" cs c] inv c more(1) by (auto simp: ctimers_inv_def)
  define s' where "s' = w\<lparr>process_current := process_current s, ctimer_list := l\<rparr>"
  have "Option.bind (in_context cp f s) (ctimer_add c) = Some s'"
    using w(1) l(1) by (simp add: in_context_def ctimer_add_def s'_def)
  moreover have "event_queue s' = event_queue s" "ring_wf s'" "timers_wf s' (set_in (etimer_of c) ts)"
    "et_p s' = (et_p s)(etimer_of c := cp)" "initialized s'" "ctimer_list s' = l"
    using frame(1,2) w(2,3) more(2) inv by (simp_all add: s'_def ctimers_inv_def)
  moreover from this inv l(2) have "ctimers_inv cp (alist_add c cs) (set_in (etimer_of c) ts) s'"
    by (auto simp: ctimers_inv_def set_alist_add set_in_def)
  ultimately show ?thesis by (auto simp: s'_def)
qed

lemma ctimers_inv_fields [simp]:
  "ctimers_inv cp cs ts (s\<lparr>ct_p := a\<rparr>) = ctimers_inv cp cs ts s"
  "ctimers_inv cp cs ts (s\<lparr>ct_f := b\<rparr>) = ctimers_inv cp cs ts s"
  "ctimers_inv cp cs ts (s\<lparr>ct_ptr := d\<rparr>) = ctimers_inv cp cs ts s"
  "ctimers_inv cp cs ts (s\<lparr>process_current := p\<rparr>) = ctimers_inv cp cs ts s"
  by (simp_all add: ctimers_inv_def timers_wf_def timers_path_def ring_wf_def event_queue_def)

lemma ctimer_set_inv:
  assumes "ctimers_inv cp cs ts s" "c \<noteq> NULL"
  shows "\<exists>s'. ctimer_set ep cp now c t f x s = Some s' \<and>
    ctimers_inv cp (alist_add c cs) (set_in (etimer_of c) ts) s' \<and> event_queue s' = event_queue s"
proof -
  define s1 where "s1 = s\<lparr>ct_p := (ct_p s)(c := process_current s), ct_f := (ct_f s)(c := f), ct_ptr := (ct_ptr s)(c := x)\<rparr>"
  have inv: "ctimers_inv cp cs ts s1" using assms(1) by (simp add: s1_def)
  let ?w = "s1\<lparr>process_current := cp\<rparr>"
  have "\<exists>w. etimer_set ep now (etimer_of c) t ?w = Some w \<and> timers_wf w (set_in (etimer_of c) ts) \<and>
      et_p w = (et_p s1)(etimer_of c := cp) \<and> timers_frame ?w w"
    using etimer_set_spec [of ?w ts "etimer_of c" ep now t] inv etimer_ops_frame(1) [of ep now "etimer_of c" t ?w]
    by (auto simp: ctimers_inv_def timers_wf_def timers_path_def)
  from ctimers_inv_set [of cp cs ts s1 c "etimer_set ep now (etimer_of c) t", OF inv assms(2) this] obtain s' where
    "Option.bind (in_context cp (etimer_set ep now (etimer_of c) t) s1) (ctimer_add c) = Some s'"
    "ctimers_inv cp (alist_add c cs) (set_in (etimer_of c) ts) s'" "event_queue s' = event_queue s1" by blast
  moreover have "initialized s1" "event_queue s1 = event_queue s"
    using inv by (simp_all add: ctimers_inv_def) (simp add: s1_def event_queue_def)
  ultimately show ?thesis
    by (simp add: ctimer_set_def ctimer_set_with_process_def Let_def flip: s1_def)
qed

lemma ctimer_restart_inv:
  assumes "ctimers_inv cp cs ts s" "c \<noteq> NULL"
  shows "\<exists>s'. ctimer_restart ep cp now c s = Some s' \<and>
    ctimers_inv cp (alist_add c cs) (set_in (etimer_of c) ts) s' \<and> event_queue s' = event_queue s"
proof -
  let ?w = "s\<lparr>process_current := cp\<rparr>"
  have "\<exists>w. etimer_restart ep now (etimer_of c) ?w = Some w \<and> timers_wf w (set_in (etimer_of c) ts) \<and>
      et_p w = (et_p s)(etimer_of c := cp) \<and> timers_frame ?w w"
    using etimer_restart_spec [of ?w ts "etimer_of c" ep now] assms(1) etimer_ops_frame(3) [of ep now "etimer_of c" ?w]
    by (auto simp: ctimers_inv_def timers_wf_def timers_path_def)
  from ctimers_inv_set [of cp cs ts s c "etimer_restart ep now (etimer_of c)", OF assms this] assms(1) show ?thesis
    by (auto simp: ctimer_restart_def ctimers_inv_def)
qed

lemma ctimer_reset_inv:
  assumes "ctimers_inv cp cs ts s" "c \<noteq> NULL"
  shows "\<exists>s'. ctimer_reset ep cp now c s = Some s' \<and>
    ctimers_inv cp (alist_add c cs) (set_in (etimer_of c) ts) s' \<and> event_queue s' = event_queue s"
proof -
  let ?w = "s\<lparr>process_current := cp\<rparr>"
  have "\<exists>w. etimer_reset ep now (etimer_of c) ?w = Some w \<and> timers_wf w (set_in (etimer_of c) ts) \<and>
      et_p w = (et_p s)(etimer_of c := cp) \<and> timers_frame ?w w"
    using etimer_reset_spec [of ?w ts "etimer_of c" ep now] assms(1) etimer_ops_frame(2) [of ep now "etimer_of c" ?w]
    by (auto simp: ctimers_inv_def timers_wf_def timers_path_def)
  from ctimers_inv_set [of cp cs ts s c "etimer_reset ep now (etimer_of c)", OF assms this] assms(1) show ?thesis
    by (auto simp: ctimer_reset_def ctimers_inv_def)
qed

lemma ctimer_unlist_inv:
  assumes "list_repr (ctimer_list s) cs"
  shows "\<exists>l. ctimer_unlist c s = Some (s\<lparr>ctimer_list := l\<rparr>) \<and> list_repr l (remove1 c cs)"
  using list_remove_repr [OF assms, of c] by (auto simp: ctimer_unlist_def alist_remove_def)

lemma ctimer_stop_inv:
  assumes "ctimers_inv cp cs ts s"
  shows "\<exists>s'. ctimer_stop now c s = Some s' \<and>
    ctimers_inv cp (remove1 c cs) (remove1 (etimer_of c) ts) s' \<and> event_queue s' = event_queue s \<and>
    ctimer_expired s' c = Some True"
proof -
  have wf: "timers_wf s ts" "initialized s" using assms by (simp_all add: ctimers_inv_def)
  obtain w where w: "etimer_stop now (etimer_of c) s = Some w" "timers_wf w (remove1 (etimer_of c) ts)"
    "et_p w = (et_p s)(etimer_of c := PROCESS_NONE)"
    using etimer_stop_spec [OF wf(1) etimer_of_nonnull, of now c] by auto
  then have frame: "timers_frame s w" by (simp add: etimer_stop_frame)
  note more = more_ctimers [of w s]
  have list: "list_repr (ctimer_list w) cs" "initialized w"
    using frame more(1,2) assms by (simp_all add: timers_frame_def ctimers_inv_def)
  obtain l where l: "ctimer_unlist c w = Some (w\<lparr>ctimer_list := l\<rparr>)" "list_repr l (remove1 c cs)"
    using ctimer_unlist_inv [OF list(1)] by blast
  have d: "distinct cs" using list(1) by (simp add: list_repr_def lpath_distinct)
  define s' where "s' = w\<lparr>ctimer_list := l\<rparr>"
  have s': "event_queue s' = event_queue s" "ring_wf s'" "timers_wf s' (remove1 (etimer_of c) ts)"
    "et_p s' = (et_p s)(etimer_of c := PROCESS_NONE)" "initialized s'" "ctimer_list s' = l"
    using frame w(2,3) list(2) assms
    by (simp_all add: s'_def ctimers_inv_def timers_frame_def)
  have "ctimers_inv cp (remove1 c cs) (remove1 (etimer_of c) ts) s'"
    using s' l(2) d assms by (auto simp: ctimers_inv_def set_remove1_eq)
  with s' w(1) l(1) wf(2) show ?thesis
    by (simp add: ctimer_stop_def ctimer_expired_def etimer_expired_def s'_def)
qed

text \<open>A poll of \<open>etimer_process\<close> moves expired timers into the queue.\<close>

lemma etimer_poll_inv:
  assumes "ctimers_inv cp cs ts s" "p_pt s ep \<noteq> 0"
  shows "\<exists>s' ts'. etimer_thread ep now PROCESS_EVENT_POLL d s = Some s' \<and> ctimers_inv cp cs ts' s'"
proof -
  have wf: "timers_wf s ts" "ring_wf s" using assms(1) by (simp_all add: ctimers_inv_def)
  define ps where "ps = take (room s) (due now s ts)"
  define ts' where "ts' = filter (\<lambda>t. t \<notin> set ps) ts"
  obtain s' where s': "etimer_thread ep now PROCESS_EVENT_POLL d s = Some s'" "expired_step s s' ts ps" "timers_wf s' ts'"
    using etimer_poll_spec [of s ts ep now d] etimer_poll_wf [OF wf(2,1) assms(2), of now d] wf assms(2)
    by (auto simp: ps_def ts'_def timers_wf_def)
  have more: "ctimer_list s' = ctimer_list s" "initialized s'"
    using more_ctimers [of s' s] s'(2) assms(1) by (simp_all add: expired_step_def ctimers_inv_def)
  have "etimer_of c \<in> set ts' \<and> et_p s' (etimer_of c) = cp \<or> fire_event cp c \<in> set (event_queue s')" if "c \<in> set cs" for c
  proof (cases "etimer_of c \<in> set ps")
    case True
    have "fire_event cp c \<in> set (event_queue s')" if "et_p s (etimer_of c) = cp"
    proof -
      have "timer_event s (etimer_of c) = fire_event cp c" using that by (simp add: timer_event_def fire_event_def)
      moreover have "timer_event s (etimer_of c) \<in> set (event_queue s')"
        using True s'(2) by (simp add: expired_step_def)
      ultimately show ?thesis by simp
    qed
    moreover have "set (event_queue s) \<subseteq> set (event_queue s')" using s'(2) by (auto simp: expired_step_def)
    ultimately show ?thesis using \<open>c \<in> set cs\<close> assms(1) by (auto simp: ctimers_inv_def)
  next
    case False
    with \<open>c \<in> set cs\<close> assms(1) s'(2) show ?thesis by (auto simp: ctimers_inv_def expired_step_def ts'_def)
  qed
  moreover have "ring_wf s'" "list_repr (ctimer_list s') cs" "cp \<noteq> NULL"
    using s'(2) more(1) assms(1) by (simp_all add: expired_step_def ctimers_inv_def)
  ultimately have "ctimers_inv cp cs ts' s'" using s'(3) more(2) by (simp add: ctimers_inv_def)
  with s'(1) show ?thesis by blast
qed

section \<open>Delivery\<close>

text \<open>The state in which the callback runs.\<close>

definition about_to_call :: "ptr \<Rightarrow> list_state \<Rightarrow> 'a ctimers_scheme \<Rightarrow> 'a ctimers_scheme" where
  "about_to_call c l s = s\<lparr>ctimer_list := l, process_current := ct_p s c\<rparr>"

text \<open>
  The event of a listed timer: the timer leaves the list and its function, if there is one, is
  called once, in the context of its process; then the process of before is current again.
\<close>

lemma ctimer_thread_fires:
  assumes "list_repr (ctimer_list s) cs" "c \<in> set cs" "p_pt s cp \<noteq> 0"
  shows "\<exists>l. list_repr l (remove1 c cs) \<and>
    ctimer_thread call ep cp now PROCESS_EVENT_TIMER (etimer_of c) s =
      map_option (\<lambda>s1. s1\<lparr>process_current := process_current s\<rparr>)
        (if ct_f s c \<noteq> NULL then call (ct_f s c) (ct_ptr s c) (about_to_call c l s)
         else Some (about_to_call c l s))"
proof -
  obtain l where l: "ctimer_unlist c s = Some (s\<lparr>ctimer_list := l\<rparr>)" "list_repr l (remove1 c cs)"
    using ctimer_unlist_inv [OF assms(1)] by blast
  have "c \<noteq> NULL" using assms(1,2) lpath_nonNULL [of "nxt (ctimer_list s)" "head (ctimer_list s)" cs]
    by (auto simp: list_repr_def intro: gr0I)
  with l find_ctimer_listed [OF assms(1,2)] assms(3) show ?thesis
    by (intro exI [of _ l])
       (simp add: ctimer_thread_def ctimer_fire_def in_context_def about_to_call_def)
qed

text \<open>Any other event leaves the callback timers alone.\<close>

lemma ctimer_thread_ignores:
  assumes "list_repr (ctimer_list s) cs" "p_pt s cp \<noteq> 0"
    and "ev \<noteq> PROCESS_EVENT_TIMER \<or> (\<forall>c \<in> set cs. etimer_of c \<noteq> d)"
  shows "ctimer_thread call ep cp now ev d s = Some s"
  using assms find_ctimer_other [OF assms(1), of d] by (auto simp: ctimer_thread_def)

lemma take_event_more: "take_event s = (e, s1) \<Longrightarrow> etimers.more s1 = etimers.more s \<and> timers_wf s1 ts = timers_wf s ts \<and>
    et_p s1 = et_p s \<and> p_pt s1 = p_pt s \<and> process_current s1 = process_current s"
  by (auto simp: take_event_def timers_wf_def timers_path_def)

text \<open>
  Taking an event off the queue: for the callback timers other than the one the event is for, the
  invariant holds after it.
\<close>

lemma take_event_inv:
  assumes "ctimers_inv cp cs ts s" "0 < nevents s" "take_event s = (e, s1)"
  shows "list_repr (ctimer_list s1) cs" "\<forall>c \<in> set cs. e \<noteq> fire_event cp c \<Longrightarrow> ctimers_inv cp cs ts s1"
    and "e = fire_event cp c \<Longrightarrow> list_repr l (remove1 c cs) \<Longrightarrow> ctimers_inv cp (remove1 c cs) ts (about_to_call c l s1)"
proof -
  have q: "event_queue s = e # event_queue s1" "ring_wf s1" using take_event_pending [OF _ assms(2,3)] assms(1)
    by (simp_all add: ctimers_inv_def)
  note t = take_event_more [OF assms(3)] 
  note more = more_ctimers [of s1 s]
  show list: "list_repr (ctimer_list s1) cs" using t more assms(1) by (simp add: ctimers_inv_def)
  show "ctimers_inv cp cs ts s1" if "\<forall>c \<in> set cs. e \<noteq> fire_event cp c"
    using that assms(1) q t more by (auto simp: ctimers_inv_def)
  show "ctimers_inv cp (remove1 c cs) ts (about_to_call c l s1)"
    if e: "e = fire_event cp c" and l: "list_repr l (remove1 c cs)"
  proof -
    have d: "distinct cs" using list by (simp add: list_repr_def lpath_distinct)
    have "e \<noteq> fire_event cp x" if "x \<noteq> c" for x using that e by (simp add: fire_event_def)
    then have "\<forall>x \<in> set (remove1 c cs). etimer_of x \<in> set ts \<and> et_p s1 (etimer_of x) = cp \<or>
        fire_event cp x \<in> set (event_queue s1)"
      using assms(1) q t d by (auto simp: ctimers_inv_def set_remove1_eq)
    then show ?thesis
      using assms(1) q(2) t more l
      by (simp add: ctimers_inv_def about_to_call_def)
  qed
qed

lemma ctimer_set_fields:
  assumes "ctimers_inv cp cs ts s" "ctimer_set ep cp now c i f x s = Some s'"
  shows "ct_p s' = (ct_p s)(c := process_current s)" "ct_f s' = (ct_f s)(c := f)"
    "ct_ptr s' = (ct_ptr s)(c := x)" "p_pt s' = p_pt s"
    "et_timer s' = (et_timer s)(etimer_of c := \<lparr>start = now, interval = i\<rparr>)"
proof -
  define s1 where "s1 = s\<lparr>ct_p := (ct_p s)(c := process_current s), ct_f := (ct_f s)(c := f), ct_ptr := (ct_ptr s)(c := x)\<rparr>"
  have inv: "ctimers_inv cp cs ts s1" using assms(1) by (simp add: s1_def)
  let ?w = "s1\<lparr>process_current := cp\<rparr>"
  obtain w where w: "etimer_set ep now (etimer_of c) i ?w = Some w"
    "et_timer w = (et_timer ?w)(etimer_of c := \<lparr>start = now, interval = i\<rparr>)"
    using etimer_set_spec [of ?w ts "etimer_of c" ep now i] inv by (auto simp: ctimers_inv_def)
  have frame: "etimers.more w = etimers.more ?w" "p_pt w = p_pt s"
    using etimer_ops_frame(1) [OF w(1)] by (simp_all add: timers_frame_def) (simp add: s1_def)
  have "initialized s1" using inv by (simp add: ctimers_inv_def)
  with assms(2) w(1) have "ctimer_add c (w\<lparr>process_current := process_current s1\<rparr>) = Some s'"
    by (simp add: ctimer_set_def ctimer_set_with_process_def Let_def in_context_def flip: s1_def)
  then obtain l where "s' = w\<lparr>process_current := process_current s1, ctimer_list := l\<rparr>"
    by (auto simp: ctimer_add_def)
  with more_ctimers(3-5) [OF frame(1)] frame(2) w(2)
  show "ct_p s' = (ct_p s)(c := process_current s)" "ct_f s' = (ct_f s)(c := f)"
    "ct_ptr s' = (ct_ptr s)(c := x)" "p_pt s' = p_pt s"
    "et_timer s' = (et_timer s)(etimer_of c := \<lparr>start = now, interval = i\<rparr>)"
    by (simp_all add: s1_def)
qed

section \<open>A timer set again before its event is delivered\<close>

text \<open>
  The event of an expired callback timer waits in the queue; a process sets the timer again, for
  the interval \<open>i\<close>; then the event is delivered. The new function is called at once, whatever
  the interval, and the timer leaves the list, so that the event of its real expiry is ignored.
\<close>

lemma set_again_fires_early:
  assumes "ctimers_inv cp cs ts s" "c \<noteq> NULL" "event_queue s = fire_event cp c # es" "f \<noteq> NULL" "p_pt s cp \<noteq> 0"
  shows "\<exists>s1 s2 l. ctimer_set ep cp now c i f x s = Some s1 \<and> take_event s1 = (fire_event cp c, s2) \<and>
    start (et_timer s2 (etimer_of c)) = now \<and> interval (et_timer s2 (etimer_of c)) = i \<and>
    ctimer_thread call ep cp later PROCESS_EVENT_TIMER (etimer_of c) s2 =
      map_option (\<lambda>s3. s3\<lparr>process_current := process_current s2\<rparr>) (call f x (about_to_call c l s2)) \<and>
    list_repr l (remove1 c (alist_add c cs)) \<and> c \<notin> set (remove1 c (alist_add c cs))"
proof -
  obtain s1 where s1: "ctimer_set ep cp now c i f x s = Some s1"
    "ctimers_inv cp (alist_add c cs) (set_in (etimer_of c) ts) s1" "event_queue s1 = event_queue s"
    using ctimer_set_inv [OF assms(1,2), of ep now i f x] by blast
  note fields = ctimer_set_fields [OF assms(1) s1(1)]
  obtain e s2 where t: "take_event s1 = (e, s2)" by (metis prod.exhaust)
  have "ring_wf s1" using s1(2) by (simp add: ctimers_inv_def)
  then have n: "0 < nevents s1" using nevents_zero [of s1] s1(3) assms(3) by (auto simp: word_gt_0)
  have e: "e = fire_event cp c"
    using take_event_pending [OF \<open>ring_wf s1\<close> n t] s1(3) assms(3) by simp
  note same = take_event_more [OF t] 
  have more: "ct_f s2 = ct_f s1" "ct_ptr s2 = ct_ptr s1" "p_pt s2 = p_pt s1" "et_timer s2 = et_timer s1"
    using t by (auto simp: take_event_def)
  have list: "list_repr (ctimer_list s2) (alist_add c cs)" by (rule take_event_inv(1) [OF s1(2) n t])
  have "c \<in> set (alist_add c cs)" by (simp add: set_alist_add)
  from ctimer_thread_fires [OF list this, of cp call ep later] more fields assms(4,5) obtain l where
    "list_repr l (remove1 c (alist_add c cs))"
    "ctimer_thread call ep cp later PROCESS_EVENT_TIMER (etimer_of c) s2 =
      map_option (\<lambda>s3. s3\<lparr>process_current := process_current s2\<rparr>) (call f x (about_to_call c l s2))"
    by auto
  moreover have "distinct (alist_add c cs)" using list by (simp add: list_repr_def lpath_distinct)
  ultimately show ?thesis using s1(1) t e more(4) fields(5) by auto
qed

section \<open>Runs\<close>

text \<open>
  Any interleaving of what processes do with callback timers, events they post, polls of
  \<open>etimer_process\<close> and deliveries from the queue. A delivery to another process appears as the
  event leaving the queue, its work on callback timers as steps of their own.
\<close>

inductive ctimer_step ::
  "'a ctimers_scheme callbacks \<Rightarrow> ptr \<Rightarrow> ptr \<Rightarrow> 'a ctimers_scheme \<Rightarrow> 'a ctimers_scheme \<Rightarrow> bool"
  for call ep cp where
  set: "c \<noteq> NULL \<Longrightarrow> ctimer_set ep cp now c i f x s = Some s' \<Longrightarrow> ctimer_step call ep cp s s'"
| reset: "c \<noteq> NULL \<Longrightarrow> ctimer_reset ep cp now c s = Some s' \<Longrightarrow> ctimer_step call ep cp s s'"
| restart: "c \<noteq> NULL \<Longrightarrow> ctimer_restart ep cp now c s = Some s' \<Longrightarrow> ctimer_step call ep cp s s'"
| stop: "ctimer_stop now c s = Some s' \<Longrightarrow> ctimer_step call ep cp s s'"
| post: "ctimer_step call ep cp s (snd (process_post p ev d s))"
| poll: "etimer_thread ep now PROCESS_EVENT_POLL d s = Some s' \<Longrightarrow> ctimer_step call ep cp s s'"
| deliver: "0 < nevents s \<Longrightarrow> take_event s = (e, s1) \<Longrightarrow> ed_p e = cp \<Longrightarrow>
    ctimer_thread call ep cp now (ed_ev e) (ed_data e) s1 = Some s' \<Longrightarrow> ctimer_step call ep cp s s'"
| other: "0 < nevents s \<Longrightarrow> take_event s = (e, s') \<Longrightarrow> ed_p e \<noteq> cp \<Longrightarrow> ctimer_step call ep cp s s'"

definition ctimers_ok :: "ptr \<Rightarrow> ptr \<Rightarrow> 'a ctimers_scheme \<Rightarrow> bool" where
  "ctimers_ok ep cp s \<longleftrightarrow> (\<exists>cs ts. ctimers_inv cp cs ts s) \<and> p_pt s ep \<noteq> 0 \<and> p_pt s cp \<noteq> 0"

definition callbacks_ok :: "'a ctimers_scheme callbacks \<Rightarrow> ptr \<Rightarrow> ptr \<Rightarrow> bool" where
  "callbacks_ok call ep cp \<longleftrightarrow>
     (\<forall>f x s s'. ctimers_ok ep cp s \<longrightarrow> call f x s = Some s' \<longrightarrow> ctimers_ok ep cp s')"

lemma ctimer_add_pt: "ctimer_add c s = Some s' \<Longrightarrow> p_pt s' = p_pt s"
  by (auto simp: ctimer_add_def)

lemma in_context_pt:
  assumes "in_context p f s = Some s'" "\<And>t t'. f t = Some t' \<Longrightarrow> p_pt t' = p_pt t"
  shows "p_pt s' = p_pt s"
proof -
  from assms(1) obtain t where "f (s\<lparr>process_current := p\<rparr>) = Some t" "s' = t\<lparr>process_current := process_current s\<rparr>"
    by (auto simp: in_context_def)
  with assms(2) [of "s\<lparr>process_current := p\<rparr>" t] show ?thesis by simp
qed

lemma frame_pt: "timers_frame s s' \<Longrightarrow> p_pt s' = p_pt s"
  by (simp add: timers_frame_def)

lemma ctimer_ops_pt:
  assumes "ctimers_inv cp cs ts s"
  shows "ctimer_reset ep cp now c s = Some s' \<Longrightarrow> p_pt s' = p_pt s"
    and "ctimer_restart ep cp now c s = Some s' \<Longrightarrow> p_pt s' = p_pt s"
    and "ctimer_stop now c s = Some s' \<Longrightarrow> p_pt s' = p_pt s"
proof -
  have init: "initialized s" using assms by (simp add: ctimers_inv_def)
  show "ctimer_reset ep cp now c s = Some s' \<Longrightarrow> p_pt s' = p_pt s"
    using init in_context_pt [of cp "etimer_reset ep now (etimer_of c)" s] etimer_ops_frame(2) [THEN frame_pt] ctimer_add_pt
    by (fastforce simp: ctimer_reset_def bind_eq_Some_conv)
  show "ctimer_restart ep cp now c s = Some s' \<Longrightarrow> p_pt s' = p_pt s"
    using init in_context_pt [of cp "etimer_restart ep now (etimer_of c)" s] etimer_ops_frame(3) [THEN frame_pt] ctimer_add_pt
    by (fastforce simp: ctimer_restart_def bind_eq_Some_conv)
  show "ctimer_stop now c s = Some s' \<Longrightarrow> p_pt s' = p_pt s"
    using init etimer_stop_frame [THEN frame_pt, of now "etimer_of c" s]
    by (auto simp: ctimer_stop_def bind_eq_Some_conv ctimer_unlist_def)
qed

lemma process_post_inv:
  assumes "ctimers_inv cp cs ts s"
  shows "ctimers_inv cp cs ts (snd (process_post p ev d s))"
proof -
  let ?s = "snd (process_post p ev d s)"
  have ring: "ring_wf s" using assms by (simp add: ctimers_inv_def)
  have sub: "set (event_queue s) \<subseteq> set (event_queue ?s)"
  proof (cases "unat (nevents s) = length (events s)")
    case True
    then show ?thesis by (simp add: process_post_full)
  next
    case False
    then have "unat (nevents s) < length (events s)" using ring by (simp add: ring_wf_def)
    from process_post_stores [OF ring this, of p ev d] show ?thesis
      by (cases "process_post p ev d s") auto
  qed
  note more = more_ctimers [of ?s s, OF etimers_more_frame(2)]
  have "timers_wf ?s ts = timers_wf s ts" by (simp add: timers_wf_def timers_path_def)
  with sub more(1,2) assms process_post_wf(1) [OF ring, of p ev d] show ?thesis
    by (auto simp: ctimers_inv_def)
qed

lemma deliver_ok:
  assumes "ctimers_ok ep cp s" "callbacks_ok call ep cp" "0 < nevents s" "take_event s = (e, s1)" "ed_p e = cp"
    and "ctimer_thread call ep cp now (ed_ev e) (ed_data e) s1 = Some s'"
  shows "ctimers_ok ep cp s'"
proof -
  obtain cs ts where inv: "ctimers_inv cp cs ts s" and pt: "p_pt s ep \<noteq> 0" "p_pt s cp \<noteq> 0"
    using assms(1) by (auto simp: ctimers_ok_def)
  note t = take_event_inv [OF inv assms(3,4)]
  have pt1: "p_pt s1 = p_pt s" using take_event_more [OF assms(4)] by simp
  show ?thesis
  proof (cases "\<exists>c \<in> set cs. e = fire_event cp c")
    case True
    then obtain c where c: "c \<in> set cs" "e = fire_event cp c" by blast
    from ctimer_thread_fires [OF t(1) c(1), of cp call ep now] pt pt1 obtain l where l: "list_repr l (remove1 c cs)"
      "ctimer_thread call ep cp now PROCESS_EVENT_TIMER (etimer_of c) s1 =
        map_option (\<lambda>s2. s2\<lparr>process_current := process_current s1\<rparr>)
          (if ct_f s1 c \<noteq> NULL then call (ct_f s1 c) (ct_ptr s1 c) (about_to_call c l s1)
           else Some (about_to_call c l s1))" by auto
    have inv': "ctimers_inv cp (remove1 c cs) ts (about_to_call c l s1)" by (rule t(3) [OF c(2) l(1)])
    have "p_pt (about_to_call c l s1) = p_pt s" using pt1 by (simp add: about_to_call_def)
    then have ok: "ctimers_ok ep cp (about_to_call c l s1)" using inv' pt by (auto simp: ctimers_ok_def)
    have restore: "ctimers_ok ep cp (s2\<lparr>process_current := q\<rparr>)" if "ctimers_ok ep cp s2" for s2 q
      using that by (simp add: ctimers_ok_def)
    have "ctimer_thread call ep cp now PROCESS_EVENT_TIMER (etimer_of c) s1 = Some s'"
      using assms(6) c(2) by (simp add: fire_event_def)
    then obtain s2 where "s' = s2\<lparr>process_current := process_current s1\<rparr>"
      "(if ct_f s1 c \<noteq> NULL then call (ct_f s1 c) (ct_ptr s1 c) (about_to_call c l s1)
        else Some (about_to_call c l s1)) = Some s2" using l(2) by auto
    moreover from this have "ctimers_ok ep cp s2"
      using ok assms(2) by (auto simp: callbacks_ok_def split: if_splits)
    ultimately show ?thesis using restore by simp
  next
    case False
    then have "ctimers_inv cp cs ts s1" using t(2) by blast
    moreover have "ctimer_thread call ep cp now (ed_ev e) (ed_data e) s1 = Some s1"
      using False assms(5) pt pt1 by (intro ctimer_thread_ignores [OF t(1)]) (auto simp: fire_event_def)
    ultimately show ?thesis using assms(6) pt pt1 by (auto simp: ctimers_ok_def)
  qed
qed

lemma etimer_poll_ok:
  assumes "ctimers_ok ep cp s" "etimer_thread ep now PROCESS_EVENT_POLL d s = Some s'"
  shows "ctimers_ok ep cp s'"
proof -
  obtain cs ts where inv: "ctimers_inv cp cs ts s" and pt: "p_pt s ep \<noteq> 0" "p_pt s cp \<noteq> 0"
    using assms(1) by (auto simp: ctimers_ok_def)
  then have "ring_wf s" "timers_path s ts" by (simp_all add: ctimers_inv_def timers_wf_def)
  from etimer_poll_spec [OF this pt(1), of now d] assms(2) have "p_pt s' = p_pt s"
    by (auto simp: expired_step_def)
  with etimer_poll_inv [OF inv pt(1), of now d] assms(2) pt show ?thesis by (auto simp: ctimers_ok_def)
qed

lemma take_other_ok:
  assumes "ctimers_ok ep cp s" "0 < nevents s" "take_event s = (e, s')" "ed_p e \<noteq> cp"
  shows "ctimers_ok ep cp s'"
proof -
  obtain cs ts where inv: "ctimers_inv cp cs ts s" using assms(1) by (auto simp: ctimers_ok_def)
  have "\<forall>c \<in> set cs. e \<noteq> fire_event cp c" using assms(4) by (auto simp: fire_event_def)
  then have "ctimers_inv cp cs ts s'" by (rule take_event_inv(2) [OF inv assms(2,3)])
  with take_event_more [OF assms(3)] assms(1) show ?thesis by (auto simp: ctimers_ok_def)
qed

lemma ctimer_step_ok:
  assumes "ctimer_step call ep cp s s'" "ctimers_ok ep cp s" "callbacks_ok call ep cp"
  shows "ctimers_ok ep cp s'"
  using assms(1)
proof cases
  case (set c now i f x)
  obtain cs ts where inv: "ctimers_inv cp cs ts s" using assms(2) by (auto simp: ctimers_ok_def)
  from ctimer_set_inv [OF inv set(1), of ep now i f x] ctimer_set_fields(4) [OF inv set(2)] set assms(2)
  show ?thesis by (auto simp: ctimers_ok_def)
next
  case (reset c now)
  obtain cs ts where inv: "ctimers_inv cp cs ts s" using assms(2) by (auto simp: ctimers_ok_def)
  from ctimer_reset_inv [OF inv reset(1), of ep now] ctimer_ops_pt(1) [OF inv reset(2)] reset assms(2)
  show ?thesis by (auto simp: ctimers_ok_def)
next
  case (restart c now)
  obtain cs ts where inv: "ctimers_inv cp cs ts s" using assms(2) by (auto simp: ctimers_ok_def)
  from ctimer_restart_inv [OF inv restart(1), of ep now] ctimer_ops_pt(2) [OF inv restart(2)] restart assms(2)
  show ?thesis by (auto simp: ctimers_ok_def)
next
  case (stop now c)
  obtain cs ts where inv: "ctimers_inv cp cs ts s" using assms(2) by (auto simp: ctimers_ok_def)
  from ctimer_stop_inv [OF inv, of now c] ctimer_ops_pt(3) [OF inv stop] stop assms(2)
  show ?thesis by (auto simp: ctimers_ok_def)
next
  case (post p ev d)
  obtain cs ts where inv: "ctimers_inv cp cs ts s" using assms(2) by (auto simp: ctimers_ok_def)
  from process_post_inv [OF inv, of p ev d] post assms(2) show ?thesis by (auto simp: ctimers_ok_def)
next
  case (poll now d)
  then show ?thesis using etimer_poll_ok assms(2) by blast
next
  case (deliver e s1 now)
  then show ?thesis using deliver_ok [OF assms(2,3)] by blast
next
  case (other e)
  then show ?thesis using take_other_ok [OF assms(2)] by blast
qed

lemma ctimer_steps_ok:
  assumes "(ctimer_step call ep cp)\<^sup>*\<^sup>* s s'" "ctimers_ok ep cp s" "callbacks_ok call ep cp"
  shows "ctimers_ok ep cp s'"
  using assms by (induction rule: rtranclp_induct) (auto intro: ctimer_step_ok)

text \<open>A listed timer whose interval is over has its event queued by the next poll, if the queue has room.\<close>

lemma ctimer_expiry_queued:
  assumes "ctimers_inv cp cs ts s" "c \<in> set cs" "p_pt s ep \<noteq> 0"
    and "etimer_of c \<in> set ts \<Longrightarrow> timer_expired now (et_timer s (etimer_of c))"
    and "length (due now s ts) \<le> room s"
  shows "\<exists>s'. etimer_thread ep now PROCESS_EVENT_POLL d s = Some s' \<and> fire_event cp c \<in> set (event_queue s')"
proof -
  have "ring_wf s" "timers_path s ts" using assms(1) by (simp_all add: ctimers_inv_def timers_wf_def)
  from etimer_poll_spec [OF this assms(3), of now d] assms(5) obtain s' where
    s': "etimer_thread ep now PROCESS_EVENT_POLL d s = Some s'" "event_queue s' = event_queue s @ map (timer_event s) (due now s ts)"
    by (auto simp: expired_step_def)
  have "fire_event cp c \<in> set (event_queue s')"
  proof (cases "fire_event cp c \<in> set (event_queue s)")
    case False
    with assms(1,2) have run: "etimer_of c \<in> set ts" "et_p s (etimer_of c) = cp" by (auto simp: ctimers_inv_def)
    then have "etimer_of c \<in> set (due now s ts)" using assms(4) by (simp add: due_def)
    moreover have "timer_event s (etimer_of c) = fire_event cp c"
      using run by (simp add: timer_event_def fire_event_def)
    ultimately show ?thesis using s'(2) by (metis UnCI imageI list.set_map set_append)
  qed (use s' in simp)
  with s'(1) show ?thesis by blast
qed

end
