(* ===== verification/Contiki_Ringbuf.thy ===== *)
theory Contiki_Ringbuf imports Bounded_Fifo begin

text \<open>
  The ring buffers of the library, \<open>os/lib/ringbufindex.c\<close> (the indices of a ring whose elements
  the client stores) and \<open>os/lib/ringbuf.c\<close> (the same ring with its bytes). The indices are bytes;
  the number of elements is their difference under a mask, which is right for the sizes the
  library allows, the powers of two.

  The ring of indices hands out its places in a fixed circular order and never one that is in use;
  the byte ring is a bounded first-in first-out queue of one element less than its size.
\<close>

record ringbufindex =
  rb_mask :: u8
  rb_put_ptr :: u8
  rb_get_ptr :: u8

record ringbuf = ringbufindex +
  rb_data :: "u8 list"

section \<open>The indices\<close>

definition ringbufindex_init :: "'a ringbufindex_scheme \<Rightarrow> u8 \<Rightarrow> 'a ringbufindex_scheme" where
  "ringbufindex_init r sz = r\<lparr>rb_mask := sz - 1, rb_put_ptr := 0, rb_get_ptr := 0\<rparr>"

definition ringbufindex_put :: "'a ringbufindex_scheme \<Rightarrow> int \<times> 'a ringbufindex_scheme" where
  "ringbufindex_put r =
     (if (rb_put_ptr r - rb_get_ptr r) AND rb_mask r = rb_mask r then (0, r)
      else (1, r\<lparr>rb_put_ptr := (rb_put_ptr r + 1) AND rb_mask r\<rparr>))"

definition ringbufindex_peek_put :: "'a ringbufindex_scheme \<Rightarrow> int" where
  "ringbufindex_peek_put r =
     (if (rb_put_ptr r - rb_get_ptr r) AND rb_mask r = rb_mask r then -1 else uint (rb_put_ptr r))"

definition ringbufindex_get :: "'a ringbufindex_scheme \<Rightarrow> int \<times> 'a ringbufindex_scheme" where
  "ringbufindex_get r =
     (if 0 < (rb_put_ptr r - rb_get_ptr r) AND rb_mask r
      then (uint (rb_get_ptr r), r\<lparr>rb_get_ptr := (rb_get_ptr r + 1) AND rb_mask r\<rparr>)
      else (-1, r))"

definition ringbufindex_peek_get :: "'a ringbufindex_scheme \<Rightarrow> int" where
  "ringbufindex_peek_get r =
     (if 0 < (rb_put_ptr r - rb_get_ptr r) AND rb_mask r then uint (rb_get_ptr r) else -1)"

definition ringbufindex_size :: "'a ringbufindex_scheme \<Rightarrow> int" where
  "ringbufindex_size r = uint (rb_mask r) + 1"

definition ringbufindex_elements :: "'a ringbufindex_scheme \<Rightarrow> int" where
  "ringbufindex_elements r = uint ((rb_put_ptr r - rb_get_ptr r) AND rb_mask r)"

definition ringbufindex_full :: "'a ringbufindex_scheme \<Rightarrow> bool" where
  "ringbufindex_full r = ((rb_put_ptr r - rb_get_ptr r) AND rb_mask r = rb_mask r)"

definition ringbufindex_empty :: "'a ringbufindex_scheme \<Rightarrow> bool" where
  "ringbufindex_empty r = (ringbufindex_elements r = 0)"

section \<open>The bytes\<close>

definition ringbuf_init :: "ringbuf \<Rightarrow> u8 list \<Rightarrow> u8 \<Rightarrow> ringbuf" where
  "ringbuf_init r dataptr sz = r\<lparr>rb_data := dataptr, rb_mask := sz - 1, rb_put_ptr := 0, rb_get_ptr := 0\<rparr>"

definition ringbuf_put :: "ringbuf \<Rightarrow> u8 \<Rightarrow> int \<times> ringbuf" where
  "ringbuf_put r c =
     (if (rb_put_ptr r - rb_get_ptr r) AND rb_mask r = rb_mask r then (0, r)
      else (1, r\<lparr>rb_data := (rb_data r)[unat (rb_put_ptr r) := c],
                  rb_put_ptr := (rb_put_ptr r + 1) AND rb_mask r\<rparr>))"

definition ringbuf_get :: "ringbuf \<Rightarrow> int \<times> ringbuf" where
  "ringbuf_get r =
     (if 0 < (rb_put_ptr r - rb_get_ptr r) AND rb_mask r
      then (uint (rb_data r ! unat (rb_get_ptr r)), r\<lparr>rb_get_ptr := (rb_get_ptr r + 1) AND rb_mask r\<rparr>)
      else (-1, r))"

definition ringbuf_size :: "ringbuf \<Rightarrow> int" where
  "ringbuf_size r = uint (rb_mask r) + 1"

definition ringbuf_elements :: "ringbuf \<Rightarrow> int" where
  "ringbuf_elements r = uint ((rb_put_ptr r - rb_get_ptr r) AND rb_mask r)"

section \<open>Sizes and counts\<close>

text \<open>A ring of \<open>2 ^ k\<close> places.\<close>

definition index_wf :: "nat \<Rightarrow> 'a ringbufindex_scheme \<Rightarrow> bool" where
  "index_wf k r \<longleftrightarrow> k \<le> 8 \<and> rb_mask r = mask k \<and> unat (rb_put_ptr r) < 2 ^ k \<and> unat (rb_get_ptr r) < 2 ^ k"

definition in_use :: "'a ringbufindex_scheme \<Rightarrow> nat" where
  "in_use r = unat ((rb_put_ptr r - rb_get_ptr r) AND rb_mask r)"

text \<open>The places in use, oldest first.\<close>

definition ring_slots :: "'a ringbufindex_scheme \<Rightarrow> nat list" where
  "ring_slots r = map (\<lambda>i. (unat (rb_get_ptr r) + i) mod Suc (unat (rb_mask r))) [0..<in_use r]"

lemma pow_le_256: "k \<le> 8 \<Longrightarrow> (2 :: nat) ^ k \<le> 256"
  using power_increasing [of k 8 "2 :: nat"] by simp

lemma unat_and_mask: "unat (x AND mask k) = unat x mod 2 ^ k" for x :: u8
proof -
  have "unat (x AND mask k) = unat (take_bit k x)" by (simp only: take_bit_eq_mask)
  also have "\<dots> = take_bit k (unat x)" by (rule unsigned_take_bit_eq)
  finally show ?thesis by (simp only: take_bit_eq_mod)
qed

lemma unat_mask8: "k \<le> 8 \<Longrightarrow> unat (mask k :: u8) = 2 ^ k - 1"
proof -
  assume k: "k \<le> 8"
  have "unat (- 1 AND mask k :: u8) = 255 mod 2 ^ k" using unat_and_mask [of "- 1" k] by (simp add: unsigned_minus_1_eq_mask mask_eq_exp_minus_1)
  moreover have "(255 :: nat) mod 2 ^ k = 2 ^ k - 1"
  proof -
    have "k \<in> {0, 1, 2, 3, 4, 5, 6, 7, 8}" using k by auto
    then show ?thesis by auto
  qed
  ultimately show ?thesis by simp
qed

lemma unat_inc:
  assumes "k \<le> 8"
  shows "unat ((x + 1) AND mask k :: u8) = (unat x + 1) mod 2 ^ k"
proof -
  have "(2 :: nat) ^ k dvd 256" using le_imp_power_dvd [OF assms, of "2 :: nat"] by simp
  then show ?thesis using assms by (simp add: unat_and_mask unat_word_ariths mod_mod_cancel)
qed

lemma unat_dist:
  assumes "k \<le> 8" "unat p < 2 ^ k" "unat g < 2 ^ k"
  shows "unat ((p - g) AND mask k :: u8) = (unat p + 2 ^ k - unat g) mod 2 ^ k"
proof -
  have d: "(2 :: nat) ^ k dvd 256" using le_imp_power_dvd [OF assms(1), of "2 :: nat"] by simp
  then obtain q where q: "(256 :: nat) = 2 ^ k * q" by blast
  have "unat (p - g) mod 2 ^ k = (unat p + 256 - unat g) mod 2 ^ k"
  proof (cases "unat g \<le> unat p")
    case True
    then have "unat p + 256 - unat g = (unat p - unat g) + 2 ^ k * q" using q by linarith
    then have "(unat p + 256 - unat g) mod 2 ^ k = (unat p - unat g) mod 2 ^ k" by simp
    with True show ?thesis by (simp only: unat_sub_if' if_True word_le_nat_alt)
  next
    case False
    then have "unat (p - g) = unat p + 256 - unat g" by (simp add: unat_sub_if' word_le_nat_alt)
    then show ?thesis by (simp only:)
  qed
  also have "\<dots> = (unat p + 2 ^ k - unat g) mod 2 ^ k"
  proof -
    have "unat p + 256 - unat g = (unat p + 2 ^ k - unat g) + 2 ^ k * (q - 1)"
      using q assms(3) by (cases q) (auto simp: algebra_simps)
    then show ?thesis by simp
  qed
  finally show ?thesis using assms(1) by (simp add: unat_and_mask)
qed

lemma in_use_eq:
  "index_wf k r \<Longrightarrow> in_use r = (unat (rb_put_ptr r) + 2 ^ k - unat (rb_get_ptr r)) mod 2 ^ k"
  by (simp add: in_use_def index_wf_def unat_dist)

lemma in_use_less: "index_wf k r \<Longrightarrow> in_use r < 2 ^ k"
  by (simp add: in_use_eq)

text \<open>The place the next element goes to is the one after those in use.\<close>

lemma put_slot:
  assumes "index_wf k r"
  shows "(unat (rb_get_ptr r) + in_use r) mod 2 ^ k = unat (rb_put_ptr r)"
proof -
  have b: "unat (rb_put_ptr r) < 2 ^ k" "unat (rb_get_ptr r) < 2 ^ k" using assms by (auto simp: index_wf_def)
  have "(unat (rb_get_ptr r) + in_use r) mod 2 ^ k =
      (unat (rb_get_ptr r) + (unat (rb_put_ptr r) + 2 ^ k - unat (rb_get_ptr r))) mod 2 ^ k"
    by (simp add: in_use_eq [OF assms] mod_simps)
  also have "\<dots> = unat (rb_put_ptr r)" using b by simp
  finally show ?thesis .
qed

lemma full_iff:
  assumes "index_wf k r"
  shows "(rb_put_ptr r - rb_get_ptr r) AND rb_mask r = rb_mask r \<longleftrightarrow> in_use r = 2 ^ k - 1"
  using assms unat_mask8 [of k] by (auto simp: in_use_def index_wf_def word_unat_eq_iff)

lemma nonempty_iff: "0 < (rb_put_ptr r - rb_get_ptr r) AND rb_mask r \<longleftrightarrow> 0 < in_use r"
  by (simp add: in_use_def word_less_nat_alt)

lemma in_use_after_put:
  assumes "index_wf k r" "in_use r < 2 ^ k - 1"
  shows "in_use (r\<lparr>rb_put_ptr := (rb_put_ptr r + 1) AND rb_mask r\<rparr>) = Suc (in_use r)"
    and "index_wf k (r\<lparr>rb_put_ptr := (rb_put_ptr r + 1) AND rb_mask r\<rparr>)"
proof -
  let ?r = "r\<lparr>rb_put_ptr := (rb_put_ptr r + 1) AND rb_mask r\<rparr>"
  have k: "k \<le> 8" "rb_mask r = mask k" "unat (rb_get_ptr r) < 2 ^ k" using assms(1) by (auto simp: index_wf_def)
  show wf: "index_wf k ?r" using assms(1) by (auto simp: index_wf_def unat_inc)
  define N g where "N = (2 :: nat) ^ k" and "g = unat (rb_get_ptr r)"
  have "(g + in_use ?r) mod N = (unat (rb_put_ptr r) + 1) mod N"
    using put_slot [OF wf] k by (simp add: unat_inc N_def g_def)
  also have "\<dots> = (g + Suc (in_use r)) mod N"
    using put_slot [OF assms(1)] by (simp add: N_def g_def flip: put_slot [OF assms(1)]) (simp add: mod_simps)
  finally show "in_use ?r = Suc (in_use r)"
    using ring_slot_inj [of "in_use ?r" N "Suc (in_use r)" g] in_use_less [OF wf] assms(2) by (simp add: N_def)
qed

lemma in_use_after_get:
  assumes "index_wf k r" "0 < in_use r"
  shows "Suc (in_use (r\<lparr>rb_get_ptr := (rb_get_ptr r + 1) AND rb_mask r\<rparr>)) = in_use r"
    and "index_wf k (r\<lparr>rb_get_ptr := (rb_get_ptr r + 1) AND rb_mask r\<rparr>)"
proof -
  let ?r = "r\<lparr>rb_get_ptr := (rb_get_ptr r + 1) AND rb_mask r\<rparr>"
  define N g where "N = (2 :: nat) ^ k" and "g = unat (rb_get_ptr r)"
  have k: "k \<le> 8" "rb_mask r = mask k" "unat (rb_put_ptr r) < N" "g < N"
    using assms(1) by (auto simp: index_wf_def N_def g_def)
  show wf: "index_wf k ?r" using assms(1) by (auto simp: index_wf_def unat_inc)
  have g': "unat (rb_get_ptr ?r) = (g + 1) mod N" using k by (simp add: unat_inc N_def g_def)
  have same: "in_use ?r < N" "in_use r < N" using in_use_less wf assms(1) by (auto simp: N_def)
  have "(g + (1 + in_use ?r)) mod N = ((g + 1) mod N + in_use ?r) mod N" by (simp add: mod_simps ac_simps)
  also have "\<dots> = unat (rb_put_ptr r)" using put_slot [OF wf] g' by (simp add: N_def)
  also have "\<dots> = (g + in_use r) mod N" using put_slot [OF assms(1)] by (simp add: N_def g_def)
  finally have eq: "(g + (1 + in_use ?r)) mod N = (g + in_use r) mod N" .
  show "Suc (in_use ?r) = in_use r"
  proof (cases "1 + in_use ?r < N")
    case True
    with ring_slot_inj [OF this same(2), of g] eq show ?thesis by simp
  next
    case False
    then have "1 + in_use ?r = N" using same(1) by simp
    with eq have "(g + 0) mod N = (g + in_use r) mod N" by (simp only: mod_add_self2 add_0_right)
    with ring_slot_inj [of 0 N "in_use r" g] same(2) assms(2) show ?thesis by simp
  qed
qed

section \<open>The ring of indices\<close>

lemma ring_size: "index_wf k r \<Longrightarrow> Suc (unat (rb_mask r)) = 2 ^ k"
  using unat_mask8 [of k] by (simp add: index_wf_def)

lemma length_ring_slots [simp]: "length (ring_slots r) = in_use r"
  by (simp add: ring_slots_def)

lemma ring_slots_distinct: "index_wf k r \<Longrightarrow> distinct (ring_slots r)"
  using in_use_less [of k r] ring_slot_inj
  by (auto simp: ring_slots_def ring_size distinct_map inj_on_def)

lemma ring_slots_bounded: "index_wf k r \<Longrightarrow> s \<in> set (ring_slots r) \<Longrightarrow> s < 2 ^ k"
  by (auto simp: ring_slots_def ring_size)

lemma ring_slots_after_put:
  assumes "index_wf k r" "in_use r < 2 ^ k - 1"
  shows "ring_slots (r\<lparr>rb_put_ptr := (rb_put_ptr r + 1) AND rb_mask r\<rparr>) = ring_slots r @ [unat (rb_put_ptr r)]"
  using in_use_after_put [OF assms] put_slot [OF assms(1)] ring_size [OF assms(1)]
  by (simp add: ring_slots_def)

lemma ring_slots_after_get:
  assumes "index_wf k r" "0 < in_use r"
  shows "ring_slots r = unat (rb_get_ptr r) # ring_slots (r\<lparr>rb_get_ptr := (rb_get_ptr r + 1) AND rb_mask r\<rparr>)"
proof -
  let ?r = "r\<lparr>rb_get_ptr := (rb_get_ptr r + 1) AND rb_mask r\<rparr>"
  obtain n where n: "in_use r = Suc n" "in_use ?r = n" using in_use_after_get [OF assms] by (metis Suc_inject)
  have k: "k \<le> 8" "rb_mask r = mask k" "unat (rb_get_ptr r) < 2 ^ k" using assms(1) by (auto simp: index_wf_def)
  have "ring_slots r = map (\<lambda>i. (unat (rb_get_ptr r) + i) mod 2 ^ k) (0 # map Suc [0..<n])"
    unfolding ring_slots_def n ring_size [OF assms(1)] by (simp add: upt_conv_Cons map_Suc_upt del: upt_Suc)
  also have "\<dots> = unat (rb_get_ptr r) # map (\<lambda>i. (unat (rb_get_ptr r) + 1 + i) mod 2 ^ k) [0..<n]"
    using k(3) by simp
  also have "map (\<lambda>i. (unat (rb_get_ptr r) + 1 + i) mod 2 ^ k) [0..<n] = ring_slots ?r"
    using k(1,2) n(2) ring_size [OF assms(1)] by (simp add: ring_slots_def unat_inc mod_simps)
  finally show ?thesis .
qed

lemma ringbufindex_init_wf:
  assumes "k \<le> 8" "sz = of_nat (2 ^ k)"
  shows "index_wf k (ringbufindex_init r sz)" "ring_slots (ringbufindex_init r sz) = []"
proof -
  have "sz - 1 = (mask k :: u8)" using assms(2) by (simp add: mask_eq_exp_minus_1)
  then show "index_wf k (ringbufindex_init r sz)" "ring_slots (ringbufindex_init r sz) = []"
    using assms(1) by (simp_all add: ringbufindex_init_def index_wf_def ring_slots_def in_use_def)
qed

text \<open>
  A place is handed out at the end of those in use, and is not one of them; \<open>peek_put\<close> and \<open>put\<close>,
  \<open>peek_get\<close> and \<open>get\<close> agree; one place always stays free.
\<close>

lemma ringbufindex_put_spec:
  assumes "index_wf k r"
  shows "(if length (ring_slots r) = 2 ^ k - 1
      then ringbufindex_put r = (0, r) \<and> ringbufindex_peek_put r = - 1 \<and> ringbufindex_full r
      else \<exists>r' s. ringbufindex_put r = (1, r') \<and> index_wf k r' \<and> ring_slots r' = ring_slots r @ [s] \<and> s \<notin> set (ring_slots r) \<and>
        ringbufindex_peek_put r = int s \<and> \<not> ringbufindex_full r)"
proof (cases "in_use r = 2 ^ k - 1")
  case True
  then show ?thesis
    using full_iff [OF assms] by (simp add: ringbufindex_put_def ringbufindex_peek_put_def ringbufindex_full_def)
next
  case False
  then have less: "in_use r < 2 ^ k - 1" using in_use_less [OF assms] by simp
  let ?r = "r\<lparr>rb_put_ptr := (rb_put_ptr r + 1) AND rb_mask r\<rparr>"
  have "distinct (ring_slots ?r)" using in_use_after_put(2) [OF assms less] by (rule ring_slots_distinct)
  then have "unat (rb_put_ptr r) \<notin> set (ring_slots r)" unfolding ring_slots_after_put [OF assms less] by simp
  have nf: "(rb_put_ptr r - rb_get_ptr r) AND rb_mask r \<noteq> rb_mask r" using full_iff [OF assms] False by simp
  have ops: "ringbufindex_put r = (1, ?r)" "ringbufindex_peek_put r = int (unat (rb_put_ptr r))" "\<not> ringbufindex_full r"
    unfolding ringbufindex_put_def ringbufindex_peek_put_def ringbufindex_full_def uint_nat using nf by simp_all
  have wf: "index_wf k ?r" by (rule in_use_after_put(2) [OF assms less])
  have sl: "ring_slots ?r = ring_slots r @ [unat (rb_put_ptr r)]" by (rule ring_slots_after_put [OF assms less])
  from ops wf sl \<open>unat (rb_put_ptr r) \<notin> set (ring_slots r)\<close> have "\<exists>r' s. ringbufindex_put r = (1, r') \<and> index_wf k r' \<and>
      ring_slots r' = ring_slots r @ [s] \<and> s \<notin> set (ring_slots r) \<and> ringbufindex_peek_put r = int s \<and> \<not> ringbufindex_full r"
    by (intro exI conjI)
  with False show ?thesis by (simp only: length_ring_slots if_False)
qed

lemma ringbufindex_get_spec:
  assumes "index_wf k r"
  shows "(case ring_slots r of
      [] \<Rightarrow> ringbufindex_get r = (- 1, r) \<and> ringbufindex_peek_get r = - 1 \<and> ringbufindex_empty r
    | s # ss \<Rightarrow> (\<exists>r'. ringbufindex_get r = (int s, r') \<and> index_wf k r' \<and> ring_slots r' = ss) \<and>
        ringbufindex_peek_get r = int s \<and> \<not> ringbufindex_empty r)"
proof (cases "in_use r")
  case 0
  then have "ring_slots r = []" by (metis length_ring_slots length_0_conv)
  with 0 nonempty_iff [of r] show ?thesis
    by (simp add: ringbufindex_get_def ringbufindex_peek_get_def ringbufindex_empty_def ringbufindex_elements_def
        in_use_def uint_nat)
next
  case (Suc n)
  then have pos: "0 < in_use r" by simp
  then have nz: "(rb_put_ptr r - rb_get_ptr r) AND rb_mask r \<noteq> 0" by (auto simp: in_use_def)
  let ?r = "r\<lparr>rb_get_ptr := (rb_get_ptr r + 1) AND rb_mask r\<rparr>"
  have gt: "0 < (rb_put_ptr r - rb_get_ptr r) AND rb_mask r" using nonempty_iff [of r] pos by simp
  have ops: "ringbufindex_get r = (int (unat (rb_get_ptr r)), ?r)" "ringbufindex_peek_get r = int (unat (rb_get_ptr r))"
    "\<not> ringbufindex_empty r"
    unfolding ringbufindex_get_def ringbufindex_peek_get_def ringbufindex_empty_def ringbufindex_elements_def uint_nat
    using gt nz by (simp_all add: uint_0_iff)
  have wf: "index_wf k ?r" by (rule in_use_after_get(2) [OF assms pos])
  show ?thesis unfolding ring_slots_after_get [OF assms pos] list.case using ops wf by blast
qed

section \<open>The byte ring is a bounded queue\<close>

definition ringbuf_wf :: "ringbuf \<Rightarrow> bool" where
  "ringbuf_wf r \<longleftrightarrow> (\<exists>k. index_wf k r \<and> length (rb_data r) = 2 ^ k)"

definition bytes_in :: "ringbuf \<Rightarrow> u8 list" where
  "bytes_in r = map (\<lambda>s. rb_data r ! s) (ring_slots r)"

definition store_byte :: "u8 \<Rightarrow> ringbuf \<Rightarrow> bool \<times> ringbuf" where
  "store_byte c r = (let (ok, r') = ringbuf_put r c in (ok = 1, r'))"

definition load_byte :: "ringbuf \<Rightarrow> (u8 \<times> ringbuf) option" where
  "load_byte r = (let (v, r') = ringbuf_get r in if v < 0 then None else Some (word_of_int v, r'))"

lemma ringbuf_put_room:
  assumes "index_wf k r" "length (rb_data r) = 2 ^ k" "in_use r < 2 ^ k - 1"
  shows "\<exists>r'. ringbuf_put r c = (1, r') \<and> index_wf k r' \<and> length (rb_data r') = 2 ^ k \<and>
    rb_mask r' = rb_mask r \<and> bytes_in r' = bytes_in r @ [c]"
proof -
  let ?i = "r\<lparr>rb_put_ptr := (rb_put_ptr r + 1) AND rb_mask r\<rparr>"
  let ?r = "r\<lparr>rb_data := (rb_data r)[unat (rb_put_ptr r) := c], rb_put_ptr := (rb_put_ptr r + 1) AND rb_mask r\<rparr>"
  have put: "ringbuf_put r c = (1, ?r)"
    using full_iff [OF assms(1)] assms(3) by (simp add: ringbuf_put_def)
  have sl: "ring_slots ?r = ring_slots r @ [unat (rb_put_ptr r)]"
  proof -
    have "ring_slots ?r = ring_slots ?i" by (simp add: ring_slots_def in_use_def)
    then show ?thesis using ring_slots_after_put [OF assms(1,3)] by simp
  qed
  have wf: "index_wf k ?r"
  proof -
    have "index_wf k (q\<lparr>rb_data := d\<rparr>) = index_wf k q" for q d by (simp add: index_wf_def)
    moreover have "?r = ?i\<lparr>rb_data := (rb_data r)[unat (rb_put_ptr r) := c]\<rparr>" by simp
    ultimately show ?thesis using in_use_after_put(2) [OF assms(1,3)] by metis
  qed
  have "distinct (ring_slots ?r)" using wf by (rule ring_slots_distinct)
  then have fresh: "unat (rb_put_ptr r) \<notin> set (ring_slots r)" by (simp add: sl)
  have "unat (rb_put_ptr r) < length (rb_data r)" using assms(1,2) by (simp add: index_wf_def)
  moreover have "(rb_data r)[unat (rb_put_ptr r) := c] ! s = rb_data r ! s" if "s \<in> set (ring_slots r)" for s
    using fresh that by (metis nth_list_update_neq)
  ultimately have "bytes_in ?r = bytes_in r @ [c]" by (simp add: bytes_in_def sl)
  with put wf assms(2) show ?thesis by simp
qed

lemma ringbuf_get_some:
  assumes "index_wf k r" "length (rb_data r) = 2 ^ k" "0 < in_use r"
  shows "\<exists>r'. ringbuf_get r = (uint (hd (bytes_in r)), r') \<and> index_wf k r' \<and> length (rb_data r') = 2 ^ k \<and>
    rb_mask r' = rb_mask r \<and> bytes_in r' = tl (bytes_in r)"
proof -
  let ?r = "r\<lparr>rb_get_ptr := (rb_get_ptr r + 1) AND rb_mask r\<rparr>"
  have "ringbuf_get r = (uint (rb_data r ! unat (rb_get_ptr r)), ?r)"
    using assms(3) nonempty_iff [of r] by (simp add: ringbuf_get_def)
  with ring_slots_after_get [OF assms(1,3)] in_use_after_get(2) [OF assms(1,3)] assms(2) show ?thesis
    by (simp add: bytes_in_def)
qed

lemma bytes_in_empty: "bytes_in r = [] \<longleftrightarrow> in_use r = 0"
  by (metis bytes_in_def length_0_conv length_map length_ring_slots)

lemma ringbuf_put_refused:
  "index_wf k r \<Longrightarrow> in_use r = 2 ^ k - 1 \<Longrightarrow> ringbuf_put r c = (0, r)"
  using full_iff [of k r] by (simp add: ringbuf_put_def)

interpretation rb: bounded_fifo ringbuf_wf bytes_in "\<lambda>r. unat (rb_mask r)" store_byte load_byte
proof
  fix r r' :: ringbuf and c b
  assume "ringbuf_wf r" and put: "store_byte c r = (b, r')"
  then obtain k where k: "index_wf k r" "length (rb_data r) = 2 ^ k" by (auto simp: ringbuf_wf_def)
  consider "in_use r = 2 ^ k - 1" | "in_use r < 2 ^ k - 1" using in_use_less [OF k(1)] by linarith
  then show "ringbuf_wf r' \<and> unat (rb_mask r') = unat (rb_mask r)"
  proof cases
    case 1
    with ringbuf_put_refused [OF k(1)] put \<open>ringbuf_wf r\<close> show ?thesis by (simp add: store_byte_def)
  next
    case 2
    from ringbuf_put_room [OF k 2, of c] put show ?thesis by (auto simp: store_byte_def ringbuf_wf_def)
  qed
next
  fix r r' :: ringbuf and c b
  assume "ringbuf_wf r" and room: "length (bytes_in r) < unat (rb_mask r)" and put: "store_byte c r = (b, r')"
  then obtain k where k: "index_wf k r" "length (rb_data r) = 2 ^ k" by (auto simp: ringbuf_wf_def)
  have "in_use r < 2 ^ k - 1" using room ring_size [OF k(1)] by (simp add: bytes_in_def)
  from ringbuf_put_room [OF k this, of c] put show "b \<and> bytes_in r' = bytes_in r @ [c]"
    by (auto simp: store_byte_def)
next
  fix r :: ringbuf and c
  assume "ringbuf_wf r" and full: "length (bytes_in r) = unat (rb_mask r)"
  then obtain k where k: "index_wf k r" by (auto simp: ringbuf_wf_def)
  have "in_use r = 2 ^ k - 1" using full ring_size [OF k] by (simp add: bytes_in_def)
  with ringbuf_put_refused [OF k] show "store_byte c r = (False, r)" by (simp add: store_byte_def)
next
  fix r :: ringbuf
  assume "bytes_in r = []"
  then show "load_byte r = None" using nonempty_iff [of r] by (simp add: bytes_in_empty load_byte_def ringbuf_get_def)
next
  fix r :: ringbuf
  assume "ringbuf_wf r" and some: "bytes_in r \<noteq> []"
  then obtain k where k: "index_wf k r" "length (rb_data r) = 2 ^ k" by (auto simp: ringbuf_wf_def)
  have "0 < in_use r" using some by (simp add: bytes_in_empty)
  from ringbuf_get_some [OF k this] obtain r' where "ringbuf_get r = (uint (hd (bytes_in r)), r')"
    "index_wf k r'" "length (rb_data r') = 2 ^ k" "rb_mask r' = rb_mask r" "bytes_in r' = tl (bytes_in r)" by blast
  then show "\<exists>s'. load_byte r = Some (hd (bytes_in r), s') \<and> ringbuf_wf s' \<and> unat (rb_mask s') = unat (rb_mask r) \<and>
      bytes_in s' = tl (bytes_in r)"
    by (auto simp: load_byte_def ringbuf_wf_def not_less)
next
  fix r :: ringbuf
  assume "ringbuf_wf r"
  then obtain k where k: "index_wf k r" by (auto simp: ringbuf_wf_def)
  show "length (bytes_in r) \<le> unat (rb_mask r)"
    using in_use_less [OF k] ring_size [OF k] by (simp add: bytes_in_def)
qed

lemma ringbuf_init_wf:
  assumes "k \<le> 8" "sz = of_nat (2 ^ k)" "length dataptr = 2 ^ k"
  shows "ringbuf_wf (ringbuf_init r dataptr sz)" "bytes_in (ringbuf_init r dataptr sz) = []"
    "unat (rb_mask (ringbuf_init r dataptr sz)) = 2 ^ k - 1"
proof -
  have "sz - 1 = (mask k :: u8)" using assms(2) by (simp add: mask_eq_exp_minus_1)
  then show "ringbuf_wf (ringbuf_init r dataptr sz)" "bytes_in (ringbuf_init r dataptr sz) = []"
    "unat (rb_mask (ringbuf_init r dataptr sz)) = 2 ^ k - 1"
    using assms(1,3) unat_mask8 [OF assms(1)]
    by (auto simp: ringbuf_init_def ringbuf_wf_def index_wf_def bytes_in_empty in_use_def)
qed

end
