(* ===== verification/Sample_Kernel.thy ===== *)
theory Sample_Kernel imports Process_Delivery Contiki_Ctimer Contiki_Ringbuf begin

text \<open>
  Concrete states of the kernel and its timers on which the properties of the root theory are
  applied: two processes on the list, an event queue of 32 places, an event timer that is due, an
  empty list of callback timers with an event left in the queue.
\<close>

definition no_event :: event_data where
  "no_event = \<lparr>ed_ev = 0, ed_data = 0, ed_p = 0\<rparr>"

definition hello_event :: event_data where
  "hello_event = \<lparr>ed_ev = 0x90, ed_data = 7, ed_p = PROCESS_BROADCAST\<rparr>"

text \<open>Processes 3 and 4 are listed and run; one broadcast event waits.\<close>

definition sample_kernel :: kernel where
  "sample_kernel = \<lparr>process_list = 3, process_current = NULL, lastevent = PROCESS_EVENT_MAX, nevents = 1, fevent = 31,
     events = replicate 31 no_event @ [hello_event], poll_requested = 0,
     p_next = (\<lambda>p. if p = 3 then 4 else 0), p_state = (\<lambda>p. PROCESS_STATE_RUNNING),
     p_needspoll = (\<lambda>p. 0), p_pt = (\<lambda>p. 0)\<rparr>"

text \<open>Each thread counts its calls in its own continuation and queues an event for the other process.\<close>

definition sample_threads :: "kernel threads" where
  "sample_threads p = Some (\<lambda>ev d s. Return PT_YIELDED
     (snd (process_post (7 - p) 0x91 d (s\<lparr>p_pt := (p_pt s)(p := p_pt s p + 1)\<rparr>))))"

text \<open>Process 4 exits itself at the event 0x90 and then waits.\<close>

definition leaving_threads :: "kernel threads" where
  "leaving_threads p = (if p = 4 then Some (\<lambda>ev d s. ExitOf 4 s (\<lambda>u. Return PT_WAITING u)) else None)"

lemma sample_kernel_path: "procs_path sample_kernel [3, 4]"
  by (simp add: procs_path_def sample_kernel_def)

lemma sample_kernel_ring: "ring_wf sample_kernel"
  by (simp add: ring_wf_def sample_kernel_def)

lemma sample_kernel_wf: "kernel_wf sample_kernel"
  using sample_kernel_path sample_kernel_ring by (auto simp: kernel_wf_def)

lemma sample_kernel_pending: "event_queue sample_kernel = [hello_event]"
  by (simp add: event_queue_def sample_kernel_def nth_append)

lemma sample_threads_calm: "calm sample_threads p"
  by (auto simp: calm_def waits_def sample_threads_def)

lemma sample_threads_keep: "threads_keep kernel_wf sample_threads"
  by (auto simp: threads_keep_def sample_threads_def intro!: process_post_keeps)

lemma sample_poll_now: "poll_now sample_threads [3, 4] sample_kernel = sample_kernel"
  by (simp add: poll_now_def sample_kernel_def)

lemma leaving_threads_calm: "q \<noteq> 4 \<Longrightarrow> calm leaving_threads q"
  by (simp add: calm_def leaving_threads_def)

section \<open>Timers\<close>

definition due_event :: event_data where
  "due_event = \<lparr>ed_ev = PROCESS_EVENT_TIMER, ed_data = etimer_of 16, ed_p = 2\<rparr>"

text \<open>
  \<open>etimer_process\<close> is 1, \<open>ctimer_process\<close> 2; both have started, and no timer runs. The
  event of the callback timer 16 is still queued.
\<close>

definition sample_timers :: ctimers where
  "sample_timers = \<lparr>process_list = 1, process_current = 3, lastevent = PROCESS_EVENT_MAX, nevents = 1, fevent = 0,
     events = due_event # replicate 31 no_event, poll_requested = 0,
     p_next = (\<lambda>p. if p = 1 then 2 else 0), p_state = (\<lambda>p. PROCESS_STATE_RUNNING),
     p_needspoll = (\<lambda>p. 0), p_pt = (\<lambda>p. 1),
     timerlist = 0, next_expiration = 0, et_timer = (\<lambda>t. \<lparr>start = 0, interval = 10\<rparr>), et_next = (\<lambda>t. 0),
     et_p = (\<lambda>t. 0), ctimer_list = \<lparr>head = 0, nxt = (\<lambda>p. 0)\<rparr>, initialized = True,
     ct_p = (\<lambda>c. 0), ct_f = (\<lambda>c. 0), ct_ptr = (\<lambda>c. 0)\<rparr>"

lemma sample_timers_inv: "ctimers_inv 2 [] [] sample_timers"
  by (simp add: ctimers_inv_def sample_timers_def list_repr_def timers_wf_def timers_path_def ring_wf_def)

lemma sample_timers_pending: "event_queue sample_timers = [fire_event 2 16]"
  by (simp add: event_queue_def sample_timers_def fire_event_def due_event_def)

lemma sample_timers_pt: "p_pt sample_timers p \<noteq> 0" "process_current sample_timers = 3"
  by (simp_all add: sample_timers_def)

text \<open>Two event timers run, 24 of process 3, started at 0, and 40 of process 4, started at 5.\<close>

definition sample_etimers :: etimers where
  "sample_etimers = \<lparr>process_list = 1, process_current = NULL, lastevent = PROCESS_EVENT_MAX, nevents = 0, fevent = 0,
     events = replicate 32 no_event, poll_requested = 0,
     p_next = (\<lambda>p. 0), p_state = (\<lambda>p. PROCESS_STATE_RUNNING), p_needspoll = (\<lambda>p. 0), p_pt = (\<lambda>p. 1),
     timerlist = 24, next_expiration = 10,
     et_timer = (\<lambda>t. if t = 24 then \<lparr>start = 0, interval = 10\<rparr> else \<lparr>start = 5, interval = 10\<rparr>),
     et_next = (\<lambda>t. if t = 24 then 40 else 0), et_p = (\<lambda>t. if t = 24 then 3 else if t = 40 then 4 else 0)\<rparr>"

lemma sample_etimers_wf: "ring_wf sample_etimers" "timers_wf sample_etimers [24, 40]" "p_pt sample_etimers 1 \<noteq> 0"
  by (simp_all add: ring_wf_def sample_etimers_def timers_wf_def timers_path_def)

end
