(* ===== verification/Lwm2m_Tlv.thy ===== *)
theory Lwm2m_Tlv imports Prelude begin

text \<open>
  The type-length-value encoding of the LWM2M service, \<open>os/services/lwm2m/lwm2m-tlv.c\<close>: writing and reading
  of entries, of integers and of fixed-point numbers as floats.

  A buffer is the memory from its first byte on, a map from offsets to bytes: the reader has no limit
  and the writer can pass the one it is given. The arithmetic on lengths is that of \<open>uint32_t\<close>. An
  integer shift by 32 or more and the negation of the least integer are undefined in C; the result is None
  then. Other shifts of signed numbers keep the low 32 bits, as the compilers the program is built with
  define it.
\<close>

type_synonym mem = "nat \<Rightarrow> u8"

record tlv =
  tlv_type :: u8
  tlv_id :: u16
  tlv_length :: u32
  tlv_value :: "mem option"

section \<open>Entries\<close>

definition get_len_type :: "tlv \<Rightarrow> nat" where
  "get_len_type t = (if tlv_length t < 8 then 0 else if tlv_length t < 256 then 1
     else if tlv_length t < 0x10000 then 2 else 3)"

text \<open>\<open>len_type\<close> bytes of the length, the highest first.\<close>

fun read_len :: "mem \<Rightarrow> nat \<Rightarrow> nat \<Rightarrow> nat \<Rightarrow> nat" where
  "read_len buffer len_pos 0 tlv_len = tlv_len"
| "read_len buffer len_pos (Suc len_type) tlv_len =
     read_len buffer (Suc len_pos) len_type (push_bit 8 tlv_len OR unat (buffer len_pos))"

definition lwm2m_tlv_read :: "mem \<Rightarrow> nat \<times> tlv" where
  "lwm2m_tlv_read buffer =
     (let len_type = unat (drop_bit 3 (buffer 0) AND 3);
          len_pos = 1 + (if bit (buffer 0) 5 then 2 else 1);
          id = (if len_pos > 2 then push_bit 8 (ucast (buffer 1)) + ucast (buffer 2) else ucast (buffer 1));
          tlv_len = (if len_type = 0 then unat (buffer 0 AND 7) else read_len buffer len_pos len_type 0);
          len_pos = len_pos + len_type
      in (len_pos + tlv_len,
          \<lparr>tlv_type = drop_bit 6 (buffer 0) AND 3, tlv_id = id, tlv_length = of_nat tlv_len,
           tlv_value = Some (\<lambda>i. buffer (len_pos + i))\<rparr>))"

definition lwm2m_tlv_get_size :: "tlv \<Rightarrow> nat" where
  "lwm2m_tlv_get_size t =
     1 + get_len_type t + (if tlv_id t > 255 then 2 else 1) + unat (tlv_length t)"

text \<open>The bytes \<open>bs\<close> at the offset \<open>pos\<close>.\<close>

definition put_bytes :: "nat \<Rightarrow> u8 list \<Rightarrow> mem \<Rightarrow> mem" where
  "put_bytes pos bs m = (\<lambda>i. if pos \<le> i \<and> i < pos + length bs then bs ! (i - pos) else m i)"

definition tlv_head :: "tlv \<Rightarrow> u8 list" where
  "tlv_head t = [push_bit 6 (tlv_type t) OR (if tlv_id t > 255 then push_bit 5 1 else 0)
       OR push_bit 3 (of_nat (get_len_type t)) OR (if get_len_type t = 0 then ucast (tlv_length t) else 0)]
     @ (if tlv_id t > 255 then [ucast (drop_bit 8 (tlv_id t))] else [])
     @ [ucast (tlv_id t)]
     @ (if get_len_type t > 2 then [ucast (drop_bit 16 (tlv_length t))] else [])
     @ (if get_len_type t > 1 then [ucast (drop_bit 8 (tlv_length t))] else [])
     @ (if get_len_type t > 0 then [ucast (tlv_length t)] else [])"

definition lwm2m_tlv_write :: "tlv \<Rightarrow> mem \<Rightarrow> nat \<Rightarrow> nat \<times> mem" where
  "lwm2m_tlv_write t buffer buffersize =
     (let pos = 1 + get_len_type t in
      if tlv_value t \<noteq> None \<and> buffersize < unat (tlv_length t + of_nat pos) then (0, buffer)
      else if buffersize < pos + 2 then (0, buffer)
      else
        let buffer = put_bytes 0 (tlv_head t) buffer; pos = length (tlv_head t) in
        case tlv_value t of
          None \<Rightarrow> (pos, buffer)
        | Some v \<Rightarrow> (unat (of_nat pos + tlv_length t), put_bytes pos (map v [0..<unat (tlv_length t)]) buffer))"

section \<open>Integers\<close>

text \<open>The value's 32 bits; bytes beyond the fourth push the first ones out.\<close>

definition int32_bits :: "nat \<Rightarrow> mem \<Rightarrow> u32" where
  "int32_bits n v = fold (\<lambda>i value. push_bit 8 value OR ucast (v i)) [0..<n] 0"

definition lwm2m_tlv_get_int32 :: "tlv \<Rightarrow> mem \<Rightarrow> int" where
  "lwm2m_tlv_get_int32 t v =
     (let n = unat (tlv_length t); value = int32_bits n v;
          value = (if bit (v 0) 7 then fold (\<lambda>i value. value OR push_bit (i * 8) 0xFF) [n..<4] value else value)
      in sint value)"

text \<open>\<open>left\<close> is how many of the four bytes are left, \<open>buf\<close> what was written, from the end on.\<close>

fun int32_bytes :: "nat \<Rightarrow> int \<Rightarrow> int \<Rightarrow> u8 list \<Rightarrow> u8 list" where
  "int32_bytes left v value buf =
     (let b = of_int value; buf = b # buf;
          last_bit = (v = 0 \<and> bit b 7) \<or> (v = - 1 \<and> \<not> bit b 7);
          value = value div 256
      in case left of
           Suc (Suc l) \<Rightarrow> if value \<noteq> v \<or> last_bit then int32_bytes (Suc l) v value buf else buf
         | _ \<Rightarrow> buf)"

declare int32_bytes.simps [simp del]

definition lwm2m_tlv_write_int32 :: "u8 \<Rightarrow> u16 \<Rightarrow> int \<Rightarrow> mem \<Rightarrow> nat \<Rightarrow> nat \<times> mem" where
  "lwm2m_tlv_write_int32 type ident value buffer len =
     (let v = (if value < 0 then - 1 else 0); buf = int32_bytes 4 v value []
      in lwm2m_tlv_write \<lparr>tlv_type = type, tlv_id = ident, tlv_length = of_nat (length buf),
           tlv_value = Some (\<lambda>i. buf ! i)\<rparr> buffer len)"

section \<open>Fixed-point numbers\<close>

text \<open>The mantissa's bits go in from the top while the number is halved; \<open>e\<close> counts the halvings.\<close>

function fix_mantissa :: "nat \<Rightarrow> nat \<Rightarrow> nat \<Rightarrow> nat \<times> nat" where
  "fix_mantissa v val e =
     (if v > 1 then fix_mantissa (v div 2) (drop_bit 1 val OR (if odd v then 2 ^ 22 else 0)) (Suc e) else (val, e))"
  by pat_completeness auto
termination
  by (relation "measure (\<lambda>(v, val, e). v)") auto

declare fix_mantissa.simps [simp del]

definition float_bytes :: "bool \<Rightarrow> int \<Rightarrow> nat \<Rightarrow> u8 list" where
  "float_bytes negative e val =
     [(if negative then 0x80 else 0) OR of_int (e div 2),
      push_bit 7 (of_int (e mod 2)) OR (of_nat (val div 2 ^ 16) AND 0x7F),
      of_nat (val div 2 ^ 8), of_nat val]"

definition lwm2m_tlv_write_float32 ::
  "u8 \<Rightarrow> u16 \<Rightarrow> int \<Rightarrow> int \<Rightarrow> mem \<Rightarrow> nat \<Rightarrow> (nat \<times> mem) option" where
  "lwm2m_tlv_write_float32 type ident value bits buffer len =
     (if value = - (2 ^ 31) then None
      else
        let (val, e) = fix_mantissa (nat \<bar>value\<bar>) 0 0;
            e = (if value = 0 then 0 else int e - bits + 127);
            b = float_bytes (value < 0) e val
        in Some (lwm2m_tlv_write \<lparr>tlv_type = type, tlv_id = ident, tlv_length = 4,
             tlv_value = Some (\<lambda>i. b ! i)\<rparr> buffer len))"

definition lwm2m_tlv_float32_to_fix :: "mem \<Rightarrow> int \<Rightarrow> (int \<times> nat) option" where
  "lwm2m_tlv_float32_to_fix v bits =
     (let sign = bit (v 0) 7;
          e = int (unat (push_bit 1 (v 0) OR drop_bit 7 (v 1)));
          val = push_bit 16 (ucast (v 1 AND 0x7F)) OR push_bit 8 (ucast (v 2)) OR ucast (v 3) OR (push_bit 23 1 :: u32);
          e = e - 127 + bits - 23
      in if \<bar>e\<bar> \<ge> 32 then None
         else
           let val = (if e > 0 then push_bit (nat e) val else drop_bit (nat (- e)) val)
           in if sign then if val = 0x80000000 then None else Some (- sint val, 4)
              else Some (sint val, 4))"

section \<open>Writing and reading an entry\<close>

lemma get_len_type_cases:
  "get_len_type t = 0 \<and> unat (tlv_length t) < 8 \<or> get_len_type t = 1 \<and> unat (tlv_length t) < 256 \<or>
   get_len_type t = 2 \<and> unat (tlv_length t) < 0x10000 \<or> get_len_type t = 3"
  by (auto simp: get_len_type_def word_less_nat_alt)

lemma get_len_type_le: "get_len_type t \<le> 3"
  using get_len_type_cases [of t] by auto

definition id_len :: "tlv \<Rightarrow> nat" where
  "id_len t = (if tlv_id t > 255 then 2 else 1)"

lemma length_tlv_head: "length (tlv_head t) = 1 + id_len t + get_len_type t"
  using get_len_type_cases [of t] by (auto simp: tlv_head_def id_len_def)

lemma tlv_size_parts: "lwm2m_tlv_get_size t = length (tlv_head t) + unat (tlv_length t)"
  by (simp add: lwm2m_tlv_get_size_def length_tlv_head id_len_def)

lemma unat_add_small:
  assumes "unat (w :: u32) < 2 ^ 24" "k < 256"
  shows "unat (w + of_nat k) = unat w + k" "unat (of_nat k + w) = k + unat w"
proof -
  have "unat (of_nat k :: u32) = k" using assms(2) by (simp add: unat_of_nat take_bit_nat_eq_self)
  then show "unat (w + of_nat k) = unat w + k" "unat (of_nat k + w) = k + unat w"
    using assms by (simp_all add: unat_word_ariths)
qed

text \<open>What passes the writer's tests: its bound counts one byte for the header and the length's, not the identifier's.\<close>

definition tlv_passes :: "tlv \<Rightarrow> nat \<Rightarrow> bool" where
  "tlv_passes t lim \<longleftrightarrow> 1 + get_len_type t + unat (tlv_length t) \<le> lim \<and> get_len_type t + 3 \<le> lim"

lemma tlv_write_eq:
  assumes "tlv_value t = Some v" "unat (tlv_length t) < 2 ^ 24" "tlv_passes t lim"
  shows "lwm2m_tlv_write t m lim = (lwm2m_tlv_get_size t,
    put_bytes (length (tlv_head t)) (map v [0..<unat (tlv_length t)]) (put_bytes 0 (tlv_head t) m))"
proof -
  have le: "get_len_type t \<le> 3" by (rule get_len_type_le)
  then have hl: "length (tlv_head t) < 256" by (simp add: length_tlv_head id_len_def)
  have g: "\<not> lim < unat (tlv_length t + of_nat (1 + get_len_type t))"
    using unat_add_small(1) [OF assms(2), of "1 + get_len_type t"] le assms(3) by (simp add: tlv_passes_def)
  have g2: "\<not> lim < 1 + get_len_type t + 2" using assms(3) by (simp add: tlv_passes_def)
  have r: "unat (of_nat (length (tlv_head t)) + tlv_length t) = lwm2m_tlv_get_size t"
    using unat_add_small(2) [OF assms(2) hl] by (simp add: tlv_size_parts)
  show ?thesis unfolding lwm2m_tlv_write_def Let_def using g g2 r assms(1) by simp
qed

text \<open>The bytes after writing.\<close>

lemma tlv_written:
  fixes m :: mem
  assumes "tlv_value t = Some v" "unat (tlv_length t) < 2 ^ 24" "tlv_passes t lim"
  defines "m' \<equiv> snd (lwm2m_tlv_write t m lim)" and "n \<equiv> length (tlv_head t)"
  shows "i < n \<Longrightarrow> m' i = tlv_head t ! i" "i < unat (tlv_length t) \<Longrightarrow> m' (n + i) = v i"
    "lwm2m_tlv_get_size t \<le> i \<Longrightarrow> m' i = m i"
  unfolding m'_def tlv_write_eq [OF assms(1-3)] snd_conv n_def tlv_size_parts by (simp_all add: put_bytes_def)

lemma push8_or:
  assumes "b < 256"
  shows "push_bit 8 a OR b = 256 * a + (b :: nat)"
proof -
  have b: "take_bit 8 b = b" using assms by (simp add: take_bit_nat_eq_self)
  have "push_bit 8 a AND take_bit 8 b = 0"
    by (rule bit_eqI) (simp add: bit_simps)
  then have "push_bit 8 a + b = push_bit 8 a OR b" unfolding b by (rule disjunctive_add_eq_or)
  then show ?thesis by (simp add: push_bit_eq_mult)
qed

text \<open>The four parts of the first byte.\<close>

lemma small_bits: "(w :: u8) < 2 ^ k \<Longrightarrow> k < 8 \<Longrightarrow> bit w n \<Longrightarrow> n < k"
proof -
  assume w: "w < 2 ^ k" "k < 8" "bit w n"
  have unat_p2: "unat ((2 :: u8) ^ k) = 2 ^ k"
  proof -
    have "k = 0 \<or> k = 1 \<or> k = 2 \<or> k = 3 \<or> k = 4 \<or> k = 5 \<or> k = 6 \<or> k = 7" using w(2) by arith
    then show ?thesis by (elim disjE) simp_all
  qed
  from w(1,2) have "take_bit k (unat w) = unat w" by (simp add: take_bit_nat_eq_self word_less_nat_alt unat_p2)
  moreover from w(3) have "bit (unat w) n" by (simp add: bit_unsigned_iff)
  ultimately show "n < k" by (metis bit_take_bit_iff)
qed

lemma head_byte:
  fixes f :: bool
  assumes "ty < 4" "lt < 4" "low < 8"
  defines "h \<equiv> push_bit 6 ty OR (if f then push_bit 5 1 else 0) OR push_bit 3 lt OR (low :: u8)"
  shows "drop_bit 3 h AND 3 = lt" "bit h 5 = f" "drop_bit 6 h AND 3 = ty" "h AND 7 = low"
proof -
  have ty: "bit ty n \<Longrightarrow> n < 2" and lt: "bit lt n \<Longrightarrow> n < 2" and low: "bit low n \<Longrightarrow> n < 3" for n
    using small_bits [of ty 2 n] small_bits [of lt 2 n] small_bits [of low 3 n] assms(1-3) by simp_all
  have m: "(x :: u8) AND 3 = take_bit 2 x" "x AND 7 = take_bit 3 x" for x
    by (simp_all add: take_bit_eq_mask mask_eq_exp_minus_1)
  have five: "bit (if f then push_bit 5 1 else 0 :: u8) n \<longleftrightarrow> f \<and> n = 5" for n
    by (cases f) (auto simp: bit_push_bit_iff bit_1_iff possible_bit_def simp del: push_bit_of_1)
  have hb: "bit h n \<longleftrightarrow> n < 8 \<and> (6 \<le> n \<and> bit ty (n - 6) \<or> f \<and> n = 5 \<or> 3 \<le> n \<and> bit lt (n - 3) \<or> bit low n)" for n
    using low [of n] 
    unfolding h_def bit_or_iff five by (auto simp: bit_push_bit_iff possible_bit_def)
  show "drop_bit 3 h AND 3 = lt"
  proof (rule bit_word_eqI)
    fix n
    show "bit (drop_bit 3 h AND 3) n \<longleftrightarrow> bit lt n"
      using lt [of n] low [of "3 + n"] by (auto simp: m bit_take_bit_iff bit_drop_bit_eq hb)
  qed
  show "bit h 5 = f" using lt [of 2] low [of 5] by (auto simp: hb)
  show "drop_bit 6 h AND 3 = ty"
  proof (rule bit_word_eqI)
    fix n
    show "bit (drop_bit 6 h AND 3) n \<longleftrightarrow> bit ty n"
      using ty [of n] lt [of "3 + n"] low [of "6 + n"] by (auto simp: m bit_take_bit_iff bit_drop_bit_eq hb)
  qed
  show "h AND 7 = low"
    by (rule bit_word_eqI) (use ty lt low in \<open>auto simp: m bit_take_bit_iff hb\<close>)
qed

lemma unat_low_byte: "unat (ucast (w :: 'a :: len word) :: u8) = unat w mod 256" if "8 \<le> LENGTH('a)"
  using that by (simp add: unsigned_ucast_eq take_bit_eq_mod)

lemma id_bytes: "push_bit 8 (ucast (ucast (drop_bit 8 w) :: u8)) + ucast (ucast w :: u8) = (w :: u16)"
proof -
  let ?h = "push_bit 8 (ucast (ucast (drop_bit 8 w) :: u8)) :: u16" and ?l = "ucast (ucast w :: u8) :: u16"
  have "?h AND ?l = 0"
    by (rule bit_word_eqI) (auto simp: bit_and_iff bit_push_bit_iff bit_ucast_iff dest: bit_imp_le_length)
  then have "?h + ?l = ?h OR ?l" by (rule disjunctive_add_eq_or)
  also have "\<dots> = w"
    by (rule bit_word_eqI) (auto simp: bit_or_iff bit_push_bit_iff bit_ucast_iff bit_drop_bit_eq)
  finally show ?thesis .
qed

lemma id_byte: "ucast (ucast w :: u8) = w" if "\<not> w > (255 :: u16)"
proof -
  have "unat w < 256" using that by (simp add: word_less_nat_alt word_le_nat_alt not_less)
  then show ?thesis by (simp add: word_unat_eq_iff unsigned_ucast_eq unsigned_take_bit_eq take_bit_nat_eq_self)
qed

text \<open>The head, as the reader takes it apart.\<close>

lemma unat_byte_less: "unat (w :: u8) < 256"
  by (rule order_less_le_trans [OF unsigned_less]) simp

lemma read_len_few:
  "read_len b p 1 0 = unat (b p)"
  "read_len b p 2 0 = 256 * unat (b p) + unat (b (p + 1))"
  "read_len b p 3 0 = 256 * (256 * unat (b p) + unat (b (p + 1))) + unat (b (p + 2))"
  by (simp_all add: numeral_2_eq_2 numeral_3_eq_3 push8_or [OF unat_byte_less])

lemma head_length_bytes:
  "get_len_type t = 1 \<Longrightarrow> tlv_head t ! (1 + id_len t) = ucast (tlv_length t)"
  "get_len_type t = 2 \<Longrightarrow> tlv_head t ! (1 + id_len t) = ucast (drop_bit 8 (tlv_length t))"
  "get_len_type t = 2 \<Longrightarrow> tlv_head t ! (1 + id_len t + 1) = ucast (tlv_length t)"
  "get_len_type t = 3 \<Longrightarrow> tlv_head t ! (1 + id_len t) = ucast (drop_bit 16 (tlv_length t))"
  "get_len_type t = 3 \<Longrightarrow> tlv_head t ! (1 + id_len t + 1) = ucast (drop_bit 8 (tlv_length t))"
  "get_len_type t = 3 \<Longrightarrow> tlv_head t ! (1 + id_len t + 2) = ucast (tlv_length t)"
  by (simp_all add: tlv_head_def id_len_def)

lemma two_bytes: "n < 0x10000 \<Longrightarrow> 256 * (n div 2 ^ 8 mod 256) + n mod 256 = (n :: nat)"
proof -
  assume "n < 0x10000"
  then have "n div 2 ^ 8 mod 256 = n div 256" by simp
  then show ?thesis using mult_div_mod_eq [of 256 n] by simp
qed

lemma three_bytes: "n < 2 ^ 24 \<Longrightarrow> 256 * (256 * (n div 2 ^ 16 mod 256) + n div 2 ^ 8 mod 256) + n mod 256 = (n :: nat)"
proof -
  assume n: "n < 2 ^ 24"
  have d: "n div 2 ^ 16 = n div 256 div 256" by (simp add: div_mult2_eq [symmetric])
  have "n div 256 div 256 mod 256 = n div 256 div 256" using n by (simp add: div_mult2_eq [symmetric])
  then show ?thesis unfolding d using mult_div_mod_eq [of 256 "n div 256"] mult_div_mod_eq [of 256 n] by simp
qed

lemma read_len_head:
  assumes "\<And>i. i < length (tlv_head t) \<Longrightarrow> b i = tlv_head t ! i" "unat (tlv_length t) < 2 ^ 24" "get_len_type t \<noteq> 0"
  shows "read_len b (1 + id_len t) (get_len_type t) 0 = unat (tlv_length t)"
proof -
  let ?L = "unat (tlv_length t)" and ?p = "1 + id_len t"
  have one: "unat (ucast (drop_bit k (tlv_length t)) :: u8) = ?L div 2 ^ k mod 256" for k
    by (simp add: unat_low_byte unat_drop_bit_eq flip: drop_bit_eq_div)
  have lo: "unat (ucast (tlv_length t) :: u8) = ?L mod 256" by (simp add: unat_low_byte)
  note pos = assms(1) [unfolded length_tlv_head]
  consider "get_len_type t = 1" "?L < 256" | "get_len_type t = 2" "?L < 0x10000" | "get_len_type t = 3"
    using get_len_type_cases [of t] assms(3) by auto
  then show ?thesis
  proof cases
    case 1
    have "b ?p = tlv_head t ! ?p" by (rule pos) (simp add: 1)
    then show ?thesis unfolding 1(1) read_len_few head_length_bytes(1) [OF 1(1)] using 1(2) by (simp add: lo)
  next
    case 2
    have "b ?p = tlv_head t ! ?p" "b (?p + 1) = tlv_head t ! (?p + 1)" by (rule pos, simp add: 2)+
    then show ?thesis unfolding 2(1) read_len_few using two_bytes [OF 2(2)]
      by (simp only: head_length_bytes(2,3) [OF 2(1)] one lo)
  next
    case 3
    have "b ?p = tlv_head t ! ?p" "b (?p + 1) = tlv_head t ! (?p + 1)" "b (?p + 2) = tlv_head t ! (?p + 2)"
      by (rule pos, simp add: 3)+
    then show ?thesis unfolding 3 read_len_few using three_bytes [OF assms(2)]
      by (simp only: head_length_bytes(4-6) [OF 3] one lo)
  qed
qed

lemma head_first:
  assumes "tlv_type t < 4"
  shows "drop_bit 3 (tlv_head t ! 0) AND 3 = of_nat (get_len_type t)" "bit (tlv_head t ! 0) 5 = (tlv_id t > 255)"
    "drop_bit 6 (tlv_head t ! 0) AND 3 = tlv_type t"
    "tlv_head t ! 0 AND 7 = (if get_len_type t = 0 then ucast (tlv_length t) else 0)"
proof -
  let ?low = "if get_len_type t = 0 then ucast (tlv_length t) else 0 :: u8"
  have lt: "of_nat (get_len_type t) < (4 :: u8)"
    using get_len_type_cases [of t] get_len_type_le [of t] by (auto simp: word_less_nat_alt unat_of_nat take_bit_nat_eq_self)
  have low: "?low < 8"
    using get_len_type_cases [of t] by (auto simp: word_less_nat_alt unat_low_byte)
  have h: "tlv_head t ! 0 = push_bit 6 (tlv_type t) OR (if tlv_id t > 255 then push_bit 5 1 else 0)
      OR push_bit 3 (of_nat (get_len_type t)) OR ?low"
    by (simp add: tlv_head_def)
  note hb = head_byte [OF assms lt low, of "tlv_id t > 255", folded h]
  show "drop_bit 3 (tlv_head t ! 0) AND 3 = of_nat (get_len_type t)" by (rule hb(1))
  show "bit (tlv_head t ! 0) 5 = (tlv_id t > 255)" by (rule hb(2))
  show "drop_bit 6 (tlv_head t ! 0) AND 3 = tlv_type t" by (rule hb(3))
  show "tlv_head t ! 0 AND 7 = (if get_len_type t = 0 then ucast (tlv_length t) else 0)" by (rule hb(4))
qed

lemma head_id:
  "tlv_id t > 255 \<Longrightarrow> tlv_head t ! 1 = ucast (drop_bit 8 (tlv_id t)) \<and> tlv_head t ! 2 = ucast (tlv_id t)"
  "\<not> tlv_id t > 255 \<Longrightarrow> tlv_head t ! 1 = ucast (tlv_id t)"
  by (simp_all add: tlv_head_def)

lemma tlv_read_head:
  assumes "tlv_type t < 4" "unat (tlv_length t) < 2 ^ 24"
    and b: "\<And>i. i < length (tlv_head t) \<Longrightarrow> b i = tlv_head t ! i"
  shows "lwm2m_tlv_read b = (lwm2m_tlv_get_size t,
    \<lparr>tlv_type = tlv_type t, tlv_id = tlv_id t, tlv_length = tlv_length t,
     tlv_value = Some (\<lambda>i. b (length (tlv_head t) + i))\<rparr>)"
proof -
  have id_len: "1 + (if tlv_id t > 255 then 2 else 1) = 1 + id_len t" by (simp add: id_len_def)
  have b0: "b 0 = tlv_head t ! 0" by (rule b) (simp add: length_tlv_head)
  have len_type: "unat (drop_bit 3 (b 0) AND 3) = get_len_type t"
    unfolding b0 head_first [OF assms(1)] using get_len_type_le [of t] by (simp add: unat_of_nat take_bit_nat_eq_self)
  have ident: "(if 1 + id_len t > 2 then push_bit 8 (ucast (b 1)) + ucast (b 2) else ucast (b 1)) = tlv_id t"
  proof (cases "tlv_id t > 255")
    case True
    then have "b 1 = tlv_head t ! 1" "b 2 = tlv_head t ! 2" by (simp_all add: b length_tlv_head id_len_def)
    with True head_id(1) [OF True] show ?thesis by (simp add: id_len_def id_bytes)
  next
    case False
    then have "b 1 = tlv_head t ! 1" by (simp add: b length_tlv_head id_len_def)
    with False head_id(2) [OF False] show ?thesis by (simp add: id_len_def id_byte)
  qed
  have len: "(if get_len_type t = 0 then unat (b 0 AND 7) else read_len b (1 + id_len t) (get_len_type t) 0)
      = unat (tlv_length t)"
    using get_len_type_cases [of t] read_len_head [OF b assms(2)]
    by (auto simp: b0 head_first [OF assms(1)] unat_low_byte)
  show ?thesis
    unfolding lwm2m_tlv_read_def Let_def len_type unfolding b0 head_first(2,3) [OF assms(1)] id_len
    unfolding ident b0 [symmetric] len tlv_size_parts length_tlv_head by simp
qed

lemma tlv_read_written:
  assumes "tlv_type t < 4" "tlv_value t = Some v" "unat (tlv_length t) < 2 ^ 24" "tlv_passes t lim"
  obtains m' v' where "lwm2m_tlv_write t m lim = (lwm2m_tlv_get_size t, m')"
    "lwm2m_tlv_read m' = (lwm2m_tlv_get_size t, t\<lparr>tlv_value := Some v'\<rparr>)"
    "\<And>i. i < unat (tlv_length t) \<Longrightarrow> v' i = v i" "\<And>i. lwm2m_tlv_get_size t \<le> i \<Longrightarrow> m' i = m i"
proof
  note w = tlv_written [OF assms(2-4), where m = m]
  let ?m = "snd (lwm2m_tlv_write t m lim)"
  show "lwm2m_tlv_write t m lim = (lwm2m_tlv_get_size t, ?m)" by (simp add: tlv_write_eq [OF assms(2-4)])
  show "lwm2m_tlv_read ?m = (lwm2m_tlv_get_size t, t\<lparr>tlv_value := Some (\<lambda>i. ?m (length (tlv_head t) + i))\<rparr>)"
    using tlv_read_head [OF assms(1,3), of ?m] w(1) by simp
  show "?m (length (tlv_head t) + i) = v i" if "i < unat (tlv_length t)" for i using that by (rule w(2))
  show "?m i = m i" if "lwm2m_tlv_get_size t \<le> i" for i using that by (rule w(3))
qed

text \<open>Room for the whole entry is enough.\<close>

lemma tlv_fits: "lwm2m_tlv_get_size t \<le> lim \<Longrightarrow> get_len_type t + 3 \<le> lim \<Longrightarrow> tlv_passes t lim"
  by (simp add: tlv_passes_def lwm2m_tlv_get_size_def split: if_splits)

section \<open>Integers back from their bytes\<close>

lemma div_256_power: "x div 256 ^ k = drop_bit (8 * k) (x :: int)"
  by (simp add: drop_bit_eq_div power_mult)

lemma int32_bits_Suc: "int32_bits (Suc n) v = push_bit 8 (int32_bits n v) OR ucast (v n)"
  by (simp add: int32_bits_def)

lemma shift_in_byte:
  "push_bit 8 (take_bit (8 * n) (of_int (x div 256))) OR ucast (of_int x :: u8) = take_bit (8 * Suc n) (of_int x :: u32)"
proof (rule bit_word_eqI)
  fix j assume j: "j < LENGTH(32)"
  have d: "x div 256 = drop_bit 8 x" by (simp add: drop_bit_eq_div)
  show "bit (push_bit 8 (take_bit (8 * n) (of_int (x div 256))) OR ucast (of_int x :: u8) :: u32) j
    = bit (take_bit (8 * Suc n) (of_int x :: u32)) j"
    using j unfolding d
    by (auto simp: bit_or_iff bit_push_bit_iff bit_take_bit_iff bit_ucast_iff bit_of_int_iff bit_drop_bit_eq possible_bit_def)
qed

lemma int32_bits_of_bytes:
  "(\<forall>i<n. v i = of_int (x div 256 ^ (n - 1 - i))) \<Longrightarrow> int32_bits n v = take_bit (8 * n) (of_int x)"
proof (induction n arbitrary: x)
  case 0
  show ?case by (simp add: int32_bits_def)
next
  case (Suc n)
  have "v i = of_int (x div 256 div 256 ^ (n - 1 - i))" if "i < n" for i
  proof -
    have "Suc n - 1 - i = Suc (n - 1 - i)" using that by simp
    then have "v i = of_int (x div 256 ^ Suc (n - 1 - i))" using Suc.prems that by (metis less_SucI)
    then show ?thesis by (simp add: zdiv_zmult2_eq)
  qed
  then have "int32_bits n v = take_bit (8 * n) (of_int (x div 256))" by (intro Suc.IH) simp
  moreover have "v n = of_int x" using Suc.prems by auto
  ultimately show ?case by (simp only: int32_bits_Suc shift_in_byte)
qed

lemma fill_ones:
  "bit (fold (\<lambda>i value. value OR push_bit (i * 8) 0xFF) [k..<m] w :: u32) j \<longleftrightarrow> bit w j \<or> 8 * k \<le> j \<and> j < 8 * m \<and> j < 32"
proof (induction m)
  case (Suc m)
  have ff: "(0xFF :: u32) = mask 8" by (simp add: mask_eq_exp_minus_1)
  have one: "bit (push_bit (m * 8) 0xFF :: u32) j \<longleftrightarrow> 8 * m \<le> j \<and> j < 8 * Suc m \<and> j < 32"
    unfolding ff by (auto simp: bit_push_bit_iff bit_mask_iff possible_bit_def)
  show ?case
  proof (cases "k \<le> m")
    case True
    then show ?thesis by (auto simp: bit_or_iff one Suc)
  qed auto
qed simp

lemma sint_of_int32: "- (2 ^ 31) \<le> x \<Longrightarrow> x < 2 ^ 31 \<Longrightarrow> sint (of_int x :: u32) = x"
  by (simp add: signed_of_int signed_take_bit_int_eq_self)

text \<open>The writer stops when the rest of the number is its sign and the byte written last shows it.\<close>

lemma int32_bytes_are:
  assumes "k + l = 4" "0 < l" "length buf = k" "\<forall>i<k. buf ! i = of_int (x div 256 ^ (k - 1 - i))" "v = 0 \<or> v = - 1"
  defines "bs \<equiv> int32_bytes l v (x div 256 ^ k) buf"
  shows "0 < length bs \<and> length bs \<le> 4 \<and> (\<forall>i<length bs. bs ! i = of_int (x div 256 ^ (length bs - 1 - i)))
    \<and> (length bs = 4 \<or> x div 256 ^ length bs = v \<and> (bit (bs ! 0) 7 \<longleftrightarrow> v = - 1))"
  using assms(1-4) unfolding bs_def
proof (induction l arbitrary: k buf)
  case (Suc l)
  let ?b = "of_int (x div 256 ^ k) :: u8"
  have d: "x div 256 ^ k div 256 = x div 256 ^ Suc k" by (simp add: zdiv_zmult2_eq mult.commute [of 256])
  have bytes: "\<forall>i<Suc k. (?b # buf) ! i = of_int (x div 256 ^ (Suc k - 1 - i))"
    using Suc.prems(4) by (auto simp: nth_Cons split: nat.split)
  show ?case
  proof (cases l)
    case 0
    then have "length (?b # buf) = 4" using Suc.prems by simp
    moreover have "int32_bytes (Suc l) v (x div 256 ^ k) buf = ?b # buf"
      using 0 by (subst int32_bytes.simps) (simp add: Let_def)
    ultimately show ?thesis using bytes Suc.prems(3) by auto
  next
    case (Suc l')
    let ?go = "x div 256 ^ Suc k \<noteq> v \<or> (v = 0 \<and> bit ?b 7) \<or> (v = - 1 \<and> \<not> bit ?b 7)"
    have step: "int32_bytes (Suc l) v (x div 256 ^ k) buf
      = (if ?go then int32_bytes l v (x div 256 ^ Suc k) (?b # buf) else ?b # buf)"
      by (subst int32_bytes.simps) (simp add: Let_def Suc d)
    show ?thesis
    proof (cases ?go)
      case True
      show ?thesis unfolding step if_P [OF True] by (rule Suc.IH) (use Suc.prems Suc bytes in simp_all)
    next
      case False
      then show ?thesis unfolding step using Suc.prems Suc bytes assms(5) by auto
    qed
  qed
qed simp


theorem int32_back:
  assumes "- (2 ^ 31) \<le> x" "x < 2 ^ 31"
  defines "bs \<equiv> int32_bytes 4 (if x < 0 then - 1 else 0) x []"
  shows "0 < length bs" "length bs \<le> 4"
    "(\<forall>i<length bs. v i = bs ! i) \<Longrightarrow> unat (tlv_length t) = length bs \<Longrightarrow> lwm2m_tlv_get_int32 t v = x"
proof -
  let ?n = "length bs" and ?v = "if x < 0 then - 1 else 0 :: int" and ?W = "of_int x :: u32"
  have bs: "0 < ?n \<and> ?n \<le> 4 \<and> (\<forall>i<?n. bs ! i = of_int (x div 256 ^ (?n - 1 - i)))
      \<and> (?n = 4 \<or> x div 256 ^ ?n = ?v \<and> (bit (bs ! 0) 7 \<longleftrightarrow> ?v = - 1))"
    unfolding bs_def by (rule int32_bytes_are [of 0 4 "[]" x ?v, unfolded power_0 div_by_1]) simp_all
  then show n: "0 < ?n" "?n \<le> 4" by simp_all
  assume v: "\<forall>i<?n. v i = bs ! i" and len: "unat (tlv_length t) = ?n"
  have bits: "int32_bits ?n v = take_bit (8 * ?n) ?W" by (rule int32_bits_of_bytes) (use bs v in simp)
  have top: "bit (v 0) 7 \<longleftrightarrow> bit x (8 * ?n - 1)"
  proof -
    have "v 0 = of_int (drop_bit (8 * (?n - 1)) x)" using bs v n by (simp add: div_256_power)
    moreover have "8 * (?n - 1) + 7 = 8 * ?n - 1" using n by arith
    ultimately show ?thesis by (simp add: bit_of_int_iff bit_drop_bit_eq possible_bit_def)
  qed
  let ?w = "if bit (v 0) 7 then fold (\<lambda>i value. value OR push_bit (i * 8) 0xFF) [?n..<4] (int32_bits ?n v) else int32_bits ?n v"
  have rest: "bit x j \<longleftrightarrow> bit (v 0) 7" if "8 * ?n \<le> j" "?n \<noteq> 4" for j
  proof -
    have "drop_bit (8 * ?n) x = ?v" "bit (v 0) 7 \<longleftrightarrow> ?v = - 1" using bs v n that(2) by (auto simp: div_256_power)
    moreover have "bit x j \<longleftrightarrow> bit (drop_bit (8 * ?n) x) (j - 8 * ?n)" using that(1) by (simp add: bit_drop_bit_eq)
    ultimately show ?thesis by simp
  qed
  have "?w = ?W"
  proof (rule bit_word_eqI)
    fix j assume j: "j < LENGTH(32)"
    show "bit ?w j \<longleftrightarrow> bit ?W j"
    proof (cases "j < 8 * ?n")
      case True
      then show ?thesis using j by (auto simp: bits fill_ones bit_take_bit_iff)
    next
      case False
      then show ?thesis using j rest [of j] by (auto simp: bits fill_ones bit_take_bit_iff bit_of_int_iff possible_bit_def)
    qed
  qed
  then show "lwm2m_tlv_get_int32 t v = x"
    unfolding lwm2m_tlv_get_int32_def Let_def len using sint_of_int32 [OF assms(1,2)] by simp
qed

lemma tlv_read_int32:
  assumes "type < 4" "- (2 ^ 31) \<le> x" "x < 2 ^ 31" "7 \<le> lim"
  shows "\<exists>n m' t v. lwm2m_tlv_write_int32 type ident x m lim = (n, m') \<and> n \<le> 7
    \<and> lwm2m_tlv_read m' = (n, t) \<and> tlv_type t = type \<and> tlv_id t = ident \<and> tlv_value t = Some v
    \<and> lwm2m_tlv_get_int32 t v = x \<and> (\<forall>i\<ge>n. m' i = m i)"
proof -
  let ?bs = "int32_bytes 4 (if x < 0 then - 1 else 0) x []"
  let ?t = "\<lparr>tlv_type = type, tlv_id = ident, tlv_length = of_nat (length ?bs), tlv_value = Some (\<lambda>i. ?bs ! i)\<rparr>"
  note b = int32_back [OF assms(2,3)]
  have len: "unat (tlv_length ?t) = length ?bs" using b(2) by (simp add: unat_of_nat take_bit_nat_eq_self)
  have lt: "get_len_type ?t = 0" using b(2) len by (simp add: get_len_type_def word_less_nat_alt)
  have size: "lwm2m_tlv_get_size ?t \<le> 7" using b(2) len by (simp add: lwm2m_tlv_get_size_def lt)
  have ps: "tlv_passes ?t lim" using size assms(4) by (intro tlv_fits) (simp_all add: lt)
  obtain m' v' where m': "lwm2m_tlv_write ?t m lim = (lwm2m_tlv_get_size ?t, m')"
    "lwm2m_tlv_read m' = (lwm2m_tlv_get_size ?t, ?t\<lparr>tlv_value := Some v'\<rparr>)"
    "\<And>i. i < unat (tlv_length ?t) \<Longrightarrow> v' i = ?bs ! i" "\<And>i. lwm2m_tlv_get_size ?t \<le> i \<Longrightarrow> m' i = m i"
    by (rule tlv_read_written [of ?t "\<lambda>i. ?bs ! i" lim m]) (use assms(1) len b(2) ps in auto)
  have "lwm2m_tlv_get_int32 (?t\<lparr>tlv_value := Some v'\<rparr>) v' = x"
    by (rule b(3)) (use m'(3) len in auto)
  then show ?thesis using m' size by (auto simp: lwm2m_tlv_write_int32_def Let_def)
qed

section \<open>Fixed-point numbers back from their floats\<close>

lemma set_top_bit: "n < 2 ^ k \<Longrightarrow> n OR 2 ^ k = n + (2 ^ k :: nat)"
proof -
  assume "n < 2 ^ k"
  then have t: "take_bit k n = n" by (simp add: take_bit_nat_eq_self)
  have "take_bit k n AND 2 ^ k = 0" by (rule bit_eqI) (auto simp: bit_and_iff bit_take_bit_iff bit_exp_iff)
  then have "take_bit k n + 2 ^ k = take_bit k n OR 2 ^ k" by (rule disjunctive_add_eq_or)
  then show ?thesis unfolding t by simp
qed

text \<open>One round moves one bit of the number to the top of the mantissa.\<close>

lemma mantissa_step:
  assumes "e < 23"
  shows "drop_bit 1 (w mod 2 ^ e * 2 ^ (23 - e)) OR (if odd (w div 2 ^ e) then 2 ^ 22 else 0)
    = w mod 2 ^ Suc e * (2 :: nat) ^ (23 - Suc e)"
proof -
  have p: "(2 :: nat) ^ (23 - e) = 2 * 2 ^ (22 - e)" using assms by (simp add: Suc_diff_le power_Suc [symmetric] del: power_Suc)
  have half: "drop_bit 1 (w mod 2 ^ e * 2 ^ (23 - e)) = w mod 2 ^ e * 2 ^ (22 - e)"
    unfolding p by (simp add: drop_bit_Suc)
  have e22: "(2 :: nat) ^ e * 2 ^ (22 - e) = 2 ^ 22" using assms by (simp add: power_add [symmetric] del: power_Suc)
  have "w mod 2 ^ e * 2 ^ (22 - e) < 2 ^ e * 2 ^ (22 - e)" by (rule mult_strict_right_mono) simp_all
  then have small: "w mod 2 ^ e * 2 ^ (22 - e) < 2 ^ 22" unfolding e22 .
  have m: "w mod 2 ^ Suc e = 2 ^ e * (w div 2 ^ e mod 2) + w mod 2 ^ e"
    using mod_mult2_eq [of w "2 ^ e" 2] by (simp add: mult.commute)
  have s: "23 - Suc e = 22 - e" by simp
  show ?thesis
  proof (cases "odd (w div 2 ^ e)")
    case True
    then have "w div 2 ^ e mod 2 = 1" by presburger
    then show ?thesis unfolding half m s using True set_top_bit [OF small] e22 by (simp add: add_mult_distrib)
  next
    case False
    then have "w div 2 ^ e mod 2 = 0" by presburger
    then show ?thesis unfolding half m s using False by simp
  qed
qed

lemma fix_mantissa_from:
  assumes "v = w div 2 ^ e" "0 < v" "w < 2 ^ 24" "val = w mod 2 ^ e * 2 ^ (23 - e)" "e \<le> 23"
  shows "\<exists>e'\<le>23. fix_mantissa v val e = (w mod 2 ^ e' * 2 ^ (23 - e'), e') \<and> w div 2 ^ e' = 1"
  using assms
proof (induction v val e rule: fix_mantissa.induct)
  case (1 v val e)
  show ?case
  proof (cases "v > 1")
    case True
    have e: "e < 23"
    proof (rule ccontr)
      assume "\<not> e < 23"
      then have "e = 23" using "1.prems"(5) by simp
      then have "w div 2 ^ e < 2" using "1.prems"(3) by (simp add: less_mult_imp_div_less)
      then show False using True "1.prems"(1) by simp
    qed
    have d: "v div 2 = w div 2 ^ Suc e" using "1.prems"(1) by (simp add: power_Suc2 div_mult2_eq del: power_Suc)
    have val: "drop_bit 1 val OR (if odd v then 2 ^ 22 else 0) = w mod 2 ^ Suc e * 2 ^ (23 - Suc e)"
      unfolding "1.prems"(1,4) by (rule mantissa_step [OF e])
    show ?thesis using "1.IH" [OF True d] True "1.prems"(3) e val by (subst fix_mantissa.simps) auto
  next
    case False
    then have "v = 1" using "1.prems"(2) by simp
    then show ?thesis using "1.prems" by (subst fix_mantissa.simps) auto
  qed
qed

lemma fix_mantissa_is:
  assumes "0 < w" "w < 2 ^ 24"
  obtains e where "e \<le> 23" "fix_mantissa w 0 0 = (w mod 2 ^ e * 2 ^ (23 - e), e)" "w div 2 ^ e = 1"
  using fix_mantissa_from [of w w 0 0] assms by auto

text \<open>The mantissa with its hidden bit is the number, shifted.\<close>

lemma mantissa_whole:
  assumes "e \<le> 23" "w div 2 ^ e = (1 :: nat)"
  shows "w mod 2 ^ e * 2 ^ (23 - e) < 2 ^ 23" "2 ^ 23 + w mod 2 ^ e * 2 ^ (23 - e) = w * 2 ^ (23 - e)"
proof -
  have p: "(2 :: nat) ^ e * 2 ^ (23 - e) = 2 ^ 23" using assms(1) by (simp add: power_add [symmetric])
  have "w mod 2 ^ e * 2 ^ (23 - e) < 2 ^ e * 2 ^ (23 - e)" by (rule mult_strict_right_mono) simp_all
  then show "w mod 2 ^ e * 2 ^ (23 - e) < 2 ^ 23" unfolding p .
  have "w = 2 ^ e + w mod 2 ^ e" using mult_div_mod_eq [of "2 ^ e" w] assms(2) by simp
  then have "w * 2 ^ (23 - e) = (2 ^ e + w mod 2 ^ e) * 2 ^ (23 - e)" by metis
  then show "2 ^ 23 + w mod 2 ^ e * 2 ^ (23 - e) = w * 2 ^ (23 - e)" using p by (simp add: add_mult_distrib)
qed


text \<open>The four bytes keep the sign, the exponent and the mantissa.\<close>

lemma float_bytes_nth:
  "float_bytes neg e val ! 0 = (if neg then 0x80 else 0) OR of_int (e div 2)"
  "float_bytes neg e val ! 1 = push_bit 7 (of_int (e mod 2)) OR (of_nat (val div 2 ^ 16) AND 0x7F)"
  "float_bytes neg e val ! 2 = of_nat (val div 2 ^ 8)" "float_bytes neg e val ! 3 = of_nat val"
  by (simp_all add: float_bytes_def)

lemma mask_7: "(0x7F :: u8) = mask 7"
  by (simp add: mask_eq_exp_minus_1)

lemma sign_bit: "(if neg then 0x80 else 0 :: u8) = (if neg then push_bit 7 1 else 0)"
  by simp

lemma bit_sign: "bit (if neg then push_bit 7 1 else 0 :: u8) n \<longleftrightarrow> neg \<and> n = 7"
  by (cases neg) (auto simp: bit_push_bit_iff bit_1_iff possible_bit_def simp del: push_bit_of_1)

lemma float_sign:
  assumes "0 \<le> e" "e < 256"
  shows "bit (float_bytes neg e val ! 0) 7 = neg"
proof -
  have "\<not> bit (e div 2) 7"
    using assms bit_take_bit_iff [of 7 "e div 2" 7] by (simp add: take_bit_int_eq_self)
  then show ?thesis unfolding float_bytes_nth sign_bit by (simp add: bit_or_iff bit_sign bit_of_int_iff possible_bit_def del: push_bit_of_1)
qed

lemma float_exponent:
  assumes "0 \<le> e" "e < 256"
  shows "int (unat (push_bit 1 (float_bytes neg e val ! 0) OR drop_bit 7 (float_bytes neg e val ! 1))) = e"
proof -
  have "push_bit 1 (float_bytes neg e val ! 0) OR drop_bit 7 (float_bytes neg e val ! 1) = (of_int e :: u8)"
  proof (rule bit_word_eqI)
    fix n assume n: "n < LENGTH(8)"
    have h: "e div 2 = drop_bit 1 e" "e mod 2 = take_bit 1 e" by (simp_all add: drop_bit_eq_div take_bit_eq_mod)
    show "bit (push_bit 1 (float_bytes neg e val ! 0) OR drop_bit 7 (float_bytes neg e val ! 1)) n = bit (of_int e :: u8) n"
      unfolding float_bytes_nth sign_bit mask_7 h bit_or_iff bit_and_iff bit_push_bit_iff bit_drop_bit_eq bit_sign
        bit_of_int_iff bit_of_nat_iff bit_take_bit_iff bit_mask_iff possible_bit_word
      using n by (cases n) auto
  qed
  then show ?thesis using assms by (simp add: unsigned_of_int take_bit_int_eq_self)
qed

lemma float_mantissa:
  assumes "val < 2 ^ 23"
  shows "push_bit 16 (ucast (float_bytes neg e val ! 1 AND 0x7F)) OR push_bit 8 (ucast (float_bytes neg e val ! 2))
    OR ucast (float_bytes neg e val ! 3) OR (push_bit 23 1 :: u32) = of_nat (2 ^ 23 + val)"
proof -
  have top: "bit val n \<Longrightarrow> n < 23" for n
    using assms bit_take_bit_iff [of 23 val n] by (simp add: take_bit_nat_eq_self)
  have sum: "2 ^ 23 + val = val OR 2 ^ 23" using set_top_bit [OF assms] by simp
  have d: "val div 2 ^ k = drop_bit k val" for k by (simp add: drop_bit_eq_div)
  show ?thesis
  proof (rule bit_word_eqI)
    fix n assume n: "n < LENGTH(32)"
    have parts: "n < 8 \<or> 8 \<le> n \<and> n < 16 \<or> 16 \<le> n \<and> n < 23 \<or> n = 23 \<or> 23 < n" by arith
    show "bit (push_bit 16 (ucast (float_bytes neg e val ! 1 AND 0x7F)) OR push_bit 8 (ucast (float_bytes neg e val ! 2))
      OR ucast (float_bytes neg e val ! 3) OR (push_bit 23 1 :: u32)) n = bit (of_nat (2 ^ 23 + val) :: u32) n"
      unfolding float_bytes_nth mask_7 sum d bit_or_iff bit_and_iff bit_push_bit_iff bit_drop_bit_eq bit_of_nat_iff
        bit_of_int_iff bit_ucast_iff bit_1_iff bit_exp_iff bit_mask_iff possible_bit_word
      using parts n top [of n] by (elim disjE conjE) (simp_all, arith+)
  qed
qed


lemma float_back:
  assumes "\<forall>i<4. v i = float_bytes neg e val ! i" "0 \<le> e" "e < 256" "val < 2 ^ 23"
    "2 ^ 23 + val = w * 2 ^ s" "s \<le> 23" "e = 150 - bits - int s"
  shows "lwm2m_tlv_float32_to_fix v bits = Some (if neg then - int w else int w, 4)"
proof -
  have vs: "v 0 = float_bytes neg e val ! 0" "v 1 = float_bytes neg e val ! 1" "v 2 = float_bytes neg e val ! 2"
    "v 3 = float_bytes neg e val ! 3"
    using assms(1) by simp_all
  have w: "w < 2 ^ 24"
  proof -
    have "w * 1 \<le> w * 2 ^ s" by (rule mult_le_mono2) simp
    also have "\<dots> < 2 ^ 23 + 2 ^ 23" unfolding assms(5) [symmetric] using assms(4) by simp
    finally show ?thesis by simp
  qed
  have shift: "drop_bit s (of_nat (2 ^ 23 + val) :: u32) = of_nat w"
  proof -
    have "unat (of_nat (2 ^ 23 + val) :: u32) = 2 ^ 23 + val"
      using assms(4) by (simp only: unat_of_nat) (simp add: take_bit_nat_eq_self)
    then have "unat (drop_bit s (of_nat (2 ^ 23 + val) :: u32)) = drop_bit s (w * 2 ^ s)"
      unfolding assms(5) [symmetric] by (simp only: unat_drop_bit_eq)
    also have "\<dots> = w" by (simp add: drop_bit_eq_div)
    finally show ?thesis unfolding word_unat_eq_iff using w by (simp only: unat_of_nat) (simp add: take_bit_nat_eq_self)
  qed
  have small: "sint (of_nat w :: u32) = int w" "(of_nat w :: u32) \<noteq> 0x80000000"
    using w sint_of_int32 [of "int w"] by (auto simp: word_unat_eq_iff unat_of_nat take_bit_nat_eq_self)
  have ex: "e - 127 + bits - 23 = - int s" using assms(7) by simp
  have go: "\<not> \<bar>- int s\<bar> \<ge> 32" "\<not> - int s > 0" "nat (- (- int s)) = s" using assms(6) by simp_all
  show ?thesis
    unfolding lwm2m_tlv_float32_to_fix_def Let_def vs float_exponent [OF assms(2,3)] float_mantissa [OF assms(4)]
      float_sign [OF assms(2,3)] ex if_not_P [OF go(1)] if_not_P [OF go(2)] go(3) shift
    using small by simp
qed

lemma tlv_read_fix:
  assumes "type < 4" "\<bar>x\<bar> < 2 ^ 24" "x \<noteq> 0" "- 105 \<le> bits" "bits \<le> 127" "7 \<le> lim"
  shows "\<exists>n m' t v. lwm2m_tlv_write_float32 type ident x bits m lim = Some (n, m') \<and> n \<le> 7
    \<and> lwm2m_tlv_read m' = (n, t) \<and> tlv_type t = type \<and> tlv_id t = ident \<and> tlv_value t = Some v
    \<and> lwm2m_tlv_float32_to_fix v bits = Some (x, 4) \<and> (\<forall>i\<ge>n. m' i = m i)"
proof -
  let ?w = "nat \<bar>x\<bar>"
  have w: "0 < ?w" "?w < 2 ^ 24" using assms(2,3) by simp_all
  obtain k where k: "k \<le> 23" "fix_mantissa ?w 0 0 = (?w mod 2 ^ k * 2 ^ (23 - k), k)" "?w div 2 ^ k = 1"
    using fix_mantissa_is [OF w] .
  let ?val = "?w mod 2 ^ k * 2 ^ (23 - k)" and ?e = "int k - bits + 127"
  let ?b = "float_bytes (x < 0) ?e ?val"
  let ?t = "\<lparr>tlv_type = type, tlv_id = ident, tlv_length = 4, tlv_value = Some (\<lambda>i. ?b ! i)\<rparr>"
  have wr: "lwm2m_tlv_write_float32 type ident x bits m lim = Some (lwm2m_tlv_write ?t m lim)"
    using assms(2,3) by (auto simp: lwm2m_tlv_write_float32_def k(2))
  have lt: "get_len_type ?t = 0" by (simp add: get_len_type_def)
  have size: "lwm2m_tlv_get_size ?t \<le> 7" by (simp add: lwm2m_tlv_get_size_def lt)
  have ps: "tlv_passes ?t lim" using size assms(6) by (intro tlv_fits) (simp_all add: lt)
  obtain m' v' where m': "lwm2m_tlv_write ?t m lim = (lwm2m_tlv_get_size ?t, m')"
    "lwm2m_tlv_read m' = (lwm2m_tlv_get_size ?t, ?t\<lparr>tlv_value := Some v'\<rparr>)"
    "\<And>i. i < unat (tlv_length ?t) \<Longrightarrow> v' i = ?b ! i" "\<And>i. lwm2m_tlv_get_size ?t \<le> i \<Longrightarrow> m' i = m i"
    by (rule tlv_read_written [of ?t "\<lambda>i. ?b ! i" lim m]) (use assms(1) ps in auto)
  have "lwm2m_tlv_float32_to_fix v' bits = Some (if x < 0 then - int ?w else int ?w, 4)"
    by (rule float_back [where s = "23 - k" and e = ?e and val = ?val])
      (use m'(3) assms(4,5) k(1) mantissa_whole [OF k(1,3)] in auto)
  then have "lwm2m_tlv_float32_to_fix v' bits = Some (x, 4)" by auto
  then show ?thesis using m' size by (auto simp: wr)
qed


section \<open>What the writer's bound leaves out\<close>

lemma tlv_write_refused:
  assumes "tlv_value t = Some v" "unat (tlv_length t) < 2 ^ 24" "\<not> tlv_passes t lim"
  shows "lwm2m_tlv_write t m lim = (0, m)"
proof -
  have "unat (tlv_length t + of_nat (1 + get_len_type t)) = unat (tlv_length t) + (1 + get_len_type t)"
    by (rule unat_add_small(1) [OF assms(2)]) (use get_len_type_le [of t] in simp)
  then show ?thesis using assms(1,3) by (auto simp: lwm2m_tlv_write_def tlv_passes_def Let_def simp del: of_nat_Suc of_nat_add)
qed

lemma tlv_write_bound:
  assumes "tlv_value t = Some v" "unat (tlv_length t) < 2 ^ 24"
  shows "fst (lwm2m_tlv_write t m lim) = (if tlv_passes t lim then lwm2m_tlv_get_size t else 0)"
    "(\<exists>i. snd (lwm2m_tlv_write t m lim) i \<noteq> m i) \<Longrightarrow> tlv_passes t lim"
    "tlv_passes t lim \<Longrightarrow> lwm2m_tlv_get_size t \<le> lim + id_len t"
    "tlv_passes t lim \<Longrightarrow> 0 < tlv_length t \<Longrightarrow>
      snd (lwm2m_tlv_write t m lim) (lwm2m_tlv_get_size t - 1) = v (unat (tlv_length t) - 1)"
proof -
  show "fst (lwm2m_tlv_write t m lim) = (if tlv_passes t lim then lwm2m_tlv_get_size t else 0)"
    using tlv_write_eq [OF assms] tlv_write_refused [OF assms] by simp
  show "tlv_passes t lim" if "\<exists>i. snd (lwm2m_tlv_write t m lim) i \<noteq> m i"
    using that tlv_write_refused [OF assms, of lim m] by (cases "tlv_passes t lim") auto
  show "lwm2m_tlv_get_size t \<le> lim + id_len t" if "tlv_passes t lim"
    using that by (simp add: tlv_passes_def lwm2m_tlv_get_size_def id_len_def)
  assume p: "tlv_passes t lim" and "0 < tlv_length t"
  then have l: "0 < unat (tlv_length t)" by (simp add: word_less_nat_alt)
  then have "lwm2m_tlv_get_size t - 1 = length (tlv_head t) + (unat (tlv_length t) - 1)" by (simp add: tlv_size_parts)
  then show "snd (lwm2m_tlv_write t m lim) (lwm2m_tlv_get_size t - 1) = v (unat (tlv_length t) - 1)"
    using tlv_written(2) [OF assms p, of "unat (tlv_length t) - 1" m] l by simp
qed

text \<open>Zero is written as a float of zero bytes, whose exponent the reader turns into a shift by 32 or more.\<close>

lemma zero_not_read_back:
  assumes "bits \<le> 118"
  shows "fix_mantissa 0 0 0 = (0, 0)" "\<forall>i<4. v i = float_bytes False 0 0 ! i \<Longrightarrow> lwm2m_tlv_float32_to_fix v bits = None"
proof -
  show "fix_mantissa 0 0 0 = (0, 0)" by (subst fix_mantissa.simps) simp
  assume "\<forall>i<4. v i = float_bytes False 0 0 ! i"
  then have "v 0 = 0" "v 1 = 0" by (simp_all add: float_bytes_def)
  then show "lwm2m_tlv_float32_to_fix v bits = None" using assms by (simp add: lwm2m_tlv_float32_to_fix_def Let_def)
qed

end
