(* ===== verification/Contiki_Rings.thy ===== *)
theory Contiki_Rings imports Contiki_List begin

text \<open>
  The other linked lists of the library: \<open>os/lib/dbl-list.c\<close> (links both ways), \<open>os/lib/circular-list.c\<close>
  (the last item leads back to the head) and \<open>os/lib/dbl-circ-list.c\<close> (both). A list is its head pointer
  and the maps of the link fields; the walks are partial functions, since none of them returns when the
  links do not close up.

  \<open>dseg\<close> is a stretch of items linked both ways between given neighbours: with NULL at both ends it is a
  doubly linked list, with its own ends as neighbours a ring. Each operation is proved to do on the
  sequence of items what its name says, on every branch.
\<close>

record dll_state =
  dl_head :: ptr
  dl_next :: "ptr \<Rightarrow> ptr"
  dl_prev :: "ptr \<Rightarrow> ptr"

section \<open>Doubly linked lists\<close>

definition dbl_list_init :: "dll_state \<Rightarrow> dll_state" where
  "dbl_list_init s = s\<lparr>dl_head := NULL\<rparr>"

definition dbl_list_head :: "dll_state \<Rightarrow> ptr" where
  "dbl_list_head s = dl_head s"

partial_function (option) dl_tail_walk :: "(ptr \<Rightarrow> ptr) \<Rightarrow> ptr \<Rightarrow> ptr option" where
  "dl_tail_walk nx this = (if nx this \<noteq> NULL then dl_tail_walk nx (nx this) else Some this)"

definition dbl_list_tail :: "dll_state \<Rightarrow> ptr option" where
  "dbl_list_tail s = (if dl_head s = NULL then Some NULL else dl_tail_walk (dl_next s) (dl_head s))"

definition dl_unlink :: "ptr \<Rightarrow> dll_state \<Rightarrow> dll_state" where
  "dl_unlink this s =
     (let previous = dl_prev s this; nxt = dl_next s this;
          s = (if previous \<noteq> NULL then s\<lparr>dl_next := (dl_next s)(previous := dl_next s this)\<rparr> else s);
          s = (if nxt \<noteq> NULL then s\<lparr>dl_prev := (dl_prev s)(nxt := dl_prev s this)\<rparr> else s)
      in if dl_head s = this then s\<lparr>dl_head := nxt\<rparr> else s)"

partial_function (option) dl_remove_walk :: "ptr \<Rightarrow> ptr \<Rightarrow> dll_state \<Rightarrow> dll_state option" where
  "dl_remove_walk element this s =
     (if this \<noteq> NULL then
        if this = element then Some (dl_unlink this s) else dl_remove_walk element (dl_next s this) s
      else Some s)"

definition dbl_list_remove :: "ptr \<Rightarrow> dll_state \<Rightarrow> dll_state option" where
  "dbl_list_remove element s =
     (if dl_head s = NULL \<or> element = NULL then Some s else dl_remove_walk element (dl_head s) s)"

definition dbl_list_add_head :: "ptr \<Rightarrow> dll_state \<Rightarrow> dll_state option" where
  "dbl_list_add_head element s =
     (if element = NULL then Some s
      else Option.bind (dbl_list_remove element s) (\<lambda>s.
        let hd = dbl_list_head s;
            s = s\<lparr>dl_prev := (dl_prev s)(element := NULL)\<rparr>;
            s = s\<lparr>dl_next := (dl_next s)(element := hd)\<rparr>;
            s = (if hd \<noteq> NULL then s\<lparr>dl_prev := (dl_prev s)(hd := element)\<rparr> else s)
        in Some (s\<lparr>dl_head := element\<rparr>)))"

definition dbl_list_add_tail :: "ptr \<Rightarrow> dll_state \<Rightarrow> dll_state option" where
  "dbl_list_add_tail element s =
     (if element = NULL then Some s
      else Option.bind (dbl_list_remove element s) (\<lambda>s.
        Option.bind (dbl_list_tail s) (\<lambda>tl.
          let s = (if tl = NULL then s\<lparr>dl_head := element\<rparr>
                   else s\<lparr>dl_next := (dl_next s)(tl := element)\<rparr>);
              s = s\<lparr>dl_prev := (dl_prev s)(element := tl)\<rparr>
          in Some (s\<lparr>dl_next := (dl_next s)(element := NULL)\<rparr>))))"

definition dbl_list_add_after :: "ptr \<Rightarrow> ptr \<Rightarrow> dll_state \<Rightarrow> dll_state option" where
  "dbl_list_add_after existing element s =
     (if element = NULL \<or> existing = NULL then Some s
      else Option.bind (dbl_list_remove element s) (\<lambda>s.
        let s = s\<lparr>dl_next := (dl_next s)(element := dl_next s existing)\<rparr>;
            s = s\<lparr>dl_prev := (dl_prev s)(element := existing)\<rparr>;
            s = (if dl_next s existing \<noteq> NULL
                 then s\<lparr>dl_prev := (dl_prev s)(dl_next s existing := element)\<rparr> else s)
        in Some (s\<lparr>dl_next := (dl_next s)(existing := element)\<rparr>)))"

definition dbl_list_add_before :: "ptr \<Rightarrow> ptr \<Rightarrow> dll_state \<Rightarrow> dll_state option" where
  "dbl_list_add_before existing element s =
     (if element = NULL \<or> existing = NULL then Some s
      else Option.bind (dbl_list_remove element s) (\<lambda>s.
        let s = s\<lparr>dl_next := (dl_next s)(element := existing)\<rparr>;
            s = s\<lparr>dl_prev := (dl_prev s)(element := dl_prev s existing)\<rparr>;
            s = (if dl_prev s existing \<noteq> NULL
                 then s\<lparr>dl_next := (dl_next s)(dl_prev s existing := element)\<rparr> else s);
            s = s\<lparr>dl_prev := (dl_prev s)(existing := element)\<rparr>
        in Some (if dl_head s = existing then s\<lparr>dl_head := element\<rparr> else s)))"

partial_function (option) dl_length_walk :: "(ptr \<Rightarrow> ptr) \<Rightarrow> ptr \<Rightarrow> u64 \<Rightarrow> u64 option" where
  "dl_length_walk nx this len = (if this \<noteq> NULL then dl_length_walk nx (nx this) (len + 1) else Some len)"

definition dbl_list_length :: "dll_state \<Rightarrow> u64 option" where
  "dbl_list_length s = (if dl_head s = NULL then Some 0 else dl_length_walk (dl_next s) (dl_head s) 0)"

definition dbl_list_is_empty :: "dll_state \<Rightarrow> bool" where
  "dbl_list_is_empty s \<longleftrightarrow> dl_head s = NULL"

section \<open>Stretches linked both ways\<close>

text \<open>
  \<open>dseg nx pv a p xs b q\<close>: from \<open>p\<close> the items \<open>xs\<close>, then \<open>q\<close>; the item before \<open>p\<close> is \<open>a\<close>, the item before
  \<open>q\<close> is \<open>b\<close>.
\<close>

fun dseg :: "(ptr \<Rightarrow> ptr) \<Rightarrow> (ptr \<Rightarrow> ptr) \<Rightarrow> ptr \<Rightarrow> ptr \<Rightarrow> ptr list \<Rightarrow> ptr \<Rightarrow> ptr \<Rightarrow> bool" where
  "dseg nx pv a p [] b q \<longleftrightarrow> p = q \<and> a = b"
| "dseg nx pv a p (x # xs) b q \<longleftrightarrow> p = x \<and> x \<noteq> NULL \<and> pv x = a \<and> dseg nx pv x (nx x) xs b q"

lemma dseg_append:
  "dseg nx pv a p (xs @ ys) b q \<longleftrightarrow> (\<exists>c r. dseg nx pv a p xs c r \<and> dseg nx pv c r ys b q)"
  by (induction xs arbitrary: a p) auto

lemma dseg_upd_next [simp]: "x \<notin> set xs \<Longrightarrow> dseg (nx(x := r)) pv a p xs b q = dseg nx pv a p xs b q"
  by (induction xs arbitrary: a p) auto

lemma dseg_upd_prev [simp]: "x \<notin> set xs \<Longrightarrow> dseg nx (pv(x := r)) a p xs b q = dseg nx pv a p xs b q"
  by (induction xs arbitrary: a p) auto

lemma dseg_not_NULL: "dseg nx pv a p xs b q \<Longrightarrow> NULL \<notin> set xs"
  by (induction xs arbitrary: a p) auto

lemma dseg_first: "dseg nx pv a p xs b q \<Longrightarrow> p = (if xs = [] then q else hd xs)"
  by (cases xs) auto

lemma dseg_last: "dseg nx pv a p xs b q \<Longrightarrow> b = (if xs = [] then a else last xs)"
  by (induction xs arbitrary: a p) (auto split: if_splits)

lemma dseg_last_next: "dseg nx pv a p xs b q \<Longrightarrow> xs \<noteq> [] \<Longrightarrow> nx (last xs) = q"
  by (induction xs arbitrary: a p) (auto split: if_splits)

lemma dseg_first_prev: "dseg nx pv a p xs b q \<Longrightarrow> xs \<noteq> [] \<Longrightarrow> pv (hd xs) = a"
  by (cases xs) auto

text \<open>The link out of a stretch and the link back into it can be redirected.\<close>

lemma dseg_new_end:
  "dseg nx pv a p xs b q \<Longrightarrow> distinct xs \<Longrightarrow> xs \<noteq> [] \<Longrightarrow> dseg (nx(last xs := r)) pv a p xs b r"
proof (induction xs arbitrary: a p)
  case (Cons x xs)
  then show ?case by (cases "xs = []") auto
qed simp

lemma dseg_new_start:
  "dseg nx pv a p xs b q \<Longrightarrow> distinct xs \<Longrightarrow> xs \<noteq> [] \<Longrightarrow> dseg nx (pv(hd xs := r)) r p xs b q"
  by (cases xs) auto

definition dll_repr :: "dll_state \<Rightarrow> ptr list \<Rightarrow> bool" where
  "dll_repr s xs \<longleftrightarrow> distinct xs \<and> (\<exists>b. dseg (dl_next s) (dl_prev s) NULL (dl_head s) xs b NULL)"

text \<open>Two stretches linked into one, and an item put in front of one.\<close>

lemma dseg_join:
  assumes "dseg nx pv a p ys c r" "dseg nx pv d n zs b q" "distinct (ys @ zs)"
  shows "dseg (if ys = [] then nx else nx(last ys := n)) (if zs = [] then pv else pv(hd zs := c))
    a (if ys = [] then n else p) (ys @ zs) (if zs = [] then c else b) q"
proof -
  let ?nx = "if ys = [] then nx else nx(last ys := n)" and ?pv = "if zs = [] then pv else pv(hd zs := c)"
  have "dseg ?nx pv a (if ys = [] then n else p) ys c n"
    using assms(1,3) by (auto intro: dseg_new_end)
  moreover have "zs \<noteq> [] \<Longrightarrow> hd zs \<notin> set ys" using assms(3) by (cases zs) auto
  moreover have "ys = [] \<Longrightarrow> a = c" using assms(1) by simp
  ultimately have ys: "dseg ?nx ?pv a (if ys = [] then n else p) ys c n"
    by (cases "ys = []"; cases "zs = []") simp_all
  have "dseg nx ?pv c n zs (if zs = [] then c else b) q"
    using assms(2,3) dseg_new_start [of nx pv d n zs b q c] by auto
  moreover have "ys \<noteq> [] \<Longrightarrow> last ys \<notin> set zs"
    using assms(3) by (metis disjoint_iff distinct_append last_in_set)
  ultimately have "dseg ?nx ?pv c n zs (if zs = [] then c else b) q"
    by (cases "ys = []"; cases "zs = []") simp_all
  with ys show ?thesis unfolding dseg_append by (intro exI conjI)
qed

lemma dseg_put_in_front:
  assumes "dseg nx pv d n zs b q" "distinct (e # zs)" "e \<noteq> NULL"
  shows "dseg (nx(e := n)) ((if zs = [] then pv else pv(hd zs := e))(e := a)) a e (e # zs) (if zs = [] then e else b) q"
proof -
  have "dseg nx (if zs = [] then pv else pv(hd zs := e)) e n zs (if zs = [] then e else b) q"
    using assms(1,2) dseg_new_start [of nx pv d n zs b q e] by auto
  then show ?thesis using assms(2,3) by simp
qed

section \<open>What the operations do on the sequence\<close>

lemma dll_repr_parts:
  assumes "dll_repr s (ys @ x # zs)"
  obtains b where "dseg (dl_next s) (dl_prev s) NULL (dl_head s) ys (if ys = [] then NULL else last ys) x"
    "dseg (dl_next s) (dl_prev s) x (dl_next s x) zs b NULL" "dl_prev s x = (if ys = [] then NULL else last ys)"
    "distinct (ys @ x # zs)" "x \<noteq> NULL" "dl_next s x = (if zs = [] then NULL else hd zs)"
proof -
  obtain b c where c: "dseg (dl_next s) (dl_prev s) NULL (dl_head s) ys c x" "dl_prev s x = c" "x \<noteq> NULL"
    "dseg (dl_next s) (dl_prev s) x (dl_next s x) zs b NULL" "distinct (ys @ x # zs)"
    using assms by (auto simp: dll_repr_def dseg_append)
  have "c = (if ys = [] then NULL else last ys)" using dseg_last [OF c(1)] by simp
  moreover have "dl_next s x = (if zs = [] then NULL else hd zs)" using dseg_first [OF c(4)] by simp
  ultimately show thesis using that [of b] c by simp
qed

lemma dll_repr_head: "dll_repr s xs \<Longrightarrow> dl_head s = (if xs = [] then NULL else hd xs)"
  using dseg_first by (fastforce simp: dll_repr_def)

lemma dll_repr_not_NULL: "dll_repr s xs \<Longrightarrow> NULL \<notin> set xs"
  using dseg_not_NULL by (fastforce simp: dll_repr_def)

lemma dl_unlink_repr:
  assumes "dll_repr s (ys @ x # zs)"
  shows "dll_repr (dl_unlink x s) (ys @ zs)"
proof -
  let ?c = "if ys = [] then NULL else last ys" and ?n = "if zs = [] then NULL else hd zs"
  from assms obtain b where d: "dseg (dl_next s) (dl_prev s) NULL (dl_head s) ys ?c x"
    "dseg (dl_next s) (dl_prev s) x (dl_next s x) zs b NULL" "dl_prev s x = ?c"
    "distinct (ys @ x # zs)" "x \<noteq> NULL" "dl_next s x = ?n"
    by (rule dll_repr_parts)
  have nn: "ys \<noteq> [] \<Longrightarrow> last ys \<noteq> NULL" "zs \<noteq> [] \<Longrightarrow> hd zs \<noteq> NULL"
    using dseg_not_NULL [OF d(1)] dseg_not_NULL [OF d(2)] by (metis last_in_set, metis hd_in_set)
  have hd: "dl_head s = x \<longleftrightarrow> ys = []"
    using dll_repr_head [OF assms] d(4) by (cases ys) auto
  have "dl_next (dl_unlink x s) = (if ys = [] then dl_next s else (dl_next s)(last ys := ?n))"
    "dl_prev (dl_unlink x s) = (if zs = [] then dl_prev s else (dl_prev s)(hd zs := ?c))"
    "dl_head (dl_unlink x s) = (if ys = [] then ?n else dl_head s)"
    using nn by (auto simp: dl_unlink_def Let_def d(3,6) hd)
  then show ?thesis
    using dseg_join [OF d(1,2)] d(4) unfolding dll_repr_def d(6) by auto
qed

lemma dl_remove_walk_repr:
  assumes "dll_repr s (front @ rest)" "element \<notin> set front"
  shows "\<exists>s'. dl_remove_walk element (if rest = [] then NULL else hd rest) s = Some s' \<and>
    dll_repr s' (front @ remove1 element rest) \<and> (element \<notin> set rest \<longrightarrow> s' = s)"
  using assms
proof (induction rest arbitrary: front)
  case Nil
  then show ?case by (simp add: dl_remove_walk.simps)
next
  case (Cons x rest)
  have x: "x \<noteq> NULL" using dll_repr_not_NULL [OF Cons.prems(1)] by auto
  show ?case
  proof (cases "x = element")
    case True
    with x have "dl_remove_walk element x s = Some (dl_unlink x s)"
      by (subst dl_remove_walk.simps) simp
    with True dl_unlink_repr [OF Cons.prems(1)] show ?thesis by simp
  next
    case False
    have nxt: "dl_next s x = (if rest = [] then NULL else hd rest)"
      using Cons.prems(1) by (rule dll_repr_parts)
    from Cons.IH [of "front @ [x]"] Cons.prems False show ?thesis
      by (simp add: dl_remove_walk.simps [of element x] x nxt)
  qed
qed

theorem dbl_list_remove_repr:
  assumes "dll_repr s xs"
  shows "\<exists>s'. dbl_list_remove x s = Some s' \<and> dll_repr s' (remove1 x xs) \<and> (x \<notin> set xs \<longrightarrow> s' = s)"
proof (cases "xs = [] \<or> x = NULL")
  case True
  moreover have "x = NULL \<Longrightarrow> x \<notin> set xs" using dll_repr_not_NULL [OF assms] by blast
  ultimately show ?thesis
    using assms dll_repr_head [OF assms] by (auto simp: dbl_list_remove_def remove1_idem)
next
  case False
  then have "dl_head s = hd xs" "hd xs \<in> set xs" using dll_repr_head [OF assms] by simp_all
  moreover from this have "dl_head s \<noteq> NULL" using dll_repr_not_NULL [OF assms] by metis
  ultimately show ?thesis using False dl_remove_walk_repr [of s "[]" xs x] assms by (simp add: dbl_list_remove_def)
qed

lemma dl_tail_walk_dseg:
  "dseg nx pv a p xs b NULL \<Longrightarrow> xs \<noteq> [] \<Longrightarrow> dl_tail_walk nx p = Some (last xs)"
proof (induction xs arbitrary: a p)
  case (Cons x xs)
  then have p: "p = x" "dseg nx pv x (nx x) xs b NULL" by simp_all
  show ?case
  proof (cases "xs = []")
    case True
    with p have "nx x = NULL" "b = x" by auto
    with p True show ?thesis by (simp add: dl_tail_walk.simps [of nx x])
  next
    case False
    then have "nx x \<noteq> NULL" using dseg_first [OF p(2)] dseg_not_NULL [OF p(2)] by (metis hd_in_set)
    with False Cons.IH [OF p(2)] p(1) show ?thesis by (subst dl_tail_walk.simps) simp
  qed
qed simp

theorem dbl_list_tail_repr:
  assumes "dll_repr s xs"
  shows "dbl_list_tail s = Some (if xs = [] then NULL else last xs)"
proof (cases "xs = []")
  case True
  then show ?thesis using dll_repr_head [OF assms] by (simp add: dbl_list_tail_def)
next
  case False
  then have "hd xs \<noteq> NULL" using dll_repr_not_NULL [OF assms] by (metis hd_in_set)
  with False assms dll_repr_head [OF assms] show ?thesis
    by (auto simp: dbl_list_tail_def dll_repr_def dl_tail_walk_dseg)
qed

lemma dl_length_walk_dseg:
  "dseg nx pv a p xs b NULL \<Longrightarrow> dl_length_walk nx p n = Some (n + of_nat (length xs))"
proof (induction xs arbitrary: a p n)
  case Nil
  then show ?case by (subst dl_length_walk.simps) simp
next
  case (Cons x xs)
  then have p: "p = x" "x \<noteq> NULL" "dseg nx pv x (nx x) xs b NULL" by simp_all
  with Cons.IH [OF p(3)] show ?case by (subst dl_length_walk.simps) simp
qed

text \<open>The length is counted in an \<open>unsigned long\<close>.\<close>

theorem dbl_list_length_repr:
  assumes "dll_repr s xs"
  shows "dbl_list_length s = Some (of_nat (length xs))"
proof (cases "xs = []")
  case False
  then have "hd xs \<noteq> NULL" using dll_repr_not_NULL [OF assms] by (metis hd_in_set)
  with False assms dll_repr_head [OF assms] show ?thesis
    by (auto simp: dbl_list_length_def dll_repr_def dl_length_walk_dseg)
qed (use dll_repr_head [OF assms] in \<open>simp add: dbl_list_length_def\<close>)

lemma dll_reprI:
  "dseg nx pv NULL p xs b NULL \<Longrightarrow> distinct xs \<Longrightarrow>
   dll_repr (s\<lparr>dl_head := p, dl_next := nx, dl_prev := pv\<rparr>) xs"
  by (auto simp: dll_repr_def)

text \<open>Every addition first removes the item: what is left does not hold it.\<close>

lemma removed_repr:
  assumes "dll_repr s xs"
  obtains s1 where "dbl_list_remove x s = Some s1" "dll_repr s1 (remove1 x xs)" "x \<notin> set (remove1 x xs)"
proof -
  have "distinct xs" using assms by (simp add: dll_repr_def)
  then have "x \<notin> set (remove1 x xs)" by simp
  with that dbl_list_remove_repr [OF assms, of x] show thesis by blast
qed

text \<open>What an addition between \<open>ys\<close> and \<open>zs\<close> leaves.\<close>

abbreviation seq_last :: "ptr list \<Rightarrow> ptr" where "seq_last ys \<equiv> if ys = [] then NULL else last ys"
abbreviation seq_first :: "ptr list \<Rightarrow> ptr" where "seq_first zs \<equiv> if zs = [] then NULL else hd zs"

definition dll_inserted :: "ptr list \<Rightarrow> ptr \<Rightarrow> ptr list \<Rightarrow> dll_state \<Rightarrow> dll_state" where
  "dll_inserted ys x zs s = s\<lparr>dl_head := if ys = [] then x else dl_head s,
     dl_next := (if ys = [] then (dl_next s)(x := seq_first zs) else (dl_next s)(x := seq_first zs, last ys := x)),
     dl_prev := (if zs = [] then dl_prev s else (dl_prev s)(hd zs := x))(x := seq_last ys)\<rparr>"

lemma dll_inserted_repr:
  assumes "dll_repr s (ys @ zs)" "x \<notin> set (ys @ zs)" "x \<noteq> NULL"
  shows "dll_repr (dll_inserted ys x zs s) (ys @ x # zs)"
proof -
  obtain b c r where d: "dseg (dl_next s) (dl_prev s) NULL (dl_head s) ys c r" "dseg (dl_next s) (dl_prev s) c r zs b NULL"
    and dist: "distinct (ys @ zs)"
    using assms(1) by (auto simp: dll_repr_def dseg_append)
  have c: "c = seq_last ys" and r: "r = seq_first zs"
    using dseg_last [OF d(1)] dseg_first [OF d(2)] by simp_all
  let ?nx = "(dl_next s)(x := r)" and ?pv = "(if zs = [] then dl_prev s else (dl_prev s)(hd zs := x))(x := c)"
  have new: "distinct (x # zs)" "distinct (ys @ x # zs)" using dist assms(2) by auto
  have rear: "dseg ?nx ?pv c x (x # zs) (if zs = [] then x else b) NULL"
    by (rule dseg_put_in_front [OF d(2) new(1) assms(3)])
  have "zs \<noteq> [] \<Longrightarrow> hd zs \<notin> set ys" using dist by (cases zs) auto
  then have front: "dseg ?nx ?pv NULL (dl_head s) ys c r"
    using d(1) assms(2) by (cases "zs = []") simp_all
  have "(?pv)(x := c) = ?pv" by simp
  with dseg_join [OF front rear new(2)] new(2)
  show ?thesis by (auto simp: dll_repr_def dll_inserted_def c r simp del: dseg.simps)
qed

text \<open>The neighbours of an item of the list, as the code reads them.\<close>

lemma dll_neighbours:
  assumes "dll_repr s (ys @ x # zs)"
  shows "dl_next s x = seq_first zs" "dl_prev s x = seq_last ys" "dl_head s = x \<longleftrightarrow> ys = []"
proof -
  show "dl_next s x = seq_first zs" by (rule dll_repr_parts [OF assms])
  show "dl_prev s x = seq_last ys" by (rule dll_repr_parts [OF assms])
  have "distinct (ys @ x # zs)" using assms by (simp add: dll_repr_def)
  then show "dl_head s = x \<longleftrightarrow> ys = []" using dll_repr_head [OF assms] by (cases ys) auto
qed

lemma seq_ends_NULL:
  assumes "dll_repr s (ys @ zs)"
  shows "seq_first zs = NULL \<longleftrightarrow> zs = []" "seq_last ys = NULL \<longleftrightarrow> ys = []"
  using dll_repr_not_NULL [OF assms] by (metis UnCI hd_in_set set_append, metis UnCI last_in_set set_append)

theorem dbl_list_add_head_repr:
  assumes "dll_repr s xs" "x \<noteq> NULL"
  shows "\<exists>s'. dbl_list_add_head x s = Some s' \<and> dll_repr s' (x # remove1 x xs)"
proof -
  obtain s1 where s1: "dbl_list_remove x s = Some s1" "dll_repr s1 (remove1 x xs)" "x \<notin> set (remove1 x xs)"
    by (rule removed_repr [OF assms(1)])
  have hd: "dl_head s1 = seq_first (remove1 x xs)" by (rule dll_repr_head [OF s1(2)])
  moreover have "remove1 x xs \<noteq> [] \<Longrightarrow> hd (remove1 x xs) \<noteq> x" using s1(3) by (metis hd_in_set)
  moreover have "seq_first (remove1 x xs) = NULL \<longleftrightarrow> remove1 x xs = []"
    by (rule seq_ends_NULL(1) [where ys = "[]" and s = s1]) (simp add: s1(2))
  ultimately have "dbl_list_add_head x s = Some (dll_inserted [] x (remove1 x xs) s1)"
    using assms(2)
    by (auto simp: dbl_list_add_head_def s1(1) dbl_list_head_def Let_def dll_inserted_def fun_upd_twist)
  with dll_inserted_repr [of s1 "[]" "remove1 x xs" x] s1 assms(2) show ?thesis by simp
qed

theorem dbl_list_add_tail_repr:
  assumes "dll_repr s xs" "x \<noteq> NULL"
  shows "\<exists>s'. dbl_list_add_tail x s = Some s' \<and> dll_repr s' (remove1 x xs @ [x])"
proof -
  obtain s1 where s1: "dbl_list_remove x s = Some s1" "dll_repr s1 (remove1 x xs)" "x \<notin> set (remove1 x xs)"
    by (rule removed_repr [OF assms(1)])
  have "remove1 x xs \<noteq> [] \<Longrightarrow> last (remove1 x xs) \<noteq> x" using s1(3) by (metis last_in_set)
  moreover have "seq_last (remove1 x xs) = NULL \<longleftrightarrow> remove1 x xs = []"
    by (rule seq_ends_NULL(2) [where zs = "[]" and s = s1]) (simp add: s1(2))
  ultimately have "dbl_list_add_tail x s = Some (dll_inserted (remove1 x xs) x [] s1)"
    using assms(2)
    by (auto simp: dbl_list_add_tail_def s1(1) dbl_list_tail_repr [OF s1(2)] Let_def dll_inserted_def fun_upd_twist)
  with dll_inserted_repr [of s1 "remove1 x xs" "[]" x] s1 assms(2) show ?thesis by simp
qed

theorem dbl_list_add_after_repr:
  assumes "dll_repr s xs" "x \<noteq> NULL" "remove1 x xs = ys @ e # zs"
  shows "\<exists>s'. dbl_list_add_after e x s = Some s' \<and> dll_repr s' (ys @ e # x # zs)"
proof -
  obtain s1 where s1: "dbl_list_remove x s = Some s1" "dll_repr s1 (ys @ e # zs)" "x \<notin> set (ys @ e # zs)"
    using removed_repr [OF assms(1), of x] assms(3) by metis
  have e: "e \<noteq> NULL" "e \<noteq> x" using dll_repr_not_NULL [OF s1(2)] s1(3) by auto
  have "zs \<noteq> [] \<Longrightarrow> hd zs \<noteq> x" using s1(3) by (cases zs) auto
  moreover have "seq_first zs = NULL \<longleftrightarrow> zs = []"
    by (rule seq_ends_NULL(1) [where ys = "ys @ [e]" and s = s1]) (simp add: s1(2))
  ultimately have "dbl_list_add_after e x s = Some (dll_inserted (ys @ [e]) x zs s1)"
    using assms(2) e dll_neighbours(1) [OF s1(2)]
    by (auto simp: dbl_list_add_after_def s1(1) Let_def dll_inserted_def fun_upd_twist)
  with dll_inserted_repr [of s1 "ys @ [e]" zs x] s1 assms(2) show ?thesis by simp
qed

theorem dbl_list_add_before_repr:
  assumes "dll_repr s xs" "x \<noteq> NULL" "remove1 x xs = ys @ e # zs"
  shows "\<exists>s'. dbl_list_add_before e x s = Some s' \<and> dll_repr s' (ys @ x # e # zs)"
proof -
  obtain s1 where s1: "dbl_list_remove x s = Some s1" "dll_repr s1 (ys @ e # zs)" "x \<notin> set (ys @ e # zs)"
    using removed_repr [OF assms(1), of x] assms(3) by metis
  have e: "e \<noteq> NULL" "e \<noteq> x" using dll_repr_not_NULL [OF s1(2)] s1(3) by auto
  have "ys \<noteq> [] \<Longrightarrow> last ys \<noteq> x" using s1(3) by (metis UnCI last_in_set set_append)
  moreover have "seq_last ys = NULL \<longleftrightarrow> ys = []"
    by (rule seq_ends_NULL(2) [OF s1(2)])
  ultimately have "dbl_list_add_before e x s = Some (dll_inserted ys x (e # zs) s1)"
    using assms(2) e dll_neighbours(2,3) [OF s1(2)]
    by (auto simp: dbl_list_add_before_def s1(1) Let_def dll_inserted_def fun_upd_twist)
  with dll_inserted_repr [of s1 ys "e # zs" x] s1 assms(2) show ?thesis by simp
qed

section \<open>Rings linked both ways\<close>

definition dbl_circ_list_init :: "dll_state \<Rightarrow> dll_state" where
  "dbl_circ_list_init s = s\<lparr>dl_head := NULL\<rparr>"

definition dbl_circ_list_head :: "dll_state \<Rightarrow> ptr" where
  "dbl_circ_list_head s = dl_head s"

partial_function (option) ring_tail_walk :: "(ptr \<Rightarrow> ptr) \<Rightarrow> ptr \<Rightarrow> ptr \<Rightarrow> ptr option" where
  "ring_tail_walk nx h this = (if nx this \<noteq> h then ring_tail_walk nx h (nx this) else Some this)"

definition dbl_circ_list_tail :: "dll_state \<Rightarrow> ptr option" where
  "dbl_circ_list_tail s =
     (if dl_head s = NULL then Some NULL else ring_tail_walk (dl_next s) (dl_head s) (dl_head s))"

definition dcl_unlink :: "ptr \<Rightarrow> dll_state \<Rightarrow> dll_state" where
  "dcl_unlink this s =
     (let s = s\<lparr>dl_next := (dl_next s)(dl_prev s this := dl_next s this)\<rparr>;
          s = s\<lparr>dl_prev := (dl_prev s)(dl_next s this := dl_prev s this)\<rparr>;
          s = (if dl_head s = this
               then s\<lparr>dl_head := if dl_next s this = this then NULL else dl_next s this\<rparr> else s);
          s = s\<lparr>dl_next := (dl_next s)(this := NULL)\<rparr>
      in s\<lparr>dl_prev := (dl_prev s)(this := NULL)\<rparr>)"

partial_function (option) dcl_remove_walk :: "ptr \<Rightarrow> ptr \<Rightarrow> dll_state \<Rightarrow> dll_state option" where
  "dcl_remove_walk element this s =
     (if this = element then Some (dcl_unlink this s)
      else if dl_next s this \<noteq> dl_head s then dcl_remove_walk element (dl_next s this) s
      else Some s)"

definition dbl_circ_list_remove :: "ptr \<Rightarrow> dll_state \<Rightarrow> dll_state option" where
  "dbl_circ_list_remove element s =
     (if dl_head s = NULL \<or> element = NULL then Some s else dcl_remove_walk element (dl_head s) s)"

definition dbl_circ_list_add_head :: "ptr \<Rightarrow> dll_state \<Rightarrow> dll_state option" where
  "dbl_circ_list_add_head element s =
     (if element = NULL then Some s
      else Option.bind (dbl_circ_list_remove element s) (\<lambda>s.
        let h = dbl_circ_list_head s;
            s = (if h = NULL then
                   let s = s\<lparr>dl_next := (dl_next s)(element := element)\<rparr>
                   in s\<lparr>dl_prev := (dl_prev s)(element := element)\<rparr>
                 else
                   let s = s\<lparr>dl_next := (dl_next s)(element := h)\<rparr>;
                       s = s\<lparr>dl_prev := (dl_prev s)(element := dl_prev s h)\<rparr>;
                       s = s\<lparr>dl_next := (dl_next s)(dl_prev s h := element)\<rparr>
                   in s\<lparr>dl_prev := (dl_prev s)(h := element)\<rparr>)
        in Some (s\<lparr>dl_head := element\<rparr>)))"

definition dbl_circ_list_add_tail :: "ptr \<Rightarrow> dll_state \<Rightarrow> dll_state option" where
  "dbl_circ_list_add_tail element s =
     (if element = NULL then Some s
      else Option.bind (dbl_circ_list_remove element s) (\<lambda>s.
        Option.bind (dbl_circ_list_tail s) (\<lambda>tl. Some
          (if tl = NULL then
             let s = s\<lparr>dl_next := (dl_next s)(element := element)\<rparr>;
                 s = s\<lparr>dl_prev := (dl_prev s)(element := element)\<rparr>
             in s\<lparr>dl_head := element\<rparr>
           else
             let s = s\<lparr>dl_next := (dl_next s)(element := dl_head s)\<rparr>;
                 s = s\<lparr>dl_prev := (dl_prev s)(element := tl)\<rparr>;
                 s = s\<lparr>dl_prev := (dl_prev s)(dl_next s tl := element)\<rparr>
             in s\<lparr>dl_next := (dl_next s)(tl := element)\<rparr>))))"

definition dbl_circ_list_add_after :: "ptr \<Rightarrow> ptr \<Rightarrow> dll_state \<Rightarrow> dll_state option" where
  "dbl_circ_list_add_after existing element s =
     (if element = NULL \<or> existing = NULL then Some s
      else Option.bind (dbl_circ_list_remove element s) (\<lambda>s.
        let s = s\<lparr>dl_next := (dl_next s)(element := dl_next s existing)\<rparr>;
            s = s\<lparr>dl_prev := (dl_prev s)(element := existing)\<rparr>;
            s = s\<lparr>dl_prev := (dl_prev s)(dl_next s existing := element)\<rparr>
        in Some (s\<lparr>dl_next := (dl_next s)(existing := element)\<rparr>)))"

definition dbl_circ_list_add_before :: "ptr \<Rightarrow> ptr \<Rightarrow> dll_state \<Rightarrow> dll_state option" where
  "dbl_circ_list_add_before existing element s =
     (if element = NULL \<or> existing = NULL then Some s
      else Option.bind (dbl_circ_list_remove element s) (\<lambda>s.
        let s = s\<lparr>dl_next := (dl_next s)(element := existing)\<rparr>;
            s = s\<lparr>dl_prev := (dl_prev s)(element := dl_prev s existing)\<rparr>;
            s = s\<lparr>dl_next := (dl_next s)(dl_prev s existing := element)\<rparr>;
            s = s\<lparr>dl_prev := (dl_prev s)(existing := element)\<rparr>
        in Some (if dl_head s = existing then s\<lparr>dl_head := element\<rparr> else s)))"

partial_function (option) ring_length_walk :: "(ptr \<Rightarrow> ptr) \<Rightarrow> ptr \<Rightarrow> ptr \<Rightarrow> u64 \<Rightarrow> u64 option" where
  "ring_length_walk nx h this len =
     (if nx this \<noteq> h then ring_length_walk nx h (nx this) (len + 1) else Some len)"

definition dbl_circ_list_length :: "dll_state \<Rightarrow> u64 option" where
  "dbl_circ_list_length s =
     (if dl_head s = NULL then Some 0 else ring_length_walk (dl_next s) (dl_head s) (dl_head s) 1)"

definition dbl_circ_list_is_empty :: "dll_state \<Rightarrow> bool" where
  "dbl_circ_list_is_empty s \<longleftrightarrow> dl_head s = NULL"

text \<open>A ring, seen from any of its items.\<close>

definition ring :: "(ptr \<Rightarrow> ptr) \<Rightarrow> (ptr \<Rightarrow> ptr) \<Rightarrow> ptr list \<Rightarrow> bool" where
  "ring nx pv xs \<longleftrightarrow> xs \<noteq> [] \<longrightarrow> dseg nx pv (last xs) (hd xs) xs (last xs) (hd xs)"

definition dcl_repr :: "dll_state \<Rightarrow> ptr list \<Rightarrow> bool" where
  "dcl_repr s xs \<longleftrightarrow> distinct xs \<and> dl_head s = seq_first xs \<and> ring (dl_next s) (dl_prev s) xs"

lemma ring_rotate: "ring nx pv (ys @ zs) \<longleftrightarrow> ring nx pv (zs @ ys)"
proof -
  have turn: "ring nx pv (zs @ ys)" if "ring nx pv (ys @ zs)" "ys \<noteq> []" "zs \<noteq> []" for ys zs
  proof -
    have "dseg nx pv (last zs) (hd ys) (ys @ zs) (last zs) (hd ys)" using that by (simp add: ring_def)
    then obtain c r where d: "dseg nx pv (last zs) (hd ys) ys c r" "dseg nx pv c r zs (last zs) (hd ys)"
      unfolding dseg_append by blast
    moreover have "c = last ys" "r = hd zs"
      using dseg_last [OF d(1)] dseg_first [OF d(2)] that by simp_all
    ultimately have "dseg nx pv (last ys) (hd zs) (zs @ ys) (last ys) (hd zs)" unfolding dseg_append by blast
    then show ?thesis using that by (simp add: ring_def)
  qed
  then show ?thesis by (cases "ys = []"; cases "zs = []") auto
qed

lemma ring_links:
  assumes "ring nx pv (x # xs)"
  shows "nx x = (if xs = [] then x else hd xs)" "pv x = last (x # xs)" "x \<noteq> NULL"
    "dseg nx pv x (nx x) xs (last (x # xs)) x"
proof -
  show d: "dseg nx pv x (nx x) xs (last (x # xs)) x" "pv x = last (x # xs)" "x \<noteq> NULL"
    using assms by (simp_all add: ring_def)
  show "nx x = (if xs = [] then x else hd xs)" using dseg_first [OF d(1)] .
qed

lemma ring_drop:
  assumes "ring nx pv (x # xs)" "distinct (x # xs)" "xs \<noteq> []"
  shows "ring (nx(last xs := hd xs)) (pv(hd xs := last xs)) xs"
proof -
  have "dseg nx pv x (hd xs) xs (last xs) x" using ring_links [OF assms(1)] assms(3) by simp
  then have "dseg nx (pv(hd xs := last xs)) (last xs) (hd xs) xs (last xs) x"
    by (rule dseg_new_start) (use assms in auto)
  then show ?thesis unfolding ring_def by (intro impI dseg_new_end) (use assms in auto)
qed

lemma ring_put:
  assumes "ring nx pv xs" "distinct (x # xs)" "xs \<noteq> []" "x \<noteq> NULL"
  shows "ring (nx(x := hd xs, last xs := x)) (pv(x := last xs, hd xs := x)) (x # xs)"
proof -
  have "dseg nx pv (last xs) (hd xs) xs (last xs) (hd xs)" using assms(1,3) by (simp add: ring_def)
  then have "dseg nx (pv(hd xs := x)) x (hd xs) xs (last xs) (hd xs)"
    by (rule dseg_new_start) (use assms in auto)
  then have "dseg (nx(last xs := x)) (pv(hd xs := x)) x (hd xs) xs (last xs) x"
    by (rule dseg_new_end) (use assms in auto)
  moreover have "hd xs \<in> set xs" "last xs \<in> set xs" using assms(3) by simp_all
  moreover from this have "hd xs \<noteq> x" "last xs \<noteq> x" using assms(2) by auto
  ultimately show ?thesis using assms(2-4) by (simp add: ring_def fun_upd_twist [of x])
qed

lemma ring_upd [simp]:
  assumes "x \<notin> set xs"
  shows "ring (nx(x := r)) pv xs = ring nx pv xs" "ring nx (pv(x := r)) xs = ring nx pv xs"
  using assms by (simp_all add: ring_def)

lemma dcl_repr_around:
  assumes "dcl_repr s (ys @ x # zs)"
  shows "ring (dl_next s) (dl_prev s) (x # zs @ ys)" "distinct (x # zs @ ys)" "x \<noteq> NULL"
    "dl_next s x = (if zs = [] then hd (ys @ [x]) else hd zs)"
    "dl_prev s x = (if ys = [] then last (x # zs) else last ys)" "dl_head s = hd (ys @ [x])"
proof -
  show r: "ring (dl_next s) (dl_prev s) (x # zs @ ys)"
    using assms ring_rotate [of _ _ ys "x # zs"] by (simp add: dcl_repr_def)
  show "distinct (x # zs @ ys)" using assms by (auto simp: dcl_repr_def)
  show "x \<noteq> NULL" by (rule ring_links(3) [OF r])
  show "dl_next s x = (if zs = [] then hd (ys @ [x]) else hd zs)"
    using ring_links(1) [OF r] by (cases "zs = []"; cases ys) simp_all
  show "dl_prev s x = (if ys = [] then last (x # zs) else last ys)"
    using ring_links(2) [OF r] by (cases "ys = []") simp_all
  show "dl_head s = hd (ys @ [x])" using assms by (cases ys) (simp_all add: dcl_repr_def)
qed

lemma dcl_unlink_repr:
  assumes "dcl_repr s (ys @ x # zs)"
  shows "dcl_repr (dcl_unlink x s) (ys @ zs)" "dl_next (dcl_unlink x s) x = NULL" "dl_prev (dcl_unlink x s) x = NULL"
proof -
  note around = dcl_repr_around [OF assms]
  have "dcl_repr (dcl_unlink x s) (ys @ zs)"
  proof (cases "zs @ ys = []")
    case True
    with around have "dl_next s x = x" "dl_head s = x" by simp_all
    with True show ?thesis by (simp add: dcl_unlink_def Let_def dcl_repr_def ring_def)
  next
    case False
    let ?w = "zs @ ys"
    have xw: "x \<notin> set ?w" using around(2) by simp
    have "dl_next s x = hd ?w" "dl_prev s x = last ?w"
      using False ring_links(1,2) [OF around(1)] by (simp_all del: append_is_Nil_conv)
    moreover have "hd ?w \<noteq> x" "last ?w \<noteq> x"
      using xw hd_in_set [OF False] last_in_set [OF False] by metis+
    ultimately have l: "dl_next s x = hd ?w" "dl_prev s x = last ?w" "hd ?w \<noteq> x" "last ?w \<noteq> x" by blast+
    have head: "dl_head s = x \<longleftrightarrow> ys = []" using around(2,6) by (cases ys) auto
    let ?s = "dcl_unlink x s"
    have "dl_next ?s = (dl_next s)(last ?w := hd ?w, x := NULL)" "dl_prev ?s = (dl_prev s)(hd ?w := last ?w, x := NULL)"
      "dl_head ?s = (if ys = [] then hd ?w else dl_head s)"
      using l by (auto simp: dcl_unlink_def Let_def head)
    moreover have "ring ((dl_next s)(last ?w := hd ?w)) ((dl_prev s)(hd ?w := last ?w)) ?w"
      by (rule ring_drop [OF around(1,2) False])
    moreover note xw
    ultimately have "ring (dl_next ?s) (dl_prev ?s) ?w" by simp
    then show ?thesis
      using around(2,6) ring_rotate [of _ _ zs ys] False \<open>dl_head ?s = _\<close>
      by (cases ys) (auto simp: dcl_repr_def)
  qed
  then show "dcl_repr (dcl_unlink x s) (ys @ zs)" .
  show "dl_next (dcl_unlink x s) x = NULL" "dl_prev (dcl_unlink x s) x = NULL"
    by (simp_all add: dcl_unlink_def Let_def)
qed

lemma dcl_remove_walk_repr:
  assumes "dcl_repr s (front @ rest)" "element \<notin> set front" "rest \<noteq> []"
  shows "\<exists>s'. dcl_remove_walk element (hd rest) s = Some s' \<and> dcl_repr s' (front @ remove1 element rest) \<and>
    (element \<notin> set rest \<longrightarrow> s' = s)"
  using assms
proof (induction rest arbitrary: front)
  case (Cons x rest)
  note around = dcl_repr_around [OF Cons.prems(1)]
  show ?case
  proof (cases "x = element")
    case True
    then have "dcl_remove_walk element x s = Some (dcl_unlink x s)"
      by (subst dcl_remove_walk.simps) simp
    with True dcl_unlink_repr [OF Cons.prems(1)] show ?thesis by simp
  next
    case False
    show ?thesis
    proof (cases "rest = []")
      case True
      with False around(4,6) have "dcl_remove_walk element x s = Some s"
        by (subst dcl_remove_walk.simps) simp
      with False True Cons.prems show ?thesis by simp
    next
      case more: False
      have "hd rest \<noteq> hd (front @ [x])" using around(2) more by (cases rest; cases front) auto
      with False more around(4,6) have "dcl_remove_walk element x s = dcl_remove_walk element (hd rest) s"
        by (subst dcl_remove_walk.simps) simp
      with Cons.IH [of "front @ [x]"] Cons.prems False more show ?thesis by simp
    qed
  qed
qed simp

theorem dbl_circ_list_remove_repr:
  assumes "dcl_repr s xs"
  shows "\<exists>s'. dbl_circ_list_remove x s = Some s' \<and> dcl_repr s' (remove1 x xs) \<and> (x \<notin> set xs \<longrightarrow> s' = s)"
proof (cases "xs = []")
  case True
  with assms show ?thesis by (simp add: dbl_circ_list_remove_def dcl_repr_def)
next
  case False
  then obtain h t where xs: "xs = h # t" by (cases xs) auto
  have n: "y \<in> set xs \<Longrightarrow> y \<noteq> NULL" for y
    using dcl_repr_around(3) assms by (metis split_list)
  have "dl_head s = h" "h \<noteq> NULL" using assms n xs by (simp_all add: dcl_repr_def)
  moreover have "x = NULL \<Longrightarrow> x \<notin> set xs" using n by blast
  ultimately show ?thesis
    using dcl_remove_walk_repr [of s "[]" xs x] assms xs by (auto simp: dbl_circ_list_remove_def remove1_idem)
qed

lemma ring_tail_walk_lseg:
  "lseg nx p xs h \<Longrightarrow> xs \<noteq> [] \<Longrightarrow> h \<notin> set (tl xs) \<Longrightarrow> ring_tail_walk nx h p = Some (last xs)"
proof (induction xs arbitrary: p)
  case (Cons x xs)
  show ?case
  proof (cases "xs = []")
    case True
    with Cons.prems show ?thesis by (subst ring_tail_walk.simps) simp
  next
    case False
    then have "nx x \<noteq> h" using Cons.prems by (cases xs) auto
    moreover have "h \<notin> set (tl xs)" using Cons.prems(3) by (cases xs) auto
    ultimately show ?thesis using Cons False by (subst ring_tail_walk.simps) simp
  qed
qed simp

lemma ring_length_walk_lseg:
  "lseg nx p xs h \<Longrightarrow> xs \<noteq> [] \<Longrightarrow> h \<notin> set (tl xs) \<Longrightarrow>
   ring_length_walk nx h p n = Some (n + of_nat (length xs) - 1)"
proof (induction xs arbitrary: p n)
  case (Cons x xs)
  show ?case
  proof (cases "xs = []")
    case True
    with Cons.prems show ?thesis by (subst ring_length_walk.simps) simp
  next
    case False
    then have "nx x \<noteq> h" using Cons.prems by (cases xs) auto
    moreover have "h \<notin> set (tl xs)" using Cons.prems(3) by (cases xs) auto
    ultimately show ?thesis using Cons False by (subst ring_length_walk.simps) simp
  qed
qed simp

lemma dseg_lseg: "dseg nx pv a p xs b q \<Longrightarrow> lseg nx p xs q"
  by (induction xs arbitrary: a p) auto

lemma dcl_repr_lseg:
  assumes "dcl_repr s xs" "xs \<noteq> []"
  shows "lseg (dl_next s) (dl_head s) xs (dl_head s)" "dl_head s \<notin> set (tl xs)" "dl_head s \<noteq> NULL"
proof -
  from assms obtain h t where xs: "xs = h # t" by (cases xs) auto
  have "dl_head s = h" using assms xs by (simp add: dcl_repr_def)
  then show "lseg (dl_next s) (dl_head s) xs (dl_head s)" "dl_head s \<notin> set (tl xs)" "dl_head s \<noteq> NULL"
    using assms xs dseg_lseg [of "dl_next s" "dl_prev s" "last xs" h xs "last xs" h]
    by (auto simp: dcl_repr_def ring_def)
qed

theorem dbl_circ_list_tail_repr:
  "dcl_repr s xs \<Longrightarrow> dbl_circ_list_tail s = Some (seq_last xs)"
  using dcl_repr_lseg [of s xs] ring_tail_walk_lseg [of "dl_next s" "dl_head s" xs "dl_head s"]
  by (auto simp: dbl_circ_list_tail_def) (simp add: dcl_repr_def)

theorem dbl_circ_list_length_repr:
  "dcl_repr s xs \<Longrightarrow> dbl_circ_list_length s = Some (of_nat (length xs))"
  using dcl_repr_lseg [of s xs] ring_length_walk_lseg [of "dl_next s" "dl_head s" xs "dl_head s" 1]
  by (cases "xs = []") (auto simp: dbl_circ_list_length_def dcl_repr_def)

definition dcl_inserted :: "ptr list \<Rightarrow> ptr \<Rightarrow> ptr list \<Rightarrow> dll_state \<Rightarrow> dll_state" where
  "dcl_inserted ys x zs s =
     (let w = zs @ ys in
      s\<lparr>dl_head := if ys = [] then x else dl_head s,
        dl_next := if w = [] then (dl_next s)(x := x) else (dl_next s)(x := hd w, last w := x),
        dl_prev := if w = [] then (dl_prev s)(x := x) else (dl_prev s)(x := last w, hd w := x)\<rparr>)"

lemma dcl_inserted_repr:
  assumes "dcl_repr s (ys @ zs)" "x \<notin> set (ys @ zs)" "x \<noteq> NULL"
  shows "dcl_repr (dcl_inserted ys x zs s) (ys @ x # zs)"
proof (cases "zs @ ys = []")
  case True
  with assms(3) show ?thesis by (simp add: dcl_inserted_def dcl_repr_def ring_def)
next
  case False
  let ?w = "zs @ ys"
  have "ring (dl_next s) (dl_prev s) ?w" "distinct (x # ?w)"
    using assms(1,2) ring_rotate [of _ _ ys zs] by (auto simp: dcl_repr_def)
  then have "ring ((dl_next s)(x := hd ?w, last ?w := x)) ((dl_prev s)(x := last ?w, hd ?w := x)) (x # ?w)"
    by (rule ring_put [OF _ _ False assms(3)])
  then have "ring (dl_next (dcl_inserted ys x zs s)) (dl_prev (dcl_inserted ys x zs s)) (ys @ x # zs)"
    using False ring_rotate [of _ _ ys "x # zs"] by (auto simp: dcl_inserted_def Let_def)
  moreover have "distinct (ys @ x # zs)" using assms by (auto simp: dcl_repr_def)
  ultimately show ?thesis
    using assms(1) by (cases ys) (auto simp: dcl_repr_def dcl_inserted_def Let_def)
qed

lemma dcl_removed_repr:
  assumes "dcl_repr s xs"
  obtains s1 where "dbl_circ_list_remove x s = Some s1" "dcl_repr s1 (remove1 x xs)" "x \<notin> set (remove1 x xs)"
proof -
  have "distinct xs" using assms by (simp add: dcl_repr_def)
  then have "x \<notin> set (remove1 x xs)" by simp
  with that dbl_circ_list_remove_repr [OF assms, of x] show thesis by blast
qed

theorem dbl_circ_list_add_head_repr:
  assumes "dcl_repr s xs" "x \<noteq> NULL"
  shows "\<exists>s'. dbl_circ_list_add_head x s = Some s' \<and> dcl_repr s' (x # remove1 x xs)"
proof -
  obtain s1 where s1: "dbl_circ_list_remove x s = Some s1" "dcl_repr s1 (remove1 x xs)" "x \<notin> set (remove1 x xs)"
    by (rule dcl_removed_repr [OF assms(1)])
  let ?w = "remove1 x xs"
  have "dbl_circ_list_add_head x s = Some (dcl_inserted [] x ?w s1)"
  proof (cases "?w = []")
    case True
    with s1(2) have "dl_head s1 = NULL" by (simp add: dcl_repr_def)
    with True assms(2) show ?thesis
      by (simp add: dbl_circ_list_add_head_def s1(1) dbl_circ_list_head_def Let_def dcl_inserted_def)
  next
    case False
    then obtain h t where w: "?w = h # t" by (cases "?w") auto
    note around = dcl_repr_around [of s1 "[]" h t, simplified, OF s1(2) [unfolded w]]
    have "last ?w \<in> set ?w" using False by simp
    then have "last ?w \<noteq> x" "h \<noteq> x" using s1(3) w by auto
    then show ?thesis
      using assms(2) around by (simp add: dbl_circ_list_add_head_def s1(1) dbl_circ_list_head_def Let_def
          dcl_inserted_def w)
  qed
  with dcl_inserted_repr [of s1 "[]" ?w x] s1 assms(2) show ?thesis by simp
qed

lemma hd_last_other: "w \<noteq> [] \<Longrightarrow> x \<notin> set w \<Longrightarrow> hd w \<noteq> x \<and> last w \<noteq> x"
  by (metis hd_in_set last_in_set)

theorem dbl_circ_list_add_tail_repr:
  assumes "dcl_repr s xs" "x \<noteq> NULL"
  shows "\<exists>s'. dbl_circ_list_add_tail x s = Some s' \<and> dcl_repr s' (remove1 x xs @ [x])"
proof -
  obtain s1 where s1: "dbl_circ_list_remove x s = Some s1" "dcl_repr s1 (remove1 x xs)" "x \<notin> set (remove1 x xs)"
    by (rule dcl_removed_repr [OF assms(1)])
  let ?w = "remove1 x xs"
  have "dbl_circ_list_add_tail x s = Some (dcl_inserted ?w x [] s1)"
  proof (cases "?w = []")
    case True
    with assms(2) show ?thesis
      by (simp add: dbl_circ_list_add_tail_def s1(1) dbl_circ_list_tail_repr [OF s1(2)] Let_def dcl_inserted_def)
  next
    case False
    have w: "?w = butlast ?w @ [last ?w]" using False by simp
    note around = dcl_repr_around [of s1 "butlast ?w" "last ?w" "[]", folded w, OF s1(2)]
    have "last ?w \<noteq> x" "last ?w \<noteq> NULL" "dl_next s1 (last ?w) = hd ?w" "dl_head s1 = hd ?w"
      using around(3,4,6) hd_last_other [OF False s1(3)] w by simp_all
    with False show ?thesis
      using assms(2) by (simp add: dbl_circ_list_add_tail_def s1(1) dbl_circ_list_tail_repr [OF s1(2)] Let_def
          dcl_inserted_def)
  qed
  with dcl_inserted_repr [of s1 ?w "[]" x] s1 assms(2) show ?thesis by simp
qed

theorem dbl_circ_list_add_after_repr:
  assumes "dcl_repr s xs" "x \<noteq> NULL" "remove1 x xs = ys @ e # zs"
  shows "\<exists>s'. dbl_circ_list_add_after e x s = Some s' \<and> dcl_repr s' (ys @ e # x # zs)"
proof -
  obtain s1 where s1: "dbl_circ_list_remove x s = Some s1" "dcl_repr s1 (ys @ e # zs)" "x \<notin> set (ys @ e # zs)"
    using dcl_removed_repr [OF assms(1), of x] assms(3) by metis
  note around = dcl_repr_around [OF s1(2)]
  let ?w = "zs @ ys @ [e]"
  have "dl_next s1 e = hd ?w" using around(4) by (cases zs) simp_all
  moreover have "e \<noteq> x" "hd ?w \<noteq> x" using s1(3) by (cases zs; cases ys; auto)+
  ultimately have "dbl_circ_list_add_after e x s = Some (dcl_inserted (ys @ [e]) x zs s1)"
    using assms(2) around(3)
    by (simp add: dbl_circ_list_add_after_def s1(1) Let_def dcl_inserted_def)
  with dcl_inserted_repr [of s1 "ys @ [e]" zs x] s1 assms(2) show ?thesis by simp
qed

theorem dbl_circ_list_add_before_repr:
  assumes "dcl_repr s xs" "x \<noteq> NULL" "remove1 x xs = ys @ e # zs"
  shows "\<exists>s'. dbl_circ_list_add_before e x s = Some s' \<and> dcl_repr s' (ys @ x # e # zs)"
proof -
  obtain s1 where s1: "dbl_circ_list_remove x s = Some s1" "dcl_repr s1 (ys @ e # zs)" "x \<notin> set (ys @ e # zs)"
    using dcl_removed_repr [OF assms(1), of x] assms(3) by metis
  note around = dcl_repr_around [OF s1(2)]
  let ?w = "e # zs @ ys"
  have "dl_prev s1 e = last ?w" using around(5) by (cases "ys = []") simp_all
  moreover have "e \<noteq> x" "last ?w \<noteq> x" using s1(3) hd_last_other [of ?w x] by auto
  moreover have "dl_head s1 = e \<longleftrightarrow> ys = []" using around(2,6) by (cases ys) auto
  ultimately have "dbl_circ_list_add_before e x s = Some (dcl_inserted ys x (e # zs) s1)"
    using assms(2) around(3)
    by (auto simp: dbl_circ_list_add_before_def s1(1) Let_def dcl_inserted_def)
  with dcl_inserted_repr [of s1 ys "e # zs" x] s1 assms(2) show ?thesis by simp
qed

section \<open>Rings linked one way\<close>

text \<open>The state is that of \<open>Contiki_List\<close>: the head and the map of the \<open>next\<close> fields.\<close>

definition circular_list_init :: "list_state \<Rightarrow> list_state" where
  "circular_list_init s = s\<lparr>head := NULL\<rparr>"

definition circular_list_head :: "list_state \<Rightarrow> ptr" where
  "circular_list_head s = head s"

definition circular_list_tail :: "list_state \<Rightarrow> ptr option" where
  "circular_list_tail s = (if head s = NULL then Some NULL else ring_tail_walk (nxt s) (head s) (head s))"

definition circular_list_is_empty :: "list_state \<Rightarrow> bool" where
  "circular_list_is_empty s \<longleftrightarrow> head s = NULL"

partial_function (option) cl_remove_walk :: "ptr \<Rightarrow> ptr \<Rightarrow> ptr \<Rightarrow> list_state \<Rightarrow> list_state option" where
  "cl_remove_walk element previous this s =
     (if this = element then
        (let s = s\<lparr>nxt := (nxt s)(previous := nxt s this)\<rparr>
         in Some (s\<lparr>head := if nxt s this = this then NULL else previous\<rparr>))
      else if nxt s this \<noteq> nxt s (head s) then cl_remove_walk element this (nxt s this) s
      else Some s)"

definition circular_list_remove :: "ptr \<Rightarrow> list_state \<Rightarrow> list_state option" where
  "circular_list_remove element s =
     (if head s = NULL then Some s else cl_remove_walk element (head s) (nxt s (head s)) s)"

definition circular_list_add :: "ptr \<Rightarrow> list_state \<Rightarrow> list_state option" where
  "circular_list_add element s =
     (if element = NULL then Some s
      else Option.bind (circular_list_remove element s) (\<lambda>s.
        let h = head s;
            s = (if h = NULL then s\<lparr>nxt := (nxt s)(element := element)\<rparr>
                 else let s = s\<lparr>nxt := (nxt s)(element := nxt s h)\<rparr>
                      in s\<lparr>nxt := (nxt s)(h := element)\<rparr>)
        in Some (s\<lparr>head := element\<rparr>)))"

definition circular_list_length :: "list_state \<Rightarrow> u64 option" where
  "circular_list_length s =
     (if circular_list_is_empty s then Some 0 else ring_length_walk (nxt s) (head s) (head s) 1)"

definition one_ring :: "(ptr \<Rightarrow> ptr) \<Rightarrow> ptr list \<Rightarrow> bool" where
  "one_ring nx xs \<longleftrightarrow> xs \<noteq> [] \<longrightarrow> lseg nx (hd xs) xs (hd xs)"

definition cl_repr :: "list_state \<Rightarrow> ptr list \<Rightarrow> bool" where
  "cl_repr s xs \<longleftrightarrow> distinct xs \<and> head s = seq_first xs \<and> one_ring (nxt s) xs"

lemma lseg_append: "lseg nx p (xs @ ys) q \<longleftrightarrow> (\<exists>r. lseg nx p xs r \<and> lseg nx r ys q)"
  by (induction xs arbitrary: p) auto

lemma lseg_first: "lseg nx p xs q \<Longrightarrow> p = (if xs = [] then q else hd xs)"
  by (cases xs) auto

lemma lseg_new_end: "lseg nx p xs q \<Longrightarrow> distinct xs \<Longrightarrow> xs \<noteq> [] \<Longrightarrow> lseg (nx(last xs := r)) p xs r"
proof (induction xs arbitrary: p)
  case (Cons x xs)
  then show ?case by (cases "xs = []") auto
qed simp

lemma one_ring_rotate: "one_ring nx (ys @ zs) \<longleftrightarrow> one_ring nx (zs @ ys)"
proof -
  have turn: "one_ring nx (zs @ ys)" if "one_ring nx (ys @ zs)" "ys \<noteq> []" "zs \<noteq> []" for ys zs
  proof -
    have "lseg nx (hd ys) (ys @ zs) (hd ys)" using that by (simp add: one_ring_def)
    then obtain r where r: "lseg nx (hd ys) ys r" "lseg nx r zs (hd ys)" unfolding lseg_append by blast
    then have "r = hd zs" using lseg_first [OF r(2)] that by simp
    with r have "lseg nx (hd zs) (zs @ ys) (hd zs)" unfolding lseg_append by blast
    then show ?thesis using that by (simp add: one_ring_def)
  qed
  then show ?thesis by (cases "ys = []"; cases "zs = []") auto
qed

lemma one_ring_next:
  assumes "one_ring nx (ys @ x # zs)"
  shows "nx x = hd (zs @ ys @ [x])" "x \<noteq> NULL" "lseg nx (nx x) (zs @ ys) x"
proof -
  have "one_ring nx (x # zs @ ys)" using assms one_ring_rotate [of nx ys "x # zs"] by simp
  then show l: "lseg nx (nx x) (zs @ ys) x" "x \<noteq> NULL" by (simp_all add: one_ring_def)
  show "nx x = hd (zs @ ys @ [x])" using lseg_first [OF l(1)] by (cases zs; cases ys) simp_all
qed

lemma one_ring_upd [simp]: "x \<notin> set xs \<Longrightarrow> one_ring (nx(x := r)) xs = one_ring nx xs"
  by (simp add: one_ring_def)

definition cl_removed :: "ptr \<Rightarrow> ptr \<Rightarrow> list_state \<Rightarrow> list_state" where
  "cl_removed previous x s = s\<lparr>nxt := (nxt s)(previous := nxt s x), head := if previous = x then NULL else previous\<rparr>"

text \<open>The walk visits the second item first and the head last: \<open>front\<close> is behind it.\<close>

lemma ring_after_head:
  assumes "one_ring nx xs" "xs \<noteq> []" "h = last xs"
  shows "nx h = hd xs"
proof -
  from assms(2,3) have xs: "xs = butlast xs @ [h]" by simp
  with assms(1) have "one_ring nx (butlast xs @ [h])" by simp
  from one_ring_next(1) [OF this] xs show ?thesis by simp
qed

lemma cl_remove_walk_found:
  assumes "one_ring (nxt s) (front @ as @ x # bs)" "distinct (front @ as @ x # bs)"
    "head s = last (front @ as @ x # bs)"
  shows "cl_remove_walk x (last (as @ x # bs @ front)) (hd (as @ [x])) s =
    Some (cl_removed (last (x # bs @ front @ as)) x s)"
  using assms
proof (induction as arbitrary: front)
  case Nil
  let ?p = "last (x # bs @ front)"
  have nx: "nxt s x = hd (bs @ front @ [x])" using one_ring_next(1) [of "nxt s" front x bs] Nil.prems(1) by simp
  have "?p = x \<longleftrightarrow> bs @ front = []" using Nil.prems(2) by (auto simp: hd_last_other)
  moreover have "nxt s x = x \<longleftrightarrow> bs @ front = []"
    using nx Nil.prems(2) by (cases bs; cases front) auto
  ultimately show ?case
    by (subst cl_remove_walk.simps) (auto simp: cl_removed_def Let_def)
next
  case (Cons a as)
  let ?all = "front @ (a # as) @ x # bs"
  have a: "a \<noteq> x" using Cons.prems(2) by auto
  have "nxt s a = hd (as @ [x])"
    using one_ring_next(1) [of "nxt s" front a "as @ x # bs"] Cons.prems(1) by (cases as) simp_all
  moreover have "nxt s (head s) = hd (front @ [a])"
    using ring_after_head [OF Cons.prems(1) _ Cons.prems(3)] by (cases front) simp_all
  moreover have "hd (as @ [x]) \<noteq> hd (front @ [a])" using Cons.prems(2) by (cases as; cases front) auto
  ultimately have "cl_remove_walk x (last ((a # as) @ x # bs @ front)) a s = cl_remove_walk x a (hd (as @ [x])) s"
    using a by (subst cl_remove_walk.simps) simp
  moreover have "last (as @ x # bs @ front @ [a]) = a" by simp
  ultimately show ?case using Cons.IH [of "front @ [a]"] Cons.prems by simp
qed

lemma cl_remove_walk_absent:
  assumes "one_ring (nxt s) (front @ rest)" "distinct (front @ rest)" "rest \<noteq> []" "x \<notin> set rest"
    "head s = last (front @ rest)"
  shows "cl_remove_walk x previous (hd rest) s = Some s"
  using assms
proof (induction rest arbitrary: front previous)
  case (Cons a rest)
  have first: "nxt s (head s) = hd (front @ [a])"
    using ring_after_head [OF Cons.prems(1) _ Cons.prems(5)] by (cases front) simp_all
  have nx: "nxt s a = hd (rest @ front @ [a])"
    using one_ring_next(1) [of "nxt s" front a rest] Cons.prems(1) by simp
  show ?case
  proof (cases "rest = []")
    case True
    with nx first Cons.prems(4) show ?thesis by (subst cl_remove_walk.simps) simp
  next
    case False
    have "hd rest \<noteq> hd (front @ [a])" using Cons.prems(2) False by (cases rest; cases front) auto
    with nx first False Cons.prems(4) have "cl_remove_walk x previous a s = cl_remove_walk x a (hd rest) s"
      by (subst cl_remove_walk.simps) simp
    with Cons.IH [of "front @ [a]"] Cons.prems False show ?thesis by simp
  qed
qed simp

lemma cl_repr_turned:
  assumes "cl_repr s (h # t)"
  shows "one_ring (nxt s) (t @ [h])" "distinct (t @ [h])" "head s = last (t @ [h])" "nxt s h = hd (t @ [h])" "h \<noteq> NULL"
  using assms one_ring_rotate [of "nxt s" "[h]" t] one_ring_next(1,2) [of "nxt s" "[]" h t]
  by (auto simp: cl_repr_def)

lemma cl_removed_repr:
  assumes "one_ring (nxt s) (x # w)" "distinct (x # w)"
  shows "cl_repr (cl_removed (last (x # w)) x s) (if w = [] then [] else last w # butlast w)"
proof (cases "w = []")
  case True
  then show ?thesis by (simp add: cl_repr_def cl_removed_def one_ring_def)
next
  case False
  have l: "nxt s x = hd w" "lseg (nxt s) (hd w) w x"
    using one_ring_next(1,3) [of "nxt s" "[]" x w] assms(1) False by simp_all
  have "lseg ((nxt s)(last w := hd w)) (hd w) w (hd w)"
    by (rule lseg_new_end [OF l(2)]) (use assms(2) False in auto)
  then have "one_ring ((nxt s)(last w := hd w)) (butlast w @ [last w])" using False by (simp add: one_ring_def)
  then have "one_ring ((nxt s)(last w := hd w)) (last w # butlast w)"
    using one_ring_rotate [of _ "butlast w" "[last w]"] by simp
  moreover have "distinct (last w # butlast w)"
    using assms(2) False by (metis distinct.simps(2) distinct1_rotate rotate1.simps(2) append_butlast_last_id)
  moreover have "last w \<noteq> x" using hd_last_other [OF False] assms(2) by auto
  ultimately show ?thesis using False l(1) by (auto simp: cl_repr_def cl_removed_def)
qed

text \<open>Removing an item turns the ring: the item before it becomes the head.\<close>

theorem circular_list_remove_repr:
  assumes "cl_repr s (ys @ x # zs)"
  shows "\<exists>s'. circular_list_remove x s = Some s' \<and>
    cl_repr s' (if zs @ ys = [] then [] else last (zs @ ys) # butlast (zs @ ys))"
proof -
  obtain h t where ht: "ys @ x # zs = h # t" by (cases "ys @ x # zs") auto
  note turned = cl_repr_turned [OF assms [unfolded ht]]
  obtain as bs where split: "t @ [h] = as @ x # bs" "bs @ as = zs @ ys"
    using ht by (cases ys) (auto intro: that [of t "[]"] that [of "tl ys" "zs @ [h]"])
  have hd: "head s = h" using turned(3) by simp
  have start: "hd (as @ [x]) = nxt s h" using turned(4) split(1) by (cases as) auto
  have "last (as @ x # bs) = h" using split(1) by (metis last_snoc)
  then have "cl_remove_walk x h (nxt s h) s = Some (cl_removed (last (x # bs @ as)) x s)"
    using cl_remove_walk_found [of s "[]" as x bs] turned(1-3) split(1) start by simp
  then have "circular_list_remove x s = Some (cl_removed (last (x # zs @ ys)) x s)"
    using turned(5) by (simp add: circular_list_remove_def hd split(2))
  moreover have "one_ring (nxt s) (x # zs @ ys)" "distinct (x # zs @ ys)"
    using assms one_ring_rotate [of "nxt s" ys "x # zs"] by (auto simp: cl_repr_def)
  ultimately show ?thesis using cl_removed_repr by blast
qed

theorem circular_list_remove_absent:
  assumes "cl_repr s xs" "x \<notin> set xs"
  shows "circular_list_remove x s = Some s"
proof (cases xs)
  case Nil
  with assms show ?thesis by (simp add: circular_list_remove_def cl_repr_def)
next
  case (Cons h t)
  note turned = cl_repr_turned [OF assms(1) [unfolded Cons]]
  have "cl_remove_walk x h (hd (t @ [h])) s = Some s"
    by (rule cl_remove_walk_absent [where front = "[]"]) (use turned assms(2) Cons in auto)
  then show ?thesis using turned by (simp add: circular_list_remove_def)
qed

lemma circular_list_add_after_removal:
  assumes "circular_list_remove x s = Some s1" "cl_repr s1 xs" "x \<notin> set xs" "x \<noteq> NULL"
  shows "\<exists>s'. circular_list_add x s = Some s' \<and> cl_repr s' (if xs = [] then [x] else x # tl xs @ [hd xs])"
proof (cases xs)
  case Nil
  with assms show ?thesis by (simp add: circular_list_add_def Let_def cl_repr_def one_ring_def)
next
  case (Cons h t)
  note turned = cl_repr_turned [OF assms(2) [unfolded Cons]]
  let ?nx = "(nxt s1)(x := nxt s1 h, h := x)"
  have hx: "h \<noteq> x" using assms(3) Cons by auto
  have "lseg (nxt s1) (nxt s1 h) (t @ [h]) (nxt s1 h)"
    using turned(1,4) by (simp add: one_ring_def)
  then have "lseg ((nxt s1)(h := x)) (nxt s1 h) (t @ [h]) x"
    using lseg_new_end [of "nxt s1" "nxt s1 h" "t @ [h]" _ x] turned(2) by simp
  then have "one_ring ?nx (x # t @ [h])"
    using assms(3,4) Cons hx by (simp add: one_ring_def fun_upd_twist [of x])
  moreover have "distinct (x # t @ [h])" using turned(2) assms(3) Cons by auto
  moreover have "circular_list_add x s = Some (s1\<lparr>nxt := ?nx, head := x\<rparr>)"
    using turned(3,5) assms(1,4) by (simp add: circular_list_add_def Let_def)
  ultimately show ?thesis using Cons by (simp add: cl_repr_def)
qed

text \<open>The new item becomes the head; what was the head becomes the tail. An item already there moves.\<close>

theorem circular_list_add_fresh:
  assumes "cl_repr s xs" "x \<notin> set xs" "x \<noteq> NULL"
  shows "\<exists>s'. circular_list_add x s = Some s' \<and> cl_repr s' (if xs = [] then [x] else x # tl xs @ [hd xs])"
  using circular_list_add_after_removal [OF circular_list_remove_absent [OF assms(1,2)] assms] .

theorem circular_list_add_present:
  assumes "cl_repr s (ys @ x # zs)"
  shows "\<exists>s'. circular_list_add x s = Some s' \<and>
    cl_repr s' (if zs @ ys = [] then [x] else x # butlast (zs @ ys) @ [last (zs @ ys)])"
proof -
  obtain s1 where s1: "circular_list_remove x s = Some s1"
    "cl_repr s1 (if zs @ ys = [] then [] else last (zs @ ys) # butlast (zs @ ys))"
    using circular_list_remove_repr [OF assms] by blast
  have "x \<notin> set (zs @ ys)" using assms by (auto simp: cl_repr_def)
  then have "x \<notin> set (if zs @ ys = [] then [] else last (zs @ ys) # butlast (zs @ ys))"
    using hd_last_other [of "zs @ ys" x] by (auto dest: in_set_butlastD simp del: append_is_Nil_conv set_append)
  moreover have "x \<noteq> NULL"
    using assms one_ring_next(2) [of "nxt s" ys x zs] by (simp add: cl_repr_def)
  ultimately show ?thesis
    using circular_list_add_after_removal [OF s1] by (cases "zs @ ys = []") (simp_all del: append_is_Nil_conv)
qed

lemma cl_repr_lseg:
  assumes "cl_repr s xs" "xs \<noteq> []"
  shows "lseg (nxt s) (head s) xs (head s)" "head s \<notin> set (tl xs)" "head s \<noteq> NULL"
proof -
  from assms(2) obtain h t where xs: "xs = h # t" by (cases xs) auto
  note turned = cl_repr_turned [OF assms(1) [unfolded xs]]
  show "head s \<noteq> NULL" "head s \<notin> set (tl xs)" using turned xs by auto
  show "lseg (nxt s) (head s) xs (head s)" using assms xs by (simp add: cl_repr_def one_ring_def)
qed

theorem circular_list_tail_repr:
  "cl_repr s xs \<Longrightarrow> circular_list_tail s = Some (seq_last xs)"
  using cl_repr_lseg [of s xs] ring_tail_walk_lseg [of "nxt s" "head s" xs "head s"]
  by (auto simp: circular_list_tail_def) (simp add: cl_repr_def)

theorem circular_list_length_repr:
  "cl_repr s xs \<Longrightarrow> circular_list_length s = Some (of_nat (length xs))"
  using cl_repr_lseg [of s xs] ring_length_walk_lseg [of "nxt s" "head s" xs "head s" 1]
  by (cases "xs = []") (auto simp: circular_list_length_def circular_list_is_empty_def cl_repr_def)

end
