(* ===== verification/Contiki_Codecs.thy ===== *)
theory Contiki_Codecs imports Prelude begin

text \<open>
  Two small codecs of the library. \<open>os/lib/crc16.c\<close>: the checksum over a block of bytes, proved to
  be the bit-serial CRC with the CCITT polynomial, least significant bit first.
  \<open>os/lib/hexconv.c\<close>: bytes to hexadecimal text and back, proved to be inverse to each other, with
  the bounds of both buffers.
\<close>

section \<open>The checksum\<close>

definition crc16_add :: "u8 \<Rightarrow> u16 \<Rightarrow> u16" where
  "crc16_add b acc =
     (let acc = acc XOR ucast b;
          acc = drop_bit 8 acc OR push_bit 8 acc;
          acc = acc XOR push_bit 4 (acc AND 0xff00);
          acc = acc XOR drop_bit 4 (drop_bit 8 acc);
          acc = acc XOR drop_bit 5 (acc AND 0xff00)
      in acc)"

text \<open>\<open>data\<close> are the \<open>len\<close> bytes the pointer leads to.\<close>

fun crc16_data :: "u8 list \<Rightarrow> u16 \<Rightarrow> u16" where
  "crc16_data [] acc = acc"
| "crc16_data (b # data) acc = crc16_data data (crc16_add b acc)"

text \<open>The reference: one bit at a time, the polynomial \<open>x^16 + x^12 + x^5 + 1\<close> with its bits reversed.\<close>

definition crc_bit :: "u16 \<Rightarrow> u16" where
  "crc_bit c = (if bit c 0 then drop_bit 1 c XOR 0x8408 else drop_bit 1 c)"

definition crc_byte :: "u8 \<Rightarrow> u16 \<Rightarrow> u16" where
  "crc_byte b c = (crc_bit ^^ 8) (c XOR ucast b)"

lemma below_16_cases:
  assumes "n < (16::nat)"
  obtains "n = 0" | "n = 1" | "n = 2" | "n = 3" | "n = 4" | "n = 5" | "n = 6" | "n = 7" | "n = 8" | "n = 9"
    | "n = 10" | "n = 11" | "n = 12" | "n = 13" | "n = 14" | "n = 15"
proof -
  have "[0..<16] = [0, 1, 2, 3, 4, 5, 6, 7, 8, 9, 10, 11, 12, 13, 14, 15 :: nat]"
    by (simp add: upt_rec)
  moreover have "n \<in> set [0..<16]" using assms by simp
  ultimately have "n \<in> set [0, 1, 2, 3, 4, 5, 6, 7, 8, 9, 10, 11, 12, 13, 14, 15 :: nat]" by simp
  then show thesis using that by auto
qed

lemma bit_u16_above: "16 \<le> n \<Longrightarrow> bit (c :: u16) n = False"
  using bit_imp_le_length [of c n] by auto

lemma bit_8408: "bit (0x8408 :: u16) n \<longleftrightarrow> n = 3 \<or> n = 10 \<or> n = 15"
proof (cases "n < 16")
  case True
  then show ?thesis by (cases rule: below_16_cases) (simp_all add: bit_iff_odd)
qed (simp add: bit_u16_above)

lemma bit_ff00: "bit (0xff00 :: u16) n \<longleftrightarrow> 8 \<le> n \<and> n < 16"
proof (cases "n < 16")
  case True
  then show ?thesis by (cases rule: below_16_cases) (simp_all add: bit_iff_odd)
qed (simp add: bit_u16_above)

lemma bit_crc_bit: "bit (crc_bit c) n \<longleftrightarrow> bit c (Suc n) \<noteq> (bit c 0 \<and> (n = 3 \<or> n = 10 \<or> n = 15))"
  by (cases "n < 16") (simp_all add: crc_bit_def bit_xor_iff bit_drop_bit_eq bit_8408 bit_0 bit_u16_above
    del: bit_numeral_word_iff)

definition crc_mix :: "u16 \<Rightarrow> u16" where
  "crc_mix a =
     (let acc = drop_bit 8 a OR push_bit 8 a;
          acc = acc XOR push_bit 4 (acc AND 0xff00);
          acc = acc XOR drop_bit 4 (drop_bit 8 acc)
      in acc XOR drop_bit 5 (acc AND 0xff00))"

lemma crc_eight: "(crc_bit ^^ 8) a = crc_bit (crc_bit (crc_bit (crc_bit (crc_bit (crc_bit (crc_bit (crc_bit a)))))))"
  by (simp add: eval_nat_numeral)

lemmas word_bits = bit_xor_iff bit_or_iff bit_and_iff bit_push_bit_iff bit_drop_bit_eq comp_apply bit_ff00

lemma bit_crc_mix:
  assumes "n < 16"
  shows "bit (crc_mix a) n \<longleftrightarrow> bit ((crc_bit ^^ 8) a) n"
proof -
  have split: "bit (crc_mix a) k \<longleftrightarrow> bit ((crc_bit ^^ 8) a) k"
    if "k \<in> {0,1,2,3,4,5,6,7,8,9,10,11,12,13,14,15}" for k
    using that unfolding crc_mix_def Let_def crc_eight word_bits bit_crc_bit insert_iff empty_iff
    by (elim disjE) (simp_all add: bit_u16_above possible_bit_def numeral_eq_Suc, (argo | blast)+)
  show ?thesis by (rule below_16_cases [OF assms]) (simp_all add: split)
qed

lemma crc_mix_is_eight_bits: "crc_mix a = (crc_bit ^^ 8) a"
  by (rule bit_word_eqI) (simp add: bit_crc_mix)

lemma crc16_add_is_crc_byte: "crc16_add b acc = crc_byte b acc"
  unfolding crc_byte_def crc_mix_is_eight_bits [symmetric]
  by (simp only: crc16_add_def crc_mix_def Let_def)

text \<open>The check value of the algorithm: the nine digits \<open>123456789\<close> give \<open>0x2189\<close>.\<close>

lemma crc16_check_value: "crc16_data [0x31, 0x32, 0x33, 0x34, 0x35, 0x36, 0x37, 0x38, 0x39] 0 = 0x2189"
  by (simp add: crc16_add_def Let_def)

lemma crc16_data_append: "crc16_data (xs @ ys) acc = crc16_data ys (crc16_data xs acc)"
  by (induction xs arbitrary: acc) simp_all

lemma crc16_data_is_fold: "crc16_data data acc = fold crc_byte data acc"
  by (induction data arbitrary: acc) (simp_all add: crc16_add_is_crc_byte)

section \<open>Bytes as hexadecimal text\<close>

text \<open>
  The lengths are the callers' buffer sizes. \<open>text\<close> and \<open>buf\<close> are whole arrays, so that what a call
  leaves beyond the part it writes is part of its result.
\<close>

definition fromhex :: "char \<Rightarrow> int" where
  "fromhex c =
     (let v = of_char c :: int in
      if 48 \<le> v \<and> v \<le> 57 then v - 48
      else if 97 \<le> v \<and> v \<le> 102 then v - 97 + 10
      else if 65 \<le> v \<and> v \<le> 70 then v - 65 + 10
      else - 1)"

definition HEX :: string where
  "HEX = ''0123456789abcdef''"

function hexlify_from :: "nat \<Rightarrow> nat \<Rightarrow> u8 list \<Rightarrow> nat \<Rightarrow> string \<Rightarrow> nat \<Rightarrow> nat \<times> string" where
  "hexlify_from i p data data_len text text_size =
     (if p + 1 < text_size \<and> i < data_len
      then let text = text[p := HEX ! unat (drop_bit 4 (data ! i) AND 0xf)];
               text = text[p + 1 := HEX ! unat (data ! i AND 0xf)]
           in hexlify_from (i + 1) (p + 2) data data_len text text_size
      else (p, text))"
  by pat_completeness auto
termination by (relation "measure (\<lambda>(i, p, data, data_len, text, text_size). data_len - i)") auto

declare hexlify_from.simps [simp del]

definition hexconv_hexlify :: "u8 list \<Rightarrow> nat \<Rightarrow> string \<Rightarrow> nat \<Rightarrow> nat \<times> string" where
  "hexconv_hexlify data data_len text text_size = hexlify_from 0 0 data data_len text text_size"

function unhexlify_from :: "nat \<Rightarrow> nat \<Rightarrow> string \<Rightarrow> nat \<Rightarrow> u8 list \<Rightarrow> nat \<Rightarrow> int \<times> u8 list" where
  "unhexlify_from i p text text_len buf buf_size =
     (if p < buf_size \<and> i + 1 < text_len
      then let c1 = fromhex (text ! i); c2 = fromhex (text ! (i + 1)) in
           if c1 < 0 \<or> c2 < 0 then (- 1, buf)
           else unhexlify_from (i + 2) (p + 1) text text_len
                  (buf[p := word_of_int ((push_bit 4 c1 AND 0xf0) + (c2 AND 0xf))]) buf_size
      else (int p, buf))"
  by pat_completeness auto
termination by (relation "measure (\<lambda>(i, p, text, text_len, buf, buf_size). text_len - i)") auto

declare unhexlify_from.simps [simp del]

definition hexconv_unhexlify :: "string \<Rightarrow> nat \<Rightarrow> u8 list \<Rightarrow> nat \<Rightarrow> int \<times> u8 list" where
  "hexconv_unhexlify text text_len buf buf_size =
     (if text_len mod 2 \<noteq> 0 then (- 1, buf) else unhexlify_from 0 0 text text_len buf buf_size)"

text \<open>The two digits of a byte, and what they read back to.\<close>

definition hex_of_byte :: "u8 \<Rightarrow> string" where
  "hex_of_byte b = [HEX ! unat (drop_bit 4 b AND 0xf), HEX ! unat (b AND 0xf)]"

lemma length_hex_of_bytes: "length (concat (map hex_of_byte bs)) = 2 * length bs"
  by (induction bs) (simp_all add: hex_of_byte_def)

lemma fromhex_digit: "n < 16 \<Longrightarrow> fromhex (HEX ! n) = int n"
  by (erule below_16_cases) (simp_all add: HEX_def fromhex_def)

lemma two_nibbles:
  assumes "m < 16" "n < 16"
  shows "(push_bit 4 (int m) AND 0xf0) + (int n AND 0xf) = 16 * int m + int n"
proof -
  have "push_bit 4 (int m) AND 0xf0 = 16 * int m"
    by (rule below_16_cases [OF assms(1)]) simp_all
  moreover have "int n AND 0xf = int n"
    by (rule below_16_cases [OF assms(2)]) simp_all
  ultimately show ?thesis by simp
qed

lemma low_nibble: "unat ((b :: u8) AND 0xf) = unat b mod 16"
proof -
  have "b AND 0xf = take_bit 4 b" by (simp add: take_bit_eq_mask mask_eq_exp_minus_1)
  then have "unat (b AND 0xf) = take_bit 4 (unat b)" by (simp only: unsigned_take_bit_eq)
  then show ?thesis by (simp add: take_bit_eq_mod)
qed

lemma high_nibble: "unat (drop_bit 4 (b :: u8) AND 0xf) = unat b div 16"
  using unat_u8 [of b] by (simp only: low_nibble) (simp add: unat_drop_bit_eq drop_bit_eq_div unat_div)

lemma nibbles_of_byte:
  "word_of_int ((push_bit 4 (int (unat (drop_bit 4 (b :: u8) AND 0xf))) AND 0xf0)
     + (int (unat (b AND 0xf)) AND 0xf)) = b"
proof -
  have "unat b div 16 < 16" "unat b mod 16 < 16" using unat_u8 [of b] by linarith+
  note small = this
  have "(push_bit 4 (int (unat (drop_bit 4 b AND 0xf))) AND 0xf0)
     + (int (unat (b AND 0xf)) AND 0xf) = int (16 * (unat b div 16) + unat b mod 16)"
    unfolding high_nibble unfolding low_nibble two_nibbles [OF small]
    by (simp only: of_nat_add of_nat_mult of_nat_numeral)
  then show ?thesis by (simp only: mult_div_mod_eq) simp
qed

lemma hexlify_stops:
  "\<not> (p + 1 < text_size \<and> i < data_len) \<Longrightarrow> hexlify_from i p data data_len text text_size = (p, text)"
  unfolding hexlify_from.simps [of i p data data_len "text" text_size] by (rule if_not_P)

lemma hexlify_goes_on:
  "p + 1 < text_size \<and> i < data_len \<Longrightarrow> hexlify_from i p data data_len text text_size =
    hexlify_from (i + 1) (p + 2) data data_len (text[p := HEX ! unat (drop_bit 4 (data ! i) AND 0xf),
      p + 1 := HEX ! unat (data ! i AND 0xf)]) text_size"
  unfolding hexlify_from.simps [of i p data data_len "text" text_size] Let_def by (rule if_P)

lemma length_hexlify_from:
  "length (snd (hexlify_from i p data data_len text text_size)) = length text"
  by (induction i p data data_len "text" text_size rule: hexlify_from.induct)
    (subst hexlify_from.simps, simp add: Let_def)

text \<open>What the loop leaves, from any point of it: the bytes that still fit, two digits each.\<close>

lemma hexlify_from_writes:
  assumes "p + 2 * n \<le> length text" "i + n \<le> length data"
    "n = min (data_len - i) ((text_size - p) div 2)"
  shows "hexlify_from i p data data_len text text_size =
    (p + 2 * n, take p text @ concat (map hex_of_byte (take n (drop i data))) @ drop (p + 2 * n) text)"
  using assms
proof (induction n arbitrary: i p "text")
  case 0
  then have "\<not> (p + 1 < text_size \<and> i < data_len)" by (auto simp: min_def split: if_splits)
  then show ?case by (simp add: hexlify_stops)
next
  case (Suc n)
  have le: "Suc n \<le> data_len - i" "Suc n \<le> (text_size - p) div 2"
    unfolding Suc.prems(3) by simp_all
  then have go: "p + 1 < text_size" "i < data_len" by linarith+
  have less: "data_len - (i + 1) = data_len - i - 1" "(text_size - (p + 2)) div 2 = (text_size - p) div 2 - 1"
    using le by linarith+
  have n: "n = min (data_len - (i + 1)) ((text_size - (p + 2)) div 2)"
    unfolding less using Suc.prems(3) by linarith
  define text' where "text' = text[p := HEX ! unat (drop_bit 4 (data ! i) AND 0xf),
    p + 1 := HEX ! unat (data ! i AND 0xf)]"
  have len: "p + 1 < length text" using Suc.prems(1) by simp
  have front: "take (p + 2) text' = take p text @ hex_of_byte (data ! i)"
    using len by (simp add: text'_def hex_of_byte_def take_Suc_conv_app_nth list_update_append min_def)
  have rear: "drop (p + 2 + 2 * n) text' = drop (p + 2 * Suc n) text"
    by (simp add: text'_def)
  have "hexlify_from i p data data_len text text_size = hexlify_from (i + 1) (p + 2) data data_len text' text_size"
    unfolding text'_def by (rule hexlify_goes_on) (use go in simp)
  also have "\<dots> = (p + 2 + 2 * n, take (p + 2) text' @ concat (map hex_of_byte (take n (drop (i + 1) data)))
      @ drop (p + 2 + 2 * n) text')"
    by (rule Suc.IH [OF _ _ n]) (use Suc.prems in \<open>auto simp: text'_def\<close>)
  also have "\<dots> = (p + 2 * Suc n, take p text @ concat (map hex_of_byte (take (Suc n) (drop i data)))
      @ drop (p + 2 * Suc n) text)"
    using Suc.prems(2) by (simp only: front rear) (simp add: Cons_nth_drop_Suc [symmetric])
  finally show ?case .
qed

theorem hexlify_writes_digits:
  assumes "data_len \<le> length data" "text_size \<le> length text"
    "n = min data_len (text_size div 2)"
  shows "hexconv_hexlify data data_len text text_size =
    (2 * n, concat (map hex_of_byte (take n data)) @ drop (2 * n) text)"
  unfolding hexconv_hexlify_def
  by (subst hexlify_from_writes [where n = n]) (use assms in auto)

lemma length_unhexlify_from:
  "length (snd (unhexlify_from i p text text_len buf buf_size)) = length buf"
proof (induction i p "text" text_len buf buf_size rule: unhexlify_from.induct)
  case (1 i p "text" text_len buf buf_size)
  then show ?case by (subst unhexlify_from.simps) (simp add: Let_def)
qed

lemma unhexlify_goes_on:
  assumes "p < buf_size" "i + 1 < text_len" "text ! i = HEX ! unat (drop_bit 4 b AND 0xf)"
    "text ! (i + 1) = HEX ! unat ((b :: u8) AND 0xf)"
  shows "unhexlify_from i p text text_len buf buf_size =
    unhexlify_from (i + 2) (p + 1) text text_len (buf[p := b]) buf_size"
proof -
  have nibble: "unat b div 16 < 16" "unat b mod 16 < 16" using unat_u8 [of b] by linarith+
  have hi: "fromhex (text ! i) = int (unat (drop_bit 4 b AND 0xf))"
    unfolding assms(3) by (rule fromhex_digit) (subst high_nibble, rule nibble)
  have lo: "fromhex (text ! (i + 1)) = int (unat (b AND 0xf))"
    unfolding assms(4) by (rule fromhex_digit) (subst low_nibble, rule nibble)
  show ?thesis
    unfolding unhexlify_from.simps [of i p "text" text_len buf buf_size] hi lo Let_def nibbles_of_byte
    using assms(1,2) by simp
qed

lemma unhexlify_from_reads:
  assumes "p + length bs \<le> buf_size" "buf_size \<le> length buf"
    "drop i text = concat (map hex_of_byte bs) @ rest" "text_len = i + 2 * length bs"
  shows "unhexlify_from i p text text_len buf buf_size =
    (int (p + length bs), take p buf @ bs @ drop (p + length bs) buf)"
  using assms
proof (induction bs arbitrary: i p buf)
  case Nil
  then show ?case by (subst unhexlify_from.simps) simp
next
  case (Cons b bs)
  have digits: "drop i text = HEX ! unat (drop_bit 4 b AND 0xf) # HEX ! unat (b AND 0xf)
      # concat (map hex_of_byte bs) @ rest"
    using Cons.prems(3) by (simp add: hex_of_byte_def [of b])
  have at: "text ! i = HEX ! unat (drop_bit 4 b AND 0xf)" "text ! (i + 1) = HEX ! unat (b AND 0xf)"
    "drop (i + 2) text = concat (map hex_of_byte bs) @ rest"
    using arg_cong [OF digits, of "\<lambda>xs. xs ! 0"] arg_cong [OF digits, of "\<lambda>xs. xs ! 1"]
      arg_cong [OF digits, of "drop 2"] arg_cong [OF digits, of length]
    by (simp_all add: add.commute)
  have "unhexlify_from i p text text_len buf buf_size =
      unhexlify_from (i + 2) (p + 1) text text_len (buf[p := b]) buf_size"
    by (rule unhexlify_goes_on [OF _ _ at(1,2)]) (use Cons.prems in simp_all)
  also have "\<dots> = (int (p + 1 + length bs), take (p + 1) (buf[p := b]) @ bs @ drop (p + 1 + length bs) (buf[p := b]))"
    by (rule Cons.IH [OF _ _ at(3)]) (use Cons.prems in simp_all)
  also have "\<dots> = (int (p + length (b # bs)), take p buf @ (b # bs) @ drop (p + length (b # bs)) buf)"
    using Cons.prems by (simp add: take_Suc_conv_app_nth)
  finally show ?case .
qed

text \<open>What was written reads back, when the text and the buffer are large enough.\<close>

theorem hexlify_unhexlify:
  assumes "n \<le> length data" "2 * n \<le> text_size" "text_size \<le> length text"
    "n \<le> buf_size" "buf_size \<le> length buf"
    "hexconv_hexlify data n text text_size = (len, text')"
  shows "len = 2 * n" "hexconv_unhexlify text' len buf buf_size = (int n, take n data @ drop n buf)"
proof -
  have "min n (text_size div 2) = n" using assms(2) by simp
  then have out: "len = 2 * n" "text' = concat (map hex_of_byte (take n data)) @ drop (2 * n) text"
    using hexlify_writes_digits [OF assms(1,3) refl] assms(6) by simp_all
  then show "len = 2 * n" by simp
  have "unhexlify_from 0 0 text' len buf buf_size =
      (int (0 + length (take n data)), take 0 buf @ take n data @ drop (0 + length (take n data)) buf)"
    by (rule unhexlify_from_reads [where rest = "drop (2 * n) text"]) (use assms out in auto)
  then show "hexconv_unhexlify text' len buf buf_size = (int n, take n data @ drop n buf)"
    using assms(1) out(1) by (simp add: hexconv_unhexlify_def)
qed

end
