(* ===== verification/Contiki_Heapmem.thy ===== *)
theory Contiki_Heapmem imports Contiki_Rings begin

text \<open>
  The dynamic memory module \<open>os/lib/heapmem.c\<close>: chunks laid one behind the other in an arena, a doubly
  linked list of the free ones, zones with a budget each.

  Addresses are natural numbers and \<open>heap_base\<close> is where the arena starts. The fields of a chunk's header
  are maps from its address; the bytes behind the headers are a map of their own. The platform is the 64-bit
  one: a header takes 32 bytes, allocations are aligned to 16. Sizes of chunks are natural numbers: they
  are bounded by the arena, as the first test of each operation ensures. The zones' counters are
  \<open>size_t\<close> and wrap.

  \<open>heap_inv\<close>: the chunks tile the used part of the arena, and the free list, which is a list of
  \<open>Contiki_Rings\<close>, holds exactly the free ones. \<open>heap_ok\<close> is the same of the state alone. Every operation
  keeps it; what the operations promise is stated on \<open>heap_blocks\<close>, the map of the allocated blocks.
  The loops end because they move towards the end of the used part; the two searches of the free list
  are bounded by \<open>CHUNK_SEARCH_MAX\<close>. The debugging fields of a chunk are not modelled.
\<close>

record zone =
  zone_name :: "string option"
  zone_size :: u64
  zone_allocated :: u64

record hm_conf =
  heap_base :: ptr
  arena_size :: nat
  chunk_search_max :: nat

record heapmem =
  ck_prev :: "ptr \<Rightarrow> ptr"
  ck_next :: "ptr \<Rightarrow> ptr"
  ck_size :: "ptr \<Rightarrow> nat"
  ck_flags :: "ptr \<Rightarrow> u8"
  ck_zone :: "ptr \<Rightarrow> u8"
  heap_usage :: nat
  free_list :: ptr
  zones :: "zone list"
  heap_bytes :: "ptr \<Rightarrow> u8"

definition CHUNK_T_SIZE :: nat where "CHUNK_T_SIZE = 32"
definition HEAPMEM_ALIGNMENT :: nat where "HEAPMEM_ALIGNMENT = 16"

text \<open>\<open>n & ~m\<close> of unsigned numbers is \<open>n - (n & m)\<close>.\<close>

definition ALIGN :: "nat \<Rightarrow> nat" where
  "ALIGN sz = (let n = sz + (HEAPMEM_ALIGNMENT - 1) in n - (n AND (HEAPMEM_ALIGNMENT - 1)))"

definition NEXT_CHUNK :: "heapmem \<Rightarrow> ptr \<Rightarrow> ptr" where
  "NEXT_CHUNK s chunk = chunk + CHUNK_T_SIZE + ck_size s chunk"

definition heap_end :: "hm_conf \<Rightarrow> heapmem \<Rightarrow> ptr" where
  "heap_end c s = heap_base c + heap_usage s"

definition IS_LAST_CHUNK :: "hm_conf \<Rightarrow> heapmem \<Rightarrow> ptr \<Rightarrow> bool" where
  "IS_LAST_CHUNK c s chunk \<longleftrightarrow> NEXT_CHUNK s chunk = heap_end c s"

definition GET_CHUNK :: "ptr \<Rightarrow> ptr" where "GET_CHUNK p = p - CHUNK_T_SIZE"
definition GET_PTR :: "ptr \<Rightarrow> ptr" where "GET_PTR chunk = chunk + CHUNK_T_SIZE"

definition CHUNK_ALLOCATED :: "heapmem \<Rightarrow> ptr \<Rightarrow> bool" where
  "CHUNK_ALLOCATED s chunk \<longleftrightarrow> ck_flags s chunk AND 1 \<noteq> 0"

definition CHUNK_FREE :: "heapmem \<Rightarrow> ptr \<Rightarrow> bool" where
  "CHUNK_FREE s chunk \<longleftrightarrow> NOT (ck_flags s chunk) AND 1 \<noteq> 0"

section \<open>The operations\<close>

definition extend_space :: "hm_conf \<Rightarrow> nat \<Rightarrow> heapmem \<Rightarrow> ptr \<times> heapmem" where
  "extend_space c sz s =
     (if sz > arena_size c - heap_usage s then (NULL, s)
      else (heap_base c + heap_usage s, s\<lparr>heap_usage := heap_usage s + sz\<rparr>))"

definition free_chunk :: "hm_conf \<Rightarrow> ptr \<Rightarrow> heapmem \<Rightarrow> heapmem" where
  "free_chunk c chunk s =
     (let s = s\<lparr>ck_flags := (ck_flags s)(chunk := ck_flags s chunk AND NOT 1)\<rparr> in
      if IS_LAST_CHUNK c s chunk then
        s\<lparr>heap_usage := heap_usage s - (CHUNK_T_SIZE + ck_size s chunk)\<rparr>
      else
        let s = s\<lparr>ck_prev := (ck_prev s)(chunk := NULL)\<rparr>;
            s = s\<lparr>ck_next := (ck_next s)(chunk := free_list s)\<rparr>;
            s = (if free_list s \<noteq> NULL then s\<lparr>ck_prev := (ck_prev s)(free_list s := chunk)\<rparr> else s)
        in s\<lparr>free_list := chunk\<rparr>)"

definition remove_chunk_from_free_list :: "ptr \<Rightarrow> heapmem \<Rightarrow> heapmem" where
  "remove_chunk_from_free_list chunk s =
     (let s = (if chunk = free_list s then
                 let s = s\<lparr>free_list := ck_next s chunk\<rparr>
                 in if free_list s \<noteq> NULL then s\<lparr>ck_prev := (ck_prev s)(free_list s := NULL)\<rparr> else s
               else s\<lparr>ck_next := (ck_next s)(ck_prev s chunk := ck_next s chunk)\<rparr>)
      in if ck_next s chunk \<noteq> NULL then s\<lparr>ck_prev := (ck_prev s)(ck_next s chunk := ck_prev s chunk)\<rparr> else s)"

definition split_chunk :: "hm_conf \<Rightarrow> ptr \<Rightarrow> nat \<Rightarrow> heapmem \<Rightarrow> heapmem" where
  "split_chunk c chunk offset s =
     (let offset = ALIGN offset in
      if offset + CHUNK_T_SIZE < ck_size s chunk then
        let new_chunk = GET_PTR chunk + offset;
            s = s\<lparr>ck_size := (ck_size s)(new_chunk := ck_size s chunk - CHUNK_T_SIZE - offset)\<rparr>;
            s = s\<lparr>ck_flags := (ck_flags s)(new_chunk := 0)\<rparr>;
            s = free_chunk c new_chunk s;
            s = s\<lparr>ck_size := (ck_size s)(chunk := offset)\<rparr>
        in s\<lparr>ck_prev := (ck_prev s)(chunk := NULL), ck_next := (ck_next s)(chunk := NULL)\<rparr>
      else s)"

lemma remove_free_frame:
  "heap_usage (remove_chunk_from_free_list ch s) = heap_usage s"
  "ck_size (remove_chunk_from_free_list ch s) = ck_size s"
  "ck_flags (remove_chunk_from_free_list ch s) = ck_flags s"
  "ck_zone (remove_chunk_from_free_list ch s) = ck_zone s"
  "zones (remove_chunk_from_free_list ch s) = zones s"
  "heap_bytes (remove_chunk_from_free_list ch s) = heap_bytes s"
  by (simp_all add: remove_chunk_from_free_list_def Let_def)

text \<open>Each turn takes in the chunk behind; the loop ends because that moves the end of the chunk.\<close>

function coalesce_chunks :: "hm_conf \<Rightarrow> ptr \<Rightarrow> heapmem \<Rightarrow> heapmem" where
  "coalesce_chunks c chunk s =
     (let nxt = NEXT_CHUNK s chunk in
      if nxt < heap_end c s \<and> CHUNK_FREE s nxt then
        let s = s\<lparr>ck_size := (ck_size s)(chunk := ck_size s chunk + (CHUNK_T_SIZE + ck_size s nxt))\<rparr>
        in coalesce_chunks c chunk (remove_chunk_from_free_list nxt s)
      else s)"
  by pat_completeness auto
termination
proof (relation "measure (\<lambda>(c, chunk, s). heap_end c s - NEXT_CHUNK s chunk)", goal_cases)
  case (2 c chunk s nxt s1)
  then have "NEXT_CHUNK s chunk < heap_end c s" by simp
  then show ?case
    unfolding 2(3) by (simp add: NEXT_CHUNK_def heap_end_def remove_free_frame CHUNK_T_SIZE_def 2(1))
qed simp

declare coalesce_chunks.simps [simp del]

text \<open>Both searches look at no more than \<open>CHUNK_SEARCH_MAX\<close> chunks.\<close>

fun defrag_from :: "hm_conf \<Rightarrow> nat \<Rightarrow> ptr \<Rightarrow> heapmem \<Rightarrow> heapmem" where
  "defrag_from c 0 chunk s = s"
| "defrag_from c (Suc i) chunk s =
     (if chunk \<noteq> NULL then
        let s = coalesce_chunks c chunk s in defrag_from c i (ck_next s chunk) s
      else s)"

definition defrag_chunks :: "hm_conf \<Rightarrow> heapmem \<Rightarrow> heapmem" where
  "defrag_chunks c s = defrag_from c (chunk_search_max c) (free_list s) s"

fun best_from :: "nat \<Rightarrow> ptr \<Rightarrow> nat \<Rightarrow> ptr \<Rightarrow> heapmem \<Rightarrow> ptr" where
  "best_from 0 chunk sz best s = best"
| "best_from (Suc i) chunk sz best s =
     (if chunk \<noteq> NULL then
        if sz \<le> ck_size s chunk then
          let best = (if best = NULL \<or> ck_size s chunk < ck_size s best then chunk else best)
          in if ck_size s best = sz then best else best_from i (ck_next s chunk) sz best s
        else best_from i (ck_next s chunk) sz best s
      else best)"

definition get_free_chunk :: "hm_conf \<Rightarrow> nat \<Rightarrow> heapmem \<Rightarrow> ptr \<times> heapmem" where
  "get_free_chunk c sz s =
     (let s = defrag_chunks c s;
          best = best_from (chunk_search_max c) (free_list s) sz NULL s
      in if best \<noteq> NULL then (best, split_chunk c best sz (remove_chunk_from_free_list best s))
         else (NULL, s))"

definition HEAPMEM_ZONE_INVALID :: u8 where "HEAPMEM_ZONE_INVALID = - 1"
definition HEAPMEM_ZONE_GENERAL :: nat where "HEAPMEM_ZONE_GENERAL = 0"

text \<open>\<open>todo\<close> are the zones from index \<open>i\<close> on.\<close>

fun register_from :: "zone list \<Rightarrow> nat \<Rightarrow> string \<Rightarrow> u64 \<Rightarrow> heapmem \<Rightarrow> u8 \<times> heapmem" where
  "register_from [] i name zsize s = (HEAPMEM_ZONE_INVALID, s)"
| "register_from (z # todo) i name zsize s =
     (case zone_name z of
        None \<Rightarrow>
          let s = s\<lparr>zones := (zones s)[i := (zones s ! i)\<lparr>zone_name := Some name, zone_size := zsize\<rparr>]\<rparr>;
              g = zones s ! HEAPMEM_ZONE_GENERAL;
              s = s\<lparr>zones := (zones s)[HEAPMEM_ZONE_GENERAL := g\<lparr>zone_size := zone_size g - zsize\<rparr>]\<rparr>
          in (of_nat i, s)
      | Some other \<Rightarrow>
          if other = name then (HEAPMEM_ZONE_INVALID, s) else register_from todo (Suc i) name zsize s)"

definition heapmem_zone_register :: "string option \<Rightarrow> u64 \<Rightarrow> heapmem \<Rightarrow> u8 \<times> heapmem" where
  "heapmem_zone_register name zsize s =
     (if zsize > zone_size (zones s ! HEAPMEM_ZONE_GENERAL) then (HEAPMEM_ZONE_INVALID, s)
      else case name of
        None \<Rightarrow> (HEAPMEM_ZONE_INVALID, s)
      | Some name \<Rightarrow>
          if zsize = 0 then (HEAPMEM_ZONE_INVALID, s)
          else register_from (drop (HEAPMEM_ZONE_GENERAL + 1) (zones s)) (HEAPMEM_ZONE_GENERAL + 1) name zsize s)"

definition add_allocated :: "u8 \<Rightarrow> u64 \<Rightarrow> heapmem \<Rightarrow> heapmem" where
  "add_allocated zn d s =
     (let z = zones s ! unat zn
      in s\<lparr>zones := (zones s)[unat zn := z\<lparr>zone_allocated := zone_allocated z + d\<rparr>]\<rparr>)"

definition heapmem_zone_alloc :: "hm_conf \<Rightarrow> u8 \<Rightarrow> u64 \<Rightarrow> heapmem \<Rightarrow> ptr \<times> heapmem" where
  "heapmem_zone_alloc c zn request s =
     (if unat request > arena_size c then (NULL, s)
      else if unat zn \<ge> length (zones s) \<or> zone_name (zones s ! unat zn) = None then (NULL, s)
      else
        let sz = ALIGN (unat request) in
        if of_nat (CHUNK_T_SIZE + sz) > zone_size (zones s ! unat zn) - zone_allocated (zones s ! unat zn)
        then (NULL, s)
        else
          let (chunk, s) = get_free_chunk c sz s;
              (chunk, s) = (if chunk = NULL then
                              let (chunk, s) = extend_space c (CHUNK_T_SIZE + sz) s
                              in if chunk = NULL then (NULL, s)
                                 else (chunk, s\<lparr>ck_size := (ck_size s)(chunk := sz)\<rparr>)
                            else (chunk, s))
          in if chunk = NULL then (NULL, s)
             else
               let s = s\<lparr>ck_flags := (ck_flags s)(chunk := 1)\<rparr>;
                   s = s\<lparr>ck_zone := (ck_zone s)(chunk := zn)\<rparr>;
                   s = add_allocated zn (of_nat (CHUNK_T_SIZE + sz)) s
               in (GET_PTR chunk, s))"

definition heapmem_alloc :: "hm_conf \<Rightarrow> u64 \<Rightarrow> heapmem \<Rightarrow> ptr \<times> heapmem" where
  "heapmem_alloc c request s = heapmem_zone_alloc c 0 request s"

text \<open>
  \<open>!IN_HEAP(ptr)\<close>, as the preprocessor leaves it: the macro's conjunction has no parentheses, so the
  negation applies to its first half only.
\<close>

definition not_IN_HEAP :: "hm_conf \<Rightarrow> ptr \<Rightarrow> heapmem \<Rightarrow> bool" where
  "not_IN_HEAP c p s \<longleftrightarrow> \<not> (p \<ge> heap_base c) \<and> p < heap_base c + heap_usage s"

definition heapmem_free :: "hm_conf \<Rightarrow> ptr \<Rightarrow> heapmem \<Rightarrow> bool \<times> heapmem" where
  "heapmem_free c p s =
     (if not_IN_HEAP c p s then (False, s)
      else
        let chunk = GET_CHUNK p in
        if \<not> CHUNK_ALLOCATED s chunk then (False, s)
        else
          let s = add_allocated (ck_zone s chunk) (- of_nat (CHUNK_T_SIZE + ck_size s chunk)) s
          in (True, free_chunk c chunk s))"

text \<open>\<open>memcpy\<close> between two regions that do not overlap.\<close>

definition copy_bytes :: "ptr \<Rightarrow> ptr \<Rightarrow> nat \<Rightarrow> heapmem \<Rightarrow> heapmem" where
  "copy_bytes dest src n s = s\<lparr>heap_bytes := \<lambda>a. if dest \<le> a \<and> a < dest + n
     then heap_bytes s (src + (a - dest)) else heap_bytes s a\<rparr>"

definition realloc_elsewhere :: "hm_conf \<Rightarrow> ptr \<Rightarrow> ptr \<Rightarrow> nat \<Rightarrow> heapmem \<Rightarrow> ptr \<times> heapmem" where
  "realloc_elsewhere c p chunk sz s =
     (let (newptr, s) = heapmem_zone_alloc c (ck_zone s chunk) (of_nat sz) s
      in if newptr = NULL then (NULL, s)
         else (newptr, free_chunk c chunk (copy_bytes newptr p (ck_size s chunk) s)))"

definition heapmem_realloc :: "hm_conf \<Rightarrow> ptr \<Rightarrow> u64 \<Rightarrow> heapmem \<Rightarrow> ptr \<times> heapmem" where
  "heapmem_realloc c p request s =
     (if p \<noteq> NULL \<and> not_IN_HEAP c p s then (NULL, s)
      else if unat request > arena_size c then (NULL, s)
      else if p = NULL then heapmem_alloc c request s
      else if request = 0 then (NULL, snd (heapmem_free c p s))
      else
        let chunk = GET_CHUNK p in
        if \<not> CHUNK_ALLOCATED s chunk then (NULL, s)
        else
          let sz = ALIGN (unat request); size_adj = int sz - int (ck_size s chunk) in
          if size_adj \<le> 0 then
            let s = split_chunk c chunk sz s
            in (p, add_allocated (ck_zone s chunk) (of_int size_adj) s)
          else if IS_LAST_CHUNK c s chunk then
            let (q, s) = extend_space c (nat size_adj) s
            in if q \<noteq> NULL then
                 (p, add_allocated (ck_zone s chunk) (of_int size_adj) (s\<lparr>ck_size := (ck_size s)(chunk := sz)\<rparr>))
               else realloc_elsewhere c p chunk sz s
          else
            let s = coalesce_chunks c chunk s
            in if ck_size s chunk \<ge> sz then
                 let s = split_chunk c chunk sz s
                 in (p, add_allocated (ck_zone s chunk) (of_int size_adj) s)
               else realloc_elsewhere c p chunk sz s)"

record heapmem_stats =
  st_allocated :: nat
  st_overhead :: nat
  st_available :: nat
  st_footprint :: nat
  st_chunks :: nat

lemma coalesce_frame:
  "heap_usage (coalesce_chunks c ch s) = heap_usage s \<and> ck_flags (coalesce_chunks c ch s) = ck_flags s \<and>
   ck_zone (coalesce_chunks c ch s) = ck_zone s \<and> zones (coalesce_chunks c ch s) = zones s \<and>
   heap_bytes (coalesce_chunks c ch s) = heap_bytes s"
proof (induction c ch s rule: coalesce_chunks.induct)
  case (1 c chunk s)
  then show ?case by (subst (1 2 3 4 5) coalesce_chunks.simps) (simp add: Let_def remove_free_frame)
qed

function stats_from :: "hm_conf \<Rightarrow> ptr \<Rightarrow> heapmem_stats \<Rightarrow> heapmem \<Rightarrow> heapmem_stats \<times> heapmem" where
  "stats_from c chunk st s =
     (if chunk < heap_end c s then
        if CHUNK_ALLOCATED s chunk then
          stats_from c (NEXT_CHUNK s chunk)
            (st\<lparr>st_allocated := st_allocated st + ck_size s chunk, st_overhead := st_overhead st + CHUNK_T_SIZE\<rparr>) s
        else
          let s = coalesce_chunks c chunk s
          in stats_from c (NEXT_CHUNK s chunk) (st\<lparr>st_available := st_available st + ck_size s chunk\<rparr>) s
      else (st, s))"
  by pat_completeness auto
termination
proof (relation "measure (\<lambda>(c, chunk, st, s). heap_end c s - chunk)", goal_cases)
  case (2 c chunk st s)
  then show ?case by (simp add: NEXT_CHUNK_def heap_end_def CHUNK_T_SIZE_def)
next
  case (3 c chunk st s s1)
  then show ?case
    using coalesce_frame [of c chunk s] by (simp add: NEXT_CHUNK_def heap_end_def CHUNK_T_SIZE_def)
qed simp

declare stats_from.simps [simp del]

definition heapmem_get_stats :: "hm_conf \<Rightarrow> heapmem \<Rightarrow> heapmem_stats \<times> heapmem" where
  "heapmem_get_stats c s =
     (let (st, s) = stats_from c (heap_base c)
            \<lparr>st_allocated = 0, st_overhead = 0, st_available = 0, st_footprint = 0, st_chunks = 0\<rparr> s;
          st = st\<lparr>st_available := st_available st + (arena_size c - heap_usage s)\<rparr>;
          st = st\<lparr>st_footprint := heap_usage s\<rparr>
      in (st\<lparr>st_chunks := st_overhead st div CHUNK_T_SIZE\<rparr>, s))"

definition heapmem_alignment :: nat where
  "heapmem_alignment = HEAPMEM_ALIGNMENT"

section \<open>The layout of the arena\<close>

text \<open>\<open>tiles sz p xs e\<close>: the chunks \<open>xs\<close> fill the space from \<open>p\<close> to \<open>e\<close>, one behind the other.\<close>

fun tiles :: "(ptr \<Rightarrow> nat) \<Rightarrow> ptr \<Rightarrow> ptr list \<Rightarrow> ptr \<Rightarrow> bool" where
  "tiles sz p [] e \<longleftrightarrow> p = e"
| "tiles sz p (x # xs) e \<longleftrightarrow> p = x \<and> sz x mod HEAPMEM_ALIGNMENT = 0 \<and> tiles sz (x + CHUNK_T_SIZE + sz x) xs e"

lemma tiles_append: "tiles sz p (xs @ ys) e \<longleftrightarrow> (\<exists>q. tiles sz p xs q \<and> tiles sz q ys e)"
  by (induction xs arbitrary: p) auto

lemma tiles_le: "tiles sz p xs e \<Longrightarrow> p \<le> e"
  by (induction xs arbitrary: p) force+

lemma tiles_inside: "tiles sz p xs e \<Longrightarrow> x \<in> set xs \<Longrightarrow> p \<le> x \<and> x + CHUNK_T_SIZE + sz x \<le> e"
proof (induction xs arbitrary: p)
  case (Cons y xs)
  then have y: "p = y" "tiles sz (y + CHUNK_T_SIZE + sz y) xs e" by simp_all
  with Cons tiles_le [OF y(2)] show ?case by fastforce
qed simp

lemma CHUNK_T_SIZE_pos [simp]: "0 < CHUNK_T_SIZE"
  by (simp add: CHUNK_T_SIZE_def)

lemma tiles_distinct: "tiles sz p xs e \<Longrightarrow> distinct xs"
proof (induction xs arbitrary: p)
  case (Cons x xs)
  then have t: "tiles sz (x + CHUNK_T_SIZE + sz x) xs e" by simp
  with tiles_inside [OF t, of x] Cons.IH [OF t] show ?case by (auto simp: CHUNK_T_SIZE_def)
qed simp

lemma tiles_upd [simp]: "x \<notin> set xs \<Longrightarrow> tiles (sz(x := n)) p xs e = tiles sz p xs e"
  by (induction xs arbitrary: p) auto

lemma tiles_unique: "tiles sz p xs e \<Longrightarrow> tiles sz p ys e \<Longrightarrow> xs = ys"
proof (induction xs arbitrary: p ys)
  case Nil
  then have p: "p = e" by simp
  show ?case
  proof (cases ys)
    case (Cons y zs)
    then have "y + CHUNK_T_SIZE + sz y \<le> e" "p = y"
      using Nil(2) tiles_inside [OF Nil(2), of y] by simp_all
    with p show ?thesis by (simp add: CHUNK_T_SIZE_def)
  qed simp
next
  case (Cons x xs)
  then have x: "p = x" "tiles sz (x + CHUNK_T_SIZE + sz x) xs e" by simp_all
  show ?case
  proof (cases ys)
    case Nil
    then have "p = e" using Cons.prems(2) by simp
    with x tiles_le [OF x(2)] show ?thesis by (simp add: CHUNK_T_SIZE_def)
  next
    case (Cons y zs)
    then have "y = x" "tiles sz (x + CHUNK_T_SIZE + sz x) zs e" using Cons.prems(2) x(1) by simp_all
    with Cons.IH [OF x(2)] \<open>ys = y # zs\<close> show ?thesis by simp
  qed
qed

text \<open>Two chunks never overlap.\<close>

lemma tiles_disjoint:
  assumes "tiles sz p xs e" "x \<in> set xs" "y \<in> set xs" "x \<noteq> y"
  shows "x + CHUNK_T_SIZE + sz x \<le> y \<or> y + CHUNK_T_SIZE + sz y \<le> x"
  using assms
proof (induction xs arbitrary: p)
  case (Cons z xs)
  then have z: "tiles sz (z + CHUNK_T_SIZE + sz z) xs e" by simp
  show ?case using Cons tiles_inside [OF z] by auto
qed simp

lemma tiles_aligned: "tiles sz p xs e \<Longrightarrow> p mod HEAPMEM_ALIGNMENT = 0 \<Longrightarrow> x \<in> set xs \<Longrightarrow>
    x mod HEAPMEM_ALIGNMENT = 0 \<and> sz x mod HEAPMEM_ALIGNMENT = 0"
proof (induction xs arbitrary: p)
  case (Cons y xs)
  then have "(y + CHUNK_T_SIZE + sz y) mod HEAPMEM_ALIGNMENT = 0"
    by (auto simp: CHUNK_T_SIZE_def HEAPMEM_ALIGNMENT_def)
  with Cons show ?case by auto
qed simp

lemma tiles_next:
  assumes "tiles sz p (as @ x # bs) e"
  shows "x + CHUNK_T_SIZE + sz x = (if bs = [] then e else hd bs)" "x + CHUNK_T_SIZE + sz x \<le> e"
    "x + CHUNK_T_SIZE + sz x = e \<longleftrightarrow> bs = []"
proof -
  have t: "tiles sz (x + CHUNK_T_SIZE + sz x) bs e" using assms by (auto simp: tiles_append)
  then show eq: "x + CHUNK_T_SIZE + sz x = (if bs = [] then e else hd bs)" by (cases bs) auto
  show "x + CHUNK_T_SIZE + sz x \<le> e" by (rule tiles_le [OF t])
  show "x + CHUNK_T_SIZE + sz x = e \<longleftrightarrow> bs = []"
    using eq tiles_inside [OF t, of "hd bs"] by (auto simp: CHUNK_T_SIZE_def)
qed

section \<open>The invariant\<close>

lemma chunk_free_iff: "CHUNK_FREE s x \<longleftrightarrow> \<not> CHUNK_ALLOCATED s x"
proof -
  have "f AND 1 \<noteq> 0 \<longleftrightarrow> odd f" for f :: u8 by (simp add: and_one_eq odd_iff_mod_2_eq_one)
  then show ?thesis by (simp only: CHUNK_FREE_def CHUNK_ALLOCATED_def even_not_iff)
qed

definition free_links :: "heapmem \<Rightarrow> dll_state" where
  "free_links s = \<lparr>dl_head = free_list s, dl_next = ck_next s, dl_prev = ck_prev s\<rparr>"

text \<open>
  The chunks are \<open>cs\<close>; the free list is \<open>fl\<close>, and holds the chunks marked free except \<open>t\<close>, the chunk an
  operation has in hand (NULL when there is none).
\<close>

definition heap_inv :: "hm_conf \<Rightarrow> heapmem \<Rightarrow> ptr list \<Rightarrow> ptr list \<Rightarrow> ptr \<Rightarrow> bool" where
  "heap_inv c s cs fl t \<longleftrightarrow> tiles (ck_size s) (heap_base c) cs (heap_end c s) \<and> heap_usage s \<le> arena_size c \<and>
     dll_repr (free_links s) fl \<and> set fl = {x \<in> set cs. CHUNK_FREE s x \<and> x \<noteq> t}"

text \<open>What the callers have: the allocated chunks, with their sizes and zones.\<close>

definition alloc_map :: "heapmem \<Rightarrow> ptr list \<Rightarrow> ptr \<Rightarrow> (nat \<times> u8) option" where
  "alloc_map s cs x = (if x \<in> set cs \<and> CHUNK_ALLOCATED s x then Some (ck_size s x, ck_zone s x) else None)"

definition conf_ok :: "hm_conf \<Rightarrow> bool" where
  "conf_ok c \<longleftrightarrow> heap_base c \<noteq> NULL \<and> heap_base c mod HEAPMEM_ALIGNMENT = 0 \<and> arena_size c < 2 ^ 31"

lemma heap_inv_not_NULL: "conf_ok c \<Longrightarrow> heap_inv c s cs fl t \<Longrightarrow> NULL \<notin> set cs"
  using tiles_inside by (fastforce simp: heap_inv_def conf_ok_def)

lemma in_hand_set:
  assumes "conf_ok c" "CHUNK_ALLOCATED s x" "heap_inv c s cs fl t"
  shows "{y \<in> set cs. CHUNK_FREE s y \<and> y \<noteq> x} = {y \<in> set cs. CHUNK_FREE s y \<and> y \<noteq> NULL}"
  using assms(2) heap_inv_not_NULL [OF assms(1,3)] by (auto simp: chunk_free_iff intro!: gr0I)

lemma heap_inv_take:
  "conf_ok c \<Longrightarrow> CHUNK_ALLOCATED s x \<Longrightarrow> heap_inv c s cs fl NULL \<Longrightarrow> heap_inv c s cs fl x"
  using in_hand_set [of c s x cs fl NULL] unfolding heap_inv_def by metis

lemma heap_inv_release:
  "conf_ok c \<Longrightarrow> CHUNK_ALLOCATED s x \<Longrightarrow> heap_inv c s cs fl x \<Longrightarrow> heap_inv c s cs fl NULL"
  using in_hand_set [of c s x cs fl x] unfolding heap_inv_def by metis

section \<open>The free list\<close>

text \<open>The free list is a doubly linked list of the library's kind; the two updates are its operations.\<close>

lemma remove_chunk_links:
  assumes "dll_repr (free_links s) (ys @ x # zs)"
  shows "free_links (remove_chunk_from_free_list x s) = dl_unlink x (free_links s)"
proof -
  have head: "free_list s = x \<longleftrightarrow> ys = []" and pv: "ck_prev s x = seq_last ys" and nx: "ck_next s x = seq_first zs"
    using dll_neighbours [OF assms] by (auto simp: free_links_def)
  have nn: "seq_last ys = NULL \<longleftrightarrow> ys = []" by (rule seq_ends_NULL(2) [OF assms])
  have "x \<notin> set zs" using assms by (simp add: dll_repr_def)
  then have xz: "zs \<noteq> [] \<Longrightarrow> hd zs \<noteq> x" by (metis hd_in_set)
  show ?thesis
  proof (cases "ys = []")
    case True
    then have h: "free_list s = x" "ck_prev s x = NULL" using head pv by simp_all
    with xz show ?thesis
      by (auto simp: remove_chunk_from_free_list_def free_links_def dl_unlink_def Let_def nx)
  next
    case False
    then have "free_list s \<noteq> x" "ck_prev s x \<noteq> NULL" using head pv nn by simp_all
    moreover have "last ys \<noteq> x" using assms False by (auto simp: dll_repr_def)
    ultimately show ?thesis
      using False pv
      by (auto simp: remove_chunk_from_free_list_def free_links_def dl_unlink_def Let_def)
  qed
qed

lemma remove_chunk_repr:
  assumes "dll_repr (free_links s) fl" "x \<in> set fl"
  shows "dll_repr (free_links (remove_chunk_from_free_list x s)) (remove1 x fl)"
proof -
  obtain ys zs where fl: "fl = ys @ x # zs" "x \<notin> set ys" using assms(2) by (meson split_list_first)
  with assms(1) have r: "dll_repr (free_links s) (ys @ x # zs)" by simp
  show ?thesis
    unfolding remove_chunk_links [OF r] fl(1) using dl_unlink_repr [OF r] fl(2) by (simp add: remove1_append)
qed

definition release_chunk :: "ptr \<Rightarrow> heapmem \<Rightarrow> heapmem" where
  "release_chunk x s = s\<lparr>ck_flags := (ck_flags s)(x := ck_flags s x AND NOT 1)\<rparr>"

lemma free_chunk_last:
  "NEXT_CHUNK s x = heap_end c s \<Longrightarrow>
   free_chunk c x s = (release_chunk x s)\<lparr>heap_usage := heap_usage s - (CHUNK_T_SIZE + ck_size s x)\<rparr>"
  by (simp add: free_chunk_def release_chunk_def IS_LAST_CHUNK_def NEXT_CHUNK_def heap_end_def)

lemma free_chunk_inner:
  assumes "NEXT_CHUNK s x \<noteq> heap_end c s" "dll_repr (free_links s) fl" "x \<notin> set fl"
  shows "free_links (free_chunk c x s) = dll_inserted [] x fl (free_links s)"
    "ck_size (free_chunk c x s) = ck_size s" "ck_flags (free_chunk c x s) = ck_flags (release_chunk x s)"
    "ck_zone (free_chunk c x s) = ck_zone s" "heap_usage (free_chunk c x s) = heap_usage s"
    "zones (free_chunk c x s) = zones s" "heap_bytes (free_chunk c x s) = heap_bytes s"
proof -
  have inner: "\<not> IS_LAST_CHUNK c (release_chunk x s) x"
    using assms(1) by (simp add: release_chunk_def IS_LAST_CHUNK_def NEXT_CHUNK_def heap_end_def)
  have h: "free_list s = seq_first fl" using dll_repr_head [OF assms(2)] by (simp add: free_links_def)
  have hN: "seq_first fl = NULL \<longleftrightarrow> fl = []"
    by (rule seq_ends_NULL(1) [where ys = "[]" and s = "free_links s"]) (simp add: assms(2))
  have hx: "fl \<noteq> [] \<Longrightarrow> hd fl \<noteq> x" using assms(3) by (metis hd_in_set)
  show "free_links (free_chunk c x s) = dll_inserted [] x fl (free_links s)"
    using inner hN hx unfolding free_chunk_def release_chunk_def [symmetric]
    by (auto simp: Let_def free_links_def dll_inserted_def h release_chunk_def fun_upd_twist)
  show "ck_size (free_chunk c x s) = ck_size s" "ck_flags (free_chunk c x s) = ck_flags (release_chunk x s)"
    "ck_zone (free_chunk c x s) = ck_zone s" "heap_usage (free_chunk c x s) = heap_usage s"
    "zones (free_chunk c x s) = zones s" "heap_bytes (free_chunk c x s) = heap_bytes s"
    using inner unfolding free_chunk_def release_chunk_def [symmetric]
    by (simp_all add: Let_def release_chunk_def)
qed

lemma released_flags:
  "CHUNK_ALLOCATED (release_chunk x s) y \<longleftrightarrow> y \<noteq> x \<and> CHUNK_ALLOCATED s y"
  by (simp add: CHUNK_ALLOCATED_def release_chunk_def and.assoc)

lemma flags_allocated: "ck_flags s = ck_flags s' \<Longrightarrow> CHUNK_ALLOCATED s x = CHUNK_ALLOCATED s' x"
  by (simp add: CHUNK_ALLOCATED_def)

lemma heap_inv_tiles:
  "heap_inv c s cs fl t \<Longrightarrow> tiles (ck_size s) (heap_base c) cs (heap_end c s)"
  by (simp add: heap_inv_def)

lemma heap_inv_distinct: "heap_inv c s cs fl t \<Longrightarrow> distinct cs"
  using tiles_distinct heap_inv_tiles by blast

lemma heap_inv_free_set: "heap_inv c s cs fl t \<Longrightarrow> set fl = {y \<in> set cs. \<not> CHUNK_ALLOCATED s y \<and> y \<noteq> t}"
  by (simp add: heap_inv_def chunk_free_iff)

lemma NEXT_CHUNK_end:
  assumes "heap_inv c s (as @ x # bs) fl t"
  shows "NEXT_CHUNK s x = heap_end c s \<longleftrightarrow> bs = []" "bs \<noteq> [] \<Longrightarrow> NEXT_CHUNK s x = hd bs" "NEXT_CHUNK s x \<le> heap_end c s"
  using tiles_next [OF heap_inv_tiles [OF assms]] by (simp_all add: NEXT_CHUNK_def)

section \<open>Releasing a chunk\<close>

text \<open>The last chunk goes back to the space that was never used; any other to the front of the free list.\<close>

lemma free_chunk_inv:
  assumes "conf_ok c" "heap_inv c s (as @ x # bs) fl x"
  shows "heap_inv c (free_chunk c x s) (if bs = [] then as else as @ x # bs) (if bs = [] then fl else x # fl) NULL"
    "alloc_map (free_chunk c x s) (if bs = [] then as else as @ x # bs) = (alloc_map s (as @ x # bs))(x := None)"
    "ck_size (free_chunk c x s) = ck_size s" "zones (free_chunk c x s) = zones s"
    "heap_bytes (free_chunk c x s) = heap_bytes s" "ck_zone (free_chunk c x s) = ck_zone s"
proof -
  note d = heap_inv_distinct [OF assms(2)] and f = heap_inv_free_set [OF assms(2)]
  have N: "NULL \<notin> set (as @ x # bs)" by (rule heap_inv_not_NULL [OF assms])
  have t: "tiles (ck_size s) (heap_base c) (as @ x # bs) (heap_end c s)" by (rule heap_inv_tiles [OF assms(2)])
  have links: "dll_repr (free_links s) fl" "x \<notin> set fl" using assms(2) f by (simp_all add: heap_inv_def)
  have "heap_inv c (free_chunk c x s) (if bs = [] then as else as @ x # bs) (if bs = [] then fl else x # fl) NULL \<and>
    alloc_map (free_chunk c x s) (if bs = [] then as else as @ x # bs) = (alloc_map s (as @ x # bs))(x := None) \<and>
    ck_size (free_chunk c x s) = ck_size s \<and> zones (free_chunk c x s) = zones s \<and>
    heap_bytes (free_chunk c x s) = heap_bytes s \<and> ck_zone (free_chunk c x s) = ck_zone s"
  proof (cases "bs = []")
    case True
    let ?s = "free_chunk c x s"
    have s: "?s = (release_chunk x s)\<lparr>heap_usage := heap_usage s - (CHUNK_T_SIZE + ck_size s x)\<rparr>"
      by (rule free_chunk_last) (simp add: NEXT_CHUNK_end [OF assms(2)] True)
    have fields: "ck_size ?s = ck_size s" "free_links ?s = free_links s" "zones ?s = zones s"
      "heap_bytes ?s = heap_bytes s" "ck_zone ?s = ck_zone s"
      "heap_usage ?s = heap_usage s - (CHUNK_T_SIZE + ck_size s x)"
      by (simp_all add: s release_chunk_def free_links_def)
    have al: "CHUNK_ALLOCATED ?s y \<longleftrightarrow> y \<noteq> x \<and> CHUNK_ALLOCATED s y" for y
      using released_flags [of x s y] by (simp add: s CHUNK_ALLOCATED_def)
    have at: "heap_base c \<le> x" "x + CHUNK_T_SIZE + ck_size s x = heap_base c + heap_usage s" "tiles (ck_size s) (heap_base c) as x"
      using t True tiles_inside [OF t, of x] by (auto simp: tiles_append heap_end_def)
    then have e: "heap_end c ?s = x" by (simp add: heap_end_def fields)
    have "tiles (ck_size ?s) (heap_base c) as (heap_end c ?s)" unfolding e fields by (rule at(3))
    moreover have "set fl = {y \<in> set as. \<not> CHUNK_ALLOCATED ?s y \<and> y \<noteq> NULL}"
      unfolding f al using d N True by (auto intro!: gr0I)
    moreover have "heap_usage ?s \<le> arena_size c"
      unfolding fields using assms(2) by (meson diff_le_self heap_inv_def order_trans)
    moreover have "alloc_map ?s as = (alloc_map s (as @ x # bs))(x := None)"
      using d True by (auto simp: alloc_map_def al fields)
    ultimately show ?thesis using True links by (simp add: heap_inv_def fields chunk_free_iff)
  next
    case False
    let ?s = "free_chunk c x s"
    have "NEXT_CHUNK s x \<noteq> heap_end c s" using NEXT_CHUNK_end(1) [OF assms(2)] False by simp
    note inner = free_chunk_inner [OF this links]
    have al: "CHUNK_ALLOCATED ?s y \<longleftrightarrow> y \<noteq> x \<and> CHUNK_ALLOCATED s y" for y
      using released_flags [of x s y] flags_allocated [OF inner(3)] by simp
    have "dll_repr (free_links ?s) (x # fl)"
      unfolding inner(1) using dll_inserted_repr [of "free_links s" "[]" fl x] links N by simp
    moreover have "set (x # fl) = {y \<in> set (as @ x # bs). \<not> CHUNK_ALLOCATED ?s y \<and> y \<noteq> NULL}"
      unfolding al list.set f using d N by (auto intro!: gr0I)
    moreover have "alloc_map ?s (as @ x # bs) = (alloc_map s (as @ x # bs))(x := None)"
      by (auto simp: alloc_map_def al inner)
    ultimately show ?thesis
      using False assms(2) by (simp add: heap_inv_def chunk_free_iff heap_end_def inner)
  qed
  then show "heap_inv c (free_chunk c x s) (if bs = [] then as else as @ x # bs) (if bs = [] then fl else x # fl) NULL"
    "alloc_map (free_chunk c x s) (if bs = [] then as else as @ x # bs) = (alloc_map s (as @ x # bs))(x := None)"
    "ck_size (free_chunk c x s) = ck_size s" "zones (free_chunk c x s) = zones s"
    "heap_bytes (free_chunk c x s) = heap_bytes s" "ck_zone (free_chunk c x s) = ck_zone s" by blast+
qed

section \<open>Splitting a chunk\<close>

lemma ALIGN_16: "ALIGN n mod HEAPMEM_ALIGNMENT = 0" "n \<le> ALIGN n" "ALIGN n < n + HEAPMEM_ALIGNMENT"
proof -
  have m: "k AND 15 = k mod 16" for k :: nat
    using and_exp_eq_0_iff_not_bit take_bit_eq_mask [of 4 k] by (simp add: take_bit_eq_mod mask_eq_exp_minus_1)
  have "ALIGN n = 16 * ((n + 15) div 16)"
    by (simp add: ALIGN_def Let_def HEAPMEM_ALIGNMENT_def m minus_mod_eq_mult_div)
  then show "ALIGN n mod HEAPMEM_ALIGNMENT = 0" "n \<le> ALIGN n" "ALIGN n < n + HEAPMEM_ALIGNMENT"
    by (simp_all add: HEAPMEM_ALIGNMENT_def)
qed

lemma ALIGN_same: "n mod HEAPMEM_ALIGNMENT = 0 \<Longrightarrow> ALIGN n = n"
  using ALIGN_16 [of n] by (auto simp: HEAPMEM_ALIGNMENT_def) presburger

lemma dll_repr_upd:
  assumes "x \<notin> set xs"
  shows "dll_repr \<lparr>dl_head = h, dl_next = nx(x := a), dl_prev = pv(x := b)\<rparr> xs =
    dll_repr \<lparr>dl_head = h, dl_next = nx, dl_prev = pv\<rparr> xs"
  using assms by (simp add: dll_repr_def)

text \<open>The state in which the rest is already a chunk of its own.\<close>

definition cut_chunk :: "ptr \<Rightarrow> nat \<Rightarrow> heapmem \<Rightarrow> heapmem" where
  "cut_chunk x k s = s\<lparr>ck_size := (ck_size s)(GET_PTR x + k := ck_size s x - CHUNK_T_SIZE - k, x := k),
     ck_flags := (ck_flags s)(GET_PTR x + k := 0)\<rparr>"

lemma free_chunk_size_upd:
  assumes "x \<noteq> n"
  shows "free_chunk c n (s\<lparr>ck_size := (ck_size s)(x := k)\<rparr>) =
    (free_chunk c n s)\<lparr>ck_size := (ck_size (free_chunk c n s))(x := k)\<rparr>"
  using assms by (simp add: free_chunk_def Let_def IS_LAST_CHUNK_def NEXT_CHUNK_def heap_end_def)

lemma split_chunk_cuts:
  assumes "ALIGN off + CHUNK_T_SIZE < ck_size s x"
  shows "split_chunk c x off s =
    (let s = free_chunk c (GET_PTR x + ALIGN off) (cut_chunk x (ALIGN off) s)
     in s\<lparr>ck_prev := (ck_prev s)(x := NULL), ck_next := (ck_next s)(x := NULL)\<rparr>)"
proof -
  let ?n = "GET_PTR x + ALIGN off"
  have xn: "x \<noteq> ?n" by (simp add: GET_PTR_def CHUNK_T_SIZE_def)
  define s1 where "s1 = s\<lparr>ck_size := (ck_size s)(?n := ck_size s x - CHUNK_T_SIZE - ALIGN off), ck_flags := (ck_flags s)(?n := 0)\<rparr>"
  have "cut_chunk x (ALIGN off) s = s1\<lparr>ck_size := (ck_size s1)(x := ALIGN off)\<rparr>"
    by (simp add: cut_chunk_def s1_def)
  moreover have "split_chunk c x off s =
      (let s = (free_chunk c ?n s1)\<lparr>ck_size := (ck_size (free_chunk c ?n s1))(x := ALIGN off)\<rparr>
       in s\<lparr>ck_prev := (ck_prev s)(x := NULL), ck_next := (ck_next s)(x := NULL)\<rparr>)"
    using assms by (simp add: split_chunk_def Let_def s1_def)
  ultimately show ?thesis using free_chunk_size_upd [OF xn, of c s1 "ALIGN off"] by simp
qed

lemma cut_chunk_inv:
  assumes "conf_ok c" "heap_inv c s (as @ x # bs) fl NULL" "CHUNK_ALLOCATED s x"
    "k + CHUNK_T_SIZE < ck_size s x" "k mod HEAPMEM_ALIGNMENT = 0"
  defines "n \<equiv> GET_PTR x + k"
  shows "heap_inv c (cut_chunk x k s) (as @ x # n # bs) fl n" "n \<notin> set (as @ x # bs)"
proof -
  have t: "tiles (ck_size s) (heap_base c) (as @ x # bs) (heap_end c s)" by (rule heap_inv_tiles [OF assms(2)])
  have nx: "n = x + CHUNK_T_SIZE + k" "x < n" by (simp_all add: n_def GET_PTR_def CHUNK_T_SIZE_def)
  show fresh: "n \<notin> set (as @ x # bs)"
    using tiles_disjoint [OF t, of x n] nx assms(4) by (auto simp: CHUNK_T_SIZE_def)
  have d: "distinct (as @ x # bs)" by (rule heap_inv_distinct [OF assms(2)])
  have f: "set fl = {y \<in> set (as @ x # bs). \<not> CHUNK_ALLOCATED s y \<and> y \<noteq> NULL}" by (rule heap_inv_free_set [OF assms(2)])
  have "ck_size s x mod HEAPMEM_ALIGNMENT = 0" using t by (auto simp: tiles_append)
  then have "(ck_size s x - CHUNK_T_SIZE - k) mod HEAPMEM_ALIGNMENT = 0"
    using assms(4,5) unfolding HEAPMEM_ALIGNMENT_def CHUNK_T_SIZE_def by presburger
  moreover have "n + CHUNK_T_SIZE + (ck_size s x - CHUNK_T_SIZE - k) = x + CHUNK_T_SIZE + ck_size s x"
    using assms(4) nx(1) by simp
  moreover have "n \<noteq> x" using nx(2) by simp
  ultimately have "tiles ((ck_size s)(n := ck_size s x - CHUNK_T_SIZE - k, x := k)) (heap_base c) (as @ x # n # bs) (heap_end c s)"
    using t d fresh assms(5) nx(1) CHUNK_T_SIZE_pos
    by (auto simp: tiles_append add.assoc simp del: CHUNK_T_SIZE_pos)
  moreover have al: "CHUNK_ALLOCATED (cut_chunk x k s) y \<longleftrightarrow> y \<noteq> n \<and> CHUNK_ALLOCATED s y" for y
    by (simp add: CHUNK_ALLOCATED_def cut_chunk_def n_def)
  moreover have "set fl = {y \<in> set (as @ x # n # bs). \<not> CHUNK_ALLOCATED (cut_chunk x k s) y \<and> y \<noteq> n}"
    unfolding f al using fresh heap_inv_not_NULL [OF assms(1,2)] by (auto intro!: gr0I)
  ultimately show "heap_inv c (cut_chunk x k s) (as @ x # n # bs) fl n"
    using assms(2)
    by (simp add: heap_inv_def chunk_free_iff heap_end_def free_links_def cut_chunk_def n_def [symmetric])
qed

lemma free_links_unlinked:
  "free_links (s\<lparr>ck_prev := (ck_prev s)(x := a), ck_next := (ck_next s)(x := b)\<rparr>) =
    \<lparr>dl_head = free_list s, dl_next = (ck_next s)(x := b), dl_prev = (ck_prev s)(x := a)\<rparr>"
  by (simp add: free_links_def)

text \<open>Splitting an allocated chunk: it keeps what it must hold, the rest is free, nothing else changes.\<close>

lemma split_chunk_inv:
  assumes "conf_ok c" "heap_inv c s (as @ x # bs) fl NULL" "CHUNK_ALLOCATED s x"
  shows "\<exists>bs' fl'. heap_inv c (split_chunk c x off s) (as @ x # bs') fl' NULL \<and>
    alloc_map (split_chunk c x off s) (as @ x # bs') =
      (alloc_map s (as @ x # bs))(x \<mapsto> (ck_size (split_chunk c x off s) x, ck_zone s x)) \<and>
    (ck_size (split_chunk c x off s) x = ck_size s x \<or>
      ck_size (split_chunk c x off s) x = ALIGN off \<and> ALIGN off + CHUNK_T_SIZE < ck_size s x) \<and>
    CHUNK_ALLOCATED (split_chunk c x off s) x \<and>
    zones (split_chunk c x off s) = zones s \<and> heap_bytes (split_chunk c x off s) = heap_bytes s \<and>
    ck_zone (split_chunk c x off s) = ck_zone s"
proof (cases "ALIGN off + CHUNK_T_SIZE < ck_size s x")
  case False
  then have "split_chunk c x off s = s" by (simp add: split_chunk_def Let_def)
  moreover have "alloc_map s (as @ x # bs) x = Some (ck_size s x, ck_zone s x)"
    using assms(3) by (simp add: alloc_map_def)
  ultimately show ?thesis using assms by (auto simp: fun_upd_idem)
next
  case True
  let ?k = "ALIGN off" and ?n = "GET_PTR x + ALIGN off"
  note cut = cut_chunk_inv [OF assms True ALIGN_16(1)]
  define s1 where "s1 = cut_chunk x ?k s"
  define s2 where "s2 = free_chunk c ?n s1"
  define bs' where "bs' = (if bs = [] then [] else ?n # bs)"
  define fl' where "fl' = (if bs = [] then fl else ?n # fl)"
  have split: "split_chunk c x off s = s2\<lparr>ck_prev := (ck_prev s2)(x := NULL), ck_next := (ck_next s2)(x := NULL)\<rparr>"
    using split_chunk_cuts [of off s x c] True by (simp add: Let_def s1_def s2_def)
  have xn: "x \<noteq> ?n" using cut(2) by auto
  have "heap_inv c s1 ((as @ [x]) @ ?n # bs) fl ?n" using cut(1) by (simp add: s1_def)
  from free_chunk_inv [OF assms(1) this, folded s2_def]
  have free: "heap_inv c s2 (as @ x # bs') fl' NULL"
    "alloc_map s2 (as @ x # bs') = (alloc_map s1 (as @ x # ?n # bs))(?n := None)"
    "ck_size s2 = ck_size s1" "zones s2 = zones s1" "heap_bytes s2 = heap_bytes s1" "ck_zone s2 = ck_zone s1"
    by (simp_all add: bs'_def fl'_def split: if_splits)
  have al1: "CHUNK_ALLOCATED s1 y \<longleftrightarrow> y \<noteq> ?n \<and> CHUNK_ALLOCATED s y" for y
    by (simp add: CHUNK_ALLOCATED_def cut_chunk_def s1_def)
  have same1: "ck_zone s1 = ck_zone s" "zones s1 = zones s" "heap_bytes s1 = heap_bytes s"
    "ck_size s1 x = ?k" "y \<noteq> x \<Longrightarrow> y \<noteq> ?n \<Longrightarrow> ck_size s1 y = ck_size s y" for y
    using xn by (simp_all add: cut_chunk_def s1_def)
  have "alloc_map s2 (as @ x # bs') x = Some (?k, ck_zone s x)"
    unfolding free(2) using xn assms(3) by (simp add: alloc_map_def al1 same1)
  then have ax: "CHUNK_ALLOCATED s2 x" by (simp add: alloc_map_def split: if_splits)
  have "x \<notin> set fl'" using heap_inv_free_set [OF free(1)] ax by simp
  then have "heap_inv c (split_chunk c x off s) (as @ x # bs') fl' NULL"
    using free(1) unfolding split heap_inv_def free_links_unlinked dll_repr_upd [OF \<open>x \<notin> set fl'\<close>]
    by (simp add: heap_end_def CHUNK_FREE_def free_links_def)
  moreover have "alloc_map (split_chunk c x off s) (as @ x # bs') = alloc_map s2 (as @ x # bs')"
    by (rule ext) (simp add: alloc_map_def split CHUNK_ALLOCATED_def)
  moreover have "alloc_map s2 (as @ x # bs') = (alloc_map s (as @ x # bs))(x \<mapsto> (?k, ck_zone s x))"
    unfolding free(2) using xn assms(3) cut(2) by (auto simp: alloc_map_def al1 same1 fun_eq_iff)
  moreover have "ck_size (split_chunk c x off s) x = ?k" "CHUNK_ALLOCATED (split_chunk c x off s) x"
    using ax by (simp_all add: split free(3) same1 CHUNK_ALLOCATED_def)
  ultimately show ?thesis using True by (intro exI [of _ bs'] exI [of _ fl']) (simp add: split free same1)
qed

section \<open>Taking in the chunks behind\<close>

definition absorb_chunk :: "ptr \<Rightarrow> ptr \<Rightarrow> heapmem \<Rightarrow> heapmem" where
  "absorb_chunk x y s = remove_chunk_from_free_list y
     (s\<lparr>ck_size := (ck_size s)(x := ck_size s x + (CHUNK_T_SIZE + ck_size s y))\<rparr>)"

lemma coalesce_step:
  "coalesce_chunks c x s =
    (if NEXT_CHUNK s x < heap_end c s \<and> CHUNK_FREE s (NEXT_CHUNK s x)
     then coalesce_chunks c x (absorb_chunk x (NEXT_CHUNK s x) s) else s)"
  unfolding coalesce_chunks.simps [of c x s] absorb_chunk_def Let_def by (rule refl)

text \<open>The map with the size of \<open>x\<close> brought up to date, where \<open>x\<close> is allocated.\<close>

definition resized :: "ptr \<Rightarrow> nat \<Rightarrow> (ptr \<Rightarrow> (nat \<times> u8) option) \<Rightarrow> ptr \<Rightarrow> (nat \<times> u8) option" where
  "resized x n m = m(x := map_option (\<lambda>(_, z). (n, z)) (m x))"

lemma resized_resized: "resized x n (resized x k m) = resized x n m"
  by (cases "m x") (auto simp: resized_def)

lemma resized_id: "(\<And>k z. m x = Some (k, z) \<Longrightarrow> k = n) \<Longrightarrow> resized x n m = m"
  by (cases "m x") (auto simp: resized_def fun_upd_idem)

lemma absorb_chunk_inv:
  assumes "conf_ok c" "heap_inv c s (as @ x # y # bs) fl NULL" "CHUNK_FREE s y"
  shows "heap_inv c (absorb_chunk x y s) (as @ x # bs) (remove1 y fl) NULL"
    "alloc_map (absorb_chunk x y s) (as @ x # bs) =
      resized x (ck_size (absorb_chunk x y s) x) (alloc_map s (as @ x # y # bs))"
    "ck_size (absorb_chunk x y s) = (ck_size s)(x := ck_size s x + (CHUNK_T_SIZE + ck_size s y))"
    "ck_flags (absorb_chunk x y s) = ck_flags s" "heap_end c (absorb_chunk x y s) = heap_end c s"
proof -
  let ?s = "absorb_chunk x y s"
  show sz: "ck_size ?s = (ck_size s)(x := ck_size s x + (CHUNK_T_SIZE + ck_size s y))"
    and fg: "ck_flags ?s = ck_flags s" and e: "heap_end c ?s = heap_end c s"
    by (simp_all add: absorb_chunk_def remove_free_frame heap_end_def)
  have u: "heap_usage ?s = heap_usage s" and z: "ck_zone ?s = ck_zone s"
    by (simp_all add: absorb_chunk_def remove_free_frame)
  have d: "distinct (as @ x # y # bs)" by (rule heap_inv_distinct [OF assms(2)])
  have al: "CHUNK_ALLOCATED ?s v = CHUNK_ALLOCATED s v" for v by (rule flags_allocated [OF fg])
  have f: "set fl = {v \<in> set (as @ x # y # bs). \<not> CHUNK_ALLOCATED s v \<and> v \<noteq> NULL}" by (rule heap_inv_free_set [OF assms(2)])
  have yf: "y \<in> set fl"
    using f assms(3) heap_inv_not_NULL [OF assms(1,2)] by (auto simp: chunk_free_iff)
  have links: "dll_repr (free_links (s\<lparr>ck_size := (ck_size s)(x := ck_size s x + (CHUNK_T_SIZE + ck_size s y))\<rparr>)) fl"
    using assms(2) by (simp add: heap_inv_def free_links_def)
  have "dll_repr (free_links ?s) (remove1 y fl)"
    unfolding absorb_chunk_def by (rule remove_chunk_repr [OF links yf])
  moreover have "distinct fl" using assms(2) by (simp add: heap_inv_def dll_repr_def)
  then have "set (remove1 y fl) = {v \<in> set (as @ x # bs). \<not> CHUNK_ALLOCATED ?s v \<and> v \<noteq> NULL}"
    unfolding al using f d by auto
  moreover have "tiles (ck_size ?s) (heap_base c) (as @ x # bs) (heap_end c ?s)"
  proof -
    have "tiles (ck_size s) (heap_base c) as x" "ck_size s x mod HEAPMEM_ALIGNMENT = 0"
      "y = x + CHUNK_T_SIZE + ck_size s x" "ck_size s y mod HEAPMEM_ALIGNMENT = 0"
      "tiles (ck_size s) (y + CHUNK_T_SIZE + ck_size s y) bs (heap_end c s)"
      using heap_inv_tiles [OF assms(2)] by (auto simp: tiles_append)
    moreover from this have "(ck_size s x + (CHUNK_T_SIZE + ck_size s y)) mod HEAPMEM_ALIGNMENT = 0"
      unfolding HEAPMEM_ALIGNMENT_def CHUNK_T_SIZE_def by presburger
    ultimately show ?thesis unfolding sz e using d by (auto simp: tiles_append add.assoc)
  qed
  ultimately show "heap_inv c ?s (as @ x # bs) (remove1 y fl) NULL"
    using assms(2) by (simp add: heap_inv_def chunk_free_iff u)
  have "\<not> CHUNK_ALLOCATED s y" using assms(3) by (simp add: chunk_free_iff)
  then show "alloc_map ?s (as @ x # bs) = resized x (ck_size ?s x) (alloc_map s (as @ x # y # bs))"
    using d by (auto simp: fun_eq_iff alloc_map_def resized_def al z sz)
qed

lemma coalesce_inv:
  assumes "conf_ok c" "heap_inv c s (as @ x # bs) fl NULL"
  shows "\<exists>bs' fl'. heap_inv c (coalesce_chunks c x s) (as @ x # bs') fl' NULL \<and> set bs' \<subseteq> set bs \<and>
    alloc_map (coalesce_chunks c x s) (as @ x # bs') =
      resized x (ck_size (coalesce_chunks c x s) x) (alloc_map s (as @ x # bs)) \<and>
    ck_size s x \<le> ck_size (coalesce_chunks c x s) x"
  using assms(2)
proof (induction "length bs" arbitrary: s bs fl rule: less_induct)
  case less
  show ?case
  proof (cases "NEXT_CHUNK s x < heap_end c s \<and> CHUNK_FREE s (NEXT_CHUNK s x)")
    case False
    have "coalesce_chunks c x s = s" unfolding coalesce_step [of c x s] by (rule if_not_P [OF False])
    moreover have "resized x (ck_size s x) (alloc_map s (as @ x # bs)) = alloc_map s (as @ x # bs)"
      by (rule resized_id) (simp add: alloc_map_def split: if_splits)
    ultimately show ?thesis using less.prems by auto
  next
    case True
    let ?y = "NEXT_CHUNK s x"
    let ?a = "absorb_chunk x ?y s"
    have "bs \<noteq> []" using NEXT_CHUNK_end [OF less.prems] True by auto
    then obtain bs1 where bs: "bs = ?y # bs1" using NEXT_CHUNK_end(2) [OF less.prems] by (cases bs) auto
    have step: "coalesce_chunks c x s = coalesce_chunks c x ?a"
      unfolding coalesce_step [of c x s] by (rule if_P [OF True])
    have inv: "heap_inv c s (as @ x # ?y # bs1) fl NULL" using less.prems bs by simp
    note a = absorb_chunk_inv [OF assms(1) inv conjunct2 [OF True]]
    have "length bs1 < length bs" by (subst bs) simp
    from less.hyps [OF this a(1)] obtain bs' fl' where r:
      "heap_inv c (coalesce_chunks c x ?a) (as @ x # bs') fl' NULL" "set bs' \<subseteq> set bs1"
      "alloc_map (coalesce_chunks c x ?a) (as @ x # bs') =
        resized x (ck_size (coalesce_chunks c x ?a) x) (alloc_map ?a (as @ x # bs1))"
      "ck_size ?a x \<le> ck_size (coalesce_chunks c x ?a) x" by blast
    have "set bs1 \<subseteq> set bs" by (subst bs) auto
    with r(2) have "set bs' \<subseteq> set bs" by blast
    moreover have "alloc_map (coalesce_chunks c x ?a) (as @ x # bs') =
        resized x (ck_size (coalesce_chunks c x ?a) x) (alloc_map s (as @ x # bs))"
      unfolding r(3) a(2) resized_resized bs [symmetric] by (rule refl)
    moreover have "ck_size s x \<le> ck_size (coalesce_chunks c x ?a) x" using r(4) by (simp add: a(3))
    ultimately show ?thesis using r(1) unfolding step by blast
  qed
qed

text \<open>The chunk grows; it is still there, and on the free list when it was.\<close>

lemma coalesce_free:
  assumes "conf_ok c" "heap_inv c s cs fl NULL" "x \<in> set fl"
  shows "\<exists>cs' fl'. heap_inv c (coalesce_chunks c x s) cs' fl' NULL \<and> x \<in> set fl' \<and>
    alloc_map (coalesce_chunks c x s) cs' = alloc_map s cs"
proof -
  have x: "x \<in> set cs" "\<not> CHUNK_ALLOCATED s x" "x \<noteq> NULL" using heap_inv_free_set [OF assms(2)] assms(3) by simp_all
  obtain as bs where cs: "cs = as @ x # bs" using x(1) by (meson split_list)
  have "heap_inv c s (as @ x # bs) fl NULL" using assms(2) cs by simp
  from coalesce_inv [OF assms(1) this] obtain bs' fl' where r:
    "heap_inv c (coalesce_chunks c x s) (as @ x # bs') fl' NULL"
    "alloc_map (coalesce_chunks c x s) (as @ x # bs') =
      resized x (ck_size (coalesce_chunks c x s) x) (alloc_map s (as @ x # bs))" by blast
  have "ck_flags (coalesce_chunks c x s) = ck_flags s" using coalesce_frame [of c x s] by simp
  then have "\<not> CHUNK_ALLOCATED (coalesce_chunks c x s) x" using x(2) flags_allocated by blast
  with heap_inv_free_set [OF r(1)] x(3) have "x \<in> set fl'" by simp
  moreover have "alloc_map (coalesce_chunks c x s) (as @ x # bs') = alloc_map s cs"
    unfolding r(2) cs [symmetric] using x(2) by (intro resized_id) (simp add: alloc_map_def)
  ultimately show ?thesis using r(1) by blast
qed

lemma free_list_member:
  assumes "heap_inv c s cs fl t"
  shows "free_list s = NULL \<or> free_list s \<in> set fl" "x \<in> set fl \<Longrightarrow> ck_next s x = NULL \<or> ck_next s x \<in> set fl"
proof -
  have d: "dll_repr (free_links s) fl" using assms by (simp add: heap_inv_def)
  show "free_list s = NULL \<or> free_list s \<in> set fl"
    using dll_repr_head [OF d] by (cases fl) (auto simp: free_links_def)
  show "ck_next s x = NULL \<or> ck_next s x \<in> set fl" if x: "x \<in> set fl"
  proof -
    obtain ys zs where fl: "fl = ys @ x # zs" using split_list [OF x] by blast
    with d have "ck_next s x = seq_first zs" using dll_neighbours [of "free_links s" ys x zs] by (simp add: free_links_def)
    then show ?thesis unfolding fl by (cases zs) auto
  qed
qed

lemma defrag_from_inv:
  assumes "conf_ok c" "heap_inv c s cs fl NULL" "x = NULL \<or> x \<in> set fl"
  shows "\<exists>cs' fl'. heap_inv c (defrag_from c n x s) cs' fl' NULL \<and> alloc_map (defrag_from c n x s) cs' = alloc_map s cs"
  using assms(2,3)
proof (induction n arbitrary: x s cs fl)
  case 0
  then show ?case by auto
next
  case (Suc n)
  show ?case
  proof (cases "x = NULL")
    case True
    then show ?thesis using Suc.prems(1) by auto
  next
    case False
    with Suc.prems(2) have "x \<in> set fl" by simp
    from coalesce_free [OF assms(1) Suc.prems(1) this] obtain cs1 fl1 where r:
      "heap_inv c (coalesce_chunks c x s) cs1 fl1 NULL" "x \<in> set fl1"
      "alloc_map (coalesce_chunks c x s) cs1 = alloc_map s cs" by blast
    have "defrag_from c (Suc n) x s = defrag_from c n (ck_next (coalesce_chunks c x s) x) (coalesce_chunks c x s)"
      using False by (simp add: Let_def)
    then show ?thesis using Suc.IH [OF r(1) free_list_member(2) [OF r(1,2)]] r(3) by simp
  qed
qed

lemma defrag_chunks_inv:
  assumes "conf_ok c" "heap_inv c s cs fl NULL"
  shows "\<exists>cs' fl'. heap_inv c (defrag_chunks c s) cs' fl' NULL \<and> alloc_map (defrag_chunks c s) cs' = alloc_map s cs"
  unfolding defrag_chunks_def by (rule defrag_from_inv [OF assms free_list_member(1) [OF assms(2)]])

lemma defrag_from_frame:
  "heap_usage (defrag_from c n x s) = heap_usage s \<and> zones (defrag_from c n x s) = zones s \<and>
   heap_bytes (defrag_from c n x s) = heap_bytes s \<and> ck_zone (defrag_from c n x s) = ck_zone s"
  by (induction n arbitrary: x s) (simp_all add: Let_def coalesce_frame)

section \<open>Finding a chunk\<close>

text \<open>The choice is a free chunk that is large enough.\<close>

lemma best_from_fits:
  assumes "heap_inv c s cs fl NULL" "x = NULL \<or> x \<in> set fl" "b = NULL \<or> b \<in> set fl \<and> sz \<le> ck_size s b"
  shows "best_from n x sz b s = NULL \<or> best_from n x sz b s \<in> set fl \<and> sz \<le> ck_size s (best_from n x sz b s)"
  using assms(2,3)
proof (induction n arbitrary: x b)
  case (Suc n)
  show ?case
  proof (cases "x = NULL")
    case True
    with Suc.prems(2) show ?thesis by auto
  next
    case False
    then have x: "x \<in> set fl" "ck_next s x = NULL \<or> ck_next s x \<in> set fl"
      using free_list_member(2) [OF assms(1)] Suc.prems(1) by blast+
    then show ?thesis
      using False Suc.prems(2) Suc.IH [OF x(2), of x] Suc.IH [OF x(2), of b] by (auto simp: Let_def)
  qed
qed auto

text \<open>The chunk in hand, as the operation leaves it: marked allocated.\<close>

definition mark_chunk :: "ptr \<Rightarrow> heapmem \<Rightarrow> heapmem" where
  "mark_chunk x s = s\<lparr>ck_flags := (ck_flags s)(x := 1)\<rparr>"

lemma mark_chunk_fields [simp]:
  "heap_usage (mark_chunk x s) = heap_usage s" "ck_size (mark_chunk x s) = ck_size s"
  "ck_zone (mark_chunk x s) = ck_zone s" "zones (mark_chunk x s) = zones s"
  "heap_bytes (mark_chunk x s) = heap_bytes s" "free_links (mark_chunk x s) = free_links s"
  "CHUNK_ALLOCATED (mark_chunk x s) y \<longleftrightarrow> y = x \<or> CHUNK_ALLOCATED s y"
  by (simp_all add: mark_chunk_def free_links_def CHUNK_ALLOCATED_def)

lemma free_chunk_mark:
  assumes "x \<noteq> n"
  shows "free_chunk c n (s\<lparr>ck_flags := (ck_flags s)(x := v)\<rparr>) =
    (free_chunk c n s)\<lparr>ck_flags := (ck_flags (free_chunk c n s))(x := v)\<rparr>"
proof -
  have "(f(x := v))(n := a) = (f(n := a))(x := v)" for f :: "ptr \<Rightarrow> u8" and a using assms by (rule fun_upd_twist)
  then show ?thesis using assms by (simp add: free_chunk_def Let_def IS_LAST_CHUNK_def NEXT_CHUNK_def heap_end_def)
qed

lemma split_chunk_mark: "split_chunk c x k (mark_chunk x s) = mark_chunk x (split_chunk c x k s)"
proof -
  let ?n = "GET_PTR x + ALIGN k"
  have xn: "x \<noteq> ?n" by (simp add: GET_PTR_def CHUNK_T_SIZE_def)
  have "cut_chunk x (ALIGN k) (mark_chunk x s) =
      (cut_chunk x (ALIGN k) s)\<lparr>ck_flags := (ck_flags (cut_chunk x (ALIGN k) s))(x := 1)\<rparr>"
    using xn by (simp add: cut_chunk_def mark_chunk_def fun_upd_twist)
  then have f: "free_chunk c ?n (cut_chunk x (ALIGN k) (mark_chunk x s)) = mark_chunk x (free_chunk c ?n (cut_chunk x (ALIGN k) s))"
    using free_chunk_mark [OF xn] by (simp add: mark_chunk_def)
  show ?thesis
  proof (cases "ALIGN k + CHUNK_T_SIZE < ck_size s x")
    case True
    then show ?thesis
      using split_chunk_cuts [of k s x c] split_chunk_cuts [of k "mark_chunk x s" x c] unfolding f
      by (simp add: Let_def mark_chunk_def)
  next
    case False
    then show ?thesis by (simp add: split_chunk_def Let_def)
  qed
qed

lemma take_chunk_inv:
  assumes "conf_ok c" "heap_inv c s cs fl NULL" "x \<in> set fl"
  shows "heap_inv c (mark_chunk x (remove_chunk_from_free_list x s)) cs (remove1 x fl) NULL"
    "alloc_map (mark_chunk x (remove_chunk_from_free_list x s)) cs = (alloc_map s cs)(x \<mapsto> (ck_size s x, ck_zone s x))"
    "alloc_map s cs x = None" "x \<in> set cs"
proof -
  let ?r = "remove_chunk_from_free_list x s"
  have f: "set fl = {y \<in> set cs. \<not> CHUNK_ALLOCATED s y \<and> y \<noteq> NULL}" by (rule heap_inv_free_set [OF assms(2)])
  show x: "x \<in> set cs" and none: "alloc_map s cs x = None" using f assms(3) by (simp_all add: alloc_map_def)
  have al: "CHUNK_ALLOCATED ?r y = CHUNK_ALLOCATED s y" for y by (rule flags_allocated [OF remove_free_frame(3)])
  have links: "dll_repr (free_links s) fl" using assms(2) by (simp add: heap_inv_def)
  have "distinct fl" using links by (simp add: dll_repr_def)
  then have "set (remove1 x fl) = {y \<in> set cs. \<not> CHUNK_ALLOCATED (mark_chunk x ?r) y \<and> y \<noteq> NULL}"
    using f by (auto simp: al)
  then show "heap_inv c (mark_chunk x ?r) cs (remove1 x fl) NULL"
    using assms(2) remove_chunk_repr [OF links assms(3)]
    by (simp add: heap_inv_def chunk_free_iff heap_end_def remove_free_frame)
  show "alloc_map (mark_chunk x ?r) cs = (alloc_map s cs)(x \<mapsto> (ck_size s x, ck_zone s x))"
    using x by (auto simp: fun_eq_iff alloc_map_def al remove_free_frame)
qed

text \<open>
  The search for a free chunk: none, and nothing changed for the callers; or one that was not allocated and,
  once marked, holds at least what was asked for.
\<close>

lemma get_free_chunk_inv:
  assumes "conf_ok c" "heap_inv c s cs fl NULL" "sz mod HEAPMEM_ALIGNMENT = 0"
  shows "case get_free_chunk c sz s of (x, s') \<Rightarrow>
    zones s' = zones s \<and> heap_bytes s' = heap_bytes s \<and> ck_zone s' = ck_zone s \<and>
    (if x = NULL then \<exists>cs' fl'. heap_inv c s' cs' fl' NULL \<and> alloc_map s' cs' = alloc_map s cs
     else \<exists>cs' fl'. heap_inv c (mark_chunk x s') cs' fl' NULL \<and> sz \<le> ck_size s' x \<and> alloc_map s cs x = None \<and>
       alloc_map (mark_chunk x s') cs' = (alloc_map s cs)(x \<mapsto> (ck_size s' x, ck_zone s x)))"
proof -
  define s1 where "s1 = defrag_chunks c s"
  define x where "x = best_from (chunk_search_max c) (free_list s1) sz NULL s1"
  obtain cs1 fl1 where d: "heap_inv c s1 cs1 fl1 NULL" "alloc_map s1 cs1 = alloc_map s cs"
    using defrag_chunks_inv [OF assms(1,2)] unfolding s1_def by blast
  have fr: "zones s1 = zones s" "heap_bytes s1 = heap_bytes s" "ck_zone s1 = ck_zone s"
    using defrag_from_frame by (simp_all add: s1_def defrag_chunks_def)
  have b: "x = NULL \<or> x \<in> set fl1 \<and> sz \<le> ck_size s1 x"
    unfolding x_def by (rule best_from_fits [OF d(1) free_list_member(1) [OF d(1)]]) simp
  have g: "get_free_chunk c sz s = (if x \<noteq> NULL then (x, split_chunk c x sz (remove_chunk_from_free_list x s1)) else (NULL, s1))"
    by (simp add: get_free_chunk_def Let_def s1_def x_def)
  show ?thesis
  proof (cases "x = NULL")
    case True
    then show ?thesis unfolding g using d by (auto simp: fr)
  next
    case False
    with b have x: "x \<in> set fl1" "sz \<le> ck_size s1 x" by simp_all
    let ?m = "mark_chunk x (remove_chunk_from_free_list x s1)"
    note take = take_chunk_inv [OF assms(1) d(1) x(1)]
    obtain as bs where cs: "cs1 = as @ x # bs" using take(4) by (meson split_list)
    have "heap_inv c ?m (as @ x # bs) (remove1 x fl1) NULL" using take(1) cs by simp
    from split_chunk_inv [OF assms(1) this, of sz] obtain bs' fl' where sp:
      "heap_inv c (split_chunk c x sz ?m) (as @ x # bs') fl' NULL"
      "alloc_map (split_chunk c x sz ?m) (as @ x # bs') =
        (alloc_map ?m (as @ x # bs))(x \<mapsto> (ck_size (split_chunk c x sz ?m) x, ck_zone ?m x))"
      "ck_size (split_chunk c x sz ?m) x = ck_size ?m x \<or> ck_size (split_chunk c x sz ?m) x = ALIGN sz"
      "zones (split_chunk c x sz ?m) = zones ?m" "heap_bytes (split_chunk c x sz ?m) = heap_bytes ?m"
      "ck_zone (split_chunk c x sz ?m) = ck_zone ?m"
      by auto
    let ?s = "split_chunk c x sz (remove_chunk_from_free_list x s1)"
    note sp' = sp [unfolded split_chunk_mark mark_chunk_fields remove_free_frame fr]
    have "sz \<le> ck_size ?s x" using sp'(3) x(2) ALIGN_16(2) [of sz] by auto
    moreover have "alloc_map (mark_chunk x ?s) (as @ x # bs') = (alloc_map s cs)(x \<mapsto> (ck_size ?s x, ck_zone s x))"
      unfolding sp'(2) using take(2) cs d(2) by simp
    moreover have "alloc_map s cs x = None" using take(3) d(2) by simp
    ultimately show ?thesis unfolding g using False sp'(1,4,5,6) by auto
  qed
qed

section \<open>Allocating\<close>

lemma add_allocated_fields [simp]:
  "heap_usage (add_allocated z d s) = heap_usage s" "ck_size (add_allocated z d s) = ck_size s"
  "ck_flags (add_allocated z d s) = ck_flags s" "ck_zone (add_allocated z d s) = ck_zone s"
  "heap_bytes (add_allocated z d s) = heap_bytes s" "ck_next (add_allocated z d s) = ck_next s"
  "ck_prev (add_allocated z d s) = ck_prev s" "free_list (add_allocated z d s) = free_list s"
  by (simp_all add: add_allocated_def Let_def)

text \<open>What the layout and the map of blocks are made of.\<close>

lemma heap_inv_cong:
  assumes "heap_usage s' = heap_usage s" "ck_size s' = ck_size s" "ck_flags s' = ck_flags s"
    "free_links s' = free_links s"
  shows "heap_inv c s' cs fl t = heap_inv c s cs fl t"
  unfolding heap_inv_def heap_end_def CHUNK_FREE_def assms by (rule refl)

lemma heap_inv_add_allocated [simp]: "heap_inv c (add_allocated z d s) cs fl t = heap_inv c s cs fl t"
  by (rule heap_inv_cong) (simp_all add: free_links_def)

lemma alloc_map_add_allocated [simp]: "alloc_map (add_allocated z d s) = alloc_map s"
  by (simp add: fun_eq_iff alloc_map_def CHUNK_ALLOCATED_def)

lemma heap_inv_zone_upd: "heap_inv c (s\<lparr>ck_zone := z\<rparr>) cs fl t = heap_inv c s cs fl t"
  by (rule heap_inv_cong) (simp_all add: free_links_def)

lemma alloc_map_zone_upd:
  "alloc_map s cs x = Some (n, z0) \<Longrightarrow>
   alloc_map (s\<lparr>ck_zone := (ck_zone s)(x := z)\<rparr>) cs = (alloc_map s cs)(x \<mapsto> (n, z))"
  by (auto simp: fun_eq_iff alloc_map_def CHUNK_ALLOCATED_def split: if_splits)

definition fresh_chunk :: "ptr \<Rightarrow> nat \<Rightarrow> heapmem \<Rightarrow> heapmem" where
  "fresh_chunk x n s = s\<lparr>heap_usage := heap_usage s + (CHUNK_T_SIZE + n), ck_size := (ck_size s)(x := n)\<rparr>"

lemma fresh_chunk_fields:
  "ck_size (fresh_chunk x n s) = (ck_size s)(x := n)" "ck_zone (fresh_chunk x n s) = ck_zone s"
  "CHUNK_ALLOCATED (fresh_chunk x n s) y = CHUNK_ALLOCATED s y"
  by (simp_all add: fresh_chunk_def CHUNK_ALLOCATED_def)

text \<open>A new chunk at the end of the used part of the arena.\<close>

lemma extend_chunk_inv:
  assumes "conf_ok c" "heap_inv c s cs fl NULL" "n mod HEAPMEM_ALIGNMENT = 0"
    "CHUNK_T_SIZE + n \<le> arena_size c - heap_usage s"
  defines "x \<equiv> heap_end c s"
  shows "heap_inv c (mark_chunk x (fresh_chunk x n s)) (cs @ [x]) fl NULL" "alloc_map s cs x = None" "x \<noteq> NULL"
    "alloc_map (mark_chunk x (fresh_chunk x n s)) (cs @ [x]) = (alloc_map s cs)(x \<mapsto> (n, ck_zone s x))"
proof -
  have t: "tiles (ck_size s) (heap_base c) cs x" unfolding x_def by (rule heap_inv_tiles [OF assms(2)])
  have fresh: "x \<notin> set cs" using tiles_inside [OF t, of x] by (auto simp: CHUNK_T_SIZE_def)
  then show "alloc_map s cs x = None" by (simp add: alloc_map_def)
  show xN: "x \<noteq> NULL" using assms(1) by (simp add: x_def heap_end_def conf_ok_def)
  let ?s = "mark_chunk x (fresh_chunk x n s)"
  have al: "CHUNK_ALLOCATED ?s y \<longleftrightarrow> y = x \<or> CHUNK_ALLOCATED s y" for y
    by (simp add: fresh_chunk_def CHUNK_ALLOCATED_def mark_chunk_def)
  have "heap_end c ?s = x + CHUNK_T_SIZE + n" by (simp add: heap_end_def fresh_chunk_def x_def)
  moreover have "ck_size ?s = (ck_size s)(x := n)" by (simp add: fresh_chunk_def)
  ultimately have "tiles (ck_size ?s) (heap_base c) (cs @ [x]) (heap_end c ?s)"
    using t fresh assms(3) by (auto simp: tiles_append)
  moreover have "set fl = {y \<in> set (cs @ [x]). \<not> CHUNK_ALLOCATED ?s y \<and> y \<noteq> NULL}"
    unfolding heap_inv_free_set [OF assms(2)] al using fresh by auto
  moreover have "heap_usage ?s \<le> arena_size c"
    using assms(2,4) CHUNK_T_SIZE_pos by (simp add: fresh_chunk_def heap_inv_def del: CHUNK_T_SIZE_pos)
  moreover have links: "free_links ?s = free_links s" by (simp add: fresh_chunk_def) (simp add: free_links_def)
  ultimately show "heap_inv c ?s (cs @ [x]) fl NULL"
    using assms(2) unfolding heap_inv_def chunk_free_iff by simp
  show "alloc_map ?s (cs @ [x]) = (alloc_map s cs)(x \<mapsto> (n, ck_zone s x))"
    using fresh by (auto simp: fun_eq_iff alloc_map_def fresh_chunk_fields)
qed

text \<open>The chunk the allocation works on: a free one, or a new one.\<close>

definition obtain_chunk :: "hm_conf \<Rightarrow> nat \<Rightarrow> heapmem \<Rightarrow> ptr \<times> heapmem" where
  "obtain_chunk c sz s =
     (let (chunk, s) = get_free_chunk c sz s
      in if chunk = NULL then
           let (chunk, s) = extend_space c (CHUNK_T_SIZE + sz) s
           in if chunk = NULL then (NULL, s) else (chunk, s\<lparr>ck_size := (ck_size s)(chunk := sz)\<rparr>)
         else (chunk, s))"

lemma obtain_chunk_inv:
  assumes "conf_ok c" "heap_inv c s cs fl NULL" "sz mod HEAPMEM_ALIGNMENT = 0"
  shows "case obtain_chunk c sz s of (x, s') \<Rightarrow>
    zones s' = zones s \<and> heap_bytes s' = heap_bytes s \<and> ck_zone s' = ck_zone s \<and>
    (if x = NULL then \<exists>cs' fl'. heap_inv c s' cs' fl' NULL \<and> alloc_map s' cs' = alloc_map s cs
     else \<exists>cs' fl'. heap_inv c (mark_chunk x s') cs' fl' NULL \<and> sz \<le> ck_size s' x \<and> alloc_map s cs x = None \<and>
       alloc_map (mark_chunk x s') cs' = (alloc_map s cs)(x \<mapsto> (ck_size s' x, ck_zone s x)))"
proof -
  obtain x1 s1 where g: "get_free_chunk c sz s = (x1, s1)" by (cases "get_free_chunk c sz s")
  note f = get_free_chunk_inv [OF assms, unfolded g prod.case]
  show ?thesis
  proof (cases "x1 = NULL")
    case False
    then have "obtain_chunk c sz s = (x1, s1)" by (simp add: obtain_chunk_def g)
    then show ?thesis using f False by simp
  next
    case True
    with f obtain cs1 fl1 where i: "heap_inv c s1 cs1 fl1 NULL" "alloc_map s1 cs1 = alloc_map s cs" by auto
    have same: "zones s1 = zones s" "heap_bytes s1 = heap_bytes s" "ck_zone s1 = ck_zone s" using f by simp_all
    show ?thesis
    proof (cases "CHUNK_T_SIZE + sz \<le> arena_size c - heap_usage s1")
      case False
      then have "obtain_chunk c sz s = (NULL, s1)" using True by (simp add: obtain_chunk_def g extend_space_def)
      then show ?thesis using i same by auto
    next
      case fits: True
      let ?x = "heap_end c s1"
      note e = extend_chunk_inv [OF assms(1) i(1) assms(3) fits]
      have "obtain_chunk c sz s = (?x, fresh_chunk ?x sz s1)"
        using True fits e(3) by (auto simp: obtain_chunk_def g extend_space_def fresh_chunk_def heap_end_def)
      moreover have "zones (fresh_chunk ?x sz s1) = zones s" "heap_bytes (fresh_chunk ?x sz s1) = heap_bytes s"
        "ck_zone (fresh_chunk ?x sz s1) = ck_zone s" "ck_size (fresh_chunk ?x sz s1) ?x = sz"
        by (simp_all add: fresh_chunk_def same)
      ultimately show ?thesis using e i(2) same by auto
    qed
  qed
qed

definition zone_admits :: "hm_conf \<Rightarrow> u8 \<Rightarrow> u64 \<Rightarrow> heapmem \<Rightarrow> bool" where
  "zone_admits c zn request s \<longleftrightarrow> unat request \<le> arena_size c \<and>
     unat zn < length (zones s) \<and> zone_name (zones s ! unat zn) \<noteq> None \<and>
     of_nat (CHUNK_T_SIZE + ALIGN (unat request)) \<le> zone_size (zones s ! unat zn) - zone_allocated (zones s ! unat zn)"

definition hand_out :: "ptr \<Rightarrow> u8 \<Rightarrow> nat \<Rightarrow> heapmem \<Rightarrow> heapmem" where
  "hand_out x zn sz s =
     (let s = mark_chunk x s; s = s\<lparr>ck_zone := (ck_zone s)(x := zn)\<rparr> in add_allocated zn (of_nat (CHUNK_T_SIZE + sz)) s)"

lemma heapmem_zone_alloc_steps:
  "heapmem_zone_alloc c zn request s =
    (if zone_admits c zn request s then
       case obtain_chunk c (ALIGN (unat request)) s of (x, s') \<Rightarrow>
         if x = NULL then (NULL, s') else (GET_PTR x, hand_out x zn (ALIGN (unat request)) s')
     else (NULL, s))"
proof (cases "zone_admits c zn request s")
  case False
  then show ?thesis unfolding heapmem_zone_alloc_def zone_admits_def Let_def by (auto simp: not_le not_less)
next
  case True
  obtain x s1 where g: "get_free_chunk c (ALIGN (unat request)) s = (x, s1)"
    by (cases "get_free_chunk c (ALIGN (unat request)) s")
  obtain y s2 where e: "extend_space c (CHUNK_T_SIZE + ALIGN (unat request)) s1 = (y, s2)"
    by (cases "extend_space c (CHUNK_T_SIZE + ALIGN (unat request)) s1")
  have guards: "\<not> arena_size c < unat request" "\<not> length (zones s) \<le> unat zn" "zone_name (zones s ! unat zn) \<noteq> None"
    "\<not> zone_size (zones s ! unat zn) - zone_allocated (zones s ! unat zn) < of_nat (CHUNK_T_SIZE + ALIGN (unat request))"
    using True by (simp_all only: zone_admits_def not_le not_less simp_thms)
  have "heapmem_zone_alloc c zn request s =
      (case obtain_chunk c (ALIGN (unat request)) s of (x, s') \<Rightarrow>
         if x = NULL then (NULL, s') else (GET_PTR x, hand_out x zn (ALIGN (unat request)) s'))"
    unfolding heapmem_zone_alloc_def obtain_chunk_def Let_def g e
    by (simp only: guards not_False_eq_True if_False simp_thms prod.case)
       (simp add: g e hand_out_def mark_chunk_def Let_def)
  with True show ?thesis by simp
qed

text \<open>
  Allocation: nothing, and the callers' blocks are as they were; or a block that nobody had, at least as
  large as asked for, and all others as they were.
\<close>

lemma heapmem_zone_alloc_inv:
  assumes "conf_ok c" "heap_inv c s cs fl NULL"
  shows "case heapmem_zone_alloc c zn request s of (p, s') \<Rightarrow>
    \<exists>cs' fl'. heap_inv c s' cs' fl' NULL \<and> heap_bytes s' = heap_bytes s \<and>
     (if p = NULL then alloc_map s' cs' = alloc_map s cs \<and> zones s' = zones s
      else CHUNK_T_SIZE \<le> p \<and> alloc_map s cs (GET_CHUNK p) = None \<and>
        (\<exists>n\<ge>ALIGN (unat request). alloc_map s' cs' = (alloc_map s cs)(GET_CHUNK p \<mapsto> (n, zn))) \<and>
        zones s' = zones (add_allocated zn (of_nat (CHUNK_T_SIZE + ALIGN (unat request))) s))"
proof (cases "zone_admits c zn request s")
  case False
  then show ?thesis using assms(2) by (auto simp: heapmem_zone_alloc_steps)
next
  case True
  let ?sz = "ALIGN (unat request)"
  obtain x s1 where o: "obtain_chunk c ?sz s = (x, s1)" by (cases "obtain_chunk c ?sz s")
  note i = obtain_chunk_inv [OF assms ALIGN_16(1), of "unat request", unfolded o prod.case]
  show ?thesis
  proof (cases "x = NULL")
    case True
    then show ?thesis using \<open>zone_admits c zn request s\<close> i by (auto simp: heapmem_zone_alloc_steps o)
  next
    case False
    then have ret: "heapmem_zone_alloc c zn request s = (GET_PTR x, hand_out x zn ?sz s1)"
      using True by (simp add: heapmem_zone_alloc_steps o)
    have p: "GET_PTR x \<noteq> NULL" "GET_CHUNK (GET_PTR x) = x" "CHUNK_T_SIZE \<le> GET_PTR x"
      by (simp_all add: GET_PTR_def GET_CHUNK_def CHUNK_T_SIZE_def)
    from i False obtain cs1 fl1 where r: "heap_inv c (mark_chunk x s1) cs1 fl1 NULL" "?sz \<le> ck_size s1 x"
      "alloc_map s cs x = None"
      "alloc_map (mark_chunk x s1) cs1 = (alloc_map s cs)(x \<mapsto> (ck_size s1 x, ck_zone s x))" by auto
    have "heap_inv c (hand_out x zn ?sz s1) cs1 fl1 NULL"
      using r(1) by (simp add: hand_out_def Let_def heap_inv_zone_upd)
    moreover have "alloc_map (hand_out x zn ?sz s1) cs1 = (alloc_map s cs)(x \<mapsto> (ck_size s1 x, zn))"
      using alloc_map_zone_upd [of "mark_chunk x s1" cs1 x "ck_size s1 x" "ck_zone s x" zn] r(4)
      by (simp add: hand_out_def Let_def)
    moreover have "heap_bytes (hand_out x zn ?sz s1) = heap_bytes s" using i by (simp add: hand_out_def Let_def)
    moreover have "zones (hand_out x zn ?sz s1) = zones (add_allocated zn (of_nat (CHUNK_T_SIZE + ?sz)) s)"
      using i by (simp add: hand_out_def Let_def add_allocated_def)
    ultimately show ?thesis unfolding ret prod.case using p r(2,3) by auto
  qed
qed

section \<open>Giving back\<close>

lemma block_alive:
  assumes "alloc_map s cs x = Some (n, z)"
  shows "x \<in> set cs" "CHUNK_ALLOCATED s x" "ck_size s x = n" "ck_zone s x = z"
  using assms by (auto simp: alloc_map_def split: if_splits)

lemma GET_CHUNK_PTR [simp]: "GET_CHUNK (GET_PTR x) = x"
  by (simp add: GET_CHUNK_def GET_PTR_def)

lemma block_in_heap:
  assumes "heap_inv c s cs fl t" "x \<in> set cs"
  shows "\<not> not_IN_HEAP c (GET_PTR x) s"
  using tiles_inside [OF heap_inv_tiles [OF assms(1)] assms(2)] by (simp add: not_IN_HEAP_def GET_PTR_def)

lemma free_block_inv:
  assumes "conf_ok c" "heap_inv c s cs fl NULL" "alloc_map s cs x = Some (n, z)"
  shows "\<exists>cs' fl'. heap_inv c (free_chunk c x s) cs' fl' NULL \<and>
      alloc_map (free_chunk c x s) cs' = (alloc_map s cs)(x := None) \<and>
      heap_bytes (free_chunk c x s) = heap_bytes s \<and> zones (free_chunk c x s) = zones s"
proof -
  note b = block_alive [OF assms(3)]
  obtain as bs where cs: "cs = as @ x # bs" using split_list [OF b(1)] by blast
  have "heap_inv c s (as @ x # bs) fl x" using heap_inv_take [OF assms(1) b(2) assms(2)] cs by simp
  note f = free_chunk_inv [OF assms(1) this]
  show ?thesis
    by (intro exI conjI, rule f(1)) (simp_all only: f(2,4,5) cs)
qed

lemma heapmem_free_inv:
  assumes "conf_ok c" "heap_inv c s cs fl NULL" "alloc_map s cs x = Some (n, z)"
  shows "case heapmem_free c (GET_PTR x) s of (r, s') \<Rightarrow>
    r \<and> heap_bytes s' = heap_bytes s \<and> zones s' = zones (add_allocated z (- of_nat (CHUNK_T_SIZE + n)) s) \<and>
    (\<exists>cs' fl'. heap_inv c s' cs' fl' NULL \<and> alloc_map s' cs' = (alloc_map s cs)(x := None))"
proof -
  note b = block_alive [OF assms(3)]
  let ?s = "add_allocated z (- of_nat (CHUNK_T_SIZE + n)) s"
  have ret: "heapmem_free c (GET_PTR x) s = (True, free_chunk c x ?s)"
    using block_in_heap [OF assms(2) b(1)] b by (simp add: heapmem_free_def Let_def)
  have "heap_inv c ?s cs fl NULL" "alloc_map ?s cs x = Some (n, z)" using assms(2,3) by simp_all
  from free_block_inv [OF assms(1) this] have "heap_bytes (free_chunk c x ?s) = heap_bytes s \<and> zones (free_chunk c x ?s) = zones ?s \<and>
      (\<exists>cs' fl'. heap_inv c (free_chunk c x ?s) cs' fl' NULL \<and> alloc_map (free_chunk c x ?s) cs' = (alloc_map s cs)(x := None))"
    unfolding add_allocated_fields alloc_map_add_allocated by blast
  with ret show ?thesis by (simp only: prod.case simp_thms)
qed

section \<open>Changing the size of a block\<close>

lemma heap_inv_bytes_upd: "heap_inv c (s\<lparr>heap_bytes := b\<rparr>) cs fl t = heap_inv c s cs fl t"
  by (rule heap_inv_cong) (simp_all add: free_links_def)

lemma alloc_map_bytes_upd: "alloc_map (s\<lparr>heap_bytes := b\<rparr>) = alloc_map s"
  by (simp add: fun_eq_iff alloc_map_def CHUNK_ALLOCATED_def)

lemma realloc_elsewhere_inv:
  assumes "conf_ok c" "heap_inv c s cs fl NULL" "alloc_map s cs x = Some (m, z)" "m < sz" "sz < 2 ^ 64"
  shows "case realloc_elsewhere c (GET_PTR x) x sz s of (q, s') \<Rightarrow>
    \<exists>cs' fl'. heap_inv c s' cs' fl' NULL \<and>
     (if q = NULL then alloc_map s' cs' = alloc_map s cs \<and> heap_bytes s' = heap_bytes s \<and> zones s' = zones s
      else CHUNK_T_SIZE \<le> q \<and> alloc_map s cs (GET_CHUNK q) = None \<and>
        (\<exists>n\<ge>sz. alloc_map s' cs' = (alloc_map s cs)(x := None, GET_CHUNK q \<mapsto> (n, z))) \<and>
        heap_bytes s' = (\<lambda>a. if q \<le> a \<and> a < q + m then heap_bytes s (GET_PTR x + (a - q)) else heap_bytes s a) \<and>
        zones s' = zones (add_allocated z (of_nat (CHUNK_T_SIZE + ALIGN sz)) s))"
proof -
  have zx: "ck_zone s x = z" using block_alive [OF assms(3)] by simp
  have un: "unat (of_nat sz :: u64) = sz" using assms(5) by (simp add: unat_of_nat take_bit_nat_eq_self)
  obtain q s1 where a: "heapmem_zone_alloc c z (of_nat sz) s = (q, s1)" by (cases "heapmem_zone_alloc c z (of_nat sz) s")
  note i = heapmem_zone_alloc_inv [OF assms(1,2), where zn = z and request = "of_nat sz", unfolded a prod.case un]
  show ?thesis
  proof (cases "q = NULL")
    case True
    then have "realloc_elsewhere c (GET_PTR x) x sz s = (NULL, s1)" by (simp add: realloc_elsewhere_def zx a)
    then show ?thesis using i True by auto
  next
    case False
    with i obtain cs1 fl1 n where r: "heap_inv c s1 cs1 fl1 NULL" "heap_bytes s1 = heap_bytes s" "CHUNK_T_SIZE \<le> q"
      "alloc_map s cs (GET_CHUNK q) = None" "ALIGN sz \<le> n" "alloc_map s1 cs1 = (alloc_map s cs)(GET_CHUNK q \<mapsto> (n, z))"
      "zones s1 = zones (add_allocated z (of_nat (CHUNK_T_SIZE + ALIGN sz)) s)"
      by auto
    have xq: "x \<noteq> GET_CHUNK q" using r(4) assms(3) by auto
    then have x1: "alloc_map s1 cs1 x = Some (m, z)" using r(6) assms(3) by simp
    let ?b = "copy_bytes q (GET_PTR x) m s1"
    have ret: "realloc_elsewhere c (GET_PTR x) x sz s = (q, free_chunk c x ?b)"
      using False block_alive [OF x1] by (simp add: realloc_elsewhere_def zx a)
    have "heap_inv c ?b cs1 fl1 NULL" "alloc_map ?b cs1 x = Some (m, z)"
      using r(1) x1 by (simp_all add: copy_bytes_def heap_inv_bytes_upd alloc_map_bytes_upd)
    from free_block_inv [OF assms(1) this] obtain cs2 fl2 where f: "heap_inv c (free_chunk c x ?b) cs2 fl2 NULL"
      "alloc_map (free_chunk c x ?b) cs2 = (alloc_map s1 cs1)(x := None)"
      "heap_bytes (free_chunk c x ?b) = heap_bytes ?b" "zones (free_chunk c x ?b) = zones s1"
      by (auto simp: copy_bytes_def alloc_map_bytes_upd)
    have "alloc_map (free_chunk c x ?b) cs2 = (alloc_map s cs)(x := None, GET_CHUNK q \<mapsto> (n, z))"
      unfolding f(2) r(6) using xq by (rule fun_upd_twist [symmetric])
    moreover have "sz \<le> n" using ALIGN_16(2) [of sz] r(5) by simp
    moreover have "heap_bytes (free_chunk c x ?b) =
        (\<lambda>a. if q \<le> a \<and> a < q + m then heap_bytes s (GET_PTR x + (a - q)) else heap_bytes s a)"
      unfolding f(3) unfolding copy_bytes_def r(2) by simp
    ultimately show ?thesis unfolding ret prod.case using f(1,4) r(3,4,7) False by auto
  qed
qed

text \<open>The last chunk grows with the used part of the arena.\<close>

lemma extend_last_inv:
  assumes "conf_ok c" "heap_inv c s (as @ [x]) fl NULL" "CHUNK_ALLOCATED s x" "sz mod HEAPMEM_ALIGNMENT = 0"
    "ck_size s x \<le> sz" "sz - ck_size s x \<le> arena_size c - heap_usage s"
  defines "s' \<equiv> s\<lparr>heap_usage := heap_usage s + (sz - ck_size s x), ck_size := (ck_size s)(x := sz)\<rparr>"
  shows "heap_inv c s' (as @ [x]) fl NULL" "alloc_map s' (as @ [x]) = (alloc_map s (as @ [x]))(x \<mapsto> (sz, ck_zone s x))"
proof -
  have d: "x \<notin> set as" using heap_inv_distinct [OF assms(2)] by simp
  have al: "CHUNK_ALLOCATED s' y = CHUNK_ALLOCATED s y" for y by (simp add: s'_def CHUNK_ALLOCATED_def)
  have t: "tiles (ck_size s) (heap_base c) as x" "x + CHUNK_T_SIZE + ck_size s x = heap_end c s"
    using heap_inv_tiles [OF assms(2)] by (auto simp: tiles_append)
  have "heap_end c s' = x + CHUNK_T_SIZE + sz" using t(2) assms(5) by (simp add: heap_end_def s'_def)
  moreover have "ck_size s' = (ck_size s)(x := sz)" by (simp add: s'_def)
  ultimately have "tiles (ck_size s') (heap_base c) (as @ [x]) (heap_end c s')"
    using t(1) d assms(4) by (auto simp: tiles_append)
  moreover have "heap_usage s' = heap_usage s + (sz - ck_size s x)" by (simp add: s'_def)
  with assms(2,6) have "heap_usage s' \<le> arena_size c" unfolding heap_inv_def by arith
  moreover have "free_links s' = free_links s" by (simp add: free_links_def s'_def)
  ultimately show "heap_inv c s' (as @ [x]) fl NULL" using assms(2) unfolding heap_inv_def chunk_free_iff al by simp
  show "alloc_map s' (as @ [x]) = (alloc_map s (as @ [x]))(x \<mapsto> (sz, ck_zone s x))"
    using assms(3) by (auto simp: fun_eq_iff alloc_map_def al) (simp_all add: s'_def)
qed

text \<open>
  What a reallocation of the block \<open>x\<close> of \<open>n\<close> bytes comes to: nothing (the block may have become larger);
  the block with the new size, where it was; or a new block with the old one's bytes, and the old one gone.
\<close>

definition realloc_result :: "hm_conf \<Rightarrow> heapmem \<Rightarrow> (ptr \<Rightarrow> (nat \<times> u8) option) \<Rightarrow> ptr \<Rightarrow> nat \<Rightarrow> u8 \<Rightarrow> nat \<Rightarrow>
    ptr \<times> heapmem \<Rightarrow> bool" where
  "realloc_result c s m x n z sz = (\<lambda>(q, s'). \<exists>cs' fl'. heap_inv c s' cs' fl' NULL \<and>
     (if q = NULL then (\<exists>k\<ge>n. alloc_map s' cs' = m(x \<mapsto> (k, z))) \<and> heap_bytes s' = heap_bytes s
      else CHUNK_T_SIZE \<le> q \<and> (q = GET_PTR x \<or> m (GET_CHUNK q) = None) \<and>
        (\<exists>k\<ge>sz. alloc_map s' cs' = m(x := None, GET_CHUNK q \<mapsto> (k, z)) \<and>
          (\<forall>i<min n sz. heap_bytes s' (q + i) = heap_bytes s (GET_PTR x + i)) \<and>
          (\<forall>a. a < q \<or> q + k \<le> a \<longrightarrow> heap_bytes s' a = heap_bytes s a))))"

lemma GET_PTR_not_NULL [simp]: "GET_PTR x \<noteq> NULL" "CHUNK_T_SIZE \<le> GET_PTR x"
  by (simp_all add: GET_PTR_def CHUNK_T_SIZE_def)

lemma realloc_in_place:
  assumes "heap_inv c s' cs' fl' NULL" "alloc_map s' cs' = m(x \<mapsto> (k, z))" "sz \<le> k" "heap_bytes s' = heap_bytes s"
  shows "realloc_result c s m x n z sz (GET_PTR x, add_allocated w d s')"
  unfolding realloc_result_def prod.case using assms GET_PTR_not_NULL
  by (intro exI [of _ cs'] exI [of _ fl']) auto

lemma realloc_moved:
  assumes "conf_ok c" "heap_inv c s1 cs1 fl1 NULL" "alloc_map s1 cs1 = m(x \<mapsto> (k, z))" "n \<le> k" "k < sz" "sz < 2 ^ 64"
    "heap_bytes s1 = heap_bytes s"
  shows "realloc_result c s m x n z sz (realloc_elsewhere c (GET_PTR x) x sz s1)"
proof -
  have b: "alloc_map s1 cs1 x = Some (k, z)" using assms(3) by simp
  obtain q s' where r: "realloc_elsewhere c (GET_PTR x) x sz s1 = (q, s')" by (cases "realloc_elsewhere c (GET_PTR x) x sz s1")
  note e = realloc_elsewhere_inv [OF assms(1,2) b assms(5,6), unfolded r prod.case]
  show ?thesis
  proof (cases "q = NULL")
    case True
    with e assms(3,4,7) show ?thesis unfolding r realloc_result_def prod.case by auto
  next
    case False
    with e obtain cs' fl' l where i: "heap_inv c s' cs' fl' NULL" "CHUNK_T_SIZE \<le> q" "alloc_map s1 cs1 (GET_CHUNK q) = None"
      "sz \<le> l" "alloc_map s' cs' = (alloc_map s1 cs1)(x := None, GET_CHUNK q \<mapsto> (l, z))"
      "heap_bytes s' = (\<lambda>a. if q \<le> a \<and> a < q + k then heap_bytes s1 (GET_PTR x + (a - q)) else heap_bytes s1 a)"
      by auto
    have "m (GET_CHUNK q) = None" using i(3) unfolding assms(3) by (simp split: if_splits)
    moreover have "alloc_map s' cs' = m(x := None, GET_CHUNK q \<mapsto> (l, z))" unfolding i(5) assms(3) by simp
    moreover have "\<forall>i<min n sz. heap_bytes s' (q + i) = heap_bytes s (GET_PTR x + i)"
      unfolding i(6) assms(7) using assms(4) by simp
    moreover have "\<forall>a. a < q \<or> q + l \<le> a \<longrightarrow> heap_bytes s' a = heap_bytes s a"
      unfolding i(6) assms(7) using assms(5) i(4) by simp
    ultimately show ?thesis unfolding r realloc_result_def prod.case using False i(1,2,4) by auto
  qed
qed

text \<open>The three ways to make a block larger.\<close>

lemma realloc_last:
  assumes "conf_ok c" "heap_inv c s cs fl NULL" "alloc_map s cs x = Some (n, z)" "n < sz" "sz mod HEAPMEM_ALIGNMENT = 0"
    "sz < 2 ^ 64" "IS_LAST_CHUNK c s x"
  shows "realloc_result c s (alloc_map s cs) x n z sz
    (let (q, s) = extend_space c (sz - n) s
     in if q \<noteq> NULL then (GET_PTR x, add_allocated (ck_zone s x) d (s\<lparr>ck_size := (ck_size s)(x := sz)\<rparr>))
        else realloc_elsewhere c (GET_PTR x) x sz s)"
proof -
  note b = block_alive [OF assms(3)]
  show ?thesis
  proof (cases "sz - n \<le> arena_size c - heap_usage s")
    case False
    have "realloc_result c s (alloc_map s cs) x n z sz (realloc_elsewhere c (GET_PTR x) x sz s)"
      by (rule realloc_moved [OF assms(1,2) _ order_refl assms(4,6) refl]) (use assms(3) in auto)
    with False show ?thesis by (simp add: extend_space_def)
  next
    case True
    obtain as bs where cs: "cs = as @ x # bs" using split_list [OF b(1)] by blast
    with assms(7) NEXT_CHUNK_end(1) [of c s as x bs fl NULL] assms(2) have "bs = []" by (simp add: IS_LAST_CHUNK_def)
    with cs have csx: "cs = as @ [x]" by simp
    have "ck_size s x \<le> sz" "sz - ck_size s x \<le> arena_size c - heap_usage s" using True b(3) assms(4) by simp_all
    note e = extend_last_inv [OF assms(1) assms(2) [unfolded csx] b(2) assms(5) this]
    let ?s = "s\<lparr>heap_usage := heap_usage s + (sz - ck_size s x), ck_size := (ck_size s)(x := sz)\<rparr>"
    have ne: "heap_base c + heap_usage s \<noteq> NULL" using assms(1) by (simp add: conf_ok_def)
    have "alloc_map ?s cs = (alloc_map s cs)(x \<mapsto> (sz, z))" using e(2) b(4) csx by simp
    from realloc_in_place [OF e(1) [folded csx] this order_refl, of s]
    have "realloc_result c s (alloc_map s cs) x n z sz (GET_PTR x, add_allocated (ck_zone s x) d ?s)" by simp
    moreover have "(let (q, s) = extend_space c (sz - n) s
       in if q \<noteq> NULL then (GET_PTR x, add_allocated (ck_zone s x) d (s\<lparr>ck_size := (ck_size s)(x := sz)\<rparr>))
          else realloc_elsewhere c (GET_PTR x) x sz s) = (GET_PTR x, add_allocated (ck_zone s x) d ?s)"
      using True ne b(3) by (simp add: extend_space_def)
    ultimately show ?thesis by simp
  qed
qed

lemma realloc_split:
  assumes "conf_ok c" "heap_inv c s1 (as @ x # bs) fl NULL" "alloc_map s1 (as @ x # bs) = m(x \<mapsto> (k, z))"
    "heap_bytes s1 = heap_bytes s" "sz mod HEAPMEM_ALIGNMENT = 0" "sz \<le> k"
  shows "realloc_result c s m x n z sz (GET_PTR x, add_allocated w d (split_chunk c x sz s1))"
proof -
  have "alloc_map s1 (as @ x # bs) x = Some (k, z)" using assms(3) by simp
  note b = block_alive [OF this]
  from split_chunk_inv [OF assms(1,2) b(2), of sz] obtain bs' fl' where sp:
    "heap_inv c (split_chunk c x sz s1) (as @ x # bs') fl' NULL"
    "alloc_map (split_chunk c x sz s1) (as @ x # bs') =
      (alloc_map s1 (as @ x # bs))(x \<mapsto> (ck_size (split_chunk c x sz s1) x, ck_zone s1 x))"
    "ck_size (split_chunk c x sz s1) x = ck_size s1 x \<or> ck_size (split_chunk c x sz s1) x = ALIGN sz"
    "heap_bytes (split_chunk c x sz s1) = heap_bytes s1" by auto
  have "alloc_map (split_chunk c x sz s1) (as @ x # bs') = m(x \<mapsto> (ck_size (split_chunk c x sz s1) x, z))"
    unfolding sp(2) assms(3) b(4) by simp
  moreover have "sz \<le> ck_size (split_chunk c x sz s1) x" using sp(3) b(3) assms(6) ALIGN_same [OF assms(5)] by auto
  ultimately show ?thesis using realloc_in_place [OF sp(1)] sp(4) assms(4) by simp
qed

lemma realloc_coalesce:
  assumes "conf_ok c" "heap_inv c s cs fl NULL" "alloc_map s cs x = Some (n, z)" "n < sz" "sz mod HEAPMEM_ALIGNMENT = 0"
    "sz < 2 ^ 64"
  shows "realloc_result c s (alloc_map s cs) x n z sz
    (let s = coalesce_chunks c x s
     in if ck_size s x \<ge> sz then
          let s = split_chunk c x sz s in (GET_PTR x, add_allocated (ck_zone s x) d s)
        else realloc_elsewhere c (GET_PTR x) x sz s)"
proof -
  note b = block_alive [OF assms(3)]
  obtain as bs where cs: "cs = as @ x # bs" using split_list [OF b(1)] by blast
  let ?s = "coalesce_chunks c x s"
  from coalesce_inv [OF assms(1) assms(2) [unfolded cs]] obtain bs' fl' where co:
    "heap_inv c ?s (as @ x # bs') fl' NULL"
    "alloc_map ?s (as @ x # bs') = resized x (ck_size ?s x) (alloc_map s (as @ x # bs))"
    "ck_size s x \<le> ck_size ?s x" by blast
  have m: "alloc_map ?s (as @ x # bs') = (alloc_map s cs)(x \<mapsto> (ck_size ?s x, z))"
    unfolding co(2) cs [symmetric] using assms(3) by (simp add: resized_def)
  have hb: "heap_bytes ?s = heap_bytes s" using coalesce_frame [of c x s] by simp
  show ?thesis
  proof (cases "ck_size ?s x \<ge> sz")
    case True
    have "realloc_result c s (alloc_map s cs) x n z sz
        (GET_PTR x, add_allocated (ck_zone (split_chunk c x sz ?s) x) d (split_chunk c x sz ?s))"
      by (rule realloc_split [OF assms(1) co(1) m hb assms(5) True])
    with True show ?thesis by (simp add: Let_def)
  next
    case False
    have "realloc_result c s (alloc_map s cs) x n z sz (realloc_elsewhere c (GET_PTR x) x sz ?s)"
      by (rule realloc_moved [OF assms(1) co(1) m _ _ assms(6) hb]) (use b(3) co(3) False in auto)
    with False show ?thesis by (simp add: Let_def)
  qed
qed

text \<open>The whole operation, on a block that is there and a size that is not 0.\<close>

lemma heapmem_realloc_inv:
  assumes "conf_ok c" "heap_inv c s cs fl NULL" "alloc_map s cs x = Some (n, z)" "request \<noteq> 0"
  shows "realloc_result c s (alloc_map s cs) x n z (ALIGN (unat request)) (heapmem_realloc c (GET_PTR x) request s)"
proof -
  note b = block_alive [OF assms(3)]
  let ?sz = "ALIGN (unat request)" and ?adj = "int (ALIGN (unat request)) - int n"
  have here: "\<not> not_IN_HEAP c (GET_PTR x) s" by (rule block_in_heap [OF assms(2) b(1)])
  show ?thesis
  proof (cases "unat request > arena_size c")
    case True
    then have "heapmem_realloc c (GET_PTR x) request s = (NULL, s)" using here by (simp add: heapmem_realloc_def)
    moreover have "(alloc_map s cs)(x \<mapsto> (n, z)) = alloc_map s cs" using assms(3) by (simp add: fun_upd_idem)
    ultimately show ?thesis using assms(2) by (auto simp: realloc_result_def intro!: exI [of _ n])
  next
    case False
    then have lim: "?sz < 2 ^ 64"
      using ALIGN_16(3) [of "unat request"] assms(1) by (simp add: conf_ok_def HEAPMEM_ALIGNMENT_def)
    have live: "CHUNK_ALLOCATED s (GET_CHUNK (GET_PTR x))" using b(2) by simp
    have nat_adj: "nat (int ?sz - int n) = ?sz - n" by simp
    have nz: "GET_PTR x \<noteq> NULL" by simp
    consider (less) "?sz \<le> n" | (last) "n < ?sz" "IS_LAST_CHUNK c s x" | (more) "n < ?sz" "\<not> IS_LAST_CHUNK c s x"
      by linarith
    then show ?thesis
    proof cases
      case less
      obtain as bs where cs: "cs = as @ x # bs" using split_list [OF b(1)] by blast
      have "alloc_map s (as @ x # bs) = (alloc_map s cs)(x \<mapsto> (n, z))" using assms(3) cs by (simp add: fun_upd_idem)
      note r = realloc_split [OF assms(1) assms(2) [unfolded cs] this refl ALIGN_16(1) less]
      have "heapmem_realloc c (GET_PTR x) request s = (GET_PTR x,
          add_allocated (ck_zone (split_chunk c x ?sz s) x) (of_int ?adj) (split_chunk c x ?sz s))"
        using here nz live False assms(4) less b(3) by (simp add: heapmem_realloc_def Let_def)
      with r show ?thesis by simp
    next
      case last
      have "heapmem_realloc c (GET_PTR x) request s = (let (q, s) = extend_space c (?sz - n) s
         in if q \<noteq> NULL then (GET_PTR x, add_allocated (ck_zone s x) (of_int ?adj) (s\<lparr>ck_size := (ck_size s)(x := ?sz)\<rparr>))
            else realloc_elsewhere c (GET_PTR x) x ?sz s)"
        using here nz live False assms(4) last b(3) nat_adj by (simp add: heapmem_realloc_def Let_def)
      with realloc_last [OF assms(1-3) last(1) ALIGN_16(1) lim last(2), of "of_int ?adj"] show ?thesis by simp
    next
      case more
      have "heapmem_realloc c (GET_PTR x) request s = (let s = coalesce_chunks c x s
         in if ck_size s x \<ge> ?sz then
              let s = split_chunk c x ?sz s in (GET_PTR x, add_allocated (ck_zone s x) (of_int ?adj) s)
            else realloc_elsewhere c (GET_PTR x) x ?sz s)"
        using here nz live False assms(4) more b(3) by (simp add: heapmem_realloc_def Let_def)
      with realloc_coalesce [OF assms(1-3) more(1) ALIGN_16(1) lim, of "of_int ?adj"] show ?thesis by simp
    qed
  qed
qed

section \<open>The state alone\<close>

text \<open>The chunks, as a walk over the arena finds them.\<close>

function heap_chunks_from :: "hm_conf \<Rightarrow> heapmem \<Rightarrow> ptr \<Rightarrow> ptr list" where
  "heap_chunks_from c s x = (if x < heap_end c s then x # heap_chunks_from c s (NEXT_CHUNK s x) else [])"
  by pat_completeness auto
termination
  by (relation "measure (\<lambda>(c, s, x). heap_end c s - x)") (simp_all add: NEXT_CHUNK_def CHUNK_T_SIZE_def)

declare heap_chunks_from.simps [simp del]

definition heap_chunks :: "hm_conf \<Rightarrow> heapmem \<Rightarrow> ptr list" where
  "heap_chunks c s = heap_chunks_from c s (heap_base c)"

definition heap_blocks :: "hm_conf \<Rightarrow> heapmem \<Rightarrow> ptr \<Rightarrow> (nat \<times> u8) option" where
  "heap_blocks c s = alloc_map s (heap_chunks c s)"

definition heap_ok :: "hm_conf \<Rightarrow> heapmem \<Rightarrow> bool" where
  "heap_ok c s \<longleftrightarrow> (\<exists>fl. heap_inv c s (heap_chunks c s) fl NULL)"

lemma heap_chunks_from_tiles: "tiles (ck_size s) x xs (heap_end c s) \<Longrightarrow> heap_chunks_from c s x = xs"
proof (induction xs arbitrary: x)
  case Nil
  then show ?case by (subst heap_chunks_from.simps) simp
next
  case (Cons y ys)
  then have y: "x = y" "tiles (ck_size s) (NEXT_CHUNK s y) ys (heap_end c s)" by (simp_all add: NEXT_CHUNK_def)
  moreover have "y < heap_end c s"
    using tiles_le [OF y(2)] by (simp add: NEXT_CHUNK_def CHUNK_T_SIZE_def)
  ultimately show ?case using Cons.IH [OF y(2)] by (subst heap_chunks_from.simps) simp
qed

lemma heap_inv_chunks: "heap_inv c s cs fl t \<Longrightarrow> heap_chunks c s = cs"
  unfolding heap_chunks_def by (rule heap_chunks_from_tiles [OF heap_inv_tiles])

lemma heap_okI: "heap_inv c s cs fl NULL \<Longrightarrow> heap_ok c s" "heap_inv c s cs fl NULL \<Longrightarrow> heap_blocks c s = alloc_map s cs"
  using heap_inv_chunks by (fastforce simp: heap_ok_def, simp add: heap_blocks_def heap_inv_chunks)

lemma heap_okE:
  assumes "heap_ok c s"
  obtains cs fl where "heap_inv c s cs fl NULL" "heap_blocks c s = alloc_map s cs"
  using assms heap_okI(2) unfolding heap_ok_def by blast

text \<open>What the layout means to the callers.\<close>

definition blocks_apart :: "hm_conf \<Rightarrow> (ptr \<Rightarrow> (nat \<times> u8) option) \<Rightarrow> bool" where
  "blocks_apart c m \<longleftrightarrow>
     (\<forall>x n z. m x = Some (n, z) \<longrightarrow> GET_PTR x mod HEAPMEM_ALIGNMENT = 0 \<and>
        heap_base c \<le> x \<and> GET_PTR x + n \<le> heap_base c + arena_size c) \<and>
     (\<forall>x n z y k w. m x = Some (n, z) \<longrightarrow> m y = Some (k, w) \<longrightarrow> x \<noteq> y \<longrightarrow> GET_PTR x + n \<le> y \<or> GET_PTR y + k \<le> x)"

lemma heap_ok_apart:
  assumes "conf_ok c" "heap_ok c s"
  shows "blocks_apart c (heap_blocks c s)"
proof -
  from assms(2) obtain cs fl where i: "heap_inv c s cs fl NULL" "heap_blocks c s = alloc_map s cs" by (rule heap_okE)
  note t = heap_inv_tiles [OF i(1)]
  have e: "heap_end c s \<le> heap_base c + arena_size c" using i(1) by (simp add: heap_inv_def heap_end_def)
  have "GET_PTR x mod HEAPMEM_ALIGNMENT = 0 \<and> heap_base c \<le> x \<and> GET_PTR x + n \<le> heap_base c + arena_size c"
    if "alloc_map s cs x = Some (n, z)" for x n z
  proof -
    note b = block_alive [OF that]
    have "x mod HEAPMEM_ALIGNMENT = 0" using tiles_aligned [OF t _ b(1)] assms(1) by (simp add: conf_ok_def)
    then have "GET_PTR x mod HEAPMEM_ALIGNMENT = 0"
      unfolding GET_PTR_def HEAPMEM_ALIGNMENT_def CHUNK_T_SIZE_def by presburger
    with tiles_inside [OF t b(1)] e b(3) show ?thesis by (simp add: GET_PTR_def)
  qed
  moreover have "GET_PTR x + n \<le> y \<or> GET_PTR y + k \<le> x"
    if "alloc_map s cs x = Some (n, z)" "alloc_map s cs y = Some (k, w)" "x \<noteq> y" for x n z y k w
    using tiles_disjoint [OF t block_alive(1) [OF that(1)] block_alive(1) [OF that(2)] that(3)]
      block_alive(3) [OF that(1)] block_alive(3) [OF that(2)] by (simp add: GET_PTR_def)
  ultimately show ?thesis unfolding blocks_apart_def i(2) by blast
qed

lemma heap_ok_alloc:
  assumes "conf_ok c" "heap_ok c s"
  shows "case heapmem_zone_alloc c zn request s of (p, s') \<Rightarrow> heap_ok c s' \<and> heap_bytes s' = heap_bytes s \<and>
    (if p = NULL then heap_blocks c s' = heap_blocks c s \<and> zones s' = zones s
     else CHUNK_T_SIZE \<le> p \<and> heap_blocks c s (GET_CHUNK p) = None \<and>
       (\<exists>n\<ge>ALIGN (unat request). heap_blocks c s' = (heap_blocks c s)(GET_CHUNK p \<mapsto> (n, zn))) \<and>
       zones s' = zones (add_allocated zn (of_nat (CHUNK_T_SIZE + ALIGN (unat request))) s))"
proof -
  from assms(2) obtain cs fl where i: "heap_inv c s cs fl NULL" "heap_blocks c s = alloc_map s cs" by (rule heap_okE)
  obtain p s' where r: "heapmem_zone_alloc c zn request s = (p, s')" by (cases "heapmem_zone_alloc c zn request s")
  from heapmem_zone_alloc_inv [OF assms(1) i(1), where zn = zn and request = request, unfolded r prod.case]
  obtain cs' fl' where i': "heap_inv c s' cs' fl' NULL" "heap_bytes s' = heap_bytes s"
    "if p = NULL then alloc_map s' cs' = alloc_map s cs \<and> zones s' = zones s
      else CHUNK_T_SIZE \<le> p \<and> alloc_map s cs (GET_CHUNK p) = None \<and>
        (\<exists>n\<ge>ALIGN (unat request). alloc_map s' cs' = (alloc_map s cs)(GET_CHUNK p \<mapsto> (n, zn))) \<and>
        zones s' = zones (add_allocated zn (of_nat (CHUNK_T_SIZE + ALIGN (unat request))) s)" by blast
  show ?thesis unfolding r prod.case i(2) heap_okI(2) [OF i'(1)] using heap_okI(1) [OF i'(1)] i'(2,3) by blast
qed

lemma heap_ok_free:
  assumes "conf_ok c" "heap_ok c s" "heap_blocks c s x = Some (n, z)"
  shows "case heapmem_free c (GET_PTR x) s of (r, s') \<Rightarrow> r \<and> heap_ok c s' \<and> heap_bytes s' = heap_bytes s \<and>
    heap_blocks c s' = (heap_blocks c s)(x := None)"
proof -
  from assms(2) obtain cs fl where i: "heap_inv c s cs fl NULL" "heap_blocks c s = alloc_map s cs" by (rule heap_okE)
  obtain r s' where r: "heapmem_free c (GET_PTR x) s = (r, s')" by (cases "heapmem_free c (GET_PTR x) s")
  from heapmem_free_inv [OF assms(1) i(1) assms(3) [unfolded i(2)], unfolded r prod.case]
  obtain cs' fl' where i': "r" "heap_bytes s' = heap_bytes s" "heap_inv c s' cs' fl' NULL"
    "alloc_map s' cs' = (alloc_map s cs)(x := None)" by blast
  show ?thesis unfolding r prod.case i(2) heap_okI(2) [OF i'(3)] using heap_okI(1) [OF i'(3)] i'(1,2,4) by blast
qed

lemma heap_ok_realloc:
  assumes "conf_ok c" "heap_ok c s" "heap_blocks c s x = Some (n, z)" "request \<noteq> 0"
  shows "case heapmem_realloc c (GET_PTR x) request s of (q, s') \<Rightarrow> heap_ok c s' \<and>
    (if q = NULL then (\<exists>k\<ge>n. heap_blocks c s' = (heap_blocks c s)(x \<mapsto> (k, z))) \<and> heap_bytes s' = heap_bytes s
     else CHUNK_T_SIZE \<le> q \<and> (q = GET_PTR x \<or> heap_blocks c s (GET_CHUNK q) = None) \<and>
       (\<exists>k\<ge>ALIGN (unat request). heap_blocks c s' = (heap_blocks c s)(x := None, GET_CHUNK q \<mapsto> (k, z)) \<and>
         (\<forall>i<min n (ALIGN (unat request)). heap_bytes s' (q + i) = heap_bytes s (GET_PTR x + i)) \<and>
         (\<forall>a. a < q \<or> q + k \<le> a \<longrightarrow> heap_bytes s' a = heap_bytes s a)))"
proof -
  from assms(2) obtain cs fl where i: "heap_inv c s cs fl NULL" "heap_blocks c s = alloc_map s cs" by (rule heap_okE)
  obtain q s' where r: "heapmem_realloc c (GET_PTR x) request s = (q, s')" by (cases "heapmem_realloc c (GET_PTR x) request s")
  note inv = heapmem_realloc_inv [OF assms(1) i(1) assms(3) [unfolded i(2)] assms(4), unfolded r realloc_result_def prod.case]
  from inv obtain cs' fl' where i': "heap_inv c s' cs' fl' NULL"
    "if q = NULL then (\<exists>k\<ge>n. alloc_map s' cs' = (alloc_map s cs)(x \<mapsto> (k, z))) \<and> heap_bytes s' = heap_bytes s
      else CHUNK_T_SIZE \<le> q \<and> (q = GET_PTR x \<or> alloc_map s cs (GET_CHUNK q) = None) \<and>
        (\<exists>k\<ge>ALIGN (unat request). alloc_map s' cs' = (alloc_map s cs)(x := None, GET_CHUNK q \<mapsto> (k, z)) \<and>
          (\<forall>i<min n (ALIGN (unat request)). heap_bytes s' (q + i) = heap_bytes s (GET_PTR x + i)) \<and>
          (\<forall>a. a < q \<or> q + k \<le> a \<longrightarrow> heap_bytes s' a = heap_bytes s a))" by blast
  show ?thesis unfolding r prod.case i(2) heap_okI(2) [OF i'(1)] using heap_okI(1) [OF i'(1)] i'(2) by blast
qed

section \<open>Statistics\<close>

text \<open>The walk of the statistics merges free chunks as it goes; the sums it makes of the blocks are exact.\<close>

lemma heap_next_member:
  assumes "heap_inv c s cs fl t" "x \<in> set cs"
  shows "NEXT_CHUNK s x \<in> set cs \<or> NEXT_CHUNK s x = heap_end c s" "x < heap_end c s"
proof -
  obtain as bs where cs: "cs = as @ x # bs" using split_list [OF assms(2)] by blast
  note n = NEXT_CHUNK_end [OF assms(1) [unfolded cs]]
  show "NEXT_CHUNK s x \<in> set cs \<or> NEXT_CHUNK s x = heap_end c s"
    using n(1,2) by (cases bs) (auto simp: cs)
  show "x < heap_end c s" using n(3) by (simp add: NEXT_CHUNK_def CHUNK_T_SIZE_def)
qed

definition blocks_from :: "(ptr \<Rightarrow> (nat \<times> u8) option) \<Rightarrow> ptr \<Rightarrow> ptr set" where
  "blocks_from m x = {y \<in> dom m. x \<le> y}"

lemma blocks_from_next:
  assumes "heap_inv c s cs fl t" "x \<in> set cs"
  shows "blocks_from (alloc_map s cs) x =
    (if CHUNK_ALLOCATED s x then {x} else {}) \<union> blocks_from (alloc_map s cs) (NEXT_CHUNK s x)"
    "x \<notin> blocks_from m (NEXT_CHUNK s x)" "finite (blocks_from (alloc_map s cs) x)"
proof -
  have "x \<le> y \<longleftrightarrow> y = x \<or> NEXT_CHUNK s x \<le> y" if "y \<in> set cs" for y
    using tiles_disjoint [OF heap_inv_tiles [OF assms(1)] assms(2) that]
    by (cases "y = x") (auto simp: NEXT_CHUNK_def CHUNK_T_SIZE_def)
  then show "blocks_from (alloc_map s cs) x =
      (if CHUNK_ALLOCATED s x then {x} else {}) \<union> blocks_from (alloc_map s cs) (NEXT_CHUNK s x)"
    using assms(2) by (auto simp: blocks_from_def alloc_map_def dom_def)
  show "x \<notin> blocks_from m (NEXT_CHUNK s x)" by (simp add: blocks_from_def NEXT_CHUNK_def CHUNK_T_SIZE_def)
  have "blocks_from (alloc_map s cs) x \<subseteq> set cs" by (auto simp: blocks_from_def alloc_map_def split: if_splits)
  then show "finite (blocks_from (alloc_map s cs) x)" by (rule finite_subset) simp
qed

lemma stats_from_inv:
  assumes "conf_ok c" "heap_inv c s cs fl NULL" "x \<in> set cs \<or> x = heap_end c s" "alloc_map s cs = m"
  shows "case stats_from c x st s of (st', s') \<Rightarrow>
    st_allocated st' = st_allocated st + (\<Sum>y\<in>blocks_from m x. fst (the (m y))) \<and>
    st_overhead st' = st_overhead st + CHUNK_T_SIZE * card (blocks_from m x) \<and>
    (\<exists>cs' fl'. heap_inv c s' cs' fl' NULL \<and> alloc_map s' cs' = m) \<and> heap_usage s' = heap_usage s"
  using assms
proof (induction c x st s arbitrary: cs fl rule: stats_from.induct)
  case (1 c x st s)
  show ?case
  proof (cases "x < heap_end c s")
    case False
    have "stats_from c x st s = (st, s)" unfolding stats_from.simps [of c x st s] by (rule if_not_P [OF False])
    moreover have "blocks_from m x = {}"
      using False heap_next_member(2) [OF "1.prems"(2)] "1.prems"(4)
      by (fastforce simp: blocks_from_def alloc_map_def dom_def split: if_splits)
    ultimately show ?thesis using "1.prems" by auto
  next
    case True
    with "1.prems"(3) have x: "x \<in> set cs" by simp
    note b = blocks_from_next [OF "1.prems"(2) x]
    show ?thesis
    proof (cases "CHUNK_ALLOCATED s x")
      case al: True
      let ?st = "st\<lparr>st_allocated := st_allocated st + ck_size s x, st_overhead := st_overhead st + CHUNK_T_SIZE\<rparr>"
      have step: "stats_from c x st s = stats_from c (NEXT_CHUNK s x) ?st s"
        using True al by (subst stats_from.simps) simp
      have m: "m x = Some (ck_size s x, ck_zone s x)" using x al "1.prems"(4) by (auto simp: alloc_map_def)
      have bs: "blocks_from m x = insert x (blocks_from m (NEXT_CHUNK s x))" "finite (blocks_from m (NEXT_CHUNK s x))"
        using b(1,3) al "1.prems"(4) by auto
      note ih = "1.IH"(1) [OF True al "1.prems"(1,2) heap_next_member(1) [OF "1.prems"(2) x] "1.prems"(4)]
      show ?thesis unfolding step using ih bs b(2) [of m] m by (auto split: prod.splits)
    next
      case free: False
      let ?s = "coalesce_chunks c x s"
      have step: "stats_from c x st s = stats_from c (NEXT_CHUNK ?s x) (st\<lparr>st_available := st_available st + ck_size ?s x\<rparr>) ?s"
        using True free by (subst stats_from.simps) (simp add: Let_def)
      have xf: "x \<in> set fl"
        using heap_inv_free_set [OF "1.prems"(2)] x free heap_inv_not_NULL [OF "1.prems"(1,2)] by (auto intro!: gr0I)
      from coalesce_free [OF "1.prems"(1,2) xf] obtain cs1 fl1 where co: "heap_inv c ?s cs1 fl1 NULL" "x \<in> set fl1"
        "alloc_map ?s cs1 = m" using "1.prems"(4) by auto
      have x1: "x \<in> set cs1" "\<not> CHUNK_ALLOCATED ?s x" using heap_inv_free_set [OF co(1)] co(2) by simp_all
      have u: "heap_usage ?s = heap_usage s" using coalesce_frame [of c x s] by simp
      have bs: "blocks_from m x = blocks_from m (NEXT_CHUNK ?s x)"
        using blocks_from_next(1) [OF co(1) x1(1)] x1(2) co(3) by simp
      note ih = "1.IH"(2) [OF True free refl "1.prems"(1) co(1) heap_next_member(1) [OF co(1) x1(1)] co(3)]
      show ?thesis unfolding step bs using ih u by (auto split: prod.splits)
    qed
  qed
qed

text \<open>The report counts the blocks there are, with their sizes, and the callers' blocks stay as they are.\<close>

lemma heap_ok_stats:
  assumes "conf_ok c" "heap_ok c s"
  shows "case heapmem_get_stats c s of (st, s') \<Rightarrow> heap_ok c s' \<and> heap_blocks c s' = heap_blocks c s \<and>
    st_allocated st = (\<Sum>x\<in>dom (heap_blocks c s). fst (the (heap_blocks c s x))) \<and>
    st_chunks st = card (dom (heap_blocks c s)) \<and> st_footprint st = heap_usage s"
proof -
  from assms(2) obtain cs fl where i: "heap_inv c s cs fl NULL" "heap_blocks c s = alloc_map s cs" by (rule heap_okE)
  have "heap_base c \<in> set cs \<or> heap_base c = heap_end c s" using heap_inv_tiles [OF i(1)] by (cases cs) auto
  note st = stats_from_inv [OF assms(1) i(1) this refl]
  have "blocks_from (alloc_map s cs) (heap_base c) = dom (alloc_map s cs)"
    using tiles_inside [OF heap_inv_tiles [OF i(1)]] by (auto simp: blocks_from_def alloc_map_def split: if_splits)
  with st [of "\<lparr>st_allocated = 0, st_overhead = 0, st_available = 0, st_footprint = 0, st_chunks = 0\<rparr>"]
  show ?thesis unfolding heapmem_get_stats_def i(2)
    by (auto simp: Let_def heap_okI split: prod.splits)
qed

section \<open>Sequences of calls\<close>

text \<open>Registering a zone only moves budget between the zones.\<close>

lemma zones_as_they_are: "\<exists>zs. s = s\<lparr>zones := zs\<rparr>"
  by (rule exI [of _ "zones s"]) simp

lemma register_from_frame:
  "\<exists>zs. snd (register_from todo i name zsize s) = s\<lparr>zones := zs\<rparr>"
  by (induction todo arbitrary: i) (auto simp: Let_def zones_as_they_are split: option.split)

lemma zone_register_frame: "\<exists>zs. snd (heapmem_zone_register name zsize s) = s\<lparr>zones := zs\<rparr>"
  using register_from_frame by (auto simp: heapmem_zone_register_def zones_as_they_are split: option.split)

lemma heap_ok_zones: "heap_ok c (s\<lparr>zones := zs\<rparr>) = heap_ok c s" "heap_blocks c (s\<lparr>zones := zs\<rparr>) = heap_blocks c s"
proof -
  have i: "heap_inv c (s\<lparr>zones := zs\<rparr>) cs fl t = heap_inv c s cs fl t" for cs fl t
    by (rule heap_inv_cong) (simp_all add: free_links_def)
  have "heap_chunks_from c (s\<lparr>zones := zs\<rparr>) x = heap_chunks_from c s x" for x
  proof (induction c s x rule: heap_chunks_from.induct)
    case (1 c s x)
    then show ?case
      unfolding heap_chunks_from.simps [of c "s\<lparr>zones := zs\<rparr>" x] heap_chunks_from.simps [of c s x]
      by (simp add: heap_end_def NEXT_CHUNK_def)
  qed
  then have ch: "heap_chunks c (s\<lparr>zones := zs\<rparr>) = heap_chunks c s" by (simp add: heap_chunks_def)
  show "heap_ok c (s\<lparr>zones := zs\<rparr>) = heap_ok c s" by (simp add: heap_ok_def ch i)
  show "heap_blocks c (s\<lparr>zones := zs\<rparr>) = heap_blocks c s"
    by (simp add: heap_blocks_def ch fun_eq_iff alloc_map_def CHUNK_ALLOCATED_def)
qed

datatype heap_call =
  Zone_register "string option" u64 | Zone_alloc u8 u64 | Heap_free ptr | Heap_realloc ptr u64 | Heap_stats

definition heap_do :: "hm_conf \<Rightarrow> heap_call \<Rightarrow> heapmem \<Rightarrow> heapmem" where
  "heap_do c k s = (case k of
     Zone_register name zsize \<Rightarrow> snd (heapmem_zone_register name zsize s)
   | Zone_alloc zn request \<Rightarrow> snd (heapmem_zone_alloc c zn request s)
   | Heap_free p \<Rightarrow> snd (heapmem_free c p s)
   | Heap_realloc p request \<Rightarrow> snd (heapmem_realloc c p request s)
   | Heap_stats \<Rightarrow> snd (heapmem_get_stats c s))"

text \<open>A pointer given back must be one the callers hold, or NULL.\<close>

definition held :: "hm_conf \<Rightarrow> heapmem \<Rightarrow> ptr \<Rightarrow> bool" where
  "held c s p \<longleftrightarrow> p = NULL \<or> (CHUNK_T_SIZE \<le> p \<and> heap_blocks c s (GET_CHUNK p) \<noteq> None)"

definition call_allowed :: "hm_conf \<Rightarrow> heap_call \<Rightarrow> heapmem \<Rightarrow> bool" where
  "call_allowed c k s = (case k of Heap_free p \<Rightarrow> held c s p | Heap_realloc p request \<Rightarrow> held c s p | _ \<Rightarrow> True)"

fun heap_run :: "hm_conf \<Rightarrow> heap_call list \<Rightarrow> heapmem \<Rightarrow> heapmem" where
  "heap_run c [] s = s"
| "heap_run c (k # ks) s = heap_run c ks (heap_do c k s)"

fun run_allowed :: "hm_conf \<Rightarrow> heap_call list \<Rightarrow> heapmem \<Rightarrow> bool" where
  "run_allowed c [] s = True"
| "run_allowed c (k # ks) s = (call_allowed c k s \<and> run_allowed c ks (heap_do c k s))"

lemma heldE:
  assumes "held c s p" "p \<noteq> NULL"
  obtains x n z where "p = GET_PTR x" "heap_blocks c s x = Some (n, z)"
proof
  show "p = GET_PTR (GET_CHUNK p)" using assms by (simp add: held_def GET_PTR_def GET_CHUNK_def)
  show "heap_blocks c s (GET_CHUNK p) =
      Some (fst (the (heap_blocks c s (GET_CHUNK p))), snd (the (heap_blocks c s (GET_CHUNK p))))"
    using assms by (auto simp: held_def)
qed

lemma null_calls:
  assumes "conf_ok c"
  shows "heapmem_free c NULL s = (False, s)" "heapmem_realloc c NULL request s = heapmem_alloc c request s"
proof -
  have "not_IN_HEAP c NULL s" using assms by (simp add: not_IN_HEAP_def conf_ok_def)
  then show "heapmem_free c NULL s = (False, s)" by (simp add: heapmem_free_def)
  show "heapmem_realloc c NULL request s = heapmem_alloc c request s"
    by (simp add: heapmem_realloc_def heapmem_alloc_def heapmem_zone_alloc_def)
qed

lemma heap_ok_realloc_any:
  assumes "conf_ok c" "heap_ok c s" "held c s p"
  shows "heap_ok c (snd (heapmem_realloc c p request s))"
proof (cases "p = NULL")
  case True
  then show ?thesis
    using heap_ok_alloc [OF assms(1,2), where zn = 0 and request = request] null_calls(2) [OF assms(1), of request s]
    by (simp add: heapmem_alloc_def split: prod.splits)
next
  case False
  then obtain x n z where x: "p = GET_PTR x" "heap_blocks c s x = Some (n, z)" by (rule heldE [OF assms(3)])
  show ?thesis
  proof (cases "request = 0")
    case True
    from assms(2) obtain cs fl where i: "heap_inv c s cs fl NULL" "heap_blocks c s = alloc_map s cs" by (rule heap_okE)
    have "\<not> not_IN_HEAP c p s" unfolding x(1)
      by (rule block_in_heap [OF i(1) block_alive(1)]) (use x(2) i(2) in simp)
    then have "heapmem_realloc c p request s = (NULL, snd (heapmem_free c p s))"
      using False True by (simp add: heapmem_realloc_def)
    then show ?thesis using heap_ok_free [OF assms(1,2) x(2)] x(1) by (simp split: prod.splits)
  next
    case False
    then show ?thesis using heap_ok_realloc [OF assms(1,2) x(2) False] x(1) by (simp split: prod.splits)
  qed
qed

lemma heap_do_ok:
  assumes "conf_ok c" "heap_ok c s" "call_allowed c k s"
  shows "heap_ok c (heap_do c k s)"
proof (cases k)
  case (Zone_register name zsize)
  obtain zs where "snd (heapmem_zone_register name zsize s) = s\<lparr>zones := zs\<rparr>" using zone_register_frame by blast
  then show ?thesis using Zone_register assms(2) by (simp add: heap_do_def heap_ok_zones)
next
  case (Zone_alloc zn request)
  then show ?thesis
    using heap_ok_alloc [OF assms(1,2), where zn = zn and request = request] by (simp add: heap_do_def split: prod.splits)
next
  case (Heap_free p)
  then have h: "held c s p" using assms(3) by (simp add: call_allowed_def)
  show ?thesis
  proof (cases "p = NULL")
    case True
    then show ?thesis using Heap_free assms null_calls(1) by (simp add: heap_do_def)
  next
    case False
    then obtain x n z where x: "p = GET_PTR x" "heap_blocks c s x = Some (n, z)" by (rule heldE [OF h])
    then show ?thesis using heap_ok_free [OF assms(1,2) x(2)] Heap_free by (simp add: heap_do_def split: prod.splits)
  qed
next
  case (Heap_realloc p request)
  then show ?thesis using heap_ok_realloc_any [OF assms(1,2)] assms(3) by (simp add: heap_do_def call_allowed_def)
next
  case Heap_stats
  then show ?thesis using heap_ok_stats [OF assms(1,2)] by (simp add: heap_do_def split: prod.splits)
qed

lemma heap_run_ok:
  "conf_ok c \<Longrightarrow> heap_ok c s \<Longrightarrow> run_allowed c ks s \<Longrightarrow> heap_ok c (heap_run c ks s)"
  by (induction ks arbitrary: s) (simp_all add: heap_do_ok)

text \<open>At boot nothing is in use and only the general zone has a name.\<close>

definition heapmem_boot :: "hm_conf \<Rightarrow> nat \<Rightarrow> heapmem" where
  "heapmem_boot c max_zones = \<lparr>ck_prev = (\<lambda>_. NULL), ck_next = (\<lambda>_. NULL), ck_size = (\<lambda>_. 0), ck_flags = (\<lambda>_. 0),
     ck_zone = (\<lambda>_. 0), heap_usage = 0, free_list = NULL,
     zones = \<lparr>zone_name = Some ''GENERAL'', zone_size = of_nat (arena_size c), zone_allocated = 0\<rparr> #
       replicate (max_zones - 1) \<lparr>zone_name = None, zone_size = 0, zone_allocated = 0\<rparr>,
     heap_bytes = (\<lambda>_. 0)\<rparr>"

lemma heapmem_boot_ok: "heap_ok c (heapmem_boot c k)" "heap_blocks c (heapmem_boot c k) = Map.empty"
proof -
  have i: "heap_inv c (heapmem_boot c k) [] [] NULL"
    by (simp add: heap_inv_def heapmem_boot_def heap_end_def dll_repr_def free_links_def)
  show "heap_ok c (heapmem_boot c k)" by (rule heap_okI(1) [OF i])
  show "heap_blocks c (heapmem_boot c k) = Map.empty" using heap_okI(2) [OF i] by (simp add: alloc_map_def fun_eq_iff)
qed

text \<open>An allocation within the zone's budget succeeds while the rest of the arena has room.\<close>

lemma heapmem_zone_alloc_succeeds:
  assumes "conf_ok c" "zone_admits c zn request s" "CHUNK_T_SIZE + ALIGN (unat request) \<le> arena_size c - heap_usage s"
  shows "fst (heapmem_zone_alloc c zn request s) \<noteq> NULL"
proof -
  let ?sz = "ALIGN (unat request)"
  obtain x s1 where g: "get_free_chunk c ?sz s = (x, s1)" by (cases "get_free_chunk c ?sz s")
  have "x = NULL \<Longrightarrow> heap_usage s1 = heap_usage s"
    using g defrag_from_frame by (auto simp: get_free_chunk_def defrag_chunks_def Let_def split: if_splits)
  then have "fst (obtain_chunk c ?sz s) \<noteq> NULL"
    using assms(1,3) by (auto simp: obtain_chunk_def g extend_space_def conf_ok_def)
  then show ?thesis
    unfolding heapmem_zone_alloc_steps by (simp add: assms(2) GET_PTR_def split: prod.splits) (auto simp: CHUNK_T_SIZE_def)
qed

text \<open>A block that is large enough already stays where it is.\<close>

lemma heapmem_realloc_stays:
  assumes "conf_ok c" "heap_ok c s" "heap_blocks c s x = Some (n, z)" "request \<noteq> 0" "ALIGN (unat request) \<le> n"
  shows "fst (heapmem_realloc c (GET_PTR x) request s) = GET_PTR x"
proof -
  from assms(2) obtain cs fl where i: "heap_inv c s cs fl NULL" "heap_blocks c s = alloc_map s cs" by (rule heap_okE)
  note b = block_alive [OF assms(3) [unfolded i(2)]]
  have "heap_usage s \<le> arena_size c" using i(1) by (simp add: heap_inv_def)
  then have "n \<le> arena_size c"
    using tiles_inside [OF heap_inv_tiles [OF i(1)] b(1)] b(3) by (simp add: heap_end_def)
  with assms(5) ALIGN_16(2) [of "unat request"] have "\<not> arena_size c < unat request" by simp
  with block_in_heap [OF i(1) b(1)] b assms(4,5) show ?thesis by (simp add: heapmem_realloc_def Let_def)
qed

end
