(* ===== verification/Contiki_Nbr_Table.thy ===== *)
theory Contiki_Nbr_Table imports Contiki_Memb Contiki_List Contiki_Packetbuf "HOL-Library.Signed_Division" begin

text \<open>
  The neighbor tables, \<open>os/net/nbr-table.c\<close>: up to eight tables of the system share one set of keys, a pool
  and a list of link-layer addresses, at most \<open>NBR_TABLE_MAX_NEIGHBORS\<close> of them. A neighbor has the same
  index in every table; two bitmaps say for each neighbor which tables use it and which lock it.

  Tables, keys and items are addresses; \<open>tables\<close> maps the address of a \<open>struct nbr_table\<close> to its fields. What
  the build may replace (the policy functions, where None is not returning) and what belongs to the clients (the callbacks, which may
  change the state) is in \<open>nbr_conf\<close>. Walks over the list of keys are those of \<open>Contiki_List\<close>.
\<close>

record nbr_table =
  tb_index :: int
  tb_item_size :: int
  tb_callback :: ptr
  tb_data :: ptr

record 'c nbr_state =
  used_map :: "u8 list"
  locked_map :: "u8 list"
  all_tables :: "ptr list"
  num_tables :: u32
  tables :: "ptr \<Rightarrow> nbr_table"
  neighbor_addr_mem :: memb
  nbr_table_keys :: list_state
  key_lladdr :: "ptr \<Rightarrow> linkaddr"
  item_bytes :: "ptr \<Rightarrow> u8"
  nbr_client :: 'c

record 'c nbr_conf =
  gc_get_worst :: "'c nbr_state \<Rightarrow> linkaddr \<Rightarrow> linkaddr \<Rightarrow> linkaddr option"
  can_accept_new :: "'c nbr_state \<Rightarrow> linkaddr \<Rightarrow> linkaddr option \<Rightarrow> nat \<Rightarrow> ptr \<Rightarrow> bool"
  run_callback :: "ptr \<Rightarrow> ptr \<Rightarrow> 'c nbr_state \<Rightarrow> 'c nbr_state"

definition MAX_NUM_TABLES :: nat where "MAX_NUM_TABLES = 8"

section \<open>Indices\<close>

definition key_from_index :: "'c nbr_state \<Rightarrow> int \<Rightarrow> ptr" where
  "key_from_index s index =
     (if index \<noteq> - 1 then nat (int (mbase (neighbor_addr_mem s)) + index * int (msize (neighbor_addr_mem s))) else NULL)"

definition item_from_index :: "'c nbr_state \<Rightarrow> ptr \<Rightarrow> int \<Rightarrow> ptr" where
  "item_from_index s table index =
     (if table \<noteq> NULL \<and> index \<noteq> - 1
      then nat (int (tb_data (tables s table)) + index * tb_item_size (tables s table)) else NULL)"

text \<open>A difference of pointers to keys is one of addresses, divided by the size of a key.\<close>

definition index_from_key :: "'c nbr_state \<Rightarrow> ptr \<Rightarrow> int" where
  "index_from_key s key =
     (if key \<noteq> NULL then (int key - int (mbase (neighbor_addr_mem s))) sdiv int (msize (neighbor_addr_mem s)) else - 1)"

definition index_from_item :: "'c nbr_state \<Rightarrow> ptr \<Rightarrow> ptr \<Rightarrow> int" where
  "index_from_item s table item =
     (if table \<noteq> NULL \<and> item \<noteq> NULL
      then (int item - int (tb_data (tables s table))) sdiv tb_item_size (tables s table) else - 1)"

definition item_from_key :: "'c nbr_state \<Rightarrow> ptr \<Rightarrow> ptr \<Rightarrow> ptr" where
  "item_from_key s table key = item_from_index s table (index_from_key s key)"

definition key_from_item :: "'c nbr_state \<Rightarrow> ptr \<Rightarrow> ptr \<Rightarrow> ptr" where
  "key_from_item s table item = key_from_index s (index_from_item s table item)"

partial_function (option) find_lladdr :: "'c nbr_state \<Rightarrow> linkaddr \<Rightarrow> ptr \<Rightarrow> int option" where
  "find_lladdr s lladdr key =
     (if key \<noteq> NULL then
        if linkaddr_cmp lladdr (key_lladdr s key) then Some (index_from_key s key)
        else find_lladdr s lladdr (list_item_next (nbr_table_keys s) key)
      else Some (- 1))"

text \<open>An address pointer may be NULL, which stands for the null address.\<close>

definition index_from_lladdr :: "'c nbr_state \<Rightarrow> linkaddr option \<Rightarrow> int option" where
  "index_from_lladdr s lladdr =
     find_lladdr s (case lladdr of None \<Rightarrow> linkaddr_null | Some a \<Rightarrow> a) (list_head (nbr_table_keys s))"

section \<open>The bitmaps\<close>

definition table_bit :: "'c nbr_state \<Rightarrow> ptr \<Rightarrow> u8" where
  "table_bit s table = push_bit (nat (tb_index (tables s table))) 1"

definition nbr_get_bit :: "'c nbr_state \<Rightarrow> u8 list \<Rightarrow> ptr \<Rightarrow> ptr \<Rightarrow> bool" where
  "nbr_get_bit s bitmap table item =
     (let item_index = index_from_item s table item
      in if table \<noteq> NULL \<and> item_index \<noteq> - 1 then bitmap ! nat item_index AND table_bit s table \<noteq> 0 else False)"

definition nbr_set_bit :: "'c nbr_state \<Rightarrow> u8 list \<Rightarrow> ptr \<Rightarrow> ptr \<Rightarrow> bool \<Rightarrow> bool \<times> u8 list" where
  "nbr_set_bit s bitmap table item value =
     (let item_index = index_from_item s table item
      in if table \<noteq> NULL \<and> item_index \<noteq> - 1 then
           (True, bitmap[nat item_index := if value then bitmap ! nat item_index OR table_bit s table
                                           else bitmap ! nat item_index AND NOT (table_bit s table)])
         else (False, bitmap))"

section \<open>Removing keys\<close>

text \<open>\<open>is\<close> are the indices of tables that remain.\<close>

fun notify_tables :: "'c nbr_conf \<Rightarrow> ptr \<Rightarrow> nat list \<Rightarrow> 'c nbr_state \<Rightarrow> 'c nbr_state" where
  "notify_tables cf key [] s = s"
| "notify_tables cf key (i # is) s =
     (let table = all_tables s ! i in
      notify_tables cf key is
        (if table \<noteq> NULL \<and> tb_callback (tables s table) \<noteq> NULL then
           let removed_item = item_from_key s table key
           in if nbr_get_bit s (used_map s) table removed_item
              then run_callback cf (tb_callback (tables s table)) removed_item s else s
         else s))"

definition remove_key :: "'c nbr_conf \<Rightarrow> ptr \<Rightarrow> bool \<Rightarrow> 'c nbr_state \<Rightarrow> 'c nbr_state option" where
  "remove_key cf key do_free s =
     (let s = notify_tables cf key [0..<MAX_NUM_TABLES] s;
          s = s\<lparr>used_map := (used_map s)[nat (index_from_key s key) := 0]\<rparr>;
          s = s\<lparr>locked_map := (locked_map s)[nat (index_from_key s key) := 0]\<rparr>
      in Option.bind (list_remove key (nbr_table_keys s)) (\<lambda>l.
         let s = s\<lparr>nbr_table_keys := l\<rparr>
         in Some (if do_free then s\<lparr>neighbor_addr_mem := snd (memb_free (neighbor_addr_mem s) key)\<rparr> else s)))"

definition nbr_table_count_entries :: "'c nbr_state \<Rightarrow> nat" where
  "nbr_table_count_entries s =
     length (filter (\<lambda>i. used_map s ! i > 0) [0..<mnum (neighbor_addr_mem s)])"

text \<open>The loop shifts the byte to the right until nothing is left.\<close>

function count_bits :: "u8 \<Rightarrow> nat" where
  "count_bits used = (if used \<noteq> 0 then (if used AND 1 = 1 then 1 else 0) + count_bits (drop_bit 1 used) else 0)"
  by pat_completeness auto
termination
proof (relation "measure unat", goal_cases)
  case (2 used)
  then have "unat used \<noteq> 0" by (simp add: unat_0_iff)
  then show ?case by (simp add: drop_bit_Suc unat_div)
qed simp

declare count_bits.simps [simp del]

definition used_count :: "'c nbr_state \<Rightarrow> linkaddr \<Rightarrow> nat option" where
  "used_count s lladdr = map_option
     (\<lambda>item_index. if item_index \<noteq> - 1 then count_bits (used_map s ! nat item_index) else 0)
     (index_from_lladdr s (Some lladdr))"

text \<open>The policy of the default build.\<close>

definition nbr_table_gc_get_worst :: "'c nbr_state \<Rightarrow> linkaddr \<Rightarrow> linkaddr \<Rightarrow> linkaddr option" where
  "nbr_table_gc_get_worst s lladdr1 lladdr2 =
     Option.bind (used_count s lladdr2) (\<lambda>n2. Option.bind (used_count s lladdr1) (\<lambda>n1.
       Some (if n2 < n1 then lladdr2 else lladdr1)))"

definition nbr_table_can_accept_new :: "'c nbr_state \<Rightarrow> linkaddr \<Rightarrow> linkaddr option \<Rightarrow> nat \<Rightarrow> ptr \<Rightarrow> bool" where
  "nbr_table_can_accept_new s new candidate reason data = True"

section \<open>Making room\<close>

partial_function (option) worst_unlocked ::
  "'c nbr_conf \<Rightarrow> 'c nbr_state \<Rightarrow> ptr \<Rightarrow> linkaddr option \<Rightarrow> linkaddr option option" where
  "worst_unlocked cf s k worst =
     (if k \<noteq> NULL then
        let item_index = index_from_key s k in
        if locked_map s ! nat item_index = 0 then
          case worst of
            None \<Rightarrow> worst_unlocked cf s (list_item_next (nbr_table_keys s) k) (Some (key_lladdr s k))
          | Some w \<Rightarrow> Option.bind (gc_get_worst cf s w (key_lladdr s k)) (\<lambda>w.
              worst_unlocked cf s (list_item_next (nbr_table_keys s) k) (Some w))
        else worst_unlocked cf s (list_item_next (nbr_table_keys s) k) worst
      else Some worst)"

definition select_for_removal ::
  "'c nbr_conf \<Rightarrow> 'c nbr_state \<Rightarrow> linkaddr \<Rightarrow> nat \<Rightarrow> ptr \<Rightarrow> linkaddr option option" where
  "select_for_removal cf s new reason data =
     map_option (\<lambda>worst. if worst \<noteq> None \<and> can_accept_new cf s new worst reason data then worst else None)
       (worst_unlocked cf s (list_head (nbr_table_keys s)) None)"

definition nbr_table_get_from_lladdr :: "'c nbr_state \<Rightarrow> ptr \<Rightarrow> linkaddr option \<Rightarrow> ptr option" where
  "nbr_table_get_from_lladdr s table lladdr =
     map_option (\<lambda>index. let item = item_from_index s table index
                         in if nbr_get_bit s (used_map s) table item then item else NULL)
       (index_from_lladdr s lladdr)"

text \<open>The second component is \<open>to_be_removed\<close>.\<close>

definition entry_is_allowed ::
  "'c nbr_conf \<Rightarrow> 'c nbr_state \<Rightarrow> ptr \<Rightarrow> linkaddr \<Rightarrow> nat \<Rightarrow> ptr \<Rightarrow> (bool \<times> linkaddr option) option" where
  "entry_is_allowed cf s table lladdr reason data =
     Option.bind (nbr_table_get_from_lladdr s table (Some lladdr)) (\<lambda>item.
       if item \<noteq> NULL then Some (True, None)
       else Option.bind (index_from_lladdr s (Some lladdr)) (\<lambda>index.
         if index \<noteq> - 1 \<or> memb_numfree (neighbor_addr_mem s) > 0
         then Some (can_accept_new cf s lladdr None reason data, None)
         else map_option (\<lambda>worst. (worst \<noteq> None, worst)) (select_for_removal cf s lladdr reason data)))"

definition nbr_table_entry_is_allowed ::
  "'c nbr_conf \<Rightarrow> 'c nbr_state \<Rightarrow> ptr \<Rightarrow> linkaddr \<Rightarrow> nat \<Rightarrow> ptr \<Rightarrow> bool option" where
  "nbr_table_entry_is_allowed cf s table lladdr reason data =
     map_option fst (entry_is_allowed cf s table lladdr reason data)"

definition nbr_table_allocate ::
  "'c nbr_conf \<Rightarrow> linkaddr option \<Rightarrow> 'c nbr_state \<Rightarrow> (ptr \<times> 'c nbr_state) option" where
  "nbr_table_allocate cf to_be_removed_lladdr s =
     (let (new, m) = memb_alloc (neighbor_addr_mem s); s = s\<lparr>neighbor_addr_mem := m\<rparr> in
      if new \<noteq> NULL then Some (new, s)
      else case to_be_removed_lladdr of
        None \<Rightarrow> Some (NULL, s)
      | Some victim \<Rightarrow> Option.bind (index_from_lladdr s (Some victim)) (\<lambda>index.
          let to_be_removed = key_from_index s index in
          if to_be_removed = NULL then Some (NULL, s)
          else map_option (\<lambda>s. (to_be_removed, s)) (remove_key cf to_be_removed False s)))"

section \<open>Tables\<close>

definition nbr_table_is_registered :: "'c nbr_state \<Rightarrow> ptr \<Rightarrow> bool" where
  "nbr_table_is_registered s table \<longleftrightarrow> table \<noteq> NULL \<and> tb_index (tables s table) \<ge> 0 \<and>
     tb_index (tables s table) < int MAX_NUM_TABLES \<and> all_tables s ! nat (tb_index (tables s table)) = table"

definition nbr_table_register :: "ptr \<Rightarrow> ptr \<Rightarrow> 'c nbr_state \<Rightarrow> bool \<times> 'c nbr_state" where
  "nbr_table_register table callback s =
     (if nbr_table_is_registered s table then
        (True, s\<lparr>tables := (tables s)(table := (tables s table)\<lparr>tb_callback := callback\<rparr>)\<rparr>)
      else if num_tables s < of_nat MAX_NUM_TABLES then
        let s = s\<lparr>tables := (tables s)(table := (tables s table)\<lparr>tb_index := uint (num_tables s)\<rparr>)\<rparr>;
            s = s\<lparr>num_tables := num_tables s + 1\<rparr>;
            s = s\<lparr>tables := (tables s)(table := (tables s table)\<lparr>tb_callback := callback\<rparr>)\<rparr>
        in (True, s\<lparr>all_tables := (all_tables s)[nat (tb_index (tables s table)) := table]\<rparr>)
      else (False, s))"

partial_function (option) nbr_table_next :: "'c nbr_state \<Rightarrow> ptr \<Rightarrow> ptr \<Rightarrow> ptr option" where
  "nbr_table_next s table item =
     (let key = list_item_next (nbr_table_keys s) (key_from_item s table item);
          item = item_from_key s table key
      in if item \<noteq> NULL \<and> \<not> nbr_get_bit s (used_map s) table item then nbr_table_next s table item else Some item)"

definition nbr_table_head :: "'c nbr_state \<Rightarrow> ptr \<Rightarrow> ptr option" where
  "nbr_table_head s table =
     (let item = item_from_key s table (list_head (nbr_table_keys s))
      in if nbr_get_bit s (used_map s) table item then Some item else nbr_table_next s table item)"

definition zero_item :: "ptr \<Rightarrow> ptr \<Rightarrow> 'c nbr_state \<Rightarrow> 'c nbr_state" where
  "zero_item table item s = s\<lparr>item_bytes := \<lambda>a. if item \<le> a \<and> a < item + nat (tb_item_size (tables s table))
     then 0 else item_bytes s a\<rparr>"

definition nbr_table_add_lladdr ::
  "'c nbr_conf \<Rightarrow> ptr \<Rightarrow> linkaddr option \<Rightarrow> nat \<Rightarrow> ptr \<Rightarrow> 'c nbr_state \<Rightarrow> (ptr \<times> 'c nbr_state) option" where
  "nbr_table_add_lladdr cf table lladdr reason data s =
     (if table = NULL then Some (NULL, s)
      else
        let lladdr = (case lladdr of None \<Rightarrow> linkaddr_null | Some a \<Rightarrow> a) in
        Option.bind (entry_is_allowed cf s table lladdr reason data) (\<lambda>(allowed, to_be_removed).
          if \<not> allowed then Some (NULL, s)
          else Option.bind (index_from_lladdr s (Some lladdr)) (\<lambda>index.
            Option.bind
              (if index = - 1 then
                 Option.bind (nbr_table_allocate cf to_be_removed s) (\<lambda>(key, s).
                   if key = NULL then Some (None, s)
                   else Option.bind (list_add key (nbr_table_keys s)) (\<lambda>l.
                     let s = s\<lparr>nbr_table_keys := l\<rparr>; index = index_from_key s key
                     in Some (Some index, s\<lparr>key_lladdr := (key_lladdr s)(key := linkaddr_copy lladdr)\<rparr>)))
               else Some (Some index, s))
              (\<lambda>(index, s). case index of
                 None \<Rightarrow> Some (NULL, s)
               | Some index \<Rightarrow>
                   let item = item_from_index s table index; s = zero_item table item s
                   in Some (item, s\<lparr>used_map := snd (nbr_set_bit s (used_map s) table item True)\<rparr>)))))"

definition nbr_table_remove :: "ptr \<Rightarrow> ptr \<Rightarrow> 'c nbr_state \<Rightarrow> bool \<times> 'c nbr_state" where
  "nbr_table_remove table item s =
     (let (ret, used) = nbr_set_bit s (used_map s) table item False; s = s\<lparr>used_map := used\<rparr>
      in (ret, s\<lparr>locked_map := snd (nbr_set_bit s (locked_map s) table item False)\<rparr>))"

definition nbr_table_lock :: "ptr \<Rightarrow> ptr \<Rightarrow> 'c nbr_state \<Rightarrow> bool \<times> 'c nbr_state" where
  "nbr_table_lock table item s =
     (let (ret, locked) = nbr_set_bit s (locked_map s) table item True in (ret, s\<lparr>locked_map := locked\<rparr>))"

definition nbr_table_unlock :: "ptr \<Rightarrow> ptr \<Rightarrow> 'c nbr_state \<Rightarrow> bool \<times> 'c nbr_state" where
  "nbr_table_unlock table item s =
     (let (ret, locked) = nbr_set_bit s (locked_map s) table item False in (ret, s\<lparr>locked_map := locked\<rparr>))"

definition nbr_table_get_lladdr :: "'c nbr_state \<Rightarrow> ptr \<Rightarrow> ptr \<Rightarrow> linkaddr option" where
  "nbr_table_get_lladdr s table item =
     (let key = key_from_item s table item in if key \<noteq> NULL then Some (key_lladdr s key) else None)"

partial_function (option) nbr_table_clear :: "'c nbr_conf \<Rightarrow> 'c nbr_state \<Rightarrow> 'c nbr_state option" where
  "nbr_table_clear cf s =
     (let k = list_head (nbr_table_keys s)
      in if k \<noteq> NULL then Option.bind (remove_key cf k True s) (nbr_table_clear cf) else Some s)"

definition nbr_table_key_head :: "'c nbr_state \<Rightarrow> ptr" where
  "nbr_table_key_head s = list_head (nbr_table_keys s)"

definition nbr_table_key_next :: "'c nbr_state \<Rightarrow> ptr \<Rightarrow> ptr" where
  "nbr_table_key_next s key = list_item_next (nbr_table_keys s) key"

section \<open>Indices and addresses\<close>

lemma sdiv_mult: "0 < b \<Longrightarrow> (int a * b) sdiv b = int a"
  by (simp add: signed_divide_int_eq_divide_int)

lemma index_from_block [simp]:
  "memb_wf (neighbor_addr_mem s) \<Longrightarrow> index_from_key s (block_at (neighbor_addr_mem s) i) = int i"
proof -
  assume wf: "memb_wf (neighbor_addr_mem s)"
  then have b: "block_at (neighbor_addr_mem s) i \<noteq> NULL" "0 < int (msize (neighbor_addr_mem s))"
    by (simp, simp add: memb_wf_def)
  have "int (block_at (neighbor_addr_mem s) i) - int (mbase (neighbor_addr_mem s)) = int i * int (msize (neighbor_addr_mem s))"
    by (simp add: block_at_def)
  then show ?thesis using b sdiv_mult [OF b(2), of i] by (simp add: index_from_key_def)
qed

lemma key_from_block [simp]: "key_from_index s (int i) = block_at (neighbor_addr_mem s) i"
proof -
  have "int (mbase (neighbor_addr_mem s)) + int i * int (msize (neighbor_addr_mem s)) = int (block_at (neighbor_addr_mem s) i)"
    by (simp add: block_at_def)
  then show ?thesis by (simp only: key_from_index_def nat_int) simp
qed

lemma key_from_none [simp]: "key_from_index s (- 1) = NULL" "index_from_key s NULL = - 1"
  "item_from_index s t (- 1) = NULL" "index_from_item s t NULL = - 1" "nbr_get_bit s m t NULL = False"
  by (simp_all add: key_from_index_def index_from_key_def item_from_index_def index_from_item_def nbr_get_bit_def)

definition table_ok :: "'c nbr_state \<Rightarrow> ptr \<Rightarrow> bool" where
  "table_ok s t \<longleftrightarrow> t \<noteq> NULL \<and> 0 < tb_item_size (tables s t) \<and> tb_data (tables s t) \<noteq> NULL \<and>
     0 \<le> tb_index (tables s t) \<and> tb_index (tables s t) < int MAX_NUM_TABLES"

lemma index_from_item_index [simp]:
  assumes "table_ok s t"
  shows "index_from_item s t (item_from_index s t (int i)) = int i" "item_from_index s t (int i) \<noteq> NULL"
proof -
  let ?d = "tb_data (tables s t)" and ?z = "tb_item_size (tables s t)"
  have t: "t \<noteq> NULL" "0 < ?z" "?d \<noteq> NULL" using assms by (simp_all add: table_ok_def)
  have pos: "0 \<le> int i * ?z" using t(2) by simp
  have it: "item_from_index s t (int i) = nat (int ?d + int i * ?z)" using t(1) by (simp add: item_from_index_def)
  show nz: "item_from_index s t (int i) \<noteq> NULL" unfolding it using pos t(3) by simp
  have "int (item_from_index s t (int i)) - int ?d = int i * ?z" unfolding it using pos by simp
  then show "index_from_item s t (item_from_index s t (int i)) = int i"
    using t(1) nz sdiv_mult [OF t(2), of i] by (simp only: index_from_item_def if_True simp_thms)
qed

lemma key_from_item_index:
  "table_ok s t \<Longrightarrow> key_from_item s t (item_from_index s t (int i)) = block_at (neighbor_addr_mem s) i"
  by (simp add: key_from_item_def)

section \<open>The invariant\<close>

text \<open>The neighbor's place in the bitmaps.\<close>

definition slot :: "'c nbr_state \<Rightarrow> ptr \<Rightarrow> nat" where
  "slot s k = nat (index_from_key s k)"

text \<open>
  \<open>ks\<close> is the list of keys. Its blocks are the live ones of the pool but those of \<open>h\<close>, which an operation
  has in hand. Neighbors that are not on the list are in no table.
\<close>

definition nbr_inv :: "'c nbr_state \<Rightarrow> ptr list \<Rightarrow> ptr set \<Rightarrow> bool" where
  "nbr_inv s ks h \<longleftrightarrow> memb_wf (neighbor_addr_mem s) \<and> list_repr (nbr_table_keys s) ks \<and>
     set ks \<inter> h = {} \<and> set ks \<union> h = memb_live (neighbor_addr_mem s) \<and> inj_on (key_lladdr s) (set ks) \<and>
     length (used_map s) = mnum (neighbor_addr_mem s) \<and> length (locked_map s) = mnum (neighbor_addr_mem s) \<and>
     (\<forall>i<mnum (neighbor_addr_mem s). block_at (neighbor_addr_mem s) i \<notin> set ks \<longrightarrow> used_map s ! i = 0 \<and> locked_map s ! i = 0)"

definition tables_ok :: "'c nbr_state \<Rightarrow> bool" where
  "tables_ok s \<longleftrightarrow> length (all_tables s) = MAX_NUM_TABLES \<and> unat (num_tables s) \<le> MAX_NUM_TABLES \<and>
     (\<forall>i<MAX_NUM_TABLES. if i < unat (num_tables s)
        then table_ok s (all_tables s ! i) \<and> tb_index (tables s (all_tables s ! i)) = int i
        else all_tables s ! i = NULL)"

definition nbr_wf :: "'c nbr_state \<Rightarrow> ptr list \<Rightarrow> bool" where
  "nbr_wf s ks \<longleftrightarrow> nbr_inv s ks {} \<and> tables_ok s"

lemma live_slot:
  assumes "memb_wf (neighbor_addr_mem s)" "k \<in> memb_live (neighbor_addr_mem s)"
  shows "slot s k < mnum (neighbor_addr_mem s)" "k = block_at (neighbor_addr_mem s) (slot s k)"
    "index_from_key s k = int (slot s k)"
proof -
  obtain i where "i < mnum (neighbor_addr_mem s)" "k = block_at (neighbor_addr_mem s) i"
    using assms(2) by (auto simp: memb_live_def)
  then show "slot s k < mnum (neighbor_addr_mem s)" "k = block_at (neighbor_addr_mem s) (slot s k)"
    "index_from_key s k = int (slot s k)" using assms(1) by (simp_all add: slot_def)
qed

lemma nbr_inv_parts:
  assumes "nbr_inv s ks h"
  shows "memb_wf (neighbor_addr_mem s)" "list_repr (nbr_table_keys s) ks" "set ks \<inter> h = {}"
    "set ks \<union> h = memb_live (neighbor_addr_mem s)" "inj_on (key_lladdr s) (set ks)"
    "length (used_map s) = mnum (neighbor_addr_mem s)" "length (locked_map s) = mnum (neighbor_addr_mem s)"
    "\<forall>i<mnum (neighbor_addr_mem s). block_at (neighbor_addr_mem s) i \<notin> set ks \<longrightarrow> used_map s ! i = 0 \<and> locked_map s ! i = 0"
  using assms unfolding nbr_inv_def by blast+

lemma nbr_inv_all_live: "nbr_inv s ks {} \<Longrightarrow> set ks = memb_live (neighbor_addr_mem s)"
  using nbr_inv_parts(4) by fastforce

lemma nbr_inv_live: "nbr_inv s ks h \<Longrightarrow> k \<in> set ks \<Longrightarrow> k \<in> memb_live (neighbor_addr_mem s)"
  by (auto simp: nbr_inv_def)

lemma nbr_inv_slot:
  assumes "nbr_inv s ks h" "k \<in> set ks"
  shows "slot s k < mnum (neighbor_addr_mem s)" "k = block_at (neighbor_addr_mem s) (slot s k)"
    "index_from_key s k = int (slot s k)" "k \<noteq> NULL"
proof -
  have wf: "memb_wf (neighbor_addr_mem s)" using assms(1) by (simp add: nbr_inv_def)
  note l = live_slot [OF wf nbr_inv_live [OF assms]]
  show "slot s k < mnum (neighbor_addr_mem s)" "k = block_at (neighbor_addr_mem s) (slot s k)"
    "index_from_key s k = int (slot s k)" by (rule l)+
  show "k \<noteq> NULL" using memb_live_nonNULL [OF wf] nbr_inv_live [OF assms] by metis
qed

lemma slot_inj:
  "nbr_inv s ks h \<Longrightarrow> k \<in> set ks \<Longrightarrow> l \<in> set ks \<Longrightarrow> slot s k = slot s l \<longleftrightarrow> k = l"
  by (metis nbr_inv_slot(2))

lemma registered_ok: "tables_ok s \<Longrightarrow> nbr_table_is_registered s t \<Longrightarrow> table_ok s t"
proof -
  assume ok: "tables_ok s" and r: "nbr_table_is_registered s t"
  then have i: "nat (tb_index (tables s t)) < MAX_NUM_TABLES" "all_tables s ! nat (tb_index (tables s t)) = t" "t \<noteq> NULL"
    by (simp_all add: nbr_table_is_registered_def nat_less_iff)
  from this have "nat (tb_index (tables s t)) < unat (num_tables s)"
    using ok unfolding tables_ok_def by (metis less_irrefl)
  with ok i show "table_ok s t" unfolding tables_ok_def by metis
qed

text \<open>The table of a registered table's place is that table.\<close>

lemma registered_inj:
  assumes "nbr_table_is_registered s t" "nbr_table_is_registered s u"
  shows "table_bit s t = table_bit s u \<longleftrightarrow> t = u"
proof -
  have bits: "push_bit i (1 :: u8) = push_bit j 1 \<longleftrightarrow> i = j" if "i < 8" "j < 8" for i j
  proof -
    have "bit (push_bit i (1 :: u8)) k \<longleftrightarrow> i = k" if "k < 8" for i k :: nat
      using that unfolding bit_push_bit_iff bit_1_iff by (auto simp: possible_bit_def)
    then show ?thesis using that by metis
  qed
  have "nat (tb_index (tables s t)) < 8" "nat (tb_index (tables s u)) < 8"
    using assms by (simp_all add: nbr_table_is_registered_def MAX_NUM_TABLES_def nat_less_iff)
  from bits [OF this] show ?thesis using assms unfolding table_bit_def nbr_table_is_registered_def by metis
qed

section \<open>Looking up\<close>

definition key_of :: "'c nbr_state \<Rightarrow> ptr list \<Rightarrow> linkaddr \<Rightarrow> ptr option" where
  "key_of s ks a = find (\<lambda>k. key_lladdr s k = a) ks"

lemma key_of_Some: "key_of s ks a = Some k \<Longrightarrow> k \<in> set ks \<and> key_lladdr s k = a"
  by (auto simp: key_of_def find_Some_iff)

lemma key_of_None: "key_of s ks a = None \<longleftrightarrow> a \<notin> key_lladdr s ` set ks"
  by (auto simp: key_of_def find_None_iff)

lemma key_of_iff: "inj_on (key_lladdr s) (set ks) \<Longrightarrow> key_of s ks a = Some k \<longleftrightarrow> k \<in> set ks \<and> key_lladdr s k = a"
  by (metis inj_on_eq_iff key_of_None key_of_Some image_eqI not_None_eq)

definition in_table :: "'c nbr_state \<Rightarrow> ptr \<Rightarrow> ptr \<Rightarrow> bool" where
  "in_table s t k \<longleftrightarrow> used_map s ! slot s k AND table_bit s t \<noteq> 0"

text \<open>What a table holds under an address.\<close>

definition nbr_lookup :: "'c nbr_state \<Rightarrow> ptr list \<Rightarrow> ptr \<Rightarrow> linkaddr \<Rightarrow> ptr option" where
  "nbr_lookup s ks t a = (case key_of s ks a of None \<Rightarrow> None
     | Some k \<Rightarrow> if in_table s t k then Some (item_from_key s t k) else None)"

lemma find_lladdr_path:
  assumes "lpath (nxt (nbr_table_keys s)) p ks"
  shows "find_lladdr s a p = Some (case key_of s ks a of None \<Rightarrow> - 1 | Some k \<Rightarrow> index_from_key s k)"
  using assms
proof (induction ks arbitrary: p)
  case Nil
  then show ?case by (subst find_lladdr.simps) (simp add: key_of_def)
next
  case (Cons k ks)
  then have p: "p = k" "k \<noteq> NULL" "lpath (nxt (nbr_table_keys s)) (list_item_next (nbr_table_keys s) k) ks"
    by (simp_all add: list_item_next_def)
  show ?case
    using Cons.IH [OF p(3)] p(1,2) unfolding find_lladdr.simps [of s a p] by (auto simp: key_of_def)
qed

lemma index_from_lladdr_eq:
  assumes "nbr_inv s ks h"
  shows "index_from_lladdr s (Some a) = Some (case key_of s ks a of None \<Rightarrow> - 1 | Some k \<Rightarrow> int (slot s k))"
proof -
  have "lpath (nxt (nbr_table_keys s)) (list_head (nbr_table_keys s)) ks"
    using assms by (simp add: nbr_inv_def list_repr_def list_head_def)
  from find_lladdr_path [OF this] show ?thesis
    using nbr_inv_slot(3) [OF assms] key_of_Some by (fastforce simp: index_from_lladdr_def split: option.splits)
qed

lemma item_from_key_slot: "nbr_inv s ks h \<Longrightarrow> k \<in> set ks \<Longrightarrow> item_from_key s t k = item_from_index s t (int (slot s k))"
  by (simp add: item_from_key_def nbr_inv_slot(3))

lemma get_bit_item:
  assumes "table_ok s t"
  shows "nbr_get_bit s m t (item_from_index s t (int i)) \<longleftrightarrow> m ! i AND table_bit s t \<noteq> 0"
proof -
  have "t \<noteq> NULL" using assms by (simp add: table_ok_def)
  then show ?thesis unfolding nbr_get_bit_def Let_def index_from_item_index(1) [OF assms] by simp
qed

lemma get_from_lladdr_eq:
  assumes "nbr_inv s ks h" "table_ok s t"
  shows "nbr_table_get_from_lladdr s t (Some a) = Some (case nbr_lookup s ks t a of None \<Rightarrow> NULL | Some it \<Rightarrow> it)"
    "nbr_lookup s ks t a \<noteq> Some NULL"
proof -
  show "nbr_table_get_from_lladdr s t (Some a) = Some (case nbr_lookup s ks t a of None \<Rightarrow> NULL | Some it \<Rightarrow> it)"
    using key_of_Some [of s ks a] get_bit_item [OF assms(2)] item_from_key_slot [OF assms(1)]
    by (auto simp: nbr_table_get_from_lladdr_def index_from_lladdr_eq [OF assms(1)] nbr_lookup_def in_table_def Let_def
        split: option.splits)
  show "nbr_lookup s ks t a \<noteq> Some NULL"
    using key_of_Some [of s ks a] item_from_key_slot [OF assms(1)] index_from_item_index(2) [OF assms(2)]
    by (auto simp: nbr_lookup_def split: option.splits if_splits)
qed

section \<open>The order of a table\<close>

text \<open>Walking a table gives the items of the keys it uses, in list order.\<close>

definition nbr_items :: "'c nbr_state \<Rightarrow> ptr list \<Rightarrow> ptr \<Rightarrow> ptr list" where
  "nbr_items s ks t = map (item_from_key s t) (filter (in_table s t) ks)"

definition first_item :: "'c nbr_state \<Rightarrow> ptr list \<Rightarrow> ptr \<Rightarrow> ptr" where
  "first_item s ks t = (case nbr_items s ks t of [] \<Rightarrow> NULL | it # _ \<Rightarrow> it)"

lemma next_from_path:
  assumes "nbr_inv s ks h" "table_ok s t" "lpath (nxt (nbr_table_keys s)) (list_item_next (nbr_table_keys s) k) zs" "set zs \<subseteq> set ks"
    "k = key_from_item s t item"
  shows "nbr_table_next s t item = Some (first_item s zs t)"
  using assms(3-5)
proof (induction zs arbitrary: k item)
  case Nil
  then have "list_item_next (nbr_table_keys s) k = NULL" by simp
  then show ?case
    unfolding nbr_table_next.simps [of s t item] using Nil.prems(3)
    by (simp add: Let_def item_from_key_def first_item_def nbr_items_def)
next
  case (Cons z zs)
  then have z: "list_item_next (nbr_table_keys s) k = z" "z \<in> set ks" "z \<noteq> NULL"
    "lpath (nxt (nbr_table_keys s)) (list_item_next (nbr_table_keys s) z) zs" by (simp_all add: list_item_next_def)
  let ?it = "item_from_key s t z"
  have it: "?it = item_from_index s t (int (slot s z))" by (rule item_from_key_slot [OF assms(1) z(2)])
  have nz: "?it \<noteq> NULL" unfolding it by (rule index_from_item_index(2) [OF assms(2)])
  have bit: "nbr_get_bit s (used_map s) t ?it \<longleftrightarrow> in_table s t z"
    unfolding it in_table_def by (rule get_bit_item [OF assms(2)])
  have own: "z = key_from_item s t ?it"
    unfolding it key_from_item_index [OF assms(2)] by (rule nbr_inv_slot(2) [OF assms(1) z(2)])
  have zs: "set zs \<subseteq> set ks" using Cons.prems(2) by simp
  show ?case
    unfolding nbr_table_next.simps [of s t item] using Cons.IH [OF z(4) zs own] nz bit z(1) Cons.prems(3)
    by (auto simp: Let_def first_item_def nbr_items_def)
qed

lemma table_head_first:
  assumes "nbr_inv s ks h" "table_ok s t"
  shows "nbr_table_head s t = Some (first_item s ks t)"
proof -
  have p: "lpath (nxt (nbr_table_keys s)) (list_head (nbr_table_keys s)) ks"
    using assms by (simp add: nbr_inv_def list_repr_def list_head_def)
  show ?thesis
  proof (cases ks)
    case Nil
    with p have "list_head (nbr_table_keys s) = NULL" by simp
    moreover have "nbr_table_next s t NULL = Some NULL"
      by (subst nbr_table_next.simps) (simp add: key_from_item_def item_from_key_def list_item_next_def)
    ultimately show ?thesis using Nil by (simp add: nbr_table_head_def item_from_key_def first_item_def nbr_items_def)
  next
    case (Cons z zs)
    with p have z: "list_head (nbr_table_keys s) = z" "z \<in> set ks"
      "lpath (nxt (nbr_table_keys s)) (list_item_next (nbr_table_keys s) z) zs" by (simp_all add: list_item_next_def)
    let ?it = "item_from_key s t z"
    have it: "?it = item_from_index s t (int (slot s z))" by (rule item_from_key_slot [OF assms(1) z(2)])
    have bit: "nbr_get_bit s (used_map s) t ?it \<longleftrightarrow> in_table s t z"
      unfolding it in_table_def by (rule get_bit_item [OF assms(2)])
    have own: "z = key_from_item s t ?it"
      unfolding it key_from_item_index [OF assms(2)] by (rule nbr_inv_slot(2) [OF assms(1) z(2)])
    have "set zs \<subseteq> set ks" using Cons by auto
    from next_from_path [OF assms z(3) this own] show ?thesis
      using Cons z(1) bit by (auto simp: nbr_table_head_def Let_def first_item_def nbr_items_def)
  qed
qed

lemma table_next_first:
  assumes "nbr_inv s (ys @ k # zs) h" "table_ok s t"
  shows "nbr_table_next s t (item_from_key s t k) = Some (first_item s zs t)"
proof -
  have k: "k \<in> set (ys @ k # zs)" by simp
  have "lpath (nxt (nbr_table_keys s)) k (k # zs)"
    using assms(1) by (auto simp: nbr_inv_def list_repr_def lpath_append)
  then have p: "lpath (nxt (nbr_table_keys s)) (list_item_next (nbr_table_keys s) k) zs"
    by (simp add: list_item_next_def)
  have own: "k = key_from_item s t (item_from_key s t k)"
    unfolding item_from_key_slot [OF assms(1) k] key_from_item_index [OF assms(2)] by (rule nbr_inv_slot(2) [OF assms(1) k])
  have "set zs \<subseteq> set (ys @ k # zs)" by auto
  from next_from_path [OF assms p this own] show ?thesis .
qed

section \<open>The victim\<close>

definition default_policy :: "'c nbr_conf \<Rightarrow> bool" where
  "default_policy cf \<longleftrightarrow> gc_get_worst cf = nbr_table_gc_get_worst \<and> can_accept_new cf = nbr_table_can_accept_new"

definition key_uses :: "'c nbr_state \<Rightarrow> ptr \<Rightarrow> nat" where
  "key_uses s k = count_bits (used_map s ! slot s k)"

definition unlocked :: "'c nbr_state \<Rightarrow> ptr \<Rightarrow> bool" where
  "unlocked s k \<longleftrightarrow> locked_map s ! slot s k = 0"

lemma used_count_key:
  assumes "nbr_inv s ks h" "k \<in> set ks"
  shows "used_count s (key_lladdr s k) = Some (key_uses s k)"
proof -
  have "inj_on (key_lladdr s) (set ks)" by (rule nbr_inv_parts(5) [OF assms(1)])
  then have "key_of s ks (key_lladdr s k) = Some k" using assms(2) by (simp add: key_of_iff)
  then show ?thesis by (simp add: used_count_def index_from_lladdr_eq [OF assms(1)] key_uses_def)
qed

text \<open>The first of the unlocked neighbors of \<open>vs\<close> that are in the fewest tables.\<close>

fun least_used :: "'c nbr_state \<Rightarrow> ptr option \<Rightarrow> ptr list \<Rightarrow> ptr option" where
  "least_used s w [] = w"
| "least_used s w (k # ks) =
     least_used s (if unlocked s k then (case w of None \<Rightarrow> Some k
       | Some v \<Rightarrow> if key_uses s k < key_uses s v then Some k else Some v) else w) ks"

lemma least_used_best:
  assumes "least_used s w ks = Some v"
  shows "(v \<in> set ks \<and> unlocked s v \<or> w = Some v) \<and>
    (\<forall>k \<in> set ks. unlocked s k \<longrightarrow> key_uses s v \<le> key_uses s k) \<and> (\<forall>u. w = Some u \<longrightarrow> key_uses s v \<le> key_uses s u)"
  using assms
proof (induction ks arbitrary: w)
  case (Cons k ks)
  note ih = Cons.IH [OF Cons.prems [unfolded least_used.simps]]
  show ?case
  proof (cases "unlocked s k")
    case True
    with ih show ?thesis by (cases w) (auto split: if_splits)
  next
    case False
    with ih show ?thesis by auto
  qed
qed simp

lemma least_used_None: "least_used s w ks = None \<longleftrightarrow> w = None \<and> (\<forall>k \<in> set ks. \<not> unlocked s k)"
  by (induction ks arbitrary: w) (auto split: option.splits)

lemma worst_unlocked_path:
  assumes "nbr_inv s ks h" "default_policy cf" "lpath (nxt (nbr_table_keys s)) p vs" "set vs \<subseteq> set ks"
    "\<forall>v. w = Some v \<longrightarrow> v \<in> set ks"
  shows "worst_unlocked cf s p (map_option (key_lladdr s) w) = Some (map_option (key_lladdr s) (least_used s w vs))"
  using assms(3-5)
proof (induction vs arbitrary: p w)
  case Nil
  then show ?case by (subst worst_unlocked.simps) simp
next
  case (Cons k vs)
  then have p: "p = k" "k \<noteq> NULL" "lpath (nxt (nbr_table_keys s)) (list_item_next (nbr_table_keys s) k) vs"
    "k \<in> set ks" "set vs \<subseteq> set ks" by (simp_all add: list_item_next_def)
  have free: "locked_map s ! nat (index_from_key s k) = 0 \<longleftrightarrow> unlocked s k" by (simp add: unlocked_def slot_def)
  have worse: "gc_get_worst cf s (key_lladdr s v) (key_lladdr s k) =
      Some (key_lladdr s (if key_uses s k < key_uses s v then k else v))" if "v \<in> set ks" for v
    using assms(2) used_count_key [OF assms(1) that] used_count_key [OF assms(1) p(4)]
    by (simp add: default_policy_def nbr_table_gc_get_worst_def)
  let ?w = "if unlocked s k then (case w of None \<Rightarrow> Some k
       | Some v \<Rightarrow> if key_uses s k < key_uses s v then Some k else Some v) else w"
  have "\<forall>v. ?w = Some v \<longrightarrow> v \<in> set ks" using Cons.prems(3) p(4) by (auto split: option.splits if_splits)
  from Cons.IH [OF p(3,5) this] have ih: "worst_unlocked cf s (list_item_next (nbr_table_keys s) k) (map_option (key_lladdr s) ?w) =
      Some (map_option (key_lladdr s) (least_used s w (k # vs)))" by simp
  have "worst_unlocked cf s p (map_option (key_lladdr s) w) =
      worst_unlocked cf s (list_item_next (nbr_table_keys s) k) (map_option (key_lladdr s) ?w)"
    unfolding p(1) worst_unlocked.simps [of cf s k] using p(2) free worse Cons.prems(3)
    by (auto simp: Let_def split: option.splits)
  with ih show ?case by simp
qed

lemma select_for_removal_eq:
  assumes "nbr_inv s ks h" "default_policy cf"
  shows "select_for_removal cf s new reason data = Some (map_option (key_lladdr s) (least_used s None ks))"
proof -
  have "lpath (nxt (nbr_table_keys s)) (list_head (nbr_table_keys s)) ks"
    using assms by (simp add: nbr_inv_def list_repr_def list_head_def)
  from worst_unlocked_path [OF assms this order_refl, of None] show ?thesis
    using assms(2) by (simp add: select_for_removal_def default_policy_def nbr_table_can_accept_new_def)
qed

section \<open>Removing a key\<close>

lemma index_from_key_cong: "neighbor_addr_mem s' = neighbor_addr_mem s \<Longrightarrow> index_from_key s' = index_from_key s"
  by (simp add: fun_eq_iff index_from_key_def)

lemma index_from_key_upd [simp]:
  "index_from_key (s\<lparr>used_map := u\<rparr>) = index_from_key s" "index_from_key (s\<lparr>locked_map := u\<rparr>) = index_from_key s"
  "index_from_key (s\<lparr>nbr_table_keys := l\<rparr>) = index_from_key s" "index_from_key (s\<lparr>key_lladdr := a\<rparr>) = index_from_key s"
  "index_from_key (s\<lparr>item_bytes := b\<rparr>) = index_from_key s" "index_from_key (s\<lparr>tables := t\<rparr>) = index_from_key s"
  by (simp_all add: fun_eq_iff index_from_key_def)

text \<open>
  What a callback may change: the client's data, the items, and the bits of the neighbor it is told
  about (it may take it out of its own table).
\<close>

definition nbr_only :: "'c nbr_state \<Rightarrow> nat \<Rightarrow> 'c nbr_state \<Rightarrow> bool" where
  "nbr_only s i s' \<longleftrightarrow> tables s' = tables s \<and> all_tables s' = all_tables s \<and> num_tables s' = num_tables s \<and>
     neighbor_addr_mem s' = neighbor_addr_mem s \<and> nbr_table_keys s' = nbr_table_keys s \<and> key_lladdr s' = key_lladdr s \<and>
     length (used_map s') = length (used_map s) \<and> length (locked_map s') = length (locked_map s) \<and>
     (\<forall>j. j \<noteq> i \<longrightarrow> used_map s' ! j = used_map s ! j \<and> locked_map s' ! j = locked_map s ! j)"

definition nbr_callbacks_ok :: "'c nbr_conf \<Rightarrow> bool" where
  "nbr_callbacks_ok cf \<longleftrightarrow> (\<forall>s t i. tb_callback (tables s t) \<noteq> NULL \<longrightarrow>
     nbr_only s i (run_callback cf (tb_callback (tables s t)) (item_from_index s t (int i)) s))"

lemma nbr_only_refl [simp]: "nbr_only s i s"
  by (simp add: nbr_only_def)

lemma nbr_only_trans: "nbr_only s i s1 \<Longrightarrow> nbr_only s1 i s2 \<Longrightarrow> nbr_only s i s2"
  by (simp add: nbr_only_def)

lemma notify_tables_only:
  assumes "nbr_callbacks_ok cf" "index_from_key s k = int i"
  shows "nbr_only s i (notify_tables cf k js s)"
  using assms(2)
proof (induction js arbitrary: s)
  case (Cons j js)
  let ?t = "all_tables s ! j"
  let ?s = "if ?t \<noteq> NULL \<and> tb_callback (tables s ?t) \<noteq> NULL then
      let it = item_from_key s ?t k
      in if nbr_get_bit s (used_map s) ?t it then run_callback cf (tb_callback (tables s ?t)) it s else s
    else s"
  have one: "nbr_only s i ?s"
    using assms(1) Cons.prems by (simp add: nbr_callbacks_ok_def item_from_key_def Let_def)
  then have "index_from_key ?s k = int i" using Cons.prems by (simp only: nbr_only_def index_from_key_def)
  from nbr_only_trans [OF one Cons.IH [OF this]] show ?case by (simp only: notify_tables.simps Let_def)
qed simp

definition nbr_same :: "'c nbr_state \<Rightarrow> 'c nbr_state \<Rightarrow> ptr set \<Rightarrow> bool" where
  "nbr_same s s' ks \<longleftrightarrow> tables s' = tables s \<and> all_tables s' = all_tables s \<and> num_tables s' = num_tables s \<and>
     mbase (neighbor_addr_mem s') = mbase (neighbor_addr_mem s) \<and> msize (neighbor_addr_mem s') = msize (neighbor_addr_mem s) \<and>
     mnum (neighbor_addr_mem s') = mnum (neighbor_addr_mem s) \<and>
     (\<forall>k \<in> ks. key_lladdr s' k = key_lladdr s k \<and> used_map s' ! slot s k = used_map s ! slot s k \<and>
        locked_map s' ! slot s k = locked_map s ! slot s k)"

lemma slot_same: "nbr_same s s' ks \<Longrightarrow> slot s' k = slot s k"
  by (simp add: nbr_same_def slot_def index_from_key_def)

text \<open>The key leaves the list, its neighbor all tables; its block stays with the operation.\<close>

lemma remove_key_inv:
  assumes "nbr_inv s ks {}" "k \<in> set ks" "nbr_callbacks_ok cf"
  shows "\<exists>s'. remove_key cf k False s = Some s' \<and> nbr_inv s' (remove1 k ks) {k} \<and> nbr_same s s' (set ks - {k}) \<and>
    neighbor_addr_mem s' = neighbor_addr_mem s"
proof -
  note k = nbr_inv_slot [OF assms(1,2)]
  let ?n = "notify_tables cf k [0..<MAX_NUM_TABLES] s" and ?i = "slot s k"
  have only: "nbr_only s ?i ?n" by (rule notify_tables_only [OF assms(3) k(3)])
  then have f: "tables ?n = tables s" "all_tables ?n = all_tables s" "num_tables ?n = num_tables s"
    "neighbor_addr_mem ?n = neighbor_addr_mem s" "nbr_table_keys ?n = nbr_table_keys s" "key_lladdr ?n = key_lladdr s"
    "length (used_map ?n) = length (used_map s)" "length (locked_map ?n) = length (locked_map s)"
    "\<And>j. j \<noteq> ?i \<Longrightarrow> used_map ?n ! j = used_map s ! j \<and> locked_map ?n ! j = locked_map s ! j"
    unfolding nbr_only_def by blast+
  have inv: "memb_wf (neighbor_addr_mem s)" "list_repr (nbr_table_keys s) ks" "set ks = memb_live (neighbor_addr_mem s)"
    "inj_on (key_lladdr s) (set ks)" "length (used_map s) = mnum (neighbor_addr_mem s)"
    "length (locked_map s) = mnum (neighbor_addr_mem s)"
    "\<forall>i<mnum (neighbor_addr_mem s). block_at (neighbor_addr_mem s) i \<notin> set ks \<longrightarrow> used_map s ! i = 0 \<and> locked_map s ! i = 0"
    using assms(1) unfolding nbr_inv_def by (blast, blast, simp, blast+)
  from cl.remove [OF inv(2), of k] obtain l where l: "list_remove k (nbr_table_keys s) = Some l" "list_repr l (remove1 k ks)"
    by (auto simp: alist_remove_def)
  have ix: "nat (index_from_key ?n k) = ?i" using k(3) index_from_key_cong [OF f(4)] by simp
  define s' where "s' = ?n\<lparr>used_map := (used_map ?n)[?i := 0], locked_map := (locked_map ?n)[?i := 0], nbr_table_keys := l\<rparr>"
  have ret: "remove_key cf k False s = Some s'"
    using l(1) ix by (simp add: remove_key_def Let_def s'_def f(5))
  have d: "distinct ks" using lpath_distinct inv(2) by (auto simp: list_repr_def)
  have ls: "set (remove1 k ks) = set ks - {k}" using d by simp
  have "used_map s' ! j = (if j = ?i then 0 else used_map s ! j) \<and> locked_map s' ! j = (if j = ?i then 0 else locked_map s ! j)"
    if "j < mnum (neighbor_addr_mem s)" for j
    using f(9) [of j] f(7,8) inv(5,6) that by (simp add: s'_def nth_list_update)
  then have maps: "used_map s' ! j = (if j = ?i then 0 else used_map s ! j)"
    "locked_map s' ! j = (if j = ?i then 0 else locked_map s ! j)" if "j < mnum (neighbor_addr_mem s)" for j
    using that by blast+
  have "\<forall>i<mnum (neighbor_addr_mem s). block_at (neighbor_addr_mem s) i \<notin> set ks - {k} \<longrightarrow> used_map s' ! i = 0 \<and> locked_map s' ! i = 0"
    using inv(7) maps k(2) inv(1) by (auto)
  then have "nbr_inv s' (remove1 k ks) {k}"
    using inv(1,3,5,6) l(2) f(4,6,7,8) assms(2) inj_on_subset [OF inv(4), of "set ks - {k}"]
    unfolding nbr_inv_def ls by (simp add: s'_def insert_absorb)
  moreover have "used_map s' ! slot s v = used_map s ! slot s v \<and> locked_map s' ! slot s v = locked_map s ! slot s v"
    if "v \<in> set ks - {k}" for v
    using maps [OF nbr_inv_slot(1) [OF assms(1), of v]] slot_inj [OF assms(1) _ assms(2), of v] that by auto
  then have "nbr_same s s' (set ks - {k})" unfolding nbr_same_def using f by (simp add: s'_def)
  ultimately show ?thesis using ret f(4) by (simp add: s'_def)
qed

section \<open>Adding\<close>

lemma numfree_zero:
  assumes "memb_wf m"
  shows "memb_numfree m = 0 \<longleftrightarrow> card (memb_live m) = mnum m"
  using memb_numfree_live [OF assms] by linarith

lemma nbr_inv_card: "nbr_inv s ks {} \<Longrightarrow> card (memb_live (neighbor_addr_mem s)) = length ks"
  using lpath_distinct distinct_card by (fastforce simp: nbr_inv_def list_repr_def)

text \<open>A block from the pool, while there is one.\<close>

lemma allocate_fresh:
  assumes "nbr_inv s ks {}" "memb_numfree (neighbor_addr_mem s) > 0"
  shows "\<exists>k s'. nbr_table_allocate cf w s = Some (k, s') \<and> nbr_inv s' ks {k} \<and> nbr_same s s' (set ks) \<and>
    k \<noteq> NULL \<and> item_bytes s' = item_bytes s"
proof -
  let ?m = "neighbor_addr_mem s"
  note wf = nbr_inv_parts(1) [OF assms(1)] and live = nbr_inv_all_live [OF assms(1)]
  obtain k m' where a: "memb_alloc ?m = (k, m')" by (cases "memb_alloc ?m")
  have k: "k \<noteq> NULL"
  proof
    assume "k = NULL"
    with mp.alloc_fail [OF wf] a have "card (memb_live ?m) = mnum ?m" by simp
    with numfree_zero [OF wf] assms(2) show False by simp
  qed
  note fresh = memb_alloc_live [OF wf a k]
  have geo: "mnum m' = mnum ?m" "mbase m' = mbase ?m" "msize m' = msize ?m" "block_at m' = block_at ?m"
    using memb_alloc_geometry [of ?m] memb_alloc_blocks [of ?m] by (simp_all add: a)
  have "nbr_inv (s\<lparr>neighbor_addr_mem := m'\<rparr>) ks {k}"
    using nbr_inv_parts [OF assms(1)] fresh geo live unfolding nbr_inv_def by simp
  moreover have "nbr_same s (s\<lparr>neighbor_addr_mem := m'\<rparr>) (set ks)" by (simp add: nbr_same_def geo)
  ultimately show ?thesis using k by (simp add: nbr_table_allocate_def a)
qed

text \<open>The block of the victim, when the pool is empty.\<close>

lemma allocate_victim:
  assumes "nbr_inv s ks {}" "memb_numfree (neighbor_addr_mem s) = 0" "v \<in> set ks" "nbr_callbacks_ok cf"
  shows "\<exists>s'. nbr_table_allocate cf (Some (key_lladdr s v)) s = Some (v, s') \<and> nbr_inv s' (remove1 v ks) {v} \<and>
    nbr_same s s' (set ks - {v})"
proof -
  let ?m = "neighbor_addr_mem s"
  have wf: "memb_wf ?m" using assms(1) by (simp add: nbr_inv_def)
  have "fst (memb_alloc ?m) = NULL"
  proof (rule ccontr)
    assume k: "fst (memb_alloc ?m) \<noteq> NULL"
    have f: "fst (memb_alloc ?m) \<notin> memb_live ?m" "memb_live (snd (memb_alloc ?m)) = insert (fst (memb_alloc ?m)) (memb_live ?m)"
      "memb_wf (snd (memb_alloc ?m))" using memb_alloc_live [OF wf _ k] by (metis prod.collapse)+
    from memb_numfree_live [OF f(3)] memb_numfree_live [OF wf] assms(2) f(1,2) memb_alloc_geometry(1) [of ?m]
    show False by simp
  qed
  then have a: "memb_alloc ?m = (NULL, ?m)" using memb_alloc_NULL [OF wf] by (metis prod.collapse)
  have "inj_on (key_lladdr s) (set ks)" by (rule nbr_inv_parts(5) [OF assms(1)])
  then have "key_of s ks (key_lladdr s v) = Some v" using assms(3) by (simp add: key_of_iff)
  then have ix: "index_from_lladdr s (Some (key_lladdr s v)) = Some (int (slot s v))"
    by (simp add: index_from_lladdr_eq [OF assms(1)])
  have key: "key_from_index s (int (slot s v)) = v" "v \<noteq> NULL"
    using nbr_inv_slot(2,4) [OF assms(1,3)] by simp_all
  from remove_key_inv [OF assms(1,3,4)] obtain s' where r: "remove_key cf v False s = Some s'"
    "nbr_inv s' (remove1 v ks) {v}" "nbr_same s s' (set ks - {v})" by blast
  have "s\<lparr>neighbor_addr_mem := ?m\<rparr> = s" by simp
  then have "nbr_table_allocate cf (Some (key_lladdr s v)) s = Some (v, s')"
    using key ix r(1) by (simp add: nbr_table_allocate_def a)
  with r show ?thesis by blast
qed

text \<open>The new key goes to the end of the list.\<close>

definition install_key :: "ptr \<Rightarrow> linkaddr \<Rightarrow> 'c nbr_state \<Rightarrow> 'c nbr_state option" where
  "install_key k a s = Option.bind (list_add k (nbr_table_keys s))
     (\<lambda>l. Some (s\<lparr>nbr_table_keys := l, key_lladdr := (key_lladdr s)(k := a)\<rparr>))"

lemma install_key_inv:
  assumes "nbr_inv s ks {k}" "a \<notin> key_lladdr s ` set ks" "k \<noteq> NULL"
  shows "\<exists>s'. install_key k a s = Some s' \<and> nbr_inv s' (ks @ [k]) {} \<and> nbr_same s s' (set ks) \<and>
    key_lladdr s' k = a \<and> used_map s' ! slot s' k = 0 \<and> index_from_key s' k = int (slot s' k)"
proof -
  have k: "k \<notin> set ks" using assms(1) by (auto simp: nbr_inv_def)
  have l0: "list_repr (nbr_table_keys s) ks" and wf: "memb_wf (neighbor_addr_mem s)"
    and live: "k \<in> memb_live (neighbor_addr_mem s)" using assms(1) by (auto simp: nbr_inv_def)
  have "alist_add k ks = ks @ [k]" using k by (simp add: alist_defs remove1_idem)
  with cl.add [OF l0 assms(3)] obtain l where l: "list_add k (nbr_table_keys s) = Some l" "list_repr l (ks @ [k])" by auto
  let ?s = "s\<lparr>nbr_table_keys := l, key_lladdr := (key_lladdr s)(k := a)\<rparr>"
  note ls = live_slot [OF wf live]
  note inv = nbr_inv_parts [OF assms(1)]
  have "inj_on ((key_lladdr s)(k := a)) (set ks \<union> {k})"
    using inj_on_fun_updI [OF inv(5) assms(2), of k] assms(2) k by (auto simp: inj_on_insert)
  then have "inj_on ((key_lladdr s)(k := a)) (memb_live (neighbor_addr_mem s))" unfolding inv(4) .
  moreover have "insert k (set ks) = memb_live (neighbor_addr_mem s)" using inv(4) by simp
  moreover have "length (used_map s) = mnum (neighbor_addr_mem s)" "length (locked_map s) = mnum (neighbor_addr_mem s)"
    "\<forall>i<mnum (neighbor_addr_mem s). block_at (neighbor_addr_mem s) i \<notin> memb_live (neighbor_addr_mem s) \<longrightarrow>
      used_map s ! i = 0 \<and> locked_map s ! i = 0"
    by (simp_all add: inv(6,7)) (use inv(4,8) in blast)
  ultimately have "nbr_inv ?s (ks @ [k]) {}" unfolding nbr_inv_def using wf l(2) by simp
  moreover have "nbr_same s ?s (set ks)" using k by (auto simp: nbr_same_def)
  moreover have "used_map s ! slot s k = 0"
    using inv(8) ls(1,2) k by metis
  moreover have "slot ?s k = slot s k" "index_from_key ?s k = index_from_key s k"
    by (simp_all add: slot_def)
  ultimately show ?thesis using ls(3) by (simp add: install_key_def l(1))
qed

lemma table_bits_apart:
  assumes "nbr_table_is_registered s t" "nbr_table_is_registered s u" "t \<noteq> u"
  shows "table_bit s u AND table_bit s t = 0"
proof -
  have "bit (table_bit s u AND table_bit s t) n = False" if "n < 8" for n
  proof -
    have b: "bit (table_bit s v) n \<longleftrightarrow> nat (tb_index (tables s v)) = n" for v
      using that unfolding table_bit_def bit_push_bit_iff bit_1_iff by (auto simp: possible_bit_def)
    show ?thesis using assms unfolding bit_and_iff b nbr_table_is_registered_def by metis
  qed
  then show ?thesis by (simp add: bit_eq_iff)
qed

text \<open>Taking a neighbor into a table.\<close>

definition take_in :: "ptr \<Rightarrow> ptr \<Rightarrow> 'c nbr_state \<Rightarrow> 'c nbr_state" where
  "take_in t k s = (let s = zero_item t (item_from_key s t k) s
     in s\<lparr>used_map := (used_map s)[slot s k := used_map s ! slot s k OR table_bit s t]\<rparr>)"

lemma take_in_inv:
  assumes "nbr_inv s ks {}" "k \<in> set ks" "table_ok s t"
  defines "s' \<equiv> take_in t k s"
  shows "nbr_inv s' ks {}" "nbr_lookup s' ks t (key_lladdr s k) = Some (item_from_key s t k)"
    "b \<noteq> key_lladdr s k \<or> table_bit s u AND table_bit s t = 0 \<Longrightarrow> nbr_lookup s' ks u b = nbr_lookup s ks u b"
    "tables s' = tables s" "all_tables s' = all_tables s" "num_tables s' = num_tables s" "key_lladdr s' = key_lladdr s"
    "locked_map s' = locked_map s" "neighbor_addr_mem s' = neighbor_addr_mem s"
    "\<forall>i<nat (tb_item_size (tables s t)). item_bytes s' (item_from_key s t k + i) = 0"
proof -
  note k = nbr_inv_slot [OF assms(1,2)]
  show f: "tables s' = tables s" "all_tables s' = all_tables s" "num_tables s' = num_tables s" "key_lladdr s' = key_lladdr s"
    "locked_map s' = locked_map s" "neighbor_addr_mem s' = neighbor_addr_mem s"
    by (simp_all add: s'_def take_in_def zero_item_def Let_def)
  have ix: "index_from_key s' = index_from_key s" by (rule index_from_key_cong [OF f(6)])
  have g: "nbr_table_keys s' = nbr_table_keys s" "slot s' = slot s" "item_from_key s' u = item_from_key s u"
    "table_bit s' = table_bit s" "key_of s' = key_of s" for u
    by (simp_all add: fun_eq_iff slot_def ix item_from_key_def item_from_index_def table_bit_def f key_of_def)
       (simp add: s'_def take_in_def zero_item_def Let_def)
  have um: "used_map s' = (used_map s)[slot s k := used_map s ! slot s k OR table_bit s t]"
    by (simp add: s'_def take_in_def zero_item_def Let_def slot_def table_bit_def)
  have len: "slot s k < length (used_map s)" using assms(1) k(1) by (simp add: nbr_inv_def)
  have zeros: "used_map s' ! i = 0" if "i < mnum (neighbor_addr_mem s)" "block_at (neighbor_addr_mem s) i \<notin> set ks" for i
  proof -
    have "i \<noteq> slot s k" using that(2) assms(2) k(2) by auto
    then show ?thesis using nbr_inv_parts(8) [OF assms(1)] that unfolding um by simp
  qed
  show "nbr_inv s' ks {}"
    using nbr_inv_parts [OF assms(1)] zeros unfolding nbr_inv_def f g by (simp add: um)
  have inj: "inj_on (key_lladdr s) (set ks)" by (rule nbr_inv_parts(5) [OF assms(1)])
  have "table_bit s t \<noteq> 0"
  proof -
    have "nat (tb_index (tables s t)) < 8" using assms(3) by (simp add: table_ok_def MAX_NUM_TABLES_def nat_less_iff)
    then have "bit (table_bit s t) (nat (tb_index (tables s t)))"
      unfolding table_bit_def bit_push_bit_iff bit_1_iff by (simp add: possible_bit_def)
    then show ?thesis by auto
  qed
  then have "in_table s' t k"
    unfolding in_table_def g um using len by (simp add: bit.conj_disj_distrib2)
  moreover have "key_of s ks (key_lladdr s k) = Some k" using inj assms(2) by (simp add: key_of_iff)
  ultimately show "nbr_lookup s' ks t (key_lladdr s k) = Some (item_from_key s t k)" by (simp add: nbr_lookup_def g)
  show "nbr_lookup s' ks u b = nbr_lookup s ks u b"
    if apart: "b \<noteq> key_lladdr s k \<or> table_bit s u AND table_bit s t = 0" for u b
  proof -
    have "in_table s' u l = in_table s u l" if "key_of s ks b = Some l" for l
    proof (cases "l = k")
      case True
      with that key_of_Some [of s ks b l] apart have "table_bit s t AND table_bit s u = 0" by (simp add: and.commute)
      then show ?thesis unfolding in_table_def g um True using len by (simp add: bit.conj_disj_distrib2)
    next
      case False
      with slot_inj [OF assms(1) _ assms(2)] key_of_Some [OF that] have "slot s l \<noteq> slot s k" by simp
      then show ?thesis unfolding in_table_def g um by simp
    qed
    then show ?thesis by (simp add: nbr_lookup_def g split: option.split)
  qed
  show "\<forall>i<nat (tb_item_size (tables s t)). item_bytes s' (item_from_key s t k + i) = 0"
    by (simp add: s'_def take_in_def zero_item_def Let_def)
qed

lemma set_bit_item:
  assumes "table_ok s t"
  shows "nbr_set_bit s m t (item_from_index s t (int i)) v =
    (True, m[i := if v then m ! i OR table_bit s t else m ! i AND NOT (table_bit s t)])"
proof -
  have "t \<noteq> NULL" using assms by (simp add: table_ok_def)
  then show ?thesis unfolding nbr_set_bit_def Let_def index_from_item_index(1) [OF assms] by simp
qed

text \<open>The last steps of an addition, on the key that was found or made.\<close>

lemma take_in_steps:
  assumes "nbr_inv s ks h" "k \<in> set ks" "table_ok s t"
  shows "(let item = item_from_index s t (index_from_key s k); s = zero_item t item s
      in Some (item, s\<lparr>used_map := snd (nbr_set_bit s (used_map s) t item True)\<rparr>)) =
    Some (item_from_key s t k, take_in t k s)"
proof -
  let ?z = "zero_item t (item_from_key s t k) s"
  have z: "table_ok ?z t" "item_from_index ?z t = item_from_index s t" "used_map ?z = used_map s" "table_bit ?z t = table_bit s t"
    "slot ?z k = slot s k"
    using assms(3) by (simp_all add: zero_item_def table_ok_def fun_eq_iff item_from_index_def table_bit_def slot_def)
  have it: "item_from_key s t k = item_from_index s t (int (slot s k))" by (rule item_from_key_slot [OF assms(1,2)])
  have "nbr_set_bit ?z (used_map s) t (item_from_key s t k) True = (True, (used_map s)[slot s k := used_map s ! slot s k OR table_bit s t])"
    using set_bit_item [OF z(1), of "used_map s" "slot s k" True] by (simp only: z it [symmetric] if_True)
  then show ?thesis
    by (simp add: take_in_def Let_def z item_from_key_def [symmetric])
qed

lemma index_from_lladdr_known: "nbr_inv s ks h \<Longrightarrow> key_of s ks a = Some k \<Longrightarrow> index_from_lladdr s (Some a) = Some (int (slot s k))"
  by (simp add: index_from_lladdr_eq)

lemma index_from_lladdr_unknown: "nbr_inv s ks h \<Longrightarrow> key_of s ks a = None \<Longrightarrow> index_from_lladdr s (Some a) = Some (- 1)"
  by (simp add: index_from_lladdr_eq)

lemma entry_allowed_eq:
  assumes "nbr_inv s ks {}" "table_ok s t" "default_policy cf"
  shows "entry_is_allowed cf s t a reason data = Some
    (if key_of s ks a \<noteq> None \<or> memb_numfree (neighbor_addr_mem s) > 0 then (True, None)
     else (least_used s None ks \<noteq> None, map_option (key_lladdr s) (least_used s None ks)))"
proof -
  have g: "nbr_table_get_from_lladdr s t (Some a) = Some (case nbr_lookup s ks t a of None \<Rightarrow> NULL | Some it \<Rightarrow> it)"
    "nbr_lookup s ks t a \<noteq> Some NULL" by (rule get_from_lladdr_eq [OF assms(1,2)])+
  have acc: "can_accept_new cf s a None reason data" using assms(3) by (simp add: default_policy_def nbr_table_can_accept_new_def)
  have known: "nbr_lookup s ks t a \<noteq> None \<Longrightarrow> key_of s ks a \<noteq> None" by (auto simp: nbr_lookup_def split: option.splits)
  show ?thesis
  proof (cases "nbr_lookup s ks t a")
    case None
    then show ?thesis
      using g acc index_from_lladdr_eq [OF assms(1), of a] select_for_removal_eq [OF assms(1,3)]
      by (simp add: entry_is_allowed_def) (auto split: option.split)
  next
    case (Some it)
    then show ?thesis using g known by (simp add: entry_is_allowed_def)
  qed
qed

definition lladdr_of :: "linkaddr option \<Rightarrow> linkaddr" where
  "lladdr_of l = (case l of None \<Rightarrow> linkaddr_null | Some a \<Rightarrow> a)"

lemma nbr_add_known:
  assumes "nbr_inv s ks {}" "table_ok s t" "default_policy cf" "key_of s ks (lladdr_of l) = Some k"
  shows "nbr_table_add_lladdr cf t l reason data s = Some (item_from_key s t k, take_in t k s)"
proof -
  have k: "k \<in> set ks" using key_of_Some [OF assms(4)] by simp
  have t: "t \<noteq> NULL" using assms(2) by (simp add: table_ok_def)
  have ix: "index_from_lladdr s (Some (lladdr_of l)) = Some (index_from_key s k)" "index_from_key s k \<noteq> - 1"
    using index_from_lladdr_known [OF assms(1,4)] nbr_inv_slot(3) [OF assms(1) k] by simp_all
  show ?thesis
    using t ix entry_allowed_eq [OF assms(1-3), of "lladdr_of l" reason data] assms(4) take_in_steps [OF assms(1) k assms(2)]
    by (simp add: nbr_table_add_lladdr_def lladdr_of_def [symmetric])
qed

lemma nbr_add_refused:
  assumes "nbr_inv s ks {}" "table_ok s t" "default_policy cf" "key_of s ks (lladdr_of l) = None"
    "memb_numfree (neighbor_addr_mem s) = 0" "least_used s None ks = None"
  shows "nbr_table_add_lladdr cf t l reason data s = Some (NULL, s)"
proof -
  have t: "t \<noteq> NULL" using assms(2) by (simp add: table_ok_def)
  then show ?thesis
    using entry_allowed_eq [OF assms(1-3), of "lladdr_of l" reason data] assms(4-6)
    by (simp add: nbr_table_add_lladdr_def lladdr_of_def [symmetric])
qed

text \<open>A new key: from the pool or from the victim, as \<open>w\<close> says.\<close>

lemma nbr_add_new:
  assumes "nbr_inv s ks {}" "table_ok s t" "default_policy cf" "key_of s ks (lladdr_of l) = None"
    "entry_is_allowed cf s t (lladdr_of l) reason data = Some (True, w)" "nbr_table_allocate cf w s = Some (k, s1)"
    "install_key k (lladdr_of l) s1 = Some s2" "k \<noteq> NULL" "nbr_inv s2 ks2 {}" "k \<in> set ks2" "table_ok s2 t"
  shows "nbr_table_add_lladdr cf t l reason data s = Some (item_from_key s2 t k, take_in t k s2)"
proof -
  have t: "t \<noteq> NULL" using assms(2) by (simp add: table_ok_def)
  obtain l1 where l1: "list_add k (nbr_table_keys s1) = Some l1" "s2 = s1\<lparr>nbr_table_keys := l1, key_lladdr := (key_lladdr s1)(k := lladdr_of l)\<rparr>"
    using assms(7) by (auto simp: install_key_def bind_eq_Some_conv)
  have ix: "index_from_key (s1\<lparr>nbr_table_keys := l1\<rparr>) k = index_from_key s2 k" by (simp add: l1(2))
  have s2: "s1\<lparr>nbr_table_keys := l1, key_lladdr := (key_lladdr s1)(k := lladdr_of l)\<rparr> = s2" by (simp add: l1(2))
  show ?thesis
    using t assms(5,6,8) index_from_lladdr_unknown [OF assms(1,4)] take_in_steps [OF assms(9-11)] l1(1) ix s2
    by (simp add: nbr_table_add_lladdr_def lladdr_of_def [symmetric])
qed

lemma nbr_sameD:
  assumes "nbr_same s s' K"
  shows "tables s' = tables s" "all_tables s' = all_tables s" "num_tables s' = num_tables s"
    "index_from_key s' = index_from_key s" "slot s' = slot s" "item_from_key s' = item_from_key s" "table_bit s' = table_bit s"
    "nbr_table_is_registered s' = nbr_table_is_registered s" "table_ok s' = table_ok s" "tables_ok s' = tables_ok s"
    "l \<in> K \<Longrightarrow> key_lladdr s' l = key_lladdr s l" "l \<in> K \<Longrightarrow> used_map s' ! slot s l = used_map s ! slot s l"
proof -
  show f: "tables s' = tables s" "all_tables s' = all_tables s" "num_tables s' = num_tables s"
    and ix: "index_from_key s' = index_from_key s"
    using assms by (simp_all add: nbr_same_def fun_eq_iff index_from_key_def)
  show "slot s' = slot s" by (simp add: fun_eq_iff slot_def ix)
  show "item_from_key s' = item_from_key s" by (simp add: fun_eq_iff item_from_key_def item_from_index_def ix f)
  show "table_bit s' = table_bit s" by (simp add: fun_eq_iff table_bit_def f)
  show "nbr_table_is_registered s' = nbr_table_is_registered s" by (simp add: fun_eq_iff nbr_table_is_registered_def f)
  show tk: "table_ok s' = table_ok s" by (simp add: fun_eq_iff table_ok_def f)
  show "tables_ok s' = tables_ok s" by (simp add: tables_ok_def f tk)
  show "l \<in> K \<Longrightarrow> key_lladdr s' l = key_lladdr s l" "l \<in> K \<Longrightarrow> used_map s' ! slot s l = used_map s ! slot s l"
    using assms by (simp_all add: nbr_same_def)
qed

lemma nbr_same_trans: "nbr_same s s1 K \<Longrightarrow> nbr_same s1 s2 K \<Longrightarrow> nbr_same s s2 K"
  using nbr_sameD(5) [of s s1 K] unfolding nbr_same_def by simp

lemma tables_ok_cong:
  assumes "tables s' = tables s" "all_tables s' = all_tables s" "num_tables s' = num_tables s"
  shows "tables_ok s' = tables_ok s"
  unfolding tables_ok_def table_ok_def assms by (rule refl)

lemma option_eqI: "(\<And>l. x = Some l \<longleftrightarrow> y = Some l) \<Longrightarrow> x = y"
  by (cases x; cases y) auto

text \<open>An address whose key stays keeps its entries.\<close>

lemma lookup_kept:
  assumes "nbr_inv s ks h" "nbr_inv s' ks' h'" "nbr_same s s' K" "K \<subseteq> set ks" "K \<subseteq> set ks'"
    "\<And>l. l \<in> set ks - K \<Longrightarrow> key_lladdr s l \<noteq> b" "\<And>l. l \<in> set ks' - K \<Longrightarrow> key_lladdr s' l \<noteq> b"
  shows "nbr_lookup s' ks' u b = nbr_lookup s ks u b"
proof -
  note same = nbr_sameD [OF assms(3)]
  have "key_of s' ks' b = Some l \<longleftrightarrow> key_of s ks b = Some l" for l
    using key_of_iff [OF nbr_inv_parts(5) [OF assms(1)], of b l] key_of_iff [OF nbr_inv_parts(5) [OF assms(2)], of b l]
      assms(4-7) same(11) [of l] by (cases "l \<in> K") auto
  then have k: "key_of s' ks' b = key_of s ks b" by (rule option_eqI)
  have "l \<in> K" if "key_of s ks b = Some l" for l using key_of_Some [OF that] assms(6) by blast
  then have "in_table s' u l = in_table s u l" if "key_of s ks b = Some l" for l
    using that same(12) by (simp add: in_table_def same(5,7))
  then show ?thesis by (simp add: nbr_lookup_def k same(6) split: option.split)
qed

text \<open>What an addition that is not refused does, from the state \<open>s2\<close> in which the key is on the list.\<close>

lemma add_outcome:
  assumes "nbr_inv s2 ks2 {}" "k \<in> set ks2" "nbr_table_is_registered s t" "tables_ok s" "nbr_same s s2 K"
    "key_lladdr s2 k = a"
    "\<And>u b. nbr_table_is_registered s u \<Longrightarrow> b \<notin> gone \<Longrightarrow> b = a \<longrightarrow> u \<noteq> t \<Longrightarrow> nbr_lookup s2 ks2 u b = nbr_lookup s ks u b"
  shows "nbr_wf (take_in t k s2) ks2 \<and> nbr_lookup (take_in t k s2) ks2 t a = Some (item_from_key s2 t k) \<and>
    tables (take_in t k s2) = tables s \<and>
    key_lladdr (take_in t k s2) ` set ks2 = key_lladdr s2 ` set ks2 \<and>
    (\<forall>u b. nbr_table_is_registered s u \<longrightarrow> b \<notin> gone \<longrightarrow> (u, b) \<noteq> (t, a) \<longrightarrow>
      nbr_lookup (take_in t k s2) ks2 u b = nbr_lookup s ks u b) \<and>
    (\<forall>i<nat (tb_item_size (tables s t)). item_bytes (take_in t k s2) (item_from_key s2 t k + i) = 0)"
proof -
  note same = nbr_sameD [OF assms(5)]
  have t: "table_ok s2 t" using registered_ok [OF assms(4,3)] same(9) by simp
  note tk = take_in_inv [OF assms(1,2) t]
  have "nbr_wf (take_in t k s2) ks2"
    using tk(1) assms(4) same(10) tables_ok_cong [OF tk(4-6)] by (simp add: nbr_wf_def)
  moreover have "nbr_lookup (take_in t k s2) ks2 u b = nbr_lookup s ks u b"
    if u: "nbr_table_is_registered s u" "b \<notin> gone" "(u, b) \<noteq> (t, a)" for u b
  proof -
    have "b \<noteq> key_lladdr s2 k \<or> table_bit s2 u AND table_bit s2 t = 0"
      using table_bits_apart [OF assms(3) u(1)] u(3) assms(6) same(7) by auto
    from tk(3) [OF this] assms(7) [OF u(1,2)] u(3) show ?thesis by auto
  qed
  ultimately show ?thesis using tk(2,4,7,10) assms(6) same(1) by simp
qed

text \<open>The neighbors an addition of \<open>a\<close> drops: none, or the least used of the unlocked ones.\<close>

definition nbr_gone :: "'c nbr_state \<Rightarrow> ptr list \<Rightarrow> linkaddr \<Rightarrow> linkaddr set" where
  "nbr_gone s ks a = (if key_of s ks a \<noteq> None \<or> memb_numfree (neighbor_addr_mem s) > 0 then {}
     else case least_used s None ks of None \<Rightarrow> {} | Some v \<Rightarrow> {key_lladdr s v})"

lemma nbr_add_effect:
  assumes "nbr_wf s ks" "nbr_table_is_registered s t" "default_policy cf" "nbr_callbacks_ok cf"
    "key_of s ks (lladdr_of l) \<noteq> None \<or> memb_numfree (neighbor_addr_mem s) > 0 \<or> least_used s None ks \<noteq> None"
  shows "\<exists>k s2 ks2. nbr_table_add_lladdr cf t l reason data s = Some (item_from_key s2 t k, take_in t k s2) \<and>
    nbr_inv s2 ks2 {} \<and> k \<in> set ks2 \<and> key_lladdr s2 k = lladdr_of l \<and> (\<exists>K. nbr_same s s2 K) \<and>
    key_lladdr s2 ` set ks2 = insert (lladdr_of l) (key_lladdr s ` set ks - nbr_gone s ks (lladdr_of l)) \<and>
    (\<forall>u b. b \<notin> nbr_gone s ks (lladdr_of l) \<longrightarrow> nbr_lookup s2 ks2 u b = nbr_lookup s ks u b)"
proof -
  let ?a = "lladdr_of l"
  have inv: "nbr_inv s ks {}" and tok: "tables_ok s" using assms(1) by (simp_all add: nbr_wf_def)
  note t = registered_ok [OF tok assms(2)] and allowed = entry_allowed_eq [OF inv registered_ok [OF tok assms(2)] assms(3), of ?a reason data]
  show ?thesis
  proof (cases "key_of s ks ?a")
    case (Some k)
    have "nbr_same s s {}" "lladdr_of l \<in> key_lladdr s ` set ks"
      using key_of_Some [OF Some] imageI [of k "set ks" "key_lladdr s"] by (simp_all add: nbr_same_def)
    then show ?thesis
      using nbr_add_known [OF inv t assms(3) Some, of reason data] key_of_Some [OF Some] inv Some
      by (intro exI [of _ k] exI [of _ s] exI [of _ ks]) (auto simp: nbr_gone_def)
  next
    case None
    then have a: "?a \<notin> key_lladdr s ` set ks" by (simp add: key_of_None)
    have none: "nbr_lookup s ks u ?a = None" for u by (simp add: nbr_lookup_def None)
    show ?thesis
    proof (cases "memb_numfree (neighbor_addr_mem s) > 0")
      case True
      from allocate_fresh [OF inv True, of cf None] obtain k s1 where s1: "nbr_table_allocate cf None s = Some (k, s1)"
        "nbr_inv s1 ks {k}" "nbr_same s s1 (set ks)" "k \<noteq> NULL" by blast
      have a1: "?a \<notin> key_lladdr s1 ` set ks" using a nbr_sameD(11) [OF s1(3)] by (auto simp: image_iff)
      from install_key_inv [OF s1(2) a1 s1(4)] obtain s2 where s2: "install_key k ?a s1 = Some s2" "nbr_inv s2 (ks @ [k]) {}"
        "nbr_same s1 s2 (set ks)" "key_lladdr s2 k = ?a" "used_map s2 ! slot s2 k = 0" by blast
      have same: "nbr_same s s2 (set ks)" by (rule nbr_same_trans [OF s1(3) s2(3)])
      have k: "k \<in> set (ks @ [k])" "table_ok s2 t" using t nbr_sameD(9) [OF same] by simp_all
      have "entry_is_allowed cf s t ?a reason data = Some (True, None)" using allowed True by simp
      from nbr_add_new [OF inv t assms(3) None this s1(1) s2(1) s1(4) s2(2) k]
      have ret: "nbr_table_add_lladdr cf t l reason data s = Some (item_from_key s2 t k, take_in t k s2)" .
      have "key_of s2 (ks @ [k]) ?a = Some k" using key_of_iff [OF nbr_inv_parts(5) [OF s2(2)]] s2(4) by simp
      then have "nbr_lookup s2 (ks @ [k]) u ?a = None" for u using s2(5) by (simp add: nbr_lookup_def in_table_def)
      moreover have "nbr_lookup s2 (ks @ [k]) u b = nbr_lookup s ks u b" if "b \<noteq> ?a" for u b
        by (rule lookup_kept [OF inv s2(2) same]) (use s2(4) that in auto)
      ultimately have "nbr_lookup s2 (ks @ [k]) u b = nbr_lookup s ks u b" for u b using none by metis
      moreover have "key_lladdr s2 ` set (ks @ [k]) = insert ?a (key_lladdr s ` set ks)"
        using nbr_sameD(11) [OF same] s2(4) by (auto simp: image_iff)
      ultimately show ?thesis
        using ret s2(2,4) k(1) same True by (intro exI [of _ k] exI [of _ s2] exI [of _ "ks @ [k]"]) (auto simp: nbr_gone_def)
    next
      case False
      with assms(5) None obtain v where v: "least_used s None ks = Some v" by auto
      with least_used_best [OF v] have vk: "v \<in> set ks" by simp
      have full: "memb_numfree (neighbor_addr_mem s) = 0" using False by simp
      from allocate_victim [OF inv full vk assms(4)] obtain s1 where s1:
        "nbr_table_allocate cf (Some (key_lladdr s v)) s = Some (v, s1)" "nbr_inv s1 (remove1 v ks) {v}"
        "nbr_same s s1 (set ks - {v})" by blast
      have "distinct ks" using lpath_distinct nbr_inv_parts(2) [OF inv] by (auto simp: list_repr_def)
      then have ks1: "set (remove1 v ks) = set ks - {v}" by simp
      have vN: "v \<noteq> NULL" by (rule nbr_inv_slot(4) [OF inv vk])
      have a1: "?a \<notin> key_lladdr s1 ` set (remove1 v ks)" unfolding ks1 using a nbr_sameD(11) [OF s1(3)] by (auto simp: image_iff)
      from install_key_inv [OF s1(2) a1 vN] obtain s2 where s2: "install_key v ?a s1 = Some s2"
        "nbr_inv s2 (remove1 v ks @ [v]) {}" "nbr_same s1 s2 (set ks - {v})" "key_lladdr s2 v = ?a" "used_map s2 ! slot s2 v = 0"
        unfolding ks1 by blast
      have same: "nbr_same s s2 (set ks - {v})" by (rule nbr_same_trans [OF s1(3) s2(3)])
      have k: "v \<in> set (remove1 v ks @ [v])" "table_ok s2 t" using t nbr_sameD(9) [OF same] by simp_all
      have "entry_is_allowed cf s t ?a reason data = Some (True, Some (key_lladdr s v))" using allowed full None v by simp
      from nbr_add_new [OF inv t assms(3) None this s1(1) s2(1) vN s2(2) k]
      have ret: "nbr_table_add_lladdr cf t l reason data s = Some (item_from_key s2 t v, take_in t v s2)" .
      have "key_of s2 (remove1 v ks @ [v]) ?a = Some v" using key_of_iff [OF nbr_inv_parts(5) [OF s2(2)]] s2(4) by simp
      then have "nbr_lookup s2 (remove1 v ks @ [v]) u ?a = None" for u using s2(5) by (simp add: nbr_lookup_def in_table_def)
      moreover have "nbr_lookup s2 (remove1 v ks @ [v]) u b = nbr_lookup s ks u b" if "b \<noteq> ?a" "b \<noteq> key_lladdr s v" for u b
        by (rule lookup_kept [OF inv s2(2) same]) (use s2(4) that ks1 in auto)
      ultimately have "nbr_lookup s2 (remove1 v ks @ [v]) u b = nbr_lookup s ks u b" if "b \<noteq> key_lladdr s v" for u b
        using none that by metis
      moreover have gone: "nbr_gone s ks ?a = {key_lladdr s v}" using None full v by (simp add: nbr_gone_def)
      moreover have "key_lladdr s2 ` set (remove1 v ks @ [v]) = insert ?a (key_lladdr s ` set ks - {key_lladdr s v})"
      proof -
        have "key_lladdr s2 ` (set ks - {v}) = key_lladdr s ` (set ks - {v})" using nbr_sameD(11) [OF same] by (rule image_cong [OF refl])
        also have "\<dots> = key_lladdr s ` set ks - {key_lladdr s v}"
          using inj_on_image_set_diff [OF nbr_inv_parts(5) [OF inv], of "set ks" "{v}"] vk by simp
        finally show ?thesis unfolding set_append ks1 image_Un using s2(4) by simp
      qed
      ultimately show ?thesis
        using ret s2(2,4) k(1) same by (intro exI [of _ v] exI [of _ s2] exI [of _ "remove1 v ks @ [v]"]) auto
    qed
  qed
qed

section \<open>The other operations\<close>

text \<open>An item of a table, as its clients hold it.\<close>

definition item_of :: "'c nbr_state \<Rightarrow> ptr \<Rightarrow> ptr \<Rightarrow> bool" where
  "item_of s t it \<longleftrightarrow> nbr_table_is_registered s t \<and> (\<exists>k \<in> memb_live (neighbor_addr_mem s). it = item_from_key s t k)"

lemma item_ofE:
  assumes "nbr_wf s ks" "item_of s t it"
  obtains k where "k \<in> set ks" "it = item_from_index s t (int (slot s k))" "table_ok s t" "slot s k < mnum (neighbor_addr_mem s)"
proof -
  have inv: "nbr_inv s ks {}" and tok: "tables_ok s" using assms(1) by (simp_all add: nbr_wf_def)
  from assms(2) obtain k where k: "k \<in> set ks" "it = item_from_key s t k" "nbr_table_is_registered s t"
    using nbr_inv_all_live [OF inv] by (auto simp: item_of_def)
  show ?thesis
    using that [OF k(1)] k(2) item_from_key_slot [OF inv k(1)] registered_ok [OF tok k(3)] nbr_inv_slot(1) [OF inv k(1)] by simp
qed

text \<open>Changing the bits of a neighbor that is on the list keeps the invariant.\<close>

lemma nbr_inv_maps:
  assumes "nbr_wf s ks" "k \<in> set ks"
  shows "nbr_wf (s\<lparr>used_map := (used_map s)[slot s k := a]\<rparr>) ks" "nbr_wf (s\<lparr>locked_map := (locked_map s)[slot s k := a]\<rparr>) ks"
proof -
  have inv: "nbr_inv s ks {}" using assms(1) by (simp add: nbr_wf_def)
  note p = nbr_inv_parts [OF inv] and k = nbr_inv_slot [OF inv assms(2)]
  have ne: "i \<noteq> slot s k" if "block_at (neighbor_addr_mem s) i \<notin> set ks" for i using that k(2) assms(2) by auto
  have "(used_map s)[slot s k := a] ! i = 0 \<and> (locked_map s)[slot s k := a] ! i = 0"
    if "i < mnum (neighbor_addr_mem s)" "block_at (neighbor_addr_mem s) i \<notin> set ks" for i
    using p(8) that ne [OF that(2)] by simp
  then have zeros: "\<forall>i<mnum (neighbor_addr_mem s). block_at (neighbor_addr_mem s) i \<notin> set ks \<longrightarrow>
      (used_map s)[slot s k := a] ! i = 0 \<and> (locked_map s)[slot s k := a] ! i = 0" by blast
  have "nbr_inv (s\<lparr>used_map := (used_map s)[slot s k := a]\<rparr>) ks {}"
    using p zeros unfolding nbr_inv_def by simp
  then show "nbr_wf (s\<lparr>used_map := (used_map s)[slot s k := a]\<rparr>) ks"
    using assms(1) tables_ok_cong [of "s\<lparr>used_map := (used_map s)[slot s k := a]\<rparr>" s] by (simp add: nbr_wf_def)
  have "nbr_inv (s\<lparr>locked_map := (locked_map s)[slot s k := a]\<rparr>) ks {}"
    using p zeros unfolding nbr_inv_def by simp
  then show "nbr_wf (s\<lparr>locked_map := (locked_map s)[slot s k := a]\<rparr>) ks"
    using assms(1) tables_ok_cong [of "s\<lparr>locked_map := (locked_map s)[slot s k := a]\<rparr>" s] by (simp add: nbr_wf_def)
qed

lemma set_bit_frame [simp]:
  "table_bit (s\<lparr>used_map := u\<rparr>) = table_bit s" "index_from_item (s\<lparr>used_map := u\<rparr>) = index_from_item s"
  "slot (s\<lparr>used_map := u\<rparr>) = slot s"
  by (simp_all add: fun_eq_iff index_from_item_def table_bit_def slot_def)

lemma set_bit_frame' [simp]: "nbr_set_bit (s\<lparr>used_map := u\<rparr>) = nbr_set_bit s"
  by (intro ext) (unfold nbr_set_bit_def set_bit_frame, rule refl)

lemma nbr_table_lock_wf:
  assumes "nbr_wf s ks" "item_of s t it"
  shows "nbr_wf (snd (nbr_table_lock t it s)) ks" "nbr_wf (snd (nbr_table_unlock t it s)) ks" "fst (nbr_table_lock t it s)"
proof -
  from item_ofE [OF assms] obtain k where k: "k \<in> set ks" "it = item_from_index s t (int (slot s k))" "table_ok s t" by blast
  note b = set_bit_item [OF k(3), of "locked_map s" "slot s k", folded k(2)]
  show "nbr_wf (snd (nbr_table_lock t it s)) ks" "nbr_wf (snd (nbr_table_unlock t it s)) ks" "fst (nbr_table_lock t it s)"
    using nbr_inv_maps(2) [OF assms(1) k(1)] by (simp_all add: nbr_table_lock_def nbr_table_unlock_def b)
qed

lemma nbr_table_remove_eq:
  assumes "nbr_wf s ks" "k \<in> set ks" "table_ok s t"
  shows "nbr_table_remove t (item_from_key s t k) s =
    (True, s\<lparr>used_map := (used_map s)[slot s k := used_map s ! slot s k AND NOT (table_bit s t)],
       locked_map := (locked_map s)[slot s k := locked_map s ! slot s k AND NOT (table_bit s t)]\<rparr>)"
proof -
  have inv: "nbr_inv s ks {}" using assms(1) by (simp add: nbr_wf_def)
  have it: "item_from_key s t k = item_from_index s t (int (slot s k))" by (rule item_from_key_slot [OF inv assms(2)])
  show ?thesis unfolding it nbr_table_remove_def by (simp add: set_bit_item [OF assms(3)] Let_def)
qed

lemma nbr_table_remove_wf:
  assumes "nbr_wf s ks" "item_of s t it"
  shows "nbr_wf (snd (nbr_table_remove t it s)) ks"
proof -
  from item_ofE [OF assms] obtain k where k: "k \<in> set ks" "it = item_from_index s t (int (slot s k))" "table_ok s t" by blast
  have inv: "nbr_inv s ks {}" using assms(1) by (simp add: nbr_wf_def)
  have it: "it = item_from_key s t k" using k(2) item_from_key_slot [OF inv k(1)] by simp
  note u = nbr_inv_maps(1) [OF assms(1) k(1), of "used_map s ! slot s k AND NOT (table_bit s t)"]
  from nbr_inv_maps(2) [OF u k(1)] show ?thesis
    unfolding it nbr_table_remove_eq [OF assms(1) k(1,3)] by simp
qed

lemma word_minus_bits: "a AND b = 0 \<Longrightarrow> NOT b AND a = (a :: u8)"
  by (rule bit_word_eqI) (auto simp: bit_eq_iff bit_and_iff bit_not_iff)

text \<open>Removing takes the neighbor out of this table and out of no other; the key stays.\<close>

lemma nbr_table_remove_lookup:
  assumes "nbr_wf s ks" "k \<in> set ks" "nbr_table_is_registered s t" "nbr_table_is_registered s u"
  defines "s' \<equiv> snd (nbr_table_remove t (item_from_key s t k) s)"
  shows "nbr_lookup s' ks u b = (if u = t \<and> b = key_lladdr s k then None else nbr_lookup s ks u b)"
proof -
  have inv: "nbr_inv s ks {}" and tok: "tables_ok s" using assms(1) by (simp_all add: nbr_wf_def)
  have t: "table_ok s t" by (rule registered_ok [OF tok assms(3)])
  note eq = nbr_table_remove_eq [OF assms(1,2) t]
  have s': "s' = s\<lparr>used_map := (used_map s)[slot s k := used_map s ! slot s k AND NOT (table_bit s t)],
       locked_map := (locked_map s)[slot s k := locked_map s ! slot s k AND NOT (table_bit s t)]\<rparr>"
    unfolding s'_def eq by (rule snd_conv)
  have f: "key_of s' = key_of s" "slot s' = slot s" "table_bit s' = table_bit s" "item_from_key s' = item_from_key s"
    "used_map s' = (used_map s)[slot s k := used_map s ! slot s k AND NOT (table_bit s t)]"
    unfolding s' by (simp_all add: fun_eq_iff key_of_def slot_def table_bit_def item_from_key_def item_from_index_def)
  have len: "slot s k < length (used_map s)"
    using nbr_inv_slot(1) [OF inv assms(2)] nbr_inv_parts(6) [OF inv] by simp
  have key: "key_of s ks b = Some k \<longleftrightarrow> b = key_lladdr s k"
    using key_of_iff [OF nbr_inv_parts(5) [OF inv]] assms(2) by auto
  have same: "in_table s' t k = False" "u \<noteq> t \<Longrightarrow> in_table s' u k = in_table s u k"
  proof -
    show "in_table s' t k = False" using len by (simp add: in_table_def f and.assoc)
    show "in_table s' u k = in_table s u k" if "u \<noteq> t"
    proof -
      have "table_bit s u AND table_bit s t = 0" using table_bits_apart [OF assms(3,4)] that by simp
      then have "NOT (table_bit s t) AND table_bit s u = table_bit s u"
        by (rule word_minus_bits)
      then show ?thesis using len by (simp add: in_table_def f and.assoc)
    qed
  qed
  have other: "in_table s' u l = in_table s u l" if "key_of s ks b = Some l" "l \<noteq> k" for l
    using slot_inj [OF inv _ assms(2), of l] key_of_Some [OF that(1)] that(2) by (simp add: in_table_def f)
  show ?thesis
  proof (cases "key_of s ks b")
    case None
    then show ?thesis by (simp add: nbr_lookup_def f)
  next
    case (Some l)
    then show ?thesis using key same other [OF Some] by (cases "l = k") (auto simp: nbr_lookup_def f)
  qed
qed

lemma remove_key_free:
  assumes "nbr_wf s ks" "k \<in> set ks" "nbr_callbacks_ok cf"
  shows "\<exists>s'. remove_key cf k True s = Some s' \<and> nbr_wf s' (remove1 k ks)"
proof -
  have inv: "nbr_inv s ks {}" and tok: "tables_ok s" using assms(1) by (simp_all add: nbr_wf_def)
  from remove_key_inv [OF inv assms(2,3)] obtain s1 where s1: "remove_key cf k False s = Some s1"
    "nbr_inv s1 (remove1 k ks) {k}" "nbr_same s s1 (set ks - {k})" by blast
  let ?s = "s1\<lparr>neighbor_addr_mem := snd (memb_free (neighbor_addr_mem s1) k)\<rparr>"
  have ret: "remove_key cf k True s = Some ?s"
    using s1(1) by (auto simp: remove_key_def Let_def bind_eq_Some_conv)
  note p = nbr_inv_parts [OF s1(2)]
  have live: "k \<in> memb_live (neighbor_addr_mem s1)" using p(4) by auto
  note fr = memb_free_live [OF p(1) live]
  have geo: "mnum (snd (memb_free (neighbor_addr_mem s1) k)) = mnum (neighbor_addr_mem s1)"
    "block_at (snd (memb_free (neighbor_addr_mem s1) k)) = block_at (neighbor_addr_mem s1)"
  proof -
    obtain i where i: "i < mnum (neighbor_addr_mem s1)" "k = block_at (neighbor_addr_mem s1) i" using live by (auto simp: memb_live_def)
    show "mnum (snd (memb_free (neighbor_addr_mem s1) k)) = mnum (neighbor_addr_mem s1)"
      "block_at (snd (memb_free (neighbor_addr_mem s1) k)) = block_at (neighbor_addr_mem s1)"
      unfolding i(2) memb_free_block [OF p(1) i(1)] by simp_all
  qed
  have "set (remove1 k ks) = memb_live (neighbor_addr_mem s1) - {k}" using p(3,4) by auto
  then have "nbr_inv ?s (remove1 k ks) {}"
    using p fr geo unfolding nbr_inv_def by simp
  moreover have "tables_ok ?s" using tok nbr_sameD(10) [OF s1(3)] tables_ok_cong [of ?s s1] by simp
  ultimately show ?thesis using ret by (simp add: nbr_wf_def)
qed

lemma nbr_table_clear_wf:
  assumes "nbr_wf s ks" "nbr_callbacks_ok cf"
  shows "\<exists>s'. nbr_table_clear cf s = Some s' \<and> nbr_wf s' []"
  using assms(1)
proof (induction "length ks" arbitrary: s ks)
  case 0
  then have "list_repr (nbr_table_keys s) []" by (auto simp: nbr_wf_def nbr_inv_def)
  then have "list_head (nbr_table_keys s) = NULL" by (simp add: list_repr_def list_head_def)
  then show ?case using 0 by (subst nbr_table_clear.simps) simp
next
  case (Suc n)
  then obtain k zs where ks: "ks = k # zs" by (cases ks) auto
  have inv: "nbr_inv s ks {}" using Suc.prems by (simp add: nbr_wf_def)
  have head: "list_head (nbr_table_keys s) = k" using nbr_inv_parts(2) [OF inv] by (simp add: ks list_repr_def list_head_def)
  have k: "k \<in> set ks" "k \<noteq> NULL" using nbr_inv_slot(4) [OF inv] by (simp_all add: ks)
  from remove_key_free [OF Suc.prems k(1) assms(2)] obtain s1 where s1: "remove_key cf k True s = Some s1" "nbr_wf s1 zs"
    by (auto simp: ks)
  have "n = length zs" using Suc.hyps(2) ks by simp
  from Suc.hyps(1) [OF this s1(2)] show ?case
    unfolding nbr_table_clear.simps [of cf s] using head k(2) s1(1) by (simp add: Let_def)
qed

section \<open>Registering\<close>

lemma unregistered_absent:
  assumes "tables_ok s" "\<not> nbr_table_is_registered s t" "t \<noteq> NULL" "i < MAX_NUM_TABLES"
  shows "all_tables s ! i \<noteq> t"
proof
  assume t: "all_tables s ! i = t"
  with assms(1,3,4) have "i < unat (num_tables s)" unfolding tables_ok_def by metis
  with assms(1,4) t have "tb_index (tables s t) = int i" unfolding tables_ok_def by metis
  with t assms(2-4) show False by (simp add: nbr_table_is_registered_def)
qed

lemma nbr_table_register_wf:
  assumes "nbr_wf s ks" "t \<noteq> NULL" "0 < tb_item_size (tables s t)" "tb_data (tables s t) \<noteq> NULL"
  shows "nbr_wf (snd (nbr_table_register t f s)) ks"
    "fst (nbr_table_register t f s) \<Longrightarrow> nbr_table_is_registered (snd (nbr_table_register t f s)) t"
proof -
  have inv: "nbr_inv s ks {}" and tok: "tables_ok s" using assms(1) by (simp_all add: nbr_wf_def)
  have len: "length (all_tables s) = MAX_NUM_TABLES" "unat (num_tables s) \<le> MAX_NUM_TABLES" using tok by (simp_all add: tables_ok_def)
  have keep: "nbr_inv s' ks {}" if "used_map s' = used_map s" "locked_map s' = locked_map s" "neighbor_addr_mem s' = neighbor_addr_mem s"
    "nbr_table_keys s' = nbr_table_keys s" "key_lladdr s' = key_lladdr s" for s' :: "'a nbr_state"
    using inv unfolding nbr_inv_def that .
  have all: "nbr_wf (snd (nbr_table_register t f s)) ks \<and> (fst (nbr_table_register t f s) \<longrightarrow>
      nbr_table_is_registered (snd (nbr_table_register t f s)) t)"
  proof (cases "nbr_table_is_registered s t")
    case True
    let ?s = "s\<lparr>tables := (tables s)(t := (tables s t)\<lparr>tb_callback := f\<rparr>)\<rparr>"
    have reg: "nbr_table_register t f s = (True, ?s)" using True by (simp add: nbr_table_register_def)
    have tk: "table_ok ?s u = table_ok s u" "tb_index (tables ?s u) = tb_index (tables s u)" for u
      by (simp_all add: table_ok_def)
    have "tables_ok ?s" using tok unfolding tables_ok_def tk by simp
    moreover have "nbr_inv ?s ks {}" by (rule keep) simp_all
    moreover have "nbr_table_is_registered ?s t" using True by (simp add: nbr_table_is_registered_def)
    ultimately show ?thesis by (simp add: reg nbr_wf_def)
  next
    case False
    show ?thesis
    proof (cases "num_tables s < of_nat MAX_NUM_TABLES")
      case False
      with \<open>\<not> nbr_table_is_registered s t\<close> have "nbr_table_register t f s = (False, s)" by (simp add: nbr_table_register_def)
      with assms(1) show ?thesis by simp
    next
      case True
      let ?n = "unat (num_tables s)"
      have n: "?n < MAX_NUM_TABLES" using True by (simp add: MAX_NUM_TABLES_def word_less_nat_alt)
      have nn: "uint (num_tables s) < int MAX_NUM_TABLES" using n by (metis of_nat_less_iff uint_nat)
      define s' where "s' = s\<lparr>tables := (tables s)(t := (tables s t)\<lparr>tb_index := int ?n, tb_callback := f\<rparr>),
        num_tables := num_tables s + 1, all_tables := (all_tables s)[?n := t]\<rparr>"
      have reg: "nbr_table_register t f s = (True, s')"
        using False True by (simp add: nbr_table_register_def Let_def s'_def nat_uint_eq)
      have n1: "unat (num_tables s + 1) = Suc ?n"
        using n by (simp add: MAX_NUM_TABLES_def unat_word_ariths unat_add_lem)
      have old: "table_ok s (all_tables s ! i) \<and> tb_index (tables s (all_tables s ! i)) = int i" if "i < ?n" for i
        using tok that n unfolding tables_ok_def by simp
      have none: "all_tables s ! i = NULL" if "?n \<le> i" "i < MAX_NUM_TABLES" for i
        using tok that unfolding tables_ok_def by (metis not_less)
      have new: "table_ok s' t" "tb_index (tables s' t) = int ?n"
        using assms(2-4) nn by (simp_all add: s'_def table_ok_def)
      have "if i < Suc ?n then table_ok s' (all_tables s' ! i) \<and> tb_index (tables s' (all_tables s' ! i)) = int i
          else all_tables s' ! i = NULL" if i: "i < MAX_NUM_TABLES" for i
      proof (cases "i = ?n")
        case True
        then have at: "all_tables s' ! i = t" using n len(1) by (simp add: s'_def)
        show ?thesis unfolding at using new True by simp
      next
        case ne: False
        have at: "all_tables s' ! i = all_tables s ! i" using ne by (simp add: s'_def)
        show ?thesis
        proof (cases "i < ?n")
          case True
          have "all_tables s ! i \<noteq> t" by (rule unregistered_absent [OF tok False assms(2) i])
          then show ?thesis using old [OF True] True unfolding at by (simp add: s'_def table_ok_def)
        next
          case False
          then show ?thesis using none [of i] i ne unfolding at by simp
        qed
      qed
      moreover have "length (all_tables s') = MAX_NUM_TABLES" "unat (num_tables s') = Suc ?n"
        using len(1) n1 by (simp_all add: s'_def)
      ultimately have "tables_ok s'" using n unfolding tables_ok_def by auto
      moreover have "nbr_inv s' ks {}" by (rule keep) (simp_all add: s'_def)
      moreover have "nbr_table_is_registered s' t"
        using assms(2) n nn len(1) by (simp add: nbr_table_is_registered_def s'_def)
      ultimately show ?thesis by (simp add: reg nbr_wf_def)
    qed
  qed
  from all show "nbr_wf (snd (nbr_table_register t f s)) ks" by blast
  from all show "fst (nbr_table_register t f s) \<Longrightarrow> nbr_table_is_registered (snd (nbr_table_register t f s)) t" by blast
qed

section \<open>Sequences of calls\<close>

datatype nbr_call =
  Nbr_register ptr ptr | Nbr_add ptr "linkaddr option" nat ptr | Nbr_remove ptr ptr | Nbr_lock ptr ptr
  | Nbr_unlock ptr ptr | Nbr_clear

definition nbr_do :: "'c nbr_conf \<Rightarrow> nbr_call \<Rightarrow> 'c nbr_state \<Rightarrow> 'c nbr_state option" where
  "nbr_do cf k s = (case k of
     Nbr_register t f \<Rightarrow> Some (snd (nbr_table_register t f s))
   | Nbr_add t a reason data \<Rightarrow> map_option snd (nbr_table_add_lladdr cf t a reason data s)
   | Nbr_remove t it \<Rightarrow> Some (snd (nbr_table_remove t it s))
   | Nbr_lock t it \<Rightarrow> Some (snd (nbr_table_lock t it s))
   | Nbr_unlock t it \<Rightarrow> Some (snd (nbr_table_unlock t it s))
   | Nbr_clear \<Rightarrow> nbr_table_clear cf s)"

text \<open>Clients register tables with room for their items, and use registered tables and items of theirs.\<close>

definition nbr_allowed :: "nbr_call \<Rightarrow> 'c nbr_state \<Rightarrow> bool" where
  "nbr_allowed k s = (case k of
     Nbr_register t f \<Rightarrow> t \<noteq> NULL \<and> 0 < tb_item_size (tables s t) \<and> tb_data (tables s t) \<noteq> NULL
   | Nbr_add t a reason data \<Rightarrow> nbr_table_is_registered s t
   | Nbr_remove t it \<Rightarrow> item_of s t it
   | Nbr_lock t it \<Rightarrow> item_of s t it
   | Nbr_unlock t it \<Rightarrow> item_of s t it
   | Nbr_clear \<Rightarrow> True)"

fun nbr_run :: "'c nbr_conf \<Rightarrow> nbr_call list \<Rightarrow> 'c nbr_state \<Rightarrow> 'c nbr_state option" where
  "nbr_run cf [] s = Some s"
| "nbr_run cf (k # ks) s = Option.bind (nbr_do cf k s) (nbr_run cf ks)"

fun nbr_run_allowed :: "'c nbr_conf \<Rightarrow> nbr_call list \<Rightarrow> 'c nbr_state \<Rightarrow> bool" where
  "nbr_run_allowed cf [] s = True"
| "nbr_run_allowed cf (k # ks) s =
     (nbr_allowed k s \<and> (case nbr_do cf k s of None \<Rightarrow> True | Some s' \<Rightarrow> nbr_run_allowed cf ks s'))"

lemma nbr_add_wf:
  assumes "nbr_wf s ks" "nbr_table_is_registered s t" "default_policy cf" "nbr_callbacks_ok cf"
  shows "\<exists>r s' ks'. nbr_table_add_lladdr cf t l reason data s = Some (r, s') \<and> nbr_wf s' ks'"
proof (cases "key_of s ks (lladdr_of l) \<noteq> None \<or> memb_numfree (neighbor_addr_mem s) > 0 \<or> least_used s None ks \<noteq> None")
  case True
  have tok: "tables_ok s" using assms(1) by (simp add: nbr_wf_def)
  from nbr_add_effect [OF assms True, of reason data] obtain k s2 ks2 K where a:
    "nbr_table_add_lladdr cf t l reason data s = Some (item_from_key s2 t k, take_in t k s2)"
    "nbr_inv s2 ks2 {}" "k \<in> set ks2" "nbr_same s s2 K" by blast
  have t: "table_ok s2 t" using registered_ok [OF tok assms(2)] nbr_sameD(9) [OF a(4)] by simp
  note tk = take_in_inv [OF a(2,3) t]
  have "nbr_wf (take_in t k s2) ks2"
    using tk(1) tok nbr_sameD(10) [OF a(4)] tables_ok_cong [OF tk(4-6)] by (simp add: nbr_wf_def)
  with a(1) show ?thesis by blast
next
  case False
  then have f: "key_of s ks (lladdr_of l) = None" "memb_numfree (neighbor_addr_mem s) = 0" "least_used s None ks = None" by simp_all
  have inv: "nbr_inv s ks {}" and tok: "tables_ok s" using assms(1) by (simp_all add: nbr_wf_def)
  from nbr_add_refused [OF inv registered_ok [OF tok assms(2)] assms(3) f] assms(1) show ?thesis by blast
qed

lemma nbr_do_wf:
  assumes "nbr_wf s ks" "default_policy cf" "nbr_callbacks_ok cf" "nbr_allowed k s"
  shows "\<exists>s' ks'. nbr_do cf k s = Some s' \<and> nbr_wf s' ks'"
proof (cases k)
  case (Nbr_register t f)
  then show ?thesis
    using nbr_table_register_wf(1) [OF assms(1), of t f] assms(4) by (auto simp: nbr_do_def nbr_allowed_def)
next
  case (Nbr_add t a reason data)
  then have "nbr_table_is_registered s t" using assms(4) by (simp add: nbr_allowed_def)
  from nbr_add_wf [OF assms(1) this assms(2,3), of a reason data] Nbr_add show ?thesis by (auto simp: nbr_do_def)
next
  case (Nbr_remove t it)
  then show ?thesis using nbr_table_remove_wf [OF assms(1)] assms(4) by (auto simp: nbr_do_def nbr_allowed_def)
next
  case (Nbr_lock t it)
  then show ?thesis using nbr_table_lock_wf(1) [OF assms(1)] assms(4) by (auto simp: nbr_do_def nbr_allowed_def)
next
  case (Nbr_unlock t it)
  then show ?thesis using nbr_table_lock_wf(2) [OF assms(1)] assms(4) by (auto simp: nbr_do_def nbr_allowed_def)
next
  case Nbr_clear
  then show ?thesis using nbr_table_clear_wf [OF assms(1,3)] by (auto simp: nbr_do_def)
qed

lemma nbr_run_wf:
  assumes "nbr_wf s ks" "default_policy cf" "nbr_callbacks_ok cf" "nbr_run_allowed cf calls s"
  shows "\<exists>s' ks'. nbr_run cf calls s = Some s' \<and> nbr_wf s' ks'"
  using assms(1,4)
proof (induction calls arbitrary: s ks)
  case (Cons k calls)
  then have "nbr_allowed k s" by simp
  from nbr_do_wf [OF Cons.prems(1) assms(2,3) this] obtain s1 ks1 where s1: "nbr_do cf k s = Some s1" "nbr_wf s1 ks1" by blast
  with Cons.IH [OF s1(2)] Cons.prems(2) show ?case by simp
qed auto

text \<open>At boot no table is registered and no key is in use.\<close>

definition nbr_boot :: "memb \<Rightarrow> (ptr \<Rightarrow> nbr_table) \<Rightarrow> 'c \<Rightarrow> 'c nbr_state" where
  "nbr_boot m ts cl = \<lparr>used_map = replicate (mnum m) 0, locked_map = replicate (mnum m) 0,
     all_tables = replicate MAX_NUM_TABLES NULL, num_tables = 0, tables = ts,
     neighbor_addr_mem = m\<lparr>mused := replicate (mnum m) False\<rparr>, nbr_table_keys = \<lparr>head = NULL, nxt = (\<lambda>_. NULL)\<rparr>,
     key_lladdr = (\<lambda>_. linkaddr_null), item_bytes = (\<lambda>_. 0), nbr_client = cl\<rparr>"

lemma nbr_boot_wf: "0 < msize m \<Longrightarrow> 0 < mbase m \<Longrightarrow> nbr_wf (nbr_boot m ts cl) []"
  by (auto simp: nbr_wf_def nbr_inv_def tables_ok_def nbr_boot_def memb_wf_def list_repr_def memb_live_def)

section \<open>What an addition promises\<close>

lemma nbr_room:
  assumes "nbr_inv s ks {}"
  shows "memb_numfree (neighbor_addr_mem s) > 0 \<longleftrightarrow> length ks < mnum (neighbor_addr_mem s)" "length ks \<le> mnum (neighbor_addr_mem s)"
  using nbr_inv_card [OF assms] memb_numfree_live [OF nbr_inv_parts(1) [OF assms]] by linarith+

definition nbr_refused :: "'c nbr_state \<Rightarrow> ptr list \<Rightarrow> linkaddr \<Rightarrow> bool" where
  "nbr_refused s ks a \<longleftrightarrow> a \<notin> key_lladdr s ` set ks \<and> length ks = mnum (neighbor_addr_mem s) \<and> (\<forall>k \<in> set ks. \<not> unlocked s k)"

lemma nbr_refused_eq:
  assumes "nbr_inv s ks {}"
  shows "nbr_refused s ks a \<longleftrightarrow>
    \<not> (key_of s ks a \<noteq> None \<or> memb_numfree (neighbor_addr_mem s) > 0 \<or> least_used s None ks \<noteq> None)"
  using nbr_room [OF assms] least_used_None [of s None ks] key_of_None [of s ks a]
  by (auto simp: nbr_refused_def)

definition gone_ok :: "'c nbr_state \<Rightarrow> ptr list \<Rightarrow> linkaddr \<Rightarrow> linkaddr set \<Rightarrow> bool" where
  "gone_ok s ks a gone \<longleftrightarrow>
     (if a \<in> key_lladdr s ` set ks \<or> length ks < mnum (neighbor_addr_mem s) then gone = {}
      else \<exists>v \<in> set ks. gone = {key_lladdr s v} \<and> unlocked s v \<and>
        (\<forall>k \<in> set ks. unlocked s k \<longrightarrow> key_uses s v \<le> key_uses s k))"

lemma nbr_gone_ok:
  assumes "nbr_inv s ks {}" "\<not> nbr_refused s ks a"
  shows "gone_ok s ks a (nbr_gone s ks a)"
proof (cases "key_of s ks a \<noteq> None \<or> memb_numfree (neighbor_addr_mem s) > 0")
  case True
  then show ?thesis using nbr_room [OF assms(1)] key_of_None [of s ks a] by (auto simp: gone_ok_def nbr_gone_def)
next
  case False
  then obtain v where v: "least_used s None ks = Some v" using assms(2) nbr_refused_eq [OF assms(1)] by auto
  with least_used_best [OF v] False nbr_room [OF assms(1)] key_of_None [of s ks a] show ?thesis
    by (auto simp: gone_ok_def nbr_gone_def)
qed

lemma nbr_add_promise:
  assumes "nbr_wf s ks" "nbr_table_is_registered s t" "default_policy cf" "nbr_callbacks_ok cf" "\<not> nbr_refused s ks (lladdr_of l)"
  shows "\<exists>r s' ks' gone. nbr_table_add_lladdr cf t l reason data s = Some (r, s') \<and> r \<noteq> NULL \<and> nbr_wf s' ks' \<and>
    nbr_lookup s' ks' t (lladdr_of l) = Some r \<and> (\<forall>i<nat (tb_item_size (tables s t)). item_bytes s' (r + i) = 0) \<and>
    gone_ok s ks (lladdr_of l) gone \<and> key_lladdr s' ` set ks' = insert (lladdr_of l) (key_lladdr s ` set ks - gone) \<and>
    (\<forall>u b. nbr_table_is_registered s u \<longrightarrow> b \<notin> gone \<longrightarrow> (u, b) \<noteq> (t, lladdr_of l) \<longrightarrow>
      nbr_lookup s' ks' u b = nbr_lookup s ks u b)"
proof -
  let ?a = "lladdr_of l"
  have inv: "nbr_inv s ks {}" and tok: "tables_ok s" using assms(1) by (simp_all add: nbr_wf_def)
  have "key_of s ks ?a \<noteq> None \<or> memb_numfree (neighbor_addr_mem s) > 0 \<or> least_used s None ks \<noteq> None"
    using assms(5) nbr_refused_eq [OF inv] by blast
  from nbr_add_effect [OF assms(1-4) this, of reason data] obtain k s2 ks2 K where e:
    "nbr_table_add_lladdr cf t l reason data s = Some (item_from_key s2 t k, take_in t k s2)"
    "nbr_inv s2 ks2 {}" "k \<in> set ks2" "key_lladdr s2 k = ?a" "nbr_same s s2 K"
    "key_lladdr s2 ` set ks2 = insert ?a (key_lladdr s ` set ks - nbr_gone s ks ?a)"
    "\<forall>u b. b \<notin> nbr_gone s ks ?a \<longrightarrow> nbr_lookup s2 ks2 u b = nbr_lookup s ks u b" by blast
  have kept: "nbr_lookup s2 ks2 u b = nbr_lookup s ks u b" if "b \<notin> nbr_gone s ks ?a" for u b using e(7) that by blast
  note o = add_outcome [OF e(2,3) assms(2) tok e(5,4), of "nbr_gone s ks ?a", OF kept]
  have t: "table_ok s2 t" using registered_ok [OF tok assms(2)] nbr_sameD(9) [OF e(5)] by simp
  have "item_from_key s2 t k \<noteq> NULL"
    unfolding item_from_key_slot [OF e(2,3)] by (rule index_from_item_index(2) [OF t])
  then show ?thesis
    using e(1,6) o nbr_gone_ok [OF inv assms(5)]
    by (intro exI [of _ "item_from_key s2 t k"] exI [of _ "take_in t k s2"] exI [of _ ks2] exI [of _ "nbr_gone s ks ?a"]) simp
qed

lemma nbr_add_spec:
  assumes "nbr_wf s ks" "nbr_table_is_registered s t" "default_policy cf" "nbr_callbacks_ok cf"
  shows "\<exists>r s' ks'. nbr_table_add_lladdr cf t l reason data s = Some (r, s') \<and> nbr_wf s' ks' \<and>
    (r = NULL \<longleftrightarrow> nbr_refused s ks (lladdr_of l)) \<and>
    (if r = NULL then s' = s
     else nbr_lookup s' ks' t (lladdr_of l) = Some r \<and> (\<forall>i<nat (tb_item_size (tables s t)). item_bytes s' (r + i) = 0) \<and>
       (\<exists>gone. gone_ok s ks (lladdr_of l) gone \<and> key_lladdr s' ` set ks' = insert (lladdr_of l) (key_lladdr s ` set ks - gone) \<and>
         (\<forall>u b. nbr_table_is_registered s u \<longrightarrow> b \<notin> gone \<longrightarrow> (u, b) \<noteq> (t, lladdr_of l) \<longrightarrow>
           nbr_lookup s' ks' u b = nbr_lookup s ks u b)))"
proof (cases "nbr_refused s ks (lladdr_of l)")
  case True
  have inv: "nbr_inv s ks {}" and tok: "tables_ok s" using assms(1) by (simp_all add: nbr_wf_def)
  have f: "key_of s ks (lladdr_of l) = None" "memb_numfree (neighbor_addr_mem s) = 0" "least_used s None ks = None"
    using True unfolding nbr_refused_eq [OF inv] by simp_all
  from nbr_add_refused [OF inv registered_ok [OF tok assms(2)] assms(3) f, of reason data] True assms(1)
  show ?thesis by (intro exI [of _ NULL] exI [of _ s] exI [of _ ks]) simp
next
  case False
  from nbr_add_promise [OF assms False, of reason data] obtain r s' ks' gone where p:
    "nbr_table_add_lladdr cf t l reason data s = Some (r, s')" "r \<noteq> NULL" "nbr_wf s' ks'"
    "nbr_lookup s' ks' t (lladdr_of l) = Some r" "\<forall>i<nat (tb_item_size (tables s t)). item_bytes s' (r + i) = 0"
    "gone_ok s ks (lladdr_of l) gone" "key_lladdr s' ` set ks' = insert (lladdr_of l) (key_lladdr s ` set ks - gone)"
    "\<forall>u b. nbr_table_is_registered s u \<longrightarrow> b \<notin> gone \<longrightarrow> (u, b) \<noteq> (t, lladdr_of l) \<longrightarrow>
      nbr_lookup s' ks' u b = nbr_lookup s ks u b" by blast
  from p(1-5) False p(6-8) show ?thesis
    by (intro exI [of _ r] exI [of _ s'] exI [of _ ks'] conjI) (simp_all, blast)
qed

end
