(* ===== verification/Iotorii_Log.thy ===== *)
theory Iotorii_Log imports Iotorii_Messages begin

text \<open>
  The event log that \<open>iotorii-csma.c\<close> keeps in the flash of the nRF52840 (\<open>IOTORII_NRF52840_LOG\<close>):
  what each handler appends, the length kept in a page of its own, and \<open>read_log\<close>, which prints the
  log of the previous run and erases it.

  The flash and its controller are hardware: \<open>flash_chip\<close> is what a store to a cell and the erasure of
  a page do in each mode of the controller, and what its two ready registers hold at each poll.
  \<open>chip_laws\<close> is what the data sheet says of them and the code relies on. Only the low byte of the mode
  register is kept: the code copies four bytes out of a variable of one byte.

  On an erased flash, what a run of the handlers' events writes is read back event by
  event. Addresses and lengths are natural numbers; the printed text is the list of printed values.
\<close>

section \<open>The flash\<close>

record flash_chip =
  store_cell :: "u8 \<Rightarrow> nat \<Rightarrow> u8 \<Rightarrow> u8 \<Rightarrow> u8"
  erase_page_at :: "u8 \<Rightarrow> nat \<Rightarrow> (nat \<Rightarrow> u8) \<Rightarrow> nat \<Rightarrow> u8"
  ready_at :: "nat \<Rightarrow> u32 \<times> u32"

record flash_log =
  cells :: "nat \<Rightarrow> u8"
  nvmc_config :: u8
  nvmc_polls :: nat
  mem_counter :: nat

definition nvmc_erase :: u8 where "nvmc_erase = 2"
definition nvmc_write :: u8 where "nvmc_write = 1"
definition nvmc_read :: u8 where "nvmc_read = 0"
definition log_base :: nat where "log_base = 0xA0000"
definition page_mem_counter :: nat where "page_mem_counter = log_base - 0x1000"
definition flash_end :: nat where "flash_end = 0x100000"

definition chip_laws :: "flash_chip \<Rightarrow> bool" where
  "chip_laws chip \<longleftrightarrow>
     (\<forall>a b. a < flash_end \<longrightarrow> store_cell chip nvmc_write a 0xFF b = b) \<and>
     (\<forall>p m a. p mod 0x1000 = 0 \<and> p < flash_end \<longrightarrow>
        erase_page_at chip nvmc_erase p m a = (if p \<le> a \<and> a < p + 0x1000 then 0xFF else m a))"

definition set_config :: "u8 \<Rightarrow> flash_log \<Rightarrow> flash_log" where
  "set_config m s = s\<lparr>nvmc_config := m\<rparr>"

definition store_cells :: "flash_chip \<Rightarrow> u8 \<Rightarrow> nat \<Rightarrow> u8 list \<Rightarrow> (nat \<Rightarrow> u8) \<Rightarrow> nat \<Rightarrow> u8" where
  "store_cells chip mode a bs m x =
     (if a \<le> x \<and> x < a + length bs then store_cell chip mode x (m x) (bs ! (x - a)) else m x)"

definition store_flash :: "flash_chip \<Rightarrow> nat \<Rightarrow> u8 list \<Rightarrow> flash_log \<Rightarrow> flash_log" where
  "store_flash chip a bs s = s\<lparr>cells := store_cells chip (nvmc_config s) a bs (cells s)\<rparr>"

definition erase_flash :: "flash_chip \<Rightarrow> nat \<Rightarrow> flash_log \<Rightarrow> flash_log" where
  "erase_flash chip p s = s\<lparr>cells := erase_page_at chip (nvmc_config s) p (cells s)\<rparr>"

definition load_flash :: "(nat \<Rightarrow> u8) \<Rightarrow> nat \<Rightarrow> nat \<Rightarrow> u8 list" where
  "load_flash m a n = map m [a..<a + n]"

section \<open>Appending to the log\<close>

definition check_write :: "flash_chip \<Rightarrow> flash_log \<Rightarrow> bool \<times> flash_log" where
  "check_write chip s =
     (let (ready, ready_next) = ready_at chip (nvmc_polls s)
      in (ready \<noteq> 0 \<and> ready_next \<noteq> 0, s\<lparr>nvmc_polls := Suc (nvmc_polls s)\<rparr>))"

definition update_mem_counter :: "flash_chip \<Rightarrow> flash_log \<Rightarrow> flash_log" where
  "update_mem_counter chip s =
     (let s = set_config nvmc_erase s;
          s = erase_flash chip page_mem_counter s;
          s = set_config nvmc_write s;
          s = store_flash chip (page_mem_counter + 0xFFC) (le32 (of_nat (mem_counter s))) s
      in set_config nvmc_read s)"

definition write_log :: "flash_chip \<Rightarrow> u32 \<Rightarrow> flash_log \<Rightarrow> flash_log" where
  "write_log chip element s =
     (let s = store_flash chip (log_base + mem_counter s) (le32 element) s
      in s\<lparr>mem_counter := mem_counter s + 4\<rparr>)"

definition write_log_addr :: "flash_chip \<Rightarrow> linkaddr \<Rightarrow> flash_log \<Rightarrow> flash_log" where
  "write_log_addr chip a s =
     (let s = store_flash chip (log_base + mem_counter s) (linkaddr_bytes a) s
      in s\<lparr>mem_counter := mem_counter s + LINKADDR_SIZE\<rparr>)"

fun write_log_ids :: "flash_chip \<Rightarrow> u8 list \<Rightarrow> flash_log \<Rightarrow> flash_log" where
  "write_log_ids chip [] s = s"
| "write_log_ids chip (k # ids) s = write_log_ids chip ids (write_log chip (ucast k) s)"

text \<open>The common frame of the handlers' blocks.\<close>

definition log_block :: "flash_chip \<Rightarrow> (flash_log \<Rightarrow> flash_log) \<Rightarrow> flash_log \<Rightarrow> flash_log" where
  "log_block chip body s =
     (let (ok, s) = check_write chip s;
          s = (if ok then set_config nvmc_read (body (set_config nvmc_write s)) else s)
      in update_mem_counter chip s)"

definition log_hello_sent :: "flash_chip \<Rightarrow> u16 \<Rightarrow> flash_log \<Rightarrow> flash_log" where
  "log_hello_sent chip hellos = log_block chip (\<lambda>s.
     write_log chip (ucast hellos) (write_log chip 0xFFFF1111 s))"

definition log_hello_received :: "flash_chip \<Rightarrow> linkaddr \<Rightarrow> flash_log \<Rightarrow> flash_log" where
  "log_hello_received chip sender = log_block chip (\<lambda>s.
     write_log_addr chip sender (write_log chip 0xFFFF2222 s))"

text \<open>
  \<open>do ... while (c < i)\<close> over \<open>random_list\<close>: the first entry is written whatever \<open>i\<close> is, then those up to
  the one before \<open>i - 1\<close>.
\<close>

fun write_log_pairs :: "flash_chip \<Rightarrow> (linkaddr \<times> u8) list \<Rightarrow> flash_log \<Rightarrow> flash_log" where
  "write_log_pairs chip [] s = s"
| "write_log_pairs chip ((a, k) # rs) s = write_log_pairs chip rs (write_log chip (ucast k) (write_log_addr chip a s))"

definition log_sethlmac_sent ::
  "flash_chip \<Rightarrow> u32 \<Rightarrow> u8 list \<Rightarrow> u8 \<Rightarrow> (linkaddr \<times> u8) list \<Rightarrow> flash_log \<Rightarrow> flash_log" where
  "log_sethlmac_sent chip timestamp ids i random_list = log_block chip (\<lambda>s.
     let s = write_log chip 0xFFFF3333 s;
         s = write_log chip timestamp s;
         s = write_log chip (of_nat (length ids)) s;
         s = write_log_ids chip ids s;
         s = write_log chip (ucast i) s
     in write_log_pairs chip (take (max 1 (unat i - 1)) random_list) s)"

definition log_sethlmac_received ::
  "flash_chip \<Rightarrow> linkaddr \<Rightarrow> u32 \<Rightarrow> u8 list \<Rightarrow> flash_log \<Rightarrow> flash_log" where
  "log_sethlmac_received chip sender timestamp ids = log_block chip (\<lambda>s.
     let s = write_log chip 0xFFFF4444 s;
         s = write_log_addr chip sender s;
         s = write_log chip timestamp s;
         s = write_log chip (of_nat (length ids)) s
     in write_log_ids chip ids s)"

definition log_load_sent :: "flash_chip \<Rightarrow> u32 \<Rightarrow> flash_log \<Rightarrow> flash_log" where
  "log_load_sent chip ld = log_block chip (\<lambda>s. write_log chip ld (write_log chip 0xFFFF5555 s))"

definition log_load_received :: "flash_chip \<Rightarrow> linkaddr \<Rightarrow> u32 \<Rightarrow> flash_log \<Rightarrow> flash_log" where
  "log_load_received chip sender ld = log_block chip (\<lambda>s.
     write_log chip ld (write_log_addr chip sender (write_log chip 0xFFFF6666 s)))"

definition log_share_sent :: "flash_chip \<Rightarrow> u16 \<Rightarrow> flash_log \<Rightarrow> flash_log" where
  "log_share_sent chip extra = log_block chip (\<lambda>s. write_log chip (scast extra) (write_log chip 0xFFFF7777 s))"

definition log_share_received :: "flash_chip \<Rightarrow> linkaddr \<Rightarrow> u16 \<Rightarrow> flash_log \<Rightarrow> flash_log" where
  "log_share_received chip sender extra = log_block chip (\<lambda>s.
     write_log chip (scast extra) (write_log_addr chip sender (write_log chip 0xFFFF8888 s)))"

definition log_edge :: "flash_chip \<Rightarrow> flash_log \<Rightarrow> flash_log" where
  "log_edge chip = log_block chip (write_log chip 0xFFFF9999)"

definition log_hlmac_added :: "flash_chip \<Rightarrow> u8 list \<Rightarrow> u32 \<Rightarrow> flash_log \<Rightarrow> flash_log" where
  "log_hlmac_added chip ids timestamp = log_block chip (\<lambda>s.
     let s = write_log chip 0xFFFFAAAA s;
         s = write_log chip (of_nat (length ids)) s;
         s = write_log_ids chip ids s
     in write_log chip timestamp s)"

definition log_convergence :: "flash_chip \<Rightarrow> u32 \<Rightarrow> flash_log \<Rightarrow> flash_log" where
  "log_convergence chip t = log_block chip (\<lambda>s. write_log chip t (write_log chip 0xFFFFBBBB s))"

section \<open>Reading the log\<close>

text \<open>What one turn of the loop prints: the origin, then the values of its kind of event.\<close>

datatype log_line =
    Hello_line linkaddr
  | Sethlmac_sent_line linkaddr u32 "u32 list" "(linkaddr \<times> u32) list"
  | Sethlmac_line linkaddr u32 "u32 list" linkaddr u32
  | Load_line linkaddr u32
  | Share_line linkaddr u32
  | Edge_line linkaddr
  | Added_line linkaddr "u32 list" u32
  | Convergence_line linkaddr u32
  | Unknown_line

text \<open>Reads at \<open>log + counter + sizeof (code)\<close> and advances \<open>counter\<close>.\<close>

definition log_word :: "(nat \<Rightarrow> u8) \<Rightarrow> nat \<Rightarrow> u32 \<times> nat" where
  "log_word m counter = (of_le32 (load_flash m (log_base + counter + 4) 4), counter + 4)"

definition log_addr :: "(nat \<Rightarrow> u8) \<Rightarrow> nat \<Rightarrow> linkaddr \<times> nat" where
  "log_addr m counter = (linkaddr_of (load_flash m (log_base + counter + 4) LINKADDR_SIZE), counter + LINKADDR_SIZE)"

fun log_words :: "nat \<Rightarrow> (nat \<Rightarrow> u8) \<Rightarrow> nat \<Rightarrow> u32 list \<times> nat" where
  "log_words 0 m counter = ([], counter)"
| "log_words (Suc n) m counter =
     (let (w, counter) = log_word m counter; (ws, counter) = log_words n m counter in (w # ws, counter))"

fun log_pairs :: "nat \<Rightarrow> (nat \<Rightarrow> u8) \<Rightarrow> nat \<Rightarrow> (linkaddr \<times> u32) list \<times> nat" where
  "log_pairs 0 m counter = ([], counter)"
| "log_pairs (Suc n) m counter =
     (let (a, counter) = log_addr m counter; (w, counter) = log_word m counter;
          (ps, counter) = log_pairs n m counter in ((a, w) # ps, counter))"

text \<open>The \<open>switch\<close>: the printed line, and the counter after its reads.\<close>

definition read_entry :: "linkaddr \<Rightarrow> (nat \<Rightarrow> u8) \<Rightarrow> nat \<Rightarrow> log_line \<times> nat" where
  "read_entry own m counter =
     (let code = of_le32 (load_flash m (log_base + counter) 4) in
      if code = 0xFFFF1111 then
        let (hellos, counter) = log_word m counter in (Hello_line own, counter)
      else if code = 0xFFFF2222 then
        let (a, counter) = log_addr m counter in (Hello_line a, counter)
      else if code = 0xFFFF3333 then
        let (timestamp, counter) = log_word m counter;
            (n, counter) = log_word m counter;
            (w, counter) = log_word m counter;
            (ws, counter) = log_words (nat (sint n - 1)) m counter;
            (k, counter) = log_word m counter;
            (ps, counter) = log_pairs (nat (sint k - 1)) m counter
        in (Sethlmac_sent_line own timestamp (w # ws) ps, counter)
      else if code = 0xFFFF4444 then
        let (a, counter) = log_addr m counter;
            (timestamp, counter) = log_word m counter;
            (n, counter) = log_word m counter;
            (w, counter) = log_word m counter;
            (ws, counter) = log_words (nat (sint n - 2)) m counter;
            (last_id, counter) = log_word m counter
        in (Sethlmac_line a timestamp (w # ws) own last_id, counter)
      else if code = 0xFFFF5555 then
        let (w, counter) = log_word m counter in (Load_line own w, counter)
      else if code = 0xFFFF6666 then
        let (a, counter) = log_addr m counter; (w, counter) = log_word m counter in (Load_line a w, counter)
      else if code = 0xFFFF7777 then
        let (w, counter) = log_word m counter in (Share_line own w, counter)
      else if code = 0xFFFF8888 then
        let (a, counter) = log_addr m counter; (w, counter) = log_word m counter in (Share_line a w, counter)
      else if code = 0xFFFF9999 then (Edge_line own, counter)
      else if code = 0xFFFFAAAA then
        let (n, counter) = log_word m counter;
            (w, counter) = log_word m counter;
            (ws, counter) = log_words (nat (sint n - 1)) m counter;
            (timestamp, counter) = log_word m counter
        in (Added_line own (w # ws) timestamp, counter)
      else if code = 0xFFFFBBBB then
        let (w, counter) = log_word m counter in (Convergence_line own w, counter)
      else (Unknown_line, counter))"

lemma log_word_advances: "snd (log_word m c) = c + 4"
  by (simp add: log_word_def)

lemma log_addr_advances: "snd (log_addr m c) = c + LINKADDR_SIZE"
  by (simp add: log_addr_def)

lemma log_words_advances: "snd (log_words n m c) = c + 4 * n"
  by (induction n arbitrary: c) (simp_all add: case_prod_beta log_word_advances)

lemma log_pairs_advances: "snd (log_pairs n m c) = c + (4 + LINKADDR_SIZE) * n"
  by (induction n arbitrary: c) (simp_all add: case_prod_beta log_word_advances log_addr_advances)

lemmas log_advances = log_word_advances log_addr_advances log_words_advances log_pairs_advances

lemma read_entry_advances: "counter \<le> snd (read_entry own m counter)"
  unfolding read_entry_def Let_def
  by (simp add: case_prod_beta log_advances)

function read_lines :: "linkaddr \<Rightarrow> (nat \<Rightarrow> u8) \<Rightarrow> int \<Rightarrow> nat \<Rightarrow> log_line list" where
  "read_lines own m mem_used counter =
     (if int counter < mem_used then
        fst (read_entry own m counter) # read_lines own m mem_used (snd (read_entry own m counter) + 4)
      else [])"
  by pat_completeness auto
termination
proof (relation "measure (\<lambda>(own, m, mem_used, counter). nat (mem_used - int counter))", goal_cases)
  case (2 own m mem_used counter)
  then show ?case using read_entry_advances [of counter own m] by simp
qed simp

declare read_lines.simps [simp del]

definition stored_length :: "(nat \<Rightarrow> u8) \<Rightarrow> int" where
  "stored_length m = sint (of_le32 (load_flash m (page_mem_counter + 0xFFC) 4))"

fun erase_pages :: "flash_chip \<Rightarrow> nat list \<Rightarrow> flash_log \<Rightarrow> flash_log" where
  "erase_pages chip [] s = s"
| "erase_pages chip (c # cs) s =
     erase_pages chip cs
       (set_config nvmc_read (erase_flash chip (log_base + c * 0x1000) (set_config nvmc_erase s)))"

text \<open>The number of turns of the loop over the pages: division of \<open>int\<close> truncates towards zero.\<close>

definition log_pages :: "int \<Rightarrow> nat" where
  "log_pages mem_used = nat ((if 0 \<le> mem_used then mem_used div 0x1000 else - (- mem_used div 0x1000)) + 1)"

definition read_log :: "flash_chip \<Rightarrow> linkaddr \<Rightarrow> flash_log \<Rightarrow> log_line list \<times> flash_log" where
  "read_log chip own s =
     (let mem_used = stored_length (cells s);
          printed = read_lines own (cells s) mem_used 0;
          s = erase_pages chip [0..<log_pages mem_used] s;
          s = set_config nvmc_erase s;
          s = erase_flash chip page_mem_counter s
      in (printed, set_config nvmc_read s))"

section \<open>The events and their bytes\<close>

datatype log_event =
    Hello_sent u16
  | Hello_received linkaddr
  | Sethlmac_sent u32 "u8 list" "(linkaddr \<times> u8) list"
  | Sethlmac_received linkaddr u32 "u8 list"
  | Load_sent u32
  | Load_received linkaddr u32
  | Share_sent u16
  | Share_received linkaddr u16
  | Is_edge
  | Hlmac_added "u8 list" u32
  | Converged u32

text \<open>\<open>Sethlmac_sent\<close>: the handlers write it with \<open>i\<close> one more than the number of the neighbours it names.\<close>

fun record_event :: "flash_chip \<Rightarrow> log_event \<Rightarrow> flash_log \<Rightarrow> flash_log" where
  "record_event chip (Hello_sent n) = log_hello_sent chip n"
| "record_event chip (Hello_received a) = log_hello_received chip a"
| "record_event chip (Sethlmac_sent ts ids rs) = log_sethlmac_sent chip ts ids (of_nat (length rs + 1)) rs"
| "record_event chip (Sethlmac_received a ts ids) = log_sethlmac_received chip a ts ids"
| "record_event chip (Load_sent ld) = log_load_sent chip ld"
| "record_event chip (Load_received a ld) = log_load_received chip a ld"
| "record_event chip (Share_sent e) = log_share_sent chip e"
| "record_event chip (Share_received a e) = log_share_received chip a e"
| "record_event chip Is_edge = log_edge chip"
| "record_event chip (Hlmac_added ids ts) = log_hlmac_added chip ids ts"
| "record_event chip (Converged c) = log_convergence chip c"

definition id_words :: "u8 list \<Rightarrow> u8 list" where
  "id_words ids = concat (map (\<lambda>k. le32 (ucast k)) ids)"

definition pair_words :: "(linkaddr \<times> u8) list \<Rightarrow> u8 list" where
  "pair_words rs = concat (map (\<lambda>(a, k). linkaddr_bytes a @ le32 (ucast k)) rs)"

fun event_bytes :: "log_event \<Rightarrow> u8 list" where
  "event_bytes (Hello_sent n) = le32 0xFFFF1111 @ le32 (ucast n)"
| "event_bytes (Hello_received a) = le32 0xFFFF2222 @ linkaddr_bytes a"
| "event_bytes (Sethlmac_sent ts ids rs) = le32 0xFFFF3333 @ le32 ts @ le32 (of_nat (length ids)) @ id_words ids
     @ le32 (of_nat (length rs + 1)) @ pair_words rs"
| "event_bytes (Sethlmac_received a ts ids) = le32 0xFFFF4444 @ linkaddr_bytes a @ le32 ts
     @ le32 (of_nat (length ids)) @ id_words ids"
| "event_bytes (Load_sent ld) = le32 0xFFFF5555 @ le32 ld"
| "event_bytes (Load_received a ld) = le32 0xFFFF6666 @ linkaddr_bytes a @ le32 ld"
| "event_bytes (Share_sent e) = le32 0xFFFF7777 @ le32 (scast e)"
| "event_bytes (Share_received a e) = le32 0xFFFF8888 @ linkaddr_bytes a @ le32 (scast e)"
| "event_bytes Is_edge = le32 0xFFFF9999"
| "event_bytes (Hlmac_added ids ts) = le32 0xFFFFAAAA @ le32 (of_nat (length ids)) @ id_words ids @ le32 ts"
| "event_bytes (Converged c) = le32 0xFFFFBBBB @ le32 c"

text \<open>
  What the reader relies on: a message names at least one neighbour, an address kept has at least one
  identifier, a received one at least two; lengths and counts are bytes.
\<close>

fun event_ok :: "log_event \<Rightarrow> bool" where
  "event_ok (Sethlmac_sent ts ids rs) \<longleftrightarrow> ids \<noteq> [] \<and> length ids < 256 \<and> rs \<noteq> [] \<and> length rs < 255"
| "event_ok (Sethlmac_received a ts ids) \<longleftrightarrow> 2 \<le> length ids \<and> length ids < 256"
| "event_ok (Hlmac_added ids ts) \<longleftrightarrow> ids \<noteq> [] \<and> length ids < 256"
| "event_ok e \<longleftrightarrow> True"

fun event_line :: "linkaddr \<Rightarrow> log_event \<Rightarrow> log_line" where
  "event_line own (Hello_sent n) = Hello_line own"
| "event_line own (Hello_received a) = Hello_line a"
| "event_line own (Sethlmac_sent ts ids rs) =
     Sethlmac_sent_line own ts (map ucast ids) (map (\<lambda>(a, k). (a, ucast k)) rs)"
| "event_line own (Sethlmac_received a ts ids) =
     Sethlmac_line a ts (map ucast (butlast ids)) own (ucast (last ids))"
| "event_line own (Load_sent ld) = Load_line own ld"
| "event_line own (Load_received a ld) = Load_line a ld"
| "event_line own (Share_sent e) = Share_line own (scast e)"
| "event_line own (Share_received a e) = Share_line a (scast e)"
| "event_line own Is_edge = Edge_line own"
| "event_line own (Hlmac_added ids ts) = Added_line own (map ucast ids) ts"
| "event_line own (Converged c) = Convergence_line own c"

section \<open>What a block writes\<close>

definition append_log :: "flash_chip \<Rightarrow> u8 list \<Rightarrow> flash_log \<Rightarrow> flash_log" where
  "append_log chip bs s =
     (store_flash chip (log_base + mem_counter s) bs s)\<lparr>mem_counter := mem_counter s + length bs\<rparr>"

lemma store_cells_append:
  "store_cells chip c (a + length xs) ys (store_cells chip c a xs m) = store_cells chip c a (xs @ ys) m"
  by (rule ext) (auto simp: store_cells_def nth_append algebra_simps)

lemma store_cells_Nil: "store_cells chip c a [] m = m"
  by (rule ext) (auto simp: store_cells_def)

lemma append_log_append:
  "append_log chip ys (append_log chip xs s) = append_log chip (xs @ ys) s"
  by (simp add: append_log_def store_flash_def store_cells_append flip: add.assoc)

lemma write_log_append: "write_log chip w = append_log chip (le32 w)"
  by (rule ext) (simp add: write_log_def append_log_def store_flash_def)

lemma write_log_addr_append: "write_log_addr chip a = append_log chip (linkaddr_bytes a)"
  by (rule ext) (simp add: write_log_addr_def append_log_def store_flash_def)

lemma append_log_Nil: "append_log chip [] s = s"
  by (simp add: append_log_def store_flash_def store_cells_Nil)

lemma write_log_ids_append: "write_log_ids chip ids s = append_log chip (id_words ids) s"
  by (induction ids arbitrary: s)
    (simp_all add: id_words_def append_log_Nil write_log_append append_log_append)

lemma write_log_pairs_append: "write_log_pairs chip rs s = append_log chip (pair_words rs) s"
  by (induction chip rs s rule: write_log_pairs.induct)
    (simp_all add: pair_words_def append_log_Nil write_log_append write_log_addr_append append_log_append)

lemmas appended = write_log_append write_log_addr_append write_log_ids_append write_log_pairs_append append_log_append

lemma unat_of_nat_u8: "n < 256 \<Longrightarrow> unat (of_nat n :: u8) = n"
  by (simp add: unat_of_nat take_bit_nat_eq_self)

lemma record_event_appends:
  "event_ok ev \<Longrightarrow> record_event chip ev = log_block chip (append_log chip (event_bytes ev))"
proof (cases ev)
  case (Sethlmac_sent ts ids rs)
  moreover assume "event_ok ev"
  ultimately have n: "unat (of_nat (length rs + 1) :: u8) = length rs + 1" "1 \<le> length rs"
    using unat_of_nat_u8 [of "length rs + 1"] by (auto simp: Suc_le_eq simp del: of_nat_add of_nat_Suc)
  then have c: "ucast (of_nat (length rs + 1) :: u8) = (of_nat (length rs + 1) :: u32)"
    by (metis of_nat_unat)
  have "take (max 1 (unat (of_nat (length rs + 1) :: u8) - 1)) rs = rs"
    unfolding n(1) using n(2) by simp
  then show ?thesis
    unfolding Sethlmac_sent record_event.simps log_sethlmac_sent_def Let_def appended event_bytes.simps c
    by (simp only: append_assoc)
qed (auto simp: appended Let_def log_hello_sent_def log_hello_received_def log_sethlmac_received_def
    log_load_sent_def log_load_received_def log_share_sent_def log_share_received_def log_edge_def
    log_hlmac_added_def log_convergence_def)

section \<open>What the flash holds\<close>

lemma length_load_flash [simp]: "length (load_flash m a n) = n"
  by (simp add: load_flash_def)

lemma load_flash_append: "load_flash m a (n + k) = load_flash m a n @ load_flash m (a + n) k"
proof -
  have "[a..<a + (n + k)] = [a..<a + n] @ [a + n..<a + n + k]"
    by (metis add.assoc le_add1 upt_add_eq_append)
  then show ?thesis by (simp add: load_flash_def)
qed

lemma load_flash_eqI: "(\<And>i. i < n \<Longrightarrow> m (a + i) = m' (a + i)) \<Longrightarrow> load_flash m a n = load_flash m' a n"
  by (simp add: load_flash_def list_eq_iff_nth_eq)

lemma load_stored:
  assumes "\<And>i. i < length bs \<Longrightarrow> store_cell chip mode (a + i) (m (a + i)) (bs ! i) = bs ! i"
  shows "load_flash (store_cells chip mode a bs m) a (length bs) = bs"
proof (rule nth_equalityI)
  fix i assume "i < length (load_flash (store_cells chip mode a bs m) a (length bs))"
  then have i: "i < length bs" by simp
  then have "store_cells chip mode a bs m (a + i) = bs ! i" unfolding store_cells_def using assms [OF i] by simp
  then show "load_flash (store_cells chip mode a bs m) a (length bs) ! i = bs ! i"
    using i by (simp add: load_flash_def)
qed simp

text \<open>The log so far, and erased cells behind it.\<close>

definition log_holds :: "flash_log \<Rightarrow> u8 list \<Rightarrow> bool" where
  "log_holds s bs \<longleftrightarrow> mem_counter s = length bs \<and> load_flash (cells s) log_base (length bs) = bs \<and>
     (\<forall>a. log_base + length bs \<le> a \<and> a < flash_end \<longrightarrow> cells s a = 0xFF)"

lemma append_log_holds:
  assumes "chip_laws chip" "nvmc_config s = nvmc_write" "log_holds s bs"
    "log_base + length bs + length new \<le> flash_end"
  shows "log_holds (append_log chip new s) (bs @ new)"
proof -
  let ?a = "log_base + length bs"
  let ?m = "store_cells chip nvmc_write ?a new (cells s)"
  have blank: "cells s (?a + i) = 0xFF" "?a + i < flash_end" if "i < length new" for i
    using assms(3,4) that by (auto simp: log_holds_def)
  have "load_flash ?m ?a (length new) = new"
    by (rule load_stored) (use assms(1) blank in \<open>auto simp: chip_laws_def\<close>)
  moreover have "load_flash ?m log_base (length bs) = bs"
    using assms(3) unfolding log_holds_def
    by (subst load_flash_eqI [where m' = "cells s"]) (auto simp: store_cells_def)
  moreover have "?m a = 0xFF" if "?a + length new \<le> a" "a < flash_end" for a
    using assms(3) that by (auto simp: store_cells_def log_holds_def)
  moreover have "mem_counter s = length bs" using assms(3) by (simp add: log_holds_def)
  moreover have "load_flash ?m log_base (length (bs @ new)) =
      load_flash ?m log_base (length bs) @ load_flash ?m ?a (length new)"
    by (simp add: load_flash_append)
  ultimately show ?thesis
    unfolding log_holds_def append_log_def store_flash_def by (simp add: assms(2) add.assoc)
qed

lemma page_mem_counter_value: "page_mem_counter = 0x9F000" "log_base = 0xA0000" "flash_end = 0x100000"
  by (simp_all add: page_mem_counter_def log_base_def flash_end_def)

lemma erase_page_law:
  "chip_laws chip \<Longrightarrow> p mod 0x1000 = 0 \<Longrightarrow> p < flash_end \<Longrightarrow>
   erase_page_at chip nvmc_erase p m a = (if p \<le> a \<and> a < p + 0x1000 then 0xFF else m a)"
  by (simp add: chip_laws_def)

lemma update_mem_counter_keeps:
  assumes "chip_laws chip"
  shows "log_base \<le> a \<Longrightarrow> cells (update_mem_counter chip s) a = cells s a"
    "mem_counter (update_mem_counter chip s) = mem_counter s" "nvmc_polls (update_mem_counter chip s) = nvmc_polls s"
  using erase_page_law [OF assms, of page_mem_counter]
  by (simp_all add: update_mem_counter_def set_config_def erase_flash_def store_flash_def store_cells_def
      page_mem_counter_value)

lemma update_mem_counter_stores:
  assumes "chip_laws chip" "mem_counter s < 2 ^ 31"
  shows "stored_length (cells (update_mem_counter chip s)) = int (mem_counter s)"
proof -
  let ?m = "erase_page_at chip nvmc_erase page_mem_counter (cells s)"
  let ?w = "of_nat (mem_counter s) :: u32"
  have "load_flash (store_cells chip nvmc_write (page_mem_counter + 0xFFC) (le32 ?w) ?m) (page_mem_counter + 0xFFC)
      (length (le32 ?w)) = le32 ?w"
    by (rule load_stored)
      (use assms(1) in \<open>simp add: erase_page_law [OF assms(1)] page_mem_counter_value chip_laws_def\<close>)
  then have "of_le32 (load_flash (cells (update_mem_counter chip s)) (page_mem_counter + 0xFFC) 4) = ?w"
    using of_le32_le32 [of ?w "[]"]
    by (simp add: update_mem_counter_def set_config_def erase_flash_def store_flash_def)
  moreover have "sint ?w = int (mem_counter s)"
    using assms(2) by (simp add: signed_of_nat signed_take_bit_int_eq_self)
  ultimately show ?thesis by (simp add: stored_length_def)
qed

lemma log_holds_update:
  assumes "chip_laws chip" "log_holds s bs"
  shows "log_holds (update_mem_counter chip s) bs"
proof -
  have "load_flash (cells (update_mem_counter chip s)) log_base (length bs) = load_flash (cells s) log_base (length bs)"
    by (rule load_flash_eqI) (simp add: update_mem_counter_keeps [OF assms(1)])
  then show ?thesis
    using assms(2) by (simp add: log_holds_def update_mem_counter_keeps [OF assms(1)])
qed

definition flash_ready :: "flash_chip \<Rightarrow> nat \<Rightarrow> bool" where
  "flash_ready chip k \<longleftrightarrow> fst (ready_at chip k) \<noteq> 0 \<and> snd (ready_at chip k) \<noteq> 0"

text \<open>A block appends its bytes when the flash is ready, and always rewrites the length.\<close>

lemma log_block_writes:
  assumes "chip_laws chip" "log_holds s bs" "log_base + length bs + length new \<le> flash_end"
  shows "log_holds (log_block chip (append_log chip new) s) (bs @ (if flash_ready chip (nvmc_polls s) then new else []))"
    "stored_length (cells (log_block chip (append_log chip new) s)) = int (mem_counter (log_block chip (append_log chip new) s))"
    "nvmc_polls (log_block chip (append_log chip new) s) = Suc (nvmc_polls s)"
proof -
  define s1 where "s1 = s\<lparr>nvmc_polls := Suc (nvmc_polls s)\<rparr>"
  define s2 where "s2 = (if flash_ready chip (nvmc_polls s)
    then set_config nvmc_read (append_log chip new (set_config nvmc_write s1)) else s1)"
  have eq: "log_block chip (append_log chip new) s = update_mem_counter chip s2"
    by (simp add: log_block_def check_write_def s1_def s2_def flash_ready_def case_prod_beta)
  have h1: "log_holds (set_config nvmc_write s1) bs" "log_holds s1 bs"
    using assms(2) by (simp_all add: s1_def set_config_def log_holds_def)
  have "log_holds (append_log chip new (set_config nvmc_write s1)) (bs @ new)"
    by (rule append_log_holds [OF assms(1) _ h1(1) assms(3)]) (simp add: set_config_def)
  then have h2: "log_holds s2 (bs @ (if flash_ready chip (nvmc_polls s) then new else []))"
    using h1(2) by (simp add: s2_def set_config_def log_holds_def)
  then show "log_holds (log_block chip (append_log chip new) s) (bs @ (if flash_ready chip (nvmc_polls s) then new else []))"
    unfolding eq by (rule log_holds_update [OF assms(1)])
  have "mem_counter s2 < 2 ^ 31"
    using h2 assms(3) by (auto simp: log_holds_def flash_end_def split: if_splits)
  then show "stored_length (cells (log_block chip (append_log chip new) s)) =
      int (mem_counter (log_block chip (append_log chip new) s))"
    unfolding eq update_mem_counter_keeps(2) [OF assms(1)] by (rule update_mem_counter_stores [OF assms(1)])
  show "nvmc_polls (log_block chip (append_log chip new) s) = Suc (nvmc_polls s)"
    unfolding eq update_mem_counter_keeps(3) [OF assms(1)]
    by (simp add: s2_def s1_def set_config_def append_log_def store_flash_def)
qed

section \<open>What the reader makes of an event\<close>

definition log_at :: "(nat \<Rightarrow> u8) \<Rightarrow> nat \<Rightarrow> u8 list \<Rightarrow> bool" where
  "log_at m c bs \<longleftrightarrow> load_flash m (log_base + c) (length bs) = bs"

lemma log_at_append: "log_at m c (xs @ ys) \<longleftrightarrow> log_at m c xs \<and> log_at m (c + length xs) ys"
  by (simp add: log_at_def load_flash_append add.assoc)

lemma log_word_at: "log_at m (c + 4) (le32 w) \<Longrightarrow> log_word m c = (w, c + 4)"
  using of_le32_le32 [of w "[]"] by (simp add: log_at_def log_word_def add.assoc)

lemma log_addr_at: "log_at m (c + 4) (linkaddr_bytes a) \<Longrightarrow> log_addr m c = (a, c + LINKADDR_SIZE)"
  by (simp add: log_at_def log_addr_def add.assoc)

lemma length_id_words [simp]: "length (id_words ids) = 4 * length ids"
  by (induction ids) (simp_all add: id_words_def)

lemma length_pair_words [simp]: "length (pair_words rs) = (LINKADDR_SIZE + 4) * length rs"
  by (induction rs) (auto simp: pair_words_def)

lemma log_words_at:
  "log_at m (c + 4) (id_words ids) \<Longrightarrow> log_words (length ids) m c = (map ucast ids, c + 4 * length ids)"
proof (induction ids arbitrary: c)
  case (Cons k ids)
  then have "log_at m (c + 4) (le32 (ucast k))" "log_at m (c + 4 + 4) (id_words ids)"
    by (simp_all add: id_words_def log_at_append)
  with Cons.IH [of "c + 4"] show ?case by (simp add: log_word_at)
qed simp

lemma log_pairs_at:
  "log_at m (c + 4) (pair_words rs) \<Longrightarrow>
   log_pairs (length rs) m c = (map (\<lambda>(a, k). (a, ucast k)) rs, c + (LINKADDR_SIZE + 4) * length rs)"
proof (induction rs arbitrary: c)
  case (Cons r rs)
  obtain a k where r: "r = (a, k)" by fastforce
  have "log_at m (c + 4) (linkaddr_bytes a)" "log_at m (c + LINKADDR_SIZE + 4) (le32 (ucast k))"
    "log_at m (c + LINKADDR_SIZE + 4 + 4) (pair_words rs)"
    using Cons.prems r by (simp_all add: pair_words_def log_at_append LINKADDR_SIZE_def add.assoc)
  with Cons.IH [of "c + LINKADDR_SIZE + 4"] r show ?case
    by (simp add: log_word_at log_addr_at LINKADDR_SIZE_def add.assoc)
qed simp

lemma log_code_at: "log_at m c (le32 w) \<Longrightarrow> of_le32 (load_flash m (log_base + c) 4) = w"
  using of_le32_le32 [of w "[]"] by (simp add: log_at_def)

lemma sint_count: "n < 256 \<Longrightarrow> sint (of_nat n :: u32) = int n"
  by (simp add: signed_of_nat signed_take_bit_int_eq_self)

lemma id_words_Cons: "id_words (k # ids) = le32 (ucast k) @ id_words ids"
  by (simp add: id_words_def)

lemma id_words_snoc: "id_words (ids @ [k]) = id_words ids @ le32 (ucast k)"
  by (simp add: id_words_def)

lemma read_entry_event:
  assumes "log_at m c (event_bytes ev)" "event_ok ev"
  shows "read_entry own m c = (event_line own ev, c + length (event_bytes ev) - 4)"
proof (cases ev)
  case (Sethlmac_sent ts ids rs)
  then obtain k ks where ids: "ids = k # ks" using assms(2) by (cases ids) auto
  have n: "nat (sint (of_nat (length ids) :: u32) - 1) = length ks"
    using assms(2) Sethlmac_sent by (subst sint_count) (auto simp: ids)
  have r: "nat (sint (of_nat (length rs + 1) :: u32) - 1) = length rs"
    using assms(2) Sethlmac_sent by (subst sint_count) auto
  have parts: "log_at m c (le32 0xFFFF3333)" "log_at m (c + 4) (le32 ts)" "log_at m (c + 8) (le32 (of_nat (length ids)))"
    "log_at m (c + 12) (le32 (ucast k))" "log_at m (c + 16) (id_words ks)"
    "log_at m (c + (16 + 4 * length ks)) (le32 (of_nat (length rs + 1)))"
    "log_at m (c + (20 + 4 * length ks)) (pair_words rs)"
    using assms(1) Sethlmac_sent by (simp_all add: log_at_append ids id_words_Cons add.assoc)
  show ?thesis
    using n r parts
    by (simp add: Sethlmac_sent ids read_entry_def log_code_at log_word_at log_words_at log_pairs_at
        LINKADDR_SIZE_def add.assoc del: of_nat_Suc of_nat_add)
next
  case (Sethlmac_received a ts ids)
  then obtain ks l where ids: "ids = ks @ [l]" using assms(2) by (cases ids rule: rev_cases) auto
  moreover obtain k js where "ks = k # js" using assms(2) Sethlmac_received ids by (cases ks) auto
  ultimately have ids: "ids = k # js @ [l]" by simp
  have n: "nat (sint (of_nat (length ids) :: u32) - 2) = length js"
    using assms(2) Sethlmac_received by (subst sint_count) (auto simp: ids)
  have parts: "log_at m c (le32 0xFFFF4444)" "log_at m (c + 4) (linkaddr_bytes a)" "log_at m (c + 12) (le32 ts)"
    "log_at m (c + 16) (le32 (of_nat (length ids)))"
    "log_at m (c + 20) (le32 (ucast k))" "log_at m (c + 24) (id_words js)"
    "log_at m (c + (24 + 4 * length js)) (le32 (ucast l))"
    using assms(1) Sethlmac_received
    by (simp_all add: log_at_append ids id_words_Cons id_words_snoc LINKADDR_SIZE_def add.assoc)
  show ?thesis
    using n parts
    by (simp add: Sethlmac_received ids read_entry_def log_code_at log_word_at log_words_at log_addr_at
        LINKADDR_SIZE_def add.assoc del: of_nat_Suc of_nat_add)
next
  case (Hlmac_added ids ts)
  then obtain k ks where ids: "ids = k # ks" using assms(2) by (cases ids) auto
  have n: "nat (sint (of_nat (length ids) :: u32) - 1) = length ks"
    using assms(2) Hlmac_added by (subst sint_count) (auto simp: ids)
  have parts: "log_at m c (le32 0xFFFFAAAA)" "log_at m (c + 4) (le32 (of_nat (length ids)))"
    "log_at m (c + 8) (le32 (ucast k))" "log_at m (c + 12) (id_words ks)"
    "log_at m (c + (12 + 4 * length ks)) (le32 ts)"
    using assms(1) Hlmac_added by (simp_all add: log_at_append ids id_words_Cons add.assoc)
  show ?thesis
    using n parts
    by (simp add: Hlmac_added ids read_entry_def log_code_at log_word_at log_words_at
        add.assoc del: of_nat_Suc of_nat_add)
qed (use assms in \<open>auto simp: read_entry_def log_at_append log_code_at log_word_at log_addr_at
    LINKADDR_SIZE_def add.assoc\<close>)

lemma event_bytes_at_least_4: "4 \<le> length (event_bytes ev)"
  by (cases ev) simp_all

lemma read_lines_events:
  assumes "\<forall>ev \<in> set evs. event_ok ev" "log_at m c (concat (map event_bytes evs))"
  shows "read_lines own m (int (c + length (concat (map event_bytes evs)))) c = map (event_line own) evs"
  using assms
proof (induction evs arbitrary: c)
  case Nil
  then show ?case by (simp add: read_lines.simps)
next
  case (Cons ev evs)
  let ?c = "c + length (event_bytes ev)" and ?stop = "int (c + length (concat (map event_bytes (ev # evs))))"
  have at: "log_at m c (event_bytes ev)" "log_at m ?c (concat (map event_bytes evs))"
    using Cons.prems(2) by (simp_all add: log_at_append)
  have entry: "read_entry own m c = (event_line own ev, ?c - 4)"
    using read_entry_event [OF at(1)] Cons.prems(1) by simp
  have "int c < ?stop" using event_bytes_at_least_4 [of ev] by simp
  then have "read_lines own m ?stop c = event_line own ev # read_lines own m ?stop (?c - 4 + 4)"
    unfolding read_lines.simps [of own m ?stop c] entry by simp
  moreover have "?c - 4 + 4 = ?c" using event_bytes_at_least_4 [of ev] by simp
  moreover have "read_lines own m ?stop ?c = map (event_line own) evs"
    using Cons.IH [OF _ at(2)] Cons.prems(1) by (simp add: add.assoc)
  ultimately show ?case by simp
qed

section \<open>A run and the next\<close>

definition record_run :: "flash_chip \<Rightarrow> log_event list \<Rightarrow> flash_log \<Rightarrow> flash_log" where
  "record_run chip evs s = fold (record_event chip) evs s"

text \<open>The events for which the flash was ready, from the \<open>k\<close>-th poll on.\<close>

fun kept_events :: "flash_chip \<Rightarrow> nat \<Rightarrow> log_event list \<Rightarrow> log_event list" where
  "kept_events chip k [] = []"
| "kept_events chip k (ev # evs) =
     (if flash_ready chip k then ev # kept_events chip (Suc k) evs else kept_events chip (Suc k) evs)"

definition log_size :: "log_event list \<Rightarrow> nat" where
  "log_size evs = length (concat (map event_bytes evs))"

definition log_erased :: "flash_log \<Rightarrow> bool" where
  "log_erased s \<longleftrightarrow> (\<forall>a. log_base \<le> a \<and> a < flash_end \<longrightarrow> cells s a = 0xFF)"

lemma log_size_Cons: "log_size (ev # evs) = length (event_bytes ev) + log_size evs"
  by (simp add: log_size_def)

lemma record_run_holds:
  assumes "chip_laws chip" "\<forall>ev \<in> set evs. event_ok ev" "log_holds s bs"
    "stored_length (cells s) = int (mem_counter s)" "log_base + length bs + log_size evs \<le> flash_end"
  shows "log_holds (record_run chip evs s) (bs @ concat (map event_bytes (kept_events chip (nvmc_polls s) evs))) \<and>
    stored_length (cells (record_run chip evs s)) = int (mem_counter (record_run chip evs s))"
  using assms(2-)
proof (induction evs arbitrary: s bs)
  case Nil
  then show ?case by (simp add: record_run_def)
next
  case (Cons ev evs)
  let ?s = "record_event chip ev s"
  have ev: "?s = log_block chip (append_log chip (event_bytes ev)) s"
    using record_event_appends Cons.prems(1) by simp
  have fits: "log_base + length bs + length (event_bytes ev) \<le> flash_end"
    using Cons.prems(4) by (simp add: log_size_Cons)
  note block = log_block_writes [OF assms(1) Cons.prems(2) fits, folded ev]
  have "log_base + length (bs @ (if flash_ready chip (nvmc_polls s) then event_bytes ev else [])) + log_size evs \<le> flash_end"
    using Cons.prems(4) by (simp add: log_size_Cons)
  then have "log_holds (record_run chip evs ?s)
      ((bs @ (if flash_ready chip (nvmc_polls s) then event_bytes ev else [])) @
        concat (map event_bytes (kept_events chip (nvmc_polls ?s) evs))) \<and>
    stored_length (cells (record_run chip evs ?s)) = int (mem_counter (record_run chip evs ?s))"
    using Cons.prems(1) by (intro Cons.IH block) simp_all
  then show ?case by (simp add: record_run_def block(3) split: if_splits)
qed

lemma log_holds_at: "log_holds s bs \<Longrightarrow> log_at (cells s) 0 bs"
  by (simp add: log_holds_def log_at_def)

lemma erased_holds: "log_erased s \<Longrightarrow> mem_counter s = 0 \<Longrightarrow> log_holds s []"
  by (simp add: log_erased_def log_holds_def load_flash_def)

text \<open>The first block stores a length even where none was stored before.\<close>

lemma record_run_from_erased:
  assumes "chip_laws chip" "evs \<noteq> []" "\<forall>ev \<in> set evs. event_ok ev" "log_erased s" "mem_counter s = 0"
    "log_base + log_size evs \<le> flash_end"
  shows "log_holds (record_run chip evs s) (concat (map event_bytes (kept_events chip (nvmc_polls s) evs)))"
    "stored_length (cells (record_run chip evs s)) = int (log_size (kept_events chip (nvmc_polls s) evs))"
proof -
  obtain ev es where evs: "evs = ev # es" using assms(2) by (cases evs) auto
  let ?s = "record_event chip ev s"
  have ev: "?s = log_block chip (append_log chip (event_bytes ev)) s"
    using record_event_appends assms(3) evs by simp
  have fits: "log_base + length [] + length (event_bytes ev) \<le> flash_end"
    using assms(6) by (simp add: log_size_Cons evs)
  note block = log_block_writes [OF assms(1) erased_holds [OF assms(4,5)] fits, folded ev]
  have "log_base + length ([] @ (if flash_ready chip (nvmc_polls s) then event_bytes ev else [])) + log_size es \<le> flash_end"
    using assms(6) by (simp add: log_size_Cons evs)
  then have "log_holds (record_run chip es ?s)
      (([] @ (if flash_ready chip (nvmc_polls s) then event_bytes ev else [])) @
        concat (map event_bytes (kept_events chip (nvmc_polls ?s) es))) \<and>
    stored_length (cells (record_run chip es ?s)) = int (mem_counter (record_run chip es ?s))"
    using assms(3) evs by (intro record_run_holds assms(1) block) simp_all
  then have *: "log_holds (record_run chip evs s) (concat (map event_bytes (kept_events chip (nvmc_polls s) evs))) \<and>
    stored_length (cells (record_run chip evs s)) = int (mem_counter (record_run chip evs s))"
    by (simp add: record_run_def block(3) evs split: if_splits)
  then show "log_holds (record_run chip evs s) (concat (map event_bytes (kept_events chip (nvmc_polls s) evs)))" by simp
  with * show "stored_length (cells (record_run chip evs s)) = int (log_size (kept_events chip (nvmc_polls s) evs))"
    by (simp add: log_holds_def log_size_def)
qed

lemma kept_subset: "set (kept_events chip k evs) \<subseteq> set evs"
  by (induction chip k evs rule: kept_events.induct) auto

lemma read_log_after_run:
  assumes "chip_laws chip" "evs \<noteq> []" "\<forall>ev \<in> set evs. event_ok ev" "log_erased s" "mem_counter s = 0"
    "log_base + log_size evs \<le> flash_end"
  shows "fst (read_log chip own (record_run chip evs s)) = map (event_line own) (kept_events chip (nvmc_polls s) evs)"
proof -
  let ?k = "kept_events chip (nvmc_polls s) evs" and ?s = "record_run chip evs s"
  have ok: "\<forall>ev \<in> set ?k. event_ok ev" using kept_subset [of chip "nvmc_polls s" evs] assms(3) by blast
  have "read_lines own (cells ?s) (int (0 + length (concat (map event_bytes ?k)))) 0 = map (event_line own) ?k"
    by (rule read_lines_events [OF ok log_holds_at [OF record_run_from_erased(1) [OF assms]]])
  then show ?thesis
    using record_run_from_erased(2) [OF assms] by (simp add: read_log_def Let_def log_size_def)
qed

text \<open>The pages the reader erases cover the log, and nothing between it and the end of the flash is written.\<close>

lemma erase_pages_cells:
  assumes "chip_laws chip" "\<forall>c \<in> set cs. log_base + c * 0x1000 < flash_end" "log_base \<le> a"
  shows "cells (erase_pages chip cs s) a = (if (a - log_base) div 0x1000 \<in> set cs then 0xFF else cells s a)"
  using assms(2)
proof (induction cs arbitrary: s)
  case (Cons c cs)
  have "log_base + c * 0x1000 \<le> a \<and> a < log_base + c * 0x1000 + 0x1000 \<longleftrightarrow> (a - log_base) div 0x1000 = c"
    using assms(3) by (auto simp: page_mem_counter_value)
  moreover have "(log_base + c * 0x1000) mod 0x1000 = 0" by (simp add: page_mem_counter_value)
  ultimately show ?case
    using Cons by (simp add: erase_page_law [OF assms(1)] set_config_def erase_flash_def)
qed simp

lemma erase_pages_mem_counter: "mem_counter (erase_pages chip cs s) = mem_counter s"
  by (induction cs arbitrary: s) (simp_all add: set_config_def erase_flash_def)

lemma stored_length_blank: "(\<And>i. i < 4 \<Longrightarrow> m (page_mem_counter + 0xFFC + i) = 0xFF) \<Longrightarrow> stored_length m = - 1"
proof -
  assume "\<And>i. i < 4 \<Longrightarrow> m (page_mem_counter + 0xFFC + i) = 0xFF"
  then have "load_flash m (page_mem_counter + 0xFFC) 4 = replicate 4 0xFF"
    by (intro nth_equalityI) (simp_all add: load_flash_def)
  also have "replicate 4 (0xFF :: u8) = [0xFF, 0xFF, 0xFF, 0xFF]" by (simp add: eval_nat_numeral)
  also have "\<dots> = le32 0xFFFFFFFF" by (simp add: le32_def)
  finally have "of_le32 (load_flash m (page_mem_counter + 0xFFC) 4) = 0xFFFFFFFF"
    using of_le32_le32 [of "0xFFFFFFFF" "[]"] by simp
  then show ?thesis by (simp add: stored_length_def)
qed

lemma read_log_erases:
  assumes "chip_laws chip" "log_holds s bs" "stored_length (cells s) = int (length bs)"
    "log_base + length bs < flash_end"
  shows "log_erased (snd (read_log chip own s))" "stored_length (cells (snd (read_log chip own s))) = - 1"
    "mem_counter (snd (read_log chip own s)) = mem_counter s"
proof -
  define s1 where "s1 = erase_pages chip [0..<log_pages (int (length bs))] s"
  have pages: "log_pages (int (length bs)) = length bs div 0x1000 + 1"
    by (simp add: log_pages_def nat_add_distrib flip: zdiv_int)
  have inside: "\<forall>c \<in> set [0..<log_pages (int (length bs))]. log_base + c * 0x1000 < flash_end"
    using assms(4) by (auto simp: pages page_mem_counter_value)
  have out: "cells (snd (read_log chip own s)) = erase_page_at chip nvmc_erase page_mem_counter (cells s1)"
    "mem_counter (snd (read_log chip own s)) = mem_counter s1"
    by (simp_all add: read_log_def assms(3) s1_def set_config_def erase_flash_def Let_def)
  have page: "erase_page_at chip nvmc_erase page_mem_counter (cells s1) a =
      (if page_mem_counter \<le> a \<and> a < page_mem_counter + 0x1000 then 0xFF else cells s1 a)" for a
    by (rule erase_page_law [OF assms(1)]) (simp_all add: page_mem_counter_value)
  have "cells s1 a = 0xFF" if a: "log_base \<le> a" "a < flash_end" for a
  proof (cases "a < log_base + length bs")
    case True
    then have "(a - log_base) div 0x1000 \<le> length bs div 0x1000" by (intro div_le_mono) simp
    then show ?thesis
      unfolding s1_def using erase_pages_cells [OF assms(1) inside a(1), of s] by (simp add: pages less_Suc_eq_le)
  next
    case False
    then show ?thesis
      unfolding s1_def using erase_pages_cells [OF assms(1) inside a(1), of s] assms(2) a(2)
      by (simp add: log_holds_def)
  qed
  then show "log_erased (snd (read_log chip own s))"
    unfolding log_erased_def out page by (auto simp: page_mem_counter_value)
  show "stored_length (cells (snd (read_log chip own s))) = - 1"
    unfolding out by (rule stored_length_blank) (simp add: page)
  show "mem_counter (snd (read_log chip own s)) = mem_counter s"
    by (simp add: out s1_def erase_pages_mem_counter)
qed

text \<open>
  At a start the counter is the initial value 0 while the flash keeps its contents. \<open>read_log\<close> runs from a
  timer; a block that runs before it writes over the old log and its length.
\<close>

definition log_restart :: "flash_log \<Rightarrow> flash_log" where
  "log_restart s = s\<lparr>mem_counter := 0\<rparr>"

lemma record_event_stores:
  assumes "chip_laws chip" "event_ok ev" "mem_counter s + length (event_bytes ev) < 2 ^ 31"
  shows "stored_length (cells (record_event chip ev s)) =
    int (mem_counter s + (if flash_ready chip (nvmc_polls s) then length (event_bytes ev) else 0))"
proof -
  define s1 where "s1 = s\<lparr>nvmc_polls := Suc (nvmc_polls s)\<rparr>"
  define s2 where "s2 = (if flash_ready chip (nvmc_polls s)
    then set_config nvmc_read (append_log chip (event_bytes ev) (set_config nvmc_write s1)) else s1)"
  have eq: "record_event chip ev s = update_mem_counter chip s2"
    by (simp add: record_event_appends [OF assms(2)] log_block_def check_write_def s1_def s2_def
        flash_ready_def case_prod_beta)
  have m: "mem_counter s2 = mem_counter s + (if flash_ready chip (nvmc_polls s) then length (event_bytes ev) else 0)"
    by (simp add: s2_def s1_def set_config_def append_log_def)
  show ?thesis
    unfolding eq m [symmetric] by (rule update_mem_counter_stores [OF assms(1)]) (use assms(3) m in auto)
qed

lemma read_lines_length:
  "length (read_lines own m n c) \<le> nat (n - int c + 3) div 4"
proof (induction own m n c rule: read_lines.induct)
  case (1 own m n c)
  show ?case
  proof (cases "int c < n")
    case True
    let ?c = "snd (read_entry own m c) + 4"
    have "length (read_lines own m n c) = Suc (length (read_lines own m n ?c))"
      unfolding read_lines.simps [of own m n c] using True by simp
    also have "\<dots> \<le> Suc (nat (n - int ?c + 3) div 4)" using 1 True by simp
    also have "\<dots> \<le> nat (n - int c + 3) div 4"
      using True read_entry_advances [of c own m] by linarith
    finally show ?thesis .
  next
    case False
    then show ?thesis by (subst read_lines.simps) simp
  qed
qed

lemma event_bytes_short: "event_ok ev \<Longrightarrow> length (event_bytes ev) < 5000"
  by (cases ev) (auto simp: LINKADDR_SIZE_def)

lemma early_event_reads_short:
  assumes "chip_laws chip" "event_ok ev"
  shows "length (fst (read_log chip own (record_event chip ev (log_restart s)))) \<le> (length (event_bytes ev) + 3) div 4"
proof -
  let ?s = "record_event chip ev (log_restart s)"
  have "stored_length (cells ?s) \<le> int (length (event_bytes ev))"
    using record_event_stores [OF assms, of "log_restart s"] event_bytes_short [OF assms(2)]
    by (simp add: log_restart_def)
  then have "nat (stored_length (cells ?s) + 3) div 4 \<le> (length (event_bytes ev) + 3) div 4"
    by (intro div_le_mono) simp
  with read_lines_length [of own "cells ?s" "stored_length (cells ?s)" 0] show ?thesis
    by (simp add: read_log_def Let_def)
qed

lemma log_size_kept: "log_size (kept_events chip k evs) \<le> log_size evs"
  by (induction chip k evs rule: kept_events.induct) (auto simp: log_size_def)

lemma erase_pages_restart: "erase_pages chip cs (log_restart s) = log_restart (erase_pages chip cs s)"
proof (induction cs arbitrary: s)
  case (Cons c cs)
  have "set_config nvmc_read (erase_flash chip p (set_config nvmc_erase (log_restart s))) =
      log_restart (set_config nvmc_read (erase_flash chip p (set_config nvmc_erase s)))" for p
    by (simp add: set_config_def erase_flash_def log_restart_def)
  with Cons show ?case by (simp only: erase_pages.simps)
qed simp

lemma read_log_restart:
  "fst (read_log chip own (log_restart s)) = fst (read_log chip own s)"
  "snd (read_log chip own (log_restart s)) = log_restart (snd (read_log chip own s))"
proof -
  have "cells (log_restart s) = cells s" by (simp add: log_restart_def)
  then show "fst (read_log chip own (log_restart s)) = fst (read_log chip own s)"
    "snd (read_log chip own (log_restart s)) = log_restart (snd (read_log chip own s))"
    unfolding read_log_def Let_def
    by (simp_all add: erase_pages_restart) (simp add: set_config_def erase_flash_def log_restart_def)
qed

lemma log_restart_cells: "cells (log_restart s) = cells s" "log_erased (log_restart s) \<longleftrightarrow> log_erased s"
  by (simp_all add: log_restart_def log_erased_def)

lemma read_log_blank:
  "stored_length (cells s) = - 1 \<Longrightarrow> fst (read_log chip own s) = []"
  by (simp add: read_log_def Let_def read_lines.simps)

end
