(* ===== verification/Sample_Library.thy ===== *)
theory Sample_Library imports Lwm2m_Tlv Contiki_Rings Contiki_Codecs Contiki_Heapmem Contiki_Nbr_Table Iotorii_Log begin

text \<open>
  Concrete states of the library and of the event log on which the properties of the root theory are
  applied: two items on each kind of list, a flash that is busy at its second poll, a heap of three
  chunks with the free one in the middle, a full neighbor table whose first neighbor is locked.
\<close>

text \<open>Writing clears bits, erasing sets those of a page.\<close>

definition sample_chip :: flash_chip where
  "sample_chip = \<lparr>store_cell = (\<lambda>mode a old new. if mode = nvmc_write then old AND new else old),
     erase_page_at = (\<lambda>mode p m a. if mode = nvmc_erase \<and> p \<le> a \<and> a < p + 0x1000 then 0xFF else m a),
     ready_at = (\<lambda>k. if k = 1 then (1, 0) else (1, 1))\<rparr>"

definition blank_log :: flash_log where
  "blank_log = \<lparr>cells = (\<lambda>_. 0xFF), nvmc_config = nvmc_read, nvmc_polls = 0, mem_counter = 0\<rparr>"

lemma sample_chip_laws: "chip_laws sample_chip"
proof -
  have "(0xFF :: u8) = - 1" by simp
  then have "0xFF AND b = b" for b :: u8 by (simp only: and.left_neutral)
  then show ?thesis by (simp add: chip_laws_def sample_chip_def)
qed

lemma blank_log_erased: "log_erased blank_log" "mem_counter blank_log = 0" "nvmc_polls blank_log = 0"
  by (simp_all add: log_erased_def blank_log_def)

lemma sample_chip_ready: "flash_ready sample_chip k \<longleftrightarrow> k \<noteq> 1"
  by (simp add: flash_ready_def sample_chip_def)

definition two_items :: dll_state where
  "two_items = \<lparr>dl_head = 2, dl_next = (\<lambda>_. NULL)(2 := 3), dl_prev = (\<lambda>_. NULL)(3 := 2)\<rparr>"

lemma two_items_repr: "dll_repr two_items [2, 3]"
  by (auto simp: dll_repr_def two_items_def)

definition two_ring :: dll_state where
  "two_ring = \<lparr>dl_head = 2, dl_next = (\<lambda>_. NULL)(2 := 3, 3 := 2), dl_prev = (\<lambda>_. NULL)(2 := 3, 3 := 2)\<rparr>"

lemma two_ring_repr: "dcl_repr two_ring [2, 3]"
  by (auto simp: dcl_repr_def ring_def two_ring_def)

definition two_turning :: list_state where
  "two_turning = \<lparr>head = 2, nxt = (\<lambda>_. NULL)(2 := 3, 3 := 2)\<rparr>"

lemma two_turning_repr: "cl_repr two_turning [2, 3]"
  by (auto simp: cl_repr_def one_ring_def two_turning_def)

definition sample_conf :: hm_conf where
  "sample_conf = \<lparr>heap_base = 4096, arena_size = 1024, chunk_search_max = 16\<rparr>"

definition three_chunks :: heapmem where
  "three_chunks = (heapmem_boot sample_conf 1)\<lparr>heap_usage := 176, free_list := 4160,
     ck_size := (\<lambda>_. 0)(4096 := 32, 4160 := 16, 4208 := 32), ck_flags := (\<lambda>_. 0)(4096 := 1, 4208 := 1)\<rparr>"

lemma sample_conf_ok: "conf_ok sample_conf"
  by (simp add: conf_ok_def sample_conf_def HEAPMEM_ALIGNMENT_def)

lemma three_chunks_inv: "heap_inv sample_conf three_chunks [4096, 4160, 4208] [4160] NULL"
proof -
  have "{x \<in> set [4096, 4160, 4208]. CHUNK_FREE three_chunks x \<and> x \<noteq> NULL} = {4160}"
    by (auto simp: chunk_free_iff CHUNK_ALLOCATED_def three_chunks_def)
  moreover have "dll_repr (free_links three_chunks) [4160]"
    by (auto simp: dll_repr_def free_links_def three_chunks_def heapmem_boot_def)
  ultimately show ?thesis
    by (simp add: heap_inv_def) (simp add: three_chunks_def sample_conf_def heap_end_def CHUNK_T_SIZE_def HEAPMEM_ALIGNMENT_def)
qed

lemma three_chunks_ok: "heap_ok sample_conf three_chunks"
  by (rule heap_okI(1) [OF three_chunks_inv])

lemma three_chunks_blocks: "heap_blocks sample_conf three_chunks 4096 = Some (32, 0)"
  unfolding heap_okI(2) [OF three_chunks_inv]
  by (simp add: alloc_map_def CHUNK_ALLOCATED_def three_chunks_def heapmem_boot_def)

text \<open>Two neighbors, 1 and 2, in the one table there is; the callback notes the items it is told about.\<close>

definition neighbor_1 :: linkaddr where "neighbor_1 = Linkaddr 0 0 0 0 0 0 0 1"
definition neighbor_2 :: linkaddr where "neighbor_2 = Linkaddr 0 0 0 0 0 0 0 2"
definition neighbor_3 :: linkaddr where "neighbor_3 = Linkaddr 0 0 0 0 0 0 0 3"

definition full_neighbors :: "ptr list nbr_state" where
  "full_neighbors = \<lparr>used_map = [1, 1], locked_map = [1, 0], all_tables = 64 # replicate 7 NULL, num_tables = 1,
     tables = (\<lambda>_. \<lparr>tb_index = 0, tb_item_size = 4, tb_callback = 1, tb_data = 8192\<rparr>),
     neighbor_addr_mem = \<lparr>msize = 16, mnum = 2, mused = [True, True], mbase = 4096, mmem = []\<rparr>,
     nbr_table_keys = \<lparr>head = 4096, nxt = (\<lambda>_. NULL)(4096 := 4112)\<rparr>,
     key_lladdr = (\<lambda>_. neighbor_2)(4096 := neighbor_1), item_bytes = (\<lambda>_. 7), nbr_client = []\<rparr>"

definition noting_conf :: "ptr list nbr_conf" where
  "noting_conf = \<lparr>gc_get_worst = nbr_table_gc_get_worst, can_accept_new = nbr_table_can_accept_new,
     run_callback = (\<lambda>f it s. s\<lparr>nbr_client := nbr_client s @ [it]\<rparr>)\<rparr>"

lemma noting_conf_ok: "default_policy noting_conf" "nbr_callbacks_ok noting_conf"
  by (simp_all add: default_policy_def nbr_callbacks_ok_def noting_conf_def nbr_only_def)

lemma below_2: "(\<forall>i<(2::nat). P i) \<longleftrightarrow> P 0 \<and> P 1"
  by (auto simp: less_2_cases_iff)

lemma set_below_2: "{i. i < (2::nat) \<and> P i} = (if P 0 then {0} else {}) \<union> (if P 1 then {1} else {})"
proof (rule set_eqI)
  fix i :: nat
  consider "i = 0" | "i = 1" | "2 \<le> i" by linarith
  then show "i \<in> {i. i < 2 \<and> P i} \<longleftrightarrow> i \<in> (if P 0 then {0} else {}) \<union> (if P 1 then {1} else {})"
    by cases auto
qed

lemma full_neighbors_live: "memb_live (neighbor_addr_mem full_neighbors) = {4096, 4112}"
proof -
  have "{i. i < 2 \<and> [True, True] ! i} = {0, 1 :: nat}" unfolding set_below_2 by (simp add: insert_commute)
  then show ?thesis by (simp add: full_neighbors_def memb_live_def block_at_def)
qed

lemma full_neighbors_wf: "nbr_wf full_neighbors [4096, 4112]"
proof -
  have "table_ok full_neighbors 64" by (simp add: table_ok_def full_neighbors_def MAX_NUM_TABLES_def)
  then have "tables_ok full_neighbors"
    unfolding tables_ok_def by (simp add: full_neighbors_def MAX_NUM_TABLES_def nth_Cons split: nat.split)
  moreover have "nbr_inv full_neighbors [4096, 4112] {}"
    using full_neighbors_live
    by (simp add: nbr_inv_def full_neighbors_def memb_wf_def list_repr_def inj_on_def neighbor_1_def neighbor_2_def
        below_2 block_at_def)
  ultimately show ?thesis by (simp add: nbr_wf_def)
qed

lemma full_neighbors_table: "nbr_table_is_registered full_neighbors 64"
  by (simp add: nbr_table_is_registered_def full_neighbors_def MAX_NUM_TABLES_def)

lemma full_neighbors_slots: "slot full_neighbors 4096 = 0" "slot full_neighbors 4112 = 1"
  by (simp_all add: slot_def index_from_key_def full_neighbors_def)

lemma full_neighbors_victim:
  "least_used full_neighbors None [4096, 4112] = Some 4112" "memb_numfree (neighbor_addr_mem full_neighbors) = 0"
  "key_of full_neighbors [4096, 4112] neighbor_3 = None" "key_lladdr full_neighbors 4112 = neighbor_2"
proof -
  show "least_used full_neighbors None [4096, 4112] = Some 4112"
    by (simp add: unlocked_def full_neighbors_slots) (simp add: full_neighbors_def)
  have "{j. j < 2 \<and> \<not> [True, True] ! j} = {}" unfolding set_below_2 by simp
  then show "memb_numfree (neighbor_addr_mem full_neighbors) = 0" by (simp add: memb_numfree_eq full_neighbors_def)
  show "key_of full_neighbors [4096, 4112] neighbor_3 = None" "key_lladdr full_neighbors 4112 = neighbor_2"
    by (simp_all add: key_of_def full_neighbors_def neighbor_1_def neighbor_2_def neighbor_3_def)
qed

end
