(* ===== verification/Spec2Isabelle.thy ===== *)
theory Spec2Isabelle imports Contiki_List Contiki_Memb Contiki_Packetbuf Contiki_Queuebuf Contiki_Mac_Sequence Hlmac_Table Csma_Output Csma_Delay Iotorii_Messages Iotorii_Node Iotorii_Receive Iotorii_Invariant Iotorii_Labels Iotorii_Loads Iotorii_Random Node_Frames Sample_States Sample_Kernel Sample_Library begin

text \<open>
  den2ne on Contiki-NG.

  den2ne is a protocol for networks of constrained nodes: a root hands out hierarchical addresses
  (HLMACs), every node hands longer ones to its neighbours, and loads are reported and shared along
  the tree the addresses form. The program is a MAC layer of Contiki-NG 4.8,
  \<open>examples/den2ne-def\<close>, over the operating system's buffers, frames, timers and processes. This
  development models that MAC layer in its link-layer build (\<open>IOTORII_IPV6 0\<close>), and what it stands on.

  The parts and their theories. All paths are under \<open>src/4.8\<close>.

  \<^item> \<open>Prelude\<close>: the machine integers, byte orders, stores of bytes, facts about lists; \<open>Block_Heap\<close>:
    \<open>malloc\<close> and \<open>free\<close> of the C library as the protocol uses them.
  \<^item> The protocol. \<open>Hlmac_Addr\<close> (\<open>hlmacaddr.c\<close>) has addresses as pointers to blocks of identifiers,
    \<open>Hlmac_Table\<close> (\<open>hlmac-table.c\<close>) the node's own addresses and the loop check,
    \<open>Iotorii_Messages\<close> the SetHLMAC message. \<open>Iotorii_Node\<close> has the state of a node (one record, its
    fields the static variables of \<open>iotorii-csma.c\<close>), its timers and what it sends,
    \<open>Iotorii_Receive\<close> what it does with a received frame; a handler is one definition.
    \<open>Iotorii_Invariant\<close> composes them: \<open>iot_step\<close> is one frame received, one timer expired or one
    transmission, \<open>iot_reachable\<close> the states of all interleavings. \<open>Iotorii_Labels\<close>,
    \<open>Iotorii_Loads\<close> and \<open>Iotorii_Random\<close> show how labels and loads travel and that the random
    numbers keep what they promise. \<open>Iotorii_Log\<close> is the event log in flash.
  \<^item> The transmission queues, \<open>Csma_Output\<close> and \<open>Csma_Delay\<close> (\<open>csma-output.c\<close>): queues per neighbour,
    backoff, retransmissions. What the radio answers is an argument of the step that transmits.
  \<^item> Buffers and containers of the system: \<open>Contiki_Packetbuf\<close> (\<open>os/net/packetbuf.c\<close>, \<open>linkaddr.c\<close>),
    \<open>Contiki_Queuebuf\<close> (\<open>queuebuf.c\<close>), \<open>Contiki_Mac_Sequence\<close> (\<open>mac-sequence.c\<close>), \<open>Contiki_Nbr_Table\<close>
    (\<open>nbr-table.c\<close>), \<open>Contiki_List\<close>,
    \<open>Contiki_Memb\<close>, \<open>Contiki_Rings\<close>, \<open>Contiki_Ringbuf\<close>, \<open>Contiki_Codecs\<close>, \<open>Contiki_Heapmem\<close>
    (\<open>os/lib\<close>: \<open>list.c\<close>, \<open>memb.c\<close>, the circular and doubly linked lists, the ring buffers, \<open>crc16.c\<close>,
    \<open>hexconv.c\<close>, \<open>heapmem.c\<close>). \<open>Lwm2m_Tlv\<close> (\<open>os/services/lwm2m/lwm2m-tlv.c\<close>) is the encoding of the
    entries of one of the services.
  \<^item> Frames and security: \<open>Frame_802154\<close> and \<open>Framer_802154\<close> (\<open>os/net/mac/framer\<close>), \<open>Aes_128\<close> and
    \<open>Ccm_Star\<close> (\<open>os/lib\<close>), \<open>Csma_Security\<close> (\<open>csma-security.c\<close>, \<open>anti-replay.c\<close>,
    \<open>ccm-star-packetbuf.c\<close>), \<open>Node_Frames\<close> (the node with the real framer in place of any).
  \<^item> The kernel: \<open>Contiki_Process\<close>, \<open>Process_Queue\<close>, \<open>Process_Runs\<close>, \<open>Process_Delivery\<close>
    (\<open>os/sys/process.c\<close>), \<open>Contiki_Timer\<close> (\<open>timer.c\<close>, \<open>stimer.c\<close>), \<open>Contiki_Etimer\<close> (\<open>etimer.c\<close>) and
    \<open>Contiki_Ctimer\<close> (\<open>ctimer.c\<close>).
  \<^item> \<open>Sample_States\<close>, \<open>Sample_Kernel\<close>, \<open>Sample_Library\<close>: concrete states on which the properties are
    applied.

  How the parts rest on one another. The lists and pools of the queues are the library's: their
  contracts are the locales \<open>linked_list\<close>, \<open>block_pool\<close> and \<open>packet_store\<close>, interpreted on the models
  of \<open>list.c\<close>, \<open>memb.c\<close> and \<open>queuebuf.c\<close>; the neighbor tables use the first two as well, and the free list
  of \<open>heapmem.c\<close> is one of the doubly linked lists; authenticated encryption is proved for any
  \<open>block_cipher\<close> and interpreted on AES; the kernel's event queue and the byte ring share the contract
  \<open>bounded_fifo\<close>. Where one part is proved for any other (the framer of the node, the threads of the
  processes, the callbacks of the timers, the flash controller), that other is an argument and the laws
  it must keep are named predicates (\<open>framer_room\<close>, \<open>parser_ok\<close>, \<open>threads_keep\<close>, \<open>callbacks_ok\<close>,
  \<open>nbr_callbacks_ok\<close>, \<open>chip_laws\<close>), each shown to hold of a concrete one.

  What the lemmas show. Per component: an invariant (\<open>pb_wf\<close>, \<open>qb_wf\<close>, \<open>memb_wf\<close>, \<open>list_repr\<close>,
  \<open>table_wf\<close>, \<open>csma_wf\<close>, \<open>node_inv\<close>, \<open>kernel_wf\<close>, \<open>timers_wf\<close>, \<open>ctimers_inv\<close>, \<open>heap_ok\<close>, \<open>nbr_wf\<close>,
  \<open>log_holds\<close>)
  that every operation keeps, the effect of each operation on an abstract view (the sequence of a
  queue, the set of live blocks, the map of allocated blocks, the events in order), and its error
  branches. Codecs have round trips; AES and CCM* are equal to written-out versions of their standards.
  Several properties state what the code does where that is not what was meant, with the state that
  shows it.

  Integers have the width of the C types and wrap; pointers are natural numbers with NULL 0. A walk
  along links that could be cyclic is a \<open>partial_function\<close>, whose value None means that it does
  not return, and the lemmas show that it returns on well-formed structures; so are the main loop of the
  kernel and the search for a free random priority. Other loops are functions with a
  measure or recursions on the number of turns the code allows. No property has fuel of its own.

  Not modelled: printed output; the IPv6 build, which rests on the IP stack; the older copies of
  den2ne and Contiki-NG's own CSMA driver, of which den2ne's is a changed copy; swapping
  of queue buffers to files; interrupts between two accesses of a ring; drivers, boards and radios; the
  network stacks, the file systems, the databases and the other services, which the link-layer build does not call. The event log
  is modelled beside the node and not threaded through its handlers. The rest of
  \<open>os/lib\<close> and \<open>os/sys\<close> is output, start-up tables, statistics, or code that is not the
  project's own.
\<close>

section \<open>Runs of a node\<close>

text \<open>
  C1: In every state a node reaches, however received frames, timer expiries and transmissions
  interleave, the neighbour list has one entry per address and its counter is right, every
  queued message has its declared length and fits the packet buffer, a waiting message always
  has its send timer armed, and the CSMA layer and the HLMAC table are well formed.
\<close>

theorem node_runs_safe:
  assumes "iot_reachable e create_frame parse_frame s" "env_ok e" "framer_room create_frame" "parser_ok parse_frame"
  shows "distinct (map nb_addr (neighbours s)) \<and> number_of_neighbours s = int (length (neighbours s)) \<and>
    length (neighbours s) \<le> 256 \<and>
    (\<forall>p \<in> set (payloads s). pe_data_len p = length (pe_payload p) \<and> pe_data_len p \<le> PACKETBUF_SIZE) \<and>
    (payloads s \<noteq> [] \<longrightarrow> send_sethlmac_timer s \<noteq> None) \<and>
    csma_wf (mac s) \<and> table_wf (hlmac_max (opts e)) (table s)"
  using iot_reachable_inv [OF assms] by (auto simp: node_inv_def nb_ok_def pay_ok_def)

lemma node_runs_safe_witness: "csma_wf (mac (iotorii_init (sample_env unicast_node) blank_node))"
  using node_runs_safe [OF started_reachable sample_env_ok(1) plain_framer_room, of unicast_node] by blast

text \<open>
  C2: Every handler that may search for free random priorities ends, in every state of a run
  whose random numbers keep hitting every residue: a free place exists for every neighbour but
  the sender, also with 256 neighbours.
\<close>

theorem handlers_end:
  assumes "iot_reachable e create_frame parse_frame s" "env_ok e" "framer_room create_frame" "parser_ok parse_frame"
    and "hits (rand (mac s))" "(iot_step e create_frame parse_frame)\<^sup>*\<^sup>* s s'"
  shows "(\<exists>s''. input_packet e parse_frame now s' = Some s'') \<and> (\<exists>s''. iotorii_handle_sethlmac_timer e now s' = Some s'')"
proof -
  have "iot_reachable e create_frame parse_frame s'" by (rule iot_steps_reachable [OF assms(6,1)])
  then have "nb_ok s'" using iot_reachable_inv assms(2-4) by (simp add: node_inv_def)
  then show ?thesis using input_packet_ends sethlmac_timer_ends iot_steps_hits [OF assms(6,5)] by blast
qed

lemma handlers_end_witness:
  "\<exists>s'. input_packet (sample_env unicast_node) plain_framer 0 (iotorii_init (sample_env unicast_node) blank_node) = Some s'"
proof -
  have "hits (rand (mac (iotorii_init (sample_env unicast_node) blank_node)))"
    by (simp add: iotorii_init_def next_rand_def random_rand_def Let_def hits_counting)
  from handlers_end [OF started_reachable sample_env_ok(1) plain_framer_room this rtranclp.rtrancl_refl, of 0]
  show ?thesis by blast
qed

section \<open>The transmission queues\<close>

text \<open>
  C3: In every reachable state of the CSMA layer, however outputs and transmission timers
  interleave, nothing leaks and nothing is shared: the neighbour structs handed out are the
  ones in the list, every packet struct handed out is in exactly one queue, and each has its
  own metadata block and queue buffer; every listed neighbour has a packet to send and an
  armed timer.
\<close>

theorem csma_blocks_conserved:
  assumes "csma_reachable cfg addr create_frame s" "framer_ok create_frame"
  shows "set (neighbour_list s) = memb_live (neighbor_memb s) \<and>
    queues_wf (neighbour_list s) (nq_queue s) (memb_live (packet_memb s)) \<and>
    card (memb_live (metadata_memb s)) = card (memb_live (packet_memb s)) \<and>
    card (qb_live (qbufs s)) = card (memb_live (packet_memb s)) \<and>
    (\<forall>n \<in> set (neighbour_list s). nq_queue s n \<noteq> [] \<and> nq_timer s n \<noteq> None)"
proof -
  have "csma_wf s" by (rule csma_reachable_wf [OF assms])
  then show ?thesis
    by (auto simp: csma_wf_def csma_core_def stock_wf_def busy_def dest: card_image)
qed

lemma csma_blocks_conserved_witness:
  "set (neighbour_list (csma_output_init boot_state)) = memb_live (neighbor_memb (csma_output_init boot_state))"
  using csma_blocks_conserved [OF reach_init [OF boot_ok, of broadcast_root node_a] plain_framer_ok] by blast

text \<open>
  C4: Handing a packet to the CSMA layer appends it to the sequence of its destination, or,
  when no packet or neighbour struct is free, leaves every sequence alone and reports
  \<open>MAC_TX_ERR\<close> to the callback; it never loses or reorders another packet.
\<close>

theorem csma_output_refines_enqueue:
  assumes "csma_wf s" "\<forall>m \<in> set (neighbour_list s). counted s m"
    and "a = packetbuf_addr (pktbuf s) ADDR_RECEIVER"
  shows "pending (csma_output_packet cfg sent cptr s) =
      (if accepts s then (pending s)(a := pending s a @ [pb_packet (pktbuf s)]) else pending s) \<and>
    sent_calls (csma_output_packet cfg sent cptr s) =
      sent_calls s @ (if accepts s \<or> sent = NULL then [] else [(sent, cptr, MAC_TX_ERR, 1)])"
  using csma_output_spec(1,2) [OF assms refl] by blast

lemma csma_output_refines_enqueue_witness:
  "pending (csma_output_packet broadcast_root 0 0 (csma_output_init boot_state)) =
     (pending (csma_output_init boot_state))(linkaddr_null := [[]])"
proof -
  let ?s = "csma_output_init boot_state"
  have "pending ?s linkaddr_null = []" by (simp add: pending_def queue_of_def)
  moreover have "pb_packet empty_pktbuf = []" "packetbuf_addr empty_pktbuf ADDR_RECEIVER = linkaddr_null"
    by (simp_all add: pb_packet_def pb_data_def empty_pktbuf_def sub_def packetbuf_addr_def)
  ultimately show ?thesis
    using csma_output_refines_enqueue [OF boot_wf, of "packetbuf_addr (pktbuf ?s) ADDR_RECEIVER" broadcast_root 0 0] boot_accepts
    by simp
qed

text \<open>
  C5: When a neighbour's timer fires, the sequences of all other destinations stay; its own
  loses exactly its first packet when that packet is released, and nothing otherwise. Packets
  leave in the order they came.
\<close>

theorem transmission_takes_the_head:
  assumes "csma_wf s" "n \<in> set (neighbour_list s)" "counted s n" "framer_ok create_frame"
    and "s' = transmit_from_queue cfg addr create_frame ra n (timer_fired n s)"
  shows "pending s' = (if hd (nq_queue s n) \<in> memb_live (packet_memb s') then pending s
    else (pending s)(nq_addr s n := tl (pending s (nq_addr s n))))"
  using transmit_pending [OF timer_fired_wf [OF assms(1,2)] _ assms(4,5)] assms(3) by simp

lemma transmission_takes_the_head_witness:
  "\<exists>s'. s' = transmit_from_queue broadcast_root node_a plain_framer clear_channel busy_neighbor
      (timer_fired busy_neighbor busy_state) \<and>
    pending s' = (if hd (nq_queue busy_state busy_neighbor) \<in> memb_live (packet_memb s') then pending busy_state
      else (pending busy_state)(nq_addr busy_state busy_neighbor := tl (pending busy_state (nq_addr busy_state busy_neighbor))))"
  using transmission_takes_the_head [OF busy_state_wf(1,4) _ plain_framer_ok refl,
      of broadcast_root node_a clear_channel] busy_state_wf(2,4) by blast

text \<open>
  C6: However the radio answers, a packet at the head of its queue is gone after its neighbour's
  timer has fired more often than there are attempts left: sent, or given up. The attempts
  left are at most six times the transmission limit.
\<close>

theorem head_packet_is_released:
  assumes "csma_wf s" "\<forall>m \<in> set (neighbour_list s). counted s m" "framer_ok create_frame"
    and "n \<in> set (neighbour_list s)" "attempts_left s n < length answers"
  shows "hd (nq_queue s n) \<notin> memb_live (packet_memb (fires cfg addr create_frame n (hd (nq_queue s n)) answers s))"
  by (rule fires_release [OF assms(1-4) refl assms(5)])

lemma head_packet_is_released_witness:
  "hd (nq_queue busy_state busy_neighbor) \<notin> memb_live (packet_memb (fires broadcast_root node_a plain_framer busy_neighbor
      (hd (nq_queue busy_state busy_neighbor)) (replicate 1600 clear_channel) busy_state))"
proof -
  have "unat (head_max busy_state busy_neighbor) \<le> 255" using unat_u8 [of "head_max busy_state busy_neighbor"] by simp
  then have "attempts_left busy_state busy_neighbor < length (replicate 1600 clear_channel)"
    by (simp add: attempts_left_def)
  from head_packet_is_released [OF busy_state_wf(1,2) plain_framer_ok busy_state_wf(4) this] show ?thesis by blast
qed

text \<open>
  The backoff before a transmission is shorter than \<open>2 ^ BE - 1\<close> backoff periods, with the
  exponent between 3 and 5 and growing with the collisions, so below 186 ticks, and only the
  neighbour's own timer is set.
\<close>

theorem backoff_is_bounded:
  "\<exists>d. nq_timer (schedule_transmission cfg n s) = (nq_timer s)(n := Some d) \<and>
    unat d < (2 ^ backoff_exponent_of (nq_collisions s n) - 1) * unat (backoff_period cfg) \<and>
    backoff_exponent_of (nq_collisions s n) \<in> {3..5} \<and> unat d < 186"
proof -
  obtain d where d: "nq_timer (schedule_transmission cfg n s) = (nq_timer s)(n := Some d)"
    "unat d < (2 ^ backoff_exponent_of (nq_collisions s n) - 1) * unat (backoff_period cfg)"
    by (rule schedule_transmission_effect [of cfg n s]) simp
  moreover have "backoff_exponent_of (nq_collisions s n) \<in> {3..5}"
    by (simp add: backoff_exponent_of_def CSMA_MIN_BE_def CSMA_MAX_BE_def)
  ultimately show ?thesis using backoff_bound [of "nq_collisions s n" cfg] by (intro exI [of _ d]) simp
qed

section \<open>HLMAC addresses\<close>

text \<open>
  C7: A child's address is its parent's identifiers followed by the new one, in a fresh block;
  the old block is released and no other block of the heap changes.
\<close>

theorem add_new_id_extends:
  assumes "heap_wf h" "hl_repr h a ids" "length ids < 255" "hlmac_add_new_id a new_id h = (a', h')"
  shows "hl_repr h' a' (ids @ [new_id]) \<and> heap_touch {address a, address a'} h h' \<and>
    blocks h (address a') = None \<and> (address a \<noteq> NULL \<longrightarrow> blocks h' (address a) = None)"
  using add_new_id_spec [OF assms] by blast

lemma add_new_id_extends_witness:
  "\<exists>a' h'. hlmac_add_new_id \<lparr>address = 1, len = 2\<rparr> 9 small_heap = (a', h') \<and> hl_repr h' a' [1, 4, 9]"
proof -
  obtain a' h' where "hlmac_add_new_id \<lparr>address = 1, len = 2\<rparr> 9 small_heap = (a', h')" by fastforce
  with add_new_id_extends [OF small_heap_wf(1) small_heap_addrs(1) _ this] show ?thesis by auto
qed



text \<open>
  Removing the last identifier leaves the others in a fresh block (or the NULL address for a
  single one), releases the old block and changes no other block.
\<close>

theorem remove_last_id_shortens:
  assumes "heap_wf h" "hl_repr h a ids" "ids \<noteq> []" "hlmac_remove_Last_id a h = (a', h')"
  shows "hl_repr h' a' (butlast ids) \<and> heap_touch {address a, address a'} h h' \<and> blocks h' (address a) = None"
  using remove_Last_id_spec [OF assms(1,2,4)] assms(3) by blast

lemma remove_last_id_shortens_witness:
  "\<exists>a' h'. hlmac_remove_Last_id \<lparr>address = 2, len = 3\<rparr> small_heap = (a', h') \<and> hl_repr h' a' [1, 4]"
proof -
  obtain a' h' where "hlmac_remove_Last_id \<lparr>address = 2, len = 3\<rparr> small_heap = (a', h')" by fastforce
  with remove_last_id_shortens [OF small_heap_wf(1) small_heap_addrs(2) _ this] show ?thesis by auto
qed

text \<open>
  Comparing two addresses reads only their blocks, gives opposite results when swapped, and
  gives 0 exactly when the identifier lists agree up to trailing zeros.
\<close>

theorem hlmac_cmp_decides:
  assumes "hl_repr h a ids" "hl_repr h b ids'"
  shows "snd (hlmac_cmp a b h) = h \<and> fst (hlmac_cmp b a h) = - fst (hlmac_cmp a b h) \<and>
    (fst (hlmac_cmp a b h) = 0 \<longleftrightarrow> strip_zeros ids = strip_zeros ids')"
  using hlmac_cmp_repr [OF assms] hlmac_cmp_repr [OF assms(2,1)] cmp_ids_antisym [of ids' ids]
  by (simp add: cmp_ids_0_iff)

lemma hlmac_cmp_decides_witness:
  "fst (hlmac_cmp \<lparr>address = 1, len = 2\<rparr> \<lparr>address = 2, len = 3\<rparr> small_heap) \<noteq> 0"
  using hlmac_cmp_decides [OF small_heap_addrs] by (simp add: strip_zeros_def)

text \<open>
  The text of an address is each identifier as two hexadecimal digits and a dot, written
  inside its buffer, when \<open>char\<close> is unsigned or every identifier is below 128.
\<close>

theorem addr_to_str_prints:
  assumes "hl_repr h a ids" "\<not> sgn_char \<or> (\<forall>v \<in> set ids. v < 128)"
  shows "\<exists>b. hlmac_addr_to_str sgn_char a h = (h, b) \<and> c_string b = ids_text ids \<and> \<not> overrun b"
  by (rule hlmac_addr_to_str_repr [OF assms])

lemma addr_to_str_prints_witness:
  "\<exists>b. hlmac_addr_to_str True \<lparr>address = 1, len = 2\<rparr> small_heap = (small_heap, b) \<and> c_string b = ''01.04.''"
proof -
  have "ids_text [1, 4] = ''01.04.''" by (simp add: ids_text_def hex_byte_def hex_digit_def)
  with addr_to_str_prints [OF small_heap_addrs(1), of True] show ?thesis by auto
qed

section \<open>The HLMAC table\<close>



section \<open>Distributing labels\<close>



text \<open>
  C11: A broadcast SetHLMAC message names the neighbours of the random order up to what the
  payload limit leaves, at least one; a node that receives it extends the sender's prefix by
  the identifier written for it when it is named, takes no address when it is not, and reads
  the timestamp that was sent, without leaving the message.
\<close>

theorem broadcast_message_labels:
  assumes "heap_wf h" "pb_wf pb" "length ids < 255" "node \<noteq> linkaddr_null" "nbs \<noteq> []"
    and "pb_data pb = sethlmac_message ts ids (fst (pairs_loop limit (5 + int (length ids)) False (map Some nbs)))"
    and "iotorii_extract_address node pb h = (a, h')"
  shows "(case find (\<lambda>nb. nb_addr nb = node) (take (pairs_count limit (5 + int (length ids)) (length nbs)) nbs) of
      Some nb \<Rightarrow> hl_repr h' a (ids @ [number_id nb]) | None \<Rightarrow> a = UNSPECIFIED_HLMAC_ADDRESS) \<and>
    fst (iotorii_extract_timestamp pb h') = ts \<and> ub h' = ub h"
proof -
  let ?named = "take (pairs_count limit (5 + int (length ids)) (length nbs)) nbs"
  let ?es = "map (\<lambda>nb. (number_id nb, nb_addr nb)) ?named"
  have d: "pb_data pb = sethlmac_message ts ids ?es" using assms(6) pairs_loop_count [OF assms(5)] by simp
  note x = extract_address_message [OF assms(1,2) d assms(3,4,7)]
  show ?thesis using x extract_timestamp_message(1) [OF x(1) assms(2) d]
    by (cases "find (\<lambda>nb. nb_addr nb = node) ?named") (simp_all add: assigned_pairs)
qed

lemma broadcast_message_labels_witness:
  "\<exists>a h. iotorii_extract_address node_b (message_buffer (sethlmac_message 7 [1, 4] [(9, node_b)])) small_heap = (a, h) \<and>
     hl_repr h a [1, 4, 9]"
proof -
  let ?pb = "message_buffer (sethlmac_message 7 [1, 4] [(9, node_b)])"
  obtain a h where r: "iotorii_extract_address node_b ?pb small_heap = (a, h)" by fastforce
  have pb: "pb_wf ?pb" "pb_data ?pb = sethlmac_message 7 [1, 4] [(9, node_b)]" using message_buffer_ok(1) [of "sethlmac_message 7 [1, 4] [(9, node_b)]"]
    by (simp_all add: PACKETBUF_SIZE_def)
  have p: "fst (pairs_loop 100 (5 + int (length [1, 4 :: u8])) False (map Some [sample_nb node_b 9 0])) = [(9, node_b)]"
    by (simp add: sample_nb_def)
  have n: "pairs_count 100 (5 + int (length [1, 4 :: u8])) (length [sample_nb node_b 9 0]) = 1" by (simp add: pairs_count_def)
  have "pb_data ?pb = sethlmac_message 7 [1, 4] (fst (pairs_loop 100 (5 + int (length [1, 4 :: u8])) False (map Some [sample_nb node_b 9 0])))"
    using pb(2) p by simp
  from broadcast_message_labels [OF small_heap_wf(1) pb(1) _ _ _ this r]
  show ?thesis using r n by (simp add: node_b_def linkaddr_null_def sample_nb_def)
qed

text \<open>
  A broadcast message stays within the payload limit when the limit leaves fourteen bytes
  beyond the prefix, and never reads past the random order.
\<close>

theorem broadcast_message_fits:
  assumes "nbs \<noteq> []" "pairs_loop limit (5 + int (length ids)) False (map Some nbs) = (es, bad)"
    and "int (length ids) + 14 \<le> limit"
  shows "int (length (sethlmac_message ts ids es)) \<le> limit \<and> es \<noteq> [] \<and> \<not> bad"
proof -
  have "5 + int (length ids) + 9 * int (length es) \<le> max (5 + int (length ids) + 9) limit"
    using pairs_loop_length [of "5 + int (length ids)" limit False "map Some nbs"] assms(2) by simp
  moreover have "es \<noteq> []" using assms(1,2) by (cases nbs) (auto simp: Let_def case_prod_beta)
  ultimately show ?thesis using pairs_loop_count [OF assms(1)] assms(2,3) by auto
qed

lemma broadcast_message_fits_witness:
  "int (length (sethlmac_message 7 [1, 4] (fst (pairs_loop 25 7 False (map Some (replicate 9 (sample_nb node_b 9 0))))))) \<le> 25"
proof -
  obtain es bad where p: "pairs_loop 25 (5 + int (length [1, 4 :: u8])) False (map Some (replicate 9 (sample_nb node_b 9 0))) = (es, bad)"
    by fastforce
  have "replicate 9 (sample_nb node_b 9 0) \<noteq> []" by simp
  from broadcast_message_fits [OF this p, of 7] p show ?thesis by simp
qed

text \<open>
  C12: The guard before a message is built asks for ten bytes beyond the prefix only: when the
  limit leaves ten to thirteen, the first pair is written past the end of the buffer.
\<close>

theorem broadcast_message_overflows:
  assumes "nb_ok s" "wanted sender (neighbours s) \<noteq> []" "length (wanted sender (neighbours s)) < 256"
    and "hlmac_cast (opts e) = 1" "int (unat (len a)) + 10 \<le> max_payload e" "max_payload e < int (unat (len a)) + 14"
    and "iotorii_send_sethlmac e now a sender ts s = Some s'"
  shows "ub (mem s')"
proof -
  let ?w = "wanted sender (neighbours s)"
  have n: "unat (neighbours_new sender s) = length ?w"
    using neighbours_new_wanted(1) [OF assms(1), of sender] assms(3) by (simp add: unat_of_nat)
  then have "neighbours_new sender s \<noteq> 0" using assms(2) by auto
  then have pos: "neighbours_new sender s > 0" by (simp add: word_neq_0_conv)
  have m: "\<not> max_payload e \<le> 0" using assms(5) by linarith
  have gap: "int (unat (len a)) + 2 + int LINKADDR_SIZE \<le> max_payload e" using assms(5) by (simp add: LINKADDR_SIZE_def)
  from n pos m obtain slots g where f: "fill_slots sender (neighbours s) (replicate (length ?w) None) (rand (mac s)) = Some (slots, g)"
    using assms(7) by (auto simp: iotorii_send_sethlmac_def Let_def split: bind_splits)
  have "mset slots = mset (map Some ?w)" by (rule fill_slots_permutes(1) [OF f refl]) (use assms(2) in simp)
  then have "set slots = Some ` set ?w" using mset_eq_setD [of slots "map Some ?w"] by simp
  moreover have "slots \<noteq> []" using calculation assms(2) by auto
  ultimately obtain nb slots' where sl: "slots = Some nb # slots'" by (cases slots) auto
  have "ub (mem (send_broadcast e now a ts slots s1))" for s1
    by (rule send_broadcast_overflow [OF assms(6) sl])
  then show ?thesis using assms(4,7) n pos f sl m gap
    by (auto simp: iotorii_send_sethlmac_def Let_def)
qed

lemma broadcast_message_overflows_witness:
  "\<exists>s'. iotorii_send_sethlmac (sample_env broadcast_root) 0 \<lparr>address = 1, len = 92\<rparr> node_a 1
      (node_with [sample_nb node_b 1 0]) = Some s' \<and> ub (mem s')"
proof -
  let ?s = "node_with [sample_nb node_b 1 0]" and ?e = "sample_env broadcast_root"
  have ok: "nb_ok ?s" using node_with_inv [of "[sample_nb node_b 1 0]" broadcast_root] by (simp add: node_inv_def)
  have w: "wanted node_a (neighbours ?s) = [sample_nb node_b 1 0]" by (simp add: sample_nb_def node_a_def node_b_def)
  obtain s' where r: "iotorii_send_sethlmac ?e 0 \<lparr>address = 1, len = 92\<rparr> node_a 1 ?s = Some s'"
    using send_sethlmac_ends [OF ok, of ?e] hits_counting by fastforce
  have "max_payload ?e = 104" by (simp add: max_payload_def sample_env_def)
  with broadcast_message_overflows [OF ok _ _ _ _ _ r] w r show ?thesis by (simp add: broadcast_root_def)
qed

text \<open>
  C13: A well-formed SetHLMAC message that does not name the node changes nothing but the heap:
  every such message leaves the copy of the prefix allocated for ever.
\<close>

theorem unaddressed_message_leaks:
  assumes "heap_wf (mem s)" "pb_wf (pktbuf (mac s))" "pb_data (pktbuf (mac s)) = sethlmac_message ts ids es"
    and "length ids < 255" "linkaddr_node_addr e \<noteq> linkaddr_null" "assigned es (linkaddr_node_addr e) = None"
  shows "\<exists>h p. iotorii_handle_incoming_sethlmac_or_load e now s = Some (s\<lparr>mem := h\<rparr>) \<and> ub h = ub (mem s) \<and>
    blocks (mem s) p = None \<and> blocks h = (blocks (mem s))(p := Some ids)"
proof -
  have "blocks (mem s) (Suc (brk (mem s))) = None" using assms(1) by (simp add: heap_wf_def)
  with unaddressed_message [OF assms, of now] show ?thesis by blast
qed

lemma unaddressed_message_leaks_witness:
  "\<exists>h p. iotorii_handle_incoming_sethlmac_or_load (sample_env unicast_node) 0
      (blank_node\<lparr>mac := boot_state\<lparr>pktbuf := message_buffer (sethlmac_message 7 [1, 4] [(9, node_b)])\<rparr>\<rparr>) =
        Some (blank_node\<lparr>mac := boot_state\<lparr>pktbuf := message_buffer (sethlmac_message 7 [1, 4] [(9, node_b)])\<rparr>, mem := h\<rparr>) \<and>
     blocks small_heap p = None \<and> blocks h = (blocks small_heap)(p := Some [1, 4])"
proof -
  let ?s = "blank_node\<lparr>mac := boot_state\<lparr>pktbuf := message_buffer (sethlmac_message 7 [1, 4] [(9, node_b)])\<rparr>\<rparr>"
  have pb: "pb_wf (pktbuf (mac ?s))" "pb_data (pktbuf (mac ?s)) = sethlmac_message 7 [1, 4] [(9, node_b)]"
    using message_buffer_ok(1) [of "sethlmac_message 7 [1, 4] [(9, node_b)]"] by (simp_all add: PACKETBUF_SIZE_def)
  have "heap_wf (mem ?s)" "linkaddr_node_addr (sample_env unicast_node) \<noteq> linkaddr_null"
    "assigned [(9, node_b)] (linkaddr_node_addr (sample_env unicast_node)) = None"
    by (simp_all add: sample_env_def node_a_def node_b_def linkaddr_null_def)
  from unaddressed_message_leaks [OF this(1) pb _ this(2,3), of 0] show ?thesis by auto
qed

text \<open>
  A load or share message, four or two bytes long, is first parsed as a SetHLMAC message:
  the parser reads past the end of its copy before the length is looked at.
\<close>

theorem load_message_overread:
  assumes "heap_wf (mem s)" "pb_wf (pktbuf (mac s))" "packetbuf_datalen (pktbuf (mac s)) \<in> {2, 4}"
    and "linkaddr_node_addr e \<noteq> linkaddr_null" "iotorii_operation e now s = Some s'"
  shows "ub (mem s')"
  using short_message_overread [OF assms(1,2) _ assms(4)] assms(3,5) by (auto simp: iotorii_operation_def)

lemma load_message_overread_witness:
  "\<exists>s'. iotorii_operation (sample_env unicast_node) 0
      ((node_with [])\<lparr>mac := (csma_output_init boot_state)\<lparr>pktbuf := message_buffer (le16 20)\<rparr>\<rparr>) = Some s' \<and> ub (mem s')"
proof -
  let ?s = "(node_with [])\<lparr>mac := (csma_output_init boot_state)\<lparr>pktbuf := message_buffer (le16 20)\<rparr>\<rparr>"
  have pb: "pb_wf (pktbuf (mac ?s))" "packetbuf_datalen (pktbuf (mac ?s)) \<in> {2, 4}"
    using message_buffer_ok(1) [of "le16 20"] pb_wf_lengths(3) [of "message_buffer (le16 20)"]
    by (simp_all add: PACKETBUF_SIZE_def)
  have "nb_ok (node_with [])" using node_with_inv [of "[]" unicast_node] by (simp add: node_inv_def)
  then have "nb_ok ?s" by simp
  moreover have "hits (rand (mac ?s))" by (simp add: hits_counting)
  ultimately obtain s' where r: "iotorii_operation (sample_env unicast_node) 0 ?s = Some s'"
    using operation_ends by blast
  have "linkaddr_node_addr (sample_env unicast_node) \<noteq> linkaddr_null" by (simp add: sample_env_def node_a_def linkaddr_null_def)
  from load_message_overread [OF _ pb this r] r show ?thesis by simp
qed

section \<open>Accepting a label\<close>

text \<open>
  C14: After a node accepts the first label of a round, its table entry points to the block the
  handler frees; the loop check of the next label of the same round reads that block.
\<close>

theorem loop_check_uses_freed_label:
  assumes "ts > last_timestamp s" "heap_wf (mem s)" "table_wf (hlmac_max (opts e)) (table s)"
    and "round_entries (ucast ts) (table s) = []" "hlmac_max (opts e) = - 1 \<or> hlmac_max (opts e) > 0"
    and "hl_repr (mem s) a ids" "ids \<noteq> []" "handle_sethlmac e now sender a ts s = Some s1"
    and "len b > 1" "handle_sethlmac e now' sender' b ts s1 = Some s2"
  shows "ub (mem s2)"
  by (rule next_check_reads_freed [OF assms])

lemma loop_check_uses_freed_label_witness:
  "\<exists>s1 s2. handle_sethlmac (sample_env unicast_node) 0 node_b \<lparr>address = 1, len = 2\<rparr> 5 (node_with []) = Some s1 \<and>
     handle_sethlmac (sample_env unicast_node) 1 node_b \<lparr>address = 2, len = 3\<rparr> 5 s1 = Some s2 \<and> ub (mem s2)"
proof -
  let ?s = "node_with []" and ?e = "sample_env unicast_node"
  have inv: "node_inv ?e ?s" by simp
  then have ok: "nb_ok ?s" "table_wf (hlmac_max (opts ?e)) (table ?s)" by (auto simp: node_inv_def)
  have "hits (rand (mac ?s))" by (simp add: hits_counting)
  then obtain s1 where r1: "handle_sethlmac ?e 0 node_b \<lparr>address = 1, len = 2\<rparr> 5 ?s = Some s1"
    using handle_sethlmac_ends [OF ok(1)] by blast
  have "nb_ok s1" using handle_sethlmac_inv [OF inv sample_env_ok(1) r1] by (simp add: node_inv_def)
  moreover have "hits (rand (mac s1))" using src_handle_sethlmac [OF r1] hits_counting by (simp add: hits_def)
  ultimately obtain s2 where r2: "handle_sethlmac ?e 1 node_b \<lparr>address = 2, len = 3\<rparr> 5 s1 = Some s2"
    using handle_sethlmac_ends by blast
  have "round_entries (ucast (5 :: u32)) (table ?s) = []" by (simp add: round_entries_def node_with_def blank_node_def)
  from loop_check_uses_freed_label [where ids = "[1, 4]", OF _ _ ok(2) this _ _ _ r1 _ r2] r1 r2
  show ?thesis by (simp add: unicast_node_def)
qed

text \<open>
  The root's timer numbers the rounds but leaves \<open>last_timestamp\<close> alone: a label of the
  running round is accepted by the root without the loop check, also one that extends its own
  address.
\<close>

theorem root_skips_loop_check:
  assumes "iotorii_handle_sethlmac_timer e now s = Some s'" "last_timestamp s < root_timestamp s + 1"
  shows "last_timestamp s' = last_timestamp s \<and> accept_check a (root_timestamp s + 1) s' = (True, s')"
proof -
  have "last_timestamp s' = last_timestamp s"
    using assms(1) send_sethlmac_kept
    by (fastforce simp: iotorii_handle_sethlmac_timer_def Let_def case_prod_beta kept_def iotorii_neighbours_flag_def
        next_rand_def free_received_def)
  then show ?thesis using assms(2) by (simp add: accept_check_def)
qed

lemma root_skips_loop_check_witness:
  "\<exists>s'. iotorii_handle_sethlmac_timer (sample_env broadcast_root) 0 ((node_with [])\<lparr>root_timestamp := 0\<rparr>) = Some s' \<and>
     accept_check \<lparr>address = 2, len = 3\<rparr> 1 s' = (True, s')"
proof -
  let ?s = "(node_with [])\<lparr>root_timestamp := 0\<rparr>"
  have "nb_ok (node_with [])" using node_with_inv [of "[]" broadcast_root] by (simp add: node_inv_def)
  then have "nb_ok ?s" "hits (rand (mac ?s))" by (simp_all add: nb_ok_def hits_counting)
  then obtain s' where r: "iotorii_handle_sethlmac_timer (sample_env broadcast_root) 0 ?s = Some s'"
    using sethlmac_timer_ends by blast
  from root_skips_loop_check [OF r, of "\<lparr>address = 2, len = 3\<rparr>"] r show ?thesis by simp
qed

text \<open>
  The node entry of a one-identifier address carries a string literal; the round after the
  next accepted label passes it to \<open>free\<close>.
\<close>

theorem root_string_is_freed:
  assumes "len a \<le> 1" "last_timestamp s < ts"
  shows "ub (mem (start_round e ts (list_this_node_entry e [v] a s)))"
proof -
  obtain n where "nodes (list_this_node_entry e [v] a s) = nodes s @ [n]" "str_top_addr n = Literal ''/''"
    using root_string_literal [OF assms(1)] by blast
  moreover have "last_timestamp (list_this_node_entry e [v] a s) = last_timestamp s"
    using list_this_node_kept [of s e "[v]" a] by (simp add: kept_def)
  ultimately show ?thesis using start_round_frees_literal assms(2) by (metis in_set_conv_decomp)
qed

lemma root_string_is_freed_witness:
  "ub (mem (start_round (sample_env broadcast_root) 1
      (list_this_node_entry (sample_env broadcast_root) [0] \<lparr>address = 1, len = 1\<rparr> (node_with []))))"
  by (rule root_string_is_freed) simp_all

section \<open>Neighbours\<close>

text \<open>
  C15: The loop that drops silent neighbours, run on the linked list itself, ends after the first
  removal, since the next pointer of a removed entry is NULL: the handler's effect is to remove
  the first stale entry only and to count it.
\<close>

theorem hello_walk_drops_first_stale:
  assumes "list_repr st items"
  shows "\<exists>st'. hello_walk old (head st) n st = Some (if \<exists>x \<in> set items. old x then n - 1 else n, st') \<and>
    list_repr st' (remove_first old items)"
  by (rule hello_walk_removes_one [OF assms])

lemma hello_walk_drops_first_stale_witness:
  "\<exists>st'. hello_walk (\<lambda>_. True) 1 2 \<lparr>head = 1, nxt = (\<lambda>_. NULL)(1 := 2)\<rparr> = Some (1, st') \<and> list_repr st' [2]"
proof -
  have "list_repr \<lparr>head = 1, nxt = (\<lambda>_. NULL)(1 := 2)\<rparr> [1, 2]" by (simp add: list_repr_def)
  from hello_walk_drops_first_stale [OF this, of "\<lambda>_. True" 2] show ?thesis by (simp add: ex_disj_distrib)
qed

text \<open>
  A hello refreshes the entry of its sender and no other, or appends one entry with the
  current hello count when the sender is new, and is ignored with 256 neighbours.
\<close>

theorem incoming_hello_updates:
  assumes "sender = packetbuf_addr (pktbuf (mac s)) ADDR_SENDER" "s' = iotorii_handle_incoming_hello s"
  shows "map nb_addr (neighbours s') = map nb_addr (neighbours s) @
      (if sender \<in> nb_addr ` set (neighbours s) \<or> number_of_neighbours s \<ge> 256 then [] else [sender]) \<and>
    (\<forall>nb \<in> set (neighbours s'). nb_addr nb \<noteq> sender \<longrightarrow> nb \<in> set (neighbours s)) \<and>
    (number_of_neighbours s < 256 \<longrightarrow>
       (\<exists>nb \<in> set (neighbours s'). nb_addr nb = sender \<and> last_hello nb = number_of_hello_messages s))"
proof -
  let ?h = "number_of_hello_messages s" and ?known = "sender \<in> nb_addr ` set (neighbours s)"
  have n: "neighbours s' = (if number_of_neighbours s < 256 then map (touch_hello sender ?h) (neighbours s) @
      (if ?known then [] else [new_neighbour sender (number_of_neighbours s + 1) ?h]) else neighbours s)"
    using assms by (simp add: incoming_hello_neighbours)
  have other: "touch_hello sender ?h nb = nb" if "nb_addr nb \<noteq> sender" for nb using that by (simp add: touch_hello_def)
  have own: "last_hello (touch_hello sender ?h nb) = ?h" if "nb_addr nb = sender" for nb using that by (simp add: touch_hello_def)
  have "\<exists>nb \<in> set (neighbours s'). nb_addr nb = sender \<and> last_hello nb = ?h" if "number_of_neighbours s < 256"
  proof (cases ?known)
    case True
    then obtain nb where "nb \<in> set (neighbours s)" "nb_addr nb = sender" by blast
    then show ?thesis using n that own by (intro bexI [of _ "touch_hello sender ?h nb"]) auto
  qed (use n that in \<open>simp add: new_neighbour_def\<close>)
  moreover have "\<forall>nb \<in> set (neighbours s'). nb_addr nb \<noteq> sender \<longrightarrow> nb \<in> set (neighbours s)"
    using n other by (auto simp: new_neighbour_def)
  moreover have "map nb_addr (neighbours s') = map nb_addr (neighbours s) @
      (if ?known \<or> number_of_neighbours s \<ge> 256 then [] else [sender])"
    unfolding n by (cases "number_of_neighbours s < 256"; cases ?known) (simp_all add: new_neighbour_def del: image_iff)
  ultimately show ?thesis by blast
qed

lemma incoming_hello_updates_witness:
  "map nb_addr (neighbours (iotorii_handle_incoming_hello (node_with [sample_nb node_a 1 0]))) = [node_a, linkaddr_null]"
proof -
  have "packetbuf_addr (pktbuf (mac (node_with [sample_nb node_a 1 0]))) ADDR_SENDER = linkaddr_null"
    by (simp add: empty_pktbuf_def packetbuf_addr_def)
  with incoming_hello_updates [OF refl refl, of "node_with [sample_nb node_a 1 0]"] show ?thesis
    by (simp add: sample_nb_def node_a_def linkaddr_null_def) (simp add: node_with_def)
qed

text \<open>
  Identifiers of neighbours are not unique: after a stale neighbour other than the last one
  is dropped, the next new neighbour gets the identifier of the last one, so both would take
  the same label.
\<close>

theorem identifiers_collide:
  assumes "neighbours s = nbs @ [z]" "number_id z = of_int (number_of_neighbours s)"
    and "\<exists>nb \<in> set nbs. stale (number_of_hello_messages s) nb"
    and "sender \<notin> nb_addr ` set (nbs @ [z])" "packetbuf_addr (pktbuf (mac s)) ADDR_SENDER = sender"
    and "number_of_neighbours s \<le> 256" "s' = iotorii_handle_incoming_hello (iotorii_check_neighbours_hello s)"
  shows "\<exists>x \<in> set (neighbours s'). \<exists>y \<in> set (neighbours s'). nb_addr x \<noteq> nb_addr y \<and> number_id x = number_id y"
  using identifier_taken_twice [OF assms] by blast

lemma identifiers_collide_witness:
  "\<exists>x \<in> set (neighbours (iotorii_handle_incoming_hello (iotorii_check_neighbours_hello
       ((node_with [sample_nb node_a 1 0, sample_nb node_b 2 0])\<lparr>number_of_hello_messages := 3\<rparr>)))).
    \<exists>y \<in> set (neighbours (iotorii_handle_incoming_hello (iotorii_check_neighbours_hello
       ((node_with [sample_nb node_a 1 0, sample_nb node_b 2 0])\<lparr>number_of_hello_messages := 3\<rparr>)))).
      nb_addr x \<noteq> nb_addr y \<and> number_id x = number_id y"
proof -
  let ?s = "(node_with [sample_nb node_a 1 0, sample_nb node_b 2 0])\<lparr>number_of_hello_messages := 3\<rparr>"
  have "number_of_neighbours ?s = 2" by (simp add: node_with_def)
  moreover have "packetbuf_addr (pktbuf (mac ?s)) ADDR_SENDER = linkaddr_null" by (simp add: empty_pktbuf_def packetbuf_addr_def)
  ultimately show ?thesis
    by (intro identifiers_collide [where s = ?s and nbs = "[sample_nb node_a 1 0]" and z = "sample_nb node_b 2 0"
          and sender = linkaddr_null])
      (simp_all add: sample_nb_def node_a_def node_b_def linkaddr_null_def stale_def IOTORII_MAX_HELLO_DIFF_def)
qed

text \<open>
  A frame that is an acknowledgement, does not parse, is for another node, comes from the
  node itself or repeats a recent sequence number leaves everything but the packet buffer.
\<close>

theorem input_filters:
  assumes "parse_frame (pktbuf (mac s)) = (r, pb)"
    and "packetbuf_datalen (pktbuf (mac s)) = CSMA_ACK_LEN \<or> r < 0 \<or>
      (packetbuf_addr pb ADDR_RECEIVER \<noteq> linkaddr_node_addr e \<and> packetbuf_addr pb ADDR_RECEIVER \<noteq> linkaddr_null) \<or>
      packetbuf_addr pb ADDR_SENDER = linkaddr_node_addr e \<or> mac_sequence_is_duplicate pb now (seqnos s)"
  shows "\<exists>pb'. input_packet e parse_frame now s = Some (s\<lparr>mac := (mac s)\<lparr>pktbuf := pb'\<rparr>\<rparr>)"
proof -
  show ?thesis
  proof (cases "packetbuf_datalen (pktbuf (mac s)) = CSMA_ACK_LEN")
    case True
    then show ?thesis by (intro exI [of _ "pktbuf (mac s)"]) (simp add: input_packet_def)
  next
    case False
    with assms(2) have "input_packet e parse_frame now s = Some (s\<lparr>mac := (mac s)\<lparr>pktbuf := pb\<rparr>\<rparr>)"
      unfolding input_packet_def Let_def assms(1) case_prod_conv linkaddr_cmp_eq packetbuf_holds_broadcast_def
        packetbuf_addr_def iot.simps by auto
    then show ?thesis by blast
  qed
qed

lemma input_filters_witness:
  "\<exists>pb'. input_packet (sample_env unicast_node) (\<lambda>pb. (- 1, pb)) 0 blank_node = Some (blank_node\<lparr>mac := (mac blank_node)\<lparr>pktbuf := pb'\<rparr>\<rparr>)"
  by (rule input_filters [where r = "- 1"]) simp_all

section \<open>Loads\<close>



text \<open>
  With unicast messages a load is queued for one parent only, the last one in the neighbour
  list: the one queue entry is added again for each parent and its destination overwritten.
\<close>

theorem load_goes_to_last_parent:
  assumes "node_inv e s" "nodes s = x # xs" "hlmac_cast (opts e) = 0" "\<exists>nb \<in> set (neighbours s). nb_flag nb = 1"
  shows "\<exists>p. payloads (iotorii_handle_load_timer e s) = payloads s @ [p] \<and> pe_payload p = le32 (tn_load x) \<and>
    pe_dest p = last_parent (stray_addr e) (neighbours s)"
proof -
  have "\<forall>p \<in> set (payloads s). pe_ref p \<noteq> fresh_ref s" using assms(1) by (auto simp: node_inv_def pay_ok_def)
  then have "filter (\<lambda>q. pe_ref q \<noteq> fresh_ref s) (payloads s) = payloads s" by (simp add: filter_id_conv)
  then show ?thesis using assms(2-4) by (simp add: iotorii_handle_load_timer_def queue_to_parents_last)
qed

lemma load_goes_to_last_parent_witness:
  "\<exists>p. payloads (iotorii_handle_load_timer (sample_env unicast_node) parented_node) = [p] \<and> pe_dest p = node_b"
  using load_goes_to_last_parent [OF parented_node_inv parented_node_nodes, of unicast_node]
  by (auto simp: unicast_node_def parented_node_def sample_nb_def)

text \<open>
  A node that checks whether to report its load and share does so at most once a round:
  checking again changes nothing.
\<close>

theorem report_happens_once:
  "report_if_done e (report_if_done e s) = report_if_done e s"
  by (rule report_if_done_once)

text \<open>
  With unicast messages the send timer hands the first message to the CSMA layer; when its
  destination already has packets waiting there, the message also stays at the head of the
  node's own queue and is sent again, otherwise it leaves the queue.
\<close>

theorem unicast_message_is_sent:
  assumes "node_inv e s" "\<forall>m \<in> set (neighbour_list (mac s)). counted (mac s) m" "hlmac_cast (opts e) = 0"
    and "payloads s = p # ps" "memb_numfree (packet_memb (mac s)) \<noteq> 0"
    and "known \<longleftrightarrow> (\<exists>k \<in> set (neighbour_list (mac s)). nq_addr (mac s) k = pe_dest p)"
    and "known \<or> memb_numfree (neighbor_memb (mac s)) \<noteq> 0" "s' = iotorii_handle_send_message_timer e s"
  shows "pending (mac s') = (pending (mac s))(pe_dest p := pending (mac s) (pe_dest p) @ [pe_payload p]) \<and>
    payloads s' = (if known then p # ps else ps)"
  by (rule send_message_unicast [OF assms])

lemma unicast_message_is_sent_witness:
  "payloads (iotorii_handle_send_message_timer (sample_env unicast_node) queued_node) = []"
proof -
  have "accepts (mac queued_node)" using boot_accepts by simp
  then have "memb_numfree (packet_memb (mac queued_node)) \<noteq> 0 \<and> memb_numfree (neighbor_memb (mac queued_node)) \<noteq> 0"
    by (simp add: accepts_def)
  with unicast_message_is_sent [OF queued_node_inv _ _ queued_node_payloads _ _ _ refl, of unicast_node False]
  show ?thesis by (simp add: unicast_node_def)
qed

section \<open>The packet buffers and the containers\<close>

text \<open>
  Allocating header space succeeds exactly when the frame still fits; it moves the frame back
  by the size of the header without changing its bytes or the data.
\<close>

theorem hdralloc_shifts_frame:
  assumes "pb_wf b" "packetbuf_hdralloc sz b = (r, b')"
  shows "(r = 1 \<longleftrightarrow> sz + packetbuf_totlen b \<le> PACKETBUF_SIZE) \<and> pb_wf b' \<and> pb_data b' = pb_data b \<and>
    (r = 1 \<longrightarrow> drop sz (pb_frame b') = pb_frame b \<and> packetbuf_hdrlen b' = packetbuf_hdrlen b + sz) \<and> (r \<noteq> 1 \<longrightarrow> b' = b)"
proof (cases "sz + packetbuf_totlen b \<le> PACKETBUF_SIZE")
  case True
  then show ?thesis using packetbuf_hdralloc_spec [OF assms(1) True] assms(2) by simp
next
  case False
  then show ?thesis using packetbuf_hdralloc_full [of sz b] assms by auto
qed

lemma hdralloc_shifts_frame_witness: "pb_data (snd (packetbuf_hdralloc 4 empty_pktbuf)) = pb_data empty_pktbuf"
proof -
  obtain r b where "packetbuf_hdralloc 4 empty_pktbuf = (r, b)" by fastforce
  with hdralloc_shifts_frame [OF pb_wf_empty this] show ?thesis by simp
qed

text \<open>
  C17: A packet stored in a queue buffer comes back as it was, bytes, attributes and addresses,
  also when another packet is stored before it is fetched; the two get different buffers.
\<close>

theorem queuebuf_round_trip:
  assumes "qb_wf q" "pb_wf pb" "queuebuf_new_from_packetbuf pb q = (b, q1)" "b \<noteq> NULL"
    and "pb_wf pb2" "queuebuf_new_from_packetbuf pb2 q1 = (c, q2)" "c \<noteq> NULL" "pb_wf pb3"
  shows "(pb_data (queuebuf_to_packetbuf q1 b pb3), pb_attrs (queuebuf_to_packetbuf q1 b pb3),
      pb_addrs (queuebuf_to_packetbuf q1 b pb3)) = (pb_packet pb, pb_attrs pb, pb_addrs pb) \<and>
    qb_packet q2 b = (pb_packet pb, pb_attrs pb, pb_addrs pb) \<and> b \<noteq> c"
proof -
  have "qb_wf q1" "b \<in> qb_live q1" using qs.store_wf [OF assms(1,2)] qs.store_new [OF assms(1-4)] assms(3) by auto
  then show ?thesis
    using queuebuf_to_packetbuf_live(2) [of q1 b pb3] qb_packet_len [OF assms(1-4)] assms(8)
      qs.stored_survives [OF assms(1-7)] qs.store_new [OF assms(1-4)] by simp
qed

lemma queuebuf_round_trip_witness:
  "pb_data (queuebuf_to_packetbuf (snd (queuebuf_new_from_packetbuf empty_pktbuf empty_qbufs))
      (fst (queuebuf_new_from_packetbuf empty_pktbuf empty_qbufs)) empty_pktbuf) = pb_packet empty_pktbuf"
  using queuebuf_round_trip [OF qb_empty(1) pb_wf_empty prod.collapse [symmetric] two_buffers(1) [OF pb_wf_empty]
      pb_wf_empty prod.collapse [symmetric] two_buffers(2) [OF pb_wf_empty] pb_wf_empty]
  by simp

text \<open>
  C18: A block pool hands out each block at most once until it is given back, refuses only when
  every block is out, and rejects a second release and a foreign pointer without a change.
\<close>

theorem block_pool_is_exact:
  assumes "memb_wf m" "memb_alloc m = (p, m')"
  shows "(p = NULL \<longleftrightarrow> memb_numfree m = 0) \<and> (p = NULL \<longrightarrow> m' = m) \<and>
    (p \<noteq> NULL \<longrightarrow> p \<notin> memb_live m \<and> memb_live m' = insert p (memb_live m) \<and>
      memb_live (snd (memb_free m' p)) = memb_live m \<and> fst (memb_free (snd (memb_free m' p)) p) = - 1) \<and>
    (\<forall>r. r \<notin> memb_live m \<longrightarrow> memb_free m r = (- 1, m))"
proof -
  have card: "memb_numfree m + card (memb_live m) = mnum m" by (rule memb_numfree_live [OF assms(1)])
  have dead: "\<forall>r. r \<notin> memb_live m \<longrightarrow> memb_free m r = (- 1, m)" using mp.release_dead [OF assms(1)] by blast
  show ?thesis
  proof (cases "p = NULL")
    case True
    then have "m' = m \<and> card (memb_live m) = mnum m" using mp.alloc_fail assms by blast
    with True card dead show ?thesis by simp
  next
    case False
    note fresh = mp.alloc_fresh [OF assms False]
    have "card (memb_live m') = Suc (card (memb_live m))" using fresh by simp
    moreover have "memb_numfree m' + card (memb_live m') = mnum m" using memb_numfree_live [of m'] fresh by simp
    ultimately have "memb_numfree m \<noteq> 0" using card by simp
    with False fresh dead mp.alloc_release [OF assms False] mp.double_release [of m' p] show ?thesis by simp
  qed
qed

lemma block_pool_is_exact_witness: "memb_free (small_pool 2 8) 5 = (- 1, small_pool 2 8)"
proof -
  obtain p m where "memb_alloc (small_pool 2 8) = (p, m)" by fastforce
  from block_pool_is_exact [OF _ this] show ?thesis by simp
qed

text \<open>
  C19: Adding an item to a linked list ends, keeps the list well formed and puts the item at the
  end; an item that was in the list already is moved there, it never appears twice.
\<close>

theorem list_add_moves:
  assumes "list_repr s xs" "p \<noteq> NULL"
  shows "\<exists>s'. list_add p s = Some s' \<and> list_repr s' (remove1 p xs @ [p]) \<and> distinct (remove1 p xs @ [p]) \<and>
    (\<forall>q \<in> set xs. q \<noteq> p \<longrightarrow> list_contains s' q = Some True)"
proof -
  obtain s' where s': "list_add p s = Some s'" "list_repr s' (remove1 p xs @ [p])"
    using cl.add [OF assms] by (auto simp: alist_defs)
  have "distinct (remove1 p xs @ [p])" using s'(2) unfolding list_repr_def by (rule lpath_distinct)
  then show ?thesis using s' list_contains_repr [OF s'(2)] by (auto simp: in_set_remove1)
qed

lemma list_add_moves_witness:
  "\<exists>s'. list_add 7 \<lparr>head = 7, nxt = (\<lambda>_. 0)(7 := 9)\<rparr> = Some s' \<and> list_repr s' [9, 7]"
proof -
  have "list_repr \<lparr>head = 7, nxt = (\<lambda>_. 0)(7 := 9)\<rparr> [7, 9]" by (simp add: list_repr_def)
  from list_add_moves [OF this, of 7] show ?thesis by auto
qed

text \<open>
  Once a received sequence number is registered it counts as a duplicate, provided it fits
  the eight bits of the entry, and registering it changes no other sender's verdict as long as
  the sender already had an entry.
\<close>

theorem register_then_duplicate:
  assumes "received_seqnos ms \<noteq> []" "pb_addrs pb2 ADDR_SENDER \<noteq> pb_addrs pb ADDR_SENDER"
    and "pb_addrs pb ADDR_SENDER \<in> sq_sender ` set (received_seqnos ms)"
  shows "(mac_sequence_is_duplicate pb now (mac_sequence_register_seqno pb now ms) \<longleftrightarrow>
      unat (packetbuf_attr pb ATTR_MAC_SEQNO) < 256) \<and>
    mac_sequence_is_duplicate pb2 now' (mac_sequence_register_seqno pb now ms) = mac_sequence_is_duplicate pb2 now' ms \<and>
    length (received_seqnos (mac_sequence_register_seqno pb now ms)) = length (received_seqnos ms)"
proof -
  have "w = ucast (ucast w :: u8) \<longleftrightarrow> unat w < 256" for w :: u16
  proof -
    have "unat (ucast (ucast w :: u8) :: u16) = unat w mod 256"
      by (simp only: unsigned_ucast_eq) (simp add: unsigned_take_bit_eq take_bit_nat_def)
    then show ?thesis by (auto simp: word_unat_eq_iff)
  qed
  then show ?thesis
    using register_move_to_front [OF assms(1), of pb now] assms(2,3) dup_scan_forget length_register [of pb now ms]
    by (simp add: mac_sequence_is_duplicate_def packetbuf_addr_def del: length_register)
qed

lemma register_then_duplicate_witness:
  "mac_sequence_is_duplicate empty_pktbuf 3 (mac_sequence_register_seqno empty_pktbuf 3 (seqnos blank_node))"
proof -
  let ?p = "packetbuf_set_addr ADDR_SENDER node_a empty_pktbuf"
  have "received_seqnos (seqnos blank_node) \<noteq> []" "pb_addrs ?p ADDR_SENDER \<noteq> pb_addrs empty_pktbuf ADDR_SENDER"
    "pb_addrs empty_pktbuf ADDR_SENDER \<in> sq_sender ` set (received_seqnos (seqnos blank_node))"
    by (simp_all add: blank_node_def empty_pktbuf_def packetbuf_set_addr_def node_a_def linkaddr_null_def)
  from register_then_duplicate [OF this, of 3] show ?thesis by (simp add: empty_pktbuf_def packetbuf_attr_def)
qed

section \<open>Frames and link-layer security\<close>





text \<open>
  C22: At security level 4, encryption without a MIC, nothing is encrypted: the frame that
  leaves is the header, the payload in clear and two bytes that happened to be in the buffer.
\<close>

theorem level_four_in_clear:
  assumes "framed_ok ll pb s" "packetbuf_attr pb ATTR_SECURITY_LEVEL = 4" "packetbuf_totlen pb \<le> 88"
    and "csma_security_create_frame ll na pan_id left pb s = (r, tx, s')" "0 \<le> r"
  shows "\<exists>header stale. r = int (length header) \<and> length stale = 2 \<and> pb_frame tx = header @ pb_frame pb @ stale"
proof -
  have "mic_len pb = 2" using assms(2) by (simp add: mic_len_def MIC_LEN_def)
  from create_level_4 [OF assms(1) this assms(4,5,3)] show ?thesis .
qed

lemma level_four_in_clear_witness:
  "\<exists>r tx s' header stale. csma_security_create_frame secure_llsec node_b 0xabcd [] (secret_packet 4) zero_keys = (r, tx, s') \<and>
     pb_frame tx = header @ [104, 105] @ stale \<and> length stale = 2"
proof -
  note p = secret_packet_ok [of 4, simplified]
  obtain r tx s' where c: "csma_security_create_frame secure_llsec node_b 0xabcd [] (secret_packet 4) zero_keys = (r, tx, s')"
    by (metis prod_cases3)
  have z: "\<not> sec_overrun zero_keys" by (simp add: zero_keys_def)
  note fits = secured_fits [OF p(1) _ _ z c, simplified, unfolded p, simplified]
  from level_four_in_clear [OF p(1,6) _ c fits(1)] show ?thesis using c by (auto simp: p)
qed



text \<open>
  C24: Authenticated encryption is that of RFC 3610 for MICs of 4 to 16 bytes: the message is
  encrypted in place and the MIC is written; run on the result it gives the message back and the
  same MIC, so a receiver's comparison of the MICs succeeds on untouched frames.
\<close>

theorem ccm_star_is_rfc3610:
  assumes "length nonce = 13" "length a \<le> MAX_A_LEN" "MIC_LEN_VALID n" "n \<le> length result"
    and "ccm_aead (aes_encrypt rks) nonce m (length m) a (length a) result n True = (c, t)"
  shows "c = rfc_encrypt (aes_encrypt rks) nonce m \<and> take n t = rfc_mic (aes_encrypt rks) nonce m a n \<and>
    ccm_aead (aes_encrypt rks) nonce c (length c) a (length a) result n False = (m, t)"
proof -
  have f: "c = rfc_encrypt (aes_encrypt rks) nonce m" "t = rfc_mic (aes_encrypt rks) nonce m a n @ drop n result"
    using aes.aead_forward [OF assms(1) order_refl assms(2) order_refl assms(3,4), of rks m] assms(5) by simp_all
  moreover have "length (rfc_mic (aes_encrypt rks) nonce m a n) = n" by (rule aes.mic_length [OF assms(1,3)])
  moreover have "ccm_aead (aes_encrypt rks) nonce c (length c) a (length a) result n False = (m, t)"
    using aes.aead_backward [OF assms(1) order_refl assms(2) order_refl assms(3,4), of rks c]
    by (simp add: f rfc_encrypt_twice)
  ultimately show ?thesis by simp
qed

lemma ccm_star_is_rfc3610_witness:
  "\<exists>c t. ccm_aead (aes_encrypt [[0]]) (replicate 13 0) [1, 2] 2 [3] 1 [0, 0, 0, 0] 4 True = (c, t) \<and>
     ccm_aead (aes_encrypt [[0]]) (replicate 13 0) c 2 [3] 1 [0, 0, 0, 0] 4 False = ([1, 2], t)"
proof -
  obtain c t where ct: "ccm_aead (aes_encrypt [[0]]) (replicate 13 0) [1, 2] (length [1, 2 :: u8]) [3] (length [3 :: u8])
      [0, 0, 0, 0] 4 True = (c, t)" by fastforce
  have "length [3 :: u8] \<le> MAX_A_LEN" "MIC_LEN_VALID 4" by (simp_all add: MAX_A_LEN_def MIC_LEN_VALID_def)
  then have x: "c = rfc_encrypt (aes_encrypt [[0]]) (replicate 13 0) [1, 2] \<and>
      take 4 t = rfc_mic (aes_encrypt [[0]]) (replicate 13 0) [1, 2] [3] 4 \<and>
      ccm_aead (aes_encrypt [[0]]) (replicate 13 0) c (length c) [3] (length [3 :: u8]) [0, 0, 0, 0] 4 False = ([1, 2], t)"
    by (intro ccm_star_is_rfc3610 [OF _ _ _ _ ct]) simp_all
  have "c = rfc_encrypt (aes_encrypt [[0]]) (replicate 13 0) [1, 2]" using x by blast
  then have "length c = 2" by simp
  moreover have "ccm_aead (aes_encrypt [[0]]) (replicate 13 0) c (length c) [3] (length [3 :: u8]) [0, 0, 0, 0] 4 False = ([1, 2], t)"
    using x by blast
  ultimately show ?thesis using ct by (intro exI [of _ c] exI [of _ t]) (simp add: numeral_2_eq_2)
qed

section \<open>The process kernel\<close>

text \<open>
  C25: Whatever the threads of the processes do through the kernel (post events, ask for polls,
  start, stop and call one another), a pass of the main loop that returns leaves the event ring
  within its bounds and the process list a proper list: no entry twice, no cycle.
\<close>

theorem kernel_pass_keeps_lists:
  assumes "threads_keep kernel_wf th" "kernel_wf s" "process_run th s = Some (n, s')"
  shows "ring_wf s' \<and> (\<exists>ps. procs_path s' ps \<and> distinct ps)"
proof -
  have "kernel_wf s'" by (rule process_run_keeps [OF assms])
  then show ?thesis using lpath_distinct unfolding kernel_wf_def procs_path_def by metis
qed

lemma kernel_pass_keeps_lists_witness:
  "\<exists>n s'. process_run sample_threads sample_kernel = Some (n, s') \<and> ring_wf s'"
proof -
  have "\<forall>e es. event_queue (poll_now sample_threads [3, 4] sample_kernel) = e # es \<longrightarrow> ed_ev e \<noteq> 0x83"
    by (simp add: sample_poll_now sample_kernel_pending hello_event_def)
  moreover have "ring_wf (poll_now sample_threads [3, 4] sample_kernel)"
    by (simp add: sample_poll_now sample_kernel_ring)
  ultimately obtain n s' where "process_run sample_threads sample_kernel = Some (n, s')"
    using process_run_calm [OF sample_kernel_path] sample_threads_calm by (metis surj_pair)
  with kernel_pass_keeps_lists [OF sample_threads_keep sample_kernel_wf] show ?thesis by blast
qed

text \<open>
  C26: A pass of the main loop returns when the threads it calls wait in the end without exiting or
  starting processes: the pending polls come first, then the oldest event is taken off the
  queue and handed to its process, or, a broadcast, to every process of the list, once, in list
  order.
\<close>

theorem main_loop_pass:
  assumes "procs_path s ps" "\<forall>q. calm th q" "ring_wf (poll_now th ps s)"
    and "event_queue (poll_now th ps s) = e # es" "ed_ev e \<noteq> PROCESS_EVENT_EXIT"
  shows "\<exists>s1 s2. process_run th s = Some (process_nevents s2, s2) \<and>
    take_event (poll_now th ps s) = (e, s1) \<and> event_queue s1 = es \<and>
    s2 = (if ed_p e = PROCESS_BROADCAST
      then fold (\<lambda>q s. deliver th (ed_ev e) (ed_data e) q (poll_now th ps s)) ps s1
      else deliver th (ed_ev e) (ed_data e) (ed_p e)
        (if ed_ev e = PROCESS_EVENT_INIT then s1\<lparr>p_state := (p_state s1)(ed_p e := PROCESS_STATE_RUNNING)\<rparr> else s1))"
proof -
  obtain e' s1 where t: "take_event (poll_now th ps s) = (e', s1)" by (metis prod.exhaust)
  have "0 < nevents (poll_now th ps s)" using nevents_zero [OF assms(3)] assms(4) by (auto simp: word_gt_0)
  from take_event_pending [OF assms(3) this t] assms(4) have "e' = e" "event_queue s1 = es" by simp_all
  with process_run_calm [OF assms(1-3)] assms(4,5) t show ?thesis
    by (simp add: Let_def dispatch_def)
qed

lemma main_loop_pass_witness: "\<exists>n s'. process_run sample_threads sample_kernel = Some (n, s')"
proof -
  have "\<exists>s1 s2. process_run sample_threads sample_kernel = Some (process_nevents s2, s2) \<and>
    take_event (poll_now sample_threads [3, 4] sample_kernel) = (hello_event, s1) \<and> event_queue s1 = [] \<and>
    s2 = (if ed_p hello_event = 0
      then fold (\<lambda>q s. deliver sample_threads (ed_ev hello_event) (ed_data hello_event) q (poll_now sample_threads [3, 4] s)) [3, 4] s1
      else deliver sample_threads (ed_ev hello_event) (ed_data hello_event) (ed_p hello_event)
        (if ed_ev hello_event = 0x81 then s1\<lparr>p_state := (p_state s1)(ed_p hello_event := 1)\<rparr> else s1))"
    by (rule main_loop_pass [OF sample_kernel_path])
       (simp_all add: sample_threads_calm sample_poll_now sample_kernel_ring sample_kernel_pending,
        simp add: hello_event_def)
  then show ?thesis by blast
qed

text \<open>
  C27: The event queue is a first-in first-out queue: over any run of posting and taking
  events, in a ring of at most 128 places, the accepted events leave in the order they were
  accepted, none lost, and a post is refused, with PROCESS_ERR_FULL and no effect, exactly when the
  ring is full.
\<close>

theorem event_queue_is_fifo:
  assumes "ring_wf s" "fifo_run post_event next_event ops s = (acc, out, s')"
  shows "event_queue s @ acc = out @ event_queue s' \<and> length (event_queue s') \<le> length (events s) \<and>
    (fst (process_post p ev d s') = PROCESS_ERR_FULL \<longleftrightarrow> length (event_queue s') = length (events s)) \<and>
    (fst (process_post p ev d s') = PROCESS_ERR_FULL \<longrightarrow> snd (process_post p ev d s') = s')"
  using ev.run_conserves [OF assms] by (auto simp: process_post_def Let_def)

lemma event_queue_is_fifo_witness:
  "fst (process_post 5 0x90 0 sample_kernel) \<noteq> PROCESS_ERR_FULL"
  using event_queue_is_fifo [OF sample_kernel_ring, of "[]" "[]" "[]" sample_kernel 5 "0x90" 0]
  by (simp add: sample_kernel_def)

text \<open>
  In a ring of more than 128 places the index of a new event is truncated to eight bits before
  it is reduced: with 200 places, 100 events waiting from place 199 on, the new event
  overwrites the one waiting at place 43 and is not the last one of the queue.
\<close>

theorem large_ring_overwrites:
  assumes "length (events s) = 200" "fevent s = 199" "nevents s = 100"
  shows "fst (process_post p ev d s) = PROCESS_ERR_OK \<and>
    event_queue (snd (process_post p ev d s)) ! 44 = \<lparr>ed_ev = ev, ed_data = d, ed_p = p\<rparr> \<and>
    event_queue (snd (process_post p ev d s)) ! 100 = events s ! 99"
proof -
  let ?s = "snd (process_post p ev d s)"
  have s: "events ?s = (events s)[43 := \<lparr>ed_ev = ev, ed_data = d, ed_p = p\<rparr>]" "nevents ?s = 101" "fevent ?s = 199"
    "fst (process_post p ev d s) = 0"
    using assms by (simp_all add: process_post_def Let_def)
  then show ?thesis using assms(1) by (simp add: event_queue_def)
qed

lemma large_ring_overwrites_witness:
  "fst (process_post 5 1 2 (sample_kernel\<lparr>events := replicate 200 no_event, fevent := 199, nevents := 100\<rparr>)) = PROCESS_ERR_OK"
  using large_ring_overwrites [of "sample_kernel\<lparr>events := replicate 200 no_event, fevent := 199, nevents := 100\<rparr>" 5 1 2]
  by simp

text \<open>
  The first 246 event numbers handed out after the kernel's start differ from one another
  and from the numbers the kernel uses itself; the next one is one of the kernel's.
\<close>

theorem event_numbers_run_out:
  "distinct (alloc_events 246 (process_init s)) \<and>
   set (alloc_events 246 (process_init s)) \<inter> {0x80..<0x8a} = {} \<and>
   last (alloc_events 247 (process_init s)) = PROCESS_EVENT_NONE"
proof -
  have eq: "alloc_events n (process_init s) = map (\<lambda>i. 0x8a + of_nat i) [0..<n]" for n
    by (simp add: alloc_events_eq process_init_def)
  have u: "unat (0x8a + of_nat i :: u8) = (0x8a + i) mod 256" if "i < 246" for i
    using that by (simp add: unat_word_ariths unat_of_nat mod_simps)
  have "distinct (alloc_events 246 (process_init s))"
  proof -
    have "inj_on (\<lambda>i. 0x8a + of_nat i :: u8) {0..<246}"
    proof
      fix i j :: nat
      assume "i \<in> {0..<246}" "j \<in> {0..<246}" "0x8a + of_nat i = (0x8a + of_nat j :: u8)"
      then have "(0x8a + i) mod 256 = (0x8a + j) mod 256" "i < 246" "j < 246" using u [of i] u [of j] by auto
      with ring_slot_inj [of i 256 j "0x8a"] show "i = j" by simp
    qed
    then show ?thesis unfolding eq by (simp add: distinct_map)
  qed
  moreover have "w \<notin> {0x80..<0x8a}" if "w \<in> set (alloc_events 246 (process_init s))" for w
  proof -
    have "w \<in> (\<lambda>i. 0x8a + of_nat i) ` {0..<246}" using that unfolding eq by (simp only: set_map set_upt)
    then obtain j where "w = 0x8a + of_nat j" "j \<in> {0..<246}" by (rule imageE)
    then obtain i where i: "w = 0x8a + of_nat i" "i < 246" by simp
    then have "unat w = (0x8a + i) mod 256" using u by simp
    then have "unat w < 0x80 \<or> 0x8a \<le> unat w" using i(2) by (cases "i < 118") (auto simp: mod_if)
    then show ?thesis by (auto simp: word_le_nat_alt word_less_nat_alt)
  qed
  moreover have "last (alloc_events 247 (process_init s)) = 0x80"
    unfolding eq by (simp add: last_map)
  ultimately show ?thesis by blast
qed



text \<open>
  A process that calls process_exit on itself, as the interface allows, and whose thread then
  waits, is off the process list but counts as running afterwards, and an event posted to it is
  delivered to it all the same.
\<close>

theorem self_exit_leaves_it_running:
  assumes "procs_path s ps" "p \<in> set ps" "p_state s p = PROCESS_STATE_RUNNING"
    and "\<forall>q \<in> set ps. q \<noteq> p \<longrightarrow> calm th q"
    and "th p = Some f" "\<forall>t. f ev d t = ExitOf p t (\<lambda>u. Return PT_WAITING u)" "ev \<noteq> PROCESS_EVENT_EXIT"
  shows "\<exists>s' qs. call_process th p ev d s = Some s' \<and> procs_path s' qs \<and> p \<notin> set qs \<and>
    process_is_running p s' \<and> p_state s' p AND PROCESS_STATE_RUNNING \<noteq> 0"
proof -
  have "distinct ps" using assms(1) by (simp add: procs_path_def lpath_distinct)
  then have "p \<notin> set (remove1 p ps)" by simp
  moreover obtain s' where "call_process th p ev d s = Some s'" "p_state s' p = 1" "procs_path s' (remove1 p ps)"
    using self_exit_stays_running [OF assms] by blast
  ultimately show ?thesis by (intro exI [of _ s'] exI [of _ "remove1 p ps"]) (simp add: process_is_running_def)
qed

lemma self_exit_leaves_it_running_witness:
  "\<exists>s' qs. call_process leaving_threads 4 0x90 0 sample_kernel = Some s' \<and> procs_path s' qs \<and> 4 \<notin> set qs \<and>
    process_is_running 4 s'"
proof -
  have a: "(4 :: ptr) \<in> set [3, 4]" "p_state sample_kernel 4 = 1" by (simp_all add: sample_kernel_def)
  have b: "leaving_threads 4 = Some (\<lambda>ev d s. ExitOf 4 s (\<lambda>u. Return PT_WAITING u))"
    by (simp only: leaving_threads_def if_True refl)
  have c: "\<forall>q \<in> set [3, 4]. q \<noteq> 4 \<longrightarrow> calm leaving_threads q" using leaving_threads_calm by blast
  have n: "(0x90 :: event) \<noteq> 0x83" by simp
  show ?thesis
    using self_exit_leaves_it_running [OF sample_kernel_path a c b allI [OF refl] n] by blast
qed

section \<open>Timers\<close>

text \<open>
  A timer has expired exactly when its interval is over, counted around the clock, up to the
  last tick before the clock has gone once around; and however often a periodic timer is polled and
  reset, its starts stay on the grid of the first one.
\<close>

theorem timers_keep_time:
  assumes "k < 2 ^ 64 - 1"
  shows "(timer_expired (start t + of_nat k) t \<longleftrightarrow> unat (interval t) \<le> k) \<and>
    \<not> timer_expired (start t - 1) t \<and>
    (\<exists>n \<le> length polls. start (poll_reset polls t) = start t + of_nat n * interval t)"
  using timer_expired_after [OF assms] timer_expired_blind_spot [of t] poll_reset_grid [of polls t] by blast

lemma timers_keep_time_witness: "timer_expired (5 + of_nat 10) \<lparr>start = 5, interval = 10\<rparr>"
  using timers_keep_time [of 10 "\<lparr>start = 5, interval = 10\<rparr>" "[]"] by simp

text \<open>
  C29: A poll of the event timer process posts to their owners, in list order, the events of the
  timers that have expired, as many as the event queue has room for, takes exactly those timers
  off the list and marks them as expired; all other timers stay as they are.
\<close>

theorem etimer_poll_posts:
  assumes "ring_wf s" "timers_wf s ts" "p_pt s ep \<noteq> 0" "ps = take (room s) (due now s ts)"
  shows "\<exists>s'. etimer_thread ep now PROCESS_EVENT_POLL d s = Some s' \<and>
    timers_wf s' (filter (\<lambda>t. t \<notin> set ps) ts) \<and>
    event_queue s' = event_queue s @ map (timer_event s) ps \<and> et_timer s' = et_timer s \<and>
    (\<forall>t. etimer_expired s' t \<longleftrightarrow> etimer_expired s t \<or> t \<in> set ps)"
proof -
  have "timers_path s ts" using assms(2) by (simp add: timers_wf_def)
  from etimer_poll_spec [OF assms(1) this assms(3), of now d] obtain s' where
    s': "etimer_thread ep now PROCESS_EVENT_POLL d s = Some s'" "expired_step s s' ts ps" using assms(4) by blast
  then have "timers_wf s' (filter (\<lambda>t. t \<notin> set ps) ts)"
    using assms(2) by (auto simp: timers_wf_def expired_step_def)
  with s' show ?thesis by (auto simp: expired_step_def etimer_expired_def)
qed

lemma etimer_poll_posts_witness:
  "\<exists>s'. etimer_thread 1 12 PROCESS_EVENT_POLL 0 sample_etimers = Some s' \<and>
     timers_wf s' [40] \<and> map ed_data (event_queue s') = [24] \<and> etimer_expired s' 24"
proof -
  have p: "[24] = take (room sample_etimers) (due 12 sample_etimers [24, 40])"
    by (simp add: room_def due_def sample_etimers_def timer_expired_def)
  have q: "event_queue sample_etimers = []" by (simp add: event_queue_def sample_etimers_def)
  from etimer_poll_posts [OF sample_etimers_wf p, of 0] show ?thesis
    by (auto simp: q timer_event_def)
qed

text \<open>
  Setting an event timer puts it on the list, once, keeps every timer on the list owned by a
  process, and the next expiration is the nearest one, counted around the clock from now.
\<close>

theorem etimer_set_keeps_list:
  assumes "timers_wf s ts" "et \<noteq> NULL" "process_current s \<noteq> NULL"
  shows "\<exists>s' ts'. etimer_set ep now et i s = Some s' \<and> timers_wf s' ts' \<and> set ts' = insert et (set ts) \<and>
    distinct ts' \<and> etimer_expiration_time s' et = now + i \<and>
    (\<exists>t \<in> set ts'. etimer_next_expiration_time s' = etimer_expiration_time s' t) \<and>
    (\<forall>t \<in> set ts'. etimer_next_expiration_time s' - now \<le> etimer_expiration_time s' t - now)"
proof -
  obtain s' where s': "etimer_set ep now et i s = Some s'" "timers_wf s' (set_in et ts)"
    "et_timer s' = (et_timer s)(et := \<lparr>start = now, interval = i\<rparr>)"
    "next_expiration s' = nearest now s' (set_in et ts)" using etimer_set_spec [OF assms] by blast
  define ts' where "ts' = set_in et ts"
  have ts': "set ts' = insert et (set ts)" "ts' \<noteq> []" by (auto simp: ts'_def set_in_def)
  have path: "lpath (et_next s') (timerlist s') ts'" using s'(2) by (simp add: timers_wf_def timers_path_def ts'_def)
  then have "timerlist s' \<noteq> NULL" using ts'(2) by (cases ts') auto
  then have near: "etimer_next_expiration_time s' = now + Min (ahead now s' ` set ts')"
    using s'(4) ts'(2) by (simp add: etimer_next_expiration_time_def etimer_pending_def nearest_def flip: ts'_def)
  have fin: "finite (ahead now s' ` set ts')" "ahead now s' ` set ts' \<noteq> {}" using ts'(2) by auto
  from Min_in [OF fin] obtain t where "t \<in> set ts'" "Min (ahead now s' ` set ts') = ahead now s' t" by auto
  then have "\<exists>t \<in> set ts'. etimer_next_expiration_time s' = etimer_expiration_time s' t"
    using near by (intro bexI [of _ t]) (simp_all add: etimer_expiration_time_def)
  moreover have "\<forall>t \<in> set ts'. etimer_next_expiration_time s' - now \<le> etimer_expiration_time s' t - now"
    using near fin(1) by (auto simp: etimer_expiration_time_def intro!: Min_le)
  moreover have "distinct ts'" by (rule lpath_distinct [OF path])
  moreover have "etimer_expiration_time s' et = now + i" using s'(3) by (simp add: etimer_expiration_time_def)
  ultimately show ?thesis using s'(1,2) ts'(1) by (intro exI [of _ s'] exI [of _ ts']) (simp add: ts'_def)
qed

lemma etimer_set_keeps_list_witness:
  "\<exists>s'. etimer_set 1 7 56 100 (sample_etimers\<lparr>process_current := 9\<rparr>) = Some s' \<and> etimer_expiration_time s' 56 = 107"
proof -
  have "timers_wf (sample_etimers\<lparr>process_current := 9\<rparr>) [24, 40]"
    using sample_etimers_wf(2) by (simp add: timers_wf_def timers_path_def)
  from etimer_set_keeps_list [OF this, of 56 1 7 100] show ?thesis by auto
qed

text \<open>
  C30: An event timer set while no process is current counts as expired at once, and setting it a
  second time does not return: the list has become a cycle.
\<close>

theorem orphan_timer_hangs:
  assumes "timers_path s ts" "et \<noteq> NULL" "et \<notin> set ts" "process_current s = NULL"
  shows "\<exists>s'. etimer_set ep now et i s = Some s' \<and> etimer_expired s' et \<and> etimer_set ep later et j s' = None"
proof -
  obtain s' where "etimer_set ep now et i s = Some s'" "etimer_expired s' et" "timerlist s' = et"
    using etimer_set_orphan [OF assms] by blast
  moreover from this have "etimer_set ep later et j s' = None"
    using assms(2) by (intro etimer_set_twice_hangs) (simp_all add: etimer_expired_def)
  ultimately show ?thesis by blast
qed

lemma orphan_timer_hangs_witness:
  "\<exists>s'. etimer_set 1 7 56 100 sample_etimers = Some s' \<and> etimer_set 1 8 56 100 s' = None"
proof -
  have "timers_path sample_etimers [24, 40]" using sample_etimers_wf(2) by (simp add: timers_wf_def)
  moreover have "process_current sample_etimers = 0" by (simp add: sample_etimers_def)
  ultimately show ?thesis using orphan_timer_hangs [of sample_etimers "[24, 40]" 56 1 7 100 8 100] by auto
qed

text \<open>
  C31: No callback is lost: however processes set, reset, restart and stop callback timers, post
  events, and polls and deliveries interleave, every listed callback timer has its event timer
  running for the callback timer process, or the event that will fire it waits in the queue.
\<close>

theorem no_callback_lost:
  assumes "(ctimer_step call ep cp)\<^sup>*\<^sup>* s s'" "ctimers_ok ep cp s" "callbacks_ok call ep cp"
  shows "\<exists>cs ts. list_repr (ctimer_list s') cs \<and> timers_wf s' ts \<and> distinct cs \<and>
    (\<forall>c \<in> set cs. etimer_of c \<in> set ts \<and> et_p s' (etimer_of c) = cp \<or> fire_event cp c \<in> set (event_queue s'))"
proof -
  obtain cs ts where inv: "ctimers_inv cp cs ts s'"
    using ctimer_steps_ok [OF assms] by (auto simp: ctimers_ok_def)
  then have "distinct cs" by (auto simp: ctimers_inv_def list_repr_def intro: lpath_distinct)
  with inv show ?thesis by (auto simp: ctimers_inv_def)
qed

lemma no_callback_lost_witness:
  "\<exists>s' cs. ctimer_set 1 2 0 16 50 7 8 sample_timers = Some s' \<and> list_repr (ctimer_list s') cs"
proof -
  obtain s' where s': "ctimer_set 1 2 0 16 50 7 8 sample_timers = Some s'"
    using ctimer_set_inv [OF sample_timers_inv, of 16 1 0 50 7 8] by auto
  have step: "(ctimer_step (\<lambda>f x s. Some s) 1 2)\<^sup>*\<^sup>* sample_timers s'"
    by (rule r_into_rtranclp, rule ctimer_step.set [OF _ s']) simp
  have "ctimers_ok 1 2 sample_timers" using sample_timers_inv sample_timers_pt by (auto simp: ctimers_ok_def)
  from no_callback_lost [OF step this] s' show ?thesis by (auto simp: callbacks_ok_def)
qed

text \<open>
  A callback timer that is set again after its event timer has expired, and before the event
  has been delivered, is fired by that old event: its new function is called at once, whatever
  the new interval, and the timer is off the list when the new interval is over.
\<close>

theorem callback_fires_early:
  assumes "ctimers_inv cp cs ts s" "c \<noteq> NULL" "event_queue s = fire_event cp c # es" "f \<noteq> NULL" "p_pt s cp \<noteq> 0"
  shows "\<exists>s1 s2 l cs'. ctimer_set ep cp now c i f x s = Some s1 \<and> take_event s1 = (fire_event cp c, s2) \<and>
    start (et_timer s2 (etimer_of c)) = now \<and> interval (et_timer s2 (etimer_of c)) = i \<and>
    ctimer_thread call ep cp later PROCESS_EVENT_TIMER (etimer_of c) s2 =
      map_option (\<lambda>s3. s3\<lparr>process_current := process_current s2\<rparr>) (call f x (about_to_call c l s2)) \<and>
    list_repr l cs' \<and> c \<notin> set cs'"
  using set_again_fires_early [OF assms] by metis

lemma callback_fires_early_witness:
  "\<exists>s1 s2 s3. ctimer_set 1 2 0 16 1000 7 8 sample_timers = Some s1 \<and> take_event s1 = (due_event, s2) \<and>
     ctimer_thread (\<lambda>f x s. Some (s\<lparr>lastevent := 1\<rparr>)) 1 2 0 PROCESS_EVENT_TIMER (etimer_of 16) s2 = Some s3 \<and>
     lastevent s3 = 1"
proof -
  have e: "fire_event 2 16 = due_event" by (simp add: fire_event_def due_event_def)
  obtain s1 s2 l where *: "ctimer_set 1 2 0 16 1000 7 8 sample_timers = Some s1" "take_event s1 = (fire_event 2 16, s2)"
    "ctimer_thread (\<lambda>f x s. Some (s\<lparr>lastevent := 1\<rparr>)) 1 2 0 PROCESS_EVENT_TIMER (etimer_of 16) s2 =
      map_option (\<lambda>s3. s3\<lparr>process_current := process_current s2\<rparr>) (Some ((about_to_call 16 l s2)\<lparr>lastevent := 1\<rparr>))"
    using callback_fires_early [OF sample_timers_inv _ sample_timers_pending _ sample_timers_pt(1), of 7 1 0 1000 8
      "\<lambda>f x s. Some (s\<lparr>lastevent := 1\<rparr>)" 0] by auto
  show ?thesis
    by (intro exI [of _ s1] exI [of _ s2] exI conjI, rule *(1), rule *(2) [unfolded e], subst *(3),
        rule map_option_eq_Some [THEN iffD2, OF exI, OF conjI, OF refl refl]) simp
qed

section \<open>Ring buffers\<close>

text \<open>
  C32: A byte ring of a power of two of places, at most 256, is a first-in first-out queue of one
  byte less: over any run of puts and gets the bytes come out in the order they went in, none
  lost, and filling an empty ring keeps exactly the first bytes that fit.
\<close>

theorem ringbuf_is_fifo:
  assumes "k \<le> 8" "length dataptr = 2 ^ k" "r = ringbuf_init r0 dataptr (of_nat (2 ^ k))"
    and "fifo_run store_byte load_byte ops r = (acc, out, r')"
  shows "acc = out @ bytes_in r' \<and> length (bytes_in r') \<le> 2 ^ k - 1 \<and> ringbuf_elements r' = int (length (bytes_in r')) \<and>
    bytes_in (snd (snd (fifo_run store_byte load_byte (map Put bs) r))) = take (2 ^ k - 1) bs"
proof -
  note init = ringbuf_init_wf [OF assms(1) refl assms(2), of r0, folded assms(3)]
  have "ringbuf_elements r' = int (length (bytes_in r'))"
    unfolding ringbuf_elements_def bytes_in_def length_map length_ring_slots in_use_def uint_nat ..
  moreover have "acc = out @ bytes_in r'" "length (bytes_in r') \<le> 2 ^ k - 1"
    using rb.run_conserves [OF init(1) assms(4)] unfolding init(2,3) by simp_all
  moreover have "bytes_in (snd (snd (fifo_run store_byte load_byte (map Put bs) r))) = take (2 ^ k - 1) bs"
    using rb.fill_keeps_prefix [OF init(1,2), of bs] unfolding init(3) .
  ultimately show ?thesis by blast
qed

lemma ringbuf_is_fifo_witness:
  "bytes_in (snd (snd (fifo_run store_byte load_byte (map Put [1, 2, 3, 4, 5])
     (ringbuf_init \<lparr>rb_mask = 0, rb_put_ptr = 0, rb_get_ptr = 0, rb_data = []\<rparr> [0, 0, 0, 0] 4)))) = [1, 2, 3]"
  using ringbuf_is_fifo [of 2 "[0, 0, 0, 0]" "ringbuf_init \<lparr>rb_mask = 0, rb_put_ptr = 0, rb_get_ptr = 0, rb_data = []\<rparr> [0, 0, 0, 0] 4"
    "\<lparr>rb_mask = 0, rb_put_ptr = 0, rb_get_ptr = 0, rb_data = []\<rparr>" "[]" "[]" "[]" _ "[1, 2, 3, 4, 5]"] by simp

text \<open>
  The ring of indices never hands out a place that is in use: a put appends the place that
  peek_put announces to the places in use, a get returns the oldest one, which peek_get
  announces, and one place of the ring always stays free.
\<close>

theorem ring_index_places:
  assumes "index_wf k r"
  shows "distinct (ring_slots r) \<and> (\<forall>i \<in> set (ring_slots r). i < 2 ^ k) \<and> length (ring_slots r) < 2 ^ k \<and>
    (ringbufindex_full r \<longleftrightarrow> length (ring_slots r) = 2 ^ k - 1) \<and> (ringbufindex_empty r \<longleftrightarrow> ring_slots r = []) \<and>
    (\<not> ringbufindex_full r \<longrightarrow> (\<exists>r' i. ringbufindex_put r = (1, r') \<and> ringbufindex_peek_put r = int i \<and>
       index_wf k r' \<and> ring_slots r' = ring_slots r @ [i] \<and> i \<notin> set (ring_slots r))) \<and>
    (\<not> ringbufindex_empty r \<longrightarrow> (\<exists>r'. ringbufindex_get r = (int (hd (ring_slots r)), r') \<and>
       ringbufindex_peek_get r = int (hd (ring_slots r)) \<and> index_wf k r' \<and> ring_slots r' = tl (ring_slots r)))"
proof -
  note put = ringbufindex_put_spec [OF assms] and get = ringbufindex_get_spec [OF assms]
  have "distinct (ring_slots r)" "\<forall>i \<in> set (ring_slots r). i < 2 ^ k" "length (ring_slots r) < 2 ^ k"
    using ring_slots_distinct [OF assms] ring_slots_bounded [OF assms] in_use_less [OF assms] by simp_all
  moreover have "(ringbufindex_full r \<longleftrightarrow> length (ring_slots r) = 2 ^ k - 1) \<and>
    (\<not> ringbufindex_full r \<longrightarrow> (\<exists>r' i. ringbufindex_put r = (1, r') \<and> ringbufindex_peek_put r = int i \<and>
       index_wf k r' \<and> ring_slots r' = ring_slots r @ [i] \<and> i \<notin> set (ring_slots r)))"
    using put by (cases "length (ring_slots r) = 2 ^ k - 1") (simp_all del: length_ring_slots, blast)
  moreover have "(ringbufindex_empty r \<longleftrightarrow> ring_slots r = []) \<and>
    (\<not> ringbufindex_empty r \<longrightarrow> (\<exists>r'. ringbufindex_get r = (int (hd (ring_slots r)), r') \<and>
       ringbufindex_peek_get r = int (hd (ring_slots r)) \<and> index_wf k r' \<and> ring_slots r' = tl (ring_slots r)))"
    using get by (cases "ring_slots r") simp_all
  ultimately show ?thesis by blast
qed

lemma ring_index_places_witness:
  "\<not> ringbufindex_full (ringbufindex_init \<lparr>rb_mask = 0, rb_put_ptr = 0, rb_get_ptr = 0\<rparr> 4)"
proof -
  let ?r = "ringbufindex_init \<lparr>rb_mask = 0, rb_put_ptr = 0, rb_get_ptr = 0\<rparr> 4"
  have wf: "index_wf 2 ?r" "ring_slots ?r = []" using ringbufindex_init_wf [of 2 4] by simp_all
  from ring_index_places [OF wf(1)] wf(2) show ?thesis by simp
qed

section \<open>The library: codecs and linked structures\<close>

text \<open>
  The table-free checksum of the library is the CRC with the polynomial x^16 + x^12 + x^5 + 1,
  taken one bit at a time, least significant bit first, over the bytes in order.
\<close>

theorem crc16_is_bit_serial: "crc16_data data acc = fold crc_byte data acc"
  by (rule crc16_data_is_fold)

text \<open>
  Bytes written as hexadecimal text read back: hexlify writes two digits per byte and nothing
  behind them, as many bytes as both lengths allow, and unhexlify of that text gives the bytes back
  and leaves the rest of its buffer.
\<close>

theorem hex_round_trip:
  assumes "n \<le> length data" "2 * n \<le> text_size" "text_size \<le> length text"
    "n \<le> buf_size" "buf_size \<le> length buf"
    "hexconv_hexlify data n text text_size = (l, text')"
  shows "l = 2 * n \<and> drop l text' = drop l text \<and>
    hexconv_unhexlify text' l buf buf_size = (int n, take n data @ drop n buf)"
proof -
  have "min n (text_size div 2) = n" using assms(2) by simp
  then have "text' = concat (map hex_of_byte (take n data)) @ drop (2 * n) text" "l = 2 * n"
    using hexlify_writes_digits [OF assms(1,3) refl] assms(6) by simp_all
  moreover have "length (concat (map hex_of_byte (take n data))) = 2 * n"
    using assms(1) by (simp add: length_hex_of_bytes)
  ultimately show ?thesis using hexlify_unhexlify [OF assms] by simp
qed

lemma hex_round_trip_witness:
  "hexconv_unhexlify (snd (hexconv_hexlify [0xA7, 0x0B] 2 ''........'' 8)) 4 [1, 2, 3] 3 = (2, [0xA7, 0x0B, 3])"
proof -
  obtain l t where h: "hexconv_hexlify [0xA7, 0x0B] 2 ''........'' 8 = (l, t)" by fastforce
  from hex_round_trip [of 2 "[0xA7, 0x0B]" 8 "''........''" 3 "[1, 2, 3]", OF _ _ _ _ _ h] h show ?thesis by auto
qed

text \<open>
  C33: On a well-formed doubly linked list each operation ends and does to the sequence of items what
  its name says, links in both directions: an item is never on the list twice, an addition of an
  item that is there moves it, removing one that is not changes nothing.
\<close>

theorem dbl_list_does_what_it_says:
  assumes "dll_repr s xs" "x \<noteq> NULL"
  shows "(\<exists>s'. dbl_list_remove x s = Some s' \<and> dll_repr s' (remove1 x xs) \<and> (x \<notin> set xs \<longrightarrow> s' = s)) \<and>
    (\<exists>s'. dbl_list_add_head x s = Some s' \<and> dll_repr s' (x # remove1 x xs)) \<and>
    (\<exists>s'. dbl_list_add_tail x s = Some s' \<and> dll_repr s' (remove1 x xs @ [x])) \<and>
    (\<forall>ys e zs. remove1 x xs = ys @ e # zs \<longrightarrow>
      (\<exists>s'. dbl_list_add_after e x s = Some s' \<and> dll_repr s' (ys @ e # x # zs)) \<and>
      (\<exists>s'. dbl_list_add_before e x s = Some s' \<and> dll_repr s' (ys @ x # e # zs))) \<and>
    dbl_list_head s = (if xs = [] then NULL else hd xs) \<and> dbl_list_tail s = Some (if xs = [] then NULL else last xs) \<and>
    dbl_list_length s = Some (of_nat (length xs)) \<and> (dbl_list_is_empty s \<longleftrightarrow> xs = [])"
proof -
  have "dbl_list_head s = (if xs = [] then NULL else hd xs)"
    using dll_repr_head [OF assms(1)] by (simp add: dbl_list_head_def)
  moreover have "dbl_list_is_empty s \<longleftrightarrow> xs = []"
    using dll_repr_head [OF assms(1)] seq_ends_NULL(1) [of s "[]" xs] assms(1) by (simp add: dbl_list_is_empty_def)
  ultimately show ?thesis
    using dbl_list_remove_repr [OF assms(1)] dbl_list_add_head_repr [OF assms] dbl_list_add_tail_repr [OF assms]
      dbl_list_add_after_repr [OF assms] dbl_list_add_before_repr [OF assms] dbl_list_tail_repr [OF assms(1)]
      dbl_list_length_repr [OF assms(1)] by blast
qed

lemma dbl_list_does_what_it_says_witness: "\<exists>s'. dbl_list_add_after 2 4 two_items = Some s' \<and> dll_repr s' [2, 4, 3]"
proof -
  have "remove1 4 [2, 3] = [] @ (2 :: nat) # [3]" by simp
  with dbl_list_does_what_it_says [OF two_items_repr, of 4] show ?thesis by (metis append_Nil zero_neq_numeral)
qed

text \<open>
  The same of the rings linked both ways, where the item before the head is the tail: removing
  the head makes the item behind it the head, and a removed item keeps no link into the ring.
\<close>

theorem dbl_ring_does_what_it_says:
  assumes "dcl_repr s xs" "x \<noteq> NULL"
  shows "(\<exists>s'. dbl_circ_list_remove x s = Some s' \<and> dcl_repr s' (remove1 x xs) \<and> (x \<notin> set xs \<longrightarrow> s' = s)) \<and>
    (\<exists>s'. dbl_circ_list_add_head x s = Some s' \<and> dcl_repr s' (x # remove1 x xs)) \<and>
    (\<exists>s'. dbl_circ_list_add_tail x s = Some s' \<and> dcl_repr s' (remove1 x xs @ [x])) \<and>
    (\<forall>ys e zs. remove1 x xs = ys @ e # zs \<longrightarrow>
      (\<exists>s'. dbl_circ_list_add_after e x s = Some s' \<and> dcl_repr s' (ys @ e # x # zs)) \<and>
      (\<exists>s'. dbl_circ_list_add_before e x s = Some s' \<and> dcl_repr s' (ys @ x # e # zs))) \<and>
    dbl_circ_list_tail s = Some (if xs = [] then NULL else last xs) \<and>
    dbl_circ_list_length s = Some (of_nat (length xs))"
  using dbl_circ_list_remove_repr [OF assms(1)] dbl_circ_list_add_head_repr [OF assms]
    dbl_circ_list_add_tail_repr [OF assms] dbl_circ_list_add_after_repr [OF assms]
    dbl_circ_list_add_before_repr [OF assms] dbl_circ_list_tail_repr [OF assms(1)]
    dbl_circ_list_length_repr [OF assms(1)] by blast

lemma dbl_ring_does_what_it_says_witness: "\<exists>s'. dbl_circ_list_add_before 3 4 two_ring = Some s' \<and> dcl_repr s' [2, 4, 3]"
proof -
  have "remove1 4 [2, 3] = [2] @ (3 :: nat) # []" by simp
  with dbl_ring_does_what_it_says [OF two_ring_repr, of 4] show ?thesis
    by (metis append_Cons append_Nil zero_neq_numeral)
qed

text \<open>
  The rings linked one way turn as they are changed: an added item becomes the head and the old
  head the tail; when an item is removed, the one before it becomes the head.
\<close>

theorem ring_turns:
  assumes "cl_repr s xs" "x \<noteq> NULL"
  shows "(x \<notin> set xs \<longrightarrow> circular_list_remove x s = Some s \<and>
      (\<exists>s'. circular_list_add x s = Some s' \<and> cl_repr s' (if xs = [] then [x] else x # tl xs @ [hd xs]))) \<and>
    (\<forall>ys zs. xs = ys @ x # zs \<longrightarrow>
      (\<exists>s'. circular_list_remove x s = Some s' \<and>
        cl_repr s' (if zs @ ys = [] then [] else last (zs @ ys) # butlast (zs @ ys))) \<and>
      (\<exists>s'. circular_list_add x s = Some s' \<and>
        cl_repr s' (if zs @ ys = [] then [x] else x # butlast (zs @ ys) @ [last (zs @ ys)]))) \<and>
    circular_list_tail s = Some (if xs = [] then NULL else last xs) \<and> circular_list_length s = Some (of_nat (length xs))"
  using assms circular_list_remove_absent [of s xs x] circular_list_add_fresh [of s xs x]
    circular_list_remove_repr [of s _ x] circular_list_add_present [of s _ x]
    circular_list_tail_repr [OF assms(1)] circular_list_length_repr [OF assms(1)] by blast

lemma ring_turns_witness: "\<exists>s'. circular_list_add 4 two_turning = Some s' \<and> cl_repr s' [4, 3, 2]"
  using ring_turns [OF two_turning_repr, of 4] by simp

section \<open>Entries of the LWM2M service\<close>



text \<open>
  C35: The writer's bound leaves the identifier out. An entry is written, whole, exactly when one byte,
  the length's bytes and the value fit, and three bytes beside the length's; else nothing changes and 0 is
  returned. The entry is one or two bytes longer than that, so its last value bytes can lie behind the
  end of the buffer.
\<close>

theorem tlv_write_overruns:
  assumes "tlv_value t = Some v" "0 < tlv_length t" "unat (tlv_length t) < 2 ^ 24"
  shows "if 1 + get_len_type t + unat (tlv_length t) \<le> lim \<and> get_len_type t + 3 \<le> lim
    then (\<exists>m'. lwm2m_tlv_write t m lim = (lwm2m_tlv_get_size t, m') \<and>
        m' (lwm2m_tlv_get_size t - 1) = v (unat (tlv_length t) - 1) \<and> (\<forall>i\<ge>lwm2m_tlv_get_size t. m' i = m i)) \<and>
      lwm2m_tlv_get_size t = 1 + get_len_type t + unat (tlv_length t) + (if tlv_id t > 255 then 2 else 1)
    else lwm2m_tlv_write t m lim = (0, m)"
proof (cases "tlv_passes t lim")
  case True
  have "fst (lwm2m_tlv_write t m lim) = lwm2m_tlv_get_size t"
    "snd (lwm2m_tlv_write t m lim) (lwm2m_tlv_get_size t - 1) = v (unat (tlv_length t) - 1)"
    using tlv_write_bound(1,4) [OF assms(1,3)] True assms(2) by simp_all
  moreover have "\<forall>i\<ge>lwm2m_tlv_get_size t. snd (lwm2m_tlv_write t m lim) i = m i"
    using tlv_written(3) [OF assms(1,3) True] by blast
  moreover have "lwm2m_tlv_get_size t = 1 + get_len_type t + unat (tlv_length t) + (if tlv_id t > 255 then 2 else 1)"
    by (simp add: lwm2m_tlv_get_size_def)
  ultimately show ?thesis using True unfolding tlv_passes_def by (metis prod.collapse)
next
  case False
  then show ?thesis using tlv_write_refused [OF assms(1,3) False] unfolding tlv_passes_def by (simp only: if_False)
qed

lemma tlv_write_overruns_witness:
  "\<exists>m'. lwm2m_tlv_write \<lparr>tlv_type = 3, tlv_id = 300, tlv_length = 5, tlv_value = Some (\<lambda>_. 0xFF)\<rparr> (\<lambda>_. 0) 6 = (8, m') \<and>
    m' 7 = 0xFF"
proof -
  let ?t = "\<lparr>tlv_type = 3, tlv_id = 300, tlv_length = 5, tlv_value = Some (\<lambda>_. 0xFF)\<rparr>"
  have "get_len_type ?t = 0" "lwm2m_tlv_get_size ?t = 8" by (simp_all add: get_len_type_def lwm2m_tlv_get_size_def)
  with tlv_write_overruns [of ?t "\<lambda>_. 0xFF" 6 "\<lambda>_. 0"] show ?thesis by auto
qed

section \<open>Dynamic memory\<close>

text \<open>
  C36: Whatever sequence of calls the clients of the heap make (registering zones, allocating, giving
  back and resizing blocks they hold, asking for statistics), the chunks tile the used part of the
  arena, the free list holds exactly the free ones, and the blocks handed out are aligned, inside the
  arena and never overlap, headers included. The heap is so at boot.
\<close>

theorem heap_blocks_never_overlap:
  assumes "conf_ok c" "heap_ok c s" "run_allowed c ks s"
  shows "heap_ok c (heap_run c ks s) \<and> blocks_apart c (heap_blocks c (heap_run c ks s)) \<and> heap_ok c (heapmem_boot c k)"
  using heap_run_ok [OF assms] heap_ok_apart [OF assms(1)] heapmem_boot_ok(1) by blast

lemma heap_blocks_never_overlap_witness:
  "blocks_apart sample_conf (heap_blocks sample_conf (heap_run sample_conf
     [Heap_realloc 4128 40, Zone_register (Some ''PKT'') 256, Zone_alloc 0 20, Heap_stats, Heap_free NULL] three_chunks))"
proof -
  have "held sample_conf three_chunks 4128"
    using three_chunks_blocks by (simp add: held_def GET_CHUNK_def CHUNK_T_SIZE_def)
  then have "run_allowed sample_conf
      [Heap_realloc 4128 40, Zone_register (Some ''PKT'') 256, Zone_alloc 0 20, Heap_stats, Heap_free NULL] three_chunks"
    by (simp add: call_allowed_def held_def)
  from heap_blocks_never_overlap [OF sample_conf_ok three_chunks_ok this] show ?thesis by blast
qed

text \<open>
  C37: The heap implements a map from blocks to their sizes and zones. An allocation that succeeds adds
  one block that nobody held, large enough for the rounded request, in the zone asked for; one that
  fails changes nothing; within the zone's budget it succeeds while the rest of the arena has room.
  Giving a block back removes it and nothing else. Resizing keeps the bytes of the block up to the
  smaller of the two sizes, in place or in a block nobody held, and writes no byte outside the result;
  a block that is large enough stays; when it fails the block is still there, no smaller than before.
\<close>

theorem heap_refines_block_map:
  assumes "conf_ok c" "heap_ok c s"
  shows "(case heapmem_zone_alloc c zn request s of (p, s') \<Rightarrow>
      heap_bytes s' = heap_bytes s \<and>
      (if p = NULL then heap_blocks c s' = heap_blocks c s
       else heap_blocks c s (GET_CHUNK p) = None \<and>
         (\<exists>n\<ge>ALIGN (unat request). heap_blocks c s' = (heap_blocks c s)(GET_CHUNK p \<mapsto> (n, zn)))) \<and>
      (zone_admits c zn request s \<and> CHUNK_T_SIZE + ALIGN (unat request) \<le> arena_size c - heap_usage s \<longrightarrow> p \<noteq> NULL)) \<and>
    (\<forall>x n z. heap_blocks c s x = Some (n, z) \<longrightarrow>
      (case heapmem_free c (GET_PTR x) s of (r, s') \<Rightarrow>
        r \<and> heap_bytes s' = heap_bytes s \<and> heap_blocks c s' = (heap_blocks c s)(x := None)) \<and>
      (request \<noteq> 0 \<longrightarrow> (case heapmem_realloc c (GET_PTR x) request s of (q, s') \<Rightarrow>
        (ALIGN (unat request) \<le> n \<longrightarrow> q = GET_PTR x) \<and>
        (if q = NULL then (\<exists>k\<ge>n. heap_blocks c s' = (heap_blocks c s)(x \<mapsto> (k, z))) \<and> heap_bytes s' = heap_bytes s
        else (q = GET_PTR x \<or> heap_blocks c s (GET_CHUNK q) = None) \<and>
          (\<exists>k\<ge>ALIGN (unat request). heap_blocks c s' = (heap_blocks c s)(x := None, GET_CHUNK q \<mapsto> (k, z)) \<and>
            (\<forall>i<min n (ALIGN (unat request)). heap_bytes s' (q + i) = heap_bytes s (GET_PTR x + i)) \<and>
            (\<forall>a. a < q \<or> q + k \<le> a \<longrightarrow> heap_bytes s' a = heap_bytes s a))))))"
proof (intro conjI allI impI)
  show "case heapmem_zone_alloc c zn request s of (p, s') \<Rightarrow> heap_bytes s' = heap_bytes s \<and>
      (if p = NULL then heap_blocks c s' = heap_blocks c s
       else heap_blocks c s (GET_CHUNK p) = None \<and>
         (\<exists>n\<ge>ALIGN (unat request). heap_blocks c s' = (heap_blocks c s)(GET_CHUNK p \<mapsto> (n, zn)))) \<and>
      (zone_admits c zn request s \<and> CHUNK_T_SIZE + ALIGN (unat request) \<le> arena_size c - heap_usage s \<longrightarrow> p \<noteq> NULL)"
    using heap_ok_alloc [OF assms, where zn = zn and request = request]
      heapmem_zone_alloc_succeeds [OF assms(1), of zn request s]
    by (cases "heapmem_zone_alloc c zn request s") (auto split: if_splits)
next
  fix x n z
  assume b: "heap_blocks c s x = Some (n, z)"
  show "case heapmem_free c (GET_PTR x) s of (r, s') \<Rightarrow>
      r \<and> heap_bytes s' = heap_bytes s \<and> heap_blocks c s' = (heap_blocks c s)(x := None)"
    using heap_ok_free [OF assms b] by (simp split: prod.splits)
  assume r: "request \<noteq> 0"
  show "case heapmem_realloc c (GET_PTR x) request s of (q, s') \<Rightarrow>
      (ALIGN (unat request) \<le> n \<longrightarrow> q = GET_PTR x) \<and>
      (if q = NULL then (\<exists>k\<ge>n. heap_blocks c s' = (heap_blocks c s)(x \<mapsto> (k, z))) \<and> heap_bytes s' = heap_bytes s
      else (q = GET_PTR x \<or> heap_blocks c s (GET_CHUNK q) = None) \<and>
        (\<exists>k\<ge>ALIGN (unat request). heap_blocks c s' = (heap_blocks c s)(x := None, GET_CHUNK q \<mapsto> (k, z)) \<and>
          (\<forall>i<min n (ALIGN (unat request)). heap_bytes s' (q + i) = heap_bytes s (GET_PTR x + i)) \<and>
          (\<forall>a. a < q \<or> q + k \<le> a \<longrightarrow> heap_bytes s' a = heap_bytes s a)))"
    using heap_ok_realloc [OF assms b r] heapmem_realloc_stays [OF assms b r] by (auto split: prod.splits)
qed

lemma heap_refines_block_map_witness:
  "fst (heapmem_free sample_conf 4128 three_chunks) \<and>
   heap_blocks sample_conf (snd (heapmem_free sample_conf 4128 three_chunks)) 4096 = None"
  using heap_refines_block_map [OF sample_conf_ok three_chunks_ok] three_chunks_blocks
  by (fastforce simp: GET_PTR_def CHUNK_T_SIZE_def split: prod.splits)

section \<open>Neighbor tables\<close>

text \<open>
  C38: Whatever the clients of the neighbor tables do (registering tables, adding, removing, locking and
  unlocking neighbors, clearing everything), every call returns, the list of keys stays well formed,
  no address has two keys, there are never more keys than room, a neighbor that is not on the list is
  in no table and not locked, and each table can be walked and looked up as that says.
\<close>

theorem nbr_runs_keep_tables:
  assumes "nbr_wf s ks" "default_policy cf" "nbr_callbacks_ok cf" "nbr_run_allowed cf calls s"
  shows "\<exists>s' ks'. nbr_run cf calls s = Some s' \<and> nbr_wf s' ks' \<and> distinct (map (key_lladdr s') ks') \<and>
    length ks' \<le> mnum (neighbor_addr_mem s') \<and>
    (\<forall>t. nbr_table_is_registered s' t \<longrightarrow> nbr_table_head s' t = Some (first_item s' ks' t) \<and>
      (\<forall>a. nbr_table_get_from_lladdr s' t (Some a) = Some (case nbr_lookup s' ks' t a of None \<Rightarrow> NULL | Some it \<Rightarrow> it)) \<and>
      (\<forall>ys k zs. ks' = ys @ k # zs \<longrightarrow> nbr_table_next s' t (item_from_key s' t k) = Some (first_item s' zs t)))"
proof -
  from nbr_run_wf [OF assms] obtain s' ks' where r: "nbr_run cf calls s = Some s'" "nbr_wf s' ks'" by blast
  have inv: "nbr_inv s' ks' {}" and tok: "tables_ok s'" using r(2) by (simp_all add: nbr_wf_def)
  note p = nbr_inv_parts [OF inv]
  have "distinct ks'" using lpath_distinct p(2) by (auto simp: list_repr_def)
  then have "distinct (map (key_lladdr s') ks')" using p(5) by (simp add: distinct_map)
  moreover have "length ks' \<le> mnum (neighbor_addr_mem s')"
    using nbr_inv_card [OF inv] memb_numfree_live [OF p(1)] by simp
  moreover have "nbr_table_head s' t = Some (first_item s' ks' t) \<and>
      (\<forall>a. nbr_table_get_from_lladdr s' t (Some a) = Some (case nbr_lookup s' ks' t a of None \<Rightarrow> NULL | Some it \<Rightarrow> it)) \<and>
      (\<forall>ys k zs. ks' = ys @ k # zs \<longrightarrow> nbr_table_next s' t (item_from_key s' t k) = Some (first_item s' zs t))"
    if t: "nbr_table_is_registered s' t" for t
    using table_head_first [OF inv registered_ok [OF tok t]] get_from_lladdr_eq(1) [OF inv registered_ok [OF tok t]]
      table_next_first [OF _ registered_ok [OF tok t]] inv by blast
  ultimately show ?thesis using r by blast
qed

lemma nbr_runs_keep_tables_witness:
  "\<exists>s' ks'. nbr_run noting_conf [Nbr_add 64 (Some neighbor_3) 0 0, Nbr_clear] full_neighbors = Some s' \<and>
    nbr_wf s' ks' \<and> length ks' \<le> mnum (neighbor_addr_mem s')"
proof -
  have "nbr_run_allowed noting_conf [Nbr_add 64 (Some neighbor_3) 0 0, Nbr_clear] full_neighbors"
    using full_neighbors_table by (simp add: nbr_allowed_def split: option.split)
  from nbr_runs_keep_tables [OF full_neighbors_wf noting_conf_ok this] show ?thesis by blast
qed

text \<open>
  C39: In the default build, adding an address to a table either hands out its item, zeroed, or changes
  nothing at all, and it is refused only when the address is new, every key is taken and every neighbor
  is locked (\<open>nbr_refused\<close>). If the address is new and every key is taken, one neighbor that nobody has
  locked goes, from all tables: one of those that are in the fewest tables (\<open>gone_ok\<close>). Nobody else's
  entries change.
\<close>

theorem nbr_add_evicts_unlocked:
  assumes "nbr_wf s ks" "nbr_table_is_registered s t" "default_policy cf" "nbr_callbacks_ok cf"
  shows "\<exists>r s' ks'. nbr_table_add_lladdr cf t l reason data s = Some (r, s') \<and> nbr_wf s' ks' \<and>
    (r = NULL \<longleftrightarrow> nbr_refused s ks (lladdr_of l)) \<and>
    (if r = NULL then s' = s
     else nbr_lookup s' ks' t (lladdr_of l) = Some r \<and> (\<forall>i<nat (tb_item_size (tables s t)). item_bytes s' (r + i) = 0) \<and>
       (\<exists>gone. gone_ok s ks (lladdr_of l) gone \<and> key_lladdr s' ` set ks' = insert (lladdr_of l) (key_lladdr s ` set ks - gone) \<and>
         (\<forall>u b. nbr_table_is_registered s u \<longrightarrow> b \<notin> gone \<longrightarrow> (u, b) \<noteq> (t, lladdr_of l) \<longrightarrow>
           nbr_lookup s' ks' u b = nbr_lookup s ks u b)))"
  by (rule nbr_add_spec [OF assms])

lemma nbr_add_evicts_unlocked_witness:
  "\<exists>r s' ks'. nbr_table_add_lladdr noting_conf 64 (Some neighbor_3) 0 0 full_neighbors = Some (r, s') \<and> r \<noteq> NULL \<and>
    key_lladdr s' ` set ks' = {neighbor_1, neighbor_3} \<and> nbr_lookup s' ks' 64 neighbor_3 = Some r"
proof -
  let ?s = full_neighbors
  have addrs: "key_lladdr ?s ` set [4096, 4112] = {neighbor_1, neighbor_2}" "neighbor_3 \<noteq> neighbor_1" "neighbor_3 \<noteq> neighbor_2"
    "neighbor_1 \<noteq> neighbor_2" "mnum (neighbor_addr_mem ?s) = 2" "key_lladdr ?s 4096 = neighbor_1" "key_lladdr ?s 4112 = neighbor_2"
    by (simp_all add: full_neighbors_def neighbor_1_def neighbor_2_def neighbor_3_def insert_commute)
  have locks: "\<not> unlocked ?s 4096" "unlocked ?s 4112"
    by (simp_all add: unlocked_def full_neighbors_slots) (simp_all add: full_neighbors_def)
  have l: "lladdr_of (Some neighbor_3) = neighbor_3" by (simp add: lladdr_of_def)
  from nbr_add_evicts_unlocked [OF full_neighbors_wf full_neighbors_table noting_conf_ok, of "Some neighbor_3" 0 0, unfolded l]
  obtain r s' ks' where a: "nbr_table_add_lladdr noting_conf 64 (Some neighbor_3) 0 0 ?s = Some (r, s')"
    "r = NULL \<longleftrightarrow> nbr_refused ?s [4096, 4112] neighbor_3"
    "r \<noteq> NULL \<longrightarrow> nbr_lookup s' ks' 64 neighbor_3 = Some r \<and> (\<exists>gone. gone_ok ?s [4096, 4112] neighbor_3 gone \<and>
       key_lladdr s' ` set ks' = insert neighbor_3 (key_lladdr ?s ` set [4096, 4112] - gone))" by (auto split: if_splits)
  have r: "r \<noteq> NULL" using a(2) locks by (simp add: nbr_refused_def)
  then obtain gone where g: "gone_ok ?s [4096, 4112] neighbor_3 gone"
    "key_lladdr s' ` set ks' = insert neighbor_3 ({neighbor_1, neighbor_2} - gone)" "nbr_lookup s' ks' 64 neighbor_3 = Some r"
    using a(3) addrs(1) by auto
  have "gone = {neighbor_2}" using g(1) addrs locks by (auto simp: gone_ok_def)
  with g addrs(2-4) have "key_lladdr s' ` set ks' = {neighbor_1, neighbor_3}" by auto
  with a(1) r g(3) show ?thesis by blast
qed

section \<open>The event log\<close>



text \<open>
  The log of the last run is printed by a timer some seconds after the start. An event that is
  logged before that starts again at the beginning of the log and overwrites its length: whatever
  the last run left, at most as many lines are printed as the new event has words.
\<close>

theorem early_event_loses_log:
  assumes "chip_laws chip" "event_ok ev"
  shows "length (fst (read_log chip own (record_event chip ev (log_restart s)))) \<le> (length (event_bytes ev) + 3) div 4"
  by (rule early_event_reads_short [OF assms])

lemma early_event_loses_log_witness:
  "length (fst (read_log sample_chip linkaddr_null (record_event sample_chip (Hello_received linkaddr_null)
     (log_restart (record_run sample_chip (replicate 5 Is_edge) blank_log))))) \<le> 3"
  using early_event_loses_log [OF sample_chip_laws, of "Hello_received linkaddr_null" linkaddr_null
      "record_run sample_chip (replicate 5 Is_edge) blank_log"] by (simp add: LINKADDR_SIZE_def)

end
